(* ===== verification/Prelude.thy ===== *)
theory Prelude
  imports Main "HOL-Library.Word"
begin

text \<open>
  Shared vocabulary of the development: the C types the sources use, the conversion of
  string literals to bytes, and the generic facts on lists, options and machine words
  that several components need.
\<close>

unbundle bit_operations_syntax

section \<open>C types\<close>

text \<open>
  \<open>unsigned char\<close> and \<open>char\<close> are bytes; \<open>size_t\<close>, \<open>uint64_t\<close> and
  \<open>unsigned long long\<close> are 64-bit words on the platforms the makefiles target.
  A range (\<open>src/array/range.h\<close>) is a list of the elements between its two pointers; a
  buffer whose capacity does not matter to a component is the list of its contents (the
  theory \<open>Arrays\<close> justifies this reading of buffers).
\<close>

type_synonym byte = "8 word"
type_synonym size_t = "64 word"
type_synonym bytes = "byte list"

definition str :: "string \<Rightarrow> bytes" where
  "str s = map of_char s"

definition byte_of :: "char \<Rightarrow> byte" where
  "byte_of c = of_char c"

text \<open>
  The C library's \<open>isspace\<close> (as a truth value), \<open>strlen\<close> and the string at a point of the
  memory: the bytes before the first null byte, \<open>None\<close> when there is none.
\<close>

definition isspace :: "byte \<Rightarrow> bool" where
  "isspace c \<longleftrightarrow> c = 32 \<or> 9 \<le> c \<and> c \<le> 13"

definition c_string :: "bytes \<Rightarrow> bytes option" where
  "c_string m = (if 0 \<in> set m then Some (takeWhile (\<lambda>c. c \<noteq> 0) m) else None)"

lemma c_string_append: "0 \<notin> set s \<Longrightarrow> c_string (s @ 0 # r) = Some s"
  by (induction s) (auto simp: c_string_def split: if_splits)

section \<open>Fact collections\<close>

named_theorems byte_simps \<open>facts that evaluate byte arithmetic\<close>
named_theorems consume \<open>facts that say how much input a parser leaves\<close>

section \<open>Words\<close>

lemma unat_byte_less [simp]: "unat (b :: byte) < 256"
  by (rule order.strict_trans2 [OF unsigned_less]) simp

lemma unat_byte_le [simp]: "unat (b :: byte) \<le> 255"
  using unat_byte_less [of b] by linarith

lemma size_t_less [simp]: "unat (n :: size_t) < 18446744073709551616"
  by (rule order.strict_trans2 [OF unsigned_less]) simp

lemma of_nat_unat_ucast: "(of_nat (unat (w :: 'a::len word)) :: 'b::len word) = ucast w"
  by (simp add: unsigned_def)

text \<open>A statement on a byte can be checked on the 256 values.\<close>

lemma byte_exhaust:
  assumes "\<forall>n \<in> set [0..<256]. P (word_of_nat n :: byte)"
  shows "P b"
proof -
  have "unat b \<in> set [0..<256]" by simp
  then have "P (word_of_nat (unat b))" using assms by blast
  then show ?thesis by simp
qed

lemma nibble_exhaust:
  assumes "list_all P (map (\<lambda>n. word_of_nat n :: byte) [0..<16])" and "x < 16"
  shows "P x"
proof -
  have "unat x < 16" using assms(2) by (simp add: word_less_nat_alt)
  then have "unat x \<in> set [0..<16]" by simp
  then have "P (word_of_nat (unat x))" using assms(1) unfolding list_all_iff by (simp only: set_map) blast
  then show ?thesis by simp
qed

text \<open>The marker bit 128 of a byte, and the seven bits under it.\<close>

lemma and_not_128 [byte_simps]: "(c :: byte) AND NOT 128 = take_bit 7 c"
proof -
  have "NOT 128 = (mask 7 :: byte)" by (simp add: mask_eq_exp_minus_1)
  then show ?thesis by (simp add: take_bit_eq_mask)
qed

lemma and_minus_129 [byte_simps]: "(c :: byte) AND - 129 = take_bit 7 c"
  using and_not_128 [of c] by simp

lemma and_128_eq_0 [byte_simps]: "(c :: byte) AND 128 = 0 \<longleftrightarrow> \<not> bit c 7"
proof -
  have "128 = (push_bit 7 1 :: byte)" by simp
  then show ?thesis by (simp only: bit_iff_and_push_bit_not_eq_0 not_not)
qed

lemma bit_or_128 [byte_simps]: "bit ((c :: byte) OR 128) 7"
  by (simp add: bit_or_iff)

lemma take_bit_or_128 [byte_simps]: "take_bit 7 ((c :: byte) OR 128) = take_bit 7 c"
  by (simp add: take_bit_or)

section \<open>Lists\<close>

lemma take_length_append [simp]: "take (length xs) (xs @ ys) = xs"
  by simp

lemma drop_length_append [simp]: "drop (length xs) (xs @ ys) = ys"
  by simp

lemma length_takeWhile_eq_iff:
  "length (takeWhile P xs) = length xs \<longleftrightarrow> (\<forall>x \<in> set xs. P x)"
  by (metis takeWhile_dropWhile_id takeWhile_eq_all_conv append_Nil2 append_eq_append_conv)

lemma nth_append_shift: "i < length ys \<Longrightarrow> (xs @ ys) ! (length xs + i) = ys ! i"
  by (simp add: nth_append)

end
