(* ===== verification/Codec.thy ===== *)
theory Codec
  imports Prelude
begin

text \<open>
  Two contracts that the encodings of the program satisfy. A \<^emph>\<open>codec\<close> decodes exactly
  what it encoded; a \<^emph>\<open>prefix codec\<close> also finds the end of the encoding in a longer
  input and leaves the rest. The consequences that the rest of the development uses are
  proved here once: encodings are injective, no encoding is a prefix of another, and a
  sequence of encodings can be decoded one after the other.
\<close>

locale codec =
  fixes enc :: "'a \<Rightarrow> 'b"
    and dec :: "'b \<Rightarrow> 'a option"
    and ok :: "'a \<Rightarrow> bool"
  assumes dec_enc: "ok a \<Longrightarrow> dec (enc a) = Some a"
begin

lemma enc_inject: "ok a \<Longrightarrow> ok b \<Longrightarrow> enc a = enc b \<longleftrightarrow> a = b"
  using dec_enc by (metis option.inject)

lemma inj_on_enc: "inj_on enc {a. ok a}"
  by (rule inj_onI) (simp add: enc_inject)

end

locale prefix_codec =
  fixes enc :: "'a \<Rightarrow> 'b list"
    and pdec :: "'b list \<Rightarrow> ('a \<times> 'b list) option"
    and ok :: "'a \<Rightarrow> bool"
  assumes pdec_enc: "ok a \<Longrightarrow> pdec (enc a @ rest) = Some (a, rest)"
begin

lemma enc_append_inject:
  assumes "ok a" and "ok b" and "enc a @ r = enc b @ s"
  shows "a = b \<and> r = s"
proof -
  have "Some (a, r) = pdec (enc a @ r)" by (rule pdec_enc [OF assms(1), symmetric])
  also have "\<dots> = pdec (enc b @ s)" by (simp only: assms(3))
  also have "\<dots> = Some (b, s)" by (rule pdec_enc [OF assms(2)])
  finally show ?thesis by simp
qed

lemma prefix_free:
  assumes "ok a" and "ok b" and "enc b = enc a @ s"
  shows "a = b \<and> s = []"
proof -
  have "enc a @ s = enc b @ []" by (simp only: assms(3) append_Nil2)
  from enc_append_inject [OF assms(1,2) this] show ?thesis .
qed

end

sublocale prefix_codec \<subseteq> whole: codec enc "\<lambda>bs. map_option fst (pdec bs)" ok
  by unfold_locales (use pdec_enc [of _ "[]"] in simp)

end
