(* ===== verification/Vluint.thy ===== *)
theory Vluint
  imports Codec
begin

text \<open>
  Variable-length unsigned integers (\<open>src/vluint/vluint.c\<close>): seven bits a byte, low
  bits first, the top bit set on every byte but the last.
\<close>

section \<open>Reading and writing\<close>

text \<open>
  \<open>vluint_read\<close> returns \<open>false\<close> on a truncated input and writes none of its out
  arguments: \<open>None\<close>. Otherwise its outputs are the value, the range of the encoding and
  the range after it. The sum and the power are \<open>size_t\<close> and wrap.
\<close>

fun vluint_read_loop ::
    "bytes \<Rightarrow> bytes \<Rightarrow> size_t \<Rightarrow> size_t \<Rightarrow> (size_t \<times> bytes \<times> bytes) option" where
  "vluint_read_loop seen [] result pow = None"
| "vluint_read_loop seen (c # rest) result pow =
     (let result' = result + pow * ucast (c AND NOT 128)
      in if c AND 128 = 0 then Some (result', seen @ [c], rest)
         else vluint_read_loop (seen @ [c]) rest result' (pow * 128))"

definition vluint_read :: "bytes \<Rightarrow> (size_t \<times> bytes \<times> bytes) option" where
  "vluint_read input = vluint_read_loop [] input 0 1"

text \<open>\<open>vluint_write\<close> appends to its output buffer; the shift makes the number smaller.\<close>

lemma unat_drop_7_eq: "unat (drop_bit 7 n :: size_t) = unat n div 128"
  by (simp add: drop_bit_eq_div unat_div)

lemma unat_drop_7: "128 \<le> n \<Longrightarrow> unat (drop_bit 7 n :: size_t) < unat n"
proof -
  assume "128 \<le> n"
  then have "128 \<le> unat n" by (simp add: word_le_nat_alt)
  then show ?thesis by (simp add: unat_drop_7_eq)
qed

function vluint_write :: "bytes \<Rightarrow> size_t \<Rightarrow> bytes" where
  "vluint_write out n =
     (if n \<ge> 128
      then vluint_write (out @ [ucast (n mod 128) OR 128]) (drop_bit 7 n)
      else out @ [ucast n])"
  by pat_completeness auto
termination
proof (relation "measure (\<lambda>(out, n). unat n)")
  show "wf (measure (\<lambda>(out :: bytes, n :: size_t). unat n))" by simp
next
  fix out :: bytes and n :: size_t
  assume "128 \<le> n"
  then show "((out @ [ucast (n mod 128) OR 128], drop_bit 7 n), out, n)
      \<in> measure (\<lambda>(out, n). unat n)"
    by (simp add: unat_drop_7)
qed

declare vluint_write.simps [simp del]

section \<open>Round trip\<close>

text \<open>The two halves of a group: its low seven bits and the rest of the number.\<close>

lemma group_bits: "ucast (take_bit 7 (ucast (n mod 128 :: size_t) :: byte)) = n mod 128"
proof -
  have "n mod 128 = take_bit 7 n" by (simp add: take_bit_eq_mod)
  then show ?thesis by (auto intro: bit_word_eqI simp: bit_simps)
qed

lemma group_split: "n mod 128 + 128 * drop_bit 7 n = (n :: size_t)"
  using bits_ident [of 7 n] by (simp add: take_bit_eq_mod push_bit_eq_mult ac_simps)

lemma last_group_bits:
  assumes "\<not> (128 :: size_t) \<le> n"
  shows "ucast (take_bit 7 (ucast n :: byte)) = n" and "\<not> bit (ucast n :: byte) 7"
proof -
  have n: "take_bit 7 n = n" using assms by (simp add: take_bit_eq_mod mod_word_less)
  have "ucast (take_bit 7 (ucast n :: byte)) = take_bit 7 n"
    by (rule bit_word_eqI) (auto simp: bit_simps)
  then show "ucast (take_bit 7 (ucast n :: byte)) = n" by (simp only: n)
  have "\<not> bit (ucast (take_bit 7 n) :: byte) 7" by (simp add: bit_simps)
  then show "\<not> bit (ucast n :: byte) 7" unfolding n .
qed

text \<open>The output argument is only appended to.\<close>

lemma vluint_write_append: "vluint_write (pre @ out) n = pre @ vluint_write out n"
proof (induction out n arbitrary: pre rule: vluint_write.induct)
  case (1 out n)
  then show ?case by (cases "128 \<le> n") (simp_all add: vluint_write.simps [of "pre @ out" n] vluint_write.simps [of out n])
qed

lemma vluint_write_out: "vluint_write out n = out @ vluint_write [] n"
  using vluint_write_append [of out "[]" n] by simp

lemma vluint_write_step:
  "128 \<le> n \<Longrightarrow> vluint_write [] n = (ucast (n mod 128) OR 128) # vluint_write [] (drop_bit 7 n)"
  by (subst vluint_write.simps) (simp add: vluint_write_out [of "[_]"])

lemma vluint_write_last: "\<not> 128 \<le> n \<Longrightarrow> vluint_write [] n = [ucast n]"
  by (subst vluint_write.simps) simp

lemma vluint_induct [case_names group]:
  assumes "\<And>n. (128 \<le> n \<Longrightarrow> P (drop_bit 7 n)) \<Longrightarrow> P n"
  shows "P (n :: size_t)"
  by (induction n rule: measure_induct_rule [of unat]) (use assms unat_drop_7 in blast)

lemma vluint_read_loop_write:
  "vluint_read_loop seen (vluint_write [] n @ rest) result pow
     = Some (result + pow * n, seen @ vluint_write [] n, rest)"
proof (induction n arbitrary: seen result pow rule: vluint_induct)
  case (group n)
  show ?case
  proof (cases "128 \<le> n")
    case True
    have "result + pow * (n mod 128) + pow * 128 * drop_bit 7 n
        = result + pow * (n mod 128 + 128 * drop_bit 7 n)"
      by (simp add: algebra_simps)
    also have "\<dots> = result + pow * n" by (simp only: group_split)
    finally show ?thesis
      using True group [OF True] by (simp add: vluint_write_step byte_simps group_bits)
  next
    case False
    then show ?thesis
      by (simp add: vluint_write_last byte_simps last_group_bits)
  qed
qed

lemma vluint_read_write:
  "vluint_read (vluint_write [] n @ rest) = Some (n, vluint_write [] n, rest)"
  by (simp add: vluint_read_def vluint_read_loop_write)

text \<open>A successful read splits its input in the encoding and the rest.\<close>

lemma vluint_read_loop_split:
  "vluint_read_loop seen input result pow = Some (n, v, rest) \<Longrightarrow>
     \<exists>mid. v = seen @ mid \<and> input = mid @ rest \<and> mid \<noteq> []"
proof (induction input arbitrary: seen result pow)
  case Nil
  then show ?case by simp
next
  case (Cons c cs)
  show ?case
  proof (cases "c AND 128 = 0")
    case True
    with Cons.prems show ?thesis by auto
  next
    case False
    with Cons.prems Cons.IH [of "seen @ [c]" "result + pow * ucast (c AND NOT 128)" "pow * 128"]
    show ?thesis by auto
  qed
qed

lemma vluint_read_loop_append:
  "vluint_read_loop seen a result pow = Some (n, v, rest) \<Longrightarrow>
     vluint_read_loop seen (a @ b) result pow = Some (n, v, rest @ b)"
  by (induction seen a result pow rule: vluint_read_loop.induct) (auto simp: Let_def split: if_splits)

lemma vluint_read_append:
  "vluint_read a = Some (n, v, rest) \<Longrightarrow> vluint_read (a @ b) = Some (n, v, rest @ b)"
  by (simp add: vluint_read_def vluint_read_loop_append)

lemma vluint_read_split: "vluint_read input = Some (n, v, rest) \<Longrightarrow> input = v @ rest \<and> v \<noteq> []"
  using vluint_read_loop_split [of "[]" input 0 1 n v rest] by (auto simp: vluint_read_def)

lemma vluint_read_shorter [consume]:
  "vluint_read input = Some (n, v, rest) \<Longrightarrow> length rest < length input"
  by (drule vluint_read_split) auto

text \<open>The read fails exactly when every byte of the input has its top bit set.\<close>

lemma vluint_read_loop_None:
  "vluint_read_loop seen input result pow = None \<longleftrightarrow> (\<forall>c \<in> set input. bit c 7)"
  by (induction input arbitrary: seen result pow) (auto simp: Let_def byte_simps)

lemma vluint_read_None: "vluint_read input = None \<longleftrightarrow> (\<forall>c \<in> set input. bit c 7)"
  by (simp add: vluint_read_def vluint_read_loop_None)

section \<open>The size of an encoding\<close>

lemma vluint_write_not_empty [simp]: "vluint_write [] n \<noteq> []"
  by (cases "128 \<le> n") (simp_all add: vluint_write_step vluint_write_last)

lemma length_vluint_write: "unat n < 128 ^ k \<Longrightarrow> 0 < k \<Longrightarrow> length (vluint_write [] n) \<le> k"
proof (induction n arbitrary: k rule: vluint_induct)
  case (group n)
  show ?case
  proof (cases "128 \<le> n")
    case True
    then have n: "128 \<le> unat n" by (simp add: word_le_nat_alt)
    obtain j where k: "k = Suc j" using group.prems(2) by (cases k) auto
    have "j \<noteq> 0" using n group.prems(1) k by (cases j) auto
    moreover have "unat (drop_bit 7 n) < 128 ^ j"
      using group.prems(1) k by (simp add: unat_drop_7_eq less_mult_imp_div_less ac_simps)
    ultimately show ?thesis using True group.IH [OF True, of j] k by (simp add: vluint_write_step)
  next
    case False
    then show ?thesis using group.prems by (simp add: vluint_write_last)
  qed
qed

lemma length_vluint_write_10: "length (vluint_write [] n) \<le> 10"
proof (rule length_vluint_write)
  show "unat n < 128 ^ 10" by (rule order.strict_trans [OF size_t_less]) simp
qed simp

section \<open>The contract\<close>

text \<open>\<open>vluint\<close> is a prefix code on all of \<open>size_t\<close>.\<close>

definition vluint_pdec :: "bytes \<Rightarrow> (size_t \<times> bytes) option" where
  "vluint_pdec bs = map_option (\<lambda>(n, _, rest). (n, rest)) (vluint_read bs)"

interpretation vl: prefix_codec "vluint_write []" vluint_pdec "\<lambda>_. True"
  by unfold_locales (simp add: vluint_pdec_def vluint_read_write)

section \<open>Properties\<close>

text \<open>\<open>vluint_write\<close> appends at most ten bytes to its output buffer, and
  \<open>vluint_read\<close>, given these bytes and anything after them, returns the number that was
  written, the range of its encoding and the range after it, for every 64-bit number.\<close>

theorem vluint_roundtrip:
  "\<exists>v. vluint_write out n = out @ v \<and> length v \<le> 10 \<and>
       vluint_read (v @ rest) = Some (n, v, rest)"
  using vluint_write_out [of out n] length_vluint_write_10 [of n] vluint_read_write [of n rest]
  by blast

text \<open>Two encodings followed by arbitrary bytes are equal only if the numbers and
  the bytes after them are: no encoding is a prefix of another.\<close>

lemma vluint_write_prefix_free:
  "(vluint_write [] m @ r = vluint_write [] n @ s) = (m = n \<and> r = s)"
  using vl.enc_append_inject [of m r n s] by auto

text \<open>\<open>vluint_read\<close> rejects exactly the truncated inputs, those in which every
  byte has the continuation bit set; the empty input is one.\<close>

theorem vluint_read_truncated:
  "(vluint_read input = None) = list_all (\<lambda>c. c AND 128 \<noteq> 0) input"
  by (simp add: vluint_read_None list_all_iff byte_simps)

end
