(* ===== verification/Bases.thy ===== *)
theory Bases
  imports Codec
begin

text \<open>
  The textual encodings of byte strings: \<open>src/base16/base16.c\<close>,
  \<open>src/base2/base2.c\<close> and the prefixed encodings of \<open>src/metabase/metabase.c\<close> that
  dispatch to them. The encoders append to an output buffer. The decoders return
  \<open>bool\<close> and leave in the output buffer what they had decoded when they stopped, so the
  model returns both. \<open>char\<close> is signed: a byte from 128 on is negative there and lies
  outside every range the decoders test, as it does unsigned.
\<close>

section \<open>base16\<close>

text \<open>The body of the inner loop of \<open>base16_encode\<close>, and of that of \<open>base16_decode\<close>.\<close>

definition hex_digit :: "byte \<Rightarrow> byte" where
  "hex_digit x = (if x \<le> 9 then x + byte_of (CHR ''0'') else x + (byte_of (CHR ''a'') - 10))"

definition tolower :: "byte \<Rightarrow> byte" where
  "tolower c = (if byte_of (CHR ''A'') \<le> c \<and> c \<le> byte_of (CHR ''Z'') then c + 32 else c)"

definition hex_value :: "byte \<Rightarrow> byte option" where
  "hex_value c =
     (if byte_of (CHR ''0'') \<le> c \<and> c \<le> byte_of (CHR ''9'') then Some (c - byte_of (CHR ''0''))
      else if byte_of (CHR ''a'') \<le> tolower c \<and> tolower c \<le> byte_of (CHR ''f'')
      then Some (10 + (tolower c - byte_of (CHR ''a'')))
      else None)"

text \<open>\<open>result[!little_endian]\<close> and \<open>result[little_endian]\<close> of a two-element array.\<close>

definition pick :: "'a \<Rightarrow> 'a \<Rightarrow> bool \<Rightarrow> 'a" where
  "pick r0 r1 i = (if i then r1 else r0)"

fun base16_encode :: "bytes \<Rightarrow> bytes \<Rightarrow> bool \<Rightarrow> bytes" where
  "base16_encode out [] little_endian = out"
| "base16_encode out (c # input) little_endian =
     (let r0 = hex_digit (c mod 16); r1 = hex_digit (c div 16)
      in base16_encode
           (out @ [pick r0 r1 (\<not> little_endian)] @ [pick r0 r1 little_endian])
           input little_endian)"

text \<open>
  \<open>base16_decode\<close> takes two characters a step; past the end the second one counts as 0.
\<close>

fun base16_decode :: "bytes \<Rightarrow> bytes \<Rightarrow> bool \<Rightarrow> bool \<times> bytes" where
  "base16_decode out [] little_endian = (True, out)"
| "base16_decode out [c] little_endian =
     (case hex_value c of
        None \<Rightarrow> (False, out)
      | Some r0 \<Rightarrow> (True, out @ [pick r0 0 (\<not> little_endian) + pick r0 0 little_endian * 16]))"
| "base16_decode out (c # d # input) little_endian =
     (case hex_value c of
        None \<Rightarrow> (False, out)
      | Some r0 \<Rightarrow>
          (case hex_value d of
             None \<Rightarrow> (False, out)
           | Some r1 \<Rightarrow>
               base16_decode
                 (out @ [pick r0 r1 (\<not> little_endian) + pick r0 r1 little_endian * 16])
                 input little_endian))"

section \<open>base2\<close>

text \<open>\<open>for (bit = 1; bit < 256; bit <<= 1)\<close>: the bits of a byte, the lowest first.\<close>

definition base2_encode_byte :: "byte \<Rightarrow> bytes" where
  "base2_encode_byte c =
     map (\<lambda>k. if c AND push_bit k 1 \<noteq> 0 then byte_of (CHR ''1'') else byte_of (CHR ''0'')) [0..<8]"

fun base2_encode :: "bytes \<Rightarrow> bytes \<Rightarrow> bytes" where
  "base2_encode out [] = out"
| "base2_encode out (c # input) = base2_encode (out @ base2_encode_byte c) input"

text \<open>
  The loop of \<open>base2_decode\<close>: \<open>i\<close> is the distance from the start of the input.
  The final assertion is compiled out of the release build.
\<close>

fun base2_decode_loop :: "nat \<Rightarrow> byte \<Rightarrow> byte \<Rightarrow> bytes \<Rightarrow> bytes \<Rightarrow> bool \<times> bytes" where
  "base2_decode_loop i b sel out [] = (True, out)"
| "base2_decode_loop i b sel out (c # input) =
     (let b' = (if i mod 8 = 0 then 0 else b);
          sel' = (if i mod 8 = 0 then 1 else sel)
      in if c = byte_of (CHR ''1'') \<or> c = byte_of (CHR ''0'')
         then let b'' = (if c = byte_of (CHR ''1'') then b' OR sel' else b')
              in if i mod 8 = 7
                 then base2_decode_loop (Suc i) b'' sel' (out @ [b'']) input
                 else base2_decode_loop (Suc i) b'' (push_bit 1 sel') out input
         else (False, out))"

definition base2_decode :: "bytes \<Rightarrow> bytes \<Rightarrow> bool \<times> bytes" where
  "base2_decode out input =
     (if length input mod 8 \<noteq> 0 then (False, out) else base2_decode_loop 0 0 1 out input)"

section \<open>metabase\<close>

datatype metabase_id =
    METABASE_IDENTITY | METABASE_BASE2 | METABASE_BASE8 | METABASE_BASE10
  | METABASE_BASE16 | METABASE_BASE16UPPER
  | METABASE_BASE32HEX | METABASE_BASE32HEXUPPER | METABASE_BASE32HEXPAD
  | METABASE_BASE32HEXPADUPPER | METABASE_BASE32 | METABASE_BASE32UPPER
  | METABASE_BASE32PAD | METABASE_BASE32PADUPPER | METABASE_BASE32Z
  | METABASE_BASE58FLICKR | METABASE_BASE58BTC
  | METABASE_BASE64 | METABASE_BASE64PAD | METABASE_BASE64URL | METABASE_BASE64URLPAD
  | METABASE_MBTI

text \<open>The values of the enumeration.\<close>

definition metabase_table :: "(metabase_id \<times> byte) list" where
  "metabase_table =
     [(METABASE_IDENTITY, 0),
      (METABASE_BASE2, byte_of (CHR ''0'')), (METABASE_BASE8, byte_of (CHR ''7'')),
      (METABASE_BASE10, byte_of (CHR ''9'')), (METABASE_BASE16, byte_of (CHR ''f'')),
      (METABASE_BASE16UPPER, byte_of (CHR ''F'')), (METABASE_BASE32HEX, byte_of (CHR ''v'')),
      (METABASE_BASE32HEXUPPER, byte_of (CHR ''V'')), (METABASE_BASE32HEXPAD, byte_of (CHR ''t'')),
      (METABASE_BASE32HEXPADUPPER, byte_of (CHR ''T'')), (METABASE_BASE32, byte_of (CHR ''b'')),
      (METABASE_BASE32UPPER, byte_of (CHR ''B'')), (METABASE_BASE32PAD, byte_of (CHR ''c'')),
      (METABASE_BASE32PADUPPER, byte_of (CHR ''C'')), (METABASE_BASE32Z, byte_of (CHR ''h'')),
      (METABASE_BASE58FLICKR, byte_of (CHR ''Z'')), (METABASE_BASE58BTC, byte_of (CHR ''z'')),
      (METABASE_BASE64, byte_of (CHR ''m'')), (METABASE_BASE64PAD, byte_of (CHR ''M'')),
      (METABASE_BASE64URL, byte_of (CHR ''u'')), (METABASE_BASE64URLPAD, byte_of (CHR ''U'')),
      (METABASE_MBTI, byte_of (CHR ''P''))]"

definition metabase_code :: "metabase_id \<Rightarrow> byte" where
  "metabase_code i = the (map_of metabase_table i)"

text \<open>\<open>(metabase_id) c\<close>: \<open>None\<close> is a value outside the enumeration.\<close>

definition metabase_of_byte :: "byte \<Rightarrow> metabase_id option" where
  "metabase_of_byte c = map_of (map (\<lambda>(i, b). (b, i)) metabase_table) c"

text \<open>
  The base decoders read the first character of the input before anything else. On an
  empty range that is a read past its end: \<open>None\<close>.
\<close>

fun metabase_decode_base16 :: "bytes \<Rightarrow> bytes \<Rightarrow> (bool \<times> bytes) option" where
  "metabase_decode_base16 out [] = None"
| "metabase_decode_base16 out (c # input) =
     Some (if c \<noteq> metabase_code METABASE_BASE16 \<and> c \<noteq> metabase_code METABASE_BASE16UPPER
           then (False, out) else base16_decode out input False)"

definition metabase_encode_base16 :: "bytes \<Rightarrow> bytes \<Rightarrow> bytes" where
  "metabase_encode_base16 out input =
     base16_encode (out @ [metabase_code METABASE_BASE16]) input False"

definition print_mbti_personality :: "bytes \<Rightarrow> byte \<Rightarrow> bytes" where
  "print_mbti_personality out input =
     out @ [if input AND 1 \<noteq> 0 then byte_of (CHR ''E'') else byte_of (CHR ''I'')]
         @ [if input AND 2 \<noteq> 0 then byte_of (CHR ''S'') else byte_of (CHR ''N'')]
         @ [if input AND 4 \<noteq> 0 then byte_of (CHR ''F'') else byte_of (CHR ''T'')]
         @ [if input AND 8 \<noteq> 0 then byte_of (CHR ''J'') else byte_of (CHR ''P'')]"

definition metabase_encode_mbti :: "bytes \<Rightarrow> bytes \<Rightarrow> bytes" where
  "metabase_encode_mbti out input =
     fold (\<lambda>c o'. print_mbti_personality (print_mbti_personality o' (c mod 16)) (c div 16))
       input (out @ [metabase_code METABASE_MBTI])"

definition metabase_encode_base2 :: "bytes \<Rightarrow> bytes \<Rightarrow> bytes" where
  "metabase_encode_base2 out input = base2_encode (out @ [metabase_code METABASE_BASE2]) input"

fun metabase_decode_base2 :: "bytes \<Rightarrow> bytes \<Rightarrow> (bool \<times> bytes) option" where
  "metabase_decode_base2 out [] = None"
| "metabase_decode_base2 out (c # input) =
     Some (if c \<noteq> metabase_code METABASE_BASE2 then (False, out) else base2_decode out input)"

fun metabase_name :: "metabase_id option \<Rightarrow> string" where
  "metabase_name None = ''invalid''"
| "metabase_name (Some METABASE_IDENTITY) = ''NIL''"
| "metabase_name (Some METABASE_BASE2) = ''base2''"
| "metabase_name (Some METABASE_BASE8) = ''base8''"
| "metabase_name (Some METABASE_BASE10) = ''base10''"
| "metabase_name (Some METABASE_BASE16) = ''base16''"
| "metabase_name (Some METABASE_BASE16UPPER) = ''base16-upper''"
| "metabase_name (Some METABASE_BASE32HEX) = ''base32-hex''"
| "metabase_name (Some METABASE_BASE32HEXUPPER) = ''base32-hex-upper''"
| "metabase_name (Some METABASE_BASE32HEXPAD) = ''base32-hex-pad''"
| "metabase_name (Some METABASE_BASE32HEXPADUPPER) = ''base32-hex-pad-upper''"
| "metabase_name (Some METABASE_BASE32) = ''base32''"
| "metabase_name (Some METABASE_BASE32UPPER) = ''base32-upper''"
| "metabase_name (Some METABASE_BASE32PAD) = ''base32-pad''"
| "metabase_name (Some METABASE_BASE32PADUPPER) = ''base32-pad-upper''"
| "metabase_name (Some METABASE_BASE32Z) = ''base32-z''"
| "metabase_name (Some METABASE_BASE58FLICKR) = ''base58-flickr''"
| "metabase_name (Some METABASE_BASE58BTC) = ''base58-btc''"
| "metabase_name (Some METABASE_BASE64) = ''base64''"
| "metabase_name (Some METABASE_BASE64PAD) = ''base64-pad''"
| "metabase_name (Some METABASE_BASE64URL) = ''base64-url''"
| "metabase_name (Some METABASE_BASE64URLPAD) = ''base64-url-pad''"
| "metabase_name (Some METABASE_MBTI) = ''MBTI''"

text \<open>
  The generic decoder; the identifiers without a decoder are logged under their name and
  rejected, as are bytes that are no identifier.
\<close>

fun metabase_decode :: "bytes \<Rightarrow> bytes \<Rightarrow> (bool \<times> bytes) option" where
  "metabase_decode out [] = None"
| "metabase_decode out (c # input) =
     (case metabase_of_byte c of
        Some METABASE_BASE16 \<Rightarrow> metabase_decode_base16 out (c # input)
      | Some METABASE_BASE2 \<Rightarrow> metabase_decode_base2 out (c # input)
      | _ \<Rightarrow> Some (False, out))"

definition metabase_identify_name :: "string \<Rightarrow> metabase_id" where
  "metabase_identify_name name =
     (case map_of [(''base16'', METABASE_BASE16), (''base2'', METABASE_BASE2)] name of
        Some i \<Rightarrow> i | None \<Rightarrow> METABASE_IDENTITY)"

text \<open>The encoder function pointer; \<open>None\<close> is the null pointer.\<close>

definition metabase_select_encoder :: "metabase_id \<Rightarrow> (bytes \<Rightarrow> bytes \<Rightarrow> bytes) option" where
  "metabase_select_encoder i =
     (case i of
        METABASE_BASE16 \<Rightarrow> Some metabase_encode_base16
      | METABASE_BASE2 \<Rightarrow> Some metabase_encode_base2
      | _ \<Rightarrow> None)"

section \<open>base16 round trip\<close>

lemma hex_value_digit: "x < 16 \<Longrightarrow> hex_value (hex_digit x) = Some x"
proof (rule nibble_exhaust [of "\<lambda>x. hex_value (hex_digit x) = Some x"])
  show "list_all (\<lambda>x. hex_value (hex_digit x) = Some x) (map (\<lambda>n. word_of_nat n) [0..<16])"
    by (simp add: upt_rec hex_value_def hex_digit_def tolower_def byte_of_def)
qed

lemma nibbles: "(c :: byte) mod 16 < 16" "(c :: byte) div 16 < 16"
  "c mod 16 + c div 16 * 16 = c"
proof -
  show "c mod 16 < 16" by (simp add: word_less_nat_alt unat_mod)
  show "c div 16 < 16" by (simp add: word_less_nat_alt unat_div less_mult_imp_div_less)
  show "c mod 16 + c div 16 * 16 = c" by (simp add: mod_div_mult_eq)
qed

lemma base16_encode_append: "base16_encode (pre @ out) bs le = pre @ base16_encode out bs le"
  by (induction out bs le arbitrary: pre rule: base16_encode.induct) (simp_all add: Let_def)

lemma base16_encode_out: "base16_encode out bs le = out @ base16_encode [] bs le"
  using base16_encode_append [of out "[]"] by simp

lemma base16_encode_Cons:
  "base16_encode [] (c # bs) le =
     pick (hex_digit (c mod 16)) (hex_digit (c div 16)) (\<not> le) #
     pick (hex_digit (c mod 16)) (hex_digit (c div 16)) le # base16_encode [] bs le"
  by (simp add: Let_def base16_encode_out [of "[_, _]"])

lemma base16_decode_encode:
  "base16_decode out (base16_encode [] bs le) le = (True, out @ bs)"
proof (induction bs arbitrary: out)
  case Nil
  then show ?case by simp
next
  case (Cons c bs)
  show ?case
  proof (cases le)
    case True
    with Cons show ?thesis
      by (simp add: base16_encode_Cons pick_def hex_value_digit nibbles del: base16_encode.simps)
  next
    case False
    with Cons show ?thesis
      by (simp add: base16_encode_Cons pick_def hex_value_digit nibbles del: base16_encode.simps)
  qed
qed

lemma base16_encode_length: "length (base16_encode out bs le) = length out + 2 * length bs"
  by (induction out bs le rule: base16_encode.induct) (simp_all add: Let_def)

interpretation b16: codec "\<lambda>bs. base16_encode [] bs le"
  "\<lambda>s. (case base16_decode [] s le of (True, bs) \<Rightarrow> Some bs | (False, _) \<Rightarrow> None)" "\<lambda>_. True"
  by unfold_locales (simp add: base16_decode_encode)

text \<open>What the decoder accepts: strings of hexadecimal digits of either case.\<close>

lemma base16_decode_accepts:
  "fst (base16_decode out s le) = list_all (\<lambda>c. hex_value c \<noteq> None) s"
  by (induction out s le rule: base16_decode.induct) (auto split: option.splits)

lemma base16_decode_length:
  "fst (base16_decode out s le) \<Longrightarrow>
     \<exists>bs. base16_decode out s le = (True, out @ bs) \<and> length bs = (length s + 1) div 2"
proof (induction out s le rule: base16_decode.induct)
  case (3 out c d input le)
  then show ?case by (fastforce split: option.splits)
qed (auto split: option.splits)

section \<open>base2 round trip\<close>

definition bit_digit :: "byte \<Rightarrow> nat \<Rightarrow> byte" where
  "bit_digit c k = (if bit c k then byte_of (CHR ''1'') else byte_of (CHR ''0''))"

lemma base2_encode_byte_bits: "base2_encode_byte c = map (bit_digit c) [0..<8]"
  by (simp add: base2_encode_byte_def bit_digit_def bit_iff_and_push_bit_not_eq_0)

lemma base2_decode_loop_reset:
  "i mod 8 = 0 \<Longrightarrow> base2_decode_loop i b sel out cs = base2_decode_loop i b' sel' out cs"
  by (cases cs) simp_all

lemma take_bit_step:
  "take_bit (Suc j) (c :: byte) = (if bit c j then take_bit j c OR push_bit j 1 else take_bit j c)"
  by (rule bit_word_eqI) (auto simp: bit_simps less_Suc_eq)

lemma digit_ne: "byte_of (CHR ''1'') \<noteq> byte_of (CHR ''0'')" by (simp add: byte_of_def)

lemma base2_decode_loop_byte:
  "j < 8 \<Longrightarrow>
   base2_decode_loop (8 * k + j) (take_bit j c) (push_bit j 1) out (map (bit_digit c) [j..<8] @ rest)
     = base2_decode_loop (8 * k + 8) 0 1 (out @ [c]) rest"
proof (induction "7 - j" arbitrary: j)
  case 0
  then have j: "j = 7" by simp
  have t: "take_bit 8 c = c" by (simp add: take_bit_word_eq_self)
  have "(8 * k + 7) mod 8 = 7" by presburger
  moreover have "base2_decode_loop (8 + 8 * k) b s o' rest = base2_decode_loop (8 * k + 8) 0 1 o' rest"
    for b s o'
    by (simp add: add.commute base2_decode_loop_reset [of _ b s _ _ 0 1])
  ultimately show ?case
    using take_bit_step [of 7 c] t digit_ne
    by (auto simp: j bit_digit_def Let_def)
next
  case (Suc d)
  then have j: "j < 7" "d = 7 - Suc j" "Suc j < 8" by simp_all
  have m: "(8 * k + j) mod 8 = j" using j by presburger
  have u: "[j..<8] = j # [Suc j..<8]" using Suc.prems by (simp add: upt_rec)
  have IH: "base2_decode_loop (Suc (8 * k + j)) (take_bit (Suc j) c) (push_bit (Suc j) 1) out
              (map (bit_digit c) [Suc j..<8] @ rest) = base2_decode_loop (8 * k + 8) 0 1 (out @ [c]) rest"
    using Suc.hyps(1) [OF j(2,3)] by simp
  have p: "push_bit (Suc 0) (push_bit j (1 :: byte)) = push_bit (Suc j) 1" by (simp only: push_bit_push_bit) simp
  show ?case
    using IH m j p digit_ne unfolding u
    by (auto simp: bit_digit_def Let_def take_bit_step simp del: push_bit_Suc upt_Suc)
qed

lemma base2_encode_append: "base2_encode (pre @ out) bs = pre @ base2_encode out bs"
  by (induction out bs arbitrary: pre rule: base2_encode.induct) simp_all

lemma base2_encode_Cons: "base2_encode out (c # bs) = out @ map (bit_digit c) [0..<8] @ base2_encode [] bs"
  using base2_encode_append [of "out @ base2_encode_byte c" "[]"]
  by (simp add: base2_encode_byte_bits del: upt_Suc)

lemma base2_encode_out: "base2_encode out bs = out @ base2_encode [] bs"
  using base2_encode_append [of out "[]"] by simp

lemma length_base2_encode: "length (base2_encode out bs) = length out + 8 * length bs"
  by (induction out bs rule: base2_encode.induct) (simp_all add: base2_encode_byte_def del: upt_Suc)

lemma base2_decode_loop_encode:
  "base2_decode_loop (8 * k) 0 1 out (base2_encode [] bs) = (True, out @ bs)"
proof (induction bs arbitrary: k out)
  case Nil
  then show ?case by simp
next
  case (Cons c bs)
  have "base2_decode_loop (8 * k) 0 1 out (base2_encode [] (c # bs))
      = base2_decode_loop (8 * Suc k) 0 1 (out @ [c]) (base2_encode [] bs)"
    using base2_decode_loop_byte [of 0 k c out "base2_encode [] bs"]
    by (simp add: base2_encode_Cons add.commute del: upt_Suc base2_encode.simps)
  then show ?case using Cons.IH [of "Suc k" "out @ [c]"] by simp
qed

lemma base2_decode_encode: "base2_decode out (base2_encode [] bs) = (True, out @ bs)"
  using base2_decode_loop_encode [of 0] by (simp add: base2_decode_def length_base2_encode)

interpretation b2: codec "base2_encode []"
  "\<lambda>s. (case base2_decode [] s of (True, bs) \<Rightarrow> Some bs | (False, _) \<Rightarrow> None)" "\<lambda>_. True"
  by unfold_locales (simp add: base2_decode_encode)

section \<open>Prefixed encodings\<close>

lemma metabase_of_code [simp]: "metabase_of_byte (metabase_code i) = Some i"
  by (cases i) (simp_all add: metabase_of_byte_def metabase_code_def metabase_table_def byte_of_def)

lemma metabase_decode_base16_encode:
  "metabase_decode out (metabase_encode_base16 [] bs) = Some (True, out @ bs)"
  by (simp add: metabase_encode_base16_def base16_encode_out [of "[_]"] base16_decode_encode)

lemma metabase_decode_base2_encode:
  "metabase_decode out (metabase_encode_base2 [] bs) = Some (True, out @ bs)"
  by (simp add: metabase_encode_base2_def base2_encode_out [of "[_]"] base2_decode_encode)

lemma select_encoder_Some:
  "metabase_select_encoder i = Some e \<longleftrightarrow>
     i = METABASE_BASE16 \<and> e = metabase_encode_base16 \<or>
     i = METABASE_BASE2 \<and> e = metabase_encode_base2"
  by (cases i) (auto simp: metabase_select_encoder_def)

section \<open>Properties\<close>

text \<open>\<open>base16_encode\<close> appends two characters for every input byte, and
  \<open>base16_decode\<close>, run with the same digit order, accepts them and appends the encoded
  bytes to its own output, for either digit order and any bytes.\<close>

theorem base16_roundtrip:
  "\<exists>s. base16_encode out bs le = out @ s \<and> length s = 2 * length bs \<and>
       base16_decode out' s le = (True, out' @ bs)"
  using base16_encode_out [of out bs le] base16_encode_length [of "[]" bs le]
    base16_decode_encode [of out' bs le]
  by auto

text \<open>\<open>base16_decode\<close> accepts a string exactly when each of its characters is a
  hexadecimal digit of either case, and then produces one byte for every two characters,
  rounded up.\<close>

theorem base16_decode_accepts_hex:
  "if list_all (\<lambda>c. hex_value c \<noteq> None) s
   then \<exists>bs. base16_decode out s le = (True, out @ bs) \<and> length bs = (length s + 1) div 2
   else \<not> fst (base16_decode out s le)"
  using base16_decode_accepts base16_decode_length by simp

text \<open>every encoder that \<open>metabase_select_encoder\<close> hands out is undone by the
  generic \<open>metabase_decode\<close>, which finds the base by the prefix character.\<close>

theorem metabase_roundtrip:
  assumes "metabase_select_encoder i = Some encoder"
  shows "\<exists>s. encoder out bs = out @ s \<and> metabase_decode out' s = Some (True, out' @ bs)"
proof -
  have "encoder out bs = out @ encoder [] bs \<and>
        metabase_decode out' (encoder [] bs) = Some (True, out' @ bs)"
    using assms metabase_decode_base16_encode [of out' bs] metabase_decode_base2_encode [of out' bs]
    by (auto simp: select_encoder_Some metabase_encode_base16_def metabase_encode_base2_def
        base16_encode_out [of "out @ _"] base16_encode_out [of "[_]"]
        base2_encode_out [of "out @ _"] base2_encode_out [of "[_]"])
  then show ?thesis by blast
qed

theorem metabase_roundtrip_witness:
  "\<exists>s. metabase_encode_base2 [1] [7] = [1] @ s \<and> metabase_decode [2] s = Some (True, [2, 7])"
  using metabase_roundtrip [of METABASE_BASE2 metabase_encode_base2 "[1]" "[7]" "[2]"]
  by (simp add: metabase_select_encoder_def)

text \<open>the names that select a usable encoder on a command line are exactly the names
  that \<open>metabase_name\<close> prints for the identifiers with an encoder.\<close>

theorem metabase_names_agree:
  "(metabase_select_encoder i \<noteq> None) =
     (metabase_identify_name (metabase_name (Some i)) = i \<and> i \<noteq> METABASE_IDENTITY)"
  by (cases i) (simp_all add: metabase_select_encoder_def metabase_identify_name_def)

end
