(* ===== verification/Arrays.thy ===== *)
theory Arrays
  imports Prelude
begin

text \<open>
  Ranges and growing buffers (\<open>src/array\<close>). A range is the list of the elements
  between its two pointers. A buffer is modelled with its memory: the \<open>mem\<close> bytes from
  \<open>begin\<close> to \<open>max\<close>, of which the first \<open>used\<close> are between \<open>begin\<close> and
  \<open>end\<close>. Reads and writes outside of these regions are undefined in C; an operation
  that makes one returns \<open>None\<close>.
\<close>

section \<open>Searching and comparing ranges\<close>

text \<open>The inner loop of \<open>range_strstr\<close>: does the needle stand at this point?\<close>

fun range_match :: "bytes \<Rightarrow> bytes \<Rightarrow> bool" where
  "range_match hs [] = True"
| "range_match [] (n # ns) = False"
| "range_match (h # hs) (n # ns) = (h = n \<and> range_match hs ns)"

text \<open>The outer loop over the \<open>k\<close> positions of \<open>scan\<close>, the next being \<open>i\<close>.\<close>

fun range_strstr_loop :: "nat \<Rightarrow> nat \<Rightarrow> bytes \<Rightarrow> bytes \<Rightarrow> nat option" where
  "range_strstr_loop 0 i hs needle = None"
| "range_strstr_loop (Suc k) i hs needle =
     (if range_match hs needle then Some i else range_strstr_loop k (Suc i) (tl hs) needle)"

text \<open>
  The end of \<open>scan\<close> is \<open>haystack->end - needle_size + 1\<close>. A needle that is longer than
  the haystack by more than one character puts it before the beginning, and the loop,
  which stops at equality only, runs out of the haystack: \<open>None\<close>.
\<close>

definition range_strstr :: "bytes \<Rightarrow> bytes \<Rightarrow> nat option" where
  "range_strstr haystack needle =
     (if needle = [] then Some (length haystack)
      else if length needle > length haystack + 1 then None
      else case range_strstr_loop (length haystack + 1 - length needle) 0 haystack needle of
             None \<Rightarrow> Some (length haystack)
           | Some i \<Rightarrow> Some i)"

fun range_strchr :: "bytes \<Rightarrow> byte \<Rightarrow> nat" where
  "range_strchr [] needle = 0"
| "range_strchr (c # haystack) needle = (if c = needle then 0 else Suc (range_strchr haystack needle))"

fun range_streq_loop :: "nat \<Rightarrow> bytes \<Rightarrow> bytes \<Rightarrow> bool" where
  "range_streq_loop 0 a b = True"
| "range_streq_loop (Suc n) a b =
     (if hd a \<noteq> hd b then False else range_streq_loop n (tl a) (tl b))"

definition range_streq :: "bytes \<Rightarrow> bytes \<Rightarrow> bool" where
  "range_streq a b = (if length a \<noteq> length b then False else range_streq_loop (length a) a b)"

definition range_streq_string :: "bytes \<Rightarrow> bytes \<Rightarrow> bool" where
  "range_streq_string a b = range_streq a b"

text \<open>\<open>range_atozd\<close> returns the number of digits it read and the \<open>size_t\<close> they make.\<close>

definition isdigit :: "byte \<Rightarrow> bool" where
  "isdigit c = (byte_of (CHR ''0'') \<le> c \<and> c \<le> byte_of (CHR ''9''))"

fun range_atozd_loop :: "nat \<Rightarrow> size_t \<Rightarrow> bytes \<Rightarrow> nat \<times> size_t" where
  "range_atozd_loop i acc [] = (i, acc)"
| "range_atozd_loop i acc (c # cs) =
     (if isdigit c
      then range_atozd_loop (Suc i) (10 * acc + ucast (c - byte_of (CHR ''0''))) cs
      else (i, acc))"

definition range_atozd :: "bytes \<Rightarrow> nat \<times> size_t" where
  "range_atozd input = range_atozd_loop 0 0 input"

section \<open>Buffers\<close>

record buffer =
  mem :: bytes
  used :: nat

definition buffer_zero :: buffer where
  "buffer_zero = \<lparr>mem = [], used = 0\<rparr>"

text \<open>
  The C library's allocator: which sizes it can serve, and what it leaves in the part of
  a region that it does not copy.
\<close>

record allocator =
  can_alloc :: "nat \<Rightarrow> bool"
  fill :: "nat \<Rightarrow> byte"

text \<open>An allocator that never fails.\<close>

abbreviation plain_alloc :: allocator where
  "plain_alloc \<equiv> \<lparr>can_alloc = (\<lambda>_. True), fill = (\<lambda>_. 0)\<rparr>"

definition realloc :: "allocator \<Rightarrow> bytes \<Rightarrow> nat \<Rightarrow> bytes option" where
  "realloc al old n =
     (if can_alloc al n
      then Some (take n old @ map (fill al) [length old..<n])
      else None)"

abbreviation size_max :: nat where
  "size_max \<equiv> 2 ^ 64"

text \<open>\<open>_buffer_realloc\<close>: sizes are in bytes and wrap as \<open>size_t\<close>.\<close>

definition buffer_realloc :: "allocator \<Rightarrow> buffer \<Rightarrow> nat \<Rightarrow> nat \<Rightarrow> int \<times> buffer" where
  "buffer_realloc al b type_size new_count =
     (let new_size = type_size * new_count mod size_max
      in if length (mem b) \<ge> new_size then (0, b)
         else let new_size' = (4 * new_size + 10 * type_size) mod size_max
              in case realloc al (mem b) new_size' of
                   None \<Rightarrow> (-1, b)
                 | Some region \<Rightarrow> (0, b\<lparr>mem := region\<rparr>))"

text \<open>The macros, for buffers of one-byte elements.\<close>

definition buffer_resize :: "allocator \<Rightarrow> buffer \<Rightarrow> nat \<Rightarrow> int \<times> buffer" where
  "buffer_resize al b count =
     (case buffer_realloc al b 1 count of
        (r, b') \<Rightarrow> if r = 0 then (0, b'\<lparr>used := count\<rparr>) else (-1, b'))"

definition buffer_push :: "allocator \<Rightarrow> buffer \<Rightarrow> byte \<Rightarrow> buffer option" where
  "buffer_push al b v =
     (let b' = (if used b = length (mem b) then snd (buffer_realloc al b 1 (used b + 1)) else b)
      in if used b' < length (mem b')
         then Some (b'\<lparr>mem := (mem b')[used b' := v], used := used b' + 1\<rparr>)
         else None)"

definition buffer_rewrite :: "buffer \<Rightarrow> buffer" where
  "buffer_rewrite b = b\<lparr>used := 0\<rparr>"

text \<open>\<open>memcpy\<close> of \<open>src\<close> to the given offset of the buffer's memory.\<close>

definition mem_write :: "buffer \<Rightarrow> nat \<Rightarrow> bytes \<Rightarrow> buffer option" where
  "mem_write b pos src =
     (if pos + length src \<le> length (mem b)
      then Some (b\<lparr>mem := take pos (mem b) @ src @ drop (pos + length src) (mem b)\<rparr>)
      else None)"

definition buffer_append_n :: "allocator \<Rightarrow> buffer \<Rightarrow> bytes \<Rightarrow> buffer option" where
  "buffer_append_n al b src =
     (let old_count = used b
      in mem_write (snd (buffer_resize al b (old_count + length src))) old_count src)"

definition buffer_copy_n :: "allocator \<Rightarrow> buffer \<Rightarrow> bytes \<Rightarrow> buffer option" where
  "buffer_copy_n al b src = mem_write (snd (buffer_resize al b (length src))) 0 src"

definition buffer_downshift :: "buffer \<Rightarrow> nat \<Rightarrow> nat \<Rightarrow> buffer" where
  "buffer_downshift b element_size count =
     (if count = 0 then b
      else let buffer_size = used b; sz = element_size * count mod size_max
           in if buffer_size \<le> sz then buffer_rewrite b
              else let shift_size = buffer_size - sz
                   in b\<lparr>mem := take shift_size (drop sz (mem b)) @ drop shift_size (mem b),
                        used := used b - sz\<rparr>)"

text \<open>
  \<open>buffer_strncpy\<close> and \<open>buffer_strcpy\<close>: the terminating null byte is written just
  beyond the end. The second takes the characters before the null byte of its argument.
\<close>

definition buffer_strncpy :: "allocator \<Rightarrow> buffer \<Rightarrow> bytes \<Rightarrow> buffer option" where
  "buffer_strncpy al b src =
     (case mem_write (snd (buffer_resize al b (length src + 1))) 0 src of
        None \<Rightarrow> None
      | Some b' \<Rightarrow> mem_write (b'\<lparr>used := used b' - 1\<rparr>) (used b' - 1) [0])"

definition buffer_strcpy :: "allocator \<Rightarrow> buffer \<Rightarrow> bytes \<Rightarrow> buffer option" where
  "buffer_strcpy al b src =
     (let sz = length src + 1
      in case mem_write (snd (buffer_resize al b sz)) 0 (take (sz - 1) src) of
           None \<Rightarrow> None
         | Some b' \<Rightarrow> mem_write (b'\<lparr>used := used b' - 1\<rparr>) (used b' - 1) [0])"

section \<open>Searching\<close>

lemma range_match_iff: "range_match hs ns \<longleftrightarrow> take (length ns) hs = ns"
  by (induction hs ns rule: range_match.induct) auto

lemma range_strstr_loop_Some:
  "range_strstr_loop k i hs needle = Some r \<longleftrightarrow>
     i \<le> r \<and> r < i + k \<and> range_match (drop (r - i) hs) needle \<and>
     (\<forall>j. i \<le> j \<and> j < r \<longrightarrow> \<not> range_match (drop (j - i) hs) needle)"
proof (induction k i hs needle rule: range_strstr_loop.induct)
  case (1 i hs needle)
  then show ?case by simp
next
  case (2 k i hs needle)
  have tl: "drop (j - Suc i) (tl hs) = drop (j - i) hs" if "Suc i \<le> j" for j
    using that by (metis Suc_diff_le Suc_le_D drop_Suc diff_Suc_Suc)
  show ?case
  proof (cases "range_match hs needle")
    case True
    have "r = i" if "i \<le> r" "\<forall>j. i \<le> j \<and> j < r \<longrightarrow> \<not> range_match (drop (j - i) hs) needle"
      using that True by (cases "r = i") force+
    then show ?thesis using True by auto
  next
    case False
    have "r \<noteq> i" if "range_match (drop (r - i) hs) needle" using that False by auto
    moreover have "(\<forall>j. i \<le> j \<and> j < r \<longrightarrow> \<not> range_match (drop (j - i) hs) needle) \<longleftrightarrow>
        (\<forall>j. Suc i \<le> j \<and> j < r \<longrightarrow> \<not> range_match (drop (j - Suc i) (tl hs)) needle)"
      using False tl by (metis Suc_leD diff_self_eq_0 drop_0 le_antisym not_less_eq_eq)
    ultimately show ?thesis
      using False 2 [OF False] tl [of r] by (auto simp: Suc_le_eq)
  qed
qed

lemma range_strchr_takeWhile: "range_strchr hs c = length (takeWhile (\<lambda>x. x \<noteq> c) hs)"
  by (induction hs) auto

lemma range_streq_loop_iff:
  "length a = n \<Longrightarrow> length b = n \<Longrightarrow> range_streq_loop n a b \<longleftrightarrow> a = b"
proof (induction n a b rule: range_streq_loop.induct)
  case (2 n a b)
  then show ?case by (cases a; cases b) auto
qed simp

lemma range_streq_iff [simp]: "range_streq a b \<longleftrightarrow> a = b"
  by (auto simp: range_streq_def range_streq_loop_iff)

lemma range_streq_string_iff [simp]: "range_streq_string a b \<longleftrightarrow> a = b"
  by (simp add: range_streq_string_def)


lemma range_strstr_found:
  assumes "needle \<noteq> []" and "length needle \<le> length haystack + 1"
  shows "\<exists>r. range_strstr haystack needle = Some r \<and> r \<le> length haystack \<and>
    (r < length haystack \<longleftrightarrow> (\<exists>i. take (length needle) (drop i haystack) = needle)) \<and>
    (r < length haystack \<longrightarrow> take (length needle) (drop r haystack) = needle \<and>
       (\<forall>j < r. take (length needle) (drop j haystack) \<noteq> needle))"
proof (cases "range_strstr_loop (length haystack + 1 - length needle) 0 haystack needle")
  case None
  have no: "take (length needle) (drop i haystack) \<noteq> needle" for i
  proof
    assume i: "take (length needle) (drop i haystack) = needle"
    define r where "r = (LEAST i. take (length needle) (drop i haystack) = needle)"
    have r: "take (length needle) (drop r haystack) = needle"
      using i unfolding r_def by (rule LeastI)
    have "length needle \<le> length haystack - r"
      using arg_cong [OF r, of length] by simp
    moreover have "0 < length needle" using assms(1) by simp
    ultimately have "r < length haystack + 1 - length needle" by linarith
    moreover have "\<not> range_match (drop j haystack) needle" if "j < r" for j
      using that not_less_Least unfolding r_def range_match_iff by blast
    ultimately have "range_strstr_loop (length haystack + 1 - length needle) 0 haystack needle = Some r"
      using r by (simp add: range_strstr_loop_Some range_match_iff)
    then show False using None by simp
  qed
  then show ?thesis using None assms by (simp add: range_strstr_def)
next
  case (Some r)
  then have r: "r < length haystack + 1 - length needle" "range_match (drop r haystack) needle"
    "\<forall>j < r. \<not> range_match (drop j haystack) needle"
    by (simp_all add: range_strstr_loop_Some)
  have "0 < length needle" using assms(1) by simp
  with r(1) have "r < length haystack" by linarith
  with r show ?thesis using Some assms by (auto simp: range_strstr_def range_match_iff)
qed

text \<open>The decimal number of a string of digits.\<close>

definition decimal :: "bytes \<Rightarrow> nat" where
  "decimal = foldl (\<lambda>n c. 10 * n + unat (c - byte_of (CHR ''0''))) 0"

lemma range_atozd_loop_spec:
  "acc = word_of_nat n \<Longrightarrow>
   range_atozd_loop i acc cs =
     (i + length (takeWhile isdigit cs),
      word_of_nat (foldl (\<lambda>n c. 10 * n + unat (c - byte_of (CHR ''0''))) n (takeWhile isdigit cs)))"
proof (induction cs arbitrary: i acc n)
  case Nil
  then show ?case by simp
next
  case (Cons c cs)
  have "10 * acc + ucast (c - byte_of (CHR ''0''))
      = word_of_nat (10 * n + unat (c - byte_of (CHR ''0'')))"
    using Cons.prems by (simp add: of_nat_unat_ucast)
  from Cons.IH [OF this, of "Suc i"] show ?case using Cons.prems by simp
qed

lemma range_atozd_spec:
  "range_atozd cs =
     (length (takeWhile isdigit cs), word_of_nat (decimal (takeWhile isdigit cs)))"
  using range_atozd_loop_spec [of 0 0 0 cs] by (simp add: range_atozd_def decimal_def)

section \<open>What the buffer operations do to the contents\<close>

definition contents :: "buffer \<Rightarrow> bytes" where
  "contents b = take (used b) (mem b)"

definition buffer_wf :: "buffer \<Rightarrow> bool" where
  "buffer_wf b \<longleftrightarrow> used b \<le> length (mem b)"

text \<open>
  Room for \<open>n\<close> more bytes: no size computed from them wraps, and the allocator serves
  the sizes that can come up.
\<close>

definition room :: "allocator \<Rightarrow> buffer \<Rightarrow> nat \<Rightarrow> bool" where
  "room al b n \<longleftrightarrow> buffer_wf b \<and> used b + n < 2 ^ 60 \<and> (\<forall>m < 2 ^ 63. can_alloc al m)"

lemma buffer_wf_zero [simp]: "buffer_wf buffer_zero" and contents_zero [simp]: "contents buffer_zero = []"
  by (simp_all add: buffer_wf_def contents_def buffer_zero_def)

lemma length_contents: "buffer_wf b \<Longrightarrow> length (contents b) = used b"
  by (simp add: contents_def buffer_wf_def)

lemma realloc_keeps:
  "realloc al old n = Some region \<Longrightarrow> length old \<le> n \<Longrightarrow>
     length region = n \<and> take (length old) region = old"
  by (auto simp: realloc_def split: if_splits)

lemma buffer_realloc_room:
  assumes "c < 2 ^ 60" and "\<forall>m < 2 ^ 63. can_alloc al m" and "buffer_wf b"
  shows "\<exists>region. buffer_realloc al b 1 c = (0, b\<lparr>mem := region\<rparr>) \<and> c \<le> length region \<and>
           length (mem b) \<le> length region \<and> take (length (mem b)) region = mem b"
proof (cases "c \<le> length (mem b)")
  case True
  then have "buffer_realloc al b 1 c = (0, b\<lparr>mem := mem b\<rparr>)"
    using assms(1) by (simp add: buffer_realloc_def)
  then show ?thesis using True by (intro exI [of _ "mem b"]) simp
next
  case False
  define n where "n = 4 * c + 10"
  have n: "n < 2 ^ 63" "c \<le> n" using assms(1) by (simp_all add: n_def)
  moreover from False n have le: "length (mem b) \<le> n" by simp
  ultimately obtain region where r: "realloc al (mem b) n = Some region"
    using assms(2) by (simp add: realloc_def)
  have "buffer_realloc al b 1 c = (0, b\<lparr>mem := region\<rparr>)"
    using assms(1) n False r by (simp add: buffer_realloc_def n_def Let_def)
  then show ?thesis using realloc_keeps [OF r le] n le by auto
qed

lemma buffer_realloc_keeps:
  assumes "c < 2 ^ 60" and "\<forall>m < 2 ^ 63. can_alloc al m" and "buffer_wf b"
  obtains b' where "buffer_realloc al b 1 c = (0, b')" and "used b' = used b"
    and "c \<le> length (mem b')" and "length (mem b) \<le> length (mem b')"
    and "take (length (mem b)) (mem b') = mem b" and "take (used b) (mem b') = contents b"
    and "buffer_wf b'"
proof -
  obtain region where r: "buffer_realloc al b 1 c = (0, b\<lparr>mem := region\<rparr>)" "c \<le> length region"
      "length (mem b) \<le> length region" "take (length (mem b)) region = mem b"
    using buffer_realloc_room [OF assms] by blast
  have "take (used b) region = contents b"
    using arg_cong [OF r(4), of "take (used b)"] assms(3)
    by (simp add: contents_def buffer_wf_def min_absorb1)
  with r assms(3) show ?thesis
    by (intro that [of "b\<lparr>mem := region\<rparr>"]) (auto simp: buffer_wf_def)
qed

lemma buffer_push_contents:
  assumes "room al b (Suc n)"
  shows "\<exists>b'. buffer_push al b v = Some b' \<and> contents b' = contents b @ [v] \<and> room al b' n"
proof -
  have wf: "buffer_wf b" and lt: "used b + 1 < 2 ^ 60" and al: "\<forall>m < 2 ^ 63. can_alloc al m"
    using assms by (auto simp: room_def)
  show ?thesis
  proof (cases "used b = length (mem b)")
    case True
    obtain b' where b': "buffer_realloc al b 1 (used b + 1) = (0, b')" "used b' = used b"
        "used b + 1 \<le> length (mem b')" "take (used b) (mem b') = contents b"
      using buffer_realloc_keeps [OF lt al wf] by metis
    then show ?thesis
      using True assms
      by (auto simp: buffer_push_def contents_def room_def buffer_wf_def take_Suc_conv_app_nth)
  next
    case False
    then have "used b < length (mem b)" using wf by (simp add: buffer_wf_def)
    then show ?thesis
      using False assms
      by (auto simp: buffer_push_def contents_def room_def buffer_wf_def take_Suc_conv_app_nth)
  qed
qed

text \<open>\<open>buffer_resize\<close> keeps what was there, up to the new count.\<close>

lemma contents_rewrite: "contents (buffer_rewrite b) = []" "used (buffer_rewrite b) = 0" "buffer_wf (buffer_rewrite b)"
  by (simp_all add: contents_def buffer_rewrite_def buffer_wf_def)

lemma buffer_resize_keeps:
  assumes "c < 2 ^ 60" and "\<forall>m < 2 ^ 63. can_alloc al m" and "buffer_wf b"
  obtains b' where "buffer_resize al b c = (0, b')" and "used b' = c" and "buffer_wf b'"
    and "length (mem b) \<le> length (mem b')" and "take (length (mem b)) (mem b') = mem b"
    and "take (used b) (mem b') = contents b"
proof -
  obtain b' where b': "buffer_realloc al b 1 c = (0, b')" "c \<le> length (mem b')"
      "length (mem b) \<le> length (mem b')" "take (length (mem b)) (mem b') = mem b"
      "take (used b) (mem b') = contents b"
    using buffer_realloc_keeps [OF assms] by metis
  show ?thesis
    by (rule that [of "b'\<lparr>used := c\<rparr>"]) (use b' in \<open>simp_all add: buffer_resize_def buffer_wf_def\<close>)
qed

lemma buffer_append_n_contents:
  assumes "room al b (length src + n)"
  shows "\<exists>b'. buffer_append_n al b src = Some b' \<and> contents b' = contents b @ src \<and> room al b' n"
proof -
  have wf: "buffer_wf b" and lt: "used b + length src < 2 ^ 60" and al: "\<forall>m < 2 ^ 63. can_alloc al m"
    using assms by (auto simp: room_def)
  obtain b' where b': "buffer_resize al b (used b + length src) = (0, b')"
      "used b' = used b + length src" "buffer_wf b'" "take (used b) (mem b') = contents b"
    using buffer_resize_keeps [OF lt al wf] by metis
  then show ?thesis
    using assms by (auto simp: buffer_append_n_def mem_write_def Let_def contents_def room_def buffer_wf_def)
qed

lemma buffer_copy_n_contents:
  assumes "buffer_wf b" and "length src + n < 2 ^ 60" and "\<forall>m < 2 ^ 63. can_alloc al m"
  shows "\<exists>b'. buffer_copy_n al b src = Some b' \<and> contents b' = src \<and> room al b' n"
proof -
  have lt: "length src < 2 ^ 60" using assms(2) by simp
  obtain b' where "buffer_resize al b (length src) = (0, b')" "used b' = length src" "buffer_wf b'"
    using buffer_resize_keeps [OF lt assms(3,1)] by metis
  then show ?thesis
    using assms by (auto simp: buffer_copy_n_def mem_write_def contents_def room_def buffer_wf_def)
qed

lemma mem_write_Some:
  "pos + length src \<le> length (mem b) \<Longrightarrow>
     \<exists>b'. mem_write b pos src = Some b' \<and> used b' = used b \<and> length (mem b') = length (mem b) \<and>
          take (pos + length src) (mem b') = take pos (mem b) @ src"
  by (auto simp: mem_write_def)

lemma buffer_strncpy_contents:
  assumes "buffer_wf b" and "length src + 1 < 2 ^ 60" and "\<forall>m < 2 ^ 63. can_alloc al m"
  shows "\<exists>b'. buffer_strncpy al b src = Some b' \<and> contents b' = src \<and> buffer_wf b' \<and>
              length src < length (mem b') \<and> mem b' ! length src = 0"
proof -
  obtain b1 where b1: "buffer_resize al b (length src + 1) = (0, b1)" "used b1 = length src + 1"
      "buffer_wf b1"
    using buffer_resize_keeps [OF assms(2,3,1)] by metis
  then have len: "length src < length (mem b1)" by (simp add: buffer_wf_def)
  then obtain b2 where b2: "mem_write b1 0 src = Some b2" "used b2 = used b1"
      "length (mem b2) = length (mem b1)" "take (length src) (mem b2) = src"
    using mem_write_Some [of 0 src b1] by auto
  then show ?thesis
    using b1 len by (auto simp: buffer_strncpy_def mem_write_def contents_def buffer_wf_def nth_append)
qed

lemma buffer_strcpy_strncpy: "buffer_strcpy al b src = buffer_strncpy al b src"
  by (simp add: buffer_strcpy_def buffer_strncpy_def Let_def)

lemma buffer_downshift_contents:
  assumes "buffer_wf b" and "count < size_max"
  shows "contents (buffer_downshift b 1 count) = drop count (contents b) \<and>
         buffer_wf (buffer_downshift b 1 count)"
proof -
  have "take (used b - count) (drop count (mem b)) = drop count (take (used b) (mem b))"
    by (simp add: drop_take)
  then show ?thesis
    using assms
    by (auto simp: buffer_downshift_def buffer_rewrite_def contents_def buffer_wf_def Let_def)
qed

section \<open>Buffers as sinks of bytes\<close>

text \<open>
  What the encoders rely on when they write \<open>*buffer_push (*output) = v\<close> in a loop: as
  long as there is room, a push appends. The components above this one therefore model
  their output buffers as the list of their contents.
\<close>

fun push_all :: "('b \<Rightarrow> byte \<Rightarrow> 'b option) \<Rightarrow> 'b \<Rightarrow> bytes \<Rightarrow> 'b option" where
  "push_all push b [] = Some b"
| "push_all push b (v # vs) = (case push b v of None \<Rightarrow> None | Some b' \<Rightarrow> push_all push b' vs)"

locale byte_sink =
  fixes push :: "'b \<Rightarrow> byte \<Rightarrow> 'b option"
    and view :: "'b \<Rightarrow> bytes"
    and space :: "'b \<Rightarrow> nat \<Rightarrow> bool"
  assumes push_view: "space b (Suc n) \<Longrightarrow> \<exists>b'. push b v = Some b' \<and> view b' = view b @ [v] \<and> space b' n"
begin

lemma push_all_view:
  "space b (length vs + n) \<Longrightarrow>
     \<exists>b'. push_all push b vs = Some b' \<and> view b' = view b @ vs \<and> space b' n"
proof (induction vs arbitrary: b)
  case Nil
  then show ?case by simp
next
  case (Cons v vs)
  then obtain b' where "push b v = Some b'" "view b' = view b @ [v]" "space b' (length vs + n)"
    using push_view [of b "length vs + n" v] by auto
  then show ?case using Cons.IH [of b'] by auto
qed

end

interpretation buf: byte_sink "buffer_push al" contents "room al"
  by unfold_locales (rule buffer_push_contents)

section \<open>Properties\<close>

text \<open>pushing bytes one after the other onto a buffer, each push reallocating when
  the buffer is full, leaves the old contents followed by the pushed bytes, and so does
  appending them with one \<open>memcpy\<close>, whatever the allocator leaves in the memory it adds.
  No write is out of bounds.\<close>

theorem buffer_push_refines_append:
  assumes "room al b (length vs)"
  shows "\<exists>b1 b2. push_all (buffer_push al) b vs = Some b1 \<and> buffer_append_n al b vs = Some b2 \<and>
           contents b1 = contents b @ vs \<and> contents b2 = contents b @ vs"
  using buf.push_all_view [of al b vs 0] buffer_append_n_contents [of al b vs 0] assms by auto

theorem buffer_push_refines_append_witness:
  "\<exists>b1 b2. push_all (buffer_push \<lparr>can_alloc = (\<lambda>_. True), fill = (\<lambda>_. 7)\<rparr>)
               \<lparr>mem = [5, 6], used = 1\<rparr> [1, 2, 3] = Some b1 \<and>
     buffer_append_n \<lparr>can_alloc = (\<lambda>_. True), fill = (\<lambda>_. 7)\<rparr>
               \<lparr>mem = [5, 6], used = 1\<rparr> [1, 2, 3] = Some b2 \<and>
     contents b1 = [5, 1, 2, 3] \<and> contents b2 = [5, 1, 2, 3]"
  using buffer_push_refines_append
    [of "\<lparr>can_alloc = (\<lambda>_. True), fill = (\<lambda>_. 7)\<rparr>" "\<lparr>mem = [5, 6], used = 1\<rparr>" "[1, 2, 3]"]
  by (simp add: room_def buffer_wf_def contents_def)

text \<open>\<open>range_strstr\<close> returns the first position of a non-empty needle that is at
  most one character longer than the haystack, and the length of the haystack when the
  needle does not occur.\<close>

theorem range_strstr_first:
  assumes "needle \<noteq> []" and "length needle \<le> length haystack + 1"
  shows "\<exists>r. range_strstr haystack needle = Some r \<and> r \<le> length haystack \<and>
    (r < length haystack \<longleftrightarrow> (\<exists>i. take (length needle) (drop i haystack) = needle)) \<and>
    (r < length haystack \<longrightarrow> take (length needle) (drop r haystack) = needle \<and>
       (\<forall>j < r. take (length needle) (drop j haystack) \<noteq> needle))"
  using assms by (rule range_strstr_found)

theorem range_strstr_first_witness:
  "\<exists>r. range_strstr (str ''abcbc'') (str ''bc'') = Some r \<and> r \<le> 5"
  using range_strstr_first [of "str ''bc''" "str ''abcbc''"] by (auto simp: str_def)

text \<open>\<open>range_atozd\<close> reads exactly the leading digits of its input and returns
  their decimal value modulo \<open>2 ^ 64\<close>.\<close>

theorem range_atozd_decimal:
  "range_atozd cs =
     (length (takeWhile isdigit cs), word_of_nat (decimal (takeWhile isdigit cs)))"
  by (rule range_atozd_spec)

end
