(* ===== verification/DzipFormat.thy ===== *)
theory DzipFormat
  imports Vluint
begin

text \<open>
  The chunk format of dzip (\<open>src/dzip/common\<close>): a header of sixteen bytes and a sequence
  of commands. \<open>dzip_size\<close> is \<open>uint32_t\<close>: sizes are natural numbers here, reduced
  modulo \<open>2 ^ 32\<close> wherever the code stores one. Headers are read and written in the
  machine's byte order, little endian.
\<close>

definition u32 :: "nat \<Rightarrow> nat" where
  "u32 n = n mod 2 ^ 32"

definition le32 :: "bytes \<Rightarrow> nat" where
  "le32 b = unat (b ! 0) + 256 * unat (b ! 1) + 65536 * unat (b ! 2) + 16777216 * unat (b ! 3)"

definition le32_bytes :: "nat \<Rightarrow> bytes" where
  "le32_bytes n =
     [word_of_nat n, word_of_nat (n div 256), word_of_nat (n div 65536), word_of_nat (n div 16777216)]"

definition DZIP_MAGIC :: bytes where
  "DZIP_MAGIC = str ''deezwhat''"

definition DZIP_VERSION :: nat where
  "DZIP_VERSION = 1"

text \<open>\<open>sizeof(dzip_header)\<close>, and the fields of a header at the start of some memory.\<close>

definition header_size :: nat where
  "header_size = 16"

definition header_magic :: "bytes \<Rightarrow> bytes" where
  "header_magic m = take 8 m"

definition header_version :: "bytes \<Rightarrow> nat" where
  "header_version m = le32 (drop 8 m)"

definition header_chunk_size :: "bytes \<Rightarrow> nat" where
  "header_chunk_size m = le32 (drop 12 m)"

definition dzip_header :: "nat \<Rightarrow> bytes" where
  "dzip_header chunk_size = DZIP_MAGIC @ le32_bytes DZIP_VERSION @ le32_bytes chunk_size"

text \<open>The commands and the layout of a command byte (\<open>common/internal.h\<close>).\<close>

definition DZIP_CMD_LITERAL :: byte where
  "DZIP_CMD_LITERAL = 0"

definition DZIP_CMD_MATCH :: byte where
  "DZIP_CMD_MATCH = 1"

definition DZIP_COMMAND_MASK :: byte where
  "DZIP_COMMAND_MASK = 3"

definition DZIP_META_BITS :: nat where
  "DZIP_META_BITS = 3"

definition DZIP_ARG1_COMPACT_MAX :: nat where
  "DZIP_ARG1_COMPACT_MAX = 32"

definition DZIP_ARG1_COMPACT_MASK :: byte where
  "DZIP_ARG1_COMPACT_MASK = 31"

definition DZIP_ARG1_EXTEND_BIT :: byte where
  "DZIP_ARG1_EXTEND_BIT = 4"

lemmas dzip_layout = DZIP_CMD_LITERAL_def DZIP_CMD_MATCH_def DZIP_COMMAND_MASK_def
  DZIP_META_BITS_def DZIP_ARG1_COMPACT_MAX_def DZIP_ARG1_COMPACT_MASK_def DZIP_ARG1_EXTEND_BIT_def

section \<open>Sizes\<close>

lemma u32_small: "n < 4294967296 \<Longrightarrow> u32 n = n"
  by (simp add: u32_def)

lemma u32_less [simp]: "u32 n < 4294967296"
  by (simp add: u32_def)

lemma u32_le [simp]: "u32 n \<le> n"
  by (simp add: u32_def)

lemma u32_u32 [simp]: "u32 (u32 n) = u32 n"
  by (simp add: u32_def)

lemma length_le32_bytes [simp]: "length (le32_bytes n) = 4"
  by (simp add: le32_bytes_def)

lemma le32_append [simp]: "4 \<le> length a \<Longrightarrow> le32 (a @ b) = le32 a"
  by (auto simp: le32_def nth_append)

lemma base256_digits:
  assumes "r0 + 256 * q1 = (n :: nat)" and "r1 + 256 * q2 = q1" and "r2 + 256 * q3 = q2"
  shows "r0 + 256 * r1 + 65536 * r2 + 16777216 * q3 = n"
  using assms by simp

lemma le32_bytes_roundtrip: "n < 4294967296 \<Longrightarrow> le32 (le32_bytes n) = n"
proof -
  assume "n < 4294967296"
  moreover have "n mod 256 + 256 * (n div 256 mod 256) + 65536 * (n div 65536 mod 256)
      + 16777216 * (n div 16777216) = n"
  proof (rule base256_digits [of _ "n div 256" _ _ "n div 65536"])
    show "n mod 256 + 256 * (n div 256) = n" by (rule mod_mult_div_eq)
    show "n div 256 mod 256 + 256 * (n div 65536) = n div 256"
      using mod_mult_div_eq [of "n div 256" 256] by (simp add: div_mult2_eq [symmetric])
    show "n div 65536 mod 256 + 256 * (n div 16777216) = n div 65536"
      using mod_mult_div_eq [of "n div 65536" 256] by (simp add: div_mult2_eq [symmetric])
  qed
  ultimately show "le32 (le32_bytes n) = n"
    by (simp add: le32_def le32_bytes_def unat_of_nat)
qed

lemma length_dzip_header [simp]: "length (dzip_header n) = header_size"
  by (simp add: dzip_header_def DZIP_MAGIC_def str_def header_size_def)

lemma header_fields:
  assumes "n < 4294967296"
  shows "header_magic (dzip_header n @ body) = DZIP_MAGIC"
    and "header_version (dzip_header n @ body) = DZIP_VERSION"
    and "header_chunk_size (dzip_header n @ body) = n"
proof -
  have 8: "length DZIP_MAGIC = 8" by (simp add: DZIP_MAGIC_def str_def)
  then show "header_magic (dzip_header n @ body) = DZIP_MAGIC"
    by (simp add: header_magic_def dzip_header_def)
  show "header_version (dzip_header n @ body) = DZIP_VERSION"
    using 8 le32_bytes_roundtrip [of 1]
    by (simp add: header_version_def dzip_header_def DZIP_VERSION_def)
  show "header_chunk_size (dzip_header n @ body) = n"
    using 8 assms by (simp add: header_chunk_size_def dzip_header_def le32_bytes_roundtrip)
qed

end
