(* ===== verification/Deflate.thy ===== *)
theory Deflate
  imports DzipFormat
begin

text \<open>
  Compression (\<open>src/dzip/deflate/deflate.c\<close>). The window of a chunk is the chunk's
  input; the state remembers, for every hash of four bytes, the last position at which
  they were seen. The counters of \<open>DZIP_RECORD_STATS\<close> are globals in C and are
  carried with the state here.
\<close>

section \<open>State\<close>

record dzip_match =
  distance :: nat
  match_length :: nat

record dzip_stats =
  stat_literal_count :: nat
  stat_literal_length :: nat
  stat_match_count :: nat
  stat_match_length :: nat
  stat_match_distance :: nat
  stat_bytes_in :: nat
  stat_bytes_out :: nat

text \<open>\<open>recent\<close> is an array of 16963 sizes, all 0 in a new state.\<close>

record dzip_deflate_state =
  window_progress :: nat
  literal_begin :: nat
  the_match :: dzip_match
  recent :: "nat \<Rightarrow> nat"
  stats :: dzip_stats

definition recent_count :: nat where
  "recent_count = 16963"

definition stats_zero :: dzip_stats where
  "stats_zero = \<lparr>stat_literal_count = 0, stat_literal_length = 0, stat_match_count = 0,
     stat_match_length = 0, stat_match_distance = 0, stat_bytes_in = 0, stat_bytes_out = 0\<rparr>"

definition dzip_deflate_state_new :: dzip_deflate_state where
  "dzip_deflate_state_new =
     \<lparr>window_progress = 0, literal_begin = 0, the_match = \<lparr>distance = 0, match_length = 0\<rparr>,
      recent = (\<lambda>_. 0), stats = stats_zero\<rparr>"

definition DZIP_MAX_CHUNK_SIZE :: nat where
  "DZIP_MAX_CHUNK_SIZE = 1000000"

section \<open>Writing commands\<close>

definition write_command :: "bytes \<Rightarrow> byte \<Rightarrow> nat \<Rightarrow> bytes" where
  "write_command out command arg =
     (let header = (command AND DZIP_COMMAND_MASK)
            OR push_bit DZIP_META_BITS (word_of_nat (arg mod DZIP_ARG1_COMPACT_MAX))
      in if arg < DZIP_ARG1_COMPACT_MAX then out @ [header]
         else vluint_write (out @ [header OR DZIP_ARG1_EXTEND_BIT])
                (word_of_nat (arg div DZIP_ARG1_COMPACT_MAX)))"

definition write_literal ::
    "bytes \<Rightarrow> dzip_deflate_state \<Rightarrow> bytes \<Rightarrow> bytes \<times> dzip_deflate_state" where
  "write_literal out st window =
     (if literal_begin st < window_progress st then
        let len = window_progress st - literal_begin st;
            out1 = write_command out DZIP_CMD_LITERAL (u32 len);
            out2 = out1 @ take len (drop (literal_begin st) window)
        in (out2,
            st\<lparr>literal_begin := window_progress st,
               stats := (stats st)
                 \<lparr>stat_literal_count := u32 (stat_literal_count (stats st) + 1),
                  stat_literal_length := u32 (stat_literal_length (stats st) + len)\<rparr>\<rparr>)
      else (out, st))"

definition write_match :: "bytes \<Rightarrow> dzip_deflate_state \<Rightarrow> bytes \<times> dzip_deflate_state" where
  "write_match out st =
     (let m = the_match st;
          out1 = write_command out DZIP_CMD_MATCH (match_length m);
          out2 = vluint_write out1 (word_of_nat (distance m));
          progress = u32 (window_progress st + match_length m)
      in (out2,
          st\<lparr>window_progress := progress, literal_begin := progress,
             stats := (stats st)
               \<lparr>stat_match_count := u32 (stat_match_count (stats st) + 1),
                stat_match_length := u32 (stat_match_length (stats st) + match_length m),
                stat_match_distance := u32 (stat_match_distance (stats st) + distance m)\<rparr>\<rparr>))"

section \<open>Finding matches\<close>

text \<open>\<open>check_match\<close> compares the window with itself \<open>d\<close> bytes before, from \<open>i\<close> on.\<close>

function check_match_loop :: "bytes \<Rightarrow> nat \<Rightarrow> nat \<Rightarrow> nat" where
  "check_match_loop window d i =
     (if i < length window \<and> window ! i = window ! (i - d)
      then check_match_loop window d (Suc i) else i)"
  by pat_completeness auto
termination
  by (relation "measure (\<lambda>(window, d, i). length window - i)") auto

declare check_match_loop.simps [simp del]

definition check_match :: "dzip_match \<Rightarrow> bytes \<Rightarrow> nat \<Rightarrow> dzip_match" where
  "check_match m window scan_begin =
     m\<lparr>match_length := u32 (check_match_loop window (distance m) scan_begin - scan_begin)\<rparr>"

definition setup_match :: "dzip_deflate_state \<Rightarrow> bytes \<Rightarrow> dzip_deflate_state" where
  "setup_match st window =
     (let p = window_progress st;
          slot = le32 (drop p window) mod recent_count;
          r = recent st slot
      in if r \<ge> p then
           st\<lparr>recent := (recent st)(slot := p), the_match := (the_match st)\<lparr>match_length := 0\<rparr>\<rparr>
         else
           st\<lparr>the_match := check_match ((the_match st)\<lparr>distance := p - r\<rparr>) window p,
              recent := (recent st)(slot := p)\<rparr>)"

section \<open>A chunk\<close>

text \<open>
  The loop of \<open>dzip_deflate_chunk\<close>; \<open>None\<close> is a loop that does not end, which cannot be
  excluded for windows whose size does not fit a \<open>dzip_size\<close>.
\<close>

partial_function (option) deflate_loop ::
    "nat \<Rightarrow> bytes \<Rightarrow> bytes \<Rightarrow> dzip_deflate_state \<Rightarrow> (bytes \<times> dzip_deflate_state) option" where
  "deflate_loop limit window out st =
     (if window_progress st < limit then
        (let st1 = setup_match st window
         in if 4 < match_length (the_match st1)
            then (case write_literal out st1 window of
                    (out1, st2) \<Rightarrow>
                      (case write_match out1 st2 of (out2, st3) \<Rightarrow> deflate_loop limit window out2 st3))
            else deflate_loop limit window out (st1\<lparr>window_progress := u32 (window_progress st1 + 1)\<rparr>))
      else Some (out, st))"

text \<open>
  \<open>buffer_resize\<close> makes room for the header, which is filled in at the end, when the
  size of the chunk is known; until then its bytes have no definite value (0 here).
\<close>

definition dzip_deflate_chunk ::
    "bytes \<Rightarrow> dzip_deflate_state \<Rightarrow> bytes \<Rightarrow> (bytes \<times> dzip_deflate_state) option" where
  "dzip_deflate_chunk out st input =
     (let output_start = u32 (length out);
          window_size = u32 (length input);
          out0 = take (output_start + header_size) (out @ replicate header_size 0);
          st0 = st\<lparr>window_progress := 8, literal_begin := 0\<rparr>;
          looped = (if window_size > 4 then deflate_loop (window_size - 4) input out0 st0
                    else Some (out0, st0))
      in case looped of
           None \<Rightarrow> None
         | Some (out1, st1) \<Rightarrow>
             (case write_literal out1 (st1\<lparr>window_progress := window_size\<rparr>) input of
                (out2, st2) \<Rightarrow>
                  Some (take output_start out2 @ dzip_header (u32 (length out2 - output_start))
                          @ drop (output_start + header_size) out2,
                        st2)))"

text \<open>The loop of \<open>dzip_deflate\<close> over the rest of the input, and its counters.\<close>

function dzip_deflate_loop ::
    "bytes \<Rightarrow> dzip_deflate_state \<Rightarrow> bytes \<Rightarrow> (bytes \<times> dzip_deflate_state) option" where
  "dzip_deflate_loop out st rest =
     (if rest = [] then Some (out, st)
      else let n = (if length rest > 2 * DZIP_MAX_CHUNK_SIZE then DZIP_MAX_CHUNK_SIZE
                    else length rest)
           in case dzip_deflate_chunk out st (take n rest) of
                None \<Rightarrow> None
              | Some (out', st') \<Rightarrow> dzip_deflate_loop out' st' (drop n rest))"
  by pat_completeness auto
termination
  by (relation "measure (\<lambda>(out, st, rest). length rest)") (auto simp: DZIP_MAX_CHUNK_SIZE_def)

declare dzip_deflate_loop.simps [simp del]

definition dzip_deflate ::
    "bytes \<Rightarrow> dzip_deflate_state \<Rightarrow> bytes \<Rightarrow> (bytes \<times> dzip_deflate_state) option" where
  "dzip_deflate out st input =
     (case dzip_deflate_loop out st input of
        None \<Rightarrow> None
      | Some (out', st') \<Rightarrow>
          Some (out', st'\<lparr>stats := (stats st')
            \<lparr>stat_bytes_in := u32 (stat_bytes_in (stats st') + length input),
             stat_bytes_out := u32 (stat_bytes_out (stats st') + length out')\<rparr>\<rparr>))"

end
