(* ===== verification/Inflate.thy ===== *)
theory Inflate
  imports DzipFormat
begin

text \<open>
  Decompression (\<open>src/dzip/inflate\<close>). A chunk is given as the memory that starts at the
  chunk pointer. The functions return the C result and the output buffer, which keeps
  what was written before a failure. \<open>None\<close> is a read outside of the given memory.
\<close>

section \<open>One chunk\<close>

text \<open>The copy loop of a match: \<open>copy = output->end[-arg2]\<close> and a push, \<open>n\<close> times.\<close>

fun copy_match :: "bytes \<Rightarrow> nat \<Rightarrow> nat \<Rightarrow> bytes option" where
  "copy_match out distance 0 = Some out"
| "copy_match out distance (Suc n) =
     (if 0 < distance \<and> distance \<le> length out
      then copy_match (out @ [out ! (length out - distance)]) distance n
      else None)"

text \<open>
  The part of \<open>dzip_inflate\<close> from the label \<open>read_cmd\<close> on. First the command byte
  and the extended argument, then the two commands.
\<close>

definition read_arg1 :: "bytes \<Rightarrow> (byte \<times> size_t \<times> bytes) option" where
  "read_arg1 input =
     (let b = hd input;
          cmd = b AND DZIP_COMMAND_MASK;
          arg1 = ucast (drop_bit DZIP_META_BITS b AND DZIP_ARG1_COMPACT_MASK);
          rest = tl input
      in if b AND DZIP_ARG1_EXTEND_BIT \<noteq> 0
         then (case vluint_read rest of
                 None \<Rightarrow> None
               | Some (arg2, _, rest') \<Rightarrow>
                   Some (cmd, arg1 + word_of_nat DZIP_ARG1_COMPACT_MAX * arg2, rest'))
         else Some (cmd, arg1, rest))"

lemma read_arg1_shorter:
  "read_arg1 input = Some (cmd, arg1, rest) \<Longrightarrow> input \<noteq> [] \<Longrightarrow> length rest < length input"
  by (cases input) (auto simp: read_arg1_def Let_def split: if_splits option.splits
      dest!: vluint_read_shorter)

function inflate_commands :: "bytes \<Rightarrow> bytes \<Rightarrow> (bool \<times> bytes) option" where
  "inflate_commands out input =
     (if input = [] then Some (True, out)
      else case read_arg1 input of
        None \<Rightarrow> Some (False, out)
      | Some (cmd, arg1, rest) \<Rightarrow>
          if cmd = DZIP_CMD_LITERAL then
            (if arg1 = 0 then Some (False, out)
             else if unat arg1 > u32 (length rest) then Some (False, out)
             else if unat arg1 > length rest then None
             else inflate_commands (out @ take (unat arg1) rest) (drop (unat arg1) rest))
          else if cmd = DZIP_CMD_MATCH then
            (if arg1 = 0 then Some (False, out)
             else case vluint_read rest of
               None \<Rightarrow> Some (False, out)
             | Some (arg2, _, rest') \<Rightarrow>
                 if arg2 = 0 then Some (False, out)
                 else if unat arg2 > u32 (length out) then Some (False, out)
                 else case copy_match out (unat arg2) (unat arg1) of
                        None \<Rightarrow> None
                      | Some out' \<Rightarrow> inflate_commands out' rest')
          else Some (False, out))"
  by pat_completeness auto
termination
  by (relation "measure (\<lambda>(out, input). length input)")
    (auto dest!: read_arg1_shorter vluint_read_shorter)

declare inflate_commands.simps [simp del]

definition dzip_inflate :: "bytes \<Rightarrow> bytes \<Rightarrow> (bool \<times> bytes) option" where
  "dzip_inflate out chunk =
     (if length chunk < header_size then None
      else if header_magic chunk \<noteq> DZIP_MAGIC then Some (False, out)
      else if header_version chunk \<noteq> DZIP_VERSION then Some (False, out)
      else if header_chunk_size chunk \<le> header_size then Some (False, out)
      else if header_chunk_size chunk > length chunk then None
      else inflate_commands out (drop header_size (take (header_chunk_size chunk) chunk)))"

section \<open>A range of chunks\<close>

lemma dzip_inflate_True_size:
  "dzip_inflate out chunk = Some (True, out') \<Longrightarrow> header_size < header_chunk_size chunk"
  by (auto simp: dzip_inflate_def split: if_splits)

text \<open>
  \<open>dzip_inflate_range\<close> returns the result, the output and the input range, whose
  beginning is moved only on success.
\<close>

function inflate_range_loop :: "bytes \<Rightarrow> bytes \<Rightarrow> (bool \<times> bytes \<times> bytes) option" where
  "inflate_range_loop out chunk =
     (if length chunk > header_size then
        (if header_magic chunk \<noteq> DZIP_MAGIC then Some (False, out, chunk)
         else if header_version chunk \<noteq> DZIP_VERSION then Some (False, out, chunk)
         else if header_chunk_size chunk > length chunk then Some (True, out, chunk)
         else case dzip_inflate out chunk of
                None \<Rightarrow> None
              | Some (ok, out') \<Rightarrow>
                  if ok then inflate_range_loop out' (drop (header_chunk_size chunk) chunk)
                  else Some (False, out', chunk))
      else Some (True, out, chunk))"
  by pat_completeness auto
termination
  by (relation "measure (\<lambda>(out, chunk). length chunk)")
    (auto dest!: dzip_inflate_True_size simp: header_size_def)

declare inflate_range_loop.simps [simp del]

definition dzip_inflate_range :: "bytes \<Rightarrow> bytes \<Rightarrow> (bool \<times> bytes \<times> bytes) option" where
  "dzip_inflate_range out input =
     (case inflate_range_loop out input of
        None \<Rightarrow> None
      | Some (ok, out', chunk) \<Rightarrow> Some (ok, out', if ok then chunk else input))"

section \<open>Reads stay inside the input\<close>

lemma copy_match_Some:
  "0 < d \<Longrightarrow> d \<le> length out \<Longrightarrow> \<exists>s. copy_match out d n = Some (out @ s) \<and> length s = n"
proof (induction n arbitrary: out)
  case 0
  then show ?case by simp
next
  case (Suc n)
  from Suc.IH [of "out @ [out ! (length out - d)]"] Suc.prems show ?case by fastforce
qed

text \<open>The commands one at a time.\<close>

lemma inflate_end [simp]: "inflate_commands out [] = Some (True, out)"
  by (simp add: inflate_commands.simps)

lemma inflate_bad_command:
  assumes "input \<noteq> []"
    and "read_arg1 input = None \<or>
         (\<exists>cmd arg1 rest. read_arg1 input = Some (cmd, arg1, rest) \<and>
            (cmd \<noteq> DZIP_CMD_LITERAL \<and> cmd \<noteq> DZIP_CMD_MATCH \<or> arg1 = 0))"
  shows "inflate_commands out input = Some (False, out)"
  using assms by (auto simp: inflate_commands.simps [of out input])

lemma inflate_literal:
  assumes "input \<noteq> []" and "read_arg1 input = Some (DZIP_CMD_LITERAL, arg1, rest)" and "arg1 \<noteq> 0"
  shows "inflate_commands out input =
    (if unat arg1 > u32 (length rest) then Some (False, out)
     else inflate_commands (out @ take (unat arg1) rest) (drop (unat arg1) rest))"
proof -
  have "u32 (length rest) < unat arg1" if "length rest < unat arg1"
    using u32_le that by (rule order.strict_trans1)
  then show ?thesis using assms by (auto simp: inflate_commands.simps [of out input])
qed

lemma cmd_distinct: "DZIP_CMD_MATCH \<noteq> DZIP_CMD_LITERAL"
  by (simp add: dzip_layout)

lemma inflate_match:
  assumes "input \<noteq> []" and "read_arg1 input = Some (DZIP_CMD_MATCH, arg1, rest)" and "arg1 \<noteq> 0"
  shows "inflate_commands out input =
    (case vluint_read rest of
       None \<Rightarrow> Some (False, out)
     | Some (arg2, _, rest') \<Rightarrow>
         if arg2 = 0 \<or> unat arg2 > u32 (length out) then Some (False, out)
         else case copy_match out (unat arg2) (unat arg1) of
                None \<Rightarrow> None
              | Some out' \<Rightarrow> inflate_commands out' rest')"
  using assms cmd_distinct by (simp add: inflate_commands.simps [of out input] split: option.split)

lemma inflate_cases:
  obtains (end_of_input) "input = []"
  | (bad) "\<And>out. inflate_commands out input = Some (False, out)"
  | (literal) arg1 rest where "input \<noteq> []" "read_arg1 input = Some (DZIP_CMD_LITERAL, arg1, rest)"
      "arg1 \<noteq> 0"
  | (match) arg1 rest where "input \<noteq> []" "read_arg1 input = Some (DZIP_CMD_MATCH, arg1, rest)"
      "arg1 \<noteq> 0"
proof (cases "input = [] \<or> read_arg1 input = None")
  case True
  then show thesis using inflate_bad_command [of input] end_of_input bad by blast
next
  case False
  then obtain cmd arg1 rest where r: "input \<noteq> []" "read_arg1 input = Some (cmd, arg1, rest)" by auto
  then show thesis
    using inflate_bad_command [of input] bad literal match by (cases "arg1 = 0") blast+
qed

lemma inflate_commands_total:
  "\<exists>ok s. inflate_commands out input = Some (ok, out @ s)"
proof (induction "length input" arbitrary: out input rule: less_induct)
  case less
  show ?case
  proof (cases input rule: inflate_cases)
    case (literal arg1 rest)
    have "length (drop (unat arg1) rest) < length input"
      using read_arg1_shorter [OF literal(2,1)] by simp
    from less [OF this, of "out @ take (unat arg1) rest"] show ?thesis
      by (auto simp: inflate_literal [OF literal])
  next
    case (match arg1 rest)
    show ?thesis
    proof (cases "vluint_read rest")
      case None
      then have "inflate_commands out input = Some (False, out @ [])"
        by (simp add: inflate_match [OF match])
      then show ?thesis by blast
    next
      case (Some a)
      then obtain arg2 v rest' where m: "vluint_read rest = Some (arg2, v, rest')" by (cases a) auto
      show ?thesis
      proof (cases "arg2 = 0 \<or> unat arg2 > u32 (length out)")
        case True
        then have "inflate_commands out input = Some (False, out @ [])"
          by (simp add: inflate_match [OF match] m)
        then show ?thesis by blast
      next
        case False
        then have "0 < unat arg2" "unat arg2 \<le> u32 (length out)"
          by (auto simp: unat_gt_0)
        then have "0 < unat arg2" "unat arg2 \<le> length out"
          using u32_le [of "length out"] by linarith+
        then obtain s where s: "copy_match out (unat arg2) (unat arg1) = Some (out @ s)"
          using copy_match_Some by blast
        have "length rest' < length input"
          using read_arg1_shorter [OF match(2,1)] vluint_read_shorter [OF m] by simp
        from less [OF this, of "out @ s"] show ?thesis
          using False by (auto simp: inflate_match [OF match] m s)
      qed
    qed
  next
    case end_of_input
    then show ?thesis by (intro exI [of _ True] exI [of _ "[]"]) simp
  next
    case bad
    then show ?thesis by (intro exI [of _ False] exI [of _ "[]"]) simp
  qed
qed

lemma dzip_inflate_total:
  "header_size \<le> length chunk \<Longrightarrow> header_chunk_size chunk \<le> length chunk \<Longrightarrow>
     \<exists>ok s. dzip_inflate out chunk = Some (ok, out @ s)"
  using inflate_commands_total by (auto simp: dzip_inflate_def)

lemma inflate_range_loop_total:
  "\<exists>ok s pre rest. inflate_range_loop out chunk = Some (ok, out @ s, rest) \<and> chunk = pre @ rest"
proof (induction "length chunk" arbitrary: out chunk rule: less_induct)
  case less
  show ?case
  proof (cases "header_size < length chunk \<and> header_magic chunk = DZIP_MAGIC \<and>
      header_version chunk = DZIP_VERSION \<and> header_chunk_size chunk \<le> length chunk")
    case False
    then show ?thesis by (auto simp: inflate_range_loop.simps [of out chunk])
  next
    case True
    then obtain ok s where i: "dzip_inflate out chunk = Some (ok, out @ s)"
      using dzip_inflate_total [of chunk out] by auto
    show ?thesis
    proof (cases ok)
      case False
      with True i show ?thesis by (auto simp: inflate_range_loop.simps [of out chunk])
    next
      case ok: True
      let ?next = "drop (header_chunk_size chunk) chunk"
      have "length ?next < length chunk"
        using dzip_inflate_True_size i ok True by fastforce
      from less [OF this, of "out @ s"] obtain ok' s' pre rest where
        r: "inflate_range_loop (out @ s) ?next = Some (ok', (out @ s) @ s', rest)" "?next = pre @ rest"
        by blast
      have "inflate_range_loop out chunk = Some (ok', out @ s @ s', rest)"
        using True i ok r(1) by (simp add: inflate_range_loop.simps [of out chunk])
      moreover have "chunk = (take (header_chunk_size chunk) chunk @ pre) @ rest"
        using r(2) by (simp flip: r(2))
      ultimately show ?thesis by blast
    qed
  qed
qed

end
