(* ===== verification/Dzip.thy ===== *)
theory Dzip
  imports Deflate Inflate
begin

text \<open>
  Inflating undoes deflating. A piece of a chunk's body \<^emph>\<open>emits\<close> the data that the
  inflater appends to its output while it reads the piece; pieces compose. The loop of the
  deflater keeps the invariant that what it has written emits the window up to
  \<open>literal_begin\<close>.
\<close>

section \<open>Command bytes\<close>

lemma five_bit_exhaust:
  assumes "list_all P [0..<32]" and "n < 32"
  shows "P (n :: nat)"
  using assms by (simp add: list_all_iff)

lemma command_byte:
  assumes "k < 32" and "cmd = DZIP_CMD_LITERAL \<or> cmd = DZIP_CMD_MATCH"
  defines "h \<equiv> (cmd AND DZIP_COMMAND_MASK) OR push_bit DZIP_META_BITS (word_of_nat k)"
  shows "h AND DZIP_COMMAND_MASK = cmd"
    and "h AND DZIP_ARG1_EXTEND_BIT = 0"
    and "drop_bit DZIP_META_BITS h AND DZIP_ARG1_COMPACT_MASK = word_of_nat k"
    and "(h OR DZIP_ARG1_EXTEND_BIT) AND DZIP_COMMAND_MASK = cmd"
    and "(h OR DZIP_ARG1_EXTEND_BIT) AND DZIP_ARG1_EXTEND_BIT \<noteq> 0"
    and "drop_bit DZIP_META_BITS (h OR DZIP_ARG1_EXTEND_BIT) AND DZIP_ARG1_COMPACT_MASK = word_of_nat k"
proof -
  let ?P = "\<lambda>k. \<forall>cmd. cmd = DZIP_CMD_LITERAL \<or> cmd = DZIP_CMD_MATCH \<longrightarrow>
    (let h = (cmd AND DZIP_COMMAND_MASK) OR push_bit DZIP_META_BITS (word_of_nat k) in
     h AND DZIP_COMMAND_MASK = cmd \<and> h AND DZIP_ARG1_EXTEND_BIT = 0 \<and>
     drop_bit DZIP_META_BITS h AND DZIP_ARG1_COMPACT_MASK = word_of_nat k \<and>
     (h OR DZIP_ARG1_EXTEND_BIT) AND DZIP_COMMAND_MASK = cmd \<and>
     (h OR DZIP_ARG1_EXTEND_BIT) AND DZIP_ARG1_EXTEND_BIT \<noteq> 0 \<and>
     drop_bit DZIP_META_BITS (h OR DZIP_ARG1_EXTEND_BIT) AND DZIP_ARG1_COMPACT_MASK = word_of_nat k)"
  have "list_all ?P [0..<32]"
    by (simp add: upt_rec dzip_layout Let_def all_conj_distrib)
  then have "?P k" using assms(1) by (rule five_bit_exhaust)
  then show "h AND DZIP_COMMAND_MASK = cmd" "h AND DZIP_ARG1_EXTEND_BIT = 0"
    "drop_bit DZIP_META_BITS h AND DZIP_ARG1_COMPACT_MASK = word_of_nat k"
    "(h OR DZIP_ARG1_EXTEND_BIT) AND DZIP_COMMAND_MASK = cmd"
    "(h OR DZIP_ARG1_EXTEND_BIT) AND DZIP_ARG1_EXTEND_BIT \<noteq> 0"
    "drop_bit DZIP_META_BITS (h OR DZIP_ARG1_EXTEND_BIT) AND DZIP_ARG1_COMPACT_MASK = word_of_nat k"
    using assms(2) unfolding h_def Let_def by blast+
qed

lemma write_command_out: "write_command out cmd n = out @ write_command [] cmd n"
  by (simp add: write_command_def Let_def vluint_write_out [of "out @ _"] vluint_write_out [of "[_]"])

lemma write_command_not_empty [simp]: "write_command [] cmd n \<noteq> []"
  by (simp add: write_command_def Let_def vluint_write_out [of "[_]"])

lemma ucast_small: "k < 256 \<Longrightarrow> (ucast (word_of_nat k :: byte) :: size_t) = word_of_nat k"
  by (simp add: unsigned_of_nat take_bit_nat_eq_self)

lemma read_arg1_write_command:
  assumes "cmd = DZIP_CMD_LITERAL \<or> cmd = DZIP_CMD_MATCH"
  shows "read_arg1 (write_command [] cmd n @ rest) = Some (cmd, word_of_nat n, rest)"
proof -
  have k: "n mod 32 < 32" by simp
  have u: "(ucast (word_of_nat (n mod 32) :: byte) :: size_t) = word_of_nat (n mod 32)"
    by (rule ucast_small) (rule order.strict_trans [OF k], simp)
  note c = command_byte [OF k assms]
  show ?thesis
  proof (cases "n < 32")
    case True
    then show ?thesis
      using c u by (simp add: write_command_def read_arg1_def Let_def DZIP_ARG1_COMPACT_MAX_def)
  next
    case False
    have "(word_of_nat (n mod 32) + word_of_nat 32 * word_of_nat (n div 32) :: size_t) = word_of_nat n"
      by (simp only: of_nat_mult [symmetric] of_nat_add [symmetric] mod_mult_div_eq)
    then show ?thesis
      using False c u
      by (simp add: write_command_def read_arg1_def Let_def DZIP_ARG1_COMPACT_MAX_def
          vluint_write_out [of "[_]"] vluint_read_write)
  qed
qed

section \<open>Pieces of a body\<close>

definition emits :: "bytes \<Rightarrow> bytes \<Rightarrow> bytes \<Rightarrow> bool" where
  "emits out body d \<longleftrightarrow>
     (\<forall>rest. length (body @ rest) < 4294967296 \<longrightarrow>
        inflate_commands out (body @ rest) = inflate_commands (out @ d) rest)"

lemma emits_Nil [simp]: "emits out [] []"
  by (simp add: emits_def)

lemma emits_append:
  "emits out b1 d1 \<Longrightarrow> emits (out @ d1) b2 d2 \<Longrightarrow> emits out (b1 @ b2) (d1 @ d2)"
  by (simp add: emits_def)

lemma emits_whole:
  "emits out body d \<Longrightarrow> length body < 4294967296 \<Longrightarrow> inflate_commands out body = Some (True, out @ d)"
  unfolding emits_def by (metis append_Nil2 inflate_end)

lemma unat_word_u32: "n < 4294967296 \<Longrightarrow> unat (word_of_nat n :: size_t) = n"
  by (simp add: unat_of_nat)

lemma emits_literal:
  assumes "lit \<noteq> []"
  shows "emits out (write_command [] DZIP_CMD_LITERAL (length lit) @ lit) lit"
  unfolding emits_def
proof (intro allI impI)
  fix rest
  assume len: "length ((write_command [] DZIP_CMD_LITERAL (length lit) @ lit) @ rest) < 4294967296"
  then have n: "unat (word_of_nat (length lit) :: size_t) = length lit"
    by (intro unat_word_u32) simp
  have "0 < length lit" using assms by simp
  then have nz: "(word_of_nat (length lit) :: size_t) \<noteq> 0"
    using n by (metis less_numeral_extra(3) unat_0)
  have r: "read_arg1 ((write_command [] DZIP_CMD_LITERAL (length lit) @ lit) @ rest)
      = Some (DZIP_CMD_LITERAL, word_of_nat (length lit), lit @ rest)"
    by (simp add: read_arg1_write_command)
  show "inflate_commands out ((write_command [] DZIP_CMD_LITERAL (length lit) @ lit) @ rest)
      = inflate_commands (out @ lit) rest"
    using len by (subst inflate_literal [OF _ r nz]) (simp_all add: n u32_small)
qed

lemma emits_match:
  assumes "0 < n" and "n < 4294967296" and "0 < d" and "d \<le> length out" and "length out < 4294967296"
    and "copy_match out d n = Some (out @ m)"
  shows "emits out (write_command [] DZIP_CMD_MATCH n @ vluint_write [] (word_of_nat d)) m"
  unfolding emits_def
proof (intro allI impI)
  fix rest
  have n: "unat (word_of_nat n :: size_t) = n" and d: "unat (word_of_nat d :: size_t) = d"
    using assms by (simp_all add: unat_word_u32)
  then have nz: "(word_of_nat n :: size_t) \<noteq> 0" "(word_of_nat d :: size_t) \<noteq> 0"
    using assms by (metis less_numeral_extra(3) unat_0)+
  have r: "read_arg1 ((write_command [] DZIP_CMD_MATCH n @ vluint_write [] (word_of_nat d)) @ rest)
      = Some (DZIP_CMD_MATCH, word_of_nat n, vluint_write [] (word_of_nat d) @ rest)"
    by (simp add: read_arg1_write_command)
  show "inflate_commands out ((write_command [] DZIP_CMD_MATCH n @ vluint_write [] (word_of_nat d)) @ rest)
      = inflate_commands (out @ m) rest"
    using assms by (subst inflate_match [OF _ r nz(1)]) (simp_all add: vluint_read_write n d nz u32_small)
qed

section \<open>Matches\<close>

lemma check_match_loop_le: "i \<le> check_match_loop w d i"
proof (induction w d i rule: check_match_loop.induct)
  case (1 w d i)
  then show ?case by (subst check_match_loop.simps) auto
qed

lemma check_match_loop_end: "i \<le> length w \<Longrightarrow> check_match_loop w d i \<le> length w"
proof (induction w d i rule: check_match_loop.induct)
  case (1 w d i)
  then show ?case by (subst check_match_loop.simps) auto
qed

lemma check_match_loop_equal:
  "i \<le> k \<Longrightarrow> k < check_match_loop w d i \<Longrightarrow> w ! k = w ! (k - d)"
proof (induction w d i rule: check_match_loop.induct)
  case (1 w d i)
  show ?case
  proof (cases "i < length w \<and> w ! i = w ! (i - d)")
    case True
    then have eq: "check_match_loop w d i = check_match_loop w d (Suc i)"
      by (subst check_match_loop.simps) simp
    show ?thesis
    proof (cases "k = i")
      case k: True
      then show ?thesis using True by blast
    next
      case False
      then have "Suc i \<le> k" using "1.prems"(1) by simp
      then show ?thesis using "1.IH" [OF True] "1.prems"(2) unfolding eq by blast
    qed
  next
    case False
    then have "check_match_loop w d i = i" by (subst check_match_loop.simps) auto
    then show ?thesis using "1.prems" by simp
  qed
qed

lemma copy_match_window:
  assumes "0 < d" and "d \<le> p" and "p + n \<le> length w"
    and "\<forall>k. p \<le> k \<and> k < p + n \<longrightarrow> w ! k = w ! (k - d)"
  shows "copy_match (out @ take p w) d n = Some (out @ take (p + n) w)"
  using assms
proof (induction n arbitrary: p)
  case 0
  then show ?case by simp
next
  case (Suc n)
  note le = Suc.prems(1,2,3)
  have idx: "length (out @ take p w) - d = length out + (p - d)" using le by simp
  have "(out @ take p w) ! (length out + (p - d)) = w ! (p - d)"
    unfolding nth_append_length_plus using le by simp
  also have "\<dots> = w ! p" using spec [OF Suc.prems(4), of p] by simp
  finally have next_byte: "(out @ take p w) @ [(out @ take p w) ! (length (out @ take p w) - d)]
      = out @ take (Suc p) w"
    using le unfolding idx by (simp add: take_Suc_conv_app_nth)
  have "copy_match (out @ take (Suc p) w) d n = Some (out @ take (Suc p + n) w)"
  proof (rule Suc.IH)
    show "\<forall>k. Suc p \<le> k \<and> k < Suc p + n \<longrightarrow> w ! k = w ! (k - d)"
      using Suc.prems(4) by (metis Suc_leD add_Suc_shift)
  qed (use le in auto)
  with next_byte le show ?case by simp
qed

section \<open>The deflater\<close>

text \<open>How a piece grows: a literal or a match takes at most twice the bytes it stands for.\<close>

lemma length_write_command:
  assumes "n < 4294967296"
  shows "length (write_command [] cmd n) \<le> (if n < 32 then 1 else 5)"
proof -
  have "length (vluint_write [] (word_of_nat (n div 32))) \<le> 4"
  proof (rule length_vluint_write)
    have "n div 32 < 128 ^ 4" using assms by (simp add: less_mult_imp_div_less)
    then show "unat (word_of_nat (n div 32) :: size_t) < 128 ^ 4"
      by (simp add: unat_of_nat)
  qed simp
  then show ?thesis
    by (simp add: write_command_def Let_def DZIP_ARG1_COMPACT_MAX_def vluint_write_out [of "[_]"])
qed

lemma length_distance: "d < 4294967296 \<Longrightarrow> length (vluint_write [] (word_of_nat d)) \<le> 5"
  by (rule length_vluint_write) (simp_all add: unat_of_nat)

text \<open>The invariant of a chunk: what \<open>body\<close> has emitted, and its size.\<close>

definition deflated :: "bytes \<Rightarrow> bytes \<Rightarrow> bytes \<Rightarrow> dzip_deflate_state \<Rightarrow> bool" where
  "deflated o' window body st \<longleftrightarrow>
     literal_begin st \<le> length window \<and>
     emits o' body (take (literal_begin st) window) \<and> length body \<le> 2 * literal_begin st"

lemma write_literal_deflated:
  assumes inv: "deflated o' window body st" and wp: "literal_begin st \<le> window_progress st"
    and "window_progress st \<le> length window" and "length window < 4294967296"
  shows "\<exists>body' st'. write_literal (pre @ body) st window = (pre @ body', st') \<and>
      deflated o' window body' st' \<and> literal_begin st' = window_progress st \<and>
      window_progress st' = window_progress st \<and> the_match st' = the_match st"
proof (cases "literal_begin st < window_progress st")
  case False
  with wp inv show ?thesis by (auto simp: write_literal_def)
next
  case True
  define len where "len = window_progress st - literal_begin st"
  define lit where "lit = take len (drop (literal_begin st) window)"
  define piece where "piece = write_command [] DZIP_CMD_LITERAL (length lit) @ lit"
  have n: "length lit = len" "0 < len" "len < 4294967296"
    using True assms(3,4) by (auto simp: lit_def len_def)
  have "take (literal_begin st) window @ lit = take (window_progress st) window"
    using True assms(3) unfolding lit_def len_def by (simp flip: take_add)
  moreover have "emits (o' @ take (literal_begin st) window) piece lit"
    unfolding piece_def using n by (intro emits_literal) auto
  ultimately have "emits o' (body @ piece) (take (window_progress st) window)"
    using inv emits_append unfolding deflated_def by metis
  moreover have "length (body @ piece) \<le> 2 * window_progress st"
  proof -
    have "length piece \<le> 2 * len"
      using length_write_command [of len DZIP_CMD_LITERAL] n by (auto simp: piece_def split: if_splits)
    moreover have "literal_begin st + len = window_progress st" using True by (simp add: len_def)
    ultimately show ?thesis using inv by (simp add: deflated_def)
  qed
  moreover have "fst (write_literal (pre @ body) st window) = pre @ (body @ piece)"
    using True n
    by (simp add: write_literal_def Let_def u32_small piece_def lit_def [symmetric] len_def [symmetric]
        write_command_out [of "_ @ _"])
  ultimately show ?thesis
    using True assms(3)
    by (intro exI [of _ "body @ piece"] exI [of _ "snd (write_literal (pre @ body) st window)"])
      (simp add: deflated_def write_literal_def Let_def)
qed

lemma setup_match_spec:
  assumes "window_progress st < length window" and "length window < 4294967296"
    and "0 < match_length (the_match (setup_match st window))"
  defines "m \<equiv> the_match (setup_match st window)" and "p \<equiv> window_progress st"
  shows "0 < distance m \<and> distance m \<le> p \<and> p + match_length m \<le> length window \<and>
    (\<forall>k. p \<le> k \<and> k < p + match_length m \<longrightarrow> window ! k = window ! (k - distance m))"
proof -
  define r where "r = recent st (le32 (drop p window) mod recent_count)"
  have lt: "r < p" using assms(3) by (auto simp: setup_match_def Let_def r_def p_def split: if_splits)
  define j where "j = check_match_loop window (p - r) p"
  have j: "p \<le> j" "j \<le> length window" "\<forall>k. p \<le> k \<and> k < j \<longrightarrow> window ! k = window ! (k - (p - r))"
    unfolding j_def
    by (rule check_match_loop_le, rule check_match_loop_end)
      (use assms(1) in \<open>auto simp: p_def intro: check_match_loop_equal\<close>)
  have "m = (the_match st)\<lparr>distance := p - r, match_length := u32 (j - p)\<rparr>"
    using lt unfolding m_def j_def by (simp add: setup_match_def check_match_def Let_def r_def p_def)
  then show ?thesis using j lt assms(2) by (simp add: u32_small)
qed

lemma setup_match_frame [simp]:
  "window_progress (setup_match st window) = window_progress st"
  "literal_begin (setup_match st window) = literal_begin st"
  by (simp_all add: setup_match_def Let_def)

lemma write_match_deflated:
  assumes inv: "deflated o' window body st" and lb: "literal_begin st = p" and wp: "window_progress st = p"
    and m: "0 < distance (the_match st)" "distance (the_match st) \<le> p"
      "p + match_length (the_match st) \<le> length window" "5 \<le> match_length (the_match st)"
      "\<forall>k. p \<le> k \<and> k < p + match_length (the_match st) \<longrightarrow>
         window ! k = window ! (k - distance (the_match st))"
    and len: "length o' + length window < 4294967296"
  shows "\<exists>body' st'. write_match (pre @ body) st = (pre @ body', st') \<and>
      deflated o' window body' st' \<and> literal_begin st' = window_progress st' \<and>
      window_progress st' = p + match_length (the_match st)"
proof -
  let ?d = "distance (the_match st)" and ?n = "match_length (the_match st)"
  define piece where "piece = write_command [] DZIP_CMD_MATCH ?n @ vluint_write [] (word_of_nat ?d)"
  define add where "add = take ?n (drop p window)"
  have tk: "take p window @ add = take (p + ?n) window"
    unfolding add_def by (simp add: take_add)
  have "copy_match (o' @ take p window) ?d ?n = Some ((o' @ take p window) @ add)"
    using copy_match_window [OF m(1,2,3,5), of o'] tk by simp
  then have "emits (o' @ take p window) piece add"
    unfolding piece_def using m len by (intro emits_match) auto
  then have "emits o' (body @ piece) (take (p + ?n) window)"
    using inv lb emits_append tk unfolding deflated_def by metis
  moreover have "length (body @ piece) \<le> 2 * (p + ?n)"
  proof -
    have "length piece \<le> 10"
      using length_write_command [of ?n DZIP_CMD_MATCH] length_distance [of ?d] m len
      by (auto simp: piece_def split: if_splits)
    then show ?thesis using inv lb m(4) by (simp add: deflated_def)
  qed
  moreover have "fst (write_match (pre @ body) st) = pre @ (body @ piece)"
    by (simp add: write_match_def Let_def piece_def write_command_out [of "_ @ _"]
        vluint_write_out [of "_ @ _"])
  ultimately show ?thesis
    using m len wp
    by (intro exI [of _ "body @ piece"] exI [of _ "snd (write_match (pre @ body) st)"])
      (simp add: deflated_def write_match_def Let_def u32_small)
qed

text \<open>The loop of a chunk ends and keeps the invariant.\<close>

lemma deflate_loop_deflated:
  assumes "deflated o' window body st" and "literal_begin st \<le> window_progress st"
    and "window_progress st \<le> length window"
    and "limit \<le> length window" and "length o' + length window < 4294967296"
  shows "\<exists>body' st'. deflate_loop limit window (pre @ body) st = Some (pre @ body', st') \<and>
      deflated o' window body' st'"
  using assms
proof (induction "limit - window_progress st" arbitrary: body st rule: less_induct)
  case less
  show ?case
  proof (cases "window_progress st < limit")
    case False
    then show ?thesis using less.prems by (auto simp: deflate_loop.simps)
  next
    case True
    define st1 where "st1 = setup_match st window"
    define p where "p = window_progress st"
    have inv1: "deflated o' window body st1" and frame: "window_progress st1 = p" "literal_begin st1 \<le> p"
      using less.prems(1,2) by (simp_all add: deflated_def st1_def p_def)
    have p: "p < limit" "p < length window" "length window < 4294967296"
      using True less.prems by (simp_all add: p_def)
    show ?thesis
    proof (cases "4 < match_length (the_match st1)")
      case match: True
      obtain body2 st2 where w2: "write_literal (pre @ body) st1 window = (pre @ body2, st2)"
          "deflated o' window body2 st2" "literal_begin st2 = p" "window_progress st2 = p"
          "the_match st2 = the_match st1"
        using write_literal_deflated [OF inv1, of pre] frame p by auto
      have m: "0 < distance (the_match st1) \<and> distance (the_match st1) \<le> p \<and>
          p + match_length (the_match st1) \<le> length window \<and>
          (\<forall>k. p \<le> k \<and> k < p + match_length (the_match st1) \<longrightarrow>
             window ! k = window ! (k - distance (the_match st1)))"
        using match p unfolding st1_def p_def by (intro setup_match_spec) auto
      obtain body3 st3 where w3: "write_match (pre @ body2) st2 = (pre @ body3, st3)"
          "deflated o' window body3 st3" "literal_begin st3 = window_progress st3"
          "window_progress st3 = p + match_length (the_match st1)"
        using write_match_deflated [OF w2(2-4), where pre = pre] m match less.prems(5) unfolding w2(5)
        by auto
      have dec: "limit - window_progress st3 < limit - window_progress st"
        using match p w3(4) by (simp add: p_def)
      have "\<exists>body' st'. deflate_loop limit window (pre @ body3) st3 = Some (pre @ body', st') \<and>
          deflated o' window body' st'"
        using m w3(3,4) less.prems(4,5) by (intro less.hyps [OF dec w3(2)]) auto
      moreover have "deflate_loop limit window (pre @ body) st = deflate_loop limit window (pre @ body3) st3"
        using True match w2(1) w3(1) by (subst deflate_loop.simps) (simp add: Let_def st1_def)
      ultimately show ?thesis by simp
    next
      case False
      let ?st = "st1\<lparr>window_progress := u32 (window_progress st1 + 1)\<rparr>"
      have wp: "window_progress ?st = Suc p" using frame p by (simp add: u32_small)
      have "\<exists>body' st'. deflate_loop limit window (pre @ body) ?st = Some (pre @ body', st') \<and>
          deflated o' window body' st'"
      proof (rule less.hyps)
        show "limit - window_progress ?st < limit - window_progress st"
          using wp p by (simp add: p_def)
        show "deflated o' window body ?st" using inv1 by (simp add: deflated_def)
      qed (use wp frame p less.prems in auto)
      moreover have "deflate_loop limit window (pre @ body) st = deflate_loop limit window (pre @ body) ?st"
        using True False by (subst deflate_loop.simps) (simp add: Let_def st1_def)
      ultimately show ?thesis by simp
    qed
  qed
qed

text \<open>A chunk ends in its own body, which emits the whole window.\<close>

lemma dzip_deflate_chunk_spec:
  assumes "length out + 2 * length input + 32 < 4294967296"
    and "length o' + length input < 4294967296"
  shows "\<exists>body st'. dzip_deflate_chunk out st input
      = Some (out @ dzip_header (header_size + length body) @ body, st') \<and>
      emits o' body input \<and> length body \<le> 2 * length input"
proof -
  let ?st0 = "st\<lparr>window_progress := 8, literal_begin := 0\<rparr>"
  let ?pre = "out @ replicate header_size 0"
  have sizes: "u32 (length out) = length out" "u32 (length input) = length input"
    using assms by (simp_all add: u32_small)
  define looped where "looped = (if length input > 4
      then deflate_loop (length input - 4) input ?pre ?st0 else Some (?pre, ?st0))"
  have inv0: "deflated o' input [] ?st0" by (simp add: deflated_def)
  have "\<exists>body1 st1. looped = Some (?pre @ body1, st1) \<and> deflated o' input body1 st1"
  proof (cases "length input > 8")
    case True
    then show ?thesis
      using deflate_loop_deflated [OF inv0, of "length input - 4" ?pre] assms(2)
      by (simp add: looped_def)
  next
    case False
    then have "looped = Some (?pre @ [], ?st0)"
      by (auto simp: looped_def deflate_loop.simps)
    then show ?thesis using inv0 by blast
  qed
  then obtain body1 st1 where l: "looped = Some (?pre @ body1, st1)" "deflated o' input body1 st1"
    by blast
  let ?st1 = "st1\<lparr>window_progress := length input\<rparr>"
  have inv1: "deflated o' input body1 ?st1" using l(2) by (simp add: deflated_def)
  obtain body st2 where w: "write_literal (?pre @ body1) ?st1 input = (?pre @ body, st2)"
      "deflated o' input body st2" "literal_begin st2 = length input"
    using write_literal_deflated [OF inv1, of ?pre] l(2) assms(2) by (auto simp: deflated_def)
  then have body: "emits o' body input" "length body \<le> 2 * length input"
    by (simp_all add: deflated_def)
  have "dzip_deflate_chunk out st input = (case looped of None \<Rightarrow> None
      | Some (out1, st1) \<Rightarrow> (case write_literal out1 (st1\<lparr>window_progress := length input\<rparr>) input of
          (out2, st2) \<Rightarrow> Some (take (length out) out2 @ dzip_header (u32 (length out2 - length out))
             @ drop (length out + header_size) out2, st2)))"
    by (simp add: dzip_deflate_chunk_def Let_def sizes looped_def)
  then have "dzip_deflate_chunk out st input = Some (out @ dzip_header (header_size + length body) @ body, st2)"
    using w(1) body(2) assms(1) unfolding l(1) by (simp add: u32_small header_size_def)
  with body show ?thesis by blast
qed

section \<open>Many chunks\<close>

lemma emits_not_empty: "emits out body d \<Longrightarrow> d \<noteq> [] \<Longrightarrow> body \<noteq> []"
  using emits_whole [of out "[]" d] by auto

text \<open>
  A chunk stands on its own: whatever the output holds, as long as it stays below the size
  limit, the body emits the same data.
\<close>

definition is_chunk :: "bytes \<times> bytes \<Rightarrow> bool" where
  "is_chunk p \<longleftrightarrow>
     (\<exists>body. fst p = dzip_header (header_size + length body) @ body \<and> body \<noteq> [] \<and>
        header_size + length body < 4294967296 \<and>
        (\<forall>out. length out + length (snd p) < 4294967296 \<longrightarrow> emits out body (snd p)))"

lemma inflate_range_chunk:
  assumes "emits out body d" and "body \<noteq> []" and "header_size + length body < 4294967296"
  shows "inflate_range_loop out (dzip_header (header_size + length body) @ body @ rest)
    = inflate_range_loop (out @ d) rest"
proof -
  let ?n = "header_size + length body"
  let ?chunk = "dzip_header ?n @ body @ rest"
  note fields = header_fields [OF assms(3), of "body @ rest"]
  have n: "header_size < ?n" using assms(2) by simp
  have len: "length ?chunk = header_size + length body + length rest" by simp
  have body: "drop header_size (take ?n ?chunk) = body" by simp
  have "dzip_inflate out ?chunk = inflate_commands out body"
    unfolding dzip_inflate_def fields using n body len by simp
  then have "dzip_inflate out ?chunk = Some (True, out @ d)"
    using emits_whole [OF assms(1)] assms(3) by simp
  moreover have "drop ?n ?chunk = rest" by simp
  moreover have "header_size < length ?chunk" "\<not> length ?chunk < ?n" using n len by simp_all
  ultimately show ?thesis
    by (subst inflate_range_loop.simps) (simp add: fields del: length_append)
qed

lemma inflate_range_is_chunk:
  assumes "is_chunk (c, d)" and "length out + length d < 4294967296"
  shows "inflate_range_loop out (c @ rest) = inflate_range_loop (out @ d) rest"
  using assms inflate_range_chunk by (auto simp: is_chunk_def)

lemma inflate_range_chunks:
  assumes "list_all is_chunk ps" and "length out + length (concat (map snd ps)) < 4294967296"
  shows "inflate_range_loop out (concat (map fst ps) @ rest)
    = inflate_range_loop (out @ concat (map snd ps)) rest"
  using assms
proof (induction ps arbitrary: out)
  case Nil
  then show ?case by simp
next
  case (Cons p ps)
  then show ?case
    using inflate_range_is_chunk [of "fst p" "snd p" out] Cons.IH [of "out @ snd p"] by simp
qed

text \<open>A chunk that is cut off is left alone.\<close>

lemma inflate_range_cut:
  assumes "is_chunk (c, d)" and "c = part @ tail" and "tail \<noteq> []"
  shows "inflate_range_loop out part = Some (True, out, part)"
proof (cases "header_size < length part")
  case False
  then show ?thesis by (simp add: inflate_range_loop.simps [of out part])
next
  case True
  obtain body where b: "c = dzip_header (header_size + length body) @ body"
      "header_size + length body < 4294967296"
    using assms(1) by (auto simp: is_chunk_def)
  have "part = take (length part) c" using assms(2) by simp
  then have "part = dzip_header (header_size + length body) @ take (length part - header_size) body"
    using True unfolding b(1) by simp
  then obtain body' where p: "part = dzip_header (header_size + length body) @ body'" by blast
  have "length part < length c" using assms(2,3) by simp
  then have "length part < header_size + length body" using b(1) by simp
  then show ?thesis
    using True header_fields [OF b(2), of body'] unfolding p
    by (simp add: inflate_range_loop.simps [of out "_ @ _"])
qed

lemma is_chunk_size: "is_chunk (c, d) \<Longrightarrow> header_size < length c"
  by (auto simp: is_chunk_def)

text \<open>The beginning of a stream: the whole chunks in it are expanded, and only those.\<close>

lemma inflate_range_prefix:
  assumes "list_all is_chunk ps" and "concat (map fst ps) = ct @ future"
    and "length out + length (concat (map snd ps)) < 4294967296"
  shows "\<exists>qs rs rest. ps = qs @ rs \<and> ct = concat (map fst qs) @ rest \<and>
    inflate_range_loop out ct = Some (True, out @ concat (map snd qs), rest) \<and>
    (future = [] \<longrightarrow> rs = [] \<and> rest = [])"
  using assms
proof (induction ps arbitrary: out ct)
  case Nil
  then show ?case by (simp add: inflate_range_loop.simps [of out])
next
  case (Cons p ps)
  obtain c d where p: "p = (c, d)" by (cases p)
  have chunk: "is_chunk (c, d)" and ps: "list_all is_chunk ps" using Cons.prems(1) p by simp_all
  show ?case
  proof (cases "length c \<le> length ct")
    case True
    have "c = take (length c) ct" "concat (map fst ps) = drop (length c) ct @ future"
      using True Cons.prems(2) p by (simp_all add: append_eq_append_conv_if)
    then obtain ct' where ct: "ct = c @ ct'" "concat (map fst ps) = ct' @ future"
      by (metis append_take_drop_id)
    have "length (out @ d) + length (concat (map snd ps)) < 4294967296"
      using Cons.prems(3) p by simp
    from Cons.IH [OF ps ct(2) this] obtain qs rs rest where
      q: "ps = qs @ rs" "ct' = concat (map fst qs) @ rest"
        "inflate_range_loop (out @ d) ct' = Some (True, (out @ d) @ concat (map snd qs), rest)"
        "future = [] \<longrightarrow> rs = [] \<and> rest = []"
      by blast
    have "length out + length d < 4294967296" using Cons.prems(3) p by simp
    from inflate_range_is_chunk [OF chunk this] q ct(1) p show ?thesis
      by (intro exI [of _ "p # qs"] exI [of _ rs] exI [of _ rest]) simp
  next
    case False
    then obtain tail where m: "c = ct @ tail" "future = tail @ concat (map fst ps)" "tail \<noteq> []"
      using Cons.prems(2) p by (auto simp: append_eq_append_conv2)
    then have "inflate_range_loop out ct = Some (True, out, ct)"
      using inflate_range_cut [OF chunk] by blast
    then show ?thesis using m(2,3) by (intro exI [of _ "[]"] exI [of _ "p # ps"] exI [of _ ct]) simp
  qed
qed

text \<open>What a compressed stream may take: twice the input, and a header per chunk.\<close>

definition deflated_size :: "nat \<Rightarrow> nat" where
  "deflated_size n =
     (if n = 0 then 0 else 2 * n + header_size * (n div DZIP_MAX_CHUNK_SIZE + 1))"

lemma deflated_size_le: "deflated_size n \<le> 3 * n + 16"
proof -
  have "16 * (n div 1000000) \<le> n" by linarith
  then show ?thesis by (simp add: deflated_size_def DZIP_MAX_CHUNK_SIZE_def header_size_def)
qed

lemma deflated_size_split:
  "2 * DZIP_MAX_CHUNK_SIZE < n \<Longrightarrow>
     header_size + 2 * DZIP_MAX_CHUNK_SIZE + deflated_size (n - DZIP_MAX_CHUNK_SIZE) = deflated_size n"
  by (simp add: deflated_size_def DZIP_MAX_CHUNK_SIZE_def header_size_def le_div_geq)

lemma deflated_size_one: "0 < n \<Longrightarrow> header_size + 2 * n \<le> deflated_size n"
  by (simp add: deflated_size_def)

lemma dzip_deflate_loop_step:
  assumes "input \<noteq> []"
    and "n = (if length input > 2 * DZIP_MAX_CHUNK_SIZE then DZIP_MAX_CHUNK_SIZE else length input)"
  shows "dzip_deflate_loop out st input =
    (case dzip_deflate_chunk out st (take n input) of
       None \<Rightarrow> None
     | Some (out', st') \<Rightarrow> dzip_deflate_loop out' st' (drop n input))"
  unfolding assms(2) by (subst dzip_deflate_loop.simps) (simp only: Let_def assms(1) if_False)

lemma dzip_deflate_chunk_is_chunk:
  assumes "length out + 2 * length input + 32 < 4294967296" and "input \<noteq> []"
  shows "\<exists>c st'. dzip_deflate_chunk out st input = Some (out @ c, st') \<and> is_chunk (c, input) \<and>
    length c \<le> header_size + 2 * length input"
proof -
  have "length ([] :: bytes) + length input < 4294967296" using assms(1) by simp
  from dzip_deflate_chunk_spec [OF assms(1) this, of st] obtain body st' where
    c: "dzip_deflate_chunk out st input = Some (out @ dzip_header (header_size + length body) @ body, st')"
      "emits [] body input" "length body \<le> 2 * length input"
    by blast
  have "emits o' body input" if o': "length o' + length input < 4294967296" for o'
    using dzip_deflate_chunk_spec [OF assms(1) o', of st] c(1) by auto
  moreover have "body \<noteq> []" using c(2) assms(2) by (rule emits_not_empty)
  moreover have "header_size + length body < 4294967296"
    using c(3) assms(1) by (simp add: header_size_def)
  ultimately have "is_chunk (dzip_header (header_size + length body) @ body, input)"
    by (auto simp: is_chunk_def)
  with c(1,3) show ?thesis
    by (intro exI [of _ "dzip_header (header_size + length body) @ body"] exI [of _ st']) simp
qed

lemma dzip_deflate_loop_spec:
  assumes "length out + deflated_size (length input) + 32 < 4294967296"
  shows "\<exists>ps st'. dzip_deflate_loop out st input = Some (out @ concat (map fst ps), st') \<and>
    list_all is_chunk ps \<and> concat (map snd ps) = input \<and>
    length (concat (map fst ps)) \<le> deflated_size (length input)"
  using assms
proof (induction "length input" arbitrary: input out st rule: less_induct)
  case less
  show ?case
  proof (cases "input = []")
    case True
    then show ?thesis by (intro exI [of _ "[]"]) (simp add: dzip_deflate_loop.simps)
  next
    case False
    define n where "n = (if length input > 2 * DZIP_MAX_CHUNK_SIZE then DZIP_MAX_CHUNK_SIZE
                         else length input)"
    let ?w = "take n input" and ?r = "drop n input"
    have n: "0 < n" "n \<le> length input" "length ?w = n" "?w \<noteq> []"
      using False by (simp_all add: n_def DZIP_MAX_CHUNK_SIZE_def)
    have sz: "header_size + 2 * n + deflated_size (length ?r) \<le> deflated_size (length input)"
    proof (cases "length input > 2 * DZIP_MAX_CHUNK_SIZE")
      case True
      then show ?thesis using deflated_size_split [OF True] by (simp add: n_def)
    next
      case single: False
      then show ?thesis
        using deflated_size_one [of n] n(1) by (simp add: n_def deflated_size_def [of 0])
    qed
    have "length out + 2 * length ?w + 32 < 4294967296"
      using less.prems sz n by (simp add: header_size_def)
    from dzip_deflate_chunk_is_chunk [OF this n(4), of st] obtain c st1 where
      c: "dzip_deflate_chunk out st ?w = Some (out @ c, st1)" "is_chunk (c, ?w)"
        "length c \<le> header_size + 2 * n"
      using n(3) by auto
    have "length ?r < length input" using n(1,2) by simp
    moreover have "length (out @ c) + deflated_size (length ?r) + 32 < 4294967296"
      using less.prems(1) sz c(3) by simp
    ultimately obtain ps st' where
      r: "dzip_deflate_loop (out @ c) st1 ?r = Some ((out @ c) @ concat (map fst ps), st')"
        "list_all is_chunk ps" "concat (map snd ps) = ?r"
        "length (concat (map fst ps)) \<le> deflated_size (length ?r)"
      using less.hyps [of ?r "out @ c" st1] by blast
    have "dzip_deflate_loop out st input = Some (out @ concat (map fst ((c, ?w) # ps)), st')"
      using dzip_deflate_loop_step [OF False n_def, of out st] c(1) r(1) by simp
    moreover have "list_all is_chunk ((c, ?w) # ps)" "concat (map snd ((c, ?w) # ps)) = input"
      using c(2) r(2,3) by simp_all
    moreover have "length (concat (map fst ((c, ?w) # ps))) \<le> deflated_size (length input)"
      using sz c(3) r(4) by simp
    ultimately show ?thesis by blast
  qed
qed

lemma dzip_deflate_chunks:
  assumes "length out + 3 * length input + 48 < 4294967296"
  shows "\<exists>ps st'. dzip_deflate out st input = Some (out @ concat (map fst ps), st') \<and>
    list_all is_chunk ps \<and> concat (map snd ps) = input \<and>
    length (concat (map fst ps)) \<le> deflated_size (length input)"
proof -
  have "length out + deflated_size (length input) + 32 < 4294967296"
    using assms(1) deflated_size_le [of "length input"] by linarith
  from dzip_deflate_loop_spec [OF this, of st] show ?thesis
    by (auto simp: dzip_deflate_def)
qed

lemma dzip_deflate_spec:
  assumes "length out + 3 * length input + 48 < 4294967296"
    and "length o' + length input < 4294967296"
  shows "\<exists>stream st'. dzip_deflate out st input = Some (out @ stream, st') \<and>
    (\<forall>rest. inflate_range_loop o' (stream @ rest) = inflate_range_loop (o' @ input) rest) \<and>
    length stream \<le> deflated_size (length input)"
proof -
  obtain ps st' where "dzip_deflate out st input = Some (out @ concat (map fst ps), st')"
      "list_all is_chunk ps" "concat (map snd ps) = input"
      "length (concat (map fst ps)) \<le> deflated_size (length input)"
    using dzip_deflate_chunks [OF assms(1)] by blast
  then show ?thesis using inflate_range_chunks [of ps o'] assms(2) by auto
qed

section \<open>Properties\<close>

text \<open>C1: Decompression inverts compression: whatever the state of the compressor and the
  contents of the two output buffers, \<open>dzip_deflate\<close> returns and appends a stream that
  \<open>dzip_inflate_range\<close> accepts, consumes to its end and expands to the input, provided the
  sizes fit the 32 bits of a \<open>dzip_size\<close>.\<close>

theorem dzip_roundtrip:
  assumes "length out + 3 * length input + 48 < 4294967296"
    and "length o' + length input < 4294967296"
  shows "\<exists>stream st'. dzip_deflate out st input = Some (out @ stream, st') \<and>
    dzip_inflate_range o' stream = Some (True, o' @ input, [])"
proof -
  obtain stream st' where s: "dzip_deflate out st input = Some (out @ stream, st')"
      "\<forall>rest. inflate_range_loop o' (stream @ rest) = inflate_range_loop (o' @ input) rest"
    using dzip_deflate_spec [OF assms] by blast
  have "inflate_range_loop o' (stream @ []) = Some (True, o' @ input, [])"
    unfolding s(2) [rule_format] by (simp add: inflate_range_loop.simps [of _ "[]"])
  with s(1) show ?thesis by (auto simp: dzip_inflate_range_def)
qed

theorem dzip_roundtrip_witness:
  "\<exists>stream st'. dzip_deflate [1] dzip_deflate_state_new (str ''abcdefgh abcdefgh abcdefgh'')
       = Some ([1] @ stream, st') \<and>
     dzip_inflate_range [2] stream = Some (True, [2] @ str ''abcdefgh abcdefgh abcdefgh'', [])"
  by (rule dzip_roundtrip) (simp_all add: str_def)

text \<open>C19: Compression returns, and the stream it appends has at most two bytes per byte of
  input and one header of sixteen bytes for every started million bytes; nothing is appended
  for an empty input.\<close>

theorem dzip_deflate_bound:
  assumes "length out + 3 * length input + 48 < 4294967296"
  shows "\<exists>stream st'. dzip_deflate out st input = Some (out @ stream, st') \<and>
    length stream \<le> (if input = [] then 0
      else 2 * length input + header_size * (length input div DZIP_MAX_CHUNK_SIZE + 1))"
proof -
  have "length [] + length input < 4294967296" using assms by simp
  from dzip_deflate_spec [OF assms this, of st] show ?thesis
    unfolding deflated_size_def by auto
qed

theorem dzip_deflate_bound_witness:
  "\<exists>stream st'. dzip_deflate [] dzip_deflate_state_new (str ''abc'') = Some ([] @ stream, st') \<and>
     length stream \<le> (if str ''abc'' = [] then 0
       else 2 * length (str ''abc'') + header_size * (length (str ''abc'') div DZIP_MAX_CHUNK_SIZE + 1))"
  by (rule dzip_deflate_bound) (simp add: str_def)


text \<open>Compression appends chunks, so streams can be cut and joined: decompressing two
  compressed streams one after the other yields the two inputs one after the other.\<close>

theorem dzip_streams_concatenate:
  assumes "length out + 3 * length a + 48 < 4294967296"
    and "length out' + 3 * length b + 48 < 4294967296"
    and "length o' + length a + length b < 4294967296"
  shows "\<exists>s1 s2 st1 st2. dzip_deflate out st a = Some (out @ s1, st1) \<and>
    dzip_deflate out' st' b = Some (out' @ s2, st2) \<and>
    dzip_inflate_range o' (s1 @ s2) = Some (True, o' @ a @ b, [])"
proof -
  have "length o' + length a < 4294967296" using assms(3) by simp
  from dzip_deflate_spec [OF assms(1) this, of st] obtain s1 st1 where
    1: "dzip_deflate out st a = Some (out @ s1, st1)"
      "\<forall>rest. inflate_range_loop o' (s1 @ rest) = inflate_range_loop (o' @ a) rest" by blast
  have "length (o' @ a) + length b < 4294967296" using assms(3) by simp
  from dzip_deflate_spec [OF assms(2) this, of st'] obtain s2 st2 where
    2: "dzip_deflate out' st' b = Some (out' @ s2, st2)"
      "\<forall>rest. inflate_range_loop (o' @ a) (s2 @ rest) = inflate_range_loop ((o' @ a) @ b) rest" by blast
  have "inflate_range_loop o' (s1 @ s2 @ []) = Some (True, o' @ a @ b, [])"
    unfolding 1(2) [rule_format] 2(2) [rule_format] by (simp add: inflate_range_loop.simps [of _ "[]"])
  then have "dzip_inflate_range o' (s1 @ s2) = Some (True, o' @ a @ b, [])"
    by (simp add: dzip_inflate_range_def)
  with 1(1) 2(1) show ?thesis by blast
qed

theorem dzip_streams_concatenate_witness:
  "\<exists>s1 s2 st1 st2. dzip_deflate [] dzip_deflate_state_new (str ''ab'') = Some ([] @ s1, st1) \<and>
     dzip_deflate [] dzip_deflate_state_new (str ''cde'') = Some ([] @ s2, st2) \<and>
     dzip_inflate_range [] (s1 @ s2) = Some (True, [] @ str ''ab'' @ str ''cde'', [])"
  by (rule dzip_streams_concatenate) (simp_all add: str_def)

end
