(* ===== verification/BufferIo.thy ===== *)
theory BufferIo
  imports Arrays
begin

text \<open>
  Reading and writing file descriptors through buffers (\<open>src/buffer_io/buffer_io.c\<close>).
  What the operating system answers is input of the model: a descriptor open for reading
  is the list of what successive calls of \<open>read\<close> deliver, one open for writing the list
  of how much successive calls of \<open>write\<close> accept, and what it has received so far.
\<close>

section \<open>File descriptors\<close>

text \<open>
  \<open>None\<close> is a failing call, the empty list the end of the file; after the last answer
  the file is at its end. A call that asks for less than the next answer gets its beginning.
\<close>

type_synonym read_fd = "bytes option list"

fun sys_read :: "read_fd \<Rightarrow> nat \<Rightarrow> bytes option \<times> read_fd" where
  "sys_read [] n = (Some [], [])"
| "sys_read (None # s) n = (None, s)"
| "sys_read (Some bs # s) n =
     (if length bs \<le> n then (Some bs, s) else (Some (take n bs), Some (drop n bs) # s))"

record write_fd =
  accept :: "nat option list"
  sent :: bytes

definition sys_write :: "write_fd \<Rightarrow> bytes \<Rightarrow> nat option \<times> write_fd" where
  "sys_write fd bs =
     (case accept fd of
        [] \<Rightarrow> (Some (length bs), fd\<lparr>sent := sent fd @ bs\<rparr>)
      | None # s \<Rightarrow> (None, fd\<lparr>accept := s\<rparr>)
      | Some n # s \<Rightarrow>
          (Some (min n (length bs)), fd\<lparr>accept := s, sent := sent fd @ take n bs\<rparr>))"

text \<open>The bytes a descriptor delivers before its end or an error.\<close>

fun fd_data :: "read_fd \<Rightarrow> bytes" where
  "fd_data [] = []"
| "fd_data (None # s) = []"
| "fd_data (Some bs # s) = bs @ fd_data s"

text \<open>Descriptors that never fail and end only at their end.\<close>

definition fd_clean :: "read_fd \<Rightarrow> bool" where
  "fd_clean fd \<longleftrightarrow> None \<notin> set fd \<and> Some [] \<notin> set fd"

lemma fd_clean_simps [simp]:
  "fd_clean []" "fd_clean (None # s) = False"
  "fd_clean (Some bs # s) \<longleftrightarrow> bs \<noteq> [] \<and> fd_clean s"
  by (auto simp: fd_clean_def)

lemma sys_read_spec:
  "sys_read fd n = (Some bs, fd') \<Longrightarrow>
     length bs \<le> n \<and> fd_data fd = bs @ fd_data fd' \<and>
     (fd_clean fd \<longrightarrow> fd_clean fd' \<and> (bs = [] \<and> 0 < n \<longrightarrow> fd_data fd = []))"
  by (induction fd n rule: sys_read.induct) (auto split: if_splits)

lemma sys_read_clean: "fd_clean fd \<Longrightarrow> \<exists>bs fd'. sys_read fd n = (Some bs, fd')"
  by (induction fd n rule: sys_read.induct) auto

text \<open>A sink that never fails and accepts something of every write.\<close>

definition fd_accepts :: "write_fd \<Rightarrow> bool" where
  "fd_accepts fd \<longleftrightarrow> None \<notin> set (accept fd) \<and> Some 0 \<notin> set (accept fd)"

lemma fd_accepts_all [simp]: "accept fd = [] \<Longrightarrow> fd_accepts fd"
  by (simp add: fd_accepts_def)

lemma sys_write_accepts:
  assumes "fd_accepts fd" and "bs \<noteq> []"
  shows "\<exists>n fd'. sys_write fd bs = (Some n, fd') \<and> 0 < n \<and> n \<le> length bs \<and>
    sent fd' = sent fd @ take n bs \<and> fd_accepts fd'"
  using assms by (auto simp: sys_write_def fd_accepts_def min_def split: list.split option.split)

section \<open>buffer_read\<close>

text \<open>
  The point and the size of the next read: the space left before the last allocated byte,
  or new space (1000 bytes, the given initial size, or as much as the buffer holds). \<open>None\<close>
  is a failing allocation.
\<close>

definition buffer_read_prepare :: "allocator \<Rightarrow> buffer \<Rightarrow> nat \<Rightarrow> (buffer \<times> nat) option" where
  "buffer_read_prepare al b initial_alloc_size =
     (let have_size = used b
      in if mem b \<noteq> [] \<and> used b < length (mem b) - 1
         then Some (b, length (mem b) - 1 - used b)
         else let fill_size = (if have_size \<noteq> 0 then have_size
                               else if initial_alloc_size \<noteq> 0 then initial_alloc_size else 1000);
                  new_size = have_size + fill_size + 1
              in case buffer_resize al b new_size of
                   (r, b') \<Rightarrow> if r < 0 then None else Some (b', fill_size))"

text \<open>
  \<open>buffer_read\<close> returns the size that was read, or \<open>-1\<close>. The byte after the contents
  is set to 0. \<open>None\<close> is a write out of bounds.
\<close>

definition buffer_read ::
    "allocator \<Rightarrow> buffer \<Rightarrow> nat \<Rightarrow> nat \<Rightarrow> read_fd \<Rightarrow> (int \<times> buffer \<times> read_fd) option" where
  "buffer_read al b max_buffer_size initial_alloc_size fd =
     (let have_size = used b;
          max_size = (if max_buffer_size \<noteq> 0 then max_buffer_size else size_max - 1)
      in if have_size \<ge> max_size
         then (case buffer_push al b 0 of
                 None \<Rightarrow> None
               | Some b' \<Rightarrow> Some (0, b'\<lparr>used := used b' - 1\<rparr>, fd))
         else case buffer_read_prepare al b initial_alloc_size of
                None \<Rightarrow> Some (-1, b, fd)
              | Some (b1, fill_size0) \<Rightarrow>
                  (let fill_size = (if have_size + fill_size0 > max_size then max_size - have_size
                                    else fill_size0)
                   in case sys_read fd fill_size of
                        (None, fd') \<Rightarrow> Some (-1, b1, fd')
                      | (Some bs, fd') \<Rightarrow>
                          (case mem_write b1 have_size bs of
                             None \<Rightarrow> None
                           | Some b2 \<Rightarrow>
                               (case mem_write (b2\<lparr>used := have_size + length bs\<rparr>)
                                       (have_size + length bs) [0] of
                                  None \<Rightarrow> None
                                | Some b3 \<Rightarrow> Some (int (length bs), b3, fd')))))"

text \<open>
  The loop \<open>while (0 < (size = buffer_read (...))) {}\<close> of several callers, with its last
  size.
\<close>

lemma mem_write_used [simp]: "mem_write b pos src = Some b' \<Longrightarrow> used b' = used b"
  by (auto simp: mem_write_def split: if_splits)

lemma mem_write_None: "mem_write b pos src = None \<longleftrightarrow> length (mem b) < pos + length src"
  by (auto simp: mem_write_def)

lemma buffer_read_grows:
  assumes "buffer_read al b m i fd = Some (r, b', fd')" and "0 < r"
  shows "used b < used b' \<and> used b < (if m \<noteq> 0 then m else size_max - 1)"
  using assms
  by (auto simp: buffer_read_def Let_def split: if_splits option.splits prod.splits dest!: mem_write_used)

lemma buffer_read_decreases:
  "buffer_read al b m i fd = Some (r, b', fd') \<Longrightarrow> 0 < r \<Longrightarrow>
     (if m \<noteq> 0 then m else size_max - 1) - used b' < (if m \<noteq> 0 then m else size_max - 1) - used b"
  using buffer_read_grows by (metis diff_less_mono2)

function buffer_read_loop ::
    "allocator \<Rightarrow> buffer \<Rightarrow> nat \<Rightarrow> nat \<Rightarrow> read_fd \<Rightarrow> (int \<times> buffer \<times> read_fd) option" where
  "buffer_read_loop al b m i fd =
     (case buffer_read al b m i fd of
        None \<Rightarrow> None
      | Some (r, b', fd') \<Rightarrow>
          if 0 < r then buffer_read_loop al b' m i fd' else Some (r, b', fd'))"
  by pat_completeness auto
termination
  by (relation "measure (\<lambda>(al, b, m, i, fd). (if m \<noteq> 0 then m else size_max - 1) - used b)")
    (use buffer_read_decreases in \<open>auto simp only: wf_measure in_measure split_conv\<close>)

declare buffer_read_loop.simps [simp del]

text \<open>How much a descriptor can still answer: what loops over \<open>buffer_read\<close> use up.\<close>

definition fd_size :: "read_fd \<Rightarrow> nat" where
  "fd_size fd = sum_list (map (\<lambda>a. case a of None \<Rightarrow> 1 | Some bs \<Rightarrow> Suc (length bs)) fd)"

lemma sys_read_fd_size: "sys_read fd n = (Some bs, fd') \<Longrightarrow> bs \<noteq> [] \<Longrightarrow> fd_size fd' < fd_size fd"
  by (induction fd n rule: sys_read.induct) (auto simp: fd_size_def split: if_splits)

lemma buffer_read_fd_size:
  assumes "buffer_read al b m i fd = Some (r, b', fd')" and "0 < r"
  shows "fd_size fd' < fd_size fd"
proof -
  obtain n bs where "sys_read fd n = (Some bs, fd')" "r = int (length bs)"
    using assms by (auto simp: buffer_read_def Let_def split: if_splits option.splits prod.splits)
  then show ?thesis using sys_read_fd_size assms(2) by (metis length_greater_0_conv of_nat_0_less_iff)
qed

section \<open>buffer_write\<close>

text \<open>
  \<open>wrote_size\<close> is the number of bytes of the range that are already written; the result
  is what this call wrote, or \<open>-1\<close>.
\<close>

definition buffer_write :: "bytes \<Rightarrow> nat \<Rightarrow> write_fd \<Rightarrow> int \<times> nat \<times> write_fd" where
  "buffer_write buf wrote_size fd =
     (if wrote_size \<ge> length buf then (0, wrote_size, fd)
      else case sys_write fd (drop wrote_size buf) of
             (None, fd') \<Rightarrow> (-1, wrote_size, fd')
           | (Some n, fd') \<Rightarrow> (int n, wrote_size + n, fd'))"

text \<open>The loop that writes all of a buffer to a descriptor.\<close>

lemma buffer_write_progress:
  "buffer_write buf w fd = (r, w', fd') \<Longrightarrow> 0 < r \<Longrightarrow> w < length buf \<and> w < w'"
  by (auto simp: buffer_write_def split: if_splits option.splits prod.splits)

function buffer_write_loop :: "bytes \<Rightarrow> nat \<Rightarrow> write_fd \<Rightarrow> int \<times> nat \<times> write_fd" where
  "buffer_write_loop buf wrote_size fd =
     (case buffer_write buf wrote_size fd of
        (r, wrote_size', fd') \<Rightarrow>
          if 0 < r then buffer_write_loop buf wrote_size' fd' else (r, wrote_size', fd'))"
  by pat_completeness auto
termination
  by (relation "measure (\<lambda>(buf, w, fd). length buf - w)")
    (auto intro!: diff_less_mono2 dest: buffer_write_progress [OF sym])

declare buffer_write_loop.simps [simp del]

lemma buffer_write_loop_accepts:
  assumes "fd_accepts fd" and "w \<le> length buf"
  shows "\<exists>fd'. buffer_write_loop buf w fd = (0, length buf, fd') \<and> sent fd' = sent fd @ drop w buf \<and> fd_accepts fd'"
  using assms
proof (induction "length buf - w" arbitrary: w fd rule: less_induct)
  case less
  show ?case
  proof (cases "w = length buf")
    case True
    then show ?thesis using less.prems by (subst buffer_write_loop.simps) (simp add: buffer_write_def)
  next
    case False
    then have "drop w buf \<noteq> []" using less.prems(2) by simp
    then obtain n fd' where n: "sys_write fd (drop w buf) = (Some n, fd')" "0 < n" "n \<le> length (drop w buf)"
        "sent fd' = sent fd @ take n (drop w buf)" "fd_accepts fd'"
      using sys_write_accepts [OF less.prems(1)] by blast
    have "length buf - (w + n) < length buf - w" "w + n \<le> length buf" using n(2,3) False less.prems(2) by auto
    then obtain fd2 where l: "buffer_write_loop buf (w + n) fd' = (0, length buf, fd2)"
        "sent fd2 = sent fd' @ drop (w + n) buf" "fd_accepts fd2"
      using less.hyps n(5) by blast
    have "take n (drop w buf) @ drop (w + n) buf = drop w buf"
      by (metis add.commute append_take_drop_id drop_drop)
    then show ?thesis
      using n False less.prems(2) l by (subst buffer_write_loop.simps) (simp add: buffer_write_def)
  qed
qed

section \<open>Formatted output\<close>

text \<open>\<open>dprintf\<close> writes everything, or returns an error.\<close>

function dprintf :: "write_fd \<Rightarrow> bytes \<Rightarrow> bool \<times> write_fd" where
  "dprintf fd bs =
     (if bs = [] then (True, fd)
      else case sys_write fd bs of
             (None, fd') \<Rightarrow> (False, fd')
           | (Some n, fd') \<Rightarrow> if n = 0 then (False, fd') else dprintf fd' (drop n bs))"
  by pat_completeness auto
termination by (relation "measure (\<lambda>(fd, bs). length bs)") auto

declare dprintf.simps [simp del]

lemma dprintf_sent:
  assumes "fd_accepts fd"
  shows "\<exists>fd'. dprintf fd bs = (True, fd') \<and> sent fd' = sent fd @ bs \<and> fd_accepts fd'"
  using assms
proof (induction bs arbitrary: fd rule: measure_induct_rule [of length])
  case (less bs)
  show ?case
  proof (cases "bs = []")
    case True
    then show ?thesis using less.prems by (simp add: dprintf.simps)
  next
    case False
    obtain n fd' where w: "sys_write fd bs = (Some n, fd')" "0 < n" "sent fd' = sent fd @ take n bs"
        "fd_accepts fd'" using sys_write_accepts [OF less.prems False] by blast
    have "length (drop n bs) < length bs" using False w(2) by simp
    from less.IH [OF this w(4)] show ?thesis
      using False w(1-3) by (subst dprintf.simps) auto
  qed
qed

text \<open>\<open>s\<close> is what \<open>vsnprintf\<close> makes of the arguments.\<close>

definition buffer_printf :: "allocator \<Rightarrow> buffer \<Rightarrow> bytes \<Rightarrow> buffer option" where
  "buffer_printf al b s =
     (case mem_write (snd (buffer_realloc al b 1 (length s + 1))) 0 (s @ [0]) of
        None \<Rightarrow> None
      | Some b' \<Rightarrow> mem_write (b'\<lparr>used := length s\<rparr>) (length s) [0])"

definition buffer_printf_append :: "allocator \<Rightarrow> buffer \<Rightarrow> bytes \<Rightarrow> buffer option" where
  "buffer_printf_append al b s =
     (let old_size = used b; new_size = old_size + length s + 1
      in case mem_write (snd (buffer_realloc al b 1 new_size)) old_size (s @ [0]) of
           None \<Rightarrow> None
         | Some b' \<Rightarrow> mem_write (b'\<lparr>used := new_size - 1\<rparr>) (new_size - 1) [0])"

section \<open>Reading appends to the contents\<close>

text \<open>
  Sizes for which nothing overflows: the contents, what may still be read, and the size
  asked for initially.
\<close>

definition io_room :: "allocator \<Rightarrow> buffer \<Rightarrow> nat \<Rightarrow> nat \<Rightarrow> bool" where
  "io_room al b n i \<longleftrightarrow>
     buffer_wf b \<and> used b + n < 2 ^ 58 \<and> i < 2 ^ 58 \<and> (\<forall>m < 2 ^ 63. can_alloc al m)"

lemma buffer_read_prepare_room:
  assumes "io_room al b n i"
  obtains b1 fill where "buffer_read_prepare al b i = Some (b1, fill)" and "0 < fill"
    and "used b + fill < length (mem b1)" and "take (used b) (mem b1) = contents b"
proof (cases "mem b \<noteq> [] \<and> used b < length (mem b) - 1")
  case True
  then show ?thesis
    by (intro that [of b "length (mem b) - 1 - used b"])
      (auto simp: buffer_read_prepare_def Let_def contents_def)
next
  case False
  define fill where "fill = (if used b \<noteq> 0 then used b else if i \<noteq> 0 then i else 1000)"
  have wf: "buffer_wf b" and al: "\<forall>m < 2 ^ 63. can_alloc al m"
    and lt: "used b + fill + 1 < 2 ^ 60" "0 < fill"
    using assms by (auto simp: io_room_def fill_def)
  obtain b' where b': "buffer_resize al b (used b + fill + 1) = (0, b')" "used b' = used b + fill + 1"
      "buffer_wf b'" "take (used b) (mem b') = contents b"
    using buffer_resize_keeps [OF lt(1) al wf] by metis
  have "buffer_read_prepare al b i = Some (b', fill)"
    unfolding buffer_read_prepare_def Let_def fill_def [symmetric] if_not_P [OF False] b'(1) by simp
  moreover have "used b + fill < length (mem b')" using b'(2,3) by (simp add: buffer_wf_def)
  ultimately show ?thesis using lt(2) b'(4) that by blast
qed

lemma mem_write_terminate:
  assumes "take pos (mem b) = c" and "pos \<le> length (mem b)" and "n = pos" and "pos < length (mem b)"
  shows "\<exists>b'. mem_write (b\<lparr>used := n\<rparr>) pos [0] = Some b' \<and> contents b' = c \<and> used b' = pos \<and>
    buffer_wf b' \<and> used b' < length (mem b')"
  using assms by (auto simp: mem_write_def contents_def buffer_wf_def)

lemma mem_write_contents:
  assumes "take pos (mem b) = c" and "pos + length bs < length (mem b)"
  obtains b2 b3 where "mem_write b pos bs = Some b2"
    and "mem_write (b2\<lparr>used := pos + length bs\<rparr>) (pos + length bs) [0] = Some b3"
    and "contents b3 = c @ bs" and "used b3 = pos + length bs" and "buffer_wf b3"
proof -
  have "pos + length bs \<le> length (mem b)" using assms(2) by simp
  then obtain b2 where b2: "mem_write b pos bs = Some b2" "length (mem b2) = length (mem b)"
      "take (pos + length bs) (mem b2) = c @ bs"
    using mem_write_Some assms(1) by metis
  have "pos + length bs < length (mem b2)" using assms(2) b2(2) by simp
  then obtain b3 where "mem_write (b2\<lparr>used := pos + length bs\<rparr>) (pos + length bs) [0] = Some b3"
      "contents b3 = c @ bs" "used b3 = pos + length bs" "buffer_wf b3"
    using mem_write_terminate [OF b2(3)] by auto
  with b2(1) show ?thesis by (rule that)
qed

text \<open>The same with the terminating byte already written, as \<open>vsprintf\<close> does.\<close>

lemma mem_write_printed:
  assumes "take pos (mem b) = c" and "pos + length bs < length (mem b)"
  obtains b2 b3 where "mem_write b pos (bs @ [0]) = Some b2"
    and "mem_write (b2\<lparr>used := pos + length bs\<rparr>) (pos + length bs) [0] = Some b3"
    and "contents b3 = c @ bs" and "buffer_wf b3"
proof -
  have "pos + length (bs @ [0]) \<le> length (mem b)" using assms(2) by simp
  from mem_write_Some [OF this] obtain b2 where b2: "mem_write b pos (bs @ [0]) = Some b2"
      "length (mem b2) = length (mem b)" "take (pos + length (bs @ [0])) (mem b2) = c @ bs @ [0]"
    unfolding assms(1) by blast
  have len: "length c = pos" using assms by auto
  have "take (pos + length bs) (mem b2) = take (pos + length bs) (take (pos + length (bs @ [0])) (mem b2))"
    by simp
  also have "\<dots> = c @ bs" unfolding b2(3) using len by simp
  finally have tk: "take (pos + length bs) (mem b2) = c @ bs" .
  have "pos + length bs < length (mem b2)" using assms(2) b2(2) by simp
  then obtain b3 where "mem_write (b2\<lparr>used := pos + length bs\<rparr>) (pos + length bs) [0] = Some b3"
      "contents b3 = c @ bs" "buffer_wf b3"
    using mem_write_terminate [OF tk] by auto
  with b2(1) show ?thesis by (rule that)
qed

lemma buffer_read_clean:
  assumes "io_room al b n i" and "fd_clean fd" and "length (fd_data fd) \<le> n"
    and "m = 0 \<or> used b \<le> m"
  shows "\<exists>bs b' fd'. buffer_read al b m i fd = Some (int (length bs), b', fd') \<and>
    contents b' = contents b @ bs \<and> fd_data fd = bs @ fd_data fd' \<and> fd_clean fd' \<and>
    io_room al b' (n - length bs) i \<and> (m = 0 \<or> used b' \<le> m) \<and>
    (bs = [] \<longrightarrow> fd_data fd = [] \<or> m \<noteq> 0 \<and> used b = m)"
proof -
  let ?m = "if m \<noteq> 0 then m else size_max - 1"
  have u: "used b \<le> ?m" using assms(1,4) by (auto simp: io_room_def)
  show ?thesis
  proof (cases "used b \<ge> ?m")
    case True
    have "room al b (Suc 0)" using assms(1) by (simp add: io_room_def room_def)
    then obtain b' where b': "buffer_push al b 0 = Some b'" "contents b' = contents b @ [0]" "room al b' 0"
      using buffer_push_contents by blast
    have ub: "used b' = Suc (used b)"
      using b' length_contents [of b'] length_contents [of b] assms(1) by (simp add: room_def io_room_def)
    have m: "m \<noteq> 0" "used b = m" using True u assms(1) by (auto simp: io_room_def split: if_splits)
    let ?b = "b'\<lparr>used := used b' - 1\<rparr>"
    have "contents ?b = take (used b) (contents b')"
      using ub by (simp add: contents_def min_def)
    then have "contents ?b = contents b @ []"
      using b'(2) length_contents [of b] assms(1) by (simp add: io_room_def)
    moreover have "buffer_read al b m i fd = Some (int (length ([] :: bytes)), ?b, fd)"
      using True b'(1) by (simp only: buffer_read_def Let_def if_True option.case list.size) simp
    moreover have "io_room al ?b (n - length ([] :: bytes)) i"
      using assms(1) ub b'(3) by (simp add: io_room_def room_def buffer_wf_def)
    moreover have "m = 0 \<or> used ?b \<le> m" using ub m by simp
    ultimately show ?thesis using m assms(2) by (metis append_Nil)
  next
    case False
    obtain b1 fill0 where p: "buffer_read_prepare al b i = Some (b1, fill0)" "0 < fill0"
        "used b + fill0 < length (mem b1)" "take (used b) (mem b1) = contents b"
      using buffer_read_prepare_room [OF assms(1)] by metis
    define fill where "fill = (if used b + fill0 > ?m then ?m - used b else fill0)"
    have fill: "0 < fill" "fill \<le> fill0" "m \<noteq> 0 \<longrightarrow> used b + fill \<le> m" using False p(2) by (auto simp: fill_def)
    obtain bs fd' where r: "sys_read fd fill = (Some bs, fd')" using sys_read_clean [OF assms(2)] by blast
    then have s: "length bs \<le> fill" "fd_data fd = bs @ fd_data fd'" "fd_clean fd'"
        "bs = [] \<longrightarrow> fd_data fd = []"
      using sys_read_spec [OF r] fill(1) assms(2) by auto
    have "used b + length bs < length (mem b1)" using s(1) fill(2) p(3) by linarith
    then obtain b2 b3 where w: "mem_write b1 (used b) bs = Some b2"
        "mem_write (b2\<lparr>used := used b + length bs\<rparr>) (used b + length bs) [0] = Some b3"
        "contents b3 = contents b @ bs" "used b3 = used b + length bs" "buffer_wf b3"
      using mem_write_contents [OF p(4)] by metis
    have rd: "buffer_read al b m i fd = Some (int (length bs), b3, fd')"
      using False p(1) r w(1,2)
      by (simp only: buffer_read_def Let_def if_False option.case prod.case fill_def [symmetric])
    have n: "length bs \<le> n" using s(2) assms(3) by simp
    have "io_room al b3 (n - length bs) i" using assms(1) w(4,5) n by (simp add: io_room_def)
    moreover have "m = 0 \<or> used b3 \<le> m" using w(4) s(1) fill(3) by linarith
    ultimately show ?thesis using rd w(3) s(2-4) by blast
  qed
qed

text \<open>The loop reads up to the maximal size, or everything.\<close>

lemma buffer_read_loop_clean:
  assumes "io_room al b n i" and "fd_clean fd" and "length (fd_data fd) \<le> n"
    and "m = 0 \<or> used b \<le> m"
  shows "\<exists>b' fd'. buffer_read_loop al b m i fd = Some (0, b', fd') \<and> fd_clean fd' \<and> buffer_wf b' \<and>
    contents b' = contents b @ (if m = 0 then fd_data fd else take (m - used b) (fd_data fd)) \<and>
    fd_data fd' = (if m = 0 then [] else drop (m - used b) (fd_data fd))"
  using assms
proof (induction "length (fd_data fd)" arbitrary: b fd n rule: less_induct)
  case less
  obtain bs b' fd' where r: "buffer_read al b m i fd = Some (int (length bs), b', fd')"
      "contents b' = contents b @ bs" "fd_data fd = bs @ fd_data fd'" "fd_clean fd'"
      "io_room al b' (n - length bs) i" "m = 0 \<or> used b' \<le> m"
      "bs = [] \<longrightarrow> fd_data fd = [] \<or> m \<noteq> 0 \<and> used b = m"
    using buffer_read_clean [OF less.prems] by blast
  have u: "used b' = used b + length bs"
    using arg_cong [OF r(2), of length] length_contents [of b'] length_contents [of b] less.prems(1) r(5)
    by (simp add: io_room_def)
  show ?case
  proof (cases "bs = []")
    case True
    then have "buffer_read_loop al b m i fd = Some (0, b', fd')"
      using r(1) by (simp add: buffer_read_loop.simps [of al b])
    moreover have "(if m = 0 then fd_data fd else take (m - used b) (fd_data fd)) = []"
      "fd_data fd' = (if m = 0 then [] else drop (m - used b) (fd_data fd))"
      using True r(3,7) by auto
    ultimately show ?thesis using True r(2,4,5) by (simp add: io_room_def)
  next
    case False
    then have "length (fd_data fd') < length (fd_data fd)" using r(3) by simp
    moreover have "length (fd_data fd') \<le> n - length bs" using less.prems(3) r(3) by simp
    ultimately obtain b2 fd2 where l: "buffer_read_loop al b' m i fd' = Some (0, b2, fd2)" "fd_clean fd2"
        "buffer_wf b2"
        "contents b2 = contents b' @ (if m = 0 then fd_data fd' else take (m - used b') (fd_data fd'))"
        "fd_data fd2 = (if m = 0 then [] else drop (m - used b') (fd_data fd'))"
      using less.hyps [of fd' b' "n - length bs"] r(4-6) by blast
    have "buffer_read_loop al b m i fd = Some (0, b2, fd2)"
      using r(1) False l(1) by (simp add: buffer_read_loop.simps [of al b])
    moreover have m: "m - used b = length bs + (m - used b')" if "m \<noteq> 0" using that r(6) u by auto
    have "contents b2 = contents b @ (if m = 0 then fd_data fd else take (m - used b) (fd_data fd))"
      unfolding l(4) r(2,3) using m by simp
    moreover have "fd_data fd2 = (if m = 0 then [] else drop (m - used b) (fd_data fd))"
      unfolding l(5) r(3) using m by simp
    ultimately show ?thesis using l(2,3) by blast
  qed
qed

text \<open>A read that does not fail leaves a null byte behind the contents.\<close>

definition terminated :: "buffer \<Rightarrow> bool" where
  "terminated b \<longleftrightarrow> used b < length (mem b) \<and> mem b ! used b = 0"

lemma mem_write_null:
  assumes "mem_write (b\<lparr>used := n\<rparr>) n [0] = Some b'"
  shows "terminated b'"
proof -
  have "b' = b\<lparr>used := n, mem := take n (mem b) @ [0] @ drop (Suc n) (mem b)\<rparr>" and "n < length (mem b)"
    using assms by (auto simp: mem_write_def split: if_splits)
  then show ?thesis by (simp add: terminated_def nth_append)
qed

lemma buffer_push_null: "buffer_push al b 0 = Some b' \<Longrightarrow> terminated (b'\<lparr>used := used b' - 1\<rparr>)"
  by (auto simp: buffer_push_def Let_def terminated_def split: if_splits)

lemma buffer_read_terminated:
  "buffer_read al b m i fd = Some (r, b', fd') \<Longrightarrow> 0 \<le> r \<Longrightarrow> terminated b'"
  by (auto simp: buffer_read_def Let_def mem_write_null dest!: buffer_push_null split: if_splits option.splits prod.splits)

lemma buffer_read_loop_terminated:
  "buffer_read_loop al b m i fd = Some (r, b', fd') \<Longrightarrow> 0 \<le> r \<Longrightarrow> terminated b'"
proof (induction al b m i fd rule: buffer_read_loop.induct)
  case (1 al b m i fd)
  then show ?case
    by (auto simp: buffer_read_loop.simps [of al b] split: option.splits if_splits dest: buffer_read_terminated)
qed

lemma buffer_printf_contents:
  assumes "buffer_wf b" and "length s + 1 < 2 ^ 60" and "\<forall>m < 2 ^ 63. can_alloc al m"
  shows "\<exists>b'. buffer_printf al b s = Some b' \<and> contents b' = s \<and> buffer_wf b'"
proof -
  obtain b1 where b1: "buffer_realloc al b 1 (length s + 1) = (0, b1)" "length s + 1 \<le> length (mem b1)"
    using buffer_realloc_keeps [OF assms(2,3,1)] by metis
  have "take 0 (mem b1) = []" "0 + length s < length (mem b1)" using b1(2) by simp_all
  then obtain b2 b3 where "mem_write b1 0 (s @ [0]) = Some b2"
      "mem_write (b2\<lparr>used := 0 + length s\<rparr>) (0 + length s) [0] = Some b3" "contents b3 = [] @ s" "buffer_wf b3"
    using mem_write_printed by metis
  then show ?thesis using b1(1) by (simp add: buffer_printf_def)
qed

lemma buffer_printf_append_contents:
  assumes "buffer_wf b" and "used b + length s + 1 < 2 ^ 60" and "\<forall>m < 2 ^ 63. can_alloc al m"
  shows "\<exists>b'. buffer_printf_append al b s = Some b' \<and> contents b' = contents b @ s \<and> buffer_wf b'"
proof -
  obtain b1 where b1: "buffer_realloc al b 1 (used b + length s + 1) = (0, b1)"
      "used b + length s + 1 \<le> length (mem b1)" "take (used b) (mem b1) = contents b"
    using buffer_realloc_keeps [OF assms(2,3,1)] by metis
  have "used b + length s < length (mem b1)" using b1(2) by simp
  then obtain b2 b3 where "mem_write b1 (used b) (s @ [0]) = Some b2"
      "mem_write (b2\<lparr>used := used b + length s\<rparr>) (used b + length s) [0] = Some b3"
      "contents b3 = contents b @ s" "buffer_wf b3"
    using mem_write_printed [OF b1(3)] by metis
  then show ?thesis using b1(1) by (simp add: buffer_printf_append_def Let_def)
qed

end
