(* ===== verification/Chain.thy ===== *)
theory Chain
  imports BufferIo
begin

text \<open>
  Chained input and output (\<open>src/chain-io\<close>): a \<open>chain_read\<close> caches bytes that an update
  function appends to its buffer, a \<open>chain_write\<close> buffers bytes until it passes them to
  an update function. The update functions and their arguments are parameters here; the
  theories \<open>ChainFd\<close> and \<open>DzipChain\<close> provide them. In the results, \<open>None\<close> is a
  loop that does not end or a memory error.
\<close>

datatype chain_status = CHAIN_ERROR | CHAIN_INCOMPLETE | CHAIN_COMPLETE

section \<open>Reading\<close>

record 's chain_read =
  released :: nat
  is_error :: bool
  is_complete :: bool
  fresh_read :: bool
  rbuffer :: buffer
  rarg :: 's

definition chain_read_new :: "'s \<Rightarrow> 's chain_read" where
  "chain_read_new arg =
     \<lparr>released = 0, is_error = False, is_complete = False, fresh_read = False,
      rbuffer = buffer_zero, rarg = arg\<rparr>"

definition chain_read_apply_release :: "'s chain_read \<Rightarrow> 's chain_read" where
  "chain_read_apply_release c =
     (if released c = 0 then c
      else let buffer_size = used (rbuffer c)
           in if released c \<ge> buffer_size
              then c\<lparr>rbuffer := buffer_rewrite (rbuffer c), released := released c - buffer_size\<rparr>
              else if released c > buffer_size div 2 \<or> buffer_size > 10000000
              then c\<lparr>rbuffer := buffer_downshift (rbuffer c) 1 (released c), released := 0\<rparr>
              else c)"

text \<open>The range that a pull hands out: empty when more was released than is cached.\<close>

definition chain_contents :: "'s chain_read \<Rightarrow> bytes" where
  "chain_contents c = drop (released c) (contents (rbuffer c))"

partial_function (option) chain_pull_loop ::
    "(buffer \<Rightarrow> 's \<Rightarrow> (chain_status \<times> buffer \<times> 's) option) \<Rightarrow> nat \<Rightarrow> 's chain_read
       \<Rightarrow> (bytes option \<times> 's chain_read) option" where
  "chain_pull_loop update max_size c =
     (case update (rbuffer c) (rarg c) of
        None \<Rightarrow> None
      | Some (status, b, s) \<Rightarrow>
          (let c' = c\<lparr>rbuffer := b, rarg := s\<rparr>
           in if status = CHAIN_ERROR then Some (None, c'\<lparr>is_error := True\<rparr>)
              else if status = CHAIN_COMPLETE
              then Some (Some (chain_contents c'), c'\<lparr>is_complete := True\<rparr>)
              else if max_size < used b then Some (Some (chain_contents c'), c')
              else chain_pull_loop update max_size c'))"

text \<open>The first result is the range, \<open>None\<close> where \<open>chain_pull\<close> returns \<open>false\<close>.\<close>

definition chain_pull ::
    "(buffer \<Rightarrow> 's \<Rightarrow> (chain_status \<times> buffer \<times> 's) option) \<Rightarrow> 's chain_read \<Rightarrow> nat
       \<Rightarrow> (bytes option \<times> 's chain_read) option" where
  "chain_pull update c target =
     (let c1 = chain_read_apply_release c
      in if is_complete c1 then Some (None, c1)
         else let c2 = c1\<lparr>fresh_read := False\<rparr>
              in if fresh_read c1 \<and> (target + released c1) mod size_max \<le> used (rbuffer c1)
                 then Some (Some (chain_contents c2), c2)
                 else let start_size = used (rbuffer c2);
                          max_size = (if start_size < target then target
                                      else (start_size + target) mod size_max)
                      in chain_pull_loop update max_size c2)"

definition chain_release :: "'s chain_read \<Rightarrow> nat \<Rightarrow> 's chain_read" where
  "chain_release c sz =
     c\<lparr>released := (released c + sz) mod size_max,
       fresh_read := (if sz \<noteq> 0 then True else fresh_read c)\<rparr>"

section \<open>Writing\<close>

record 's chain_write =
  written :: nat
  wbuffer :: buffer
  flush_size :: nat
  w_is_error :: bool
  warg :: 's

definition chain_write_new :: "nat \<Rightarrow> 's \<Rightarrow> 's chain_write" where
  "chain_write_new flush arg =
     \<lparr>written = 0, wbuffer = buffer_zero, flush_size = flush, w_is_error = False, warg = arg\<rparr>"

text \<open>
  The update function takes the range to write and advances its beginning. The results
  here are the one of the C function, the rest of the range, and the chain.
\<close>

partial_function (option) chain_write_flush_loop ::
    "('s \<Rightarrow> bytes \<Rightarrow> (chain_status \<times> bytes \<times> 's) option) \<Rightarrow> 's chain_write \<Rightarrow> bytes
       \<Rightarrow> (bool \<times> bytes \<times> 's chain_write) option" where
  "chain_write_flush_loop update c input =
     (case update (warg c) input of
        None \<Rightarrow> None
      | Some (status, rest, s) \<Rightarrow>
          (let c' = c\<lparr>warg := s\<rparr>
           in if status = CHAIN_INCOMPLETE then chain_write_flush_loop update c' rest
              else if status = CHAIN_COMPLETE then Some (True, rest, c')
              else Some (False, rest, c'\<lparr>w_is_error := True\<rparr>)))"

definition chain_write_flush_input ::
    "('s \<Rightarrow> bytes \<Rightarrow> (chain_status \<times> bytes \<times> 's) option) \<Rightarrow> 's chain_write \<Rightarrow> bytes
       \<Rightarrow> (bool \<times> bytes \<times> 's chain_write) option" where
  "chain_write_flush_input update c input =
     (if w_is_error c then Some (False, input, c) else chain_write_flush_loop update c input)"

definition chain_flush ::
    "('s \<Rightarrow> bytes \<Rightarrow> (chain_status \<times> bytes \<times> 's) option) \<Rightarrow> 's chain_write
       \<Rightarrow> (bool \<times> 's chain_write) option" where
  "chain_flush update c =
     (let input = drop (written c) (contents (wbuffer c))
      in case chain_write_flush_input update c input of
           None \<Rightarrow> None
         | Some (ok, rest, c') \<Rightarrow>
             Some (ok, if ok then c'\<lparr>written := used (wbuffer c') - length rest\<rparr> else c'))"

definition chain_push_final ::
    "('s \<Rightarrow> bytes \<Rightarrow> (chain_status \<times> bytes \<times> 's) option) \<Rightarrow> 's chain_write
       \<Rightarrow> (bool \<times> 's chain_write) option" where
  "chain_push_final update c =
     (if used (wbuffer c) - written c < 1000000 then Some (True, c) else chain_flush update c)"

text \<open>The compaction at the beginning of \<open>chain_push\<close>.\<close>

definition chain_push_compact :: "'s chain_write \<Rightarrow> 's chain_write" where
  "chain_push_compact c =
     (let buffer_size = used (wbuffer c)
      in if written c \<noteq> 0 \<and> (written c > buffer_size div 2 \<or> buffer_size > 10000000)
         then c\<lparr>wbuffer := buffer_downshift (wbuffer c) 1 (written c), written := 0\<rparr>
         else c)"

definition chain_push ::
    "allocator \<Rightarrow> ('s \<Rightarrow> bytes \<Rightarrow> (chain_status \<times> bytes \<times> 's) option) \<Rightarrow> 's chain_write \<Rightarrow> bytes
       \<Rightarrow> (bool \<times> 's chain_write) option" where
  "chain_push al update c input =
     (if input = [] then Some (True, c)
      else let c1 = chain_push_compact c
           in if used (wbuffer c1) = written c1 \<and> length input > flush_size c1
              then (case chain_write_flush_input update c1 input of
                      None \<Rightarrow> None
                    | Some (ok, rest, c2) \<Rightarrow>
                        if ok then (case buffer_append_n al (wbuffer c2) rest of
                                      None \<Rightarrow> None
                                    | Some b \<Rightarrow> Some (True, c2\<lparr>wbuffer := b\<rparr>))
                        else Some (False, c2))
              else (case buffer_append_n al (wbuffer c1) input of
                      None \<Rightarrow> None
                    | Some b \<Rightarrow> chain_push_final update (c1\<lparr>wbuffer := b\<rparr>)))"

text \<open>\<open>chain_write_free\<close> flushes and ignores the result; what is left is the argument.\<close>

definition chain_write_free ::
    "('s \<Rightarrow> bytes \<Rightarrow> (chain_status \<times> bytes \<times> 's) option) \<Rightarrow> 's chain_write \<Rightarrow> 's option" where
  "chain_write_free update c = map_option (\<lambda>(ok, c'). warg c') (chain_flush update c)"

section \<open>The contract of a source\<close>

text \<open>
  \<open>good T s\<close>: a source in state \<open>s\<close> that has delivered \<open>T\<close> in all is as it should be, and
  is not at its end; \<open>over T s\<close>: it has delivered \<open>T\<close> and said that this is all;
  \<open>finished T\<close>: \<open>T\<close> is all it had to deliver; \<open>left\<close> bounds the number of further
  incomplete updates. The update function appends to its buffer, whose contents are an end
  of what was delivered.
\<close>

locale chain_input =
  fixes update :: "buffer \<Rightarrow> 's \<Rightarrow> (chain_status \<times> buffer \<times> 's) option"
    and good over :: "bytes \<Rightarrow> 's \<Rightarrow> bool"
    and finished :: "bytes \<Rightarrow> bool"
    and left :: "'s \<Rightarrow> nat"
  assumes update_input: "good T s \<Longrightarrow> buffer_wf b \<Longrightarrow> T = h @ contents b \<Longrightarrow>
      \<exists>st b' s' bs. update b s = Some (st, b', s') \<and> st \<noteq> CHAIN_ERROR \<and>
        contents b' = contents b @ bs \<and> buffer_wf b' \<and>
        (st = CHAIN_INCOMPLETE \<longrightarrow> good (T @ bs) s' \<and> left s' < left s) \<and>
        (st = CHAIN_COMPLETE \<longrightarrow> over (T @ bs) s' \<and> finished (T @ bs))"
    and good_size: "good T s \<or> over T s \<Longrightarrow> length T < 2 ^ 59"
begin

text \<open>
  The invariant of a chain over a source: \<open>T\<close> was delivered to its buffer in all, and the
  client has released the first \<open>P\<close> bytes of it.
\<close>

definition reads :: "'s chain_read \<Rightarrow> bytes \<Rightarrow> nat \<Rightarrow> bool" where
  "reads c T P \<longleftrightarrow>
     (\<exists>h. T = h @ contents (rbuffer c) \<and> P = length h + released c) \<and>
     (if is_complete c then over T (rarg c) else good T (rarg c)) \<and>
     buffer_wf (rbuffer c) \<and> (is_complete c \<longrightarrow> finished T) \<and> \<not> is_error c"

lemma reads_new: "good [] s \<Longrightarrow> reads (chain_read_new s) [] 0"
  by (simp add: reads_def chain_read_new_def)

lemma reads_contents: "reads c T P \<Longrightarrow> chain_contents c = drop P T"
  by (auto simp: reads_def chain_contents_def)

lemma reads_release:
  "reads c T P \<Longrightarrow> P + n < 2 ^ 64 \<Longrightarrow> reads (chain_release c n) T (P + n)"
  by (auto simp: reads_def chain_release_def)

lemma reads_buffer_size: "reads c T P \<Longrightarrow> used (rbuffer c) \<le> length T \<and> length T < 2 ^ 59"
  unfolding reads_def using good_size length_contents by (metis le_add2 length_append)

lemma apply_release_frame:
  "rarg (chain_read_apply_release c) = rarg c"
  "is_complete (chain_read_apply_release c) = is_complete c"
  "fresh_read (chain_read_apply_release c) = fresh_read c"
  by (simp_all add: chain_read_apply_release_def Let_def)

lemma reads_apply_release:
  assumes "reads c T P"
  shows "reads (chain_read_apply_release c) T P"
proof -
  obtain h where h: "T = h @ contents (rbuffer c)" "P = length h + released c"
      "buffer_wf (rbuffer c)"
    using assms by (auto simp: reads_def)
  let ?b = "rbuffer c"
  have lc: "length (contents ?b) = used ?b" using h(3) by (rule length_contents)
  consider (none) "chain_read_apply_release c = c"
    | (all) "used ?b \<le> released c" "chain_read_apply_release c
        = c\<lparr>rbuffer := buffer_rewrite ?b, released := released c - used ?b\<rparr>"
    | (shift) "released c < used ?b" "chain_read_apply_release c
        = c\<lparr>rbuffer := buffer_downshift ?b 1 (released c), released := 0\<rparr>"
    unfolding chain_read_apply_release_def Let_def by (metis not_le_imp_less)
  then show ?thesis
  proof cases
    case none
    then show ?thesis using assms by simp
  next
    case all
    have "T = (h @ contents ?b) @ []" "P = length (h @ contents ?b) + (released c - used ?b)"
      using h all(1) lc by simp_all
    then show ?thesis
      using assms all(2) by (auto simp: reads_def buffer_rewrite_def contents_def buffer_wf_def)
  next
    case shift
    have "released c < size_max"
      using shift(1) reads_buffer_size [OF assms] by simp
    note d = buffer_downshift_contents [OF h(3) this]
    let ?h = "h @ take (released c) (contents ?b)"
    have "T = ?h @ drop (released c) (contents ?b)" "P = length ?h + 0"
      using h shift(1) lc by simp_all
    then show ?thesis
      unfolding shift(2) reads_def using assms d
      by (intro conjI exI [of _ ?h]) (simp_all add: reads_def)
  qed
qed

text \<open>One update keeps the invariant, and so does the loop, which ends.\<close>

lemma reads_update:
  assumes "reads c T P" and "\<not> is_complete c"
  obtains st b s bs where "update (rbuffer c) (rarg c) = Some (st, b, s)" and "st \<noteq> CHAIN_ERROR"
    and "reads (c\<lparr>rbuffer := b, rarg := s, is_complete := (st = CHAIN_COMPLETE)\<rparr>) (T @ bs) P"
    and "st = CHAIN_INCOMPLETE \<Longrightarrow> left s < left (rarg c)"
    and "contents b = contents (rbuffer c) @ bs"
proof -
  obtain h where h: "T = h @ contents (rbuffer c)" "P = length h + released c"
      "good T (rarg c)" "buffer_wf (rbuffer c)" "\<not> is_error c"
    using assms by (auto simp: reads_def)
  from update_input [OF h(3,4,1)] obtain st b s bs where
    u: "update (rbuffer c) (rarg c) = Some (st, b, s)" "st \<noteq> CHAIN_ERROR"
      "contents b = contents (rbuffer c) @ bs" "buffer_wf b"
      "st = CHAIN_INCOMPLETE \<longrightarrow> good (T @ bs) s \<and> left s < left (rarg c)"
      "st = CHAIN_COMPLETE \<longrightarrow> over (T @ bs) s \<and> finished (T @ bs)"
    by blast
  have "reads (c\<lparr>rbuffer := b, rarg := s, is_complete := (st = CHAIN_COMPLETE)\<rparr>) (T @ bs) P"
    using h u by (cases st) (auto simp: reads_def)
  with u show thesis using that by blast
qed

lemma chain_pull_loop_reads:
  assumes "reads c T P" and "\<not> is_complete c"
  shows "\<exists>bs c'. chain_pull_loop update m c = Some (Some (drop P (T @ bs)), c') \<and>
    reads c' (T @ bs) P \<and> (is_complete c' \<or> left (rarg c') < left (rarg c))"
  using assms
proof (induction "left (rarg c)" arbitrary: c T rule: less_induct)
  case less
  obtain st b s bs where u: "update (rbuffer c) (rarg c) = Some (st, b, s)" "st \<noteq> CHAIN_ERROR"
      "reads (c\<lparr>rbuffer := b, rarg := s, is_complete := (st = CHAIN_COMPLETE)\<rparr>) (T @ bs) P"
      "st = CHAIN_INCOMPLETE \<Longrightarrow> left s < left (rarg c)"
    using reads_update [OF less.prems] by metis
  let ?c = "c\<lparr>rbuffer := b, rarg := s\<rparr>"
  have ct: "chain_contents ?c = drop P (T @ bs)"
    using reads_contents [OF u(3)] by (simp add: chain_contents_def)
  show ?case
  proof (cases st)
    case CHAIN_ERROR
    with u(2) show ?thesis by simp
  next
    case CHAIN_COMPLETE
    then have "reads (?c\<lparr>is_complete := True\<rparr>) (T @ bs) P" using u(3) by simp
    moreover have "chain_pull_loop update m c
        = Some (Some (drop P (T @ bs)), ?c\<lparr>is_complete := True\<rparr>)"
      using u(1) CHAIN_COMPLETE ct by (subst chain_pull_loop.simps) simp
    ultimately show ?thesis by fastforce
  next
    case CHAIN_INCOMPLETE
    have "c\<lparr>rbuffer := b, rarg := s, is_complete := False\<rparr> = ?c" using less.prems(2) by simp
    then have r: "reads ?c (T @ bs) P" using u(3) CHAIN_INCOMPLETE by simp
    show ?thesis
    proof (cases "m < used b")
      case True
      then have "chain_pull_loop update m c = Some (Some (drop P (T @ bs)), ?c)"
        using u(1) CHAIN_INCOMPLETE ct by (subst chain_pull_loop.simps) simp
      then show ?thesis using r u(4) CHAIN_INCOMPLETE by fastforce
    next
      case False
      have "left (rarg ?c) < left (rarg c)" using u(4) CHAIN_INCOMPLETE by simp
      from less.hyps [OF this r] less.prems(2) obtain bs' c' where
        c': "chain_pull_loop update m ?c = Some (Some (drop P ((T @ bs) @ bs')), c')"
          "reads c' ((T @ bs) @ bs') P" "is_complete c' \<or> left (rarg c') < left (rarg ?c)"
        by auto
      have "chain_pull_loop update m c = chain_pull_loop update m ?c"
        using u(1) CHAIN_INCOMPLETE False by (subst chain_pull_loop.simps) simp
      then show ?thesis
        using c' u(4) CHAIN_INCOMPLETE by (intro exI [of _ "bs @ bs'"] exI [of _ c']) auto
    qed
  qed
qed

lemma chain_pull_complete:
  "reads c T P \<Longrightarrow> is_complete c \<Longrightarrow>
     \<exists>c'. chain_pull update c n = Some (None, c') \<and> reads c' T P \<and> finished T \<and> is_complete c'"
  using reads_apply_release [of c T P]
  by (auto simp: chain_pull_def apply_release_frame reads_def)

lemma chain_pull_reads:
  assumes "reads c T P" and "\<not> is_complete c"
  shows "\<exists>bs c'. chain_pull update c n = Some (Some (drop P (T @ bs)), c') \<and> reads c' (T @ bs) P \<and>
    (is_complete c' \<or> left (rarg c') < left (rarg c) \<or>
     bs = [] \<and> rarg c' = rarg c \<and> fresh_read c \<and> \<not> fresh_read c' \<and>
       (n + P \<le> length T \<or> 2 ^ 63 \<le> n + P))"
proof -
  let ?c1 = "chain_read_apply_release c"
  let ?c2 = "?c1\<lparr>fresh_read := False\<rparr>"
  have r1: "reads ?c1 T P" using assms(1) by (rule reads_apply_release)
  then have r2: "reads ?c2 T P" by (simp add: reads_def)
  have nc: "\<not> is_complete ?c1" "\<not> is_complete ?c2" using assms(2) by (simp_all add: apply_release_frame)
  show ?thesis
  proof (cases "fresh_read ?c1 \<and> (n + released ?c1) mod size_max \<le> used (rbuffer ?c1)")
    case True
    have "n + P \<le> length T \<or> 2 ^ 63 \<le> n + P"
    proof (cases "n + P < 2 ^ 63")
      case small: True
      obtain h where h: "T = h @ contents (rbuffer ?c1)" "P = length h + released ?c1"
          "buffer_wf (rbuffer ?c1)"
        using r1 by (auto simp: reads_def)
      then have "(n + released ?c1) mod size_max = n + released ?c1" using small by simp
      then show ?thesis using True h by (simp add: length_contents)
    qed simp
    moreover have "chain_pull update c n = Some (Some (drop P (T @ [])), ?c2)"
      using True nc reads_contents [OF r2] by (simp add: chain_pull_def Let_def)
    ultimately show ?thesis
      using r2 True by (intro exI [of _ "[]"] exI [of _ ?c2]) (auto simp: apply_release_frame)
  next
    case False
    then have "\<exists>m. chain_pull update c n = chain_pull_loop update m ?c2"
      using nc unfolding chain_pull_def Let_def by auto
    then obtain m where "chain_pull update c n = chain_pull_loop update m ?c2" ..
    then show ?thesis
      using chain_pull_loop_reads [OF r2 nc(2), of m] by (auto simp: apply_release_frame)
  qed
qed

end

text \<open>A source that stays good after its end.\<close>

locale chain_source =
  fixes update :: "buffer \<Rightarrow> 's \<Rightarrow> (chain_status \<times> buffer \<times> 's) option"
    and good :: "bytes \<Rightarrow> 's \<Rightarrow> bool"
    and finished :: "bytes \<Rightarrow> bool"
    and left :: "'s \<Rightarrow> nat"
  assumes update_law: "good T s \<Longrightarrow> buffer_wf b \<Longrightarrow> T = h @ contents b \<Longrightarrow>
      \<exists>st b' s' bs. update b s = Some (st, b', s') \<and> st \<noteq> CHAIN_ERROR \<and>
        contents b' = contents b @ bs \<and> buffer_wf b' \<and> good (T @ bs) s' \<and>
        (st = CHAIN_INCOMPLETE \<longrightarrow> left s' < left s) \<and> (st = CHAIN_COMPLETE \<longrightarrow> finished (T @ bs))"
    and good_bounded: "good T s \<Longrightarrow> length T < 2 ^ 59"

sublocale chain_source \<subseteq> chain_input update good good finished left
proof unfold_locales
  fix T s b h
  assume "good T s" "buffer_wf b" "T = h @ contents b"
  from update_law [OF this] show "\<exists>st b' s' bs. update b s = Some (st, b', s') \<and> st \<noteq> CHAIN_ERROR \<and>
      contents b' = contents b @ bs \<and> buffer_wf b' \<and>
      (st = CHAIN_INCOMPLETE \<longrightarrow> good (T @ bs) s' \<and> left s' < left s) \<and>
      (st = CHAIN_COMPLETE \<longrightarrow> good (T @ bs) s' \<and> finished (T @ bs))"
    by blast
qed (use good_bounded in blast)

section \<open>The contract of a sink\<close>

text \<open>
  \<open>received s\<close> is what has arrived in a sink; an update takes an end off its input, and
  takes everything when it is complete.
\<close>

locale chain_sink =
  fixes update :: "'s \<Rightarrow> bytes \<Rightarrow> (chain_status \<times> bytes \<times> 's) option"
    and received :: "'s \<Rightarrow> bytes"
    and ok :: "'s \<Rightarrow> bool"
  assumes update_law: "ok s \<Longrightarrow> \<exists>st rest s' d. update s input = Some (st, rest, s') \<and>
      st \<noteq> CHAIN_ERROR \<and> input = d @ rest \<and> received s' = received s @ d \<and> ok s' \<and>
      (st = CHAIN_INCOMPLETE \<longrightarrow> d \<noteq> []) \<and> (st = CHAIN_COMPLETE \<longrightarrow> rest = [])"
begin

text \<open>The chain has been pushed \<open>S\<close> in all: what arrived, and the unwritten end of the buffer.\<close>

definition writes :: "'s chain_write \<Rightarrow> bytes \<Rightarrow> bool" where
  "writes c S \<longleftrightarrow>
     received (warg c) @ drop (written c) (contents (wbuffer c)) = S \<and>
     written c \<le> used (wbuffer c) \<and> written c \<le> length (received (warg c)) \<and>
     buffer_wf (wbuffer c) \<and> ok (warg c) \<and> \<not> w_is_error c"

lemma writes_new: "ok s \<Longrightarrow> received s = [] \<Longrightarrow> writes (chain_write_new n s) []"
  by (simp add: writes_def chain_write_new_def)

lemma writes_size:
  assumes "writes c S"
  shows "used (wbuffer c) \<le> length S"
  using assms length_contents by (fastforce simp: writes_def)

lemma flush_input_spec:
  "ok (warg c) \<Longrightarrow> \<not> w_is_error c \<Longrightarrow>
     \<exists>s. chain_write_flush_input update c input = Some (True, [], c\<lparr>warg := s\<rparr>) \<and> ok s \<and>
         received s = received (warg c) @ input"
proof (induction "length input" arbitrary: c input rule: less_induct)
  case less
  obtain st rest s d where u: "update (warg c) input = Some (st, rest, s)" "st \<noteq> CHAIN_ERROR"
      "input = d @ rest" "received s = received (warg c) @ d" "ok s"
      "st = CHAIN_INCOMPLETE \<longrightarrow> d \<noteq> []" "st = CHAIN_COMPLETE \<longrightarrow> rest = []"
    using update_law [OF less.prems(1), of input] by blast
  let ?c = "c\<lparr>warg := s\<rparr>"
  show ?case
  proof (cases "st = CHAIN_INCOMPLETE")
    case True
    then have "length rest < length input" using u(3,6) by simp
    from less.hyps [OF this, of ?c] less.prems(2) u(5) obtain s' where
      s': "chain_write_flush_input update ?c rest = Some (True, [], ?c\<lparr>warg := s'\<rparr>)" "ok s'"
        "received s' = received s @ rest"
      by auto
    have "chain_write_flush_input update c input = chain_write_flush_input update ?c rest"
      using u(1) True less.prems(2)
      by (simp add: chain_write_flush_input_def chain_write_flush_loop.simps [of update c])
    then show ?thesis using s' u(3,4) by (intro exI [of _ s']) simp
  next
    case False
    then have "st = CHAIN_COMPLETE" using u(2) by (cases st) auto
    then show ?thesis
      using u less.prems(2)
      by (intro exI [of _ s])
        (simp add: chain_write_flush_input_def chain_write_flush_loop.simps [of update c])
  qed
qed

lemma flush_writes:
  assumes "writes c S"
  shows "\<exists>c'. chain_flush update c = Some (True, c') \<and> writes c' S \<and> received (warg c') = S"
proof -
  let ?input = "drop (written c) (contents (wbuffer c))"
  obtain s where s: "chain_write_flush_input update c ?input = Some (True, [], c\<lparr>warg := s\<rparr>)" "ok s"
      "received s = received (warg c) @ ?input"
    using flush_input_spec [of c ?input] assms by (auto simp: writes_def)
  then have r: "received s = S" using assms by (simp add: writes_def)
  have "chain_flush update c = Some (True, c\<lparr>warg := s, written := used (wbuffer c)\<rparr>)"
    using s(1) by (simp add: chain_flush_def)
  moreover have "writes (c\<lparr>warg := s, written := used (wbuffer c)\<rparr>) S"
    using assms r s(2) writes_size [OF assms] length_contents [of "wbuffer c"] by (simp add: writes_def)
  ultimately show ?thesis
    using r by (intro exI [of _ "c\<lparr>warg := s, written := used (wbuffer c)\<rparr>"]) simp
qed

lemma push_final_writes:
  assumes "writes c S"
  shows "\<exists>c'. chain_push_final update c = Some (True, c') \<and> writes c' S"
  using flush_writes [OF assms] assms by (auto simp: chain_push_final_def)

lemma push_compact_writes:
  assumes "writes c S" and "length S < 2 ^ 60"
  shows "writes (chain_push_compact c) S"
proof -
  have "written c < size_max" using assms writes_size [OF assms(1)] by (simp add: writes_def)
  then have "contents (buffer_downshift (wbuffer c) 1 (written c)) = drop (written c) (contents (wbuffer c))"
    "buffer_wf (buffer_downshift (wbuffer c) 1 (written c))"
    using buffer_downshift_contents assms(1) unfolding writes_def by blast+
  then show ?thesis using assms(1) by (simp add: chain_push_compact_def writes_def Let_def)
qed

lemma push_compact_frame [simp]: "w_is_error (chain_push_compact c) = w_is_error c"
  by (simp add: chain_push_compact_def Let_def)

lemma append_writes:
  assumes "writes c S" and "length (S @ bs) < 2 ^ 60" and "\<forall>m < 2 ^ 63. can_alloc al m"
  obtains b where "buffer_append_n al (wbuffer c) bs = Some b" and "writes (c\<lparr>wbuffer := b\<rparr>) (S @ bs)"
proof -
  have "room al (wbuffer c) (length bs + 0)"
    using assms writes_size [OF assms(1)] by (simp add: room_def writes_def)
  from buffer_append_n_contents [OF this] obtain b where
    b: "buffer_append_n al (wbuffer c) bs = Some b" "contents b = contents (wbuffer c) @ bs" "room al b 0"
    by blast
  have "used b = used (wbuffer c) + length bs"
    using arg_cong [OF b(2), of length] b(3) assms(1) by (simp add: length_contents room_def writes_def)
  then have "writes (c\<lparr>wbuffer := b\<rparr>) (S @ bs)"
    using b(2,3) assms(1) length_contents [of "wbuffer c"] by (auto simp: writes_def room_def)
  with b(1) show thesis by (rule that)
qed

lemma push_writes:
  assumes "writes c S" and "length (S @ input) < 2 ^ 60" and "\<forall>m < 2 ^ 63. can_alloc al m"
  shows "\<exists>c'. chain_push al update c input = Some (True, c') \<and> writes c' (S @ input)"
proof (cases "input = []")
  case True
  then show ?thesis using assms(1) by (simp add: chain_push_def)
next
  case False
  let ?c1 = "chain_push_compact c"
  have w: "writes ?c1 S" using assms(1,2) by (intro push_compact_writes) simp_all
  show ?thesis
  proof (cases "used (wbuffer ?c1) = written ?c1 \<and> length input > flush_size ?c1")
    case True
    obtain s where s: "chain_write_flush_input update ?c1 input = Some (True, [], ?c1\<lparr>warg := s\<rparr>)" "ok s"
        "received s = received (warg ?c1) @ input"
      using flush_input_spec [of ?c1 input] w by (auto simp: writes_def)
    have "writes (?c1\<lparr>warg := s\<rparr>) (S @ input)"
      using w True s(2,3) length_contents [of "wbuffer ?c1"] by (auto simp: writes_def)
    moreover from this obtain b where b: "buffer_append_n al (wbuffer (?c1\<lparr>warg := s\<rparr>)) [] = Some b"
        "writes (?c1\<lparr>warg := s, wbuffer := b\<rparr>) ((S @ input) @ [])"
      by (rule append_writes [where bs = "[]" and al = al]) (use assms(2,3) in auto)
    ultimately show ?thesis
      using False True s(1) by (auto simp: chain_push_def Let_def)
  next
    case no: False
    obtain b where b: "buffer_append_n al (wbuffer ?c1) input = Some b"
        "writes (?c1\<lparr>wbuffer := b\<rparr>) (S @ input)"
      by (rule append_writes [OF w assms(2,3)])
    have "chain_push al update c input = chain_push_final update (?c1\<lparr>wbuffer := b\<rparr>)"
      using False no b(1) unfolding chain_push_def Let_def by auto
    then show ?thesis using push_final_writes [OF b(2)] by simp
  qed
qed

lemma free_writes: "writes c S \<Longrightarrow> \<exists>s. chain_write_free update c = Some s \<and> received s = S"
  using flush_writes [of c S] by (auto simp: chain_write_free_def)

end

section \<open>Copying a source to a sink\<close>

text \<open>The main loop of \<open>src/dzip/util/dzip.util.c\<close>: pull, push, release.\<close>

partial_function (option) chain_copy ::
    "allocator \<Rightarrow> (buffer \<Rightarrow> 'r \<Rightarrow> (chain_status \<times> buffer \<times> 'r) option)
       \<Rightarrow> ('w \<Rightarrow> bytes \<Rightarrow> (chain_status \<times> bytes \<times> 'w) option)
       \<Rightarrow> 'r chain_read \<Rightarrow> 'w chain_write \<Rightarrow> ('r chain_read \<times> 'w chain_write) option" where
  "chain_copy al rupdate wupdate r w =
     (case chain_pull rupdate r 1000000 of
        None \<Rightarrow> None
      | Some (None, r') \<Rightarrow> Some (r', w)
      | Some (Some ct, r') \<Rightarrow>
          (case chain_push al wupdate w ct of
             None \<Rightarrow> None
           | Some (ok, w') \<Rightarrow> chain_copy al rupdate wupdate (chain_release r' (length ct)) w'))"

locale chain_pipe =
  src: chain_input rupdate good over finished left + snk: chain_sink wupdate received ok
  for rupdate :: "buffer \<Rightarrow> 'r \<Rightarrow> (chain_status \<times> buffer \<times> 'r) option"
    and good over finished left
    and wupdate :: "'w \<Rightarrow> bytes \<Rightarrow> (chain_status \<times> bytes \<times> 'w) option"
    and received ok
begin

text \<open>
  One turn of a loop that pulls and pushes: either the source is over, and all of it was pushed, or
  what was pulled is pushed, and the source comes nearer to its end. The sink has received \<open>S\<close> before.
\<close>

definition to_come :: "'r chain_read \<Rightarrow> nat" where
  "to_come r = (if is_complete r then 0 else Suc (left (rarg r)))"

lemma copy_turn:
  assumes "src.reads r T (length T)" and "snk.writes w (S @ T)" and "length S < 2 ^ 59" and "\<forall>m < 2 ^ 63. can_alloc al m"
  obtains (over) r' where "chain_pull rupdate r 1000000 = Some (None, r')" and "finished T" and "\<not> is_error r'"
      and "over T (rarg r')"
    | (turn) bs r' w' where "chain_pull rupdate r 1000000 = Some (Some bs, r')"
      and "chain_push al wupdate w bs = Some (True, w')" and "snk.writes w' (S @ T @ bs)"
      and "src.reads (chain_release r' (length bs)) (T @ bs) (length (T @ bs))"
      and "to_come (chain_release r' (length bs)) < to_come r"
proof (cases "is_complete r")
  case True
  obtain r' where r': "chain_pull rupdate r 1000000 = Some (None, r')" "src.reads r' T (length T)" "finished T"
      "is_complete r'"
    using src.chain_pull_complete [OF assms(1) True] by blast
  then show thesis by (intro over [OF r'(1,3)]) (simp_all add: src.reads_def)
next
  case False
  have lt: "length T < 2 ^ 59" using src.reads_buffer_size [OF assms(1)] by simp
  obtain bs r' where p: "chain_pull rupdate r 1000000 = Some (Some (drop (length T) (T @ bs)), r')"
      "src.reads r' (T @ bs) (length T)"
      "is_complete r' \<or> left (rarg r') < left (rarg r) \<or>
       bs = [] \<and> rarg r' = rarg r \<and> fresh_read r \<and> \<not> fresh_read r' \<and>
         (1000000 + length T \<le> length T \<or> 2 ^ 63 \<le> 1000000 + length T)"
    using src.chain_pull_reads [OF assms(1) False] by blast
  then have dec: "is_complete r' \<or> left (rarg r') < left (rarg r)" using lt by auto
  have lt': "length (T @ bs) < 2 ^ 59" using src.reads_buffer_size [OF p(2)] by simp
  then have "length ((S @ T) @ bs) < 2 ^ 60" using assms(3) by simp
  from snk.push_writes [OF assms(2) this assms(4)] obtain w' where
    w: "chain_push al wupdate w bs = Some (True, w')" "snk.writes w' (S @ T @ bs)" by auto
  have r: "src.reads (chain_release r' (length bs)) (T @ bs) (length (T @ bs))"
    using src.reads_release [OF p(2), of "length bs"] lt' by simp
  have "to_come (chain_release r' (length bs)) < to_come r"
    using dec False by (auto simp: to_come_def chain_release_def)
  then show thesis using turn [OF _ w r] p(1) by simp
qed

lemma chain_copy_all:
  assumes "src.reads r T (length T)" and "snk.writes w T" and "\<forall>m < 2 ^ 63. can_alloc al m"
  shows "\<exists>r' w' T'. chain_copy al rupdate wupdate r w = Some (r', w') \<and>
    snk.writes w' T' \<and> finished T' \<and> \<not> is_error r'"
  using assms(1,2)
proof (induction "to_come r" arbitrary: r w T rule: less_induct)
  case less
  have "snk.writes w ([] @ T)" "length ([] :: bytes) < 2 ^ 59" using less.prems(2) by simp_all
  from less.prems(1) this assms(3) show ?case
  proof (cases rule: copy_turn)
    case (over r')
    then show ?thesis
      using less.prems(2) by (intro exI [of _ r'] exI [of _ w] exI [of _ T])
        (simp add: chain_copy.simps [of al rupdate wupdate r])
  next
    case (turn bs r' w')
    then have "chain_copy al rupdate wupdate r w = chain_copy al rupdate wupdate (chain_release r' (length bs)) w'"
      by (simp add: chain_copy.simps [of al rupdate wupdate r])
    then show ?thesis using less.hyps [OF turn(5) turn(4)] turn(3) by simp
  qed
qed

text \<open>From a new source to a new sink, until the sink is freed.\<close>

lemma chain_copy_new:
  assumes "good [] s" and "ok t" and "received t = []" and "\<forall>m < 2 ^ 63. can_alloc al m"
  shows "\<exists>r w u. chain_copy al rupdate wupdate (chain_read_new s) (chain_write_new n t) = Some (r, w) \<and>
    \<not> is_error r \<and> \<not> w_is_error w \<and> chain_write_free wupdate w = Some u \<and> finished (received u)"
proof -
  have "src.reads (chain_read_new s) [] (length ([] :: bytes))" "snk.writes (chain_write_new n t) []"
    using src.reads_new [OF assms(1)] snk.writes_new [OF assms(2,3)] by simp_all
  from chain_copy_all [OF this assms(4)] obtain r w T where
    c: "chain_copy al rupdate wupdate (chain_read_new s) (chain_write_new n t) = Some (r, w)"
      "snk.writes w T" "finished T" "\<not> is_error r"
    by blast
  moreover obtain u where "chain_write_free wupdate w = Some u" "received u = T"
    using snk.free_writes [OF c(2)] by blast
  moreover have "\<not> w_is_error w" using c(2) by (simp add: snk.writes_def)
  ultimately show ?thesis by blast
qed

end

end
