(* ===== verification/ChainFd.thy ===== *)
theory ChainFd
  imports Chain
begin

text \<open>
  Chains over file descriptors (\<open>src/chain-io/fd\<close>): the two update functions, and that
  they satisfy the contracts of a source and of a sink.
\<close>

definition chain_read_fd_update_func ::
    "allocator \<Rightarrow> buffer \<Rightarrow> read_fd \<Rightarrow> (chain_status \<times> buffer \<times> read_fd) option" where
  "chain_read_fd_update_func al b fd =
     (case buffer_read al b 0 1000000 fd of
        None \<Rightarrow> None
      | Some (sz, b', fd') \<Rightarrow>
          Some (if sz < 0 then CHAIN_ERROR else if sz = 0 then CHAIN_COMPLETE else CHAIN_INCOMPLETE,
                b', fd'))"

definition chain_read_open_fd :: "read_fd \<Rightarrow> read_fd chain_read" where
  "chain_read_open_fd fd = chain_read_new fd"

definition chain_write_fd_update_func ::
    "write_fd \<Rightarrow> bytes \<Rightarrow> (chain_status \<times> bytes \<times> write_fd) option" where
  "chain_write_fd_update_func fd input =
     (case buffer_write input 0 fd of
        (sz, wrote_size, fd') \<Rightarrow>
          Some (if sz < 0 then (CHAIN_ERROR, input, fd')
                else if sz = 0 then (CHAIN_COMPLETE, input, fd')
                else (CHAIN_INCOMPLETE, drop wrote_size input, fd')))"

definition chain_write_open_fd :: "write_fd \<Rightarrow> write_fd chain_write" where
  "chain_write_open_fd fd = chain_write_new 1000000 fd"

text \<open>A source that never fails, of a file \<open>D\<close> that fits the address space.\<close>

definition fd_good :: "allocator \<Rightarrow> bytes \<Rightarrow> bytes \<Rightarrow> read_fd \<Rightarrow> bool" where
  "fd_good al D T fd \<longleftrightarrow>
     fd_clean fd \<and> T @ fd_data fd = D \<and> length D < 2 ^ 57 \<and> (\<forall>m < 2 ^ 63. can_alloc al m)"

lemma fd_read_update:
  assumes "fd_good al D T fd" and "buffer_wf b" and "T = h @ contents b"
  shows "\<exists>st b' fd' bs. chain_read_fd_update_func al b fd = Some (st, b', fd') \<and> st \<noteq> CHAIN_ERROR \<and>
    contents b' = contents b @ bs \<and> buffer_wf b' \<and> fd_good al D (T @ bs) fd' \<and>
    (st = CHAIN_INCOMPLETE \<longrightarrow> length (fd_data fd') < length (fd_data fd)) \<and>
    (st = CHAIN_COMPLETE \<longrightarrow> T @ bs = D)"
proof -
  have "used b + length (fd_data fd) \<le> length D"
    using assms length_contents [OF assms(2)] by (auto simp: fd_good_def)
  then have room: "io_room al b (length (fd_data fd)) 1000000"
    using assms(1,2) by (simp add: io_room_def fd_good_def)
  have clean: "fd_clean fd" using assms(1) by (simp add: fd_good_def)
  obtain bs b' fd' where r: "buffer_read al b 0 1000000 fd = Some (int (length bs), b', fd')"
      "contents b' = contents b @ bs" "fd_data fd = bs @ fd_data fd'" "fd_clean fd'"
      "io_room al b' (length (fd_data fd) - length bs) 1000000" "bs = [] \<longrightarrow> fd_data fd = []"
    using buffer_read_clean [OF room clean, of 0] by auto
  let ?st = "if bs = [] then CHAIN_COMPLETE else CHAIN_INCOMPLETE"
  have "chain_read_fd_update_func al b fd = Some (?st, b', fd')"
    using r(1) by (simp add: chain_read_fd_update_func_def)
  moreover have "buffer_wf b'" using r(5) by (simp add: io_room_def)
  moreover have "fd_good al D (T @ bs) fd'" using assms(1) r(3,4) by (simp add: fd_good_def)
  moreover have "?st = CHAIN_INCOMPLETE \<longrightarrow> length (fd_data fd') < length (fd_data fd)"
    using r(3) by simp
  moreover have "?st = CHAIN_COMPLETE \<longrightarrow> T @ bs = D"
    using assms(1) r(6) by (auto simp: fd_good_def)
  ultimately show ?thesis using r(2) by (intro exI conjI) simp_all
qed

interpretation fd_in: chain_source "chain_read_fd_update_func al" "fd_good al D" "\<lambda>T. T = D"
    "\<lambda>fd. length (fd_data fd)"
proof unfold_locales
  fix T fd b h
  assume "fd_good al D T fd" "buffer_wf b" "T = h @ contents b"
  then show "\<exists>st b' s' bs. chain_read_fd_update_func al b fd = Some (st, b', s') \<and> st \<noteq> CHAIN_ERROR \<and>
      contents b' = contents b @ bs \<and> buffer_wf b' \<and> fd_good al D (T @ bs) s' \<and>
      (st = CHAIN_INCOMPLETE \<longrightarrow> length (fd_data s') < length (fd_data fd)) \<and>
      (st = CHAIN_COMPLETE \<longrightarrow> T @ bs = D)"
    by (rule fd_read_update)
next
  fix T fd
  assume "fd_good al D T fd"
  then show "length T < 2 ^ 59" by (auto simp: fd_good_def)
qed

text \<open>
  How far a pull from a descriptor reads: it comes to the end of the file only when the
  client asks for (nearly) everything that is left.
\<close>

lemma fd_update_complete:
  assumes "chain_read_fd_update_func al b fd = Some (CHAIN_COMPLETE, b', fd')" and "fd_good al D T fd"
    and "buffer_wf b" and "T = h @ contents b"
  shows "T = D"
proof -
  obtain st b2 fd2 bs where u: "chain_read_fd_update_func al b fd = Some (st, b2, fd2)"
      "contents b2 = contents b @ bs" "buffer_wf b2" "st = CHAIN_COMPLETE \<longrightarrow> T @ bs = D"
    using fd_read_update [OF assms(2-4)] by blast
  have "used b + length (fd_data fd) \<le> length D"
    using assms(2,4) length_contents [OF assms(3)] by (auto simp: fd_good_def)
  then have room: "io_room al b (length (fd_data fd)) 1000000"
    using assms(2,3) by (simp add: io_room_def fd_good_def)
  have clean: "fd_clean fd" using assms(2) by (simp add: fd_good_def)
  obtain cs b3 fd3 where r: "buffer_read al b 0 1000000 fd = Some (int (length cs), b3, fd3)"
      "contents b3 = contents b @ cs"
    using buffer_read_clean [OF room clean, of 0] by auto
  have "cs = []" using assms(1) r(1) by (auto simp: chain_read_fd_update_func_def split: if_splits)
  then have "bs = []" using u(1,2) r by (auto simp: chain_read_fd_update_func_def)
  then show ?thesis using u(1,4) assms(1) by simp
qed

lemma fd_reads_bounds:
  "fd_in.reads al D c T P \<Longrightarrow> length T \<le> length D \<and> length (contents (rbuffer c)) = used (rbuffer c) \<and>
     length (fd_data (rarg c)) = length D - length T \<and> used (rbuffer c) \<le> length T \<and>
     used (rbuffer c) + P = length T + released c \<and> length D < 2 ^ 57"
  by (auto simp: fd_in.reads_def fd_good_def length_contents)

lemma fd_pull_loop_end:
  assumes "fd_in.reads al D c T P" and "\<not> is_complete c" and "used (rbuffer c) \<le> m"
    and "chain_pull_loop (chain_read_fd_update_func al) m c = Some (r, c')"
  shows "(is_complete c' \<longrightarrow> used (rbuffer c) + (length D - length T) \<le> m) \<and>
    (\<not> is_complete c' \<longrightarrow> m < used (rbuffer c')) \<and>
    fresh_read c' = fresh_read c \<and> released c' = released c"
  using assms
proof (induction "length (fd_data (rarg c))" arbitrary: c T rule: less_induct)
  case less
  let ?upd = "chain_read_fd_update_func al"
  obtain st b s bs where u: "?upd (rbuffer c) (rarg c) = Some (st, b, s)" "st \<noteq> CHAIN_ERROR"
      "fd_in.reads al D (c\<lparr>rbuffer := b, rarg := s, is_complete := (st = CHAIN_COMPLETE)\<rparr>) (T @ bs) P"
      "st = CHAIN_INCOMPLETE \<Longrightarrow> length (fd_data s) < length (fd_data (rarg c))"
      "contents b = contents (rbuffer c) @ bs"
    using fd_in.reads_update [OF less.prems(1,2)] by metis
  let ?c = "c\<lparr>rbuffer := b, rarg := s\<rparr>"
  show ?case
  proof (cases st)
    case CHAIN_ERROR
    then show ?thesis using u(2) by simp
  next
    case CHAIN_COMPLETE
    obtain h where h: "T = h @ contents (rbuffer c)" "buffer_wf (rbuffer c)" "fd_good al D T (rarg c)"
      using less.prems(1) by (auto simp: fd_in.reads_def)
    have "T = D" using fd_update_complete [OF _ h(3,2,1)] u(1) CHAIN_COMPLETE by blast
    moreover have "c' = ?c\<lparr>is_complete := True\<rparr>"
      using less.prems(4) u(1) CHAIN_COMPLETE by (subst (asm) chain_pull_loop.simps) (simp add: Let_def)
    ultimately show ?thesis using less.prems(3) by simp
  next
    case CHAIN_INCOMPLETE
    have "c\<lparr>rbuffer := b, rarg := s, is_complete := False\<rparr> = ?c" using less.prems(2) by simp
    then have rd: "fd_in.reads al D ?c (T @ bs) P" using u(3) CHAIN_INCOMPLETE by simp
    show ?thesis
    proof (cases "m < used b")
      case True
      then have "c' = ?c" using less.prems(4) u(1) CHAIN_INCOMPLETE
        by (subst (asm) chain_pull_loop.simps) (simp add: Let_def)
      then show ?thesis using True less.prems(2) by simp
    next
      case False
      then have l: "chain_pull_loop ?upd m ?c = Some (r, c')"
        using less.prems(4) u(1) CHAIN_INCOMPLETE
        by (subst (asm) chain_pull_loop.simps) (simp add: Let_def)
      have "used b + (length D - length (T @ bs)) = used (rbuffer c) + (length D - length T)"
      proof -
        have "used b = used (rbuffer c) + length bs"
          using u(5) fd_reads_bounds [OF rd] fd_reads_bounds [OF less.prems(1)] by simp
        then show ?thesis using fd_reads_bounds [OF rd] by simp
      qed
      then show ?thesis
        using less.hyps [OF _ rd _ _ l] u(4) CHAIN_INCOMPLETE less.prems(2) False by simp
    qed
  qed
qed

lemma fd_chain_pull:
  assumes "fd_in.reads al D c T P" and "\<not> is_complete c" and "n \<le> 1000000" and "P < 2 ^ 58"
  obtains bs c' where
      "chain_pull (chain_read_fd_update_func al) c n = Some (Some (drop P (T @ bs)), c')"
    and "fd_in.reads al D c' (T @ bs) P" and "\<not> fresh_read c'"
    and "is_complete c' \<longrightarrow> length D \<le> P + n \<or> length D \<le> length T + n \<and> (fresh_read c \<longrightarrow> length T < P + n)"
    and "\<not> is_complete c' \<longrightarrow> bs \<noteq> [] \<or> fresh_read c \<and> P + n \<le> length T"
proof -
  let ?upd = "chain_read_fd_update_func al"
  let ?c1 = "chain_read_apply_release c"
  let ?c2 = "?c1\<lparr>fresh_read := False\<rparr>"
  have r1: "fd_in.reads al D ?c1 T P" using assms(1) by (rule fd_in.reads_apply_release)
  then have r2: "fd_in.reads al D ?c2 T P" by (simp add: fd_in.reads_def)
  have nc: "\<not> is_complete ?c1" "\<not> is_complete ?c2" using assms(2) by (simp_all add: fd_in.apply_release_frame)
  have fr: "fresh_read ?c1 = fresh_read c" by (simp add: fd_in.apply_release_frame)
  let ?u = "used (rbuffer ?c1)"
  note b = fd_reads_bounds [OF r1]
  have md: "(n + released ?c1) mod size_max = n + released ?c1" "(?u + n) mod size_max = ?u + n"
    using b assms(3,4) by simp_all
  show ?thesis
  proof (cases "fresh_read ?c1 \<and> n + released ?c1 \<le> ?u")
    case True
    then have "chain_pull ?upd c n = Some (Some (drop P (T @ [])), ?c2)"
      using nc fd_in.reads_contents [OF r2] unfolding chain_pull_def Let_def md by simp
    moreover have "P + n \<le> length T" using True b by linarith
    ultimately show ?thesis using that [of "[]" ?c2] r2 nc(2) True fr by simp
  next
    case no: False
    let ?m = "if ?u < n then n else ?u + n"
    have same: "rbuffer ?c2 = rbuffer ?c1" by simp
    have p: "chain_pull ?upd c n = chain_pull_loop ?upd ?m ?c2"
      unfolding chain_pull_def Let_def same md if_not_P [OF nc(1)] if_not_P [OF no] ..
    obtain bs c' where l: "chain_pull_loop ?upd ?m ?c2 = Some (Some (drop P (T @ bs)), c')"
        "fd_in.reads al D c' (T @ bs) P"
      using fd_in.chain_pull_loop_reads [OF r2 nc(2), of ?m] by blast
    have e: "(is_complete c' \<longrightarrow> ?u + (length D - length T) \<le> ?m) \<and>
        (\<not> is_complete c' \<longrightarrow> ?m < used (rbuffer c')) \<and>
        fresh_read c' = False \<and> released c' = released ?c1"
      using fd_pull_loop_end [OF r2 nc(2) _ l(1)] by simp
    have "bs \<noteq> []" if "\<not> is_complete c'"
      using that e b fd_reads_bounds [OF l(2)] by (auto split: if_splits)
    moreover have "length D \<le> P + n \<or> length D \<le> length T + n \<and> (fresh_read c \<longrightarrow> length T < P + n)"
      if "is_complete c'"
    proof (cases "?u < n")
      case True
      then have "?u + (length D - length T) \<le> n" using e that by simp
      then show ?thesis using b True by linarith
    next
      case False
      then have "?u + (length D - length T) \<le> ?u + n" using e that by simp
      moreover have "fresh_read c \<longrightarrow> length T < P + n" using no b fr by auto
      ultimately show ?thesis using b by linarith
    qed
    ultimately show ?thesis using that p l e by auto
  qed
qed

lemma fd_write_update:
  assumes "fd_accepts fd"
  shows "\<exists>st rest fd' d. chain_write_fd_update_func fd input = Some (st, rest, fd') \<and>
    st \<noteq> CHAIN_ERROR \<and> input = d @ rest \<and> sent fd' = sent fd @ d \<and> fd_accepts fd' \<and>
    (st = CHAIN_INCOMPLETE \<longrightarrow> d \<noteq> []) \<and> (st = CHAIN_COMPLETE \<longrightarrow> rest = [])"
proof (cases "input = []")
  case True
  then show ?thesis using assms by (simp add: chain_write_fd_update_func_def buffer_write_def)
next
  case False
  obtain n fd' where w: "sys_write fd input = (Some n, fd')" "0 < n"
      "sent fd' = sent fd @ take n input" "fd_accepts fd'"
    using sys_write_accepts [OF assms False] by blast
  have "chain_write_fd_update_func fd input = Some (CHAIN_INCOMPLETE, drop n input, fd')"
    using w(1,2) False by (simp add: chain_write_fd_update_func_def buffer_write_def)
  then show ?thesis using w(2-4) False by (auto intro!: exI [of _ "take n input"])
qed

interpretation fd_out: chain_sink chain_write_fd_update_func sent fd_accepts
  by unfold_locales (rule fd_write_update)

interpretation fd_cat: chain_pipe "chain_read_fd_update_func al" "fd_good al D" "fd_good al D" "\<lambda>T. T = D"
    "\<lambda>fd. length (fd_data fd)" chain_write_fd_update_func sent fd_accepts
  by unfold_locales

section \<open>Properties\<close>

text \<open>C16: Copying a descriptor to another one through the two chains, with the loop that
  pulls, pushes and releases, ends; it reports no error, and when the output chain is freed
  the output descriptor has received exactly the bytes of the input descriptor, however the
  system cuts the reads and however little each write accepts.\<close>

theorem chain_copy_fd:
  assumes "fd_clean in_fd" and "fd_accepts out_fd" and "sent out_fd = []"
    and "length (fd_data in_fd) < 2 ^ 57" and "\<forall>m < 2 ^ 63. can_alloc al m"
  shows "\<exists>r w u. chain_copy al (chain_read_fd_update_func al) chain_write_fd_update_func
      (chain_read_open_fd in_fd) (chain_write_open_fd out_fd) = Some (r, w) \<and>
    \<not> is_error r \<and> \<not> w_is_error w \<and> chain_write_free chain_write_fd_update_func w = Some u \<and>
    sent u = fd_data in_fd"
  unfolding chain_read_open_fd_def chain_write_open_fd_def
  using assms by (intro fd_cat.chain_copy_new) (simp_all add: fd_good_def)

theorem chain_copy_fd_witness:
  "\<exists>r w u. chain_copy \<lparr>can_alloc = (\<lambda>_. True), fill = (\<lambda>_. 7)\<rparr>
      (chain_read_fd_update_func \<lparr>can_alloc = (\<lambda>_. True), fill = (\<lambda>_. 7)\<rparr>) chain_write_fd_update_func
      (chain_read_open_fd [Some [1, 2], Some [3]])
      (chain_write_open_fd \<lparr>accept = [Some 1], sent = []\<rparr>) = Some (r, w) \<and>
    \<not> is_error r \<and> \<not> w_is_error w \<and> chain_write_free chain_write_fd_update_func w = Some u \<and>
    sent u = [1, 2, 3]"
  using chain_copy_fd [of "[Some [1, 2], Some [3]]" "\<lparr>accept = [Some 1], sent = []\<rparr>"
      "\<lparr>can_alloc = (\<lambda>_. True), fill = (\<lambda>_. 7)\<rparr>"]
  by (simp add: fd_accepts_def)

end
