(* ===== verification/DzipChain.thy ===== *)
theory DzipChain
  imports Dzip ChainFd
begin

text \<open>
  Compression and decompression as chains (\<open>src/dzip/deflate/chain.c\<close>,
  \<open>src/dzip/inflate/chain.c\<close>) and the program built from them
  (\<open>src/dzip/util/dzip.util.c\<close>). The state of such a chain's argument is the chain it
  reads from, and for compression the deflate state.
\<close>

section \<open>Update functions\<close>

text \<open>
  \<open>dzip_deflate\<close> and \<open>dzip_inflate_range\<close> work on the contents of their output buffer
  and only append to them; the bytes they append are pushed onto the buffer here.
\<close>

definition buffer_extend :: "allocator \<Rightarrow> buffer \<Rightarrow> bytes \<Rightarrow> buffer option" where
  "buffer_extend al b out = push_all (buffer_push al) b (drop (used b) out)"

definition dzip_deflate_input_update_func ::
    "allocator \<Rightarrow> (buffer \<Rightarrow> 's \<Rightarrow> (chain_status \<times> buffer \<times> 's) option)
       \<Rightarrow> buffer \<Rightarrow> 's chain_read \<times> dzip_deflate_state
       \<Rightarrow> (chain_status \<times> buffer \<times> 's chain_read \<times> dzip_deflate_state) option" where
  "dzip_deflate_input_update_func al update b arg =
     (case arg of (input, state) \<Rightarrow>
        case chain_pull update input 1000000 of
          None \<Rightarrow> None
        | Some (None, input') \<Rightarrow>
            Some (if is_error input' then CHAIN_ERROR else CHAIN_COMPLETE, b, input', state)
        | Some (Some ct, input') \<Rightarrow>
            (case dzip_deflate (contents b) state ct of
               None \<Rightarrow> None
             | Some (out, state') \<Rightarrow>
                 (case buffer_extend al b out of
                    None \<Rightarrow> None
                  | Some b' \<Rightarrow>
                      Some (CHAIN_INCOMPLETE, b', chain_release input' (length ct), state'))))"

definition dzip_deflate_chain_input ::
    "'s chain_read \<Rightarrow> ('s chain_read \<times> dzip_deflate_state) chain_read" where
  "dzip_deflate_chain_input input = chain_read_new (input, dzip_deflate_state_new)"

definition dzip_inflate_input_update_func ::
    "allocator \<Rightarrow> (buffer \<Rightarrow> 's \<Rightarrow> (chain_status \<times> buffer \<times> 's) option)
       \<Rightarrow> buffer \<Rightarrow> 's chain_read \<Rightarrow> (chain_status \<times> buffer \<times> 's chain_read) option" where
  "dzip_inflate_input_update_func al update b input =
     (case chain_pull update input 1000000 of
        None \<Rightarrow> None
      | Some (None, input') \<Rightarrow>
          Some (if is_error input' then CHAIN_ERROR else CHAIN_COMPLETE, b, input')
      | Some (Some ct, input') \<Rightarrow>
          (case dzip_inflate_range (contents b) ct of
             None \<Rightarrow> None
           | Some (ok, out, rest) \<Rightarrow>
               (case buffer_extend al b out of
                  None \<Rightarrow> None
                | Some b' \<Rightarrow>
                    Some (if ok then (CHAIN_INCOMPLETE, b', chain_release input' (length ct - length rest))
                          else (CHAIN_ERROR, b', input')))))"

definition dzip_inflate_chain_input :: "'s chain_read \<Rightarrow> 's chain_read chain_read" where
  "dzip_inflate_chain_input input = chain_read_new input"

section \<open>The program\<close>

text \<open>
  The exit code and the standard output descriptor. The output chain is freed, and thereby
  flushed, only when there was no error.
\<close>

definition dzip_main ::
    "allocator \<Rightarrow> bool \<Rightarrow> read_fd \<Rightarrow> write_fd \<Rightarrow> (nat \<times> write_fd) option" where
  "dzip_main al should_deflate stdin stdout =
     (let fd_in = chain_read_open_fd stdin;
          fd_out = chain_write_open_fd stdout;
          copied = (if should_deflate
            then map_option (\<lambda>(r, w). (is_error r, w))
              (chain_copy al (dzip_deflate_input_update_func al (chain_read_fd_update_func al))
                 chain_write_fd_update_func (dzip_deflate_chain_input fd_in) fd_out)
            else map_option (\<lambda>(r, w). (is_error r, w))
              (chain_copy al (dzip_inflate_input_update_func al (chain_read_fd_update_func al))
                 chain_write_fd_update_func (dzip_inflate_chain_input fd_in) fd_out))
      in case copied of
           None \<Rightarrow> None
         | Some (read_error, w) \<Rightarrow>
             if read_error \<or> w_is_error w then Some (1, warg w)
             else map_option (Pair 0) (chain_write_free chain_write_fd_update_func w))"

text \<open>The loop over the arguments, which begins with the name of the program.\<close>

fun dzip_options :: "bool \<Rightarrow> bytes list \<Rightarrow> bool" where
  "dzip_options should_deflate [] = should_deflate"
| "dzip_options should_deflate (arg # argv) =
     dzip_options (if arg = str ''-d'' then False else should_deflate) argv"

definition dzip_program :: "allocator \<Rightarrow> bytes list \<Rightarrow> read_fd \<Rightarrow> write_fd \<Rightarrow> (nat \<times> write_fd) option" where
  "dzip_program al argv stdin stdout = dzip_main al (dzip_options True argv) stdin stdout"

lemma dzip_options_d: "dzip_options b argv \<longleftrightarrow> b \<and> str ''-d'' \<notin> set argv"
  by (induction b argv rule: dzip_options.induct) auto

section \<open>Reading one chunk\<close>

text \<open>
  \<open>dzip_inflate_read_chunk\<close> of \<open>src/dzip/inflate/extensions.c\<close>. The header is read from
  the buffer's memory, whatever was filled of it.
\<close>

definition dzip_inflate_read_chunk ::
    "allocator \<Rightarrow> buffer \<Rightarrow> read_fd \<Rightarrow> (bool \<times> buffer \<times> read_fd) option" where
  "dzip_inflate_read_chunk al chunk fd =
     (case buffer_read_loop al (buffer_rewrite chunk) header_size 0 fd of
        None \<Rightarrow> None
      | Some (sz, b, fd1) \<Rightarrow>
          if sz < 0 then Some (False, b, fd1)
          else if used b = 0 then Some (True, b, fd1)
          else if length (mem b) < header_size then None
          else if header_magic (mem b) \<noteq> DZIP_MAGIC then Some (False, b, fd1)
          else if header_version (mem b) \<noteq> DZIP_VERSION then Some (False, b, fd1)
          else let chunk_size = header_chunk_size (mem b)
               in if chunk_size < header_size then Some (False, b, fd1)
                  else case buffer_read_loop al b chunk_size 0 fd1 of
                         None \<Rightarrow> None
                       | Some (sz2, b2, fd2) \<Rightarrow> Some (used b2 = chunk_size, b2, fd2))"

section \<open>Chains that satisfy the contract of a source\<close>

lemma buffer_extend_contents:
  assumes "buffer_wf b" and "length (contents b @ s) < 2 ^ 60" and "\<forall>m < 2 ^ 63. can_alloc al m"
  shows "\<exists>b'. buffer_extend al b (contents b @ s) = Some b' \<and> contents b' = contents b @ s \<and> buffer_wf b'"
proof -
  have u: "length (contents b) = used b" using assms(1) by (rule length_contents)
  then have "room al b (length s + 0)" using assms by (simp add: room_def)
  from buf.push_all_view [OF this] u show ?thesis
    by (auto simp: buffer_extend_def room_def)
qed

text \<open>
  The deflating chain over a descriptor with the data \<open>D\<close>: what it has delivered is a
  sequence of chunks for the data it has taken from its own source.
\<close>

definition deflates :: "bytes \<Rightarrow> bytes \<Rightarrow> bool" where
  "deflates T d \<longleftrightarrow>
     (\<exists>ps. T = concat (map fst ps) \<and> d = concat (map snd ps) \<and> list_all is_chunk ps) \<and>
     length T \<le> 19 * length d"

lemma deflates_append: "deflates T d \<Longrightarrow> deflates S e \<Longrightarrow> deflates (T @ S) (d @ e)"
  unfolding deflates_def
proof (elim conjE exE, intro conjI)
  fix ps qs
  assume "T = concat (map fst ps)" "d = concat (map snd ps)" "list_all is_chunk ps"
    "S = concat (map fst qs)" "e = concat (map snd qs)" "list_all is_chunk qs"
  then show "\<exists>ps. T @ S = concat (map fst ps) \<and> d @ e = concat (map snd ps) \<and> list_all is_chunk ps"
    by (intro exI [of _ "ps @ qs"]) simp
qed simp

definition deflate_good ::
    "allocator \<Rightarrow> bytes \<Rightarrow> bytes \<Rightarrow> read_fd chain_read \<times> dzip_deflate_state \<Rightarrow> bool" where
  "deflate_good al D T s \<longleftrightarrow>
     (\<exists>d. fd_in.reads al D (fst s) d (length d) \<and> deflates T d) \<and>
     22 * length D + 48 < 4294967296 \<and> (\<forall>m < 2 ^ 63. can_alloc al m)"

definition chain_left :: "read_fd chain_read \<Rightarrow> nat" where
  "chain_left c = (if is_complete c then 0 else Suc (length (fd_data (rarg c))))"

lemma fd_reads_size: "fd_in.reads al D c T P \<Longrightarrow> length T \<le> length D"
  by (auto simp: fd_in.reads_def fd_good_def)

text \<open>A pull of everything that is left of what was read, followed by its release.\<close>

lemma fd_pull_all:
  assumes "fd_in.reads al D c d (length d)" and "\<not> is_complete c"
  obtains bs c' where "chain_pull (chain_read_fd_update_func al) c 1000000 = Some (Some bs, c')"
    and "fd_in.reads al D (chain_release c' (length bs)) (d @ bs) (length (d @ bs))"
    and "chain_left (chain_release c' (length bs)) < chain_left c"
proof -
  obtain bs c' where p: "chain_pull (chain_read_fd_update_func al) c 1000000
        = Some (Some (drop (length d) (d @ bs)), c')"
      "fd_in.reads al D c' (d @ bs) (length d)"
      "is_complete c' \<or> length (fd_data (rarg c')) < length (fd_data (rarg c)) \<or>
       bs = [] \<and> rarg c' = rarg c \<and> fresh_read c \<and> \<not> fresh_read c' \<and>
         (1000000 + length d \<le> length d \<or> 2 ^ 63 \<le> 1000000 + length d)"
    using fd_in.chain_pull_reads [OF assms] by blast
  have lt: "length (d @ bs) < 2 ^ 59" using fd_in.reads_buffer_size [OF p(2)] by blast
  then have "is_complete c' \<or> length (fd_data (rarg c')) < length (fd_data (rarg c))"
    using p(3) by auto
  then have "chain_left (chain_release c' (length bs)) < chain_left c"
    using assms(2) by (auto simp: chain_left_def chain_release_def)
  moreover have "fd_in.reads al D (chain_release c' (length bs)) (d @ bs) (length (d @ bs))"
    using fd_in.reads_release [OF p(2), of "length bs"] lt by simp
  ultimately show thesis using p(1) that by simp
qed

lemma deflate_update:
  assumes "deflate_good al D T s" and "buffer_wf b" and "T = h @ contents b"
  shows "\<exists>st b' s' bs. dzip_deflate_input_update_func al (chain_read_fd_update_func al) b s
      = Some (st, b', s') \<and> st \<noteq> CHAIN_ERROR \<and>
    contents b' = contents b @ bs \<and> buffer_wf b' \<and> deflate_good al D (T @ bs) s' \<and>
    (st = CHAIN_INCOMPLETE \<longrightarrow> chain_left (fst s') < chain_left (fst s)) \<and>
    (st = CHAIN_COMPLETE \<longrightarrow> deflates (T @ bs) D)"
proof -
  obtain c z where s: "s = (c, z)" by (cases s)
  obtain d where d: "fd_in.reads al D c d (length d)" "deflates T d"
    using assms(1) s by (auto simp: deflate_good_def)
  have bound: "22 * length D + 48 < 4294967296" and al: "\<forall>m < 2 ^ 63. can_alloc al m"
    using assms(1) by (simp_all add: deflate_good_def)
  show ?thesis
  proof (cases "is_complete c")
    case True
    obtain c' where c': "chain_pull (chain_read_fd_update_func al) c 1000000 = Some (None, c')"
        "fd_in.reads al D c' d (length d)" "d = D"
      using fd_in.chain_pull_complete [OF d(1) True] by blast
    then have "\<not> is_error c'" by (simp add: fd_in.reads_def)
    then have "dzip_deflate_input_update_func al (chain_read_fd_update_func al) b s
        = Some (CHAIN_COMPLETE, b, c', z)"
      using c'(1) s by (simp add: dzip_deflate_input_update_func_def)
    moreover have "deflate_good al D (T @ []) (c', z)"
      using c' d(2) bound al by (auto simp: deflate_good_def)
    ultimately show ?thesis using assms(2) c'(3) d(2) by (intro exI [of _ "[]"] exI conjI) auto
  next
    case False
    obtain bs c' where p: "chain_pull (chain_read_fd_update_func al) c 1000000 = Some (Some bs, c')"
        "fd_in.reads al D (chain_release c' (length bs)) (d @ bs) (length (d @ bs))"
        "chain_left (chain_release c' (length bs)) < chain_left c"
      using fd_pull_all [OF d(1) False] by metis
    have dD: "length (d @ bs) \<le> length D" using p(2) by (rule fd_reads_size)
    have "length T \<le> 19 * length d" using d(2) by (simp add: deflates_def)
    then have out: "length (contents b) \<le> 19 * length d" using assms(3) by simp
    then have "length (contents b) + 3 * length bs + 48 < 4294967296" using dD bound by simp
    from dzip_deflate_chunks [OF this, of z] obtain ps z' where
      z: "dzip_deflate (contents b) z bs = Some (contents b @ concat (map fst ps), z')"
        "list_all is_chunk ps" "concat (map snd ps) = bs"
        "length (concat (map fst ps)) \<le> deflated_size (length bs)"
      by blast
    have sz: "deflated_size (length bs) \<le> 19 * length bs"
      using deflated_size_le [of "length bs"] by (cases "length bs") (simp_all add: deflated_size_def [of 0])
    have "length (contents b @ concat (map fst ps)) < 2 ^ 60" using out z(4) sz dD bound by simp
    from buffer_extend_contents [OF assms(2) this al] obtain b' where
      b': "buffer_extend al b (contents b @ concat (map fst ps)) = Some b'"
        "contents b' = contents b @ concat (map fst ps)" "buffer_wf b'"
      by blast
    have "deflates (concat (map fst ps)) bs" using z(2-4) sz by (auto simp: deflates_def)
    then have "deflates (T @ concat (map fst ps)) (d @ bs)" using d(2) by (rule deflates_append [rotated])
    then have "deflate_good al D (T @ concat (map fst ps)) (chain_release c' (length bs), z')"
      unfolding deflate_good_def fst_conv using p(2) bound al by blast
    moreover have "dzip_deflate_input_update_func al (chain_read_fd_update_func al) b s
        = Some (CHAIN_INCOMPLETE, b', chain_release c' (length bs), z')"
      using p(1) z(1) b'(1) s by (simp add: dzip_deflate_input_update_func_def)
    ultimately show ?thesis using b'(2,3) p(3) s by (intro exI conjI) auto
  qed
qed

interpretation deflate_in: chain_source
    "dzip_deflate_input_update_func al (chain_read_fd_update_func al)" "deflate_good al D"
    "\<lambda>T. deflates T D" "\<lambda>s. chain_left (fst s)"
proof unfold_locales
  fix T s b h
  assume "deflate_good al D T s" "buffer_wf b" "T = h @ contents b"
  then show "\<exists>st b' s' bs. dzip_deflate_input_update_func al (chain_read_fd_update_func al) b s
      = Some (st, b', s') \<and> st \<noteq> CHAIN_ERROR \<and>
    contents b' = contents b @ bs \<and> buffer_wf b' \<and> deflate_good al D (T @ bs) s' \<and>
    (st = CHAIN_INCOMPLETE \<longrightarrow> chain_left (fst s') < chain_left (fst s)) \<and>
    (st = CHAIN_COMPLETE \<longrightarrow> deflates (T @ bs) D)"
    by (rule deflate_update)
next
  fix T s
  assume g: "deflate_good al D T s"
  then obtain d where "fd_in.reads al D (fst s) d (length d)" "length T \<le> 19 * length d"
    by (auto simp: deflate_good_def deflates_def)
  then show "length T < 2 ^ 59"
    using fd_reads_size g by (fastforce simp: deflate_good_def)
qed

interpretation deflate_fd: chain_pipe
    "dzip_deflate_input_update_func al (chain_read_fd_update_func al)" "deflate_good al D" "deflate_good al D"
    "\<lambda>T. deflates T D" "\<lambda>s. chain_left (fst s)" chain_write_fd_update_func sent fd_accepts
  by unfold_locales

text \<open>
  The inflating chain over a descriptor whose data \<open>D\<close> are chunks \<open>ps\<close>: some chunks have
  been expanded and released, the others are still to come.
\<close>

definition inflate_good ::
    "allocator \<Rightarrow> (bytes \<times> bytes) list \<Rightarrow> bytes \<Rightarrow> read_fd chain_read \<Rightarrow> bool" where
  "inflate_good al ps T c \<longleftrightarrow>
     (\<exists>d qs rs. fd_in.reads al (concat (map fst ps)) c d (length (concat (map fst qs))) \<and>
        length (concat (map fst qs)) \<le> length d \<and> ps = qs @ rs \<and> T = concat (map snd qs) \<and>
        (is_complete c \<longrightarrow> rs = [])) \<and>
     list_all is_chunk ps \<and> length (concat (map snd ps)) < 4294967296 \<and> (\<forall>m < 2 ^ 63. can_alloc al m)"

definition inflate_left :: "read_fd chain_read \<Rightarrow> nat" where
  "inflate_left c =
     2 * (used (rbuffer c) + length (fd_data (rarg c)) - released c) +
     (if fresh_read c then 1 else 0) + (if is_complete c then 0 else 2 + 2 * length (fd_data (rarg c)))"

lemma inflate_left_reads:
  assumes "fd_in.reads al D c d P"
  shows "inflate_left c = 2 * (length D - P) + (if fresh_read c then 1 else 0) +
    (if is_complete c then 0 else 2 + 2 * length (fd_data (rarg c)))"
  using assms by (auto simp: inflate_left_def fd_in.reads_def fd_good_def length_contents)

lemma inflate_left_step:
  assumes "P + k \<le> (N :: nat)" and "cm \<or> l' < l \<or> l' = l \<and> fr \<and> \<not> fr'"
  shows "2 * (N - (P + k)) + (if (if k \<noteq> 0 then True else fr') then 1 else 0) + (if cm then 0 else 2 + 2 * l')
    < 2 * (N - P) + (if fr then 1 else 0) + (2 + 2 * (l :: nat))"
  using assms by (cases "k = 0") auto

lemma inflate_update:
  assumes "inflate_good al ps T c" and "buffer_wf b" and "T = h @ contents b"
  shows "\<exists>st b' c' bs. dzip_inflate_input_update_func al (chain_read_fd_update_func al) b c
      = Some (st, b', c') \<and> st \<noteq> CHAIN_ERROR \<and>
    contents b' = contents b @ bs \<and> buffer_wf b' \<and> inflate_good al ps (T @ bs) c' \<and>
    (st = CHAIN_INCOMPLETE \<longrightarrow> inflate_left c' < inflate_left c) \<and>
    (st = CHAIN_COMPLETE \<longrightarrow> T @ bs = concat (map snd ps))"
proof -
  let ?D = "concat (map fst ps)"
  obtain d qs rs where g: "fd_in.reads al ?D c d (length (concat (map fst qs)))"
      "length (concat (map fst qs)) \<le> length d" "ps = qs @ rs" "T = concat (map snd qs)"
      "is_complete c \<longrightarrow> rs = []"
    using assms(1) unfolding inflate_good_def by blast
  let ?P = "length (concat (map fst qs))"
  have chunks: "list_all is_chunk ps" and bound: "length (concat (map snd ps)) < 4294967296"
    and al: "\<forall>m < 2 ^ 63. can_alloc al m"
    using assms(1) by (simp_all add: inflate_good_def)
  show ?thesis
  proof (cases "is_complete c")
    case True
    obtain c' where c': "chain_pull (chain_read_fd_update_func al) c 1000000 = Some (None, c')"
        "fd_in.reads al ?D c' d ?P" "d = ?D"
      using fd_in.chain_pull_complete [OF g(1) True] by blast
    then have "\<not> is_error c'" by (simp add: fd_in.reads_def)
    then have "dzip_inflate_input_update_func al (chain_read_fd_update_func al) b c
        = Some (CHAIN_COMPLETE, b, c')"
      using c'(1) by (simp add: dzip_inflate_input_update_func_def)
    moreover have "rs = []" using g(5) True by simp
    moreover have "inflate_good al ps (T @ []) c'"
      unfolding inflate_good_def
    proof (intro conjI exI)
      show "fd_in.reads al ?D c' d ?P" by (rule c'(2))
      show "ps = qs @ []" "is_complete c' \<longrightarrow> [] = []" using g(3) \<open>rs = []\<close> by simp_all
    qed (use g(2,4) chunks bound al in simp_all)
    ultimately show ?thesis using assms(2) g(3,4) by (intro exI [of _ "[]"] exI conjI) auto
  next
    case False
    obtain bs c' where p: "chain_pull (chain_read_fd_update_func al) c 1000000
          = Some (Some (drop ?P (d @ bs)), c')"
        "fd_in.reads al ?D c' (d @ bs) ?P"
        "is_complete c' \<or> length (fd_data (rarg c')) < length (fd_data (rarg c)) \<or>
         bs = [] \<and> rarg c' = rarg c \<and> fresh_read c \<and> \<not> fresh_read c' \<and>
           (1000000 + ?P \<le> length d \<or> 2 ^ 63 \<le> 1000000 + ?P)"
      using fd_in.chain_pull_reads [OF g(1) False] by blast
    let ?ct = "drop ?P (d @ bs)"
    have D: "?D = (d @ bs) @ fd_data (rarg c')"
      using p(2) unfolding fd_in.reads_def fd_good_def if_cancel by (elim conjE) (rule sym)
    have "is_complete c' \<longrightarrow> d @ bs = ?D" using p(2) unfolding fd_in.reads_def by (elim conjE)
    then have fin: "is_complete c' \<longrightarrow> fd_data (rarg c') = []" using D by auto
    have "concat (map fst rs) = drop ?P ?D" using g(3) by simp
    then have ct: "concat (map fst rs) = ?ct @ fd_data (rarg c')" using D g(2) by simp
    have rs: "list_all is_chunk rs" using chunks g(3) by simp
    have lb: "length (contents b) \<le> length T" using assms(3) by simp
    have "length T + length (concat (map snd rs)) = length (concat (map snd ps))" using g(3,4) by simp
    then have "length (contents b) + length (concat (map snd rs)) < 4294967296" using lb bound by simp
    from inflate_range_prefix [OF rs ct this] obtain qs' rs' rest where
      i: "rs = qs' @ rs'" "?ct = concat (map fst qs') @ rest"
        "inflate_range_loop (contents b) ?ct = Some (True, contents b @ concat (map snd qs'), rest)"
        "fd_data (rarg c') = [] \<longrightarrow> rs' = [] \<and> rest = []"
      by blast
    have "length (contents b @ concat (map snd qs')) < 2 ^ 60"
      using lb bound g(3,4) i(1) by simp
    from buffer_extend_contents [OF assms(2) this al] obtain b' where
      b': "buffer_extend al b (contents b @ concat (map snd qs')) = Some b'"
        "contents b' = contents b @ concat (map snd qs')" "buffer_wf b'"
      by blast
    let ?k = "length (concat (map fst qs'))"
    let ?c = "chain_release c' ?k"
    have "length ?ct - length rest = ?k" unfolding i(2) by simp
    then have u: "dzip_inflate_input_update_func al (chain_read_fd_update_func al) b c
        = Some (CHAIN_INCOMPLETE, b', ?c)"
      using p(1) i(3) b'(1) by (simp add: dzip_inflate_input_update_func_def dzip_inflate_range_def)
    have lt: "length (d @ bs) < 2 ^ 59" using fd_in.reads_buffer_size [OF p(2)] by blast
    have k: "?P + ?k \<le> length (d @ bs)"
      using arg_cong [OF i(2), of length] g(2) by simp
    have r: "fd_in.reads al ?D ?c (d @ bs) (?P + ?k)"
      by (rule fd_in.reads_release [OF p(2)]) (use k lt in simp)
    have "inflate_good al ps (T @ concat (map snd qs')) ?c"
      unfolding inflate_good_def
    proof (intro conjI exI)
      show "fd_in.reads al ?D ?c (d @ bs) (length (concat (map fst (qs @ qs'))))" using r by simp
      show "length (concat (map fst (qs @ qs'))) \<le> length (d @ bs)" using k by simp
      show "ps = (qs @ qs') @ rs'" using g(3) i(1) by simp
      show "is_complete ?c \<longrightarrow> rs' = []" using i(4) fin by (simp add: chain_release_def)
    qed (use g(4) chunks bound al in simp_all)
    moreover have "inflate_left ?c < inflate_left c"
    proof -
      have frame: "is_complete ?c = is_complete c'" "rarg ?c = rarg c'"
        "fresh_read ?c = (if ?k \<noteq> 0 then True else fresh_read c')"
        by (simp_all add: chain_release_def)
      have "?P + ?k \<le> length ?D" using k D by simp
      moreover have "is_complete c' \<or> length (fd_data (rarg c')) < length (fd_data (rarg c)) \<or>
          length (fd_data (rarg c')) = length (fd_data (rarg c)) \<and> fresh_read c \<and> \<not> fresh_read c'"
        using p(3) by auto
      ultimately show ?thesis
        unfolding inflate_left_reads [OF r] inflate_left_reads [OF g(1)] frame if_not_P [OF False]
        by (rule inflate_left_step)
    qed
    ultimately show ?thesis
      using u b'(2,3)
      by (intro exI [of _ CHAIN_INCOMPLETE] exI [of _ b'] exI [of _ ?c] exI [of _ "concat (map snd qs')"])
        (simp del: length_concat)
  qed
qed

interpretation inflate_in: chain_source
    "dzip_inflate_input_update_func al (chain_read_fd_update_func al)" "inflate_good al ps"
    "\<lambda>T. T = concat (map snd ps)" inflate_left
proof unfold_locales
  fix T c b h
  assume "inflate_good al ps T c" "buffer_wf b" "T = h @ contents b"
  then show "\<exists>st b' c' bs. dzip_inflate_input_update_func al (chain_read_fd_update_func al) b c
      = Some (st, b', c') \<and> st \<noteq> CHAIN_ERROR \<and>
    contents b' = contents b @ bs \<and> buffer_wf b' \<and> inflate_good al ps (T @ bs) c' \<and>
    (st = CHAIN_INCOMPLETE \<longrightarrow> inflate_left c' < inflate_left c) \<and>
    (st = CHAIN_COMPLETE \<longrightarrow> T @ bs = concat (map snd ps))"
    by (rule inflate_update)
next
  fix T c
  assume "inflate_good al ps T c"
  then show "length T < 2 ^ 59" by (auto simp: inflate_good_def)
qed

interpretation inflate_fd: chain_pipe
    "dzip_inflate_input_update_func al (chain_read_fd_update_func al)" "inflate_good al ps" "inflate_good al ps"
    "\<lambda>T. T = concat (map snd ps)" inflate_left chain_write_fd_update_func sent fd_accepts
  by unfold_locales

section \<open>Properties\<close>

lemma dzip_main_deflate:
  assumes "fd_clean stdin" and "22 * length (fd_data stdin) + 48 < 4294967296"
    and "fd_accepts stdout" and "sent stdout = []" and "\<forall>m < 2 ^ 63. can_alloc al m"
  shows "\<exists>u. dzip_main al True stdin stdout = Some (0, u) \<and> deflates (sent u) (fd_data stdin)"
proof -
  have "fd_in.reads al (fd_data stdin) (chain_read_new stdin) [] 0"
    by (rule fd_in.reads_new) (use assms in \<open>simp add: fd_good_def\<close>)
  moreover have "deflates [] []" by (simp add: deflates_def exI [of _ "[]"])
  ultimately have "deflate_good al (fd_data stdin) [] (chain_read_new stdin, dzip_deflate_state_new)"
    unfolding deflate_good_def using assms(2,5) by (intro conjI exI [of _ "[]"]) simp_all
  from deflate_fd.chain_copy_new [OF this assms(3,4,5), of 1000000] show ?thesis
    by (auto simp: dzip_main_def Let_def chain_read_open_fd_def chain_write_open_fd_def
        dzip_deflate_chain_input_def)
qed

lemma dzip_main_inflate:
  assumes "fd_clean stdin" and "deflates (fd_data stdin) d" and "22 * length d < 4294967296"
    and "fd_accepts stdout" and "sent stdout = []" and "\<forall>m < 2 ^ 63. can_alloc al m"
  shows "\<exists>u. dzip_main al False stdin stdout = Some (0, u) \<and> sent u = d"
proof -
  obtain ps where ps: "fd_data stdin = concat (map fst ps)" "d = concat (map snd ps)"
      "list_all is_chunk ps" "length (fd_data stdin) \<le> 19 * length d"
    using assms(2) by (auto simp: deflates_def)
  have "fd_in.reads al (fd_data stdin) (chain_read_new stdin) [] 0"
    by (rule fd_in.reads_new) (use assms ps(4) in \<open>simp add: fd_good_def\<close>)
  then have "inflate_good al ps [] (chain_read_new stdin)"
    unfolding inflate_good_def using assms(3,6) ps
    by (intro conjI exI [of _ "[]"] exI [of _ ps]) (simp_all add: chain_read_new_def)
  from inflate_fd.chain_copy_new [OF this assms(4,5,6), of 1000000] show ?thesis
    by (auto simp: dzip_main_def Let_def chain_read_open_fd_def chain_write_open_fd_def
        dzip_inflate_chain_input_def ps(2))
qed

text \<open>C3: The program \<open>dzip\<close> and its inverse, which has \<open>-d\<close> anywhere among its arguments: for an
  input below 195 megabytes the compressor exits with 0, and when what it wrote is given to the decompressor, that exits
  with 0 too and writes the original input, however the system cuts the four streams into
  reads and writes.\<close>

theorem dzip_program_roundtrip:
  assumes "fd_clean stdin" and "22 * length (fd_data stdin) + 48 < 4294967296"
    and "fd_accepts stdout" and "sent stdout = []" and "\<forall>m < 2 ^ 63. can_alloc al m"
    and "fd_clean stdin'" and "fd_accepts stdout'" and "sent stdout' = []"
    and "str ''-d'' \<notin> set argv" and "str ''-d'' \<in> set argv'"
  shows "\<exists>u. dzip_program al argv stdin stdout = Some (0, u) \<and>
    (fd_data stdin' = sent u \<longrightarrow>
      (\<exists>v. dzip_program al argv' stdin' stdout' = Some (0, v) \<and> sent v = fd_data stdin))"
proof -
  obtain u where u: "dzip_main al True stdin stdout = Some (0, u)" "deflates (sent u) (fd_data stdin)"
    using dzip_main_deflate [OF assms(1-5)] by blast
  have "\<exists>v. dzip_main al False stdin' stdout' = Some (0, v) \<and> sent v = fd_data stdin"
    if "fd_data stdin' = sent u"
    using dzip_main_inflate [of stdin' "fd_data stdin" stdout' al] that u(2) assms by simp
  with u(1) show ?thesis using assms(9,10) by (simp add: dzip_program_def dzip_options_d)
qed

text \<open>The witness reads what the compressor wrote back one byte at a time.\<close>

lemma fd_bytewise [simp]: "fd_data (map (\<lambda>x. Some [x]) bs) = bs" "fd_clean (map (\<lambda>x. Some [x]) bs)"
  by (induction bs) simp_all

theorem dzip_program_roundtrip_witness:
  "\<exists>u v. dzip_program \<lparr>can_alloc = (\<lambda>_. True), fill = (\<lambda>_. 0)\<rparr> [str ''dzip'']
        [Some (str ''abc''), Some (str ''def'')] \<lparr>accept = [Some 1], sent = []\<rparr> = Some (0, u) \<and>
     dzip_program \<lparr>can_alloc = (\<lambda>_. True), fill = (\<lambda>_. 0)\<rparr> [str ''dzip'', str ''-d'']
        (map (\<lambda>x. Some [x]) (sent u)) \<lparr>accept = [Some 2], sent = []\<rparr> = Some (0, v) \<and>
     sent v = str ''abcdef''"
proof -
  let ?al = "\<lparr>can_alloc = (\<lambda>_. True), fill = (\<lambda>_. 0)\<rparr>"
  let ?in = "[Some (str ''abc''), Some (str ''def'')]" and ?out = "\<lparr>accept = [Some 1], sent = []\<rparr>"
  let ?out' = "\<lparr>accept = [Some 2], sent = []\<rparr>" and ?c = "[str ''dzip'']" and ?d = "[str ''dzip'', str ''-d'']"
  have pre: "fd_clean ?in" "22 * length (fd_data ?in) + 48 < 4294967296" "fd_accepts ?out" "sent ?out = []"
    "\<forall>m < 2 ^ 63. can_alloc ?al m" "fd_accepts ?out'" "sent ?out' = []" "str ''-d'' \<notin> set ?c" "str ''-d'' \<in> set ?d"
    by (simp_all add: str_def fd_accepts_def)
  obtain u where u: "dzip_program ?al ?c ?in ?out = Some (0, u)"
    using dzip_program_roundtrip [OF pre(1-5), of "[]" ?out' ?c ?d] pre(6-9) by auto
  then have "\<exists>v. dzip_program ?al ?d (map (\<lambda>x. Some [x]) (sent u)) ?out' = Some (0, v) \<and>
      sent v = fd_data ?in"
    using dzip_program_roundtrip [OF pre(1-5) _ pre(6-9), of "map (\<lambda>x. Some [x]) (sent u)"] by auto
  with u show ?thesis by (auto simp: str_def)
qed

end
