(* ===== verification/Table.thy ===== *)
theory Table
  imports Prelude "HOL-Library.Multiset"
begin

text \<open>
  The chained hash table of \<open>src/table\<close>, for string keys. A bucket is the list of its
  items in the order of their \<open>next\<close> pointers. Keys are C strings without their
  terminating null byte.
\<close>

section \<open>Data\<close>

datatype 'v table_item = table_item (t_digest: size_t) (t_key: bytes) (t_value: 'v)

datatype 'v table = table (item_count: size_t) (buckets: "'v table_item list list")

definition table_zero :: "'v table" where
  "table_zero = table 0 []"

text \<open>\<open>_table_hash_sdbm_string\<close>: \<open>char\<close> is signed and converted to \<open>table_digest\<close>.\<close>

definition table_hash_sdbm_string :: "bytes \<Rightarrow> size_t" where
  "table_hash_sdbm_string src =
     foldl (\<lambda>digest c. scast c + push_bit 6 digest + push_bit 16 digest - digest) 0 src"

text \<open>
  \<open>table->item_count * 2.71828\<close> is computed in \<open>double\<close> and truncated: an integer is
  rounded to 53 significant bits, half to even, and so is the product with the constant,
  which is \<open>382563899846521 / 2 ^ 47\<close>.
\<close>

fun bit_length :: "nat \<Rightarrow> nat" where
  "bit_length n = (if n = 0 then 0 else Suc (bit_length (n div 2)))"

declare bit_length.simps [simp del]

definition round_half_even :: "nat \<Rightarrow> nat \<Rightarrow> nat" where
  "round_half_even p e =
     (let q = p div 2 ^ e; r = p mod 2 ^ e
      in if 2 ^ e < 2 * r \<or> 2 ^ e = 2 * r \<and> odd q then q + 1 else q)"

definition to_double :: "nat \<Rightarrow> nat" where
  "to_double p = (let e = bit_length p - 53 in round_half_even p e * 2 ^ e)"

definition table_growth :: "size_t \<Rightarrow> nat" where
  "table_growth n = to_double (to_double (unat n) * 382563899846521) div 2 ^ 47"

section \<open>Operations\<close>

text \<open>\<open>table_bucket\<close> divides by the number of buckets; the callers make sure there is one.\<close>

definition table_bucket :: "nat \<Rightarrow> size_t \<Rightarrow> nat" where
  "table_bucket n digest = unat digest mod n"

text \<open>\<open>table_match\<close>: the item of a bucket with the key.\<close>

definition table_match :: "'v table_item list \<Rightarrow> bytes \<Rightarrow> 'v table_item option" where
  "table_match b k = find (\<lambda>it. t_key it = k) b"

text \<open>
  The look-up of the clients: bucket, match, item. \<open>None\<close> is the division by zero on a
  table without buckets.
\<close>

definition table_get :: "'v table \<Rightarrow> bytes \<Rightarrow> 'v table_item option option" where
  "table_get t k =
     (if buckets t = [] then None
      else Some (table_match (buckets t ! table_bucket (length (buckets t)) (table_hash_sdbm_string k)) k))"

definition table_move :: "nat \<Rightarrow> 'v table_item \<Rightarrow> 'v table_item list list \<Rightarrow> 'v table_item list list" where
  "table_move n it bs = bs[table_bucket n (t_digest it) := it # bs ! table_bucket n (t_digest it)]"

definition table_resize :: "'v table \<Rightarrow> nat \<Rightarrow> 'v table" where
  "table_resize t new_size =
     table (item_count t) (fold (table_move new_size) (concat (buckets t)) (replicate new_size []))"

text \<open>
  \<open>_table_string_include\<close> returns the item; \<open>v0\<close> is the value whose bytes are all zero,
  which a new item has.
\<close>

definition table_string_include :: "'v \<Rightarrow> 'v table \<Rightarrow> bytes \<Rightarrow> 'v table \<times> 'v table_item" where
  "table_string_include v0 t k =
     (let t1 = (if 100 * item_count t \<ge> 80 * word_of_nat (length (buckets t))
                then table_resize t (if item_count t \<noteq> 0 then table_growth (item_count t) else 1031)
                else t);
          digest = table_hash_sdbm_string k;
          i = table_bucket (length (buckets t1)) digest
      in case table_match (buckets t1 ! i) k of
           Some it \<Rightarrow> (t1, it)
         | None \<Rightarrow>
             (let it = table_item digest k v0
              in (table (item_count t1 + 1) ((buckets t1)[i := buckets t1 ! i @ [it]]), it)))"

text \<open>An assignment to the value of the item with the key, as clients make it.\<close>

definition table_set :: "'v table \<Rightarrow> bytes \<Rightarrow> 'v \<Rightarrow> 'v table" where
  "table_set t k v =
     table (item_count t)
       (map (map (\<lambda>it. if t_key it = k then table_item (t_digest it) (t_key it) v else it)) (buckets t))"

text \<open>
  \<open>table_delete\<close> unlinks an item from its bucket and does not change \<open>item_count\<close>;
  \<open>None\<close> is the division by zero or the null pointer of a missing item.
\<close>

definition table_delete :: "'v table \<Rightarrow> bytes \<Rightarrow> 'v table option" where
  "table_delete t k =
     (case table_get t k of
        Some (Some it) \<Rightarrow>
          (let i = table_bucket (length (buckets t)) (table_hash_sdbm_string k)
           in Some (table (item_count t)
                ((buckets t)[i := takeWhile (\<lambda>it. t_key it \<noteq> k) (buckets t ! i)
                                  @ tl (dropWhile (\<lambda>it. t_key it \<noteq> k) (buckets t ! i))])))
      | _ \<Rightarrow> None)"

definition table_clear :: "'v table \<Rightarrow> 'v table" where
  "table_clear t = table_zero"

section \<open>Growth\<close>

lemma bit_length_lower: "0 < p \<Longrightarrow> 2 ^ (bit_length p - 1) \<le> p"
proof (induction p rule: bit_length.induct)
  case (1 n)
  show ?case
  proof (cases "n div 2 = 0")
    case True
    then show ?thesis using 1(2) by (simp add: bit_length.simps [of n] bit_length.simps [of 0])
  next
    case False
    have "bit_length (n div 2) = Suc (bit_length (n div 2) - 1)"
      using False by (simp add: bit_length.simps [of "n div 2"])
    then have "(2 :: nat) ^ bit_length (n div 2) = 2 * 2 ^ (bit_length (n div 2) - 1)"
      by (metis power_Suc)
    also have "\<dots> \<le> 2 * (n div 2)" using 1(1) 1(2) False by simp
    finally show ?thesis using 1(2) by (simp add: bit_length.simps [of n])
  qed
qed

lemma round_half_even_ge: "p div 2 ^ e \<le> round_half_even p e"
  by (simp add: round_half_even_def Let_def)

text \<open>Rounding loses less than one part in \<open>2 ^ 52\<close>.\<close>

lemma to_double_ge: "2 ^ 52 * p \<le> 2 ^ 52 * to_double p + p"
proof (cases "bit_length p \<le> 53")
  case True
  then show ?thesis by (simp add: to_double_def round_half_even_def)
next
  case False
  define e where "e = bit_length p - 53"
  have p: "0 < p" using False by (cases p) (simp_all add: bit_length.simps [of 0])
  have "bit_length p - 1 = 52 + e" using False by (simp add: e_def)
  then have e: "2 ^ 52 * 2 ^ e \<le> p" using bit_length_lower [OF p] by (simp add: power_add)
  have "p < (p div 2 ^ e) * 2 ^ e + 2 ^ e"
  proof -
    have "p mod 2 ^ e < 2 ^ e" by simp
    then show ?thesis using div_mult_mod_eq [of p "2 ^ e"] by linarith
  qed
  moreover have "(p div 2 ^ e) * 2 ^ e \<le> to_double p"
    unfolding to_double_def Let_def e_def [symmetric] by (simp add: round_half_even_ge)
  ultimately have "p \<le> to_double p + 2 ^ e" by simp
  then have "2 ^ 52 * p \<le> 2 ^ 52 * to_double p + 2 ^ 52 * 2 ^ e" by (simp add: algebra_simps)
  with e show ?thesis by simp
qed

lemma table_growth_doubles: "2 * unat n \<le> table_growth n"
proof -
  define d where "d = to_double (unat n)"
  define p where "p = d * 382563899846521"
  have "2 ^ 52 * unat n \<le> 2 ^ 52 * d + unat n" unfolding d_def by (rule to_double_ge)
  moreover have "2 ^ 52 * p \<le> 2 ^ 52 * to_double p + p" by (rule to_double_ge)
  ultimately have "2 * unat n * 2 ^ 47 \<le> to_double p" unfolding p_def by simp
  then have "2 * unat n \<le> to_double p div 2 ^ 47" by (simp add: less_eq_div_iff_mult_less_eq)
  then show ?thesis by (simp add: table_growth_def p_def d_def)
qed

lemma to_double_le: "2 ^ 52 * to_double p \<le> 2 ^ 52 * p + p"
proof (cases "bit_length p \<le> 53")
  case True
  then show ?thesis by (simp add: to_double_def round_half_even_def)
next
  case False
  define e where "e = bit_length p - 53"
  have p: "0 < p" using False by (cases p) (simp_all add: bit_length.simps [of 0])
  have "bit_length p - 1 = 52 + e" using False by (simp add: e_def)
  then have e: "2 ^ 52 * 2 ^ e \<le> p" using bit_length_lower [OF p] by (simp add: power_add)
  have "round_half_even p e \<le> p div 2 ^ e + 1" by (simp add: round_half_even_def Let_def)
  then have "round_half_even p e * 2 ^ e \<le> (p div 2 ^ e + 1) * 2 ^ e" by (rule mult_le_mono1)
  also have "\<dots> \<le> p + 2 ^ e" using div_times_less_eq_dividend [of p "2 ^ e"] by simp
  finally have "to_double p \<le> p + 2 ^ e" by (simp add: to_double_def Let_def e_def)
  then have "2 ^ 52 * to_double p \<le> 2 ^ 52 * p + 2 ^ 52 * 2 ^ e" by (simp add: algebra_simps)
  with e show ?thesis by simp
qed

lemma table_growth_triples: "table_growth n \<le> 3 * unat n"
proof -
  define d where "d = to_double (unat n)"
  define p where "p = d * 382563899846521"
  have "2 ^ 52 * d \<le> 2 ^ 52 * unat n + unat n" unfolding d_def by (rule to_double_le)
  moreover have "2 ^ 52 * to_double p \<le> 2 ^ 52 * p + p" by (rule to_double_le)
  ultimately have "to_double p \<le> 3 * unat n * 2 ^ 47" unfolding p_def by simp
  then have "to_double p div 2 ^ 47 \<le> 3 * unat n * 2 ^ 47 div 2 ^ 47" by (rule div_le_mono)
  then show ?thesis by (simp add: table_growth_def p_def d_def)
qed

section \<open>Invariant and abstraction\<close>

definition pairs :: "'v table_item list \<Rightarrow> (bytes \<times> 'v) list" where
  "pairs b = map (\<lambda>it. (t_key it, t_value it)) b"

text \<open>The map that a table stands for.\<close>

definition table_map :: "'v table \<Rightarrow> bytes \<Rightarrow> 'v option" where
  "table_map t = map_of (pairs (concat (buckets t)))"

text \<open>
  Every item is in the bucket of its key's digest, no key occurs twice, and the counter
  bounds the number of items and, up to one, four fifths of the number of buckets.
\<close>

definition table_placed :: "'v table_item list list \<Rightarrow> bool" where
  "table_placed bs \<longleftrightarrow>
     (\<forall>i < length bs. \<forall>it \<in> set (bs ! i).
        t_digest it = table_hash_sdbm_string (t_key it) \<and>
        table_bucket (length bs) (table_hash_sdbm_string (t_key it)) = i)"

definition table_wf :: "'v table \<Rightarrow> bool" where
  "table_wf t \<longleftrightarrow>
     table_placed (buckets t) \<and> distinct (map t_key (concat (buckets t))) \<and>
     length (concat (buckets t)) \<le> unat (item_count t) \<and>
     100 * unat (item_count t) < 80 * length (buckets t) + 100 \<and>
     length (buckets t) < 2 ^ 57"

lemma table_wf_zero [simp]: "table_wf table_zero"
  by (simp add: table_wf_def table_zero_def table_placed_def)

lemma table_map_zero [simp]: "table_map table_zero = Map.empty"
  by (simp add: table_map_def table_zero_def pairs_def)

lemma table_map_iff:
  assumes "distinct (map t_key (concat (buckets t)))"
  shows "table_map t k = Some v \<longleftrightarrow> (\<exists>it \<in> set (concat (buckets t)). t_key it = k \<and> t_value it = v)"
proof -
  have "map fst (pairs (concat (buckets t))) = map t_key (concat (buckets t))" by (simp add: pairs_def)
  then have "distinct (map fst (pairs (concat (buckets t))))" using assms by simp
  then have "table_map t k = Some v \<longleftrightarrow> (k, v) \<in> set (pairs (concat (buckets t)))"
    unfolding table_map_def by (rule map_of_eq_Some_iff)
  then show ?thesis by (auto simp: pairs_def)
qed

text \<open>Tables with the same items stand for the same map.\<close>

lemma table_map_mset:
  assumes "mset (concat (buckets t')) = mset (concat (buckets t))"
    and "distinct (map t_key (concat (buckets t)))"
  shows "table_map t' = table_map t" and "distinct (map t_key (concat (buckets t')))"
proof -
  have "mset (map t_key (concat (buckets t'))) = mset (map t_key (concat (buckets t)))"
    using assms(1) by (metis mset_map)
  then show d: "distinct (map t_key (concat (buckets t')))"
    using assms(2) mset_eq_imp_distinct_iff by blast
  have "set (concat (buckets t')) = set (concat (buckets t))" using assms(1) by (rule mset_eq_setD)
  then have "table_map t' k = Some v \<longleftrightarrow> table_map t k = Some v" for k v
    using table_map_iff [OF d] table_map_iff [OF assms(2)] by blast
  then show "table_map t' = table_map t" by (intro ext) (metis option.exhaust)
qed

lemma mset_concat_update:
  "i < length bs \<Longrightarrow> mset (concat (bs[i := b])) + mset (bs ! i) = mset (concat bs) + mset b"
proof (induction bs arbitrary: i)
  case (Cons a bs)
  then show ?case by (cases i) auto
qed simp

text \<open>An item with the key can only be in the key's bucket.\<close>

lemma table_bucket_less [simp]: "0 < n \<Longrightarrow> table_bucket n d < n"
  by (simp add: table_bucket_def)

lemma table_placedD:
  assumes "table_placed bs" and "i < length bs" and "it \<in> set (bs ! i)"
  shows "t_digest it = table_hash_sdbm_string (t_key it)"
    and "table_bucket (length bs) (table_hash_sdbm_string (t_key it)) = i"
  using assms by (auto simp: table_placed_def)

lemma placed_key_bucket:
  assumes "table_placed bs" and "it \<in> set (concat bs)"
  shows "it \<in> set (bs ! table_bucket (length bs) (table_hash_sdbm_string (t_key it)))"
proof -
  obtain i where i: "i < length bs" "it \<in> set (bs ! i)"
    using assms(2) by (auto simp: in_set_conv_nth [of _ bs])
  then show ?thesis using table_placedD(2) [OF assms(1) i] by simp
qed

text \<open>A bucket can be replaced by one whose items belong there.\<close>

lemma table_placed_update:
  assumes "table_placed bs"
    and "\<And>it. it \<in> set b \<Longrightarrow> t_digest it = table_hash_sdbm_string (t_key it) \<and>
      table_bucket (length bs) (table_hash_sdbm_string (t_key it)) = i"
  shows "table_placed (bs[i := b])"
  unfolding table_placed_def
proof (intro allI impI ballI)
  fix j it
  assume "j < length (bs[i := b])" and "it \<in> set (bs[i := b] ! j)"
  then have "j < length bs \<and> (it \<in> set (bs ! j) \<or> j = i \<and> it \<in> set b)"
    by (cases "i = j") auto
  then show "t_digest it = table_hash_sdbm_string (t_key it) \<and>
      table_bucket (length (bs[i := b])) (table_hash_sdbm_string (t_key it)) = j"
    using table_placedD [OF assms(1)] assms(2) by auto
qed

lemma table_match_Some: "table_match b k = Some it \<Longrightarrow> it \<in> set b \<and> t_key it = k"
  by (auto simp: table_match_def find_Some_iff)

lemma table_match_None: "table_match b k = None \<longleftrightarrow> (\<forall>it \<in> set b. t_key it \<noteq> k)"
  by (auto simp: table_match_def find_None_iff)

lemma table_match_map:
  assumes "table_placed (buckets t)" and "distinct (map t_key (concat (buckets t)))" and "buckets t \<noteq> []"
  shows "map_option t_value
      (table_match (buckets t ! table_bucket (length (buckets t)) (table_hash_sdbm_string k)) k)
    = table_map t k"
proof (cases "table_match (buckets t ! table_bucket (length (buckets t)) (table_hash_sdbm_string k)) k")
  case None
  then have "t_key it \<noteq> k" if "it \<in> set (concat (buckets t))" for it
    using placed_key_bucket [OF assms(1) that] by (auto simp: table_match_None)
  then have "table_map t k \<noteq> Some v" for v using table_map_iff [OF assms(2)] by blast
  then show ?thesis using None by (metis map_option_is_None not_None_eq)
next
  case (Some it)
  have "table_bucket (length (buckets t)) (table_hash_sdbm_string k) < length (buckets t)"
    using assms(3) by simp
  then have "it \<in> set (concat (buckets t))" "t_key it = k"
    using table_match_Some [OF Some] by (auto intro: nth_mem)
  then show ?thesis using Some table_map_iff [OF assms(2)] by (metis option.simps(9))
qed

lemma table_get_map:
  assumes "table_wf t" and "buckets t \<noteq> []"
  shows "\<exists>r. table_get t k = Some r \<and> map_option t_value r = table_map t k"
  using assms table_match_map by (auto simp: table_get_def table_wf_def)

section \<open>Resizing\<close>

lemma table_move_fold:
  assumes "length bs = n" and "0 < n"
    and "\<forall>it \<in> set its. t_digest it = table_hash_sdbm_string (t_key it)" and "table_placed bs"
  shows "length (fold (table_move n) its bs) = n \<and> table_placed (fold (table_move n) its bs) \<and>
    mset (concat (fold (table_move n) its bs)) = mset (concat bs) + mset its"
  using assms
proof (induction its arbitrary: bs)
  case (Cons it its)
  let ?i = "table_bucket n (t_digest it)" and ?bs = "table_move n it bs"
  have i: "?i < length bs" using Cons.prems by simp
  have "mset (concat ?bs) + mset (bs ! ?i) = mset (concat bs) + mset (it # bs ! ?i)"
    unfolding table_move_def using i by (rule mset_concat_update)
  then have m: "mset (concat ?bs) = mset (concat bs) + {#it#}" by simp
  have "table_placed ?bs"
    unfolding table_move_def
  proof (rule table_placed_update [OF Cons.prems(4)])
    fix it'
    assume "it' \<in> set (it # bs ! ?i)"
    then show "t_digest it' = table_hash_sdbm_string (t_key it') \<and>
        table_bucket (length bs) (table_hash_sdbm_string (t_key it')) = ?i"
      using Cons.prems(1,3) table_placedD [OF Cons.prems(4) i] by auto
  qed
  moreover have "length ?bs = n" using Cons.prems(1) by (simp add: table_move_def)
  ultimately show ?case using Cons.IH [of ?bs] Cons.prems(2,3) m by simp
qed simp

lemma table_resize_spec:
  assumes "0 < n" and "table_placed (buckets t)" and "distinct (map t_key (concat (buckets t)))"
  shows "length (buckets (table_resize t n)) = n" and "table_placed (buckets (table_resize t n))"
    and "mset (concat (buckets (table_resize t n))) = mset (concat (buckets t))"
    and "table_map (table_resize t n) = table_map t"
    and "distinct (map t_key (concat (buckets (table_resize t n))))"
    and "item_count (table_resize t n) = item_count t"
proof -
  have d: "\<forall>it \<in> set (concat (buckets t)). t_digest it = table_hash_sdbm_string (t_key it)"
    using assms(2) by (auto simp: table_placed_def in_set_conv_nth [of _ "buckets t"])
  have empty: "table_placed (replicate n [])" "concat (replicate n []) = ([] :: 'a table_item list)"
    by (simp_all add: table_placed_def)
  note m = table_move_fold [OF length_replicate assms(1) d empty(1)]
  then show "length (buckets (table_resize t n)) = n" "table_placed (buckets (table_resize t n))"
    and ms: "mset (concat (buckets (table_resize t n))) = mset (concat (buckets t))"
    using empty(2) by (simp_all add: table_resize_def)
  show "table_map (table_resize t n) = table_map t"
    "distinct (map t_key (concat (buckets (table_resize t n))))"
    using table_map_mset [OF ms assms(3)] by simp_all
  show "item_count (table_resize t n) = item_count t" by (simp add: table_resize_def)
qed

section \<open>Including and deleting\<close>

text \<open>The table after the resize that an include may make: as before, with a bucket.\<close>

definition table_grow :: "'v table \<Rightarrow> 'v table" where
  "table_grow t =
     (if 100 * item_count t \<ge> 80 * word_of_nat (length (buckets t))
      then table_resize t (if item_count t \<noteq> 0 then table_growth (item_count t) else 1031)
      else t)"

lemma unat_small_mult: "k * n < 2 ^ 64 \<Longrightarrow> unat (word_of_nat k * word_of_nat n :: size_t) = k * n"
  by (simp add: unat_of_nat flip: of_nat_mult)

lemma table_grow_spec:
  assumes "table_wf t" and "unat (item_count t) < 2 ^ 50"
  shows "table_placed (buckets (table_grow t))" and "table_map (table_grow t) = table_map t"
    and "distinct (map t_key (concat (buckets (table_grow t))))"
    and "item_count (table_grow t) = item_count t"
    and "length (concat (buckets (table_grow t))) \<le> unat (item_count t)"
    and "100 * unat (item_count t) < 80 * length (buckets (table_grow t))"
    and "length (buckets (table_grow t)) < 2 ^ 57"
proof -
  let ?n = "unat (item_count t)" and ?new = "if item_count t \<noteq> 0 then table_growth (item_count t) else 1031"
  have "unat (100 * item_count t :: size_t) = 100 * ?n"
    using unat_small_mult [of 100 ?n] assms(2) by simp
  moreover have "unat (80 * word_of_nat (length (buckets t)) :: size_t) = 80 * length (buckets t)"
    using unat_small_mult [of 80 "length (buckets t)"] assms(1) by (simp add: table_wf_def)
  ultimately have full: "80 * word_of_nat (length (buckets t)) \<le> 100 * item_count t \<longleftrightarrow>
      80 * length (buckets t) \<le> 100 * ?n"
    by (simp add: word_le_nat_alt)
  have new: "100 * ?n < 80 * ?new"
  proof (cases "item_count t = 0")
    case False
    then have "0 < ?n" by (simp add: unat_gt_0)
    then show ?thesis using False table_growth_doubles [of "item_count t"] by simp
  qed simp
  then have "0 < ?new" by (cases ?new) simp_all
  note r = table_resize_spec [OF this, of t]
  have wf: "table_placed (buckets t)" "distinct (map t_key (concat (buckets t)))"
      "length (concat (buckets t)) \<le> ?n"
    using assms(1) by (simp_all add: table_wf_def)
  have "length (concat (buckets (table_resize t ?new))) = length (concat (buckets t))"
    using r(3) [OF wf(1,2)] by (metis size_mset)
  then show "table_placed (buckets (table_grow t))" "table_map (table_grow t) = table_map t"
    "distinct (map t_key (concat (buckets (table_grow t))))"
    "item_count (table_grow t) = item_count t"
    "length (concat (buckets (table_grow t))) \<le> ?n"
    "100 * ?n < 80 * length (buckets (table_grow t))"
    "length (buckets (table_grow t)) < 2 ^ 57"
    using table_growth_triples [of "item_count t"] assms r [OF wf(1,2)] wf full new unfolding table_grow_def by (simp_all add: table_wf_def split: if_split)
qed

lemma table_string_include_grow:
  "table_string_include v0 t k =
     (let t1 = table_grow t; i = table_bucket (length (buckets t1)) (table_hash_sdbm_string k)
      in case table_match (buckets t1 ! i) k of
           Some it \<Rightarrow> (t1, it)
         | None \<Rightarrow>
             (let it = table_item (table_hash_sdbm_string k) k v0
              in (table (item_count t1 + 1) ((buckets t1)[i := buckets t1 ! i @ [it]]), it)))"
  unfolding table_string_include_def table_grow_def Let_def by (rule refl)

text \<open>Adding an item at the end of its bucket.\<close>

lemma table_append_spec:
  fixes t :: "'v table" and c :: size_t and v :: 'v
  assumes "table_placed (buckets t)" and "distinct (map t_key (concat (buckets t)))"
    and "buckets t \<noteq> []" and "table_map t k = None"
  defines "i \<equiv> table_bucket (length (buckets t)) (table_hash_sdbm_string k)"
    and "it \<equiv> table_item (table_hash_sdbm_string k) k v"
  defines "t' \<equiv> table c ((buckets t)[i := buckets t ! i @ [it]])"
  shows "table_placed (buckets t')" and "distinct (map t_key (concat (buckets t')))"
    and "length (concat (buckets t')) = Suc (length (concat (buckets t)))"
    and "table_map t' = (table_map t)(k \<mapsto> v)"
proof -
  have i: "i < length (buckets t)" using assms(3) by (simp add: i_def)
  have "mset (concat (buckets t')) + mset (buckets t ! i)
      = mset (concat (buckets t)) + mset (buckets t ! i @ [it])"
    unfolding t'_def table.sel using i by (rule mset_concat_update)
  then have m: "mset (concat (buckets t')) = mset (it # concat (buckets t))" by simp
  then show "length (concat (buckets t')) = Suc (length (concat (buckets t)))"
    by (metis size_mset length_Cons)
  have notin: "k \<notin> t_key ` set (concat (buckets t))"
    using assms(4) table_map_iff [OF assms(2)] by force
  then have "distinct (map t_key (it # concat (buckets t)))" using assms(2) by (simp add: it_def)
  then show d: "distinct (map t_key (concat (buckets t')))"
    using m by (metis mset_eq_imp_distinct_iff mset_map)
  have "set (concat (buckets t')) = insert it (set (concat (buckets t)))"
    using mset_eq_setD [OF m] by simp
  then have "table_map t' k' = Some v' \<longleftrightarrow> ((table_map t)(k \<mapsto> v)) k' = Some v'" for k' v'
    unfolding table_map_iff [OF d] fun_upd_apply using notin table_map_iff [OF assms(2), of k' v']
    by (cases "k' = k") (auto simp: it_def simp del: set_concat)
  then show "table_map t' = (table_map t)(k \<mapsto> v)" by (intro ext) (metis option.exhaust)
  show "table_placed (buckets t')"
    unfolding t'_def table.sel
  proof (rule table_placed_update [OF assms(1)])
    fix it'
    assume "it' \<in> set (buckets t ! i @ [it])"
    then show "t_digest it' = table_hash_sdbm_string (t_key it') \<and>
        table_bucket (length (buckets t)) (table_hash_sdbm_string (t_key it')) = i"
      using table_placedD [OF assms(1) i] by (auto simp: it_def i_def)
  qed
qed

lemma table_string_include_spec:
  assumes "table_wf t" and "unat (item_count t) < 2 ^ 50"
  shows "case table_string_include v0 t k of (t', it) \<Rightarrow>
    table_wf t' \<and> buckets t' \<noteq> [] \<and> t_key it = k \<and> table_map t' k = Some (t_value it) \<and>
    table_map t' = (if table_map t k = None then (table_map t)(k \<mapsto> v0) else table_map t) \<and>
    unat (item_count t') \<le> unat (item_count t) + 1"
proof -
  note g = table_grow_spec [OF assms]
  let ?t = "table_grow t"
  let ?i = "table_bucket (length (buckets ?t)) (table_hash_sdbm_string k)"
  have ne: "buckets ?t \<noteq> []" using g(6) by auto
  have match: "map_option t_value (table_match (buckets ?t ! ?i) k) = table_map t k"
    using table_match_map [OF g(1,3) ne, of k] g(2) by simp
  show ?thesis
  proof (cases "table_match (buckets ?t ! ?i) k")
    case (Some it)
    have "table_wf ?t"
      using g by (simp add: table_wf_def)
    then show ?thesis
      using Some match ne g(2,4) table_match_Some [OF Some]
      by (auto simp: table_string_include_grow Let_def)
  next
    case None
    define it where "it = table_item (table_hash_sdbm_string k) k v0"
    define t' where "t' = table (item_count ?t + 1) ((buckets ?t)[?i := buckets ?t ! ?i @ [it]])"
    have fresh: "table_map ?t k = None" using None match g(2) by simp
    note a = table_append_spec [OF g(1,3) ne fresh, of "item_count ?t + 1" v0, folded it_def t'_def]
    have ic: "unat (item_count ?t + 1) = unat (item_count t) + 1"
      using assms(2) g(4) by (simp add: unat_word_ariths)
    have "table_wf t'"
      unfolding table_wf_def
      using a(1,2,3) g ic by (simp add: t'_def)
    moreover have "table_string_include v0 t k = (t', it)"
      using None by (simp add: table_string_include_grow Let_def it_def t'_def)
    ultimately show ?thesis
      using a(4) fresh g(2) ic ne by (simp add: t'_def it_def)
  qed
qed

lemma table_set_map:
  assumes "table_map t k \<noteq> None"
  shows "table_map (table_set t k v) = (table_map t)(k \<mapsto> v)"
proof -
  define f where "f = (\<lambda>it. if t_key it = k then table_item (t_digest it) (t_key it) v else it)"
  have c: "concat (map (map f) bs) = map f (concat bs)" for bs by (induction bs) simp_all
  have "map_of (pairs (map f b)) k' = (if k' = k \<and> map_of (pairs b) k \<noteq> None then Some v
      else map_of (pairs b) k')" for b k'
    by (induction b) (auto simp: pairs_def f_def)
  then show ?thesis
    using assms c [of "buckets t"] by (auto simp: table_map_def table_set_def f_def [symmetric])
qed

lemma table_set_count: "item_count (table_set t k v) = item_count t"
  by (simp add: table_set_def)

lemma table_set_wf: "table_wf t \<Longrightarrow> table_wf (table_set t k v)"
proof -
  assume wf: "table_wf t"
  define f where "f = (\<lambda>it. if t_key it = k then table_item (t_digest it) (t_key it) v else it)"
  have f: "t_key (f it) = t_key it" "t_digest (f it) = t_digest it" for it by (simp_all add: f_def)
  have c: "concat (map (map f) bs) = map f (concat bs)" for bs by (induction bs) simp_all
  have k: "map t_key (map f its) = map t_key its" for its by (simp add: f(1))
  show ?thesis
    using wf unfolding table_wf_def table_set_def f_def [symmetric] table.sel c k
    by (auto simp: table_placed_def f)
qed

lemma table_delete_spec:
  assumes "table_wf t" and "table_map t k \<noteq> None"
  shows "\<exists>t'. table_delete t k = Some t' \<and> table_wf t' \<and> table_map t' = (table_map t)(k := None) \<and>
    item_count t' = item_count t"
proof -
  have wf: "table_placed (buckets t)" "distinct (map t_key (concat (buckets t)))"
    using assms(1) by (simp_all add: table_wf_def)
  have ne: "buckets t \<noteq> []" using assms(2) by (auto simp: table_map_def pairs_def)
  let ?i = "table_bucket (length (buckets t)) (table_hash_sdbm_string k)"
  let ?b = "buckets t ! ?i"
  have i: "?i < length (buckets t)" using ne by simp
  obtain it where m: "table_match ?b k = Some it"
    using table_match_map [OF wf ne, of k] assms(2) by (cases "table_match ?b k") auto
  have itk: "t_key it = k" "it \<in> set ?b" using table_match_Some [OF m] by simp_all
  define b' where "b' = takeWhile (\<lambda>it. t_key it \<noteq> k) ?b @ tl (dropWhile (\<lambda>it. t_key it \<noteq> k) ?b)"
  define t' where "t' = table (item_count t) ((buckets t)[?i := b'])"
  have del: "table_delete t k = Some t'"
    using m ne by (simp add: table_delete_def table_get_def t'_def b'_def Let_def)
  have "dropWhile (\<lambda>it. t_key it \<noteq> k) ?b \<noteq> []" using itk by (auto simp: dropWhile_eq_Nil_conv)
  then obtain x rest where x: "dropWhile (\<lambda>it. t_key it \<noteq> k) ?b = x # rest" "t_key x = k"
    using hd_dropWhile [of "\<lambda>it. t_key it \<noteq> k" ?b] by (cases "dropWhile (\<lambda>it. t_key it \<noteq> k) ?b") auto
  have "?b = takeWhile (\<lambda>it. t_key it \<noteq> k) ?b @ x # rest"
    using takeWhile_dropWhile_id [of "\<lambda>it. t_key it \<noteq> k" ?b] x(1) by simp
  then have "mset ?b = mset (takeWhile (\<lambda>it. t_key it \<noteq> k) ?b @ x # rest)" by (rule arg_cong)
  then have "mset ?b = mset (x # b')" by (simp add: b'_def x(1))
  moreover have "mset (concat (buckets t')) + mset ?b = mset (concat (buckets t)) + mset b'"
    unfolding t'_def table.sel using i by (rule mset_concat_update)
  ultimately have ms: "mset (concat (buckets t)) = mset (x # concat (buckets t'))" by simp
  have "distinct (map t_key (x # concat (buckets t')))"
    using wf(2) ms by (metis mset_eq_imp_distinct_iff mset_map)
  then have d: "distinct (map t_key (concat (buckets t')))" by simp
  have notin: "t_key it \<noteq> k" if "it \<in> set (concat (buckets t'))" for it
    using \<open>distinct (map t_key (x # concat (buckets t')))\<close> x(2) imageI [OF that, of t_key] by auto
  have "set (concat (buckets t)) = insert x (set (concat (buckets t')))"
    using mset_eq_setD [OF ms] by simp
  then have "table_map t' k' = Some v \<longleftrightarrow> ((table_map t)(k := None)) k' = Some v" for k' v
    unfolding table_map_iff [OF d(1)] fun_upd_apply using x(2) table_map_iff [OF wf(2), of k' v] notin
    by (cases "k' = k") (auto simp del: set_concat)
  then have map: "table_map t' = (table_map t)(k := None)" by (intro ext) (metis option.exhaust)
  have "set b' \<subseteq> set ?b"
    using \<open>mset ?b = mset (x # b')\<close> by (metis mset_eq_setD set_subset_Cons)
  then have "table_placed (buckets t')"
    unfolding t'_def table.sel
    by (intro table_placed_update [OF wf(1)]) (use table_placedD [OF wf(1) i] in blast)
  moreover have "length (concat (buckets t)) = Suc (length (concat (buckets t')))"
    using ms by (metis size_mset length_Cons)
  ultimately have "table_wf t'" using assms(1) d(1) by (simp add: table_wf_def t'_def)
  then show ?thesis using del map by (simp add: t'_def)
qed

section \<open>The contract of a string table\<close>

text \<open>
  What the clients of the table rely on: including a key keeps the entries, adds a missing
  one with the zero value and returns the entry; assignment and deletion change one key;
  \<open>count\<close> bounds how often keys can still be included.
\<close>

locale string_table =
  fixes empty :: "'t"
    and view :: "'t \<Rightarrow> bytes \<Rightarrow> 'v option"
    and incl :: "'t \<Rightarrow> bytes \<Rightarrow> 't"
    and set_value :: "'t \<Rightarrow> bytes \<Rightarrow> 'v \<Rightarrow> 't"
    and count :: "'t \<Rightarrow> nat"
    and inv :: "'t \<Rightarrow> bool"
    and zero :: 'v
    and limit :: nat
  assumes empty_law: "inv empty \<and> view empty = Map.empty \<and> count empty = 0"
    and include_law: "inv t \<Longrightarrow> count t < limit \<Longrightarrow>
      inv (incl t k) \<and> count (incl t k) \<le> count t + 1 \<and>
      view (incl t k) = (if view t k = None then (view t)(k \<mapsto> zero) else view t)"
    and set_law: "inv t \<Longrightarrow> view t k \<noteq> None \<Longrightarrow>
      inv (set_value t k v) \<and> count (set_value t k v) = count t \<and>
      view (set_value t k v) = (view t)(k \<mapsto> v)"
begin

definition put :: "'t \<Rightarrow> bytes \<Rightarrow> 'v \<Rightarrow> 't" where
  "put t k v = set_value (incl t k) k v"

lemma put_view:
  assumes "inv t" and "count t < limit"
  shows "inv (put t k v) \<and> count (put t k v) \<le> count t + 1 \<and> view (put t k v) = (view t)(k \<mapsto> v)"
proof -
  have i: "inv (incl t k)" "count (incl t k) \<le> count t + 1"
    "view (incl t k) = (if view t k = None then (view t)(k \<mapsto> zero) else view t)"
    using include_law [OF assms] by simp_all
  then have "view (incl t k) k \<noteq> None" by (simp split: if_splits)
  from set_law [OF i(1) this, of v] i show ?thesis by (auto simp: put_def split: if_splits)
qed

text \<open>Storing entries one after the other: the last value of a key wins.\<close>

lemma put_all_view:
  "inv t \<Longrightarrow> count t + length kvs \<le> limit \<Longrightarrow>
     inv (fold (\<lambda>(k, v) t. put t k v) kvs t) \<and>
     count (fold (\<lambda>(k, v) t. put t k v) kvs t) \<le> count t + length kvs \<and>
     view (fold (\<lambda>(k, v) t. put t k v) kvs t) = view t ++ map_of (rev kvs)"
proof (induction kvs arbitrary: t)
  case (Cons kv kvs)
  obtain k v where kv: "kv = (k, v)" by (cases kv)
  have p: "inv (put t k v)" "count (put t k v) \<le> count t + 1" "view (put t k v) = (view t)(k \<mapsto> v)"
    using put_view [of t k v] Cons.prems by simp_all
  have c: "fold (\<lambda>(k, v) t. put t k v) (kv # kvs) t = fold (\<lambda>(k, v) t. put t k v) kvs (put t k v)"
    by (simp add: kv)
  have "count (put t k v) + length kvs \<le> limit" using p(2) Cons.prems(2) by simp
  note IH = Cons.IH [OF p(1) this]
  have "view (fold (\<lambda>(k, v) t. put t k v) kvs (put t k v)) = (view t)(k \<mapsto> v) ++ map_of (rev kvs)"
    using IH unfolding p(3) by (elim conjE)
  also have "\<dots> = view t ++ map_of (rev (kv # kvs))" by (simp add: kv)
  finally show ?case unfolding c using IH p(2) by simp
qed simp

end

interpretation tab: string_table table_zero table_map "\<lambda>t k. fst (table_string_include v0 t k)" table_set
    "\<lambda>t. unat (item_count t)" table_wf v0 "2 ^ 50"
proof unfold_locales
  show "table_wf table_zero \<and> table_map table_zero = Map.empty \<and> unat (item_count table_zero) = 0"
    by (simp add: table_zero_def [symmetric]) (simp add: table_zero_def)
next
  fix t :: "'a table" and k
  assume "table_wf t" "unat (item_count t) < 2 ^ 50"
  from table_string_include_spec [OF this, of k v0]
  show "table_wf (fst (table_string_include v0 t k)) \<and>
      unat (item_count (fst (table_string_include v0 t k))) \<le> unat (item_count t) + 1 \<and>
      table_map (fst (table_string_include v0 t k))
        = (if table_map t k = None then (table_map t)(k \<mapsto> v0) else table_map t)"
    by (simp add: split_beta)
next
  fix t :: "'a table" and k v
  assume "table_wf t" "table_map t k \<noteq> None"
  then show "table_wf (table_set t k v) \<and> unat (item_count (table_set t k v)) = unat (item_count t) \<and>
      table_map (table_set t k v) = (table_map t)(k \<mapsto> v)"
    using table_set_wf [of t k v] table_set_map [of t k v] by (simp add: table_set_count)
qed

section \<open>Immutable strings\<close>

text \<open>
  \<open>src/immutable/immutable.c\<close>: equal strings are stored once and have the same pointer. A
  pointer to a stored key is modelled by the number of its allocation; the namespace counts
  the allocations of keys and records in the item's value the one that made its key. (The
  table's value type is empty in C.) The mutex excludes other threads during the operation.
\<close>

record immutable_namespace =
  ns_table :: "nat table"
  ns_next :: nat

definition immutable_namespace_zero :: immutable_namespace where
  "immutable_namespace_zero = \<lparr>ns_table = table_zero, ns_next = 0\<rparr>"

definition immutable_string :: "immutable_namespace \<Rightarrow> bytes \<Rightarrow> immutable_namespace \<times> nat" where
  "immutable_string ns input =
     (case table_string_include (ns_next ns) (ns_table ns) input of
        (t', it) \<Rightarrow>
          (ns\<lparr>ns_table := t',
              ns_next := (if t_value it = ns_next ns then Suc (ns_next ns) else ns_next ns)\<rparr>,
           t_value it))"

text \<open>\<open>immutable_path\<close>: \<open>resolved\<close> is what \<open>realpath\<close> returns, \<open>None\<close> when it fails.\<close>

definition immutable_path :: "immutable_namespace \<Rightarrow> bytes option \<Rightarrow> immutable_namespace \<times> nat" where
  "immutable_path ns resolved =
     (case resolved of Some r \<Rightarrow> immutable_string ns r | None \<Rightarrow> immutable_string ns [])"

text \<open>Interning a sequence of strings.\<close>

fun immutable_strings :: "immutable_namespace \<Rightarrow> bytes list \<Rightarrow> immutable_namespace \<times> nat list" where
  "immutable_strings ns [] = (ns, [])"
| "immutable_strings ns (s # ss) =
     (case immutable_string ns s of (ns1, p) \<Rightarrow>
        case immutable_strings ns1 ss of (ns2, ps) \<Rightarrow> (ns2, p # ps))"

definition ns_ok :: "immutable_namespace \<Rightarrow> bool" where
  "ns_ok ns \<longleftrightarrow>
     table_wf (ns_table ns) \<and> inj_on (table_map (ns_table ns)) (dom (table_map (ns_table ns))) \<and>
     (\<forall>k p. table_map (ns_table ns) k = Some p \<longrightarrow> p < ns_next ns)"

lemma ns_ok_zero [simp]: "ns_ok immutable_namespace_zero"
  by (simp add: ns_ok_def immutable_namespace_zero_def)

lemma immutable_string_spec:
  assumes "ns_ok ns" and "unat (item_count (ns_table ns)) < 2 ^ 50"
  shows "case immutable_string ns s of (ns', p) \<Rightarrow>
    ns_ok ns' \<and> table_map (ns_table ns') s = Some p \<and>
    table_map (ns_table ns) \<subseteq>\<^sub>m table_map (ns_table ns') \<and>
    unat (item_count (ns_table ns')) \<le> unat (item_count (ns_table ns)) + 1"
proof -
  have wf: "table_wf (ns_table ns)" and inj: "inj_on (table_map (ns_table ns)) (dom (table_map (ns_table ns)))"
    and lt: "\<forall>k p. table_map (ns_table ns) k = Some p \<longrightarrow> p < ns_next ns"
    using assms(1) by (simp_all add: ns_ok_def)
  obtain t' it where inc: "table_string_include (ns_next ns) (ns_table ns) s = (t', it)" by fastforce
  note spec = table_string_include_spec [OF wf assms(2), of s "ns_next ns", unfolded inc prod.case]
  note t' = spec [THEN conjunct1] spec [THEN conjunct2, THEN conjunct2, THEN conjunct2, THEN conjunct1]
    spec [THEN conjunct2, THEN conjunct2, THEN conjunct2, THEN conjunct2, THEN conjunct1]
    spec [THEN conjunct2, THEN conjunct2, THEN conjunct2, THEN conjunct2, THEN conjunct2]
  show ?thesis
  proof (cases "table_map (ns_table ns) s")
    case None
    then have m: "table_map t' = (table_map (ns_table ns))(s \<mapsto> ns_next ns)" "t_value it = ns_next ns"
      using t'(2,3) by simp_all
    have "inj_on (table_map t') (dom (table_map t'))"
      using inj lt None unfolding m(1) inj_on_def by (auto split: if_splits) (metis less_irrefl)+
    moreover have "\<forall>k p. table_map t' k = Some p \<longrightarrow> p < Suc (ns_next ns)"
      using lt unfolding m(1) by (auto simp: less_Suc_eq)
    ultimately show ?thesis
      using t' m None by (auto simp: immutable_string_def inc ns_ok_def map_le_def)
  next
    case (Some p)
    moreover have "p < ns_next ns" using lt Some by blast
    ultimately have "table_map t' = table_map (ns_table ns)" "t_value it = p" "p \<noteq> ns_next ns"
      using t'(2,3) by simp_all
    then show ?thesis
      using t'(1,4) inj lt Some by (simp add: immutable_string_def inc ns_ok_def)
  qed
qed

lemma immutable_strings_spec:
  assumes "ns_ok ns" and "unat (item_count (ns_table ns)) + length ss \<le> 2 ^ 50"
  shows "case immutable_strings ns ss of (ns', ps) \<Rightarrow>
    ns_ok ns' \<and> table_map (ns_table ns) \<subseteq>\<^sub>m table_map (ns_table ns') \<and>
    map Some ps = map (table_map (ns_table ns')) ss"
  using assms
proof (induction ss arbitrary: ns)
  case Nil
  then show ?case by simp
next
  case (Cons s ss)
  obtain ns1 p where 1: "immutable_string ns s = (ns1, p)" by fastforce
  have "unat (item_count (ns_table ns)) < 2 ^ 50" using Cons.prems(2) by simp
  from immutable_string_spec [OF Cons.prems(1) this, of s] have s1: "ns_ok ns1"
    "table_map (ns_table ns1) s = Some p" "table_map (ns_table ns) \<subseteq>\<^sub>m table_map (ns_table ns1)"
    "unat (item_count (ns_table ns1)) \<le> unat (item_count (ns_table ns)) + 1"
    unfolding 1 by simp_all
  obtain ns2 ps where 2: "immutable_strings ns1 ss = (ns2, ps)" by fastforce
  have "unat (item_count (ns_table ns1)) + length ss \<le> 2 ^ 50" using s1(4) Cons.prems(2) by simp
  from Cons.IH [OF s1(1) this] have s2: "ns_ok ns2"
    "table_map (ns_table ns1) \<subseteq>\<^sub>m table_map (ns_table ns2)"
    "map Some ps = map (table_map (ns_table ns2)) ss"
    unfolding 2 by simp_all
  have "table_map (ns_table ns2) s = Some p"
    using s1(2) s2(2) by (metis domI map_le_def)
  then show ?case using 1 2 s1(3) s2 map_le_trans by auto
qed

section \<open>Histories\<close>

text \<open>What a client does to a table: one step of its history.\<close>

inductive table_step :: "'v table \<Rightarrow> 'v table \<Rightarrow> bool" where
  step_include: "unat (item_count t) < 2 ^ 50 \<Longrightarrow> table_step t (fst (table_string_include v0 t k))"
| step_set: "table_step t (table_set t k v)"
| step_delete: "table_delete t k = Some t' \<Longrightarrow> table_step t t'"
| step_clear: "table_step t (table_clear t)"

lemma table_delete_present:
  assumes "table_wf t" and "table_delete t k = Some t'"
  shows "table_map t k \<noteq> None"
proof -
  obtain it where it: "table_get t k = Some (Some it)"
    using assms(2) by (auto simp: table_delete_def split: option.splits)
  then have "buckets t \<noteq> []" by (auto simp: table_get_def)
  then show ?thesis using table_get_map [OF assms(1), of k] it by (metis option.inject option.map_disc_iff option.simps(3))
qed

lemma table_step_wf:
  assumes "table_step t t'" and "table_wf t"
  shows "table_wf t'"
  using assms(1)
proof cases
  case (step_include v0 k)
  then show ?thesis using table_string_include_spec [OF assms(2), of k v0] by (auto split: prod.splits)
next
  case (step_set k v)
  then show ?thesis using table_set_wf [OF assms(2)] by simp
next
  case (step_delete k)
  then show ?thesis
    using table_delete_spec [OF assms(2) table_delete_present [OF assms(2) step_delete]] by auto
next
  case step_clear
  then show ?thesis by (simp add: table_clear_def)
qed

section \<open>Properties\<close>

text \<open>C14: Including a key into a table, which may move every item into a larger array of
  buckets first, refines the update of a map: the entries stay, a missing key is added with
  the zero value, the returned item is the key's entry, and the invariant is kept, so a table
  never has more items than buckets.\<close>

theorem table_include_refines:
  assumes "table_wf t" and "unat (item_count t) < 2 ^ 50"
  shows "case table_string_include v0 t k of (t', it) \<Rightarrow>
    table_wf t' \<and> t_key it = k \<and> table_map t' k = Some (t_value it) \<and>
    table_map t' = (if table_map t k = None then (table_map t)(k \<mapsto> v0) else table_map t) \<and>
    length (concat (buckets t')) \<le> length (buckets t')"
proof -
  obtain t' it where inc: "table_string_include v0 t k = (t', it)" by fastforce
  have "table_wf t' \<and> buckets t' \<noteq> [] \<and> t_key it = k \<and> table_map t' k = Some (t_value it) \<and>
      table_map t' = (if table_map t k = None then (table_map t)(k \<mapsto> v0) else table_map t)"
    using table_string_include_spec [OF assms, of k v0] unfolding inc prod.case by blast
  moreover from this have "length (concat (buckets t')) \<le> length (buckets t')"
    unfolding table_wf_def by linarith
  ultimately show ?thesis unfolding inc prod.case by blast
qed

theorem table_include_refines_witness:
  "case table_string_include (0 :: nat) table_zero (str ''key'') of (t', it) \<Rightarrow>
    table_wf t' \<and> t_key it = str ''key'' \<and> table_map t' (str ''key'') = Some (t_value it) \<and>
    table_map t' = [str ''key'' \<mapsto> 0] \<and> length (concat (buckets t')) \<le> length (buckets t')"
proof -
  have "unat (item_count (table_zero :: nat table)) < 2 ^ 50" by (simp add: table_zero_def)
  from table_include_refines [OF table_wf_zero this, of "str ''key''" 0]
  show ?thesis unfolding table_map_zero by (simp only: simp_thms if_True)
qed

text \<open>Storing a list of entries in a new table, one include and assignment after the
  other, yields a table whose look-up finds for every key the value stored last, and nothing
  for the other keys.\<close>

theorem table_stores_last:
  assumes "length kvs \<le> 2 ^ 50"
  shows "table_map (fold (\<lambda>(k, v) t. table_set (fst (table_string_include v0 t k)) k v) kvs table_zero) k
    = map_of (rev kvs) k"
  using tab.put_all_view [of table_zero kvs v0] assms
  by (simp add: tab.put_def table_zero_def [symmetric]) (simp add: table_zero_def)

theorem table_stores_last_witness:
  "table_map (fold (\<lambda>(k, v) t. table_set (fst (table_string_include 0 t k)) k v)
      [(str ''a'', 1), (str ''b'', 2), (str ''a'', 3)] table_zero) (str ''a'') = Some (3 :: nat)"
  using table_stores_last [of "[(str ''a'', 1), (str ''b'', 2), (str ''a'', 3 :: nat)]" 0 "str ''a''"]
  by (simp add: str_def)

text \<open>Deleting the entry of a key removes it from the map and nothing else, and keeps the
  invariant, although the item counter is not decremented.\<close>

theorem table_delete_refines:
  assumes "table_wf t" and "table_map t k \<noteq> None"
  shows "\<exists>t'. table_delete t k = Some t' \<and> table_wf t' \<and> table_map t' = (table_map t)(k := None) \<and>
    item_count t' = item_count t"
  using assms by (rule table_delete_spec)

theorem table_delete_refines_witness:
  "\<exists>t'. table_delete (fst (table_string_include (7 :: nat) table_zero (str ''x''))) (str ''x'') = Some t' \<and>
     table_map t' = Map.empty"
proof -
  let ?t = "fst (table_string_include (7 :: nat) table_zero (str ''x''))"
  have "unat (item_count (table_zero :: nat table)) < 2 ^ 50" by (simp add: table_zero_def)
  from table_string_include_spec [OF table_wf_zero this, of "str ''x''" 7]
  have "table_wf ?t" "table_map ?t = [str ''x'' \<mapsto> 7]" by (simp_all add: split_beta)
  then show ?thesis using table_delete_refines [of ?t "str ''x''"] by auto
qed

text \<open>Interned strings have the same pointer exactly when they are the same string: in any
  sequence of calls of \<open>immutable_string\<close> on one namespace, two results are equal if and
  only if the two arguments are.\<close>

theorem immutable_string_interns:
  assumes "length ss \<le> 2 ^ 50" and "i < length ss" and "j < length ss"
  shows "snd (immutable_strings immutable_namespace_zero ss) ! i
       = snd (immutable_strings immutable_namespace_zero ss) ! j \<longleftrightarrow> ss ! i = ss ! j"
proof -
  obtain ns ps where ns: "immutable_strings immutable_namespace_zero ss = (ns, ps)" by fastforce
  have "unat (item_count (ns_table immutable_namespace_zero)) + length ss \<le> 2 ^ 50"
    using assms(1) by (simp add: immutable_namespace_zero_def table_zero_def)
  from immutable_strings_spec [OF ns_ok_zero this] have
    s: "ns_ok ns" "map Some ps = map (table_map (ns_table ns)) ss"
    by (simp_all add: ns)
  have len: "length ps = length ss" using s(2) by (metis length_map)
  have "Some (ps ! n) = table_map (ns_table ns) (ss ! n)" if "n < length ss" for n
    using arg_cong [OF s(2), of "\<lambda>l. l ! n"] that len by simp
  then show ?thesis
    using assms(2,3) s(1) unfolding ns snd_conv ns_ok_def inj_on_def by (metis domI option.inject)
qed

theorem immutable_string_interns_witness:
  "snd (immutable_strings immutable_namespace_zero [str ''a'', str ''b'', str ''a'']) ! 0
   = snd (immutable_strings immutable_namespace_zero [str ''a'', str ''b'', str ''a'']) ! 2"
  using immutable_string_interns [of "[str ''a'', str ''b'', str ''a'']" 0 2] by simp

text \<open>C13: In every history of includes, stores, deletions and clearings that starts with an
  empty table, every item lies in the bucket of its digest, no key occurs twice, the counter
  is not smaller than the number of items, and the buckets are enough for the counter; so a
  look-up in the one bucket of a key finds what the map of the table holds for it.\<close>

theorem table_history_invariant:
  assumes "table_step\<^sup>*\<^sup>* table_zero t"
  shows "table_wf t \<and>
    (buckets t \<noteq> [] \<longrightarrow> (\<exists>r. table_get t k = Some r \<and> map_option t_value r = table_map t k))"
proof -
  have "table_wf t" using assms by (induction rule: rtranclp_induct) (simp_all add: table_step_wf)
  then show ?thesis using table_get_map by blast
qed

theorem table_history_invariant_witness:
  "table_wf (table_set (fst (table_string_include 0 table_zero (str ''a''))) (str ''a'') (5 :: nat))"
proof -
  let ?t = "fst (table_string_include 0 table_zero (str ''a''))"
  have "table_step table_zero ?t" by (rule step_include) (simp add: table_zero_def)
  moreover have "table_step ?t (table_set ?t (str ''a'') (5 :: nat))" by (rule step_set)
  ultimately have "table_step\<^sup>*\<^sup>* table_zero (table_set ?t (str ''a'') (5 :: nat))"
    by (meson r_into_rtranclp rtranclp.rtrancl_into_rtrancl)
  from table_history_invariant [OF this] show ?thesis by blast
qed

end
