(* ===== verification/Json.thy ===== *)
theory Json
  imports Table
begin

text \<open>
  The JSON reader of \<open>src/json/json.c\<close>. A text is the list of the characters between
  \<open>begin\<close> and \<open>end\<close>; the reader advances \<open>begin\<close>, so its functions return the rest.
  Some tests read \<open>*text->begin\<close> without comparing with \<open>end\<close>: the flag \<open>nul\<close> says
  whether a readable null byte follows the text, and without one such a read is a fault.
\<close>

section \<open>Results and values\<close>

text \<open>
  \<open>Fault\<close> is undefined behaviour, \<open>Loop\<close> means that the fuel was used up, \<open>Fail\<close>
  carries the value as far as it was built, which \<open>json_parse\<close> frees.
\<close>

datatype ('e, 'a) outcome = Fault | Loop | Fail 'e | Done 'a

datatype json_type =
  JSON_NULL | JSON_NUMBER | JSON_TRUE | JSON_FALSE | JSON_STRING | JSON_ARRAY | JSON_OBJECT | JSON_BADTYPE

datatype 'd json_value =
    json_null | json_number 'd | json_true | json_false | json_string bytes
  | json_array "'d json_value list" | json_object "'d json_value table" | json_badtype

fun json_type_of :: "'d json_value \<Rightarrow> json_type" where
  "json_type_of json_null = JSON_NULL"
| "json_type_of (json_number d) = JSON_NUMBER"
| "json_type_of json_true = JSON_TRUE"
| "json_type_of json_false = JSON_FALSE"
| "json_type_of (json_string s) = JSON_STRING"
| "json_type_of (json_array a) = JSON_ARRAY"
| "json_type_of (json_object t) = JSON_OBJECT"
| "json_type_of json_badtype = JSON_BADTYPE"

fun json_type_name :: "json_type \<Rightarrow> string" where
  "json_type_name JSON_NULL = ''null''"
| "json_type_name JSON_NUMBER = ''number''"
| "json_type_name JSON_TRUE = ''true''"
| "json_type_name JSON_FALSE = ''false''"
| "json_type_name JSON_STRING = ''string''"
| "json_type_name JSON_ARRAY = ''array''"
| "json_type_name JSON_OBJECT = ''object''"
| "json_type_name JSON_BADTYPE = ''badtype''"

section \<open>Reading\<close>

fun skip_whitespace :: "bytes \<Rightarrow> bool \<times> bytes" where
  "skip_whitespace [] = (False, [])"
| "skip_whitespace (c # text) = (if isspace c then skip_whitespace text else (True, c # text))"

definition identify_next :: "bytes \<Rightarrow> json_type \<times> bytes" where
  "identify_next text =
     (case skip_whitespace text of
        (False, t) \<Rightarrow> (JSON_BADTYPE, t)
      | (True, t) \<Rightarrow>
          (let c = hd t
           in (if c = byte_of (CHR 0x22) then JSON_STRING
               else if c = byte_of (CHR ''{'') then JSON_OBJECT
               else if c = byte_of (CHR ''['') then JSON_ARRAY
               else if c = byte_of (CHR ''t'') then JSON_TRUE
               else if c = byte_of (CHR ''f'') then JSON_FALSE
               else if c = byte_of (CHR ''n'') then JSON_NULL
               else if c = byte_of (CHR ''-'') \<or> byte_of (CHR ''0'') \<le> c \<and> c \<le> byte_of (CHR ''9'')
               then JSON_NUMBER
               else JSON_BADTYPE, t)))"

text \<open>\<open>*text->begin\<close> without a comparison with \<open>text->end\<close>.\<close>

definition peek :: "bool \<Rightarrow> bytes \<Rightarrow> byte option" where
  "peek nul text = (case text of c # _ \<Rightarrow> Some c | [] \<Rightarrow> if nul then Some 0 else None)"

text \<open>
  \<open>strtod\<close> is the C library's: the number, and how many characters it took. It does not
  know the end of the range; going beyond it is a fault.
\<close>

definition read_number :: "(bytes \<Rightarrow> 'd \<times> nat) \<Rightarrow> bytes \<Rightarrow> ('d, 'd \<times> bytes) outcome" where
  "read_number strtod text =
     (case strtod text of (d, n) \<Rightarrow>
        if n = 0 then Fail d else if n > length text then Fault else Done (d, drop n text))"

text \<open>The escapes of \<open>_read_string\<close>.\<close>

definition escape_char :: "byte \<Rightarrow> byte option" where
  "escape_char c =
     (if c = byte_of (CHR 0x22) then Some (byte_of (CHR 0x22))
      else if c = byte_of (CHR 0x5C) then Some (byte_of (CHR 0x5C))
      else if c = byte_of (CHR ''/'') then Some (byte_of (CHR ''/''))
      else if c = byte_of (CHR ''b'') then Some 8
      else if c = byte_of (CHR ''f'') then Some 12
      else if c = byte_of (CHR ''n'') then Some 10
      else if c = byte_of (CHR ''r'') then Some 13
      else if c = byte_of (CHR ''t'') then Some 9
      else None)"

text \<open>
  The loop of \<open>_read_string\<close>, as it is: a backslash is looked at before the escape flag,
  so a second backslash only sets the flag again. The result is the buffer and the rest.
\<close>

fun read_string_loop :: "bool \<Rightarrow> bytes \<Rightarrow> bytes \<Rightarrow> (bytes \<times> bytes) option" where
  "read_string_loop esc buf [] = None"
| "read_string_loop esc buf (c # text) =
     (if c = byte_of (CHR 0x5C) then read_string_loop True buf text
      else if esc
      then (case escape_char c of
              None \<Rightarrow> None
            | Some a \<Rightarrow> read_string_loop False (buf @ [a]) text)
      else if c = byte_of (CHR 0x22) then Some (buf @ [0], text)
      else read_string_loop False (buf @ [c]) text)"

definition read_string :: "bytes \<Rightarrow> (bytes \<times> bytes) option" where
  "read_string text = read_string_loop False [] (tl text)"

text \<open>A C string in a buffer ends at its first null byte.\<close>

definition cstr :: "bytes \<Rightarrow> bytes" where
  "cstr buf = takeWhile (\<lambda>c. c \<noteq> 0) buf"

definition skip_string :: "bytes \<Rightarrow> bytes \<Rightarrow> bytes option" where
  "skip_string text s =
     (if length text < length s + 1 then None
      else if take (length s) text \<noteq> s then None
      else Some (drop (length s) text))"

text \<open>
  \<open>_read_value\<close>, \<open>_read_array\<close> and \<open>_read_object\<close> call each other; the first argument
  bounds the depth of the calls and the number of iterations. Arrays and objects start after
  their opening bracket; the accumulator of an array is \<open>build_array\<close>, the flag is
  \<open>passed_comma\<close> or \<open>expect_pair\<close>.
\<close>

fun read_value ::
    "nat \<Rightarrow> (bytes \<Rightarrow> 'd \<times> nat) \<Rightarrow> bool \<Rightarrow> bytes \<Rightarrow> ('d json_value, 'd json_value \<times> bytes) outcome"
  and read_array ::
    "nat \<Rightarrow> (bytes \<Rightarrow> 'd \<times> nat) \<Rightarrow> bool \<Rightarrow> 'd json_value list \<Rightarrow> bool \<Rightarrow> bytes
       \<Rightarrow> ('d json_value, 'd json_value \<times> bytes) outcome"
  and read_object ::
    "nat \<Rightarrow> (bytes \<Rightarrow> 'd \<times> nat) \<Rightarrow> bool \<Rightarrow> 'd json_value table \<Rightarrow> bool \<Rightarrow> bytes
       \<Rightarrow> ('d json_value, 'd json_value \<times> bytes) outcome" where
  "read_value 0 strtod nul text = Loop"
| "read_value (Suc n) strtod nul text =
     (case identify_next text of (ty, t) \<Rightarrow>
        case ty of
          JSON_OBJECT \<Rightarrow> read_object n strtod nul table_zero False (tl t)
        | JSON_STRING \<Rightarrow>
            (case read_string t of
               None \<Rightarrow> Fail (json_string [])
             | Some (buf, rest) \<Rightarrow> Done (json_string (cstr buf), rest))
        | JSON_ARRAY \<Rightarrow> read_array n strtod nul [] False (tl t)
        | JSON_NUMBER \<Rightarrow>
            (case read_number strtod t of
               Fault \<Rightarrow> Fault
             | Loop \<Rightarrow> Loop
             | Fail d \<Rightarrow> Fail (json_number d)
             | Done (d, rest) \<Rightarrow> Done (json_number d, rest))
        | JSON_FALSE \<Rightarrow>
            (case skip_string t (str ''false'') of
               None \<Rightarrow> Fail json_false | Some rest \<Rightarrow> Done (json_false, rest))
        | JSON_TRUE \<Rightarrow>
            (case skip_string t (str ''true'') of
               None \<Rightarrow> Fail json_true | Some rest \<Rightarrow> Done (json_true, rest))
        | JSON_NULL \<Rightarrow>
            (case skip_string t (str ''null'') of
               None \<Rightarrow> Fail json_null | Some rest \<Rightarrow> Done (json_null, rest))
        | JSON_BADTYPE \<Rightarrow> Fail json_badtype)"
| "read_array 0 strtod nul acc passed_comma text = Loop"
| "read_array (Suc n) strtod nul acc passed_comma text =
     (let t = snd (skip_whitespace text)
      in case peek nul t of
           None \<Rightarrow> Fault
         | Some c \<Rightarrow>
             if c = byte_of (CHR '']'')
             then (if passed_comma then Fail (json_array acc) else Done (json_array acc, tl t))
             else (case read_value n strtod nul t of
                     Fault \<Rightarrow> Fault
                   | Loop \<Rightarrow> Loop
                   | Fail v \<Rightarrow> Fail (json_array (acc @ [v]))
                   | Done (v, r) \<Rightarrow>
                       (let r' = snd (skip_whitespace r)
                        in case peek nul r' of
                             None \<Rightarrow> Fault
                           | Some d \<Rightarrow>
                               if d = byte_of (CHR '','')
                               then read_array n strtod nul (acc @ [v]) True (tl r')
                               else read_array n strtod nul (acc @ [v]) False r')))"
| "read_object 0 strtod nul tab expect_pair text = Loop"
| "read_object (Suc n) strtod nul tab expect_pair text =
     (case identify_next text of (ty, t) \<Rightarrow>
        if ty \<noteq> JSON_STRING
        then (case peek nul t of
                None \<Rightarrow> Fault
              | Some c \<Rightarrow>
                  if c = byte_of (CHR ''}'')
                  then (if expect_pair then Fail (json_object table_zero)
                        else Done (json_object tab, tl t))
                  else Fail (json_object table_zero))
        else case read_string t of
          None \<Rightarrow> Fail (json_object table_zero)
        | Some (buf, r) \<Rightarrow>
            (let r1 = snd (skip_whitespace r)
             in case peek nul r1 of
                  None \<Rightarrow> Fault
                | Some c \<Rightarrow>
                    if c \<noteq> byte_of (CHR '':'') then Fail (json_object table_zero)
                    else let tab1 = fst (table_string_include json_null tab (cstr buf))
                         in (case read_value n strtod nul (tl r1) of
                               Fault \<Rightarrow> Fault
                             | Loop \<Rightarrow> Loop
                             | Fail v \<Rightarrow> Fail (json_object table_zero)
                             | Done (v, r2) \<Rightarrow>
                                 (let tab2 = table_set tab1 (cstr buf) v;
                                      r3 = snd (skip_whitespace r2)
                                  in case peek nul r3 of
                                       None \<Rightarrow> Fault
                                     | Some d \<Rightarrow>
                                         if d = byte_of (CHR '','')
                                         then read_object n strtod nul tab2 True (tl r3)
                                         else read_object n strtod nul tab2 False r3))))"

text \<open>
  \<open>json_free\<close> frees the members of an array one by one although they share one
  allocation, which the first member begins: freeing a second member is a fault.
\<close>

fun json_free :: "'d json_value \<Rightarrow> bool" where
  "json_free (json_array members) \<longleftrightarrow> list_all json_free members \<and> length members \<le> 1"
| "json_free v \<longleftrightarrow> True"

text \<open>\<open>json_parse\<close>: \<open>Fail\<close> is the null pointer.\<close>

definition json_parse :: "(bytes \<Rightarrow> 'd \<times> nat) \<Rightarrow> bool \<Rightarrow> bytes \<Rightarrow> (unit, 'd json_value) outcome" where
  "json_parse strtod nul text =
     (case read_value (2 * length text + 1) strtod nul text of
        Fault \<Rightarrow> Fault
      | Loop \<Rightarrow> Loop
      | Fail v \<Rightarrow> if json_free v then Fail () else Fault
      | Done (v, rest) \<Rightarrow> Done v)"

section \<open>Access\<close>

text \<open>
  \<open>json_lookup\<close> returns a pointer or null; looking up in an object without pairs is a
  division by zero. The getters dereference the pointer at once. Their results are the value
  and what they leave in \<open>*success\<close>.
\<close>

definition json_lookup :: "'d json_value table \<Rightarrow> bytes \<Rightarrow> 'd json_value option option" where
  "json_lookup object k = map_option (map_option t_value) (table_get object k)"

definition json_get ::
    "'d json_value table \<Rightarrow> bytes \<Rightarrow> ('d json_value \<Rightarrow> 'r) \<Rightarrow> (unit, 'r) outcome" where
  "json_get object k f =
     (case json_lookup object k of Some (Some v) \<Rightarrow> Done (f v) | _ \<Rightarrow> Fault)"

definition json_get_number ::
    "'d \<Rightarrow> 'd json_value table \<Rightarrow> bytes \<Rightarrow> bool \<Rightarrow> 'd \<Rightarrow> bool \<Rightarrow> (unit, 'd \<times> bool) outcome" where
  "json_get_number zero object k optional default_value success =
     json_get object k (\<lambda>v. case v of
         json_null \<Rightarrow> if optional then (default_value, success) else (zero, False)
       | json_number d \<Rightarrow> (d, success)
       | _ \<Rightarrow> (zero, False))"

definition json_get_string ::
    "'d json_value table \<Rightarrow> bytes \<Rightarrow> bool \<Rightarrow> bytes option \<Rightarrow> bool \<Rightarrow> (unit, bytes option \<times> bool) outcome" where
  "json_get_string object k optional default_value success =
     json_get object k (\<lambda>v. case v of
         json_null \<Rightarrow> if optional \<and> default_value \<noteq> None then (default_value, success) else (None, False)
       | json_string s \<Rightarrow> (Some s, success)
       | _ \<Rightarrow> (None, False))"

definition json_get_array ::
    "'d json_value table \<Rightarrow> bytes \<Rightarrow> (unit, 'd json_value list option) outcome" where
  "json_get_array object k =
     json_get object k (\<lambda>v. case v of json_array a \<Rightarrow> Some a | _ \<Rightarrow> None)"

definition json_get_object ::
    "'d json_value table \<Rightarrow> bytes \<Rightarrow> (unit, 'd json_value table option) outcome" where
  "json_get_object object k =
     json_get object k (\<lambda>v. case v of json_object t \<Rightarrow> Some t | _ \<Rightarrow> None)"

section \<open>The reader ends\<close>

lemma skip_whitespace_dropWhile:
  "skip_whitespace text = (dropWhile isspace text \<noteq> [], dropWhile isspace text)"
  by (induction "text") auto

lemma skip_whitespace_length [consume]: "length (snd (skip_whitespace text)) \<le> length text"
  by (simp add: skip_whitespace_dropWhile length_dropWhile_le)

lemma identify_next_rest: "snd (identify_next text) = dropWhile isspace text"
  by (simp add: identify_next_def skip_whitespace_dropWhile Let_def split: bool.split)

lemma identify_next_length [consume]:
  "identify_next text = (ty, t) \<Longrightarrow> length t \<le> length text"
  using identify_next_rest [of "text"] length_dropWhile_le [of isspace "text"] by simp

lemma identify_next_not_empty [consume]:
  "identify_next text = (ty, t) \<Longrightarrow> ty \<noteq> JSON_BADTYPE \<Longrightarrow> t \<noteq> []"
  by (cases "dropWhile isspace text = []")
    (auto simp: identify_next_def skip_whitespace_dropWhile Let_def)

lemma read_string_loop_length:
  "read_string_loop esc buf text = Some (buf', r) \<Longrightarrow> length r < length text"
  by (induction esc buf "text" rule: read_string_loop.induct)
    (auto split: if_splits option.splits)

lemma read_string_length [consume]: "read_string text = Some (buf, r) \<Longrightarrow> length r < length text"
  unfolding read_string_def by (drule read_string_loop_length) (cases "text"; simp)

lemma skip_string_length [consume]: "skip_string text s = Some r \<Longrightarrow> s \<noteq> [] \<Longrightarrow> length r < length text"
  by (auto simp: skip_string_def neq_Nil_conv split: if_splits)

lemma read_number_length [consume]:
  "read_number strtod text = Done (d, r) \<Longrightarrow> text \<noteq> [] \<Longrightarrow> length r < length text"
  by (auto simp: read_number_def split: prod.splits if_splits)

lemma str_not_empty [simp]: "str s = [] \<longleftrightarrow> s = []"
  by (simp add: str_def)

lemma peek_byte [simp]:
  "peek nul t = Some c \<Longrightarrow> c \<noteq> 0 \<Longrightarrow> \<exists>t'. t = c # t'"
  by (auto simp: peek_def split: list.splits if_splits)

text \<open>The characters of the grammar are not the null byte.\<close>

lemma byte_of_not_zero [simp]:
  "byte_of (CHR '']'') \<noteq> 0" "byte_of (CHR ''}'') \<noteq> 0" "byte_of (CHR '','') \<noteq> 0" "byte_of (CHR '':'') \<noteq> 0"
  by (simp_all add: byte_of_def)

text \<open>What a value leaves is shorter by at least its first character.\<close>

lemma read_value_shorter:
  assumes "read_value (Suc n) strtod nul text = Done (v, r)"
    and "\<And>acc pc t v r. read_array n strtod nul acc pc t = Done (v, r) \<Longrightarrow> length r < length t"
    and "\<And>tab ep t v r. read_object n strtod nul tab ep t = Done (v, r) \<Longrightarrow> length r < length t"
  shows "length r < length text"
proof -
  obtain ty t where i: "identify_next text = (ty, t)" by fastforce
  have "length r < length t"
  proof (cases "ty = JSON_ARRAY \<or> ty = JSON_OBJECT")
    case True
    then have "length r < length (tl t)"
    proof
      assume "ty = JSON_ARRAY"
      then show ?thesis using assms(1) i by (intro assms(2) [where t = "tl t"]) simp
    next
      assume "ty = JSON_OBJECT"
      then show ?thesis using assms(1) i by (intro assms(3) [where t = "tl t"]) simp
    qed
    then show ?thesis by simp
  next
    case False
    then show ?thesis
      using assms(1) i identify_next_not_empty [OF i] read_string_length [of t] skip_string_length [of t]
        read_number_length [of strtod t]
      by (auto split: json_type.splits option.splits outcome.splits)
  qed
  then show ?thesis using identify_next_length [OF i] by simp
qed

lemma read_array_shorter:
  assumes "read_array (Suc n) strtod nul acc pc text = Done (v, r)"
    and "\<And>t v r. read_value n strtod nul t = Done (v, r) \<Longrightarrow> length r < length t"
    and "\<And>acc pc t v r. read_array n strtod nul acc pc t = Done (v, r) \<Longrightarrow> length r < length t"
  shows "length r < length text"
proof -
  define t where "t = snd (skip_whitespace text)"
  have t: "length t \<le> length text" unfolding t_def by (rule skip_whitespace_length)
  obtain c where c: "peek nul t = Some c"
    using assms(1) by (auto simp: t_def Let_def split: option.splits)
  show ?thesis
  proof (cases "c = byte_of (CHR '']'')")
    case True
    with c have "t \<noteq> []" by (auto dest: peek_byte)
    then show ?thesis
      using assms(1) c True t by (cases t) (auto simp: t_def [symmetric] Let_def split: if_splits)
  next
    case False
    then obtain w r0 where w: "read_value n strtod nul t = Done (w, r0)"
      using assms(1) c by (auto simp: t_def [symmetric] Let_def split: outcome.splits)
    define r' where "r' = snd (skip_whitespace r0)"
    have "length r' \<le> length r0" unfolding r'_def by (rule skip_whitespace_length)
    moreover have "length (tl r') \<le> length r'" by simp
    moreover have "\<exists>pc'. read_array n strtod nul (acc @ [w]) pc' (tl r') = Done (v, r)
        \<or> read_array n strtod nul (acc @ [w]) pc' r' = Done (v, r)"
      using assms(1) c False w
      by (auto simp: t_def [symmetric] r'_def [symmetric] Let_def split: option.splits if_splits)
    ultimately show ?thesis using assms(2) [OF w] assms(3) t by (meson le_less_trans less_le_trans less_imp_le)
  qed
qed

lemma read_object_shorter:
  assumes "read_object (Suc n) strtod nul tab ep text = Done (v, r)"
    and "\<And>t v r. read_value n strtod nul t = Done (v, r) \<Longrightarrow> length r < length t"
    and "\<And>tab ep t v r. read_object n strtod nul tab ep t = Done (v, r) \<Longrightarrow> length r < length t"
  shows "length r < length text"
proof -
  obtain ty t where i: "identify_next text = (ty, t)" by fastforce
  have t: "length t \<le> length text" using i by (rule identify_next_length)
  show ?thesis
  proof (cases "ty = JSON_STRING")
    case False
    then obtain c where c: "peek nul t = Some c" "c = byte_of (CHR ''}'')" "r = tl t"
      using assms(1) i by (auto split: option.splits if_splits)
    then have "t \<noteq> []" by (auto dest: peek_byte)
    then show ?thesis using c(3) t by (cases t) auto
  next
    case True
    then obtain buf r0 where s: "read_string t = Some (buf, r0)"
      using assms(1) i by (auto split: option.splits)
    define r1 where "r1 = snd (skip_whitespace r0)"
    define tab1 where "tab1 = fst (table_string_include json_null tab (cstr buf))"
    have r1: "length r1 \<le> length r0" unfolding r1_def by (rule skip_whitespace_length)
    obtain w r2 where w: "read_value n strtod nul (tl r1) = Done (w, r2)"
      using assms(1) i True s
      by (auto simp: r1_def [symmetric] Let_def split: option.splits if_splits outcome.splits)
    define r3 where "r3 = snd (skip_whitespace r2)"
    have r3: "length r3 \<le> length r2" unfolding r3_def by (rule skip_whitespace_length)
    have "\<exists>ep'. read_object n strtod nul (table_set tab1 (cstr buf) w) ep' (tl r3) = Done (v, r) \<or>
        read_object n strtod nul (table_set tab1 (cstr buf) w) ep' r3 = Done (v, r)"
      using assms(1) i True s w
      by (auto simp: r1_def [symmetric] r3_def [symmetric] tab1_def [symmetric] Let_def
          split: option.splits if_splits)
    moreover have "length (tl r3) \<le> length r3" by simp
    ultimately obtain ep' t' where o: "read_object n strtod nul (table_set tab1 (cstr buf) w) ep' t' = Done (v, r)"
        "length t' \<le> length r3"
      by blast
    have "length r < length t'" "length r2 < length (tl r1)"
      using assms(3) [OF o(1)] assms(2) [OF w] .
    then show ?thesis using o(2) r3 r1 read_string_length [OF s] t by simp
  qed
qed

lemma json_done_shorter:
  "(\<forall>t v r. read_value n strtod nul t = Done (v, r) \<longrightarrow> length r < length t) \<and>
   (\<forall>acc pc t v r. read_array n strtod nul acc pc t = Done (v, r) \<longrightarrow> length r < length t) \<and>
   (\<forall>tab ep t v r. read_object n strtod nul tab ep t = Done (v, r) \<longrightarrow> length r < length t)"
proof (induction n)
  case 0
  then show ?case by simp
next
  case (Suc n)
  then have IH: "\<And>t v r. read_value n strtod nul t = Done (v, r) \<Longrightarrow> length r < length t"
    "\<And>acc pc t v r. read_array n strtod nul acc pc t = Done (v, r) \<Longrightarrow> length r < length t"
    "\<And>tab ep t v r. read_object n strtod nul tab ep t = Done (v, r) \<Longrightarrow> length r < length t"
    by blast+
  have "length r < length t" if "read_value (Suc n) strtod nul t = Done (v, r)" for t v r
    using that IH(2,3) by (rule read_value_shorter)
  moreover have "length r < length t" if "read_array (Suc n) strtod nul acc pc t = Done (v, r)" for acc pc t v r
    using that IH(1,2) by (rule read_array_shorter)
  moreover have "length r < length t" if "read_object (Suc n) strtod nul tab ep t = Done (v, r)" for tab ep t v r
    using that IH(1,3) by (rule read_object_shorter)
  ultimately show ?case by blast
qed

text \<open>
  Two units of fuel per character and one or two more are enough, and on a text that is
  followed by a null byte nothing is read out of bounds, if \<open>strtod\<close> stays inside the text.
\<close>

definition strtod_inside :: "(bytes \<Rightarrow> 'd \<times> nat) \<Rightarrow> bool" where
  "strtod_inside strtod \<longleftrightarrow> (\<forall>t. snd (strtod t) \<le> length t)"

definition returns :: "('e, 'a) outcome \<Rightarrow> bool" where
  "returns x \<longleftrightarrow> (case x of Fail _ \<Rightarrow> True | Done _ \<Rightarrow> True | _ \<Rightarrow> False)"

lemma returns_simps [simp]:
  "\<not> returns Fault" "\<not> returns Loop" "returns (Fail e)" "returns (Done a)"
  by (simp_all add: returns_def)

lemma peek_True [simp]: "\<exists>c. peek True t = Some c"
  by (cases t) (simp_all add: peek_def)

lemma read_value_returns:
  assumes "strtod_inside strtod" and "2 * length text + 1 \<le> Suc n"
    and "\<And>acc pc t. 2 * length t + 2 \<le> n \<Longrightarrow> returns (read_array n strtod True acc pc t)"
    and "\<And>tab ep t. 2 * length t + 2 \<le> n \<Longrightarrow> returns (read_object n strtod True tab ep t)"
  shows "returns (read_value (Suc n) strtod True text)"
proof -
  obtain ty t where i: "identify_next text = (ty, t)" by fastforce
  show ?thesis
  proof (cases "ty = JSON_ARRAY \<or> ty = JSON_OBJECT")
    case True
    then have "t \<noteq> []" using identify_next_not_empty [OF i] by auto
    then have "2 * length (tl t) + 2 \<le> n"
      using assms(2) identify_next_length [OF i] by (cases t) auto
    then show ?thesis using True i assms(3,4) by auto
  next
    case False
    obtain d k where k: "strtod t = (d, k)" by fastforce
    then have "k \<le> length t" using assms(1) unfolding strtod_inside_def by (metis snd_conv)
    then have "read_number strtod t \<noteq> Fault" "read_number strtod t \<noteq> Loop"
      using k by (simp_all add: read_number_def)
    then show ?thesis
      using i False by (cases ty) (auto split: option.split outcome.split)
  qed
qed

lemma read_array_returns:
  assumes "2 * length text + 2 \<le> Suc n"
    and "\<And>t. 2 * length t + 1 \<le> n \<Longrightarrow> returns (read_value n strtod True t)"
    and "\<And>acc pc t. 2 * length t + 2 \<le> n \<Longrightarrow> returns (read_array n strtod True acc pc t)"
  shows "returns (read_array (Suc n) strtod True acc pc text)"
proof -
  define t where "t = snd (skip_whitespace text)"
  have t: "length t \<le> length text" unfolding t_def by (rule skip_whitespace_length)
  obtain c where c: "peek True t = Some c" using peek_True by blast
  show ?thesis
  proof (cases "c = byte_of (CHR '']'')")
    case True
    then show ?thesis using c by (simp add: t_def [symmetric] Let_def)
  next
    case False
    have rv: "returns (read_value n strtod True t)" using assms(1) t by (intro assms(2)) simp
    show ?thesis
    proof (cases "read_value n strtod True t")
      case (Done x)
      obtain w r0 where w: "read_value n strtod True t = Done (w, r0)" using Done by (cases x) auto
      define r' where "r' = snd (skip_whitespace r0)"
      have "length r' \<le> length r0" unfolding r'_def by (rule skip_whitespace_length)
      moreover have "length r0 < length t" using json_done_shorter w by blast
      ultimately have "2 * length r' + 2 \<le> n" using assms(1) t by simp
      moreover from this have "2 * length (tl r') + 2 \<le> n" by simp
      moreover obtain d where "peek True r' = Some d" using peek_True by blast
      ultimately show ?thesis
        using c False w assms(3) by (simp add: t_def [symmetric] r'_def [symmetric] Let_def)
    qed (use rv c False in \<open>simp_all add: t_def [symmetric] Let_def\<close>)
  qed
qed

lemma read_object_returns:
  assumes "2 * length text + 2 \<le> Suc n"
    and "\<And>t. 2 * length t + 1 \<le> n \<Longrightarrow> returns (read_value n strtod True t)"
    and "\<And>tab ep t. 2 * length t + 2 \<le> n \<Longrightarrow> returns (read_object n strtod True tab ep t)"
  shows "returns (read_object (Suc n) strtod True tab ep text)"
proof -
  obtain ty t where i: "identify_next text = (ty, t)" by fastforce
  have t: "length t \<le> length text" using i by (rule identify_next_length)
  show ?thesis
  proof (cases "ty = JSON_STRING")
    case False
    obtain c where "peek True t = Some c" using peek_True by blast
    then show ?thesis using i False by simp
  next
    case True
    show ?thesis
    proof (cases "read_string t")
      case None
      then show ?thesis using i True by simp
    next
      case (Some s)
      obtain buf r0 where s: "read_string t = Some (buf, r0)" using Some by (cases s) auto
      define r1 where "r1 = snd (skip_whitespace r0)"
      define tab1 where "tab1 = fst (table_string_include json_null tab (cstr buf))"
      have r1: "length r1 \<le> length r0" unfolding r1_def by (rule skip_whitespace_length)
      obtain c where c: "peek True r1 = Some c" using peek_True by blast
      have len: "length (tl r1) < length text" using r1 read_string_length [OF s] t by simp
      have rv: "returns (read_value n strtod True (tl r1))"
        using assms(1) len by (intro assms(2)) simp
      show ?thesis
      proof (cases "read_value n strtod True (tl r1)")
        case (Done x)
        obtain w r2 where w: "read_value n strtod True (tl r1) = Done (w, r2)" using Done by (cases x) auto
        define r3 where "r3 = snd (skip_whitespace r2)"
        have "length r3 \<le> length r2" unfolding r3_def by (rule skip_whitespace_length)
        moreover have "length r2 < length (tl r1)" using json_done_shorter w by blast
        ultimately have "2 * length r3 + 2 \<le> n" using assms(1) len by simp
        moreover from this have "2 * length (tl r3) + 2 \<le> n" by simp
        moreover obtain d where "peek True r3 = Some d" using peek_True by blast
        ultimately show ?thesis
          using c i True s w assms(3)
          by (simp add: r1_def [symmetric] r3_def [symmetric] tab1_def [symmetric] Let_def)
      qed (use rv c i True s in \<open>simp_all add: r1_def [symmetric] Let_def\<close>)
    qed
  qed
qed

lemma json_returns:
  assumes "strtod_inside strtod"
  shows "(\<forall>t. 2 * length t + 1 \<le> n \<longrightarrow> returns (read_value n strtod True t)) \<and>
    (\<forall>acc pc t. 2 * length t + 2 \<le> n \<longrightarrow> returns (read_array n strtod True acc pc t)) \<and>
    (\<forall>tab ep t. 2 * length t + 2 \<le> n \<longrightarrow> returns (read_object n strtod True tab ep t))"
proof (induction n)
  case 0
  then show ?case by simp
next
  case (Suc n)
  then have IH: "\<And>t. 2 * length t + 1 \<le> n \<Longrightarrow> returns (read_value n strtod True t)"
    "\<And>acc pc t. 2 * length t + 2 \<le> n \<Longrightarrow> returns (read_array n strtod True acc pc t)"
    "\<And>tab ep t. 2 * length t + 2 \<le> n \<Longrightarrow> returns (read_object n strtod True tab ep t)"
    by blast+
  have "returns (read_value (Suc n) strtod True t)" if "2 * length t + 1 \<le> Suc n" for t
    using assms that IH(2,3) by (rule read_value_returns)
  moreover have "returns (read_array (Suc n) strtod True acc pc t)" if "2 * length t + 2 \<le> Suc n" for acc pc t
    using that IH(1,2) by (rule read_array_returns)
  moreover have "returns (read_object (Suc n) strtod True tab ep t)" if "2 * length t + 2 \<le> Suc n" for tab ep t
    using that IH(1,3) by (rule read_object_returns)
  ultimately show ?case by blast
qed

section \<open>Documents and their values\<close>

text \<open>
  A document as a tree, and one way to write it down. Quotes and control characters in
  strings are escaped; a string with a backslash cannot be written for this reader, and a
  null byte would end its C string. Numbers are written by \<open>pn\<close>.
\<close>

datatype 'd jtree =
  TNull | TNumber 'd | TTrue | TFalse | TString bytes | TArray "'d jtree list"
  | TObject "(bytes \<times> 'd jtree) list"

definition plain_char :: "byte \<Rightarrow> bool" where
  "plain_char c \<longleftrightarrow> c \<noteq> 0 \<and> c \<noteq> byte_of (CHR 0x5C)"

fun tree_ok :: "'d jtree \<Rightarrow> bool" where
  "tree_ok (TString s) \<longleftrightarrow> list_all plain_char s"
| "tree_ok (TArray ts) \<longleftrightarrow> list_all tree_ok ts"
| "tree_ok (TObject kvs) \<longleftrightarrow> list_all (\<lambda>(k, t). list_all plain_char k \<and> tree_ok t) kvs"
| "tree_ok t \<longleftrightarrow> True"

definition render_char :: "byte \<Rightarrow> bytes" where
  "render_char c =
     (if c = byte_of (CHR 0x22) then [byte_of (CHR 0x5C), byte_of (CHR 0x22)]
      else if c = 8 then [byte_of (CHR 0x5C), byte_of (CHR ''b'')]
      else if c = 9 then [byte_of (CHR 0x5C), byte_of (CHR ''t'')]
      else if c = 10 then [byte_of (CHR 0x5C), byte_of (CHR ''n'')]
      else if c = 12 then [byte_of (CHR 0x5C), byte_of (CHR ''f'')]
      else if c = 13 then [byte_of (CHR 0x5C), byte_of (CHR ''r'')]
      else [c])"

definition render_string :: "bytes \<Rightarrow> bytes" where
  "render_string s = byte_of (CHR 0x22) # concat (map render_char s) @ [byte_of (CHR 0x22)]"

fun join :: "bytes list \<Rightarrow> bytes" where
  "join [] = []"
| "join [x] = x"
| "join (x # y # xs) = x @ byte_of (CHR '','') # join (y # xs)"

fun render :: "('d \<Rightarrow> bytes) \<Rightarrow> 'd jtree \<Rightarrow> bytes" where
  "render pn TNull = str ''null''"
| "render pn (TNumber d) = pn d"
| "render pn TTrue = str ''true''"
| "render pn TFalse = str ''false''"
| "render pn (TString s) = render_string s"
| "render pn (TArray ts) = byte_of (CHR ''['') # join (map (render pn) ts) @ [byte_of (CHR '']'')]"
| "render pn (TObject kvs) =
     byte_of (CHR ''{'') #
       join (map (\<lambda>(k, t). render_string k @ byte_of (CHR '':'') # render pn t) kvs) @ [byte_of (CHR ''}'')]"

text \<open>What may follow a value: a comma, a closing bracket or white space.\<close>

definition delimited :: "bytes \<Rightarrow> bool" where
  "delimited rest \<longleftrightarrow>
     rest \<noteq> [] \<and> (hd rest \<in> {byte_of (CHR '',''), byte_of (CHR '']''), byte_of (CHR ''}'')} \<or> isspace (hd rest))"

text \<open>\<open>strtod\<close> reads a written number up to a delimiter.\<close>

definition reads_numbers :: "(bytes \<Rightarrow> 'd \<times> nat) \<Rightarrow> ('d \<Rightarrow> bytes) \<Rightarrow> bool" where
  "reads_numbers strtod pn \<longleftrightarrow>
     (\<forall>d. pn d \<noteq> [] \<and> (hd (pn d) = byte_of (CHR ''-'') \<or>
            byte_of (CHR ''0'') \<le> hd (pn d) \<and> hd (pn d) \<le> byte_of (CHR ''9''))) \<and>
     (\<forall>d rest. delimited rest \<longrightarrow> strtod (pn d @ rest) = (d, length (pn d)))"

text \<open>The value that represents a tree: an object has for every key the last value.\<close>

inductive represents :: "'d jtree \<Rightarrow> 'd json_value \<Rightarrow> bool" where
  "represents TNull json_null"
| "represents (TNumber d) (json_number d)"
| "represents TTrue json_true"
| "represents TFalse json_false"
| "represents (TString s) (json_string s)"
| "list_all2 represents ts vs \<Longrightarrow> represents (TArray ts) (json_array vs)"
| "table_wf tab \<Longrightarrow> \<forall>k. rel_option represents (map_of (rev kvs) k) (table_map tab k) \<Longrightarrow>
     represents (TObject kvs) (json_object tab)"
monos option.rel_mono_strong list.rel_mono_strong

inductive_cases represents_objectE: "represents (TObject kvs) v"
inductive_cases represents_arrayE: "represents (TArray ts) v"

section \<open>Reading a document\<close>

lemmas char_defs = byte_of_def isspace_def

text \<open>Escapes are read back.\<close>

lemma read_string_char:
  assumes "plain_char c"
  shows "read_string_loop False buf (render_char c @ r) = read_string_loop False (buf @ [c]) r"
  using assms by (auto simp: render_char_def plain_char_def escape_char_def byte_of_def)

lemma read_string_chars:
  "list_all plain_char s \<Longrightarrow>
     read_string_loop False buf (concat (map render_char s) @ byte_of (CHR 0x22) # r) = Some (buf @ s @ [0], r)"
proof (induction s arbitrary: buf)
  case Nil
  then show ?case by (simp add: byte_of_def)
next
  case (Cons c s)
  then show ?case using read_string_char [of c buf] by simp
qed

lemma read_string_render:
  "list_all plain_char s \<Longrightarrow> read_string (render_string s @ r) = Some (s @ [0], r)"
  using read_string_chars [of s "[]" r] by (simp add: read_string_def render_string_def)

lemma cstr_plain: "list_all plain_char s \<Longrightarrow> cstr (s @ [0]) = s"
  by (induction s) (auto simp: cstr_def plain_char_def)

lemma skip_nonspace: "t \<noteq> [] \<Longrightarrow> \<not> isspace (hd t) \<Longrightarrow> skip_whitespace t = (True, t)"
  by (cases t) auto

text \<open>The first character of a written tree.\<close>

definition starts :: "bytes \<Rightarrow> json_type \<Rightarrow> bool" where
  "starts t ty \<longleftrightarrow> t \<noteq> [] \<and> \<not> isspace (hd t) \<and> hd t \<noteq> byte_of (CHR '']'') \<and>
     (\<forall>r. identify_next (t @ r) = (ty, t @ r))"

lemma startsI:
  assumes "t = c # t'" and "\<not> isspace c" and "c \<noteq> byte_of (CHR '']'')" and "identify_next [c] = (ty, [c])"
  shows "starts t ty"
  using assms by (auto simp: starts_def identify_next_def skip_nonspace Let_def)

lemma starts_render_string: "starts (render_string s @ r) JSON_STRING"
  unfolding render_string_def append_Cons
  by (rule startsI [OF refl]) (simp_all add: identify_next_def char_defs)

lemma starts_number:
  assumes "reads_numbers strtod pn"
  shows "starts (pn d) JSON_NUMBER"
proof -
  obtain c t where c: "pn d = c # t" "c = byte_of (CHR ''-'') \<or>
      byte_of (CHR ''0'') \<le> c \<and> c \<le> byte_of (CHR ''9'')"
    using assms unfolding reads_numbers_def by (metis list.collapse)
  have "\<not> isspace c \<and> c \<noteq> byte_of (CHR '']'') \<and> identify_next [c] = (JSON_NUMBER, [c])"
  proof (cases "c = byte_of (CHR ''-'')")
    case True
    then show ?thesis by (simp add: identify_next_def char_defs)
  next
    case False
    then have "48 \<le> c" "c \<le> 57" using c(2) by (simp_all add: byte_of_def)
    moreover from this have "\<not> c \<le> 13" using order_trans [of 48 c 13] by auto
    ultimately show ?thesis by (auto simp: identify_next_def char_defs)
  qed
  then show ?thesis using c(1) by (intro startsI) auto
qed

lemma starts_render:
  assumes "reads_numbers strtod pn"
  shows "\<exists>ty. starts (render pn t) ty \<and> (case t of
      TNull \<Rightarrow> ty = JSON_NULL | TNumber _ \<Rightarrow> ty = JSON_NUMBER | TTrue \<Rightarrow> ty = JSON_TRUE
    | TFalse \<Rightarrow> ty = JSON_FALSE | TString _ \<Rightarrow> ty = JSON_STRING | TArray _ \<Rightarrow> ty = JSON_ARRAY
    | TObject _ \<Rightarrow> ty = JSON_OBJECT)"
proof (cases t)
  case (TNumber d)
  then show ?thesis using starts_number [OF assms, of d] by auto
next
  case (TString s)
  then show ?thesis using starts_render_string [of s "[]"] by auto
next
  case TNull
  have "starts (str ''null'') JSON_NULL"
    unfolding str_def list.map by (rule startsI [OF refl]) (simp_all add: identify_next_def char_defs)
  then show ?thesis using TNull by auto
next
  case TTrue
  have "starts (str ''true'') JSON_TRUE"
    unfolding str_def list.map by (rule startsI [OF refl]) (simp_all add: identify_next_def char_defs)
  then show ?thesis using TTrue by auto
next
  case TFalse
  have "starts (str ''false'') JSON_FALSE"
    unfolding str_def list.map by (rule startsI [OF refl]) (simp_all add: identify_next_def char_defs)
  then show ?thesis using TFalse by auto
next
  case (TArray ts)
  have "starts (render pn (TArray ts)) JSON_ARRAY"
    unfolding render.simps by (rule startsI [OF refl]) (simp_all add: identify_next_def char_defs)
  then show ?thesis using TArray by auto
next
  case (TObject kvs)
  have "starts (render pn (TObject kvs)) JSON_OBJECT"
    unfolding render.simps by (rule startsI [OF refl]) (simp_all add: identify_next_def char_defs)
  then show ?thesis using TObject by auto
qed

lemma join_Cons: "join (x # xs) = x @ (if xs = [] then [] else byte_of (CHR '','') # join xs)"
  by (cases xs) simp_all

lemma peek_hd: "t \<noteq> [] \<Longrightarrow> peek nul t = Some (hd t)"
  by (cases t) (simp_all add: peek_def)

lemma starts_append: "starts t ty \<Longrightarrow> starts (t @ r) ty"
  by (auto simp: starts_def)

lemma starts_skip: "starts t ty \<Longrightarrow> skip_whitespace (t @ r) = (True, t @ r)"
  by (simp add: starts_def skip_nonspace)

text \<open>What follows a member: the next one, or the closing bracket.\<close>

lemma punctuation:
  "\<not> isspace (byte_of (CHR '','')) \<and> \<not> isspace (byte_of (CHR '']'')) \<and> \<not> isspace (byte_of (CHR ''}'')) \<and>
   \<not> isspace (byte_of (CHR '':'')) \<and> byte_of (CHR '']'') \<noteq> byte_of (CHR '','') \<and>
   byte_of (CHR ''}'') \<noteq> byte_of (CHR '','')"
  by (simp add: char_defs)

text \<open>
  \<open>reads_back\<close>: the reader takes a written tree off the beginning of a text, given the
  fuel that it gets.
\<close>

definition reads_back :: "(bytes \<Rightarrow> 'd \<times> nat) \<Rightarrow> bool \<Rightarrow> ('d \<Rightarrow> bytes) \<Rightarrow> 'd jtree \<Rightarrow> bool" where
  "reads_back strtod nul pn t \<longleftrightarrow>
     (\<forall>rest n. delimited rest \<longrightarrow> 2 * length (render pn t @ rest) + 1 \<le> n \<longrightarrow>
        (\<exists>v. read_value n strtod nul (render pn t @ rest) = Done (v, rest) \<and> represents t v))"

lemma read_array_render:
  assumes "reads_numbers strtod pn" and "\<forall>t \<in> set ts. reads_back strtod nul pn t"
    and "ts = [] \<longrightarrow> \<not> pc"
    and "2 * length (join (map (render pn) ts) @ byte_of (CHR '']'') # rest) + 2 \<le> n"
  shows "\<exists>vs. read_array n strtod nul acc pc (join (map (render pn) ts) @ byte_of (CHR '']'') # rest)
      = Done (json_array (acc @ vs), rest) \<and> list_all2 represents ts vs"
  using assms(2-4)
proof (induction ts arbitrary: acc pc n)
  case Nil
  then obtain m where "n = Suc m" by (cases n) auto
  then show ?case using Nil punctuation by (simp add: Let_def peek_def)
next
  case (Cons t ts)
  obtain m where n: "n = Suc m" using Cons.prems(3) by (cases n) auto
  define close where "close = byte_of (CHR '']'') # rest"
  define follow where "follow = (if ts = [] then close else byte_of (CHR '','') # join (map (render pn) ts) @ close)"
  have tx: "join (map (render pn) (t # ts)) @ close = render pn t @ follow"
    by (simp add: join_Cons follow_def)
  have d: "delimited follow" "follow \<noteq> []" "\<not> isspace (hd follow)"
    using punctuation by (auto simp: follow_def close_def delimited_def)
  obtain ty where st: "starts (render pn t) ty" using starts_render [OF assms(1)] by blast
  have hd: "render pn t @ follow \<noteq> []" "hd (render pn t @ follow) \<noteq> byte_of (CHR '']'')"
    using st by (auto simp: starts_def)
  have fuel: "2 * length (render pn t @ follow) + 1 \<le> m"
    using Cons.prems(3) n unfolding close_def [symmetric] tx by simp
  have rb: "reads_back strtod nul pn t" using Cons.prems(1) by simp
  obtain v where v: "read_value m strtod nul (render pn t @ follow) = Done (v, follow)" "represents t v"
    using rb d(1) fuel unfolding reads_back_def by blast
  have step: "read_array n strtod nul acc pc (render pn t @ follow)
      = (if hd follow = byte_of (CHR '','') then read_array m strtod nul (acc @ [v]) True (tl follow)
         else read_array m strtod nul (acc @ [v]) False follow)"
    using hd v(1) skip_nonspace [OF d(2,3)] starts_skip [OF st, of follow]
    by (simp add: n Let_def peek_hd [OF hd(1)] peek_hd [OF d(2)])
  have len: "0 < length (render pn t)" using st by (auto simp: starts_def)
  show ?case
  proof (cases "ts = []")
    case True
    have "2 * length (join (map (render pn) ts) @ byte_of (CHR '']'') # rest) + 2 \<le> m"
      using fuel len True by (cases "render pn t") (simp_all add: follow_def close_def)
    from Cons.IH [OF _ _ this, of False "acc @ [v]"] Cons.prems(1) show ?thesis
      unfolding close_def [symmetric] tx step
      using True punctuation v(2) by (auto simp: follow_def close_def)
  next
    case False
    have "2 * length (join (map (render pn) ts) @ byte_of (CHR '']'') # rest) + 2 \<le> m"
      using fuel len False by (cases "render pn t") (simp_all add: follow_def close_def)
    from Cons.IH [OF _ _ this, of True "acc @ [v]"] Cons.prems(1) False obtain vs where
      "read_array m strtod nul (acc @ [v]) True (join (map (render pn) ts) @ byte_of (CHR '']'') # rest)
        = Done (json_array ((acc @ [v]) @ vs), rest)" "list_all2 represents ts vs"
      by auto
    then show ?thesis
      unfolding close_def [symmetric] tx step
      using False v(2) by (intro exI [of _ "v # vs"]) (simp add: follow_def close_def)
  qed
qed

text \<open>The object that is being built has the last value of every key so far.\<close>

definition holds :: "(bytes \<times> 'd jtree) list \<Rightarrow> 'd json_value table \<Rightarrow> bool" where
  "holds kvs tab \<longleftrightarrow>
     table_wf tab \<and> (\<forall>k. rel_option represents (map_of (rev kvs) k) (table_map tab k))"

lemma holds_put:
  fixes tab :: "'d json_value table" and k :: bytes
  assumes "holds kvs tab" and "unat (item_count tab) < 2 ^ 50" and "represents t v"
  defines "tab' \<equiv> table_set (fst (table_string_include json_null tab k)) k v"
  shows "holds (kvs @ [(k, t)]) tab'" and "unat (item_count tab') \<le> unat (item_count tab) + 1"
proof -
  have wf: "table_wf tab" using assms(1) by (simp add: holds_def)
  note p = tab.put_view [OF wf assms(2), of json_null k v, unfolded tab.put_def, folded tab'_def]
  show "unat (item_count tab') \<le> unat (item_count tab) + 1" using p by blast
  have "table_wf tab'" "table_map tab' = (table_map tab)(k \<mapsto> v)" using p by blast+
  then show "holds (kvs @ [(k, t)]) tab'"
    using assms(1,3) by (auto simp: holds_def)
qed

lemma read_object_render:
  fixes pn :: "'d \<Rightarrow> bytes"
  defines "entry \<equiv> \<lambda>(k, t). render_string k @ byte_of (CHR '':'') # render pn t"
  assumes "reads_numbers strtod pn" and "\<forall>(k, t) \<in> set kvs. reads_back strtod nul pn t \<and> list_all plain_char k"
    and "kvs = [] \<longrightarrow> \<not> ep" and "holds before tab" and "unat (item_count tab) + length kvs \<le> 2 ^ 50"
    and "2 * length (join (map entry kvs) @ byte_of (CHR ''}'') # rest) + 2 \<le> n"
  shows "\<exists>tab'. read_object n strtod nul tab ep (join (map entry kvs) @ byte_of (CHR ''}'') # rest)
      = Done (json_object tab', rest) \<and> holds (before @ kvs) tab'"
  using assms(3-)
proof (induction kvs arbitrary: before tab ep n)
  case Nil
  then obtain m where "n = Suc m" by (cases n) auto
  moreover have "identify_next (byte_of (CHR ''}'') # rest) = (JSON_BADTYPE, byte_of (CHR ''}'') # rest)"
    by (simp add: identify_next_def char_defs)
  ultimately show ?case using Nil by (simp add: peek_def)
next
  case (Cons kt kvs)
  obtain k t where kt: "kt = (k, t)" by (cases kt)
  obtain m where n: "n = Suc m" using Cons.prems(5) by (cases n) auto
  define close where "close = byte_of (CHR ''}'') # rest"
  define follow where "follow = (if kvs = [] then close else byte_of (CHR '','') # join (map entry kvs) @ close)"
  define pair_rest where "pair_rest = byte_of (CHR '':'') # render pn t @ follow"
  have tx: "join (map entry (kt # kvs)) @ close = render_string k @ pair_rest"
    by (simp add: join_Cons follow_def pair_rest_def entry_def kt)
  have d: "delimited follow" "follow \<noteq> []" "\<not> isspace (hd follow)"
    using punctuation by (auto simp: follow_def close_def delimited_def)
  have key: "read_string (render_string k @ pair_rest) = Some (k @ [0], pair_rest)" "cstr (k @ [0]) = k"
    using Cons.prems(1) kt by (simp_all add: read_string_render cstr_plain)
  have ident: "identify_next (render_string k @ pair_rest) = (JSON_STRING, render_string k @ pair_rest)"
    using starts_render_string [of k "[]"] by (simp add: starts_def)
  have skip: "skip_whitespace pair_rest = (True, pair_rest)" "peek nul pair_rest = Some (byte_of (CHR '':''))"
    using punctuation by (simp_all add: pair_rest_def peek_def)
  have tlv: "tl pair_rest = render pn t @ follow" by (simp add: pair_rest_def)
  have fuel: "2 * length (render pn t @ follow) + 4 \<le> m"
    using Cons.prems(5) n unfolding close_def [symmetric] tx by (simp add: pair_rest_def render_string_def)
  have "reads_back strtod nul pn t" using Cons.prems(1) kt by simp
  moreover have "2 * length (render pn t @ follow) + 1 \<le> m" using fuel by simp
  ultimately obtain v where v: "read_value m strtod nul (render pn t @ follow) = Done (v, follow)" "represents t v"
    using d(1) unfolding reads_back_def by blast
  define tab' where "tab' = table_set (fst (table_string_include json_null tab k)) k v"
  have cnt: "unat (item_count tab) < 2 ^ 50" using Cons.prems(4) by simp
  note h = holds_put [OF Cons.prems(3) cnt v(2), of k, folded tab'_def]
  have step: "read_object n strtod nul tab ep (render_string k @ pair_rest)
      = (if hd follow = byte_of (CHR '','') then read_object m strtod nul tab' True (tl follow)
         else read_object m strtod nul tab' False follow)"
    using v(1) skip_nonspace [OF d(2,3)] unfolding n
    by (simp add: ident key skip tlv Let_def peek_hd [OF d(2)] tab'_def [symmetric])
  have cnt': "unat (item_count tab') + length kvs \<le> 2 ^ 50" using h(2) Cons.prems(4) by simp
  have prems: "\<forall>(k, t) \<in> set kvs. reads_back strtod nul pn t \<and> list_all plain_char k"
    using Cons.prems(1) by simp
  show ?case
  proof (cases "kvs = []")
    case True
    have "2 * length (join (map entry kvs) @ byte_of (CHR ''}'') # rest) + 2 \<le> m"
      using fuel True by (simp add: follow_def close_def)
    from Cons.IH [OF prems _ h(1) cnt' this, of False] show ?thesis
      unfolding close_def [symmetric] tx step
      using True punctuation kt by (auto simp: follow_def close_def)
  next
    case False
    have "2 * length (join (map entry kvs) @ byte_of (CHR ''}'') # rest) + 2 \<le> m"
      using fuel False by (simp add: follow_def close_def)
    from Cons.IH [OF prems _ h(1) cnt' this, of True] show ?thesis
      unfolding close_def [symmetric] tx step
      using False kt by (simp add: follow_def close_def)
  qed
qed

lemma skip_string_str: "rest \<noteq> [] \<Longrightarrow> skip_string (str s @ rest) (str s) = Some rest"
  by (cases rest) (simp_all add: skip_string_def str_def)

lemma length_join_entry:
  "kv \<in> set kvs \<Longrightarrow> length (render pn (snd kv)) \<le> length (join (map (\<lambda>(k, t). render_string k @ byte_of (CHR '':'') # render pn t) kvs))"
  by (induction kvs) (auto simp: join_Cons split_beta)

lemma length_join_le: "length kvs \<le> length (join (map (\<lambda>(k, t). render_string k @ x # f t) kvs))"
  by (induction kvs) (auto simp: join_Cons split_beta)

lemma length_join_member: "x \<in> set xs \<Longrightarrow> length x \<le> length (join xs)"
  by (induction xs) (auto simp: join_Cons)

text \<open>Every written tree is read back.\<close>

lemma reads_backI:
  assumes "\<And>rest m. delimited rest \<Longrightarrow> 2 * length (render pn t @ rest) \<le> m \<Longrightarrow>
    \<exists>v. read_value (Suc m) strtod nul (render pn t @ rest) = Done (v, rest) \<and> represents t v"
  shows "reads_back strtod nul pn t"
  unfolding reads_back_def
proof (intro allI impI)
  fix rest n
  assume "delimited rest" and n: "2 * length (render pn t @ rest) + 1 \<le> n"
  then obtain m where "n = Suc m" by (cases n) auto
  then show "\<exists>v. read_value n strtod nul (render pn t @ rest) = Done (v, rest) \<and> represents t v"
    using assms \<open>delimited rest\<close> n by simp
qed

lemma reads_numbersD:
  assumes "reads_numbers strtod pn"
  shows "pn d \<noteq> []" and "delimited rest \<Longrightarrow> strtod (pn d @ rest) = (d, length (pn d))"
  using assms by (simp_all add: reads_numbers_def)

lemma reads_back_leaf:
  assumes rn: "reads_numbers strtod pn" and ok: "tree_ok t"
    and leaf: "case t of TArray _ \<Rightarrow> False | TObject _ \<Rightarrow> False | _ \<Rightarrow> True"
  shows "reads_back strtod nul pn t"
proof (rule reads_backI)
  fix rest and m :: nat
  assume d: "delimited rest"
  then have ne: "rest \<noteq> []" by (simp add: delimited_def)
  show "\<exists>v. read_value (Suc m) strtod nul (render pn t @ rest) = Done (v, rest) \<and> represents t v"
  proof (cases t)
    case (TNumber d)
    have "identify_next (pn d @ rest) = (JSON_NUMBER, pn d @ rest)"
      using starts_number [OF rn, of d] by (simp add: starts_def)
    then have "read_value (Suc m) strtod nul (render pn t @ rest) = Done (json_number d, rest)"
      using reads_numbersD [OF rn] d TNumber by (simp add: read_number_def)
    then show ?thesis using TNumber by (simp add: represents.intros(2))
  next
    case (TString s)
    have "identify_next (render_string s @ rest) = (JSON_STRING, render_string s @ rest)"
      using starts_render_string [of s "[]"] by (simp add: starts_def)
    then have "read_value (Suc m) strtod nul (render pn t @ rest) = Done (json_string s, rest)"
      using ok TString by (simp add: read_string_render cstr_plain)
    then show ?thesis using TString by (simp add: represents.intros(5))
  next
    case TNull
    have "identify_next (str ''null'' @ rest) = (JSON_NULL, str ''null'' @ rest)"
      using starts_render [OF rn, of TNull] by (auto simp: starts_def)
    then have "read_value (Suc m) strtod nul (render pn t @ rest) = Done (json_null, rest)"
      using TNull skip_string_str [OF ne, of "''null''"] by simp
    then show ?thesis using TNull by (simp add: represents.intros(1))
  next
    case TTrue
    have "identify_next (str ''true'' @ rest) = (JSON_TRUE, str ''true'' @ rest)"
      using starts_render [OF rn, of TTrue] by (auto simp: starts_def)
    then have "read_value (Suc m) strtod nul (render pn t @ rest) = Done (json_true, rest)"
      using TTrue skip_string_str [OF ne, of "''true''"] by simp
    then show ?thesis using TTrue by (simp add: represents.intros(3))
  next
    case TFalse
    have "identify_next (str ''false'' @ rest) = (JSON_FALSE, str ''false'' @ rest)"
      using starts_render [OF rn, of TFalse] by (auto simp: starts_def)
    then have "read_value (Suc m) strtod nul (render pn t @ rest) = Done (json_false, rest)"
      using TFalse skip_string_str [OF ne, of "''false''"] by simp
    then show ?thesis using TFalse by (simp add: represents.intros(4))
  qed (use leaf in simp_all)
qed

lemma all_reads_back:
  assumes rn: "reads_numbers strtod pn"
  shows "tree_ok t \<Longrightarrow> length (render pn t) < 2 ^ 50 \<Longrightarrow> reads_back strtod nul pn t"
proof (induction t)
  case (TArray ts)
  have mem: "\<forall>t \<in> set ts. reads_back strtod nul pn t"
  proof
    fix t
    assume t: "t \<in> set ts"
    then have "render pn t \<in> set (map (render pn) ts)" by simp
    then have "length (render pn t) \<le> length (join (map (render pn) ts))" by (rule length_join_member)
    then have "length (render pn t) < 2 ^ 50" using TArray.prems(2) by simp
    moreover have "tree_ok t" using TArray.prems(1) t by (simp add: list_all_iff)
    ultimately show "reads_back strtod nul pn t" using TArray.IH t by simp
  qed
  have st: "identify_next (render pn (TArray ts) @ r) = (JSON_ARRAY, render pn (TArray ts) @ r)" for r
    using starts_render [OF rn, of "TArray ts"] by (auto simp: starts_def)
  show ?case
  proof (rule reads_backI)
    fix rest m
    let ?t = "join (map (render pn) ts) @ byte_of (CHR '']'') # rest"
    assume "2 * length (render pn (TArray ts) @ rest) \<le> m"
    then have "2 * length ?t + 2 \<le> m" by simp
    from read_array_render [OF rn mem _ this, of False "[]"] obtain vs where
      vs: "read_array m strtod nul [] False ?t = Done (json_array vs, rest)" "list_all2 represents ts vs"
      by auto
    have "tl (render pn (TArray ts) @ rest) = ?t" by simp
    then have "read_value (Suc m) strtod nul (render pn (TArray ts) @ rest) = Done (json_array vs, rest)"
      using st vs(1) by (simp del: render.simps)
    then show "\<exists>v. read_value (Suc m) strtod nul (render pn (TArray ts) @ rest) = Done (v, rest) \<and>
        represents (TArray ts) v"
      using represents.intros(6) [OF vs(2)] by blast
  qed
next
  case (TObject kvs)
  let ?e = "\<lambda>(k, t). render_string k @ byte_of (CHR '':'') # render pn t"
  have mem: "\<forall>(k, t) \<in> set kvs. reads_back strtod nul pn t \<and> list_all plain_char k"
  proof (rule ballI, clarify)
    fix k t
    assume t: "(k, t) \<in> set kvs"
    then have "?e (k, t) \<in> set (map ?e kvs)" by force
    then have "length (?e (k, t)) \<le> length (join (map ?e kvs))" by (rule length_join_member)
    then have "length (render pn t) < 2 ^ 50" using TObject.prems(2) by simp
    moreover have "tree_ok t" "list_all plain_char k"
      using TObject.prems(1) t by (auto simp: list_all_iff)
    ultimately show "reads_back strtod nul pn t \<and> list_all plain_char k"
      using TObject.IH [OF t, of t] by simp
  qed
  have st: "identify_next (render pn (TObject kvs) @ r) = (JSON_OBJECT, render pn (TObject kvs) @ r)" for r
    using starts_render [OF rn, of "TObject kvs"] by (auto simp: starts_def)
  have cnt: "unat (item_count (table_zero :: 'a json_value table)) + length kvs \<le> 2 ^ 50"
  proof -
    have "length kvs \<le> length (join (map ?e kvs))" by (rule length_join_le)
    then show ?thesis using TObject.prems(2) by (simp add: table_zero_def)
  qed
  have h0: "holds [] table_zero" by (simp add: holds_def)
  show ?case
  proof (rule reads_backI)
    fix rest m
    let ?t = "join (map ?e kvs) @ byte_of (CHR ''}'') # rest"
    assume "2 * length (render pn (TObject kvs) @ rest) \<le> m"
    then have "2 * length ?t + 2 \<le> m" by simp
    from read_object_render [OF rn mem _ h0 cnt this, of False] obtain tab where
      vs: "read_object m strtod nul table_zero False ?t = Done (json_object tab, rest)" "holds kvs tab"
      by auto
    have "tl (render pn (TObject kvs) @ rest) = ?t" by simp
    then have "read_value (Suc m) strtod nul (render pn (TObject kvs) @ rest) = Done (json_object tab, rest)"
      using st vs(1) by (simp del: render.simps)
    moreover have "represents (TObject kvs) (json_object tab)"
      using vs(2) unfolding holds_def by (intro represents.intros(7)) blast+
    ultimately show "\<exists>v. read_value (Suc m) strtod nul (render pn (TObject kvs) @ rest) = Done (v, rest) \<and>
        represents (TObject kvs) v"
      by blast
  qed
qed (rule reads_back_leaf [OF rn]; simp)+

section \<open>Properties\<close>

text \<open>A number syntax for the witnesses: one digit.\<close>

definition one_digit :: "bytes \<Rightarrow> unit \<times> nat" where
  "one_digit t = ((), if t \<noteq> [] \<and> hd t = 49 then 1 else 0)"

lemma one_digit: "reads_numbers one_digit (\<lambda>_. [49])" "strtod_inside one_digit"
  by (auto simp: reads_numbers_def strtod_inside_def one_digit_def byte_of_def Suc_le_eq)

text \<open>C10: \<open>json_parse\<close> reads back every document: for a tree of numbers, strings without
  backslashes and null bytes, arrays and objects, written without white space and followed by
  a line end, it returns a value that represents the tree, where an object finds for every
  key the value of the last pair with that key. The two conversions of numbers are assumed to
  be inverse up to a delimiter.\<close>

theorem json_parse_document:
  assumes "reads_numbers strtod pn" and "tree_ok t" and "length (render pn t) < 2 ^ 50"
  shows "\<exists>v. json_parse strtod nul (render pn t @ [10]) = Done v \<and> represents t v"
proof -
  have "delimited [10]" by (simp add: delimited_def isspace_def)
  moreover have "reads_back strtod nul pn t" using assms by (rule all_reads_back)
  ultimately obtain v where "read_value (2 * length (render pn t @ [10]) + 1) strtod nul (render pn t @ [10])
      = Done (v, [10])" "represents t v"
    unfolding reads_back_def by blast
  then show ?thesis by (simp add: json_parse_def)
qed

theorem json_parse_document_witness:
  "\<exists>v. json_parse one_digit True (render (\<lambda>_. [49])
      (TArray [TNumber (), TObject [(str ''key'', TTrue), (str ''key'', TString (str ''x''))]]) @ [10]) = Done v \<and>
    represents (TArray [TNumber (), TObject [(str ''key'', TTrue), (str ''key'', TString (str ''x''))]]) v"
  by (rule json_parse_document [OF one_digit(1)])
    (simp_all add: plain_char_def render_string_def render_char_def str_def byte_of_def)

text \<open>C11: Reading ends on every text, and on a text that is followed by a null byte it reads
  nothing out of bounds as long as \<open>strtod\<close> does not: \<open>json_parse\<close> returns a value or the
  null pointer, except that rejecting a text whose outermost value is an array of two or more
  members frees one allocation twice.\<close>

theorem json_parse_safe:
  assumes "strtod_inside strtod"
  shows "json_parse strtod True text \<noteq> Loop \<and>
    (json_parse strtod True text = Fault \<longleftrightarrow>
      (\<exists>v. read_value (2 * length text + 1) strtod True text = Fail v \<and> \<not> json_free v))"
proof -
  have "returns (read_value (2 * length text + 1) strtod True text)"
    using json_returns [OF assms] by blast
  then show ?thesis
    by (auto simp: json_parse_def split: outcome.splits prod.splits)
qed

theorem json_parse_safe_witness:
  "json_parse one_digit True (str ''[1,2'') \<noteq> Loop \<and>
    (json_parse one_digit True (str ''[1,2'') = Fault \<longleftrightarrow>
      (\<exists>v. read_value 9 one_digit True (str ''[1,2'') = Fail v \<and> \<not> json_free v))"
  using json_parse_safe [OF one_digit(2), of "str ''[1,2''"] by (simp add: str_def)

text \<open>\<open>json_lookup\<close> in an object that represents a non-empty list of pairs finds the value
  of the last pair with the key, and returns the null pointer when no pair has it.\<close>

theorem json_lookup_last:
  assumes "represents (TObject kvs) (json_object tab)" and "kvs \<noteq> []"
  shows "\<exists>r. json_lookup tab k = Some r \<and> rel_option represents (map_of (rev kvs) k) r"
proof -
  have h: "table_wf tab" "\<And>k. rel_option represents (map_of (rev kvs) k) (table_map tab k)"
    using assms(1) by (auto elim: represents_objectE)
  have "rel_option represents (map_of (rev kvs) (fst (last kvs))) (table_map tab (fst (last kvs)))"
    by (rule h(2))
  moreover have "map_of (rev kvs) (fst (last kvs)) \<noteq> None"
    using assms(2) by (cases kvs rule: rev_cases) auto
  ultimately have "table_map tab \<noteq> Map.empty" by (auto simp: option_rel_Some1)
  then have "buckets tab \<noteq> []" by (auto simp: table_map_def pairs_def)
  from table_get_map [OF h(1) this, of k] h(2) [of k] show ?thesis
    by (auto simp: json_lookup_def)
qed

theorem json_lookup_last_witness:
  "\<exists>tab r. represents (TObject [(str ''a'', TNull), (str ''a'', TTrue)] :: unit jtree) (json_object tab) \<and>
     json_lookup tab (str ''a'') = Some r \<and> rel_option represents (Some TTrue) r"
proof -
  let ?t = "TObject [(str ''a'', TNull), (str ''a'', TTrue)] :: unit jtree"
  have "tree_ok ?t" "length (render (\<lambda>_. [49]) ?t) < 2 ^ 50"
    by (simp_all add: plain_char_def render_string_def render_char_def str_def byte_of_def)
  then have "reads_back one_digit True (\<lambda>_. [49]) ?t" by (rule all_reads_back [OF one_digit(1)])
  moreover have "delimited [10]" by (simp add: delimited_def isspace_def)
  ultimately obtain v where "represents ?t v" unfolding reads_back_def by blast
  then obtain tab where r: "represents ?t (json_object tab)" by (metis represents_objectE)
  then show ?thesis using json_lookup_last [of "[(str ''a'', TNull), (str ''a'', TTrue)]" tab "str ''a''"]
    by (auto simp: str_def)
qed

end
