(* ===== verification/TarRead.thy ===== *)
theory TarRead
  imports BufferIo "HOL-Library.Signed_Division"
begin

text \<open>
  Reading tar archives (\<open>src/tar/read.c\<close>, \<open>src/tar/common.h\<close>, \<open>src/tar/internal/spec.h\<close>).
  The path buffers of a state are given by their contents; the buffer \<open>tmp\<close>, into which a
  block is read from a descriptor, with its memory. A header is the memory that starts at it:
  its text fields are read up to a null byte, wherever that is. \<open>None\<close> is an access out of
  bounds, an arithmetic overflow of a signed type or, for the loop of \<open>tar_update_fd\<close>, no end.
\<close>

section \<open>States\<close>

definition TAR_BLOCK_SIZE :: nat where
  "TAR_BLOCK_SIZE = 512"

text \<open>A variable of the type may also hold a value that is none of the enumeration's.\<close>

datatype tar_type =
  TAR_ERROR | TAR_DIR | TAR_FILE | TAR_SYMLINK | TAR_HARDLINK | TAR_END | TAR_LONGNAME | TAR_LONGLINK
  | tar_type_value nat

record tar_state =
  ts_ready :: bool
  ts_type :: tar_type
  ts_path :: bytes
  ts_tmp :: buffer
  ts_mode :: size_t
  ts_link_path :: bytes
  ts_file_size :: size_t

definition tar_state_zero :: tar_state where
  "tar_state_zero =
     \<lparr>ts_ready = False, ts_type = TAR_ERROR, ts_path = [], ts_tmp = buffer_zero, ts_mode = 0,
      ts_link_path = [], ts_file_size = 0\<rparr>"

definition tar_restart :: "tar_state \<Rightarrow> tar_state" where
  "tar_restart st =
     st\<lparr>ts_type := TAR_ERROR, ts_path := [], ts_tmp := buffer_rewrite (ts_tmp st), ts_link_path := []\<rparr>"

text \<open>The end at the label \<open>fail\<close>.\<close>

definition tar_failed :: "tar_state \<Rightarrow> tar_state" where
  "tar_failed st = st\<lparr>ts_type := TAR_ERROR, ts_ready := True\<rparr>"

section \<open>Fields of a header\<close>

text \<open>
  \<open>strtol\<close> with base 8 returns a \<open>long\<close>, limited to its range, and the rest behind the
  digits; without digits the rest is the whole text.
\<close>

definition octal_digit :: "byte \<Rightarrow> bool" where
  "octal_digit c \<longleftrightarrow> byte_of (CHR ''0'') \<le> c \<and> c \<le> byte_of (CHR ''7'')"

definition octal_value :: "bytes \<Rightarrow> nat" where
  "octal_value ds = foldl (\<lambda>n c. 8 * n + unat (c - byte_of (CHR ''0''))) 0 ds"

definition strtol8 :: "bytes \<Rightarrow> (size_t \<times> bytes) option" where
  "strtol8 m =
     (let m1 = dropWhile isspace m;
          signed = m1 \<noteq> [] \<and> hd m1 \<in> {byte_of (CHR ''-''), byte_of (CHR ''+'')};
          m2 = (if signed then tl m1 else m1);
          ds = takeWhile octal_digit m2;
          rest = dropWhile octal_digit m2
      in if rest = [] then None
         else if ds = [] then Some (0, m)
         else if signed \<and> hd m1 = byte_of (CHR ''-'')
              then Some (- word_of_nat (min (octal_value ds) (2 ^ 63)), rest)
              else Some (word_of_nat (min (octal_value ds) (2 ^ 63 - 1)), rest))"

text \<open>The value is set even when what follows the number makes it invalid.\<close>

definition tar_get_size :: "size_t \<Rightarrow> bytes \<Rightarrow> (bool \<times> size_t) option" where
  "tar_get_size file_size header =
     (let field = drop 124 header
      in if hd field AND 128 \<noteq> 0 then Some (False, file_size)
         else case strtol8 field of
                None \<Rightarrow> None
              | Some (n, endptr) \<Rightarrow> Some (\<not> (hd field = 0 \<or> hd endptr \<noteq> 0), n))"

definition tar_get_mode :: "bytes \<Rightarrow> (bool \<times> size_t) option" where
  "tar_get_mode header =
     (let field = drop 100 header
      in case strtol8 field of
           None \<Rightarrow> None
         | Some (n, endptr) \<Rightarrow> Some (\<not> (hd field = 0 \<or> hd endptr \<noteq> 0), n))"

definition block_is_zero :: "bytes \<Rightarrow> bool" where
  "block_is_zero header = list_all (\<lambda>c. c = 0) header"

text \<open>
  \<open>record_mem\<close> appends \<open>want_size\<close> bytes, the size rounded up to blocks, and a null byte
  that is not counted. A negative \<open>want_size\<close> passes the check of the size and is a huge
  size for \<open>memcpy\<close>.
\<close>

definition want_size :: "int \<Rightarrow> int" where
  "want_size n =
     (if n smod int TAR_BLOCK_SIZE = 0 then n
      else (n sdiv int TAR_BLOCK_SIZE + 1) * int TAR_BLOCK_SIZE)"

definition record_mem :: "bytes \<Rightarrow> bytes \<Rightarrow> int \<Rightarrow> (bool \<times> bytes \<times> bytes) option" where
  "record_mem buf m n =
     (if want_size n \<ge> 2 ^ 63 then None
      else if int (length m) < want_size n then Some (False, buf, m)
      else if want_size n < 0 then None
      else Some (True, buf @ take (nat (want_size n)) m, drop (nat (want_size n)) m))"

section \<open>One block\<close>

definition REGTYPE :: byte where "REGTYPE = byte_of (CHR ''0'')"
definition LNKTYPE :: byte where "LNKTYPE = byte_of (CHR ''1'')"
definition SYMTYPE :: byte where "SYMTYPE = byte_of (CHR ''2'')"
definition DIRTYPE :: byte where "DIRTYPE = byte_of (CHR ''5'')"
definition GNUTYPE_LONGLINK :: byte where "GNUTYPE_LONGLINK = byte_of (CHR ''K'')"
definition GNUTYPE_LONGNAME :: byte where "GNUTYPE_LONGNAME = byte_of (CHR ''L'')"

lemmas typeflags = REGTYPE_def LNKTYPE_def SYMTYPE_def DIRTYPE_def GNUTYPE_LONGLINK_def
  GNUTYPE_LONGNAME_def

text \<open>
  The end of \<open>tar_update_mem\<close>, once the type is known: name, link target, size and mode of
  the item. The header is the memory from its first byte on.
\<close>

definition tar_update_link :: "bool \<Rightarrow> tar_state \<Rightarrow> bytes \<Rightarrow> (bool \<times> tar_state) option" where
  "tar_update_link longlink st header =
     (if ts_type st = TAR_HARDLINK \<or> ts_type st = TAR_SYMLINK then
        (if longlink then Some (True, st)
         else map_option (\<lambda>s. (True, st\<lparr>ts_link_path := s\<rparr>)) (c_string (drop 157 header)))
      else Some (\<not> longlink, st))"

definition tar_update_size :: "tar_state \<Rightarrow> bytes \<Rightarrow> (bool \<times> tar_state) option" where
  "tar_update_size st header =
     (if ts_type st = TAR_FILE
      then map_option (\<lambda>(ok, n). (ok, st\<lparr>ts_file_size := n\<rparr>)) (tar_get_size (ts_file_size st) header)
      else Some (True, st))"

definition tar_update_mode :: "tar_state \<Rightarrow> bytes \<Rightarrow> (bool \<times> tar_state) option" where
  "tar_update_mode st header =
     (if ts_type st \<in> {TAR_FILE, TAR_DIR, TAR_HARDLINK, TAR_SYMLINK}
      then map_option (\<lambda>(ok, n). (ok, st\<lparr>ts_mode := n\<rparr>)) (tar_get_mode header)
      else Some (True, st))"

definition tar_update_item :: "bool \<Rightarrow> bool \<Rightarrow> tar_state \<Rightarrow> bytes \<Rightarrow> (bool \<times> tar_state) option" where
  "tar_update_item longname longlink st header =
     (case (if longname then Some (ts_path st) else c_string header) of
        None \<Rightarrow> None
      | Some p \<Rightarrow>
          (case tar_update_link longlink (st\<lparr>ts_path := p\<rparr>) header of
             None \<Rightarrow> None
           | Some (False, st1) \<Rightarrow> Some (False, tar_failed st1)
           | Some (True, st1) \<Rightarrow>
               (case tar_update_size st1 header of
                  None \<Rightarrow> None
                | Some (False, st2) \<Rightarrow> Some (False, tar_failed st2)
                | Some (True, st2) \<Rightarrow>
                    (case tar_update_mode st2 header of
                       None \<Rightarrow> None
                     | Some (False, st3) \<Rightarrow> Some (False, tar_failed st3)
                     | Some (True, st3) \<Rightarrow> Some (True, st3\<lparr>ts_ready := True\<rparr>)))))"

text \<open>
  The branches on the type flag. \<open>m\<close> is the range, \<open>beyond\<close> the memory that follows it.
  A hard link is given the type whose number is the character \<open>LNKTYPE\<close>.
\<close>

definition tar_update_header ::
    "bool \<Rightarrow> bool \<Rightarrow> tar_state \<Rightarrow> bytes \<Rightarrow> bytes \<Rightarrow> (bool \<times> tar_state) option" where
  "tar_update_header longname longlink st m beyond =
     (let typeflag = m ! 156; item = \<lambda>ty. tar_update_item longname longlink (st\<lparr>ts_type := ty\<rparr>) (m @ beyond)
      in if block_is_zero (take TAR_BLOCK_SIZE m) then
           (if ts_type st = TAR_END then Some (False, st\<lparr>ts_ready := True\<rparr>)
            else Some (True, st\<lparr>ts_type := TAR_END\<rparr>))
         else if typeflag = REGTYPE then item TAR_FILE
         else if typeflag = DIRTYPE then item TAR_DIR
         else if typeflag = SYMTYPE then item TAR_SYMLINK
         else if typeflag = LNKTYPE then item (tar_type_value (unat LNKTYPE))
         else if typeflag = GNUTYPE_LONGNAME then Some (True, st\<lparr>ts_type := TAR_LONGNAME, ts_path := []\<rparr>)
         else if typeflag = GNUTYPE_LONGLINK then Some (True, st\<lparr>ts_type := TAR_LONGLINK, ts_link_path := []\<rparr>)
         else Some (False, tar_failed st))"

text \<open>The result, the state and the rest of the range.\<close>

definition tar_update_mem ::
    "tar_state \<Rightarrow> bytes \<Rightarrow> bytes \<Rightarrow> (bool \<times> tar_state \<times> bytes) option" where
  "tar_update_mem state m beyond =
     (let st = state\<lparr>ts_ready := False\<rparr>;
          longname = (ts_type st = TAR_LONGNAME);
          longlink = (ts_type st = TAR_LONGLINK);
          have = (word_of_nat (length (if longname then ts_path st else ts_link_path st)) :: size_t)
      in if (longname \<or> longlink) \<and> have < ts_file_size st then
           (case record_mem (if longname then ts_path st else ts_link_path st) m
                   (sint (ts_file_size st - have)) of
              None \<Rightarrow> None
            | Some (_, buf, rest) \<Rightarrow>
                Some (True, if longname then st\<lparr>ts_path := buf\<rparr> else st\<lparr>ts_link_path := buf\<rparr>, rest))
         else if (longname \<or> longlink) \<and> have \<noteq> ts_file_size st then Some (False, tar_failed st, m)
         else if length m < TAR_BLOCK_SIZE then Some (True, st, m)
         else map_option (\<lambda>(ok, st'). (ok, st', drop TAR_BLOCK_SIZE m))
                (tar_update_header longname longlink st m beyond))"

section \<open>Descriptors\<close>

partial_function (option) tar_update_fd ::
    "allocator \<Rightarrow> tar_state \<Rightarrow> read_fd \<Rightarrow> (bool \<times> tar_state \<times> read_fd) option" where
  "tar_update_fd al st fd =
     (case buffer_read_loop al (buffer_rewrite (ts_tmp st)) TAR_BLOCK_SIZE 0 fd of
        None \<Rightarrow> None
      | Some (n, b, fd1) \<Rightarrow>
          (let st1 = st\<lparr>ts_tmp := b\<rparr>
           in if n < 0 then Some (False, tar_failed st1, fd1)
              else if used b < TAR_BLOCK_SIZE then Some (False, tar_failed st1, fd1)
              else case tar_update_mem st1 (take (used b) (mem b)) (drop (used b) (mem b)) of
                     None \<Rightarrow> None
                   | Some (ok, st2, _) \<Rightarrow>
                       if \<not> ok then Some (False, st2, fd1)
                       else if ts_ready st2 then Some (True, st2, fd1)
                       else tar_update_fd al st2 fd1))"

definition round_blocks :: "size_t \<Rightarrow> size_t" where
  "round_blocks n =
     (if n mod word_of_nat TAR_BLOCK_SIZE = 0 then n
      else (n div word_of_nat TAR_BLOCK_SIZE + 1) * word_of_nat TAR_BLOCK_SIZE)"

definition tar_read_region ::
    "allocator \<Rightarrow> buffer \<Rightarrow> size_t \<Rightarrow> read_fd \<Rightarrow> (bool \<times> buffer \<times> read_fd) option" where
  "tar_read_region al buf n fd =
     (if n = 0 then Some (True, buf, fd)
      else case buffer_read_loop al buf (unat (round_blocks n)) 0 fd of
             None \<Rightarrow> None
           | Some (r, b, fd1) \<Rightarrow>
               if r < 0 then Some (False, b, fd1)
               else if used b \<noteq> unat (round_blocks n) then Some (False, b, fd1)
               else Some (True, snd (buffer_resize al b (unat n)), fd1))"

fun tar_skip_blocks :: "nat \<Rightarrow> allocator \<Rightarrow> tar_state \<Rightarrow> read_fd \<Rightarrow> (bool \<times> tar_state \<times> read_fd) option" where
  "tar_skip_blocks 0 al st fd = Some (True, st, fd)"
| "tar_skip_blocks (Suc k) al st fd =
     (case tar_read_region al (buffer_rewrite (ts_tmp st)) (word_of_nat TAR_BLOCK_SIZE) fd of
        None \<Rightarrow> None
      | Some (ok, b, fd1) \<Rightarrow>
          if ok then tar_skip_blocks k al (st\<lparr>ts_tmp := b\<rparr>) fd1
          else Some (False, st\<lparr>ts_tmp := b\<rparr>, fd1))"

definition tar_skip_file :: "allocator \<Rightarrow> tar_state \<Rightarrow> read_fd \<Rightarrow> (bool \<times> tar_state \<times> read_fd) option" where
  "tar_skip_file al st fd =
     tar_skip_blocks (unat (round_blocks (ts_file_size st)) div TAR_BLOCK_SIZE) al st fd"

end
