(* ===== verification/Path.thy ===== *)
theory Path
  imports BufferIo
begin

text \<open>
  Paths (\<open>src/path/path.c\<close>): joining two of them, and making the directories on the way to
  one. A path is the text before its null byte.
\<close>

definition PATH_SEPARATOR :: byte where "PATH_SEPARATOR = byte_of (CHR ''/'')"

section \<open>path_cat\<close>

text \<open>The length of \<open>a\<close> without the separators at its end.\<close>

fun strip_length :: "bytes \<Rightarrow> nat \<Rightarrow> nat" where
  "strip_length a 0 = 0"
| "strip_length a (Suc n) = (if a ! n = PATH_SEPARATOR then strip_length a n else Suc n)"

fun skip_separators :: "bytes \<Rightarrow> bytes" where
  "skip_separators [] = []"
| "skip_separators (c # cs) = (if c = PATH_SEPARATOR then skip_separators cs else c # cs)"

definition path_cat :: "allocator \<Rightarrow> buffer \<Rightarrow> bytes \<Rightarrow> bytes \<Rightarrow> buffer option" where
  "path_cat al b x y =
     (let a_len = strip_length x (length x)
      in if a_len = 0 then buffer_printf al b y
         else buffer_printf al b (take a_len x @ [PATH_SEPARATOR] @ skip_separators y))"

section \<open>Making directories\<close>

text \<open>
  \<open>mkdir\<close> is a parameter: it returns whether the directory exists afterwards, and the new
  state of the file system. The second list is what of the path is not read yet.
\<close>

fun path_mkdir_loop :: "(bytes \<Rightarrow> 'f \<Rightarrow> bool \<times> 'f) \<Rightarrow> bytes \<Rightarrow> bytes \<Rightarrow> 'f \<Rightarrow> bool \<times> 'f" where
  "path_mkdir_loop mkdir before [] fs = (True, fs)"
| "path_mkdir_loop mkdir before (c # rest) fs =
     (if c = PATH_SEPARATOR
      then case mkdir before fs of
             (False, fs') \<Rightarrow> (False, fs')
           | (True, fs') \<Rightarrow> path_mkdir_loop mkdir (before @ [c]) rest fs'
      else path_mkdir_loop mkdir (before @ [c]) rest fs)"

definition path_mkdir :: "(bytes \<Rightarrow> 'f \<Rightarrow> bool \<times> 'f) \<Rightarrow> bytes \<Rightarrow> bool \<Rightarrow> 'f \<Rightarrow> bool \<times> 'f" where
  "path_mkdir mkdir path make_target fs =
     (case (case path of
              c # rest \<Rightarrow> if c = PATH_SEPARATOR then path_mkdir_loop mkdir [c] rest fs
                         else path_mkdir_loop mkdir [] path fs
            | [] \<Rightarrow> path_mkdir_loop mkdir [] [] fs) of
        (False, fs') \<Rightarrow> (False, fs')
      | (True, fs') \<Rightarrow> if make_target then mkdir path fs' else (True, fs'))"

section \<open>What they do\<close>

lemma strip_length_spec:
  "n \<le> length x \<Longrightarrow> take (strip_length x n) x = rev (dropWhile (\<lambda>c. c = PATH_SEPARATOR) (rev (take n x))) \<and>
     strip_length x n \<le> n"
proof (induction n)
  case (Suc n)
  have "rev (take (Suc n) x) = x ! n # rev (take n x)" using Suc.prems by (simp add: take_Suc_conv_app_nth)
  then show ?case using Suc by (auto simp: take_Suc_conv_app_nth)
qed simp

lemma skip_separators_dropWhile: "skip_separators y = dropWhile (\<lambda>c. c = PATH_SEPARATOR) y"
  by (induction y) auto

text \<open>The prefixes of a path that end before a separator, except for one at its beginning.\<close>

fun parents :: "bytes \<Rightarrow> bytes \<Rightarrow> bytes list" where
  "parents before [] = []"
| "parents before (c # rest) =
     (if c = PATH_SEPARATOR then before # parents (before @ [c]) rest else parents (before @ [c]) rest)"

definition path_parents :: "bytes \<Rightarrow> bytes list" where
  "path_parents path =
     (case path of
        [] \<Rightarrow> []
      | c # rest \<Rightarrow> if c = PATH_SEPARATOR then parents [c] rest else parents [] path)"

text \<open>Making the directories of a list in order, up to the first failure.\<close>

fun mkdirs :: "(bytes \<Rightarrow> 'f \<Rightarrow> bool \<times> 'f) \<Rightarrow> bytes list \<Rightarrow> 'f \<Rightarrow> bool \<times> 'f" where
  "mkdirs mkdir [] fs = (True, fs)"
| "mkdirs mkdir (d # ds) fs = (case mkdir d fs of (False, fs') \<Rightarrow> (False, fs') | (True, fs') \<Rightarrow> mkdirs mkdir ds fs')"

lemma mkdirs_append:
  "mkdirs mkdir (ds @ es) fs = (case mkdirs mkdir ds fs of (False, fs') \<Rightarrow> (False, fs') | (True, fs') \<Rightarrow> mkdirs mkdir es fs')"
  by (induction ds arbitrary: fs) (auto split: prod.split bool.split)

lemma path_mkdir_loop_mkdirs: "path_mkdir_loop mkdir before rest fs = mkdirs mkdir (parents before rest) fs"
  by (induction mkdir before rest fs rule: path_mkdir_loop.induct) (auto split: prod.split bool.split)

section \<open>Properties\<close>

text \<open>The loop that overwrites each separator of a path with a null byte, makes the
  directory and puts the separator back makes exactly the parents of the path from the
  outermost one on, and the path itself if that is asked for, and stops at the first
  directory that cannot be made.\<close>

theorem path_mkdir_parents:
  "path_mkdir mkdir path make_target fs =
     mkdirs mkdir (path_parents path @ (if make_target then [path] else [])) fs"
  unfolding path_mkdir_def path_parents_def mkdirs_append path_mkdir_loop_mkdirs
  by (cases path) (auto split: prod.split bool.split)

text \<open>The text of a joined path; a first path of separators only is dropped, the root too.\<close>

lemma path_cat_contents:
  assumes "buffer_wf b" and "length x + length y + 2 < 2 ^ 60" and "\<forall>m < 2 ^ 63. can_alloc al m"
  shows "\<exists>b'. path_cat al b x y = Some b' \<and> buffer_wf b' \<and>
    contents b' = (let x' = rev (dropWhile (\<lambda>c. c = PATH_SEPARATOR) (rev x))
                   in if x' = [] then y else x' @ [PATH_SEPARATOR] @ dropWhile (\<lambda>c. c = PATH_SEPARATOR) y)"
proof -
  let ?n = "strip_length x (length x)"
  have s: "take ?n x = rev (dropWhile (\<lambda>c. c = PATH_SEPARATOR) (rev x))" "?n \<le> length x"
    using strip_length_spec [of "length x" x] by simp_all
  show ?thesis
  proof (cases "?n = 0")
    case True
    then have "rev (dropWhile (\<lambda>c. c = PATH_SEPARATOR) (rev x)) = []" using s(1) by simp
    moreover obtain b' where "buffer_printf al b y = Some b'" "contents b' = y" "buffer_wf b'"
      using buffer_printf_contents [OF assms(1) _ assms(3), of y] assms(2) by auto
    ultimately show ?thesis using True by (simp add: path_cat_def Let_def)
  next
    case False
    let ?t = "take ?n x @ [PATH_SEPARATOR] @ skip_separators y"
    have ne: "rev (dropWhile (\<lambda>c. c = PATH_SEPARATOR) (rev x)) \<noteq> []"
      unfolding s(1) [symmetric] using False s(2) by (cases x) auto
    have "length ?t + 1 < 2 ^ 60"
      using assms(2) s(2) length_dropWhile_le [of "\<lambda>c. c = PATH_SEPARATOR" y]
      by (simp add: skip_separators_dropWhile)
    then obtain b' where b': "buffer_printf al b ?t = Some b'" "contents b' = ?t" "buffer_wf b'"
      using buffer_printf_contents [OF assms(1) _ assms(3)] by blast
    then have "path_cat al b x y = Some b'" using False by (simp add: path_cat_def)
    then show ?thesis using b'(2,3) ne unfolding Let_def if_not_P [OF ne] by (simp add: s(1) skip_separators_dropWhile)
  qed
qed

end
