(* ===== verification/TarWrite.thy ===== *)
theory TarWrite
  imports TarRead Path
begin

text \<open>
  Writing tar archives (\<open>src/tar/write.c\<close>). The output buffer is given by its contents.
  C strings are the bytes before their null byte. \<open>None\<close> is a read out of bounds.
\<close>

section \<open>Headers\<close>

fun convert_type :: "tar_type \<Rightarrow> byte option" where
  "convert_type TAR_DIR = Some DIRTYPE"
| "convert_type TAR_FILE = Some REGTYPE"
| "convert_type TAR_HARDLINK = Some LNKTYPE"
| "convert_type TAR_SYMLINK = Some SYMTYPE"
| "convert_type TAR_LONGLINK = Some GNUTYPE_LONGLINK"
| "convert_type TAR_LONGNAME = Some GNUTYPE_LONGNAME"
| "convert_type _ = None"

fun ends_with :: "bytes \<Rightarrow> byte \<Rightarrow> bool" where
  "ends_with [] c = False"
| "ends_with [s] c = (s = c)"
| "ends_with (s # t # ss) c = ends_with (t # ss) c"

text \<open>The struct of a header; every field has its size.\<close>

record posix_header =
  h_name :: bytes
  h_mode :: bytes
  h_uid :: bytes
  h_gid :: bytes
  h_size :: bytes
  h_mtime :: bytes
  h_chksum :: bytes
  h_typeflag :: byte
  h_linkname :: bytes
  h_magic :: bytes
  h_version :: bytes
  h_uname :: bytes
  h_gname :: bytes
  h_devmajor :: bytes
  h_devminor :: bytes
  h_prefix :: bytes

definition header_bytes :: "posix_header \<Rightarrow> bytes" where
  "header_bytes h =
     h_name h @ h_mode h @ h_uid h @ h_gid h @ h_size h @ h_mtime h @ h_chksum h @ [h_typeflag h]
       @ h_linkname h @ h_magic h @ h_version h @ h_uname h @ h_gname h @ h_devmajor h @ h_devminor h
       @ h_prefix h"

text \<open>
  A field of \<open>n\<close> bytes that was set to null bytes, after \<open>strcpy\<close> or \<open>strncpy\<close> of \<open>s\<close>;
  \<open>snprintf\<close> also cuts the text to leave a null byte. \<open>%0wo\<close> of an unsigned number.
\<close>

definition field :: "nat \<Rightarrow> bytes \<Rightarrow> bytes" where
  "field n s = take n (s @ replicate n 0)"

definition snprintf_field :: "nat \<Rightarrow> bytes \<Rightarrow> bytes" where
  "snprintf_field n s = field n (take (n - 1) s)"

fun octal_digits :: "nat \<Rightarrow> bytes" where
  "octal_digits n =
     (if n < 8 then [word_of_nat (48 + n)] else octal_digits (n div 8) @ [word_of_nat (48 + n mod 8)])"

declare octal_digits.simps [simp del]

definition octal :: "nat \<Rightarrow> nat \<Rightarrow> bytes" where
  "octal w n = (let ds = octal_digits n in replicate (w - length ds) (byte_of (CHR ''0'')) @ ds)"

text \<open>The sum of the bytes as the (signed) \<open>char\<close> they are.\<close>

definition checksum :: "bytes \<Rightarrow> 32 word" where
  "checksum block = sum_list (map (\<lambda>c. scast c) block)"

text \<open>
  The data bases of users and groups, by name and by number; an entry is its name and number.
  The functions return a pointer to the entry, and POSIX lets them keep it in static storage
  that the next lookup overwrites; \<open>one_entry\<close> says whether they do.
\<close>

record os_users =
  getpwnam :: "bytes \<Rightarrow> (bytes \<times> 32 word) option"
  getpwuid :: "32 word \<Rightarrow> (bytes \<times> 32 word) option"
  getgrnam :: "bytes \<Rightarrow> (bytes \<times> 32 word) option"
  getgrgid :: "32 word \<Rightarrow> (bytes \<times> 32 word) option"
  one_entry :: bool

record tar_header_args =
  a_name :: bytes
  a_mode :: "32 word"
  a_uid :: "32 word"
  a_gid :: "32 word"
  a_size :: size_t
  a_mtime :: size_t
  a_type :: tar_type
  a_linkname :: "bytes option"
  a_uname :: "bytes option"
  a_gname :: "bytes option"

definition tar_passwd :: "os_users \<Rightarrow> tar_header_args \<Rightarrow> (bytes \<times> 32 word) option" where
  "tar_passwd os args =
     (case a_uname args of Some n \<Rightarrow> getpwnam os n | None \<Rightarrow> getpwuid os (a_uid args))"

definition tar_group :: "os_users \<Rightarrow> tar_header_args \<Rightarrow> (bytes \<times> 32 word) option" where
  "tar_group os args =
     (case a_gname args of Some n \<Rightarrow> getgrnam os n | None \<Rightarrow> getgrgid os (a_gid args))"

text \<open>
  The header with a checksum field of spaces, and the block with the checksum. Only the
  struct is initialised: the last twelve bytes of the block are \<open>junk\<close>.
\<close>

definition tar_header_fields ::
    "tar_header_args \<Rightarrow> bytes \<times> 32 word \<Rightarrow> bytes \<times> 32 word \<Rightarrow> bytes \<Rightarrow> byte \<Rightarrow> bytes \<Rightarrow> posix_header" where
  "tar_header_fields args pw gr name typeflag linkname =
     \<lparr>h_name = field 100 name,
      h_mode = snprintf_field 8 (octal 7 (unat (a_mode args))),
      h_uid = snprintf_field 8 (octal 7 (unat (snd pw))),
      h_gid = snprintf_field 8 (octal 7 (unat (snd gr))),
      h_size = snprintf_field 12 (octal 11 (unat (a_size args))),
      h_mtime = snprintf_field 12 (octal 11 (unat (a_mtime args))),
      h_chksum = replicate 8 (byte_of (CHR '' '')),
      h_typeflag = typeflag,
      h_linkname = field 100 linkname,
      h_magic = str ''ustar '',
      h_version = [byte_of (CHR '' ''), 0],
      h_uname = field 32 (fst pw),
      h_gname = field 32 (fst gr),
      h_devmajor = replicate 8 0,
      h_devminor = replicate 8 0,
      h_prefix = replicate 155 0\<rparr>"

definition tar_header_block :: "posix_header \<Rightarrow> bytes \<Rightarrow> bytes" where
  "tar_header_block h junk =
     (let sum = checksum (header_bytes h @ junk)
      in header_bytes (h\<lparr>h_chksum := snprintf_field 8 (octal 7 (unat sum))\<rparr>) @ junk)"

definition tar_write_padding :: "bytes \<Rightarrow> nat \<Rightarrow> bytes" where
  "tar_write_padding out file_size =
     (let block_have = file_size mod TAR_BLOCK_SIZE
      in if block_have = 0 then out else out @ replicate (TAR_BLOCK_SIZE - block_have) 0)"

definition tar_write_end :: "bytes \<Rightarrow> bytes" where
  "tar_write_end out = out @ replicate (2 * TAR_BLOCK_SIZE) 0"

text \<open>The arguments of the calls for a long name or link; the others are zero.\<close>

definition long_args :: "bytes \<Rightarrow> nat \<Rightarrow> tar_type \<Rightarrow> tar_header_args" where
  "long_args name n ty =
     \<lparr>a_name = name, a_mode = 0, a_uid = 0, a_gid = 0, a_size = word_of_nat n, a_mtime = 0, a_type = ty,
      a_linkname = None, a_uname = None, a_gname = None\<rparr>"

text \<open>
  The entries that the pointers show after an inner call, which looks up the user and the
  group of number zero, the group only when there is such a user. A lookup that finds nothing
  leaves the storage as it is.
\<close>

definition inner_lookups ::
    "os_users \<Rightarrow> (bytes \<times> 32 word) \<times> (bytes \<times> 32 word) \<Rightarrow> (bytes \<times> 32 word) \<times> (bytes \<times> 32 word)" where
  "inner_lookups os us =
     (if one_entry os
      then (case getpwuid os 0 of
              None \<Rightarrow> us
            | Some pw \<Rightarrow> (pw, case getgrgid os 0 of None \<Rightarrow> snd us | Some gr \<Rightarrow> gr))
      else us)"

text \<open>
  \<open>tar_write_header\<close>: what it returns and the output, which keeps what was written before a
  failure. \<open>junk\<close> gives the uninitialised bytes for the header that is written at a point of
  the output. The results of the two inner calls are not looked at. Behind the header of a
  long link the bytes of the name are appended, as many as the link has. The numbers of the
  owner are printed between the two inner calls, the names behind them, so that they can be
  those of other entries than the ones that were looked up.
\<close>

function tar_write_header ::
    "os_users \<Rightarrow> (nat \<Rightarrow> bytes) \<Rightarrow> tar_header_args \<Rightarrow> bytes \<Rightarrow> (bool \<times> bytes) option" where
  "tar_write_header os junk args out =
     (case (tar_passwd os args, tar_group os args) of
        (Some pw, Some gr) \<Rightarrow>
          (let name = dropWhile (\<lambda>c. c = PATH_SEPARATOR) (a_name args);
               n = length name + 1;
               add_sep = (a_type args = TAR_DIR \<and> \<not> ends_with name PATH_SEPARATOR);
               fits = n + (if add_sep then 1 else 0) < 100;
               us1 = (if fits then (pw, gr) else inner_lookups os (pw, gr))
           in case (if fits then Some out
                    else case tar_write_header os junk (long_args (str ''././@LongName'') n TAR_LONGNAME) out of
                           None \<Rightarrow> None
                         | Some (_, o1) \<Rightarrow>
                             Some (tar_write_padding
                               (o1 @ name @ (if add_sep then [PATH_SEPARATOR, 0] else [0])) n)) of
                None \<Rightarrow> None
              | Some out1 \<Rightarrow>
                  if unat (a_size args) > 8589934591 then Some (False, out1)
                  else case convert_type (a_type args) of
                         None \<Rightarrow> Some (False, out1)
                       | Some typeflag \<Rightarrow>
                           (case (case a_linkname args of
                                    None \<Rightarrow> Some ([], us1, out1)
                                  | Some l \<Rightarrow>
                                      if length l + 1 < 100 then Some (l, us1, out1)
                                      else case tar_write_header os junk
                                                  (long_args (str ''././@LongLink'') (length l + 1) TAR_LONGLINK) out1 of
                                             None \<Rightarrow> None
                                           | Some (_, o2) \<Rightarrow>
                                               if length l > length name then None
                                               else Some ([], inner_lookups os us1, tar_write_padding
                                                 (o2 @ take (length l + 1) (name @ [0])) (length l + 1))) of
                              None \<Rightarrow> None
                            | Some (link, us2, out2) \<Rightarrow>
                                Some (True, out2 @ tar_header_block
                                  (tar_header_fields args (fst (fst us2), snd (fst us1)) (fst (snd us2), snd (snd us1))
                                     (if fits then name @ (if add_sep then [PATH_SEPARATOR] else []) else [])
                                     typeflag link)
                                  (take 12 (junk (length out2) @ replicate 12 0)))))
      | _ \<Rightarrow> Some (False, out))"
  by pat_completeness auto
termination
proof (relation "measure (\<lambda>(os, junk, args, out). length (a_name args)
    + (case a_linkname args of None \<Rightarrow> 0 | Some l \<Rightarrow> Suc (length l)))", goal_cases)
  case 1
  show ?case by simp
next
  case (2 os junk args out)
  then show ?case
    using length_dropWhile_le [of "\<lambda>c. c = PATH_SEPARATOR" "a_name args"]
    by (auto simp: long_args_def str_def split: if_splits option.splits)
next
  case (3 os junk args out)
  then show ?case by (auto simp: long_args_def str_def split: if_splits option.splits)
qed

section \<open>Headers for files\<close>

text \<open>What \<open>lstat\<close> says of a file, and its type from the mode.\<close>

record file_stat =
  st_mode :: "32 word"
  st_uid :: "32 word"
  st_gid :: "32 word"
  st_size :: size_t

definition stat_type :: "file_stat \<Rightarrow> tar_type" where
  "stat_type s =
     (let fmt = st_mode s AND 61440
      in if fmt = 32768 then TAR_FILE
         else if fmt = 16384 then TAR_DIR
         else if fmt = 40960 then TAR_SYMLINK
         else TAR_ERROR)"

definition path_max :: nat where
  "path_max = 4096"

text \<open>
  \<open>lstat\<close> and \<open>readlink\<close> are arguments: their answer for a path, \<open>None\<close> for a failure. A
  link that fills the buffer of \<open>path_max + 1\<close> bytes is an error. The last result is what
  the caller is told of the type and the size.
\<close>

definition tar_write_path_header ::
    "os_users \<Rightarrow> (nat \<Rightarrow> bytes) \<Rightarrow> (bytes \<Rightarrow> file_stat option) \<Rightarrow> (bytes \<Rightarrow> bytes option)
       \<Rightarrow> bytes \<Rightarrow> bytes option \<Rightarrow> bytes \<Rightarrow> (bool \<times> bytes \<times> (tar_type \<times> size_t) option) option" where
  "tar_write_path_header os junk lstat readlink p override_name out =
     (case lstat p of
        None \<Rightarrow> Some (False, out, None)
      | Some s \<Rightarrow>
          if stat_type s = TAR_ERROR then Some (False, out, None)
          else (let link = (if stat_type s = TAR_SYMLINK then map_option (take (path_max + 1)) (readlink p)
                            else Some [])
                in case link of
                     None \<Rightarrow> Some (False, out, None)
                   | Some l \<Rightarrow>
                       if length l = path_max + 1 then Some (False, out, None)
                       else case tar_write_header os junk
                                   \<lparr>a_name = (case override_name of Some n \<Rightarrow> n | None \<Rightarrow> p),
                                    a_mode = st_mode s, a_uid = st_uid s, a_gid = st_gid s, a_size = st_size s,
                                    a_mtime = 0, a_type = stat_type s,
                                    a_linkname = (if stat_type s = TAR_SYMLINK then Some l else None),
                                    a_uname = None, a_gname = None\<rparr> out of
                              None \<Rightarrow> None
                            | Some (ok, o1) \<Rightarrow>
                                Some (ok, o1, if ok then Some (stat_type s, st_size s) else None)))"

end
