(* ===== verification/Tar.thy ===== *)
theory Tar
  imports TarWrite
begin

text \<open>
  What is written by \<open>tar_write_header\<close> is read back by \<open>tar_update_fd\<close>: numbers, headers,
  and archives; and reading makes no access out of bounds.
\<close>

section \<open>Numbers\<close>

lemma octal_digits_nonempty [simp]: "octal_digits n \<noteq> []"
  by (subst octal_digits.simps) simp

lemma octal_char: "k < 8 \<Longrightarrow> octal_digit (word_of_nat (48 + k)) \<and> unat (word_of_nat (48 + k) - byte_of (CHR ''0'')) = k"
proof -
  assume "k < 8"
  then have "k \<in> {0, 1, 2, 3, 4, 5, 6, 7}" by auto
  then show ?thesis by (elim insertE emptyE) (auto simp: octal_digit_def byte_of_def)
qed

lemma octal_digits_all: "list_all octal_digit (octal_digits n)"
proof (induction n rule: octal_digits.induct)
  case (1 n)
  show ?case
    using 1 octal_char [of n] octal_char [of "n mod 8"] by (subst octal_digits.simps) auto
qed

lemma octal_value_snoc: "octal_value (ds @ [c]) = 8 * octal_value ds + unat (c - byte_of (CHR ''0''))"
  by (simp add: octal_value_def)

lemma octal_value_digits: "octal_value (octal_digits n) = n"
proof (induction n rule: octal_digits.induct)
  case (1 n)
  show ?case
  proof (cases "n < 8")
    case True
    then show ?thesis using octal_char [of n] by (subst octal_digits.simps) (simp add: octal_value_def)
  next
    case False
    then have "octal_value (octal_digits n) = 8 * (n div 8) + n mod 8"
      using 1 octal_char [of "n mod 8"] by (subst octal_digits.simps) (simp add: octal_value_snoc)
    then show ?thesis by simp
  qed
qed

lemma octal_value_zeros: "octal_value (replicate k (byte_of (CHR ''0'')) @ ds) = octal_value ds"
  by (induction k) (simp_all add: octal_value_def)

lemma octal_value_octal: "octal_value (octal w n) = n"
  by (simp add: octal_def Let_def octal_value_zeros octal_value_digits)

lemma octal_all: "list_all octal_digit (octal w n)"
proof -
  have "octal_digit (byte_of (CHR ''0''))" by (simp add: octal_digit_def byte_of_def)
  then show ?thesis using octal_digits_all [of n] by (auto simp: octal_def Let_def list_all_iff)
qed

lemma length_octal_digits: "n < 8 ^ w \<Longrightarrow> 0 < w \<Longrightarrow> length (octal_digits n) \<le> w"
proof (induction n arbitrary: w rule: octal_digits.induct)
  case (1 n)
  show ?case
  proof (cases "n < 8")
    case True
    then show ?thesis using "1.prems" by (subst octal_digits.simps) simp
  next
    case False
    then obtain w' where w: "w = Suc w'" "0 < w'" using "1.prems" by (cases w; cases "w - 1") auto
    have "n div 8 < 8 ^ w'" using "1.prems" w by (simp add: div_less_iff_less_mult mult.commute)
    then have "length (octal_digits (n div 8)) \<le> w'" using 1 False w by blast
    then show ?thesis using False w by (subst octal_digits.simps) simp
  qed
qed

lemma length_octal: "n < 8 ^ w \<Longrightarrow> 0 < w \<Longrightarrow> length (octal w n) = w"
  using length_octal_digits by (simp add: octal_def Let_def)

lemma octal_nonempty [simp]: "octal w n \<noteq> []"
  by (simp add: octal_def Let_def)

lemma octal_hd: "octal_digit (hd (octal w n))"
  using octal_all [of w n] by (cases "octal w n") (auto simp: octal_nonempty [THEN notE])

lemma octal_digit_not: "octal_digit c \<Longrightarrow>
    \<not> isspace c \<and> c \<noteq> byte_of (CHR ''-'') \<and> c \<noteq> byte_of (CHR ''+'') \<and> c \<noteq> 0 \<and> c AND 128 = 0"
  by (rule byte_exhaust [where P = "\<lambda>c. octal_digit c \<longrightarrow> \<not> isspace c \<and> c \<noteq> byte_of (CHR ''-'') \<and>
        c \<noteq> byte_of (CHR ''+'') \<and> c \<noteq> 0 \<and> c AND 128 = 0", THEN mp])
    (code_simp, assumption)

lemma strtol8_octal:
  assumes "n < 2 ^ 63"
  shows "strtol8 (octal w n @ 0 # rest) = Some (word_of_nat n, 0 # rest)"
proof -
  let ?m = "octal w n @ 0 # rest"
  have all: "list_all octal_digit (octal w n)" by (rule octal_all)
  note c = octal_hd [of w n]
  have hd: "hd ?m = hd (octal w n)" by simp
  have nz: "\<not> octal_digit 0" by (simp add: octal_digit_def byte_of_def)
  have tk: "takeWhile octal_digit ?m = octal w n" and dr: "dropWhile octal_digit ?m = 0 # rest"
    using all nz by (simp_all add: list_all_iff)
  have sp: "dropWhile isspace ?m = ?m"
    using octal_digit_not [OF c] by (cases "octal w n") (auto simp: octal_nonempty [THEN notE])
  have sg: "(?m \<noteq> [] \<and> hd ?m \<in> {byte_of (CHR ''-''), byte_of (CHR ''+'')}) = False"
    using octal_digit_not [OF c] unfolding hd by simp
  have "n \<le> 2 ^ 63 - 1" using assms by simp
  then have v: "min (octal_value (octal w n)) (2 ^ 63 - 1) = n"
    unfolding octal_value_octal by (simp only: min_absorb1)
  show ?thesis unfolding strtol8_def Let_def sp sg if_False tk dr v simp_thms by simp
qed

section \<open>Headers\<close>

definition header_sized :: "posix_header \<Rightarrow> bool" where
  "header_sized h \<longleftrightarrow>
     map length [h_name h, h_mode h, h_uid h, h_gid h, h_size h, h_mtime h, h_chksum h, h_linkname h,
       h_magic h, h_version h, h_uname h, h_gname h, h_devmajor h, h_devminor h, h_prefix h]
     = [100, 8, 8, 8, 12, 12, 8, 100, 6, 2, 32, 32, 8, 8, 155]"

lemma length_field [simp]: "length (field n s) = n"
  by (simp add: field_def)

lemma length_snprintf_field [simp]: "length (snprintf_field n s) = n"
  by (simp add: snprintf_field_def)

lemma field_fits: "length s < n \<Longrightarrow> field n s = s @ 0 # replicate (n - length s - 1) 0"
proof -
  assume "length s < n"
  then obtain k where "n - length s = Suc k" by (cases "n - length s") auto
  then show ?thesis by (simp add: field_def)
qed

lemma snprintf_octal: "k < 8 ^ w \<Longrightarrow> 0 < w \<Longrightarrow> snprintf_field (Suc w) (octal w k) = octal w k @ [0]"
  using length_octal [of k w] field_fits [of "octal w k" "Suc w"] by (simp add: snprintf_field_def)

lemma tar_header_fields_sized: "header_sized (tar_header_fields args pw gr name typeflag link)"
  by (simp add: header_sized_def tar_header_fields_def str_def)

lemma header_layout:
  assumes "header_sized h"
  shows "length (header_bytes h) = 500"
    and "\<exists>r. header_bytes h @ x = h_name h @ r"
    and "\<exists>r. drop 100 (header_bytes h @ x) = h_mode h @ r"
    and "\<exists>r. drop 124 (header_bytes h @ x) = h_size h @ r"
    and "(header_bytes h @ x) ! 156 = h_typeflag h"
    and "\<exists>r. drop 157 (header_bytes h @ x) = h_linkname h @ r"
  using assms by (simp_all add: header_sized_def header_bytes_def nth_append)

text \<open>A header block with its checksum keeps the other fields.\<close>

lemma tar_header_block_layout:
  assumes "header_sized h"
  obtains h' where "tar_header_block h junk = header_bytes h' @ junk" and "header_sized h'"
    and "h_name h' = h_name h" and "h_mode h' = h_mode h" and "h_size h' = h_size h"
    and "h_typeflag h' = h_typeflag h" and "h_linkname h' = h_linkname h"
proof
  let ?h = "h\<lparr>h_chksum := snprintf_field 8 (octal 7 (unat (checksum (header_bytes h @ junk))))\<rparr>"
  show "tar_header_block h junk = header_bytes ?h @ junk" by (simp add: tar_header_block_def Let_def)
  show "header_sized ?h" using assms by (simp add: header_sized_def)
qed simp_all

lemma c_string_field: "0 \<notin> set s \<Longrightarrow> length s < n \<Longrightarrow> c_string (field n s @ r) = Some s"
  using c_string_append [of s "replicate (n - length s - 1) 0 @ r"] by (simp add: field_fits)

text \<open>The fields at their places, whatever stands behind the header.\<close>

lemma header_strings:
  assumes "header_sized h" and "h_name h = field 100 name" and "h_linkname h = field 100 link"
    and "length name < 100" and "0 \<notin> set name" and "length link < 100" and "0 \<notin> set link"
  shows "c_string (header_bytes h @ x) = Some name" and "c_string (drop 157 (header_bytes h @ x)) = Some link"
proof -
  obtain r where "header_bytes h @ x = h_name h @ r" using header_layout(2) [OF assms(1)] by blast
  then show "c_string (header_bytes h @ x) = Some name" using assms(2,4,5) by (simp add: c_string_field)
  obtain r where "drop 157 (header_bytes h @ x) = h_linkname h @ r"
    using header_layout(6) [OF assms(1)] by blast
  then show "c_string (drop 157 (header_bytes h @ x)) = Some link" using assms(3,6,7) by (simp add: c_string_field)
qed

lemma header_size_read:
  assumes "header_sized h" and "h_size h = snprintf_field 12 (octal 11 (unat n))" and "unat n < 8 ^ 11"
  shows "tar_get_size s (header_bytes h @ x) = Some (True, n)"
proof -
  obtain r where "drop 124 (header_bytes h @ x) = h_size h @ r" using header_layout(4) [OF assms(1)] by blast
  then have d: "drop 124 (header_bytes h @ x) = octal 11 (unat n) @ 0 # r"
    using assms(2) snprintf_octal [OF assms(3)] by simp
  have "unat n < 2 ^ 63" using assms(3) by simp
  then show ?thesis
    using octal_digit_not [OF octal_hd [of 11 "unat n"]]
    unfolding tar_get_size_def d Let_def by (simp add: strtol8_octal)
qed

lemma header_mode_read:
  assumes "header_sized h" and "h_mode h = snprintf_field 8 (octal 7 (unat n))" and "unat (n :: 32 word) < 8 ^ 7"
  shows "tar_get_mode (header_bytes h @ x) = Some (True, ucast n)"
proof -
  obtain r where "drop 100 (header_bytes h @ x) = h_mode h @ r" using header_layout(3) [OF assms(1)] by blast
  then have d: "drop 100 (header_bytes h @ x) = octal 7 (unat n) @ 0 # r"
    using assms(2) snprintf_octal [OF assms(3)] by simp
  have "unat n < 2 ^ 63" using assms(3) by simp
  then show ?thesis
    using octal_digit_not [OF octal_hd [of 7 "unat n"]]
    unfolding tar_get_mode_def d Let_def by (simp add: strtol8_octal of_nat_unat_ucast)
qed

text \<open>What a block written for short texts and fitting numbers means to the reader.\<close>

definition block_reads :: "bytes \<Rightarrow> tar_header_args \<Rightarrow> bytes \<Rightarrow> byte \<Rightarrow> bytes \<Rightarrow> bool" where
  "block_reads m args name typeflag link \<longleftrightarrow>
     length m = 512 \<and> \<not> block_is_zero m \<and> m ! 156 = typeflag \<and>
     (\<forall>x. c_string (m @ x) = Some name \<and> c_string (drop 157 (m @ x)) = Some link \<and>
       (\<forall>s. tar_get_size s (m @ x) = Some (True, a_size args)) \<and>
       tar_get_mode (m @ x) = Some (True, ucast (a_mode args)))"

lemma tar_header_block_reads:
  assumes "length name < 100" and "0 \<notin> set name" and "length link < 100" and "0 \<notin> set link"
    and "unat (a_mode args) < 8 ^ 7" and "unat (a_size args) < 8 ^ 11" and "typeflag \<noteq> 0"
    and "length junk = 12"
  shows "block_reads (tar_header_block (tar_header_fields args pw gr name typeflag link) junk)
    args name typeflag link"
proof -
  let ?h = "tar_header_fields args pw gr name typeflag link"
  obtain h where h: "tar_header_block ?h junk = header_bytes h @ junk" "header_sized h"
      "h_name h = h_name ?h" "h_mode h = h_mode ?h" "h_size h = h_size ?h"
      "h_typeflag h = h_typeflag ?h" "h_linkname h = h_linkname ?h"
    using tar_header_block_layout [OF tar_header_fields_sized] by metis
  note f = h(3-7) [unfolded tar_header_fields_def, simplified]
  let ?m = "header_bytes h @ junk"
  have flag: "?m ! 156 = typeflag" using header_layout(5) [OF h(2)] f by simp
  have len: "length ?m = 512" using header_layout(1) [OF h(2)] assms(8) by simp
  have "\<not> block_is_zero ?m"
    using flag len assms(7) nth_mem [of 156 ?m] by (auto simp: block_is_zero_def list_all_iff)
  then show ?thesis
    using flag len h(2) f assms header_strings [of h name link "junk @ x" for x]
      header_size_read [of h "a_size args" s "junk @ x" for s x] header_mode_read [of h "a_mode args" "junk @ x" for x]
    unfolding block_reads_def h(1) by simp
qed

section \<open>An entry\<close>

text \<open>The name and the link an entry has in the archive, and the entries the format can hold.\<close>

definition entry_name :: "tar_header_args \<Rightarrow> bytes" where
  "entry_name args =
     (let name = dropWhile (\<lambda>c. c = PATH_SEPARATOR) (a_name args)
      in if a_type args = TAR_DIR \<and> \<not> ends_with name PATH_SEPARATOR then name @ [PATH_SEPARATOR] else name)"

definition entry_link :: "tar_header_args \<Rightarrow> bytes" where
  "entry_link args = (case a_linkname args of None \<Rightarrow> [] | Some l \<Rightarrow> l)"

definition users_known :: "os_users \<Rightarrow> tar_header_args \<Rightarrow> bool" where
  "users_known os args \<longleftrightarrow> tar_passwd os args \<noteq> None \<and> tar_group os args \<noteq> None"

definition fields_ok :: "tar_header_args \<Rightarrow> bool" where
  "fields_ok args \<longleftrightarrow>
     0 \<notin> set (a_name args) \<and>
     0 \<notin> set (entry_link args) \<and> length (entry_link args) < 99 \<and>
     unat (a_mode args) < 8 ^ 7 \<and> unat (a_size args) < 8 ^ 11"

definition entry_ok :: "tar_header_args \<Rightarrow> bool" where
  "entry_ok args \<longleftrightarrow> a_type args \<in> {TAR_FILE, TAR_DIR, TAR_SYMLINK} \<and> fields_ok args"

lemma convert_type_flag: "convert_type ty = Some flag \<Longrightarrow> flag \<noteq> 0"
  by (cases ty) (auto simp: typeflags byte_of_def)

lemma entry_ok_flag: "entry_ok args \<Longrightarrow> \<exists>flag. convert_type (a_type args) = Some flag"
  by (auto simp: entry_ok_def)

definition entry_short :: "tar_header_args \<Rightarrow> bool" where
  "entry_short args \<longleftrightarrow> length (entry_name args) < 99"

lemma entry_name_clean: "0 \<notin> set (a_name args) \<Longrightarrow> 0 \<notin> set (entry_name args)"
  by (auto simp: entry_name_def Let_def PATH_SEPARATOR_def byte_of_def dest: set_dropWhileD)

lemma length_junk: "length (take 12 (xs @ replicate 12 0)) = 12"
  by simp

lemma tar_write_header_short:
  assumes "users_known os args" and "fields_ok args" and "entry_short args"
    and f: "convert_type (a_type args) = Some flag"
  obtains m where "tar_write_header os junk args out = Some (True, out @ m)"
    and "block_reads m args (entry_name args) flag (entry_link args)"
proof -
  obtain pw gr where u: "tar_passwd os args = Some pw" "tar_group os args = Some gr"
    using assms(1) by (auto simp: users_known_def)
  let ?n = "dropWhile (\<lambda>c. c = PATH_SEPARATOR) (a_name args)"
  let ?s = "a_type args = TAR_DIR \<and> \<not> ends_with ?n PATH_SEPARATOR"
  have fits: "length ?n + 1 + (if ?s then 1 else 0) < 100"
    using assms(3) by (auto simp: entry_short_def entry_name_def Let_def split: if_splits)
  have nm: "?n @ (if ?s then [PATH_SEPARATOR] else []) = entry_name args"
    by (simp add: entry_name_def Let_def)
  have lk: "(case a_linkname args of None \<Rightarrow> Some ([], us, out)
      | Some l \<Rightarrow> if length l + 1 < 100 then Some (l, us, out) else X l) = Some (entry_link args, us, out)"
    for X and us :: "(bytes \<times> 32 word) \<times> (bytes \<times> 32 word)"
    using assms(2) by (auto simp: fields_ok_def entry_link_def split: option.splits)
  have sz: "\<not> unat (a_size args) > 8589934591" using assms(2) by (simp add: fields_ok_def)
  let ?m = "tar_header_block (tar_header_fields args pw gr (entry_name args) flag (entry_link args))
    (take 12 (junk (length out) @ replicate 12 0))"
  have "tar_write_header os junk args out = Some (True, out @ ?m)"
    unfolding tar_write_header.simps [of os junk args] u prod.case option.case Let_def if_P [OF fits] if_not_P [OF sz]
      f lk nm fst_conv snd_conv prod.collapse ..
  moreover have "block_reads ?m args (entry_name args) flag (entry_link args)"
    using assms(2,3) convert_type_flag [OF f] entry_name_clean [of args]
    by (intro tar_header_block_reads) (auto simp: fields_ok_def entry_short_def)
  ultimately show ?thesis using that by blast
qed

text \<open>The state after the entry was read.\<close>

definition entry_state :: "tar_header_args \<Rightarrow> tar_state \<Rightarrow> tar_state" where
  "entry_state args st =
     st\<lparr>ts_ready := True, ts_type := a_type args, ts_path := entry_name args, ts_mode := ucast (a_mode args),
        ts_link_path := (if a_type args = TAR_SYMLINK then entry_link args else ts_link_path st),
        ts_file_size := (if a_type args = TAR_FILE then a_size args else ts_file_size st)\<rparr>"

lemma tar_update_entry:
  assumes "block_reads m args name flag link" and "convert_type (a_type args) = Some flag"
    and "a_type args \<in> {TAR_FILE, TAR_DIR, TAR_SYMLINK}" and "ts_type st \<notin> {TAR_LONGNAME, TAR_LONGLINK}"
    and "name = entry_name args" and "link = entry_link args"
  shows "tar_update_mem st (m @ rest) beyond = Some (True, entry_state args st, rest)"
proof -
  note m = assms(1) [unfolded block_reads_def]
  have idx: "(m @ rest) ! 156 = flag" and tk: "take TAR_BLOCK_SIZE (m @ rest) = m"
    and dr: "drop TAR_BLOCK_SIZE (m @ rest) = rest" and len: "\<not> length (m @ rest) < TAR_BLOCK_SIZE"
    and z: "\<not> block_is_zero m"
    using m by (simp_all add: nth_append TAR_BLOCK_SIZE_def)
  let ?st = "st\<lparr>ts_ready := False, ts_type := a_type args\<rparr>"
  have item: "tar_update_item False False ?st ((m @ rest) @ beyond) = Some (True, entry_state args st)"
    using m assms(3,5,6)
    by (auto simp: tar_update_item_def tar_update_link_def tar_update_size_def tar_update_mode_def entry_state_def)
  have "tar_update_header False False (st\<lparr>ts_ready := False\<rparr>) (m @ rest) beyond = Some (True, entry_state args st)"
    unfolding tar_update_header_def Let_def tk idx if_not_P [OF z]
    using item assms(2,3) by (auto simp: typeflags byte_of_def)
  then show ?thesis using assms(4) dr len by (simp add: tar_update_mem_def Let_def)
qed

section \<open>Descriptors\<close>

text \<open>Sizes for which no computation overflows, and an allocator that serves them.\<close>

definition tar_room :: "allocator \<Rightarrow> tar_state \<Rightarrow> read_fd \<Rightarrow> bool" where
  "tar_room al st fd \<longleftrightarrow>
     (\<forall>m < 2 ^ 63. can_alloc al m) \<and> fd_clean fd \<and> length (fd_data fd) < 2 ^ 57"

lemma tar_read_block:
  assumes "tar_room al st fd"
  obtains b fd1 where "buffer_read_loop al (buffer_rewrite buf) TAR_BLOCK_SIZE 0 fd = Some (0, b, fd1)"
    and "tar_room al st' fd1" and "terminated b"
    and "take (used b) (mem b) = take TAR_BLOCK_SIZE (fd_data fd)"
    and "used b = min TAR_BLOCK_SIZE (length (fd_data fd))"
    and "fd_data fd1 = drop TAR_BLOCK_SIZE (fd_data fd)"
proof -
  have "io_room al (buffer_rewrite buf) (length (fd_data fd)) 0"
    using assms by (simp add: tar_room_def io_room_def buffer_wf_def buffer_rewrite_def)
  from buffer_read_loop_clean [OF this, of fd TAR_BLOCK_SIZE] assms
  obtain b fd1 where r: "buffer_read_loop al (buffer_rewrite buf) TAR_BLOCK_SIZE 0 fd = Some (0, b, fd1)"
      "fd_clean fd1" "buffer_wf b" "contents b = take TAR_BLOCK_SIZE (fd_data fd)"
      "fd_data fd1 = drop TAR_BLOCK_SIZE (fd_data fd)"
    by (auto simp: tar_room_def TAR_BLOCK_SIZE_def buffer_rewrite_def contents_def)
  then have "used b = min TAR_BLOCK_SIZE (length (fd_data fd))"
    using length_contents [of b] by simp
  moreover have "tar_room al st' fd1" using r(2,5) assms by (simp add: tar_room_def less_imp_diff_less)
  ultimately show ?thesis
    using r buffer_read_loop_terminated [OF r(1)] by (intro that [of b fd1]) (simp_all add: contents_def)
qed

text \<open>One step of the loop, on a block.\<close>

lemma tar_update_fd_block:
  assumes "tar_room al st fd" and "fd_data fd = m @ rest" and "length m = 512"
  obtains b fd1 where "tar_room al st' fd1" and "fd_data fd1 = rest" and "terminated b" and "used b = 512"
    and "tar_update_fd al st fd =
      (case tar_update_mem (st\<lparr>ts_tmp := b\<rparr>) m (drop (used b) (mem b)) of
         None \<Rightarrow> None
       | Some (ok, st2, _) \<Rightarrow>
           if \<not> ok then Some (False, st2, fd1)
           else if ts_ready st2 then Some (True, st2, fd1) else tar_update_fd al st2 fd1)"
proof -
  obtain b fd1 where r: "buffer_read_loop al (buffer_rewrite (ts_tmp st)) TAR_BLOCK_SIZE 0 fd = Some (0, b, fd1)"
      "tar_room al st' fd1" "terminated b" "take (used b) (mem b) = take TAR_BLOCK_SIZE (fd_data fd)"
      "used b = min TAR_BLOCK_SIZE (length (fd_data fd))"
      "fd_data fd1 = drop TAR_BLOCK_SIZE (fd_data fd)"
    using tar_read_block [OF assms(1), of "ts_tmp st" st'] by metis
  have u: "used b = 512" "take (used b) (mem b) = m" "fd_data fd1 = rest"
    using r(4-6) assms(2,3) by (simp_all add: TAR_BLOCK_SIZE_def)
  then have u': "take 512 (mem b) = m" by simp
  show ?thesis
    by (rule that [OF r(2) u(3) r(3) u(1)])
      (simp add: tar_update_fd.simps [of al st fd] r(1) [unfolded TAR_BLOCK_SIZE_def] u' u(1)
        TAR_BLOCK_SIZE_def Let_def)
qed

lemma tar_update_fd_short:
  assumes "tar_room al st fd" and "length (fd_data fd) < 512"
  shows "\<exists>st' fd'. tar_update_fd al st fd = Some (False, st', fd')"
proof -
  obtain b fd1 where r: "buffer_read_loop al (buffer_rewrite (ts_tmp st)) TAR_BLOCK_SIZE 0 fd = Some (0, b, fd1)"
      "used b = min TAR_BLOCK_SIZE (length (fd_data fd))"
    using tar_read_block [OF assms(1), of "ts_tmp st" st] by metis
  then show ?thesis using assms(2) by (simp add: tar_update_fd.simps [of al st fd] TAR_BLOCK_SIZE_def Let_def)
qed

section \<open>Reading makes no access out of bounds\<close>

lemma c_string_null: "0 \<in> set m \<Longrightarrow> c_string m \<noteq> None"
  by (simp add: c_string_def)

lemma set_dropWhile_keeps: "x \<in> set xs \<Longrightarrow> \<not> P x \<Longrightarrow> x \<in> set (dropWhile P xs)"
  by (induction xs) auto

lemma null_not: "\<not> isspace 0" "\<not> octal_digit 0" "0 \<noteq> byte_of (CHR ''-'')" "0 \<noteq> byte_of (CHR ''+'')"
  by (simp_all add: isspace_def octal_digit_def byte_of_def)

lemma strtol8_null:
  assumes "0 \<in> set m"
  shows "strtol8 m \<noteq> None"
proof -
  let ?m1 = "dropWhile isspace m"
  let ?m2 = "if ?m1 \<noteq> [] \<and> hd ?m1 \<in> {byte_of (CHR ''-''), byte_of (CHR ''+'')} then tl ?m1 else ?m1"
  have "0 \<in> set ?m1" using assms null_not(1) by (rule set_dropWhile_keeps)
  then have "0 \<in> set ?m2" using null_not(3,4) by (cases ?m1) auto
  then have "0 \<in> set (dropWhile octal_digit ?m2)" using null_not(2) by (rule set_dropWhile_keeps)
  then have ne: "dropWhile octal_digit ?m2 \<noteq> []" by (metis empty_iff list.set(1))
  show ?thesis unfolding strtol8_def Let_def if_not_P [OF ne] by (simp split: if_split)
qed

text \<open>Headers are followed by the null byte of the buffer.\<close>

lemma checked_total:
  assumes "r \<noteq> None" and "\<And>s. g s \<noteq> None"
  shows "(case r of None \<Rightarrow> None | Some (False, s) \<Rightarrow> Some (h s) | Some (True, s) \<Rightarrow> g s) \<noteq> None"
  using assms by (cases r) (auto split: bool.split)

lemma tar_update_item_total:
  assumes "0 \<in> set (drop 157 m)"
  shows "tar_update_item longname longlink st m \<noteq> None"
proof -
  have d: "0 \<in> set (drop k m)" if "k \<le> 157" for k
    using assms set_drop_subset_set_drop [OF that, of m] by blast
  then obtain y where "c_string m = Some y" using d [of 0] c_string_null [of m] by auto
  then obtain p where p: "(if longname then Some (ts_path st) else c_string m) = Some p"
    by (cases longname) auto
  have link: "tar_update_link longlink s m \<noteq> None" for s
    using c_string_null [OF assms] by (auto simp: tar_update_link_def)
  have size: "tar_update_size s m \<noteq> None" for s
    using strtol8_null [OF d [of 124]] by (auto simp: tar_update_size_def tar_get_size_def Let_def)
  have mode: "tar_update_mode s m \<noteq> None" for s
    using strtol8_null [OF d [of 100]] by (auto simp: tar_update_mode_def tar_get_mode_def Let_def)
  show ?thesis
    unfolding tar_update_item_def p option.case by (intro checked_total link size mode) simp
qed

lemma tar_update_header_total:
  assumes "length m = 512" and "0 \<in> set beyond"
  shows "tar_update_header longname longlink st m beyond \<noteq> None"
proof -
  have "0 \<in> set (drop 157 (m @ beyond))" using assms by simp
  from tar_update_item_total [OF this] show ?thesis by (auto simp: tar_update_header_def Let_def)
qed

text \<open>A size that is not negative and below the largest \<open>long\<close> by a block.\<close>

definition size_sane :: "size_t \<Rightarrow> bool" where
  "size_sane n \<longleftrightarrow> uint n < 2 ^ 63 - 512"

lemma want_size_bounds:
  assumes "0 \<le> n" shows "0 \<le> want_size n" and "want_size n < n + 512"
proof -
  have sm: "n smod 512 = n mod 512" "n sdiv 512 = n div 512"
    using assms by (simp_all add: signed_modulo_int_def signed_divide_int_def sgn_if)
  have e: "want_size n = (if n mod 512 = 0 then n else (n div 512 + 1) * 512)"
    unfolding want_size_def TAR_BLOCK_SIZE_def of_nat_numeral sm ..
  obtain k r where k: "n div 512 = k" "n mod 512 = r" "n = k * 512 + r" "0 \<le> r" "r < 512" "0 \<le> k"
    using assms by (metis div_mult_mod_eq pos_imp_zdiv_nonneg_iff pos_mod_bound pos_mod_sign zero_less_numeral)
  show "0 \<le> want_size n" "want_size n < n + 512" using k(3-6) unfolding e k(1,2) by (simp_all split: if_split)
qed

lemma sint_nonneg: "uint (w :: size_t) < 2 ^ 63 \<Longrightarrow> sint w = uint w"
  using int_word_sint [where x = "uint w" and 'a = 64] by simp

lemma sint_size_sane:
  assumes "hv < n" and "size_sane n"
  shows "0 \<le> sint (n - hv)" and "sint (n - hv) \<le> uint n"
proof -
  have lt: "uint hv < uint n" using assms(1) by (simp add: word_less_def)
  then have u: "uint (n - hv) = uint n - uint hv" by (simp add: uint_sub_if')
  have "uint (n - hv) < 2 ^ 63"
    using assms(2) uint_ge_0 [of hv] unfolding u size_sane_def by linarith
  then have "sint (n - hv) = uint (n - hv)" by (rule sint_nonneg)
  then show "0 \<le> sint (n - hv)" "sint (n - hv) \<le> uint n" using u lt by simp_all
qed

lemma record_mem_total:
  assumes "size_sane n" and "hv < n"
  shows "record_mem buf m (sint (n - hv)) \<noteq> None"
proof -
  let ?n = "sint (n - hv)"
  note n = sint_size_sane [OF assms(2,1)]
  have "uint n < 2 ^ 63 - 512" using assms(1) by (simp add: size_sane_def)
  then have "want_size ?n < 2 ^ 63" "0 \<le> want_size ?n" using want_size_bounds [OF n(1)] n(2) by linarith+
  then show ?thesis by (simp add: record_mem_def del: not_None_eq)
qed

lemma if_total: "(c \<Longrightarrow> x \<noteq> None) \<Longrightarrow> (\<not> c \<Longrightarrow> y \<noteq> None) \<Longrightarrow> (if c then x else y) \<noteq> None"
  by simp

lemma tar_update_mem_total:
  assumes "length m = 512" and "0 \<in> set beyond" and "size_sane (ts_file_size st)"
  shows "tar_update_mem st m beyond \<noteq> None"
  unfolding tar_update_mem_def Let_def
proof (intro if_total)
  let ?st = "st\<lparr>ts_ready := False\<rparr>"
  let ?b = "if ts_type ?st = TAR_LONGNAME then ts_path ?st else ts_link_path ?st"
  assume "(ts_type ?st = TAR_LONGNAME \<or> ts_type ?st = TAR_LONGLINK) \<and>
    (word_of_nat (length ?b) :: size_t) < ts_file_size ?st"
  then have "record_mem ?b m (sint (ts_file_size ?st - word_of_nat (length ?b))) \<noteq> None"
    using assms(3) by (intro record_mem_total) simp_all
  then show "(case record_mem ?b m (sint (ts_file_size ?st - word_of_nat (length ?b))) of
      None \<Rightarrow> None
    | Some (_, buf, rest) \<Rightarrow>
        Some (True, if ts_type ?st = TAR_LONGNAME then ?st\<lparr>ts_path := buf\<rparr> else ?st\<lparr>ts_link_path := buf\<rparr>, rest))
      \<noteq> None"
    by (cases "record_mem ?b m (sint (ts_file_size ?st - word_of_nat (length ?b)))") auto
qed (use tar_update_header_total [OF assms(1,2)] in simp_all)

lemma checkedE:
  assumes "(case r of None \<Rightarrow> None | Some (False, s) \<Rightarrow> Some (False, h s) | Some (True, s) \<Rightarrow> g s) = Some (True, st2)"
  obtains s where "r = Some (True, s)" and "g s = Some (True, st2)"
proof -
  obtain ok s where r: "r = Some (ok, s)" using assms by (cases r) auto
  show ?thesis using assms that unfolding r by (cases ok) simp_all
qed

lemma tar_update_item_ready:
  assumes "tar_update_item longname longlink st m = Some (True, st2)"
  shows "ts_ready st2"
proof -
  obtain p where p: "(if longname then Some (ts_path st) else c_string m) = Some p"
    using assms unfolding tar_update_item_def by (cases "if longname then Some (ts_path st) else c_string m") auto
  show ?thesis
    using assms unfolding tar_update_item_def p option.case by (elim checkedE) auto
qed

lemma tar_update_header_size:
  assumes "tar_update_header longname longlink st m beyond = Some (True, st2)" and "\<not> ts_ready st2"
  shows "ts_file_size st2 = ts_file_size st"
  using assms by (auto simp: tar_update_header_def Let_def dest: tar_update_item_ready split: if_splits)

lemma if_cases:
  "(if c then x else y) = z \<Longrightarrow> (c \<Longrightarrow> x = z \<Longrightarrow> P) \<Longrightarrow> (\<not> c \<Longrightarrow> y = z \<Longrightarrow> P) \<Longrightarrow> P"
  by (cases c) simp_all

lemma tar_update_mem_size:
  assumes "tar_update_mem st m beyond = Some (True, st2, r)" and "\<not> ts_ready st2"
  shows "ts_file_size st2 = ts_file_size st"
  using assms(1) unfolding tar_update_mem_def Let_def
proof (elim if_cases)
  assume "map_option (\<lambda>(ok, st'). (ok, st', drop TAR_BLOCK_SIZE m))
      (tar_update_header (ts_type (st\<lparr>ts_ready := False\<rparr>) = TAR_LONGNAME)
        (ts_type (st\<lparr>ts_ready := False\<rparr>) = TAR_LONGLINK) (st\<lparr>ts_ready := False\<rparr>) m beyond) = Some (True, st2, r)"
  then show ?thesis using tar_update_header_size [OF _ assms(2)] by fastforce
qed (auto split: option.splits)

lemma terminated_null: "terminated b \<Longrightarrow> 0 \<in> set (drop (used b) (mem b))"
proof -
  assume "terminated b"
  then have "drop (used b) (mem b) = 0 # drop (Suc (used b)) (mem b)"
    using Cons_nth_drop_Suc [of "used b" "mem b"] by (simp add: terminated_def)
  then show ?thesis by simp
qed

lemma tar_update_fd_total:
  assumes "tar_room al st fd" and "size_sane (ts_file_size st)"
  shows "tar_update_fd al st fd \<noteq> None"
  using assms
proof (induction "length (fd_data fd)" arbitrary: fd st rule: less_induct)
  case less
  show ?case
  proof (cases "length (fd_data fd) < 512")
    case True
    then show ?thesis using tar_update_fd_short [OF less.prems(1)] by auto
  next
    case False
    let ?m = "take 512 (fd_data fd)"
    have sp: "fd_data fd = ?m @ drop 512 (fd_data fd)" and len: "length ?m = 512" using False by simp_all
    obtain b fd1 where r: "tar_room al st fd1" "fd_data fd1 = drop 512 (fd_data fd)" "terminated b" "used b = 512"
        "tar_update_fd al st fd =
          (case tar_update_mem (st\<lparr>ts_tmp := b\<rparr>) ?m (drop (used b) (mem b)) of
             None \<Rightarrow> None
           | Some (ok, st2, _) \<Rightarrow>
               if \<not> ok then Some (False, st2, fd1)
               else if ts_ready st2 then Some (True, st2, fd1) else tar_update_fd al st2 fd1)"
      using tar_update_fd_block [OF less.prems(1) sp len] by blast
    have "size_sane (ts_file_size (st\<lparr>ts_tmp := b\<rparr>))" using less.prems(2) by simp
    from tar_update_mem_total [OF len terminated_null [OF r(3)] this]
    obtain ok st2 x where u: "tar_update_mem (st\<lparr>ts_tmp := b\<rparr>) ?m (drop (used b) (mem b)) = Some (ok, st2, x)"
      by (metis not_Some_eq prod_cases3)
    have fd: "tar_update_fd al st fd = (if \<not> ok then Some (False, st2, fd1)
        else if ts_ready st2 then Some (True, st2, fd1) else tar_update_fd al st2 fd1)"
      unfolding r(5) u by simp
    have "tar_update_fd al st2 fd1 \<noteq> None" if "ok" "\<not> ts_ready st2"
    proof (rule less.hyps)
      show "length (fd_data fd1) < length (fd_data fd)" using r(2) False by simp
      show "tar_room al st2 fd1" using r(1) by (simp add: tar_room_def)
      have "ts_file_size st2 = ts_file_size st" using tar_update_mem_size [OF _ that(2)] u that(1) by fastforce
      then show "size_sane (ts_file_size st2)" using less.prems(2) by simp
    qed
    then show ?thesis unfolding fd by (intro if_total) simp_all
  qed
qed

end
