(* ===== verification/TarArchive.thy ===== *)
theory TarArchive
  imports Tar
begin

text \<open>
  Whole archives: what a program writes entry by entry with \<open>tar_write_header\<close>,
  \<open>tar_write_padding\<close> and \<open>tar_write_end\<close>, and reads with \<open>tar_update_fd\<close> and
  \<open>tar_read_region\<close>, as \<open>src/pkg\<close> does.
\<close>

section \<open>File contents\<close>

lemma unat_round_blocks:
  assumes "unat n < 2 ^ 58"
  shows "unat (round_blocks n) = length (tar_write_padding (replicate (unat n) 0) (unat n))"
proof -
  have m: "n mod 512 = 0 \<longleftrightarrow> unat n mod 512 = 0" by (simp add: unat_eq_zero [symmetric] unat_mod)
  have d: "unat n = unat n div 512 * 512 + unat n mod 512" "unat n mod 512 < 512" by simp_all
  have "unat ((n div 512 + 1) * 512) = (unat n div 512 + 1) * 512"
    using assms by (simp add: unat_word_ariths unat_div)
  also have "unat n mod 512 \<noteq> 0 \<Longrightarrow> \<dots> = unat n + (512 - unat n mod 512)"
    using d unfolding distrib_right by linarith
  finally have "unat n mod 512 \<noteq> 0 \<Longrightarrow> unat ((n div 512 + 1) * 512) = unat n + (512 - unat n mod 512)" .
  then show ?thesis
    using m by (simp add: round_blocks_def tar_write_padding_def TAR_BLOCK_SIZE_def Let_def del: distrib_right_numeral)
qed

text \<open>The padding does not depend on what it follows.\<close>

definition tar_padding :: "nat \<Rightarrow> bytes" where
  "tar_padding n = tar_write_padding [] n"

lemma tar_write_padding_append: "tar_write_padding out n = out @ tar_padding n"
  by (simp add: tar_padding_def tar_write_padding_def Let_def)

lemma tar_read_region_data:
  assumes "tar_room al st fd" and "used buf = 0" and "fd_data fd = data @ tar_padding (length data) @ rest"
    and "length data = unat n"
  obtains b fd' where "tar_read_region al buf n fd = Some (True, b, fd')" and "n \<noteq> 0 \<longrightarrow> contents b = data"
    and "tar_room al st' fd'" and "fd_data fd' = rest" and "n \<noteq> 0 \<longrightarrow> (\<exists>r. mem b = data @ 0 # r)"
proof (cases "n = 0")
  case True
  then have "fd_data fd = rest" using assms(3,4) by (simp add: tar_padding_def tar_write_padding_def)
  moreover have "tar_room al st' fd" using assms(1) by (simp add: tar_room_def)
  ultimately show ?thesis using True that [of buf fd] by (simp add: tar_read_region_def)
next
  case False
  let ?m = "unat (round_blocks n)"
  have "unat n < 2 ^ 58" using assms by (simp add: tar_room_def)
  then have m: "?m = length (data @ tar_padding (length data))"
    using assms(4) by (simp add: unat_round_blocks tar_write_padding_append)
  have "0 < unat n" using False by (simp add: unat_gt_0)
  then have m0: "?m \<noteq> 0" using m assms(4) by auto
  have "buffer_wf buf" using assms(2) by (simp add: buffer_wf_def)
  then have "io_room al buf (length (fd_data fd)) 0" using assms(1,2) by (simp add: tar_room_def io_room_def)
  from buffer_read_loop_clean [OF this, of fd ?m] assms(1,2) m0
  obtain b fd1 where r: "buffer_read_loop al buf ?m 0 fd = Some (0, b, fd1)" "fd_clean fd1" "buffer_wf b"
      "contents b = take ?m (fd_data fd)" "fd_data fd1 = drop ?m (fd_data fd)"
    by (auto simp: tar_room_def contents_def)
  have c: "contents b = data @ tar_padding (length data)" and d: "fd_data fd1 = rest"
    using r(4,5) assms(3) m by simp_all
  then have u: "used b = ?m" using length_contents [OF r(3)] m by simp
  have mb: "take ?m (mem b) = data @ tar_padding (length data)" using c u by (simp add: contents_def)
  have t: "terminated b" by (rule buffer_read_loop_terminated [OF r(1)]) simp
  have "mem b = take ?m (mem b) @ 0 # drop (Suc ?m) (mem b)"
    using t u by (metis id_take_nth_drop terminated_def)
  then have mem: "mem b = data @ tar_padding (length data) @ 0 # drop (Suc ?m) (mem b)" unfolding mb by simp
  have "\<exists>r. tar_padding (length data) @ 0 # q = 0 # r" for q
    by (auto simp: tar_padding_def tar_write_padding_def Let_def replicate_app_Cons_same)
  then have nul: "\<exists>r. mem b = data @ 0 # r" using mem by metis
  have "unat n \<le> length (mem b)" using arg_cong [OF mem, of length] assms(4) by simp
  then have b': "buffer_resize al b (unat n) = (0, b\<lparr>used := unat n\<rparr>)"
    using \<open>unat n < 2 ^ 58\<close> by (simp add: buffer_resize_def buffer_realloc_def)
  have "contents (b\<lparr>used := unat n\<rparr>) = data" using mem assms(4) by (simp add: contents_def) (metis append_eq_conv_conj)
  moreover have "tar_read_region al buf n fd = Some (True, b\<lparr>used := unat n\<rparr>, fd1)"
    using False r(1) u b' by (simp add: tar_read_region_def)
  moreover have "\<exists>r. mem (b\<lparr>used := unat n\<rparr>) = data @ 0 # r" using nul by simp
  moreover have "tar_room al st' fd1" using r(2) d assms(1,3) by (simp add: tar_room_def)
  ultimately show ?thesis using d that by blast
qed

section \<open>Archives\<close>

type_synonym tar_item = "tar_header_args \<times> bytes"

fun tar_archive :: "os_users \<Rightarrow> (nat \<Rightarrow> bytes) \<Rightarrow> tar_item list \<Rightarrow> bytes \<Rightarrow> bytes option" where
  "tar_archive os junk [] out = Some (tar_write_end out)"
| "tar_archive os junk ((args, data) # items) out =
     (case tar_write_header os junk args out of
        Some (True, out1) \<Rightarrow>
          tar_archive os junk items
            (if a_type args = TAR_FILE then tar_write_padding (out1 @ data) (length data) else out1)
      | _ \<Rightarrow> None)"

text \<open>
  What is collected of an entry: type, name, mode, link target of a symbolic link, contents of
  a file. The reader is given a bound on the number of entries.
\<close>

type_synonym tar_found = "tar_type \<times> bytes \<times> size_t \<times> bytes \<times> bytes"

fun tar_extract ::
    "nat \<Rightarrow> allocator \<Rightarrow> tar_state \<Rightarrow> read_fd \<Rightarrow> (tar_found list \<times> tar_state \<times> read_fd) option" where
  "tar_extract 0 al st fd = None"
| "tar_extract (Suc k) al st fd =
     (case tar_update_fd al st fd of
        None \<Rightarrow> None
      | Some (False, st1, fd1) \<Rightarrow> Some ([], st1, fd1)
      | Some (True, st1, fd1) \<Rightarrow>
          (case (if ts_type st1 = TAR_FILE then tar_read_region al buffer_zero (ts_file_size st1) fd1
                 else Some (True, buffer_zero, fd1)) of
             Some (True, b, fd2) \<Rightarrow>
               map_option (\<lambda>(found, r).
                   ((ts_type st1, ts_path st1, ts_mode st1,
                     if ts_type st1 = TAR_SYMLINK then ts_link_path st1 else [], contents b) # found, r))
                 (tar_extract k al st1 fd2)
           | _ \<Rightarrow> None))"

fun item_found :: "tar_item \<Rightarrow> tar_found" where
  "item_found (args, data) =
     (a_type args, entry_name args, ucast (a_mode args),
      if a_type args = TAR_SYMLINK then entry_link args else [], if a_type args = TAR_FILE then data else [])"

definition item_ok :: "os_users \<Rightarrow> tar_item \<Rightarrow> bool" where
  "item_ok os item \<longleftrightarrow>
     users_known os (fst item) \<and> entry_ok (fst item) \<and> entry_short (fst item) \<and>
     (a_type (fst item) = TAR_FILE \<longrightarrow> length (snd item) = unat (a_size (fst item)))"

text \<open>The end of an archive: two blocks of zeros.\<close>

definition idle :: "tar_state \<Rightarrow> bool" where
  "idle st \<longleftrightarrow> ts_type st \<notin> {TAR_LONGNAME, TAR_LONGLINK, TAR_END}"

lemma zero_block:
  "block_is_zero (replicate 512 0)"
  by (simp add: block_is_zero_def list_all_iff)

lemma tar_update_zero:
  assumes "ts_type st \<notin> {TAR_LONGNAME, TAR_LONGLINK}"
  shows "tar_update_mem st (replicate 512 0) beyond =
    Some (if ts_type st = TAR_END then (False, st\<lparr>ts_ready := True\<rparr>, [])
          else (True, st\<lparr>ts_ready := False, ts_type := TAR_END\<rparr>, []))"
  using assms zero_block by (auto simp: tar_update_mem_def tar_update_header_def Let_def TAR_BLOCK_SIZE_def)

lemma tar_update_fd_end:
  assumes "tar_room al st fd" and "idle st" and "fd_data fd = tar_write_end [] @ extra"
  shows "\<exists>st' fd'. tar_update_fd al st fd = Some (False, st', fd') \<and> ts_type st' = TAR_END \<and> fd_data fd' = extra"
proof -
  let ?z = "replicate 512 (0 :: byte)"
  have "tar_write_end [] = ?z @ ?z" by (simp add: tar_write_end_def TAR_BLOCK_SIZE_def replicate_add [symmetric])
  then have "fd_data fd = ?z @ ?z @ extra" using assms(3) by simp
  from tar_update_fd_block [OF assms(1) this length_replicate] obtain b fd1
    where b: "tar_room al st fd1" "fd_data fd1 = ?z @ extra"
      "tar_update_fd al st fd =
        (case tar_update_mem (st\<lparr>ts_tmp := b\<rparr>) ?z (drop (used b) (mem b)) of
           None \<Rightarrow> None
         | Some (ok, st2, _) \<Rightarrow>
             if \<not> ok then Some (False, st2, fd1)
             else if ts_ready st2 then Some (True, st2, fd1) else tar_update_fd al st2 fd1)"
    by blast
  let ?st = "st\<lparr>ts_tmp := b, ts_ready := False, ts_type := TAR_END\<rparr>"
  have s1: "tar_update_fd al st fd = tar_update_fd al ?st fd1"
    using assms(2) unfolding b(3) by (subst tar_update_zero) (simp_all add: idle_def)
  have "tar_room al ?st fd1" using b(1) by (simp add: tar_room_def)
  from tar_update_fd_block [OF this b(2) length_replicate] obtain c fd2
    where c: "fd_data fd2 = extra"
      "tar_update_fd al ?st fd1 =
        (case tar_update_mem (?st\<lparr>ts_tmp := c\<rparr>) ?z (drop (used c) (mem c)) of
           None \<Rightarrow> None
         | Some (ok, st2, _) \<Rightarrow>
             if \<not> ok then Some (False, st2, fd2)
             else if ts_ready st2 then Some (True, st2, fd2) else tar_update_fd al st2 fd2)"
    by blast
  have "tar_update_fd al ?st fd1 = Some (False, ?st\<lparr>ts_tmp := c, ts_ready := True\<rparr>, fd2)"
    unfolding c(2) by (subst tar_update_zero) simp_all
  then show ?thesis using s1 c(1) by simp
qed

text \<open>One entry with a short name.\<close>

lemma tar_update_fd_entry:
  assumes "tar_room al st fd" and "idle st" and "fd_data fd = m @ rest"
    and "block_reads m args (entry_name args) flag (entry_link args)" and "convert_type (a_type args) = Some flag"
    and "a_type args \<in> {TAR_FILE, TAR_DIR, TAR_SYMLINK}"
  shows "\<exists>b fd1. tar_update_fd al st fd = Some (True, entry_state args (st\<lparr>ts_tmp := b\<rparr>), fd1) \<and>
    tar_room al st fd1 \<and> fd_data fd1 = rest"
proof -
  have len: "length m = 512" using assms(4) by (simp add: block_reads_def)
  obtain b fd1 where b: "tar_room al st fd1" "fd_data fd1 = rest"
      "tar_update_fd al st fd =
        (case tar_update_mem (st\<lparr>ts_tmp := b\<rparr>) m (drop (used b) (mem b)) of
           None \<Rightarrow> None
         | Some (ok, st2, _) \<Rightarrow>
             if \<not> ok then Some (False, st2, fd1)
             else if ts_ready st2 then Some (True, st2, fd1) else tar_update_fd al st2 fd1)"
    using tar_update_fd_block [OF assms(1,3) len] by blast
  have "tar_update_mem (st\<lparr>ts_tmp := b\<rparr>) (m @ []) (drop (used b) (mem b)) =
      Some (True, entry_state args (st\<lparr>ts_tmp := b\<rparr>), [])"
    using assms(2) by (intro tar_update_entry [OF assms(4-6)]) (simp_all add: idle_def)
  then have "tar_update_fd al st fd = Some (True, entry_state args (st\<lparr>ts_tmp := b\<rparr>), fd1)"
    unfolding b(3) by (simp add: entry_state_def)
  then show ?thesis using b(1,2) by blast
qed

text \<open>What stands behind the header of an item.\<close>

definition item_data :: "tar_item \<Rightarrow> bytes" where
  "item_data item =
     (if a_type (fst item) = TAR_FILE then snd item @ tar_padding (length (snd item)) else [])"

lemma tar_read_item:
  assumes "tar_room al st fd" and "fd_data fd = item_data (args, data) @ rest"
    and "a_type args = TAR_FILE \<longrightarrow> length data = unat (a_size args)"
  shows "\<exists>c fd2. (if a_type args = TAR_FILE then tar_read_region al buffer_zero (a_size args) fd
      else Some (True, buffer_zero, fd)) = Some (True, c, fd2) \<and>
    contents c = (if a_type args = TAR_FILE then data else []) \<and> tar_room al st' fd2 \<and> fd_data fd2 = rest"
proof (cases "a_type args = TAR_FILE")
  case True
  then have f: "fd_data fd = data @ tar_padding (length data) @ rest" "length data = unat (a_size args)"
    using assms(2,3) by (simp_all add: item_data_def)
  have "used buffer_zero = 0" by (simp add: buffer_zero_def)
  from tar_read_region_data [OF assms(1) this f, of st'] obtain c fd2
    where c: "tar_read_region al buffer_zero (a_size args) fd = Some (True, c, fd2)"
      "a_size args \<noteq> 0 \<longrightarrow> contents c = data" "tar_room al st' fd2" "fd_data fd2 = rest"
    by blast
  have "contents c = data"
  proof (cases "a_size args = 0")
    case True
    then have "c = buffer_zero" "data = []" using c(1) f(2) by (simp_all add: tar_read_region_def)
    then show ?thesis by simp
  qed (use c(2) in simp)
  then show ?thesis using c True by simp
next
  case False
  then show ?thesis using assms(1,2) by (simp add: item_data_def tar_room_def)
qed

lemma tar_extract_item:
  assumes "tar_room al st fd" and "idle st" and "fd_data fd = m @ item_data (args, data) @ rest"
    and "block_reads m args (entry_name args) flag (entry_link args)" and "convert_type (a_type args) = Some flag"
    and "a_type args \<in> {TAR_FILE, TAR_DIR, TAR_SYMLINK}"
    and "a_type args = TAR_FILE \<longrightarrow> length data = unat (a_size args)"
  shows "\<exists>st1 fd1. idle st1 \<and> tar_room al st1 fd1 \<and> fd_data fd1 = rest \<and>
    (\<forall>k. tar_extract (Suc k) al st fd =
      map_option (\<lambda>(found, r). (item_found (args, data) # found, r)) (tar_extract k al st1 fd1))"
proof -
  from tar_update_fd_entry [OF assms(1-6)] obtain b fd1
    where u: "tar_update_fd al st fd = Some (True, entry_state args (st\<lparr>ts_tmp := b\<rparr>), fd1)"
      "tar_room al st fd1" "fd_data fd1 = item_data (args, data) @ rest" by blast
  let ?st = "entry_state args (st\<lparr>ts_tmp := b\<rparr>)"
  from tar_read_item [OF u(2,3) assms(7), of ?st] obtain c fd2
    where r: "(if a_type args = TAR_FILE then tar_read_region al buffer_zero (a_size args) fd1
        else Some (True, buffer_zero, fd1)) = Some (True, c, fd2)"
      "contents c = (if a_type args = TAR_FILE then data else [])" "tar_room al ?st fd2" "fd_data fd2 = rest"
    by blast
  have h: "(if ts_type ?st = TAR_FILE then tar_read_region al buffer_zero (ts_file_size ?st) fd1
      else Some (True, buffer_zero, fd1)) = Some (True, c, fd2)"
    using r(1) by (auto simp: entry_state_def split: if_splits)
  have "tar_extract (Suc k) al st fd =
      map_option (\<lambda>(found, r). (item_found (args, data) # found, r)) (tar_extract k al ?st fd2)" for k
    unfolding tar_extract.simps(2) u(1) option.case prod.case bool.case h by (simp add: r(2) entry_state_def)
  moreover have "idle ?st" using assms(6) by (auto simp: idle_def entry_state_def)
  ultimately show ?thesis using r(3,4) by blast
qed

text \<open>An archive that is read back, to its end, whatever follows it.\<close>

definition extracts :: "allocator \<Rightarrow> bytes \<Rightarrow> tar_item list \<Rightarrow> bool" where
  "extracts al t items \<longleftrightarrow>
     (\<forall>st fd extra. tar_room al st fd \<longrightarrow> idle st \<longrightarrow> fd_data fd = t @ extra \<longrightarrow>
       (\<exists>st' fd'. tar_extract (Suc (length items)) al st fd = Some (map item_found items, st', fd') \<and>
         ts_type st' = TAR_END \<and> fd_data fd' = extra))"

lemma extracts_end: "extracts al (tar_write_end []) []"
  using tar_update_fd_end by (fastforce simp: extracts_def)

lemma extracts_item:
  assumes "extracts al t items"
    and "block_reads m args (entry_name args) flag (entry_link args)" and "convert_type (a_type args) = Some flag"
    and "a_type args \<in> {TAR_FILE, TAR_DIR, TAR_SYMLINK}"
    and "a_type args = TAR_FILE \<longrightarrow> length data = unat (a_size args)"
  shows "extracts al (m @ item_data (args, data) @ t) ((args, data) # items)"
  unfolding extracts_def
proof (intro allI impI)
  fix st fd extra
  assume a: "tar_room al st fd" "idle st" "fd_data fd = (m @ item_data (args, data) @ t) @ extra"
  then have "fd_data fd = m @ item_data (args, data) @ (t @ extra)" by simp
  from tar_extract_item [OF a(1,2) this assms(2-5)] obtain st1 fd1
    where s: "idle st1" "tar_room al st1 fd1" "fd_data fd1 = t @ extra"
      "\<And>k. tar_extract (Suc k) al st fd =
        map_option (\<lambda>(found, r). (item_found (args, data) # found, r)) (tar_extract k al st1 fd1)"
    by blast
  from assms(1) s(1-3) obtain st' fd'
    where e: "tar_extract (Suc (length items)) al st1 fd1 = Some (map item_found items, st', fd')"
      "ts_type st' = TAR_END" "fd_data fd' = extra"
    unfolding extracts_def by blast
  then show "\<exists>st' fd'. tar_extract (Suc (length ((args, data) # items))) al st fd =
      Some (map item_found ((args, data) # items), st', fd') \<and> ts_type st' = TAR_END \<and> fd_data fd' = extra"
    unfolding length_Cons s(4) by simp
qed

fun archive_length :: "tar_item list \<Rightarrow> nat" where
  "archive_length [] = 1024"
| "archive_length (item # items) = 512 + length (item_data item) + archive_length items"

text \<open>The bytes of an archive: headers that read as the items say, each with its data.\<close>

fun archive_bytes :: "tar_item list \<Rightarrow> bytes \<Rightarrow> bool" where
  "archive_bytes [] t \<longleftrightarrow> t = tar_write_end []"
| "archive_bytes ((args, data) # items) t \<longleftrightarrow>
     (\<exists>m flag r. t = m @ item_data (args, data) @ r \<and> archive_bytes items r \<and>
        block_reads m args (entry_name args) flag (entry_link args) \<and> convert_type (a_type args) = Some flag)"

lemma archive_bytes_length: "archive_bytes items t \<Longrightarrow> length t = archive_length items"
  by (induction items t rule: archive_bytes.induct) (auto simp: tar_write_end_def TAR_BLOCK_SIZE_def block_reads_def)

lemma tar_archive_bytes:
  assumes "list_all (item_ok os) items"
  shows "\<exists>t. tar_archive os junk items out = Some (out @ t) \<and> archive_bytes items t"
  using assms
proof (induction items arbitrary: out)
  case Nil
  then show ?case by (simp add: tar_write_end_def)
next
  case (Cons item items)
  obtain args data where it: "item = (args, data)" by (cases item)
  have ok: "users_known os args" "fields_ok args" "entry_short args" "a_type args \<in> {TAR_FILE, TAR_DIR, TAR_SYMLINK}"
    using Cons.prems by (simp_all add: it item_ok_def entry_ok_def)
  obtain flag where f: "convert_type (a_type args) = Some flag" using ok(4) by auto
  obtain m where m: "tar_write_header os junk args out = Some (True, out @ m)"
      "block_reads m args (entry_name args) flag (entry_link args)"
    using tar_write_header_short [OF ok(1-3) f] by metis
  let ?d = "item_data (args, data)"
  obtain t where t: "tar_archive os junk items (out @ m @ ?d) = Some ((out @ m @ ?d) @ t)" "archive_bytes items t"
    using Cons.IH [of "out @ m @ ?d"] Cons.prems by auto
  have "tar_archive os junk (item # items) out = tar_archive os junk items (out @ m @ ?d)"
    using m(1) by (simp add: it item_data_def tar_write_padding_append)
  then show ?case using t m(2) f by (intro exI [of _ "m @ ?d @ t"]) (auto simp: it)
qed

lemma archive_bytes_extracts:
  "archive_bytes items t \<Longrightarrow> list_all (item_ok os) items \<Longrightarrow> extracts al t items"
proof (induction items t rule: archive_bytes.induct)
  case (1 t)
  then show ?case using extracts_end by simp
next
  case (2 args data items t)
  then obtain m flag r where t: "t = m @ item_data (args, data) @ r" "archive_bytes items r"
      "block_reads m args (entry_name args) flag (entry_link args)" "convert_type (a_type args) = Some flag"
    by auto
  have "extracts al r items" using 2 t(2) by simp
  then show ?case unfolding t(1) using "2.prems"(2)
    by (intro extracts_item [OF _ t(3,4)]) (simp_all add: item_ok_def entry_ok_def)
qed

lemma tar_archive_extract:
  assumes "list_all (item_ok os) items"
  shows "\<exists>t. tar_archive os junk items out = Some (out @ t) \<and> extracts al t items \<and>
    length t = archive_length items"
  using tar_archive_bytes [OF assms, of junk out] archive_bytes_extracts [OF _ assms] archive_bytes_length by blast

section \<open>Properties\<close>

text \<open>C4: A tar archive reads back: what is written for a list of directories, files with
  their contents, and symbolic links, with names and links that fit into the header, is read
  back entry by entry with the same types, names (without leading separators, and with a final
  one for directories), modes, link targets and contents, and the reader ends at the two blocks
  of zeros, whatever follows them and however the descriptor splits its data.\<close>

theorem tar_archive_roundtrip:
  assumes "list_all (item_ok os) items" and "\<forall>m < 2 ^ 63. can_alloc al m"
    and "tar_archive os junk items [] = Some archive"
    and "fd_clean fd" and "fd_data fd = archive @ extra" and "length (fd_data fd) < 2 ^ 57"
  shows "\<exists>st fd'. tar_extract (Suc (length items)) al tar_state_zero fd = Some (map item_found items, st, fd') \<and>
    ts_type st = TAR_END \<and> fd_data fd' = extra"
proof -
  have "extracts al archive items"
    using tar_archive_extract [OF assms(1), of junk "[]" al] assms(3) by auto
  moreover have "tar_room al tar_state_zero fd" using assms by (simp add: tar_room_def)
  moreover have "idle tar_state_zero" by (simp add: idle_def tar_state_zero_def)
  ultimately show ?thesis using assms(5) unfolding extracts_def by blast
qed

definition one_file :: tar_item where
  "one_file =
     (\<lparr>a_name = str ''/build.sh'', a_mode = 448, a_uid = 0, a_gid = 0, a_size = 3, a_mtime = 0, a_type = TAR_FILE,
       a_linkname = None, a_uname = None, a_gname = None\<rparr>, [1, 2, 3])"

definition one_user :: os_users where
  "one_user =
     \<lparr>getpwnam = (\<lambda>_. None), getpwuid = (\<lambda>u. Some (str ''root'', u)), getgrnam = (\<lambda>_. None),
      getgrgid = (\<lambda>g. Some (str ''root'', g)), one_entry = True\<rparr>"

theorem tar_archive_roundtrip_witness:
  "\<exists>archive st fd. tar_archive one_user (\<lambda>_. []) [one_file] [] = Some archive \<and>
     length archive = 2048 \<and>
     tar_extract 2 plain_alloc tar_state_zero [Some archive] =
       Some ([(TAR_FILE, str ''build.sh'', 448, [], [1, 2, 3])], st, fd) \<and> ts_type st = TAR_END"
proof -
  have ok: "list_all (item_ok one_user) [one_file]"
    by (simp add: item_ok_def one_file_def users_known_def tar_passwd_def tar_group_def one_user_def
        entry_ok_def fields_ok_def entry_short_def entry_name_def entry_link_def str_def PATH_SEPARATOR_def byte_of_def)
  obtain archive where a: "tar_archive one_user (\<lambda>_. []) [one_file] [] = Some archive"
      "length archive = archive_length [one_file]"
    using tar_archive_extract [OF ok, of "\<lambda>_. []" "[]" plain_alloc] by auto
  have len: "length archive = 2048"
    using a(2) by (simp add: one_file_def item_data_def tar_padding_def tar_write_padding_def TAR_BLOCK_SIZE_def)
  have clean: "fd_clean [Some archive]" and data: "fd_data [Some archive] = archive @ []"
    using len by (auto simp: fd_clean_def)
  have small: "length (fd_data [Some archive]) < 2 ^ 57" using len by simp
  from tar_archive_roundtrip [OF ok _ a(1) clean data small, of plain_alloc] obtain st fd'
    where e: "tar_extract (Suc (length [one_file])) plain_alloc tar_state_zero [Some archive] =
        Some (map item_found [one_file], st, fd')" "ts_type st = TAR_END"
    by auto
  have "map item_found [one_file] = [(TAR_FILE, str ''build.sh'', 448, [], [1, 2, 3])]"
    by (simp add: one_file_def entry_name_def str_def PATH_SEPARATOR_def byte_of_def)
  then have "tar_extract 2 plain_alloc tar_state_zero [Some archive] =
      Some ([(TAR_FILE, str ''build.sh'', 448, [], [1, 2, 3])], st, fd')"
    using e(1) by (simp add: numeral_2_eq_2)
  then show ?thesis using a(1) len e(2) by blast
qed

section \<open>Long names\<close>

definition root_known :: "os_users \<Rightarrow> bool" where
  "root_known os \<longleftrightarrow> getpwuid os 0 \<noteq> None \<and> getgrgid os 0 \<noteq> None"

lemma tar_write_header_longname:
  assumes "root_known os" and "n < 8 ^ 11"
  obtains m where "tar_write_header os junk (long_args (str ''././@LongName'') n TAR_LONGNAME) out = Some (True, out @ m)"
    and "block_reads m (long_args (str ''././@LongName'') n TAR_LONGNAME) (str ''././@LongName'') GNUTYPE_LONGNAME []"
proof -
  let ?a = "long_args (str ''././@LongName'') n TAR_LONGNAME"
  have u: "users_known os ?a"
    using assms(1) by (simp add: users_known_def tar_passwd_def tar_group_def long_args_def root_known_def)
  have "unat (word_of_nat n :: size_t) = n" using assms(2) by (simp add: unat_of_nat)
  then have f: "fields_ok ?a" using assms(2) by (simp add: fields_ok_def long_args_def entry_link_def str_def)
  have nm: "entry_name ?a = str ''././@LongName''"
    by (simp add: entry_name_def long_args_def str_def PATH_SEPARATOR_def byte_of_def)
  have "entry_short ?a" unfolding entry_short_def nm by (simp add: str_def)
  moreover have "convert_type (a_type ?a) = Some GNUTYPE_LONGNAME" by (simp add: long_args_def)
  moreover have "entry_link ?a = []" by (simp add: entry_link_def long_args_def)
  ultimately show ?thesis using tar_write_header_short [OF u f] that nm by metis
qed

lemma length_tar_header_block:
  "length junk = 12 \<Longrightarrow> length (tar_header_block (tar_header_fields args pw gr name typeflag link) junk) = 512"
proof -
  assume j: "length junk = 12"
  obtain h where h: "tar_header_block (tar_header_fields args pw gr name typeflag link) junk = header_bytes h @ junk"
      "header_sized h"
    using tar_header_block_layout [OF tar_header_fields_sized] by blast
  show ?thesis using j header_layout(1) [OF h(2)] unfolding h(1) by simp
qed

text \<open>What is written for a long name: the announcement, the name, and more.\<close>

lemma tar_write_header_long:
  assumes "root_known os" and "users_known os args" and "entry_ok args"
    and "length (entry_name args) < 8 ^ 10" and "\<not> entry_short args"
  obtains m n k x where "block_reads m (long_args (str ''././@LongName'') n TAR_LONGNAME)
      (str ''././@LongName'') GNUTYPE_LONGNAME []"
    and "tar_write_header os junk args out = Some (True, out @ m @ entry_name args @ replicate k 0 @ x)"
    and "512 \<le> length (entry_name args) + k" and "k \<le> 513" and "length x = 512"
proof -
  obtain pw gr where u: "tar_passwd os args = Some pw" "tar_group os args = Some gr"
    using assms(2) by (auto simp: users_known_def)
  obtain flag where f: "convert_type (a_type args) = Some flag" using entry_ok_flag [OF assms(3)] by blast
  let ?n = "dropWhile (\<lambda>c. c = PATH_SEPARATOR) (a_name args)"
  let ?s = "a_type args = TAR_DIR \<and> \<not> ends_with ?n PATH_SEPARATOR"
  let ?k = "(if (length ?n + 1) mod 512 = 0 then 0 else 512 - (length ?n + 1) mod 512)"
  have nm: "?n @ (if ?s then [PATH_SEPARATOR, 0] else [0]) = entry_name args @ [0]"
    by (simp add: entry_name_def Let_def)
  have fits: "\<not> length ?n + 1 + (if ?s then 1 else 0) < 100"
    using assms(5) by (auto simp: entry_short_def entry_name_def Let_def split: if_splits)
  have sz: "\<not> unat (a_size args) > 8589934591" using assms(3) by (simp add: entry_ok_def fields_ok_def)
  have lk: "(case a_linkname args of None \<Rightarrow> Some ([], us, o1)
      | Some l \<Rightarrow> if length l + 1 < 100 then Some (l, us, o1) else X l) = Some (entry_link args, us, o1)"
    for X o1 and us :: "(bytes \<times> 32 word) \<times> (bytes \<times> 32 word)"
    using assms(3) by (auto simp: entry_ok_def fields_ok_def entry_link_def split: option.splits)
  have le: "length ?n \<le> length (entry_name args)" by (simp add: entry_name_def Let_def)
  then have "length ?n + 1 < 8 ^ 11" using assms(4) by simp
  then obtain m where m: "tar_write_header os junk (long_args (str ''././@LongName'') (length ?n + 1) TAR_LONGNAME) out
        = Some (True, out @ m)"
      "block_reads m (long_args (str ''././@LongName'') (length ?n + 1) TAR_LONGNAME) (str ''././@LongName'') GNUTYPE_LONGNAME []"
    using tar_write_header_longname [OF assms(1)] by blast
  have pad: "tar_write_padding (out @ m @ entry_name args @ [0]) (length ?n + 1) =
      out @ m @ entry_name args @ replicate (1 + ?k) 0"
    by (simp add: tar_write_padding_def TAR_BLOCK_SIZE_def Let_def replicate_app_Cons_same [symmetric])
  have "512 \<le> length ?n + 1 + ?k" by (cases "(length ?n + 1) mod 512 = 0") (use mod_less_eq_dividend in \<open>auto simp: mod_eq_0_iff_dvd dest: dvd_imp_le\<close>)
  then have "512 \<le> length (entry_name args) + (1 + ?k)" using le by simp
  moreover have "\<exists>x. length x = 512 \<and>
      tar_write_header os junk args out = Some (True, out @ m @ entry_name args @ replicate (1 + ?k) 0 @ x)"
    unfolding tar_write_header.simps [of os junk args] u prod.case option.case Let_def if_not_P [OF fits] if_not_P [OF sz]
      f m(1) append_assoc nm pad lk by (simp add: length_tar_header_block)
  ultimately show ?thesis using m(2) that [of m "length ?n + 1" "1 + ?k"] by auto
qed

text \<open>What the reader does with it: the block of the name is taken for a header.\<close>

lemma tar_update_mem_longname:
  assumes "block_reads m args name GNUTYPE_LONGNAME link" and "ts_type st \<notin> {TAR_LONGNAME, TAR_LONGLINK}"
  shows "tar_update_mem st m beyond =
    Some (True, st\<lparr>ts_ready := False, ts_type := TAR_LONGNAME, ts_path := []\<rparr>, [])"
proof -
  have m: "length m = 512" "\<not> block_is_zero m" "m ! 156 = GNUTYPE_LONGNAME"
    using assms(1) by (simp_all add: block_reads_def)
  then have "tar_update_header False False (st\<lparr>ts_ready := False\<rparr>) m beyond =
      Some (True, st\<lparr>ts_ready := False, ts_type := TAR_LONGNAME, ts_path := []\<rparr>)"
    by (simp add: tar_update_header_def Let_def TAR_BLOCK_SIZE_def typeflags byte_of_def)
  then show ?thesis using assms(2) m(1) by (simp add: tar_update_mem_def Let_def TAR_BLOCK_SIZE_def)
qed

lemma tar_update_mem_nonsense:
  assumes "length p = 512" and "p ! 156 = 0" and "\<not> block_is_zero p"
    and "ts_type st = TAR_LONGNAME" and "ts_path st = []" and "ts_file_size st = 0"
  shows "tar_update_mem st p beyond = Some (False, tar_failed (st\<lparr>ts_ready := False\<rparr>), [])"
proof -
  have "tar_update_header True False (st\<lparr>ts_ready := False\<rparr>) p beyond =
      Some (False, tar_failed (st\<lparr>ts_ready := False\<rparr>))"
    using assms(1-3) by (simp add: tar_update_header_def Let_def TAR_BLOCK_SIZE_def typeflags byte_of_def)
  then show ?thesis using assms(1,4-6) by (simp add: tar_update_mem_def Let_def TAR_BLOCK_SIZE_def)
qed

lemma tar_update_fd_nonsense:
  assumes "tar_room al st fd" and "ts_type st = TAR_ERROR" and "ts_file_size st = 0"
    and "fd_data fd = m @ p @ rest" and "block_reads m args name GNUTYPE_LONGNAME link"
    and "length p = 512" and "p ! 156 = 0" and "\<not> block_is_zero p"
  shows "\<exists>st' fd'. tar_update_fd al st fd = Some (False, st', fd') \<and> ts_type st' = TAR_ERROR"
proof -
  have len: "length m = 512" using assms(5) by (simp add: block_reads_def)
  obtain b fd1 where b: "tar_room al st fd1" "fd_data fd1 = p @ rest"
      "tar_update_fd al st fd =
        (case tar_update_mem (st\<lparr>ts_tmp := b\<rparr>) m (drop (used b) (mem b)) of
           None \<Rightarrow> None
         | Some (ok, st2, _) \<Rightarrow>
             if \<not> ok then Some (False, st2, fd1)
             else if ts_ready st2 then Some (True, st2, fd1) else tar_update_fd al st2 fd1)"
    using tar_update_fd_block [OF assms(1,4) len] by blast
  let ?st1 = "st\<lparr>ts_tmp := b, ts_ready := False, ts_type := TAR_LONGNAME, ts_path := []\<rparr>"
  have s1: "tar_update_fd al st fd = tar_update_fd al ?st1 fd1"
    using assms(2) unfolding b(3) by (subst tar_update_mem_longname [OF assms(5)]) simp_all
  have "tar_room al ?st1 fd1" using b(1) by (simp add: tar_room_def)
  from tar_update_fd_block [OF this b(2) assms(6)] obtain c fd2
    where c: "tar_update_fd al ?st1 fd1 =
        (case tar_update_mem (?st1\<lparr>ts_tmp := c\<rparr>) p (drop (used c) (mem c)) of
           None \<Rightarrow> None
         | Some (ok, st2, _) \<Rightarrow>
             if \<not> ok then Some (False, st2, fd2)
             else if ts_ready st2 then Some (True, st2, fd2) else tar_update_fd al st2 fd2)"
    by blast
  show ?thesis
    using assms(3) unfolding s1 c by (subst tar_update_mem_nonsense [OF assms(6-8)]) (simp_all add: tar_failed_def)
qed

text \<open>C31: The reader cannot read the long names the writer writes: for an entry whose name does
  not fit into the header, with at most 155 characters, \<open>tar_write_header\<close> succeeds, and
  \<open>tar_update_fd\<close> in a new state fails on what it wrote, whatever follows. (The reader does
  not take over the size of the name block and reads that block as a header.)\<close>

theorem tar_longname_unreadable:
  assumes "\<forall>m < 2 ^ 63. can_alloc al m" and "root_known os" and "users_known os args" and "entry_ok args"
    and "\<not> entry_short args" and "length (entry_name args) \<le> 155"
  shows "\<exists>archive. tar_write_header os junk args [] = Some (True, archive) \<and>
    (\<forall>fd extra. fd_clean fd \<and> fd_data fd = archive @ extra \<and> length (fd_data fd) < 2 ^ 57 \<longrightarrow>
      (\<exists>st fd'. tar_update_fd al tar_state_zero fd = Some (False, st, fd') \<and> ts_type st = TAR_ERROR))"
proof -
  have "length (entry_name args) < 8 ^ 10" using assms(6) by simp
  from tar_write_header_long [OF assms(2-4) this assms(5), of junk "[]"]
  obtain m n k x where w: "block_reads m (long_args (str ''././@LongName'') n TAR_LONGNAME)
      (str ''././@LongName'') GNUTYPE_LONGNAME []"
      "tar_write_header os junk args [] = Some (True, m @ entry_name args @ replicate k 0 @ x)"
      "512 \<le> length (entry_name args) + k"
    by (metis append_Nil)
  define p where "p = take 512 (entry_name args @ replicate k 0)"
  have p: "length p = 512" "entry_name args @ replicate k 0 = p @ drop 512 (entry_name args @ replicate k 0)"
    using w(3) by (simp add: p_def, simp only: p_def append_take_drop_id)
  have p156: "p ! 156 = 0" using assms(6) w(3) by (simp add: p_def nth_append)
  have ne: "entry_name args \<noteq> []" "0 \<notin> set (entry_name args)"
    using assms(4,5) entry_name_clean [of args] by (auto simp: entry_short_def entry_ok_def fields_ok_def)
  then have "hd (entry_name args) \<noteq> 0" using hd_in_set [OF ne(1)] by metis
  then have "hd p \<noteq> 0" using ne(1) by (simp add: p_def)
  then have nz: "\<not> block_is_zero p" using p(1) by (cases p) (auto simp: block_is_zero_def)
  have "\<exists>st fd'. tar_update_fd al tar_state_zero fd = Some (False, st, fd') \<and> ts_type st = TAR_ERROR"
    if "fd_clean fd" "fd_data fd = (m @ entry_name args @ replicate k 0 @ x) @ extra" "length (fd_data fd) < 2 ^ 57"
    for fd extra
  proof (rule tar_update_fd_nonsense [OF _ _ _ _ w(1) p(1) p156 nz])
    show "tar_room al tar_state_zero fd" using assms(1) that by (simp add: tar_room_def)
    show "fd_data fd = m @ p @ (drop 512 (entry_name args @ replicate k 0) @ x @ extra)"
      unfolding that(2) using p(2) by (metis append_assoc)
  qed (simp_all add: tar_state_zero_def)
  then show ?thesis using w(2) by blast
qed

definition long_file :: tar_header_args where
  "long_file = (fst one_file)\<lparr>a_name := replicate 120 97\<rparr>"

theorem tar_longname_unreadable_witness:
  "\<exists>archive st fd. tar_write_header one_user (\<lambda>_. []) long_file [] = Some (True, archive) \<and>
     tar_update_fd plain_alloc tar_state_zero [Some archive] = Some (False, st, fd) \<and> ts_type st = TAR_ERROR"
proof -
  have ok: "root_known one_user" "users_known one_user long_file" "entry_ok long_file" "\<not> entry_short long_file"
      "length (entry_name long_file) \<le> 155" "length (entry_name long_file) < 8 ^ 10"
    by (simp_all add: root_known_def long_file_def one_file_def users_known_def tar_passwd_def tar_group_def
        one_user_def entry_ok_def fields_ok_def entry_short_def entry_name_def entry_link_def PATH_SEPARATOR_def
        byte_of_def)
  obtain m n k x where w:
      "tar_write_header one_user (\<lambda>_. []) long_file [] = Some (True, [] @ m @ entry_name long_file @ replicate k 0 @ x)"
      "k \<le> 513" "length x = 512" "block_reads m (long_args (str ''././@LongName'') n TAR_LONGNAME)
      (str ''././@LongName'') GNUTYPE_LONGNAME []"
    using tar_write_header_long [OF ok(1-3,6,4)] by metis
  let ?archive = "m @ entry_name long_file @ replicate k 0 @ x"
  have "length ?archive < 2 ^ 57" "fd_clean [Some ?archive]"
    using w(2-4) ok(5) by (auto simp: block_reads_def)
  then show ?thesis
    using tar_longname_unreadable [OF _ ok(1-5), of plain_alloc "\<lambda>_. []"] w(1) by fastforce
qed

text \<open>C18: Reading an archive is safe: \<open>tar_update_fd\<close> returns, without an access out of bounds
  or a signed overflow, on every input, as long as the size recorded for the last file is
  neither negative nor close to the largest size. A header can make it negative, and the next
  long name then copies with a negative size.\<close>

theorem tar_update_fd_safe:
  assumes "\<forall>m < 2 ^ 63. can_alloc al m" and "fd_clean fd" and "length (fd_data fd) < 2 ^ 57"
    and "uint (ts_file_size st) < 2 ^ 63 - 512"
  shows "tar_update_fd al st fd \<noteq> None"
  using assms by (intro tar_update_fd_total) (simp_all add: tar_room_def size_sane_def)

theorem tar_update_fd_safe_witness:
  "tar_update_fd plain_alloc tar_state_zero [Some (replicate 700 48), Some [49]] \<noteq> None"
  by (rule tar_update_fd_safe) (simp_all add: fd_clean_def tar_state_zero_def)

end
