(* ===== verification/Http.thy ===== *)
theory Http
  imports ChainFd
begin

text \<open>
  The HTTP client (\<open>src/http/client.c\<close>): a chain whose update function reads the response
  of a server from the chain of the connection. The update function that the interface of the
  chain currently points to is the state of a machine; here it is a field of the argument. The
  update function of the connection's chain is a parameter. \<open>None\<close> is a loop that does not
  end or a memory error.
\<close>

section \<open>The state of a request\<close>

datatype transfer_encoding = TRANSFER_ENCODING_IDENTITY | TRANSFER_ENCODING_CHUNKED

datatype http_phase =
  http_get_status | http_get_header | http_get_contents_chunked_header | http_get_body

record 's client_get_arg =
  client :: "'s chain_read"
  transfer_encoding_type :: transfer_encoding
  body_size :: size_t
  have_size :: size_t
  phase :: http_phase

definition CRLF :: bytes where
  "CRLF = [13, 10]"

section \<open>Lines\<close>

datatype http_getline_status = line_error | line_incomplete | line_found bytes

text \<open>
  The end of the string \<open>line_end_sequence\<close> that is searched is computed from its beginning, in
  the initializer of the same variable. C does not say in which order the two members are
  evaluated (C11, 6.7.9, 23): this is the program of a compiler that initializes them in the order
  in which they are listed, so that the beginning is there when it is read; for another order the
  beginning is not initialized. In \<open>metahash-analyzer\<close> (theory \<open>MetahashUtil\<close>) it is an assignment
  whose right-hand side reads the variable, which no order of evaluation can make right.
\<close>

definition http_getline ::
    "(buffer \<Rightarrow> 's \<Rightarrow> (chain_status \<times> buffer \<times> 's) option) \<Rightarrow> 's chain_read
       \<Rightarrow> (http_getline_status \<times> 's chain_read) option" where
  "http_getline update c =
     (case chain_pull update c 0 of
        None \<Rightarrow> None
      | Some (None, c') \<Rightarrow> Some (line_error, c')
      | Some (Some ct, c') \<Rightarrow>
          if ct = [] then Some (line_incomplete, c')
          else case range_strstr ct CRLF of
                 None \<Rightarrow> None
               | Some line_end_point \<Rightarrow>
                   if line_end_point = length ct then Some (line_incomplete, c')
                   else Some (line_found (take line_end_point ct),
                              chain_release c' (line_end_point + length CRLF)))"

fun skip_isspace :: "bool \<Rightarrow> bytes \<Rightarrow> bytes" where
  "skip_isspace pred [] = []"
| "skip_isspace pred (c # cs) = (if pred \<noteq> isspace c then c # cs else skip_isspace pred cs)"

definition split_c :: "byte \<Rightarrow> bytes \<Rightarrow> bytes \<times> bytes" where
  "split_c c input =
     (let sep = range_strchr input c in (take sep input, drop (sep + 1) input))"

definition parse_http_status :: "bytes \<Rightarrow> size_t option" where
  "parse_http_status line =
     (case split_c (byte_of (CHR '' '')) line of
        (prefix, suffix) \<Rightarrow>
          if \<not> range_streq_string prefix (str ''HTTP/1.1'') then None
          else case range_atozd suffix of (digits, status) \<Rightarrow> if digits = 0 then None else Some status)"

definition parse_http_line :: "'s client_get_arg \<Rightarrow> bytes \<Rightarrow> bool \<times> 's client_get_arg" where
  "parse_http_line arg line =
     (case split_c (byte_of (CHR '':'')) line of
        (prefix, suffix0) \<Rightarrow>
          (let suffix = skip_isspace True suffix0
           in if range_streq_string prefix (str ''Content-Length'') then
                (if body_size arg \<noteq> 0 then (False, arg)
                 else if transfer_encoding_type arg \<noteq> TRANSFER_ENCODING_IDENTITY then (False, arg)
                 else case range_atozd suffix of
                        (digits, n) \<Rightarrow> (digits \<noteq> 0, arg\<lparr>body_size := n\<rparr>))
              else if range_streq_string prefix (str ''Transfer-Encoding'') then
                (if range_streq_string suffix (str ''chunked'') then
                   (if body_size arg \<noteq> 0 then (False, arg)
                    else if transfer_encoding_type arg \<noteq> TRANSFER_ENCODING_IDENTITY then (False, arg)
                    else (True, arg\<lparr>transfer_encoding_type := TRANSFER_ENCODING_CHUNKED\<rparr>))
                 else (False, arg))
              else (True, arg)))"

text \<open>The digits before the first other character, and whether there was one.\<close>

fun to_hex_loop :: "size_t \<Rightarrow> bytes \<Rightarrow> size_t \<times> bytes" where
  "to_hex_loop n [] = (n, [])"
| "to_hex_loop n (c # cs) =
     (if byte_of (CHR ''0'') \<le> c \<and> c \<le> byte_of (CHR ''9'')
      then to_hex_loop (ucast (c - byte_of (CHR ''0'')) + n * 16) cs
      else if byte_of (CHR ''a'') \<le> c \<and> c \<le> byte_of (CHR ''f'')
      then to_hex_loop (ucast (c - byte_of (CHR ''a'')) + 10 + n * 16) cs
      else if byte_of (CHR ''A'') \<le> c \<and> c \<le> byte_of (CHR ''F'')
      then to_hex_loop (ucast (c - byte_of (CHR ''A'')) + 10 + n * 16) cs
      else (n, c # cs))"

definition to_hex :: "bytes \<Rightarrow> bool \<times> size_t" where
  "to_hex line = (case to_hex_loop 0 line of (n, rest) \<Rightarrow> (length rest \<noteq> length line, n))"

section \<open>The update functions\<close>

definition http_get_status_func ::
    "(buffer \<Rightarrow> 's \<Rightarrow> (chain_status \<times> buffer \<times> 's) option) \<Rightarrow> buffer \<Rightarrow> 's client_get_arg
       \<Rightarrow> (chain_status \<times> buffer \<times> 's client_get_arg) option" where
  "http_get_status_func update b arg =
     (case http_getline update (client arg) of
        None \<Rightarrow> None
      | Some (line_error, c) \<Rightarrow> Some (CHAIN_ERROR, b, arg\<lparr>client := c\<rparr>)
      | Some (line_incomplete, c) \<Rightarrow> Some (CHAIN_INCOMPLETE, b, arg\<lparr>client := c\<rparr>)
      | Some (line_found line, c) \<Rightarrow>
          (case parse_http_status line of
             None \<Rightarrow> Some (CHAIN_ERROR, b, arg\<lparr>client := c\<rparr>)
           | Some status \<Rightarrow>
               if status \<noteq> 200 then Some (CHAIN_ERROR, b, arg\<lparr>client := c\<rparr>)
               else Some (CHAIN_INCOMPLETE, b, arg\<lparr>client := c, phase := http_get_header\<rparr>)))"

definition http_get_header_func ::
    "(buffer \<Rightarrow> 's \<Rightarrow> (chain_status \<times> buffer \<times> 's) option) \<Rightarrow> buffer \<Rightarrow> 's client_get_arg
       \<Rightarrow> (chain_status \<times> buffer \<times> 's client_get_arg) option" where
  "http_get_header_func update b arg =
     (case http_getline update (client arg) of
        None \<Rightarrow> None
      | Some (line_error, c) \<Rightarrow> Some (CHAIN_ERROR, b, arg\<lparr>client := c\<rparr>)
      | Some (line_incomplete, c) \<Rightarrow> Some (CHAIN_INCOMPLETE, b, arg\<lparr>client := c\<rparr>)
      | Some (line_found line, c) \<Rightarrow>
          if line = [] then
            Some (CHAIN_INCOMPLETE, b,
              arg\<lparr>client := c,
                  phase := (case transfer_encoding_type arg of
                              TRANSFER_ENCODING_IDENTITY \<Rightarrow> http_get_body
                            | TRANSFER_ENCODING_CHUNKED \<Rightarrow> http_get_contents_chunked_header)\<rparr>)
          else case parse_http_line (arg\<lparr>client := c\<rparr>) line of
                 (ok, arg') \<Rightarrow> Some (if ok then CHAIN_INCOMPLETE else CHAIN_ERROR, b, arg'))"

definition http_get_contents_chunked_header_func ::
    "(buffer \<Rightarrow> 's \<Rightarrow> (chain_status \<times> buffer \<times> 's) option) \<Rightarrow> buffer \<Rightarrow> 's client_get_arg
       \<Rightarrow> (chain_status \<times> buffer \<times> 's client_get_arg) option" where
  "http_get_contents_chunked_header_func update b arg =
     (case http_getline update (client arg) of
        None \<Rightarrow> None
      | Some (line_error, c) \<Rightarrow> Some (CHAIN_ERROR, b, arg\<lparr>client := c\<rparr>)
      | Some (line_incomplete, c) \<Rightarrow> Some (CHAIN_INCOMPLETE, b, arg\<lparr>client := c\<rparr>)
      | Some (line_found line, c) \<Rightarrow>
          (case to_hex line of
             (ok, n) \<Rightarrow>
               if \<not> ok then Some (CHAIN_ERROR, b, arg\<lparr>client := c, body_size := n\<rparr>)
               else Some (CHAIN_INCOMPLETE, b,
                      arg\<lparr>client := c, body_size := n, have_size := 0, phase := http_get_body\<rparr>)))"

text \<open>The part of \<open>http_get_body_func\<close> after the pull of \<open>ct\<close>.\<close>

definition http_take_body ::
    "allocator \<Rightarrow> buffer \<Rightarrow> 's client_get_arg \<Rightarrow> 's chain_read \<Rightarrow> bytes
       \<Rightarrow> (chain_status \<times> buffer \<times> 's client_get_arg) option" where
  "http_take_body al b arg c ct =
     (let want_size = unat (body_size arg - have_size arg);
          got_size = (if length ct > want_size then want_size else length ct);
          have_now = have_size arg + word_of_nat got_size
      in case buffer_append_n al b (take got_size ct) of
           None \<Rightarrow> None
         | Some b' \<Rightarrow>
             (let c1 = chain_release c got_size
              in if have_now = body_size arg then
                   (case transfer_encoding_type arg of
                      TRANSFER_ENCODING_CHUNKED \<Rightarrow>
                        Some (CHAIN_INCOMPLETE, b',
                          arg\<lparr>client := chain_release c1 (length CRLF), have_size := have_now,
                              phase := http_get_contents_chunked_header\<rparr>)
                    | TRANSFER_ENCODING_IDENTITY \<Rightarrow>
                        Some (CHAIN_COMPLETE, b', arg\<lparr>client := c1, have_size := have_now\<rparr>))
                 else Some (CHAIN_INCOMPLETE, b', arg\<lparr>client := c1, have_size := have_now\<rparr>)))"

definition http_get_body_func ::
    "allocator \<Rightarrow> (buffer \<Rightarrow> 's \<Rightarrow> (chain_status \<times> buffer \<times> 's) option) \<Rightarrow> buffer
       \<Rightarrow> 's client_get_arg \<Rightarrow> (chain_status \<times> buffer \<times> 's client_get_arg) option" where
  "http_get_body_func al update b arg =
     (if body_size arg = 0
      then Some (CHAIN_COMPLETE, b, arg\<lparr>client := chain_release (client arg) (length CRLF)\<rparr>)
      else let want_size = unat (body_size arg - have_size arg);
               pull_size = (if want_size < 1000000 then want_size else 1000000)
           in case chain_pull update (client arg) pull_size of
                None \<Rightarrow> None
              | Some (None, c) \<Rightarrow> Some (CHAIN_ERROR, b, arg\<lparr>client := c\<rparr>)
              | Some (Some ct, c) \<Rightarrow> http_take_body al b arg c ct)"

definition http_update ::
    "allocator \<Rightarrow> (buffer \<Rightarrow> 's \<Rightarrow> (chain_status \<times> buffer \<times> 's) option) \<Rightarrow> buffer
       \<Rightarrow> 's client_get_arg \<Rightarrow> (chain_status \<times> buffer \<times> 's client_get_arg) option" where
  "http_update al update b arg =
     (case phase arg of
        http_get_status \<Rightarrow> http_get_status_func update b arg
      | http_get_header \<Rightarrow> http_get_header_func update b arg
      | http_get_contents_chunked_header \<Rightarrow> http_get_contents_chunked_header_func update b arg
      | http_get_body \<Rightarrow> http_get_body_func al update b arg)"

section \<open>Requests\<close>

text \<open>The text of a request; lines end with a line feed only.\<close>

definition get_request :: "bytes \<Rightarrow> bytes \<Rightarrow> bytes \<Rightarrow> bytes" where
  "get_request host port path =
     str ''GET /'' @ path @ str '' HTTP/1.1'' @ [10] @ str ''Host: '' @ host @ str '':'' @ port @ [10]
       @ str ''User-Agent: http-lib/0.0.1'' @ [10] @ str ''Accept: */*'' @ [10] @ [10]"

text \<open>
  A client is the chain of its connection with the name of the host and the port; a connection
  also has a side to write to. \<open>tcp_connect\<close> is an argument.
\<close>

record http_client =
  fd_read :: "read_fd chain_read"
  fd_write :: write_fd
  host :: bytes
  port :: bytes

definition http_client_connect ::
    "(bytes \<Rightarrow> bytes \<Rightarrow> (read_fd \<times> write_fd) option) \<Rightarrow> bytes \<Rightarrow> bytes \<Rightarrow> http_client option" where
  "http_client_connect tcp_connect h p =
     map_option (\<lambda>(r, w). \<lparr>fd_read = chain_read_open_fd r, fd_write = w, host = h, port = p\<rparr>) (tcp_connect h p)"

text \<open>
  The chain of a request reads the chain of the connection, which is part of its argument
  here until the request is over. The results are what was written, and the new chain.
\<close>

definition http_client_get :: "http_client \<Rightarrow> bytes \<Rightarrow> write_fd \<times> read_fd client_get_arg chain_read option" where
  "http_client_get cl path =
     (case dprintf (fd_write cl) (get_request (host cl) (port cl) path) of
        (False, w) \<Rightarrow> (w, None)
      | (True, w) \<Rightarrow>
          (w, Some (chain_read_new
                \<lparr>client = fd_read cl, transfer_encoding_type = TRANSFER_ENCODING_IDENTITY,
                 body_size = 0, have_size = 0, phase = http_get_status\<rparr>)))"

end
