(* ===== verification/HttpResponse.thy ===== *)
theory HttpResponse
  imports Http
begin

text \<open>
  What the HTTP client makes of a response: a grammar of responses with a content length or in
  chunks, and the proof that the chain of a request delivers exactly the content. The chain is
  an instance of the contract of an input.
\<close>

section \<open>Lines\<close>

lemma find_CRLF:
  assumes "13 \<notin> set line" and "ct \<noteq> []" and "ct = take k (line @ CRLF @ rest)"
  shows "range_strstr ct CRLF = Some (if length line + 2 \<le> length ct then length line else length ct)"
proof -
  have two: "length CRLF = 2" "CRLF \<noteq> []" by (simp_all add: CRLF_def)
  then have "length CRLF \<le> length ct + 1" using assms(2) by (cases ct) auto
  from range_strstr_found [OF two(2) this] obtain r where
    r: "range_strstr ct CRLF = Some r" "r \<le> length ct"
      "r < length ct \<longleftrightarrow> (\<exists>i. take 2 (drop i ct) = CRLF)"
      "r < length ct \<longrightarrow> take 2 (drop r ct) = CRLF \<and> (\<forall>j < r. take 2 (drop j ct) \<noteq> CRLF)"
    using two by auto
  have at: "ct ! i = 13 \<and> i + 2 \<le> length ct" if "take 2 (drop i ct) = CRLF" for i
  proof -
    have len: "i + 2 \<le> length ct" using arg_cong [OF that, of length] two by simp
    have "take 2 (drop i ct) ! 0 = 13" unfolding that by (simp add: CRLF_def)
    then show ?thesis using len by simp
  qed
  have ge: "length line \<le> i" if "take 2 (drop i ct) = CRLF" for i
  proof (rule ccontr)
    assume "\<not> length line \<le> i"
    then have i: "i < length line" "i < length ct" using at [OF that] by simp_all
    then have "ct ! i = (line @ CRLF @ rest) ! i" using assms(3) by (metis length_take min_less_iff_conj nth_take)
    then have "ct ! i = line ! i" "line ! i \<in> set line" using i(1) by (simp_all add: nth_append)
    then show False using at [OF that] assms(1) by simp
  qed
  show ?thesis
  proof (cases "length line + 2 \<le> length ct")
    case True
    have "take (length line + 2) ct = line @ CRLF"
      using True assms(3) two by (simp add: min_def CRLF_def split: if_splits)
    then have "take 2 (drop (length line) ct) = CRLF"
      using True by (metis append_eq_conv_conj take_drop add.commute)
    then show ?thesis using r ge True by (metis le_antisym linorder_not_less)
  next
    case False
    have "\<not> (\<exists>i. take 2 (drop i ct) = CRLF)" using at ge False by (metis add_le_mono1 le_trans)
    then show ?thesis using r False by simp
  qed
qed

text \<open>
  A line that is next on the connection is found, or there is progress towards it; the
  connection is not at its end.
\<close>

lemma http_getline_next:
  assumes "fd_in.reads al D c T P" and "\<not> is_complete c" and "drop P D = line @ CRLF @ rest"
    and "13 \<notin> set line" and "fresh_read c \<or> length T < P + length line + 2"
  obtains (more) T' c' where "http_getline (chain_read_fd_update_func al) c = Some (line_incomplete, c')"
      and "fd_in.reads al D c' T' P" and "\<not> is_complete c'" and "\<not> fresh_read c'"
      and "length T' < P + length line + 2" and "length T < length T' \<or> fresh_read c" and "length T \<le> length T'"
  | (found) T' c' where "http_getline (chain_read_fd_update_func al) c = Some (line_found line, c')"
      and "fd_in.reads al D c' T' (P + length line + 2)" and "\<not> is_complete c'" and "fresh_read c'"
      and "P + length line + 2 \<le> length T'" and "length T \<le> length T'"
proof -
  let ?upd = "chain_read_fd_update_func al"
  have lenD: "P + length line + 2 \<le> length D"
    using arg_cong [OF assms(3), of length] by (simp add: CRLF_def)
  note b = fd_reads_bounds [OF assms(1)]
  have P: "P < 2 ^ 58" using lenD b by simp
  obtain bs c' where p: "chain_pull ?upd c 0 = Some (Some (drop P (T @ bs)), c')"
      "fd_in.reads al D c' (T @ bs) P" "\<not> fresh_read c'"
      "is_complete c' \<longrightarrow> length D \<le> P + 0 \<or> length D \<le> length T + 0 \<and> (fresh_read c \<longrightarrow> length T < P + 0)"
      "\<not> is_complete c' \<longrightarrow> bs \<noteq> [] \<or> fresh_read c \<and> P + 0 \<le> length T"
    using fd_chain_pull [OF assms(1,2) _ P, of 0] by (metis zero_le)
  have nc: "\<not> is_complete c'" using p(4) lenD assms(5) by linarith
  let ?T = "T @ bs"
  have "?T = take (length ?T) D"
    using p(2) unfolding fd_in.reads_def fd_good_def by (metis append_eq_conv_conj)
  then have ct: "drop P ?T = take (length ?T - P) (line @ CRLF @ rest)"
    unfolding assms(3) [symmetric] by (metis drop_take)
  have progress: "length T < length ?T \<or> fresh_read c" using p(5) nc by auto
  show ?thesis
  proof (cases "length ?T < P + length line + 2")
    case True
    have "http_getline ?upd c = Some (line_incomplete, c')"
    proof (cases "drop P ?T = []")
      case True
      show ?thesis unfolding http_getline_def p(1) option.case prod.case if_P [OF True] ..
    next
      case False
      have "range_strstr (drop P ?T) CRLF = Some (length (drop P ?T))"
        using find_CRLF [OF assms(4) False ct] True by auto
      then show ?thesis unfolding http_getline_def p(1) option.case prod.case using False by simp
    qed
    then show ?thesis using True p(2,3) nc progress by (intro more [of c' ?T]) simp_all
  next
    case False
    then have ne: "drop P ?T \<noteq> []" by auto
    have f: "range_strstr (drop P ?T) CRLF = Some (length line)"
      using find_CRLF [OF assms(4) ne ct] False by auto
    have "min (length line) (length ?T - P) = length line" using False by simp
    then have tk: "take (length line) (drop P ?T) = line" unfolding ct take_take by simp
    have "length line \<noteq> length (drop P ?T)" using False by auto
    then have "http_getline ?upd c = Some (line_found line, chain_release c' (length line + 2))"
      unfolding http_getline_def p(1) option.case prod.case if_not_P [OF ne] f tk by (simp add: CRLF_def)
    moreover have "fd_in.reads al D (chain_release c' (length line + 2)) ?T (P + (length line + 2))"
      using lenD b by (intro fd_in.reads_release [OF p(2)]) simp
    ultimately show ?thesis
      using False nc by (intro found [of "chain_release c' (length line + 2)" ?T])
        (simp_all add: add.assoc chain_release_def)
  qed
qed

section \<open>A grammar of responses\<close>

text \<open>Numbers as a server writes them.\<close>

fun decimal_text :: "nat \<Rightarrow> bytes" where
  "decimal_text n =
     (if n < 10 then [word_of_nat (48 + n)] else decimal_text (n div 10) @ [word_of_nat (48 + n mod 10)])"

definition hex_char :: "nat \<Rightarrow> byte" where
  "hex_char n = word_of_nat (if n < 10 then 48 + n else 87 + n)"

fun hex_text :: "nat \<Rightarrow> bytes" where
  "hex_text n = (if n < 16 then [hex_char n] else hex_text (n div 16) @ [hex_char (n mod 16)])"

declare decimal_text.simps [simp del] hex_text.simps [simp del]

lemma decimal_char:
  "k < 10 \<Longrightarrow> isdigit (word_of_nat (48 + k)) \<and> unat (word_of_nat (48 + k) - byte_of (CHR ''0'')) = k"
proof -
  assume "k < 10"
  then have "k \<in> {0, 1, 2, 3, 4, 5, 6, 7, 8, 9}" by auto
  then show ?thesis by (elim insertE emptyE) (auto simp: isdigit_def byte_of_def)
qed

lemma decimal_text_spec: "decimal (decimal_text n) = n \<and> list_all isdigit (decimal_text n)"
proof (induction n rule: decimal_text.induct)
  case (1 n)
  show ?case
  proof (cases "n < 10")
    case True
    then show ?thesis using decimal_char [of n] by (subst (1 2) decimal_text.simps) (simp add: decimal_def)
  next
    case False
    have "decimal (ds @ [c]) = 10 * decimal ds + unat (c - byte_of (CHR ''0''))" for ds c
      by (simp add: decimal_def)
    then show ?thesis
      using 1 False decimal_char [of "n mod 10"] by (subst (1 2) decimal_text.simps) simp
  qed
qed

lemma decimal_text_ne [simp]: "decimal_text n \<noteq> []"
  by (subst decimal_text.simps) simp

lemma to_hex_char:
  assumes "k < 16"
  shows "to_hex_loop acc (hex_char k # cs) = to_hex_loop (word_of_nat k + acc * 16) cs"
proof -
  have "k = 0 \<or> k = 1 \<or> k = 2 \<or> k = 3 \<or> k = 4 \<or> k = 5 \<or> k = 6 \<or> k = 7 \<or> k = 8 \<or> k = 9 \<or>
      k = 10 \<or> k = 11 \<or> k = 12 \<or> k = 13 \<or> k = 14 \<or> k = 15" using assms by arith
  then show ?thesis by (elim disjE) (simp_all add: hex_char_def byte_of_def)
qed

lemma to_hex_text: "to_hex_loop 0 (hex_text n @ cs) = to_hex_loop (word_of_nat n) cs"
proof (induction n arbitrary: cs rule: hex_text.induct)
  case (1 n)
  show ?case
  proof (cases "n < 16")
    case True
    then show ?thesis using to_hex_char [of n 0 cs] by (subst hex_text.simps) simp
  next
    case False
    have "(word_of_nat (n mod 16) + word_of_nat (n div 16) * 16 :: size_t)
        = word_of_nat (n mod 16 + n div 16 * 16)" by (simp only: of_nat_add of_nat_mult of_nat_numeral)
    then have "(word_of_nat (n mod 16) + word_of_nat (n div 16) * 16 :: size_t) = word_of_nat n" by simp
    then show ?thesis
      using 1 False to_hex_char [of "n mod 16" "word_of_nat (n div 16)" cs] by (subst hex_text.simps) simp
  qed
qed

lemma to_hex_hex_text: "to_hex (hex_text n) = (True, word_of_nat n)"
proof -
  have "hex_text n \<noteq> []" by (subst hex_text.simps) simp
  then show ?thesis using to_hex_text [of n "[]"] by (simp add: to_hex_def)
qed

lemma no_CR_digits: "13 \<notin> set (decimal_text n)" "13 \<notin> set (hex_text n)"
proof -
  show "13 \<notin> set (decimal_text n)"
    using decimal_text_spec [of n] by (auto simp: list_all_iff isdigit_def byte_of_def)
  have c: "hex_char k \<noteq> 13" if "k < 16" for k
    using to_hex_char [OF that, of 0 "[]"] by (auto simp: byte_of_def)
  show "13 \<notin> set (hex_text n)"
  proof (induction n rule: hex_text.induct)
    case (1 n)
    then show ?case using c [of n] c [of "n mod 16"] by (subst hex_text.simps) auto
  qed
qed

text \<open>
  The status line of a success, header lines that do not concern the content, and the content:
  of a given length, or in chunks.
\<close>

definition status_line :: "bytes \<Rightarrow> bytes" where
  "status_line reason = str ''HTTP/1.1 200'' @ reason"

definition reason_ok :: "bytes \<Rightarrow> bool" where
  "reason_ok reason \<longleftrightarrow> 13 \<notin> set reason \<and> (reason \<noteq> [] \<longrightarrow> \<not> isdigit (hd reason))"

definition plain_header :: "bytes \<Rightarrow> bool" where
  "plain_header line \<longleftrightarrow>
     line \<noteq> [] \<and> 13 \<notin> set line \<and>
     takeWhile (\<lambda>c. c \<noteq> byte_of (CHR '':'')) line \<notin> {str ''Content-Length'', str ''Transfer-Encoding''}"

datatype http_content = Identity bytes | Chunked "bytes list"

fun content_header :: "http_content \<Rightarrow> bytes" where
  "content_header (Identity bs) = str ''Content-Length: '' @ decimal_text (length bs)"
| "content_header (Chunked cs) = str ''Transfer-Encoding: chunked''"

fun content_data :: "http_content \<Rightarrow> bytes" where
  "content_data (Identity bs) = bs"
| "content_data (Chunked cs) = concat cs"

fun chunks_wire :: "bytes list \<Rightarrow> bytes" where
  "chunks_wire [] = hex_text 0 @ CRLF @ CRLF"
| "chunks_wire (c # cs) = hex_text (length c) @ CRLF @ c @ CRLF @ chunks_wire cs"

fun content_wire :: "http_content \<Rightarrow> bytes" where
  "content_wire (Identity bs) = bs"
| "content_wire (Chunked cs) = chunks_wire cs"

fun content_ok :: "http_content \<Rightarrow> bool" where
  "content_ok (Identity bs) \<longleftrightarrow> bs \<noteq> []"
| "content_ok (Chunked cs) \<longleftrightarrow> [] \<notin> set cs"

fun header_wire :: "bytes list \<Rightarrow> bytes" where
  "header_wire [] = CRLF"
| "header_wire (l # ls) = l @ CRLF @ header_wire ls"

definition response :: "bytes \<Rightarrow> bytes list \<Rightarrow> http_content \<Rightarrow> bytes list \<Rightarrow> bytes" where
  "response reason before content after =
     status_line reason @ CRLF @ header_wire (before @ [content_header content] @ after) @ content_wire content"

section \<open>Parsing the lines\<close>

lemma split_c_takeWhile:
  "split_c c line = (takeWhile (\<lambda>x. x \<noteq> c) line, tl (dropWhile (\<lambda>x. x \<noteq> c) line))"
  by (simp add: split_c_def range_strchr_takeWhile takeWhile_eq_take [symmetric] dropWhile_eq_drop drop_Suc tl_drop)

lemma status_line_spec: "reason_ok reason \<Longrightarrow> parse_http_status (status_line reason) = Some 200 \<and> 13 \<notin> set (status_line reason)"
proof -
  assume r: "reason_ok reason"
  let ?d = "str ''200''"
  have s: "split_c (byte_of (CHR '' '')) (status_line reason) = (str ''HTTP/1.1'', ?d @ reason)"
    by (simp add: split_c_takeWhile status_line_def str_def byte_of_def)
  have tk: "takeWhile isdigit (?d @ reason) = ?d"
    using r by (cases reason) (auto simp: reason_ok_def str_def isdigit_def byte_of_def)
  have v: "decimal ?d = 200" by (simp add: decimal_def str_def byte_of_def)
  have "range_atozd (?d @ reason) = (3, 200)" unfolding range_atozd_spec tk v by (simp add: str_def)
  then have "parse_http_status (status_line reason) = Some 200"
    unfolding parse_http_status_def s by simp
  then show ?thesis using r by (auto simp: reason_ok_def status_line_def str_def)
qed

lemma isdigit_not_space: "isdigit c \<Longrightarrow> \<not> isspace c"
  by (auto simp: isdigit_def isspace_def byte_of_def word_le_nat_alt)

lemma plain_header_spec: "plain_header line \<Longrightarrow> parse_http_line arg line = (True, arg)"
  by (auto simp: plain_header_def parse_http_line_def split_c_takeWhile Let_def)

lemma content_header_spec:
  assumes "transfer_encoding_type arg = TRANSFER_ENCODING_IDENTITY" and "body_size arg = 0"
  shows "parse_http_line arg (content_header content) =
    (True, case content of
       Identity bs \<Rightarrow> arg\<lparr>body_size := word_of_nat (length bs)\<rparr>
     | Chunked cs \<Rightarrow> arg\<lparr>transfer_encoding_type := TRANSFER_ENCODING_CHUNKED\<rparr>)"
    and "13 \<notin> set (content_header content)" and "content_header content \<noteq> []"
proof -
  show "13 \<notin> set (content_header content)" "content_header content \<noteq> []"
    using no_CR_digits by (cases content; auto simp: str_def)+
  show "parse_http_line arg (content_header content) =
    (True, case content of
       Identity bs \<Rightarrow> arg\<lparr>body_size := word_of_nat (length bs)\<rparr>
     | Chunked cs \<Rightarrow> arg\<lparr>transfer_encoding_type := TRANSFER_ENCODING_CHUNKED\<rparr>)"
  proof (cases content)
    case (Identity bs)
    let ?d = "decimal_text (length bs)"
    have d: "takeWhile isdigit ?d = ?d" "decimal ?d = length bs"
      using decimal_text_spec [of "length bs"] by (auto simp: list_all_iff)
    then have "isdigit (hd ?d)" using decimal_text_spec [of "length bs"] by (cases ?d) auto
    then have "\<not> isspace (hd ?d)" by (rule isdigit_not_space)
    then have sp: "skip_isspace True (32 # ?d) = ?d" by (cases ?d) (auto simp: isspace_def)
    have s: "split_c (byte_of (CHR '':'')) (content_header content) = (str ''Content-Length'', 32 # ?d)"
      by (simp add: Identity split_c_takeWhile str_def byte_of_def)
    show ?thesis
      unfolding parse_http_line_def s prod.case sp Let_def range_atozd_spec d using assms Identity by simp
  next
    case (Chunked cs)
    have s: "split_c (byte_of (CHR '':'')) (content_header content) = (str ''Transfer-Encoding'', 32 # str ''chunked'')"
      by (simp add: Chunked split_c_takeWhile str_def byte_of_def)
    have sp: "skip_isspace True (32 # str ''chunked'') = str ''chunked''" by (simp add: str_def isspace_def)
    show ?thesis
      unfolding parse_http_line_def s prod.case sp Let_def using assms Chunked by (simp add: str_def)
  qed
qed

end
