(* ===== verification/HttpChain.thy ===== *)
theory HttpChain
  imports HttpResponse
begin

text \<open>
  The chain of a request over the chain of a connection satisfies the contract of an input:
  its states, from the status line to the end of the content, and each of its steps.
\<close>

section \<open>The states\<close>

text \<open>
  \<open>N\<close> is the length of the response, which the data \<open>D\<close> of the connection begins with. The
  chain of the connection has delivered \<open>C\<close>, of which the first \<open>P\<close> bytes are used up. A
  chain that waits for a line has just released something, or has not got the line yet.
\<close>

definition awaits_line :: "bytes \<Rightarrow> read_fd chain_read \<Rightarrow> bytes \<Rightarrow> nat \<Rightarrow> bool" where
  "awaits_line D c C P \<longleftrightarrow>
     fresh_read c \<or> length C < P + length (takeWhile (\<lambda>x. x \<noteq> 13) (drop P D)) + 2"

fun settled :: "http_content \<Rightarrow> 's client_get_arg \<Rightarrow> bool" where
  "settled (Identity bs) arg \<longleftrightarrow>
     transfer_encoding_type arg = TRANSFER_ENCODING_IDENTITY \<and> body_size arg = word_of_nat (length bs) \<and>
     have_size arg = 0"
| "settled (Chunked cs) arg \<longleftrightarrow> transfer_encoding_type arg = TRANSFER_ENCODING_CHUNKED"

definition unsettled :: "'s client_get_arg \<Rightarrow> bool" where
  "unsettled arg \<longleftrightarrow>
     transfer_encoding_type arg = TRANSFER_ENCODING_IDENTITY \<and> body_size arg = 0 \<and> have_size arg = 0"

text \<open>What is still to come on the connection, by phase; \<open>T\<close> was delivered of the content.\<close>

definition at_status :: "http_content \<Rightarrow> bytes \<Rightarrow> 's client_get_arg \<Rightarrow> bytes \<Rightarrow> bool" where
  "at_status content T arg w \<longleftrightarrow> T = [] \<and> unsettled arg \<and>
     (\<exists>reason before after. reason_ok reason \<and> list_all plain_header before \<and> list_all plain_header after \<and>
        w = response reason before content after)"

definition at_header :: "http_content \<Rightarrow> bytes \<Rightarrow> 's client_get_arg \<Rightarrow> bytes \<Rightarrow> bool" where
  "at_header content T arg w \<longleftrightarrow> T = [] \<and>
     (settled content arg \<and>
        (\<exists>ls. list_all plain_header ls \<and> w = header_wire ls @ content_wire content) \<or>
      unsettled arg \<and>
        (\<exists>before after. list_all plain_header before \<and> list_all plain_header after \<and>
           w = header_wire (before @ [content_header content] @ after) @ content_wire content))"

definition at_chunk_header :: "http_content \<Rightarrow> bytes \<Rightarrow> 's client_get_arg \<Rightarrow> bytes \<Rightarrow> bool" where
  "at_chunk_header content T arg w \<longleftrightarrow> transfer_encoding_type arg = TRANSFER_ENCODING_CHUNKED \<and>
     (\<exists>cs. [] \<notin> set cs \<and> T @ concat cs = content_data content \<and> w = chunks_wire cs)"

definition at_body :: "http_content \<Rightarrow> bytes \<Rightarrow> 's client_get_arg \<Rightarrow> bytes \<Rightarrow> bool" where
  "at_body content T arg w \<longleftrightarrow>
     (\<exists>r. r \<noteq> [] \<and> body_size arg \<noteq> 0 \<and> body_size arg - have_size arg = word_of_nat (length r) \<and>
        (transfer_encoding_type arg = TRANSFER_ENCODING_IDENTITY \<and> T @ r = content_data content \<and> w = r \<or>
         transfer_encoding_type arg = TRANSFER_ENCODING_CHUNKED \<and>
           (\<exists>cs. [] \<notin> set cs \<and> T @ r @ concat cs = content_data content \<and> w = r @ CRLF @ chunks_wire cs)))"

definition at_end :: "http_content \<Rightarrow> bytes \<Rightarrow> 's client_get_arg \<Rightarrow> bytes \<Rightarrow> bool" where
  "at_end content T arg w \<longleftrightarrow> body_size arg = 0 \<and> T = content_data content \<and> w = CRLF"

definition http_good ::
    "allocator \<Rightarrow> bytes \<Rightarrow> http_content \<Rightarrow> nat \<Rightarrow> bytes \<Rightarrow> read_fd client_get_arg \<Rightarrow> bool" where
  "http_good al D content N T arg \<longleftrightarrow>
     N + min (length (content_data content)) 1000000 < length D \<and> length T < 2 ^ 57 \<and> length (content_data content) < 2 ^ 57 \<and> content_ok content \<and>
     (\<forall>m < 2 ^ 63. can_alloc al m) \<and> \<not> is_complete (client arg) \<and>
     (\<exists>C P w. fd_in.reads al D (client arg) C P \<and> drop P D = w @ drop N D \<and> P \<le> N \<and>
        (case phase arg of
           http_get_status \<Rightarrow> awaits_line D (client arg) C P \<and> at_status content T arg w
         | http_get_header \<Rightarrow> awaits_line D (client arg) C P \<and> at_header content T arg w
         | http_get_contents_chunked_header \<Rightarrow>
             awaits_line D (client arg) C P \<and> at_chunk_header content T arg w
         | http_get_body \<Rightarrow> fresh_read (client arg) \<and> P \<le> length C \<and> at_body content T arg w \<or>
             at_end content T arg w))"

definition http_left :: "read_fd client_get_arg \<Rightarrow> nat" where
  "http_left arg =
     (let c = client arg
      in 4 * (length (fd_data (rarg c)) + used (rbuffer c) - released c) + 2 * length (fd_data (rarg c))
           + of_bool (fresh_read c))"

lemma http_left_reads:
  "fd_in.reads al D (client arg) C P \<Longrightarrow>
     http_left arg = 4 * (length D - P) + 2 * (length D - length C) + of_bool (fresh_read (client arg))"
proof -
  assume "fd_in.reads al D (client arg) C P"
  note b = fd_reads_bounds [OF this]
  have "length D - length C + used (rbuffer (client arg)) - released (client arg) = length D - P"
    using b by linarith
  then show ?thesis using b by (simp add: http_left_def Let_def)
qed

text \<open>Used up and still to come make the response.\<close>

lemma wire_length:
  assumes "drop P D = w @ drop N D" and "P \<le> N" and "N < length D"
  shows "P + length w = N"
  using arg_cong [OF assms(1), of length] assms(2,3) by simp

lemma wire_drop:
  assumes "drop P D = (u @ w) @ drop N D"
  shows "drop (P + length u) D = w @ drop N D"
proof -
  have "drop (P + length u) D = drop (length u) (drop P D)" by (simp add: add.commute)
  then show ?thesis unfolding assms by simp
qed

section \<open>Steps that read a line\<close>

lemma takeWhile_line: "13 \<notin> set line \<Longrightarrow> takeWhile (\<lambda>x. x \<noteq> 13) (line @ CRLF @ rest) = line"
  by (induction line) (auto simp: CRLF_def)

text \<open>
  In a phase that awaits a line, the next step leaves the phase and the used part as they are
  and makes progress, or finds the line.
\<close>

lemma http_line_step:
  assumes "fd_in.reads al D (client arg) C P" and "\<not> is_complete (client arg)"
    and "drop P D = (line @ CRLF @ w) @ drop N D" and "13 \<notin> set line" and "awaits_line D (client arg) C P"
  obtains (more) C' c where "http_getline (chain_read_fd_update_func al) (client arg) = Some (line_incomplete, c)"
      and "fd_in.reads al D c C' P" and "\<not> is_complete c" and "awaits_line D c C' P"
      and "\<And>arg'. client arg' = c \<Longrightarrow> http_left arg' < http_left arg"
  | (found) C' c where "http_getline (chain_read_fd_update_func al) (client arg) = Some (line_found line, c)"
      and "fd_in.reads al D c C' (P + length line + 2)" and "\<not> is_complete c" and "fresh_read c"
      and "P + length line + 2 \<le> length C'" and "drop (P + length line + 2) D = w @ drop N D"
      and "\<And>arg'. client arg' = c \<Longrightarrow> http_left arg' < http_left arg"
proof -
  have tw: "takeWhile (\<lambda>x. x \<noteq> 13) (drop P D) = line"
    using assms(3) takeWhile_line [OF assms(4), of "w @ drop N D"] by simp
  have d: "drop P D = line @ CRLF @ (w @ drop N D)" using assms(3) by simp
  have aw: "fresh_read (client arg) \<or> length C < P + length line + 2"
    using assms(5) by (simp add: awaits_line_def tw)
  have P: "P + length line + 2 \<le> length D" using arg_cong [OF d, of length] by (simp add: CRLF_def)
  show ?thesis
  proof (cases rule: http_getline_next [OF assms(1,2) d assms(4) aw])
    case (1 C' c)
    show ?thesis
    proof (rule more [OF 1(1-3)])
      show "awaits_line D c C' P" using 1(5) by (simp add: awaits_line_def tw)
      fix arg' :: "read_fd client_get_arg"
      assume c: "client arg' = c"
      have "length C' \<le> length D" using fd_reads_bounds [OF 1(2)] by simp
      then show "http_left arg' < http_left arg"
        using http_left_reads [OF assms(1)] http_left_reads [of al D arg' C' P] 1(2,4,6,7) c by auto
    qed
  next
    case (2 C' c)
    show ?thesis
    proof (rule found [OF 2(1-5)])
      show "drop (P + length line + 2) D = w @ drop N D"
        using wire_drop [of P D "line @ CRLF" w N] assms(3) by (simp add: CRLF_def add.assoc)
      fix arg' :: "read_fd client_get_arg"
      assume c: "client arg' = c"
      have "length C' \<le> length D" using fd_reads_bounds [OF 2(2)] by simp
      then show "http_left arg' < http_left arg"
        using http_left_reads [OF assms(1)] http_left_reads [of al D arg' C' "P + length line + 2"] 2(2,6) c P
        by auto
    qed
  qed
qed

section \<open>The steps of the machine\<close>

text \<open>What the contract demands of a step.\<close>

text \<open>
  When the chain of a request is over, the chain of the connection stands at the end of the
  response.
\<close>

definition http_over :: "allocator \<Rightarrow> bytes \<Rightarrow> nat \<Rightarrow> bytes \<Rightarrow> read_fd client_get_arg \<Rightarrow> bool" where
  "http_over al D N T arg \<longleftrightarrow>
     length T < 2 ^ 57 \<and> fresh_read (client arg) \<and> \<not> is_complete (client arg) \<and> (\<exists>C. fd_in.reads al D (client arg) C N)"

definition http_step ::
    "allocator \<Rightarrow> bytes \<Rightarrow> http_content \<Rightarrow> nat \<Rightarrow> bytes \<Rightarrow> buffer \<Rightarrow> read_fd client_get_arg \<Rightarrow> bool" where
  "http_step al D content N T b arg \<longleftrightarrow>
     (\<exists>st b' arg' bs. http_update al (chain_read_fd_update_func al) b arg = Some (st, b', arg') \<and>
        st \<noteq> CHAIN_ERROR \<and> contents b' = contents b @ bs \<and> buffer_wf b' \<and>
        (st = CHAIN_INCOMPLETE \<longrightarrow> http_good al D content N (T @ bs) arg' \<and> http_left arg' < http_left arg) \<and>
        (st = CHAIN_COMPLETE \<longrightarrow> T @ bs = content_data content \<and> http_over al D N (T @ bs) arg'))"

lemma http_step_quiet:
  assumes "http_update al (chain_read_fd_update_func al) b arg = Some (CHAIN_INCOMPLETE, b, arg')"
    and "buffer_wf b" and "http_good al D content N T arg'" and "http_left arg' < http_left arg"
  shows "http_step al D content N T b arg"
  unfolding http_step_def using assms
  by (intro exI [of _ CHAIN_INCOMPLETE] exI [of _ b] exI [of _ arg'] exI [of _ "[]"]) simp

lemma http_goodE:
  assumes "http_good al D content N T arg"
  obtains C P w where "fd_in.reads al D (client arg) C P" and "drop P D = w @ drop N D" and "P \<le> N"
    and "N + min (length (content_data content)) 1000000 < length D" and "length T < 2 ^ 57" and "length (content_data content) < 2 ^ 57"
    and "content_ok content" and "\<forall>m < 2 ^ 63. can_alloc al m" and "\<not> is_complete (client arg)"
    and "phase arg = http_get_status \<Longrightarrow> awaits_line D (client arg) C P \<and> at_status content T arg w"
    and "phase arg = http_get_header \<Longrightarrow> awaits_line D (client arg) C P \<and> at_header content T arg w"
    and "phase arg = http_get_contents_chunked_header \<Longrightarrow>
      awaits_line D (client arg) C P \<and> at_chunk_header content T arg w"
    and "phase arg = http_get_body \<Longrightarrow>
      fresh_read (client arg) \<and> P \<le> length C \<and> at_body content T arg w \<or> at_end content T arg w"
proof -
  note g = assms [unfolded http_good_def]
  then obtain C P w where x: "fd_in.reads al D (client arg) C P" "drop P D = w @ drop N D" "P \<le> N"
      "case phase arg of
           http_get_status \<Rightarrow> awaits_line D (client arg) C P \<and> at_status content T arg w
         | http_get_header \<Rightarrow> awaits_line D (client arg) C P \<and> at_header content T arg w
         | http_get_contents_chunked_header \<Rightarrow>
             awaits_line D (client arg) C P \<and> at_chunk_header content T arg w
         | http_get_body \<Rightarrow> fresh_read (client arg) \<and> P \<le> length C \<and> at_body content T arg w \<or>
             at_end content T arg w"
    by blast
  show ?thesis by (rule that [OF x(1-3)]) (use g x(4) in simp_all)
qed

text \<open>A step to another state of the same conversation.\<close>

lemma http_goodI:
  assumes "http_good al D content N T arg"
    and "fd_in.reads al D (client arg') C P" and "\<not> is_complete (client arg')" and "drop P D = w @ drop N D"
    and "length S < 2 ^ 57"
    and "case phase arg' of
           http_get_status \<Rightarrow> awaits_line D (client arg') C P \<and> at_status content S arg' w
         | http_get_header \<Rightarrow> awaits_line D (client arg') C P \<and> at_header content S arg' w
         | http_get_contents_chunked_header \<Rightarrow>
             awaits_line D (client arg') C P \<and> at_chunk_header content S arg' w
         | http_get_body \<Rightarrow> fresh_read (client arg') \<and> P \<le> length C \<and> at_body content S arg' w \<or>
             at_end content S arg' w"
  shows "http_good al D content N S arg'"
proof -
  have "N + min (length (content_data content)) 1000000 < length D" using assms(1) by (simp add: http_good_def)
  then have N: "N < length D" by arith
  have "length D - P = length w + (length D - N)" using arg_cong [OF assms(4), of length] by simp
  then have "P \<le> N" using N by linarith
  then show ?thesis using assms unfolding http_good_def by blast
qed

lemma awaits_fresh: "fresh_read c \<Longrightarrow> awaits_line D c C P"
  by (simp add: awaits_line_def)

lemma at_frame [simp]:
  "at_status content T (arg\<lparr>client := c\<rparr>) w = at_status content T arg w"
  "at_header content T (arg\<lparr>client := c\<rparr>) w = at_header content T arg w"
  "at_chunk_header content T (arg\<lparr>client := c\<rparr>) w = at_chunk_header content T arg w"
  "at_header content T (arg\<lparr>phase := p\<rparr>) w = at_header content T arg w"
  "settled content (arg\<lparr>client := c\<rparr>) = settled content arg"
  "settled content (arg\<lparr>phase := p\<rparr>) = settled content arg"
  "unsettled (arg\<lparr>client := c\<rparr>) = unsettled arg"
  "unsettled (arg\<lparr>phase := p\<rparr>) = unsettled arg"
  by (auto simp: at_status_def at_header_def at_chunk_header_def unsettled_def) (cases content; simp)+

lemma http_step_status:
  assumes "http_good al D content N T arg" and "phase arg = http_get_status" and "buffer_wf b"
  shows "http_step al D content N T b arg"
proof -
  from assms(1) obtain C P w where g: "fd_in.reads al D (client arg) C P" "drop P D = w @ drop N D"
      "\<not> is_complete (client arg)" "length T < 2 ^ 57" "awaits_line D (client arg) C P" "at_status content T arg w"
    by (rule http_goodE) (use assms(2) in blast)
  obtain reason before after where w: "reason_ok reason" "list_all plain_header before" "list_all plain_header after"
      "w = response reason before content after"
    using g(6) unfolding at_status_def by blast
  let ?line = "status_line reason"
  let ?w = "header_wire (before @ [content_header content] @ after) @ content_wire content"
  have d: "drop P D = (?line @ CRLF @ ?w) @ drop N D" using g(2) w(4) by (simp add: response_def)
  note st = status_line_spec [OF w(1)]
  have up: "http_update al u b arg = http_get_status_func u b arg" for u
    using assms(2) by (simp add: http_update_def)
  show ?thesis
  proof (cases rule: http_line_step [OF g(1,3) d conjunct2 [OF st] g(5)])
    case (1 C' c)
    show ?thesis
    proof (rule http_step_quiet [OF _ assms(3)])
      show "http_update al (chain_read_fd_update_func al) b arg = Some (CHAIN_INCOMPLETE, b, arg\<lparr>client := c\<rparr>)"
        unfolding up by (simp add: http_get_status_func_def 1(1))
      show "http_good al D content N T (arg\<lparr>client := c\<rparr>)"
        using 1(2-4) g(2,4,6) assms(2) by (intro http_goodI [OF assms(1), where C = C' and P = P and w = w]) simp_all
      show "http_left (arg\<lparr>client := c\<rparr>) < http_left arg" by (rule 1(5)) simp
    qed
  next
    case (2 C' c)
    let ?arg = "arg\<lparr>client := c, phase := http_get_header\<rparr>"
    show ?thesis
    proof (rule http_step_quiet [OF _ assms(3)])
      show "http_update al (chain_read_fd_update_func al) b arg = Some (CHAIN_INCOMPLETE, b, ?arg)"
        unfolding up using st by (simp add: http_get_status_func_def 2(1))
      have "at_header content T ?arg ?w"
        using g(6) w(2,3) unfolding at_header_def at_status_def by auto
      then show "http_good al D content N T ?arg"
        using 2(2-6) g(4) by (intro http_goodI [OF assms(1), where C = C' and w = ?w]) (simp_all add: awaits_fresh)
      show "http_left ?arg < http_left arg" by (rule 2(7)) simp
    qed
  qed
qed

text \<open>The header: the line that is next, and the state it leads to.\<close>

lemma word_length_0:
  "n < 2 ^ 57 \<Longrightarrow> (word_of_nat n :: size_t) = 0 \<longleftrightarrow> n = 0"
  by (auto simp: word_of_nat_eq_0_iff dest: dvd_imp_le)

lemma header_end:
  assumes "settled content arg" and "content_ok content" and "length (content_data content) < 2 ^ 57"
  shows "(case transfer_encoding_type arg of
      TRANSFER_ENCODING_IDENTITY \<Rightarrow> at_body content [] arg (content_wire content)
    | TRANSFER_ENCODING_CHUNKED \<Rightarrow> at_chunk_header content [] arg (content_wire content))"
proof (cases content)
  case (Identity bs)
  then show ?thesis
    using assms word_length_0 [of "length bs"] by (auto simp: at_body_def)
next
  case (Chunked cs)
  then show ?thesis using assms by (auto simp: at_chunk_header_def)
qed

lemma at_header_cases:
  assumes "at_header content T arg w" and "content_ok content"
  obtains (blank) "w = [] @ CRLF @ content_wire content" and "settled content arg" and "T = []"
  | (line) line w' arg' where "w = line @ CRLF @ w'" and "13 \<notin> set line" and "line \<noteq> []"
      and "\<And>c. parse_http_line (arg\<lparr>client := c\<rparr>) line = (True, arg'\<lparr>client := c\<rparr>)"
      and "at_header content T arg' w'" and "phase arg' = phase arg"
proof -
  have T: "T = []" using assms(1) by (simp add: at_header_def)
  consider (s) ls where "settled content arg" "list_all plain_header ls" "w = header_wire ls @ content_wire content"
    | (u) before after where "unsettled arg" "list_all plain_header before" "list_all plain_header after"
        "w = header_wire (before @ [content_header content] @ after) @ content_wire content"
    using assms(1) unfolding at_header_def by blast
  then show ?thesis
  proof cases
    case s
    show ?thesis
    proof (cases ls)
      case Nil
      then show ?thesis using s T by (intro blank) simp_all
    next
      case (Cons l ls')
      then have l: "plain_header l" "list_all plain_header ls'" using s(2) by simp_all
      have "at_header content T arg (header_wire ls' @ content_wire content)"
        using s(1) l(2) T by (auto simp: at_header_def)
      then show ?thesis
        using s(3) Cons l(1) plain_header_spec [OF l(1)] by (intro line [of l _ arg]) (simp_all add: plain_header_def)
    qed
  next
    case u
    show ?thesis
    proof (cases before)
      case Nil
      let ?arg = "case content of
         Identity bs \<Rightarrow> arg\<lparr>body_size := word_of_nat (length bs)\<rparr>
       | Chunked cs \<Rightarrow> arg\<lparr>transfer_encoding_type := TRANSFER_ENCODING_CHUNKED\<rparr>"
      have "settled content ?arg" using u(1) by (cases content) (simp_all add: unsettled_def)
      then have "at_header content T ?arg (header_wire after @ content_wire content)"
        using u(3) T by (auto simp: at_header_def)
      moreover have "parse_http_line (arg\<lparr>client := c\<rparr>) (content_header content) = (True, ?arg\<lparr>client := c\<rparr>)" for c
        using content_header_spec(1) [of "arg\<lparr>client := c\<rparr>" content] u(1)
        by (cases content) (simp_all add: unsettled_def)
      moreover have "phase ?arg = phase arg" by (cases content) simp_all
      ultimately show ?thesis
        using u(1,4) Nil content_header_spec(2,3) [of arg content]
        by (intro line [of "content_header content" _ ?arg]) (simp_all add: unsettled_def)
    next
      case (Cons l before')
      then have l: "plain_header l" "list_all plain_header before'" using u(2) by simp_all
      have "at_header content T arg (header_wire (before' @ [content_header content] @ after) @ content_wire content)"
        using u(1,3) l(2) T unfolding at_header_def by blast
      then show ?thesis
        using u(4) Cons l(1) plain_header_spec [OF l(1)] by (intro line [of l _ arg]) (simp_all add: plain_header_def)
    qed
  qed
qed

lemma http_step_header:
  assumes "http_good al D content N T arg" and "phase arg = http_get_header" and "buffer_wf b"
  shows "http_step al D content N T b arg"
proof -
  from assms(1) obtain C P w where g: "fd_in.reads al D (client arg) C P" "drop P D = w @ drop N D"
      "\<not> is_complete (client arg)" "length T < 2 ^ 57" "awaits_line D (client arg) C P" "at_header content T arg w"
      "content_ok content" "length (content_data content) < 2 ^ 57"
    by (rule http_goodE) (use assms(2) in blast)
  have up: "http_update al u b arg = http_get_header_func u b arg" for u
    using assms(2) by (simp add: http_update_def)
  have "\<exists>line w'. w = line @ CRLF @ w' \<and> 13 \<notin> set line"
  proof (cases rule: at_header_cases [OF g(6,7)])
    case 1
    then show ?thesis by (intro exI [of _ "[]"] exI [of _ "content_wire content"]) simp
  next
    case (2 line w' arg')
    then show ?thesis by blast
  qed
  then obtain line w' where l: "w = line @ CRLF @ w'" "13 \<notin> set line" by blast
  have d: "drop P D = (line @ CRLF @ w') @ drop N D" using g(2) l(1) by simp
  show ?thesis
  proof (cases rule: http_line_step [OF g(1,3) d l(2) g(5)])
    case (1 C' c)
    show ?thesis
    proof (rule http_step_quiet [OF _ assms(3)])
      show "http_update al (chain_read_fd_update_func al) b arg = Some (CHAIN_INCOMPLETE, b, arg\<lparr>client := c\<rparr>)"
        unfolding up by (simp add: http_get_header_func_def 1(1))
      show "http_good al D content N T (arg\<lparr>client := c\<rparr>)"
        using 1(2-4) g(2,4,6) assms(2) by (intro http_goodI [OF assms(1), where C = C' and P = P and w = w]) simp_all
      show "http_left (arg\<lparr>client := c\<rparr>) < http_left arg" by (rule 1(5)) simp
    qed
  next
    case (2 C' c)
    have same: "line = line2" if "w = line2 @ CRLF @ w2" "13 \<notin> set line2" for line2 w2
      using takeWhile_line [OF l(2), of w'] takeWhile_line [OF that(2), of w2] l(1) that(1) by metis
    show ?thesis
    proof (cases rule: at_header_cases [OF g(6,7)])
      case blank: 1
      have line: "line = []" using same [OF blank(1)] by simp
      then have w': "w' = content_wire content" using l(1) blank(1) by simp
      let ?arg = "arg\<lparr>client := c, phase := (case transfer_encoding_type arg of
          TRANSFER_ENCODING_IDENTITY \<Rightarrow> http_get_body
        | TRANSFER_ENCODING_CHUNKED \<Rightarrow> http_get_contents_chunked_header)\<rparr>"
      have "settled content ?arg" using blank(2) by simp
      note e = header_end [OF this g(7,8)]
      show ?thesis
      proof (rule http_step_quiet [OF _ assms(3)])
        show "http_update al (chain_read_fd_update_func al) b arg = Some (CHAIN_INCOMPLETE, b, ?arg)"
          unfolding up by (simp add: http_get_header_func_def 2(1) line)
        show "http_good al D content N T ?arg"
          using 2(2-6) g(4) e blank(3) w'
          by (intro http_goodI [OF assms(1), where C = C' and w = w'])
            (auto simp: awaits_fresh split: transfer_encoding.splits)
        show "http_left ?arg < http_left arg" by (rule 2(7)) simp
      qed
    next
      case line: (2 line2 w2 arg')
      have eq: "line2 = line" using same [OF line(1,2)] by simp
      then have w': "w' = w2" using l(1) line(1) by simp
      let ?arg = "arg'\<lparr>client := c\<rparr>"
      show ?thesis
      proof (rule http_step_quiet [OF _ assms(3)])
        show "http_update al (chain_read_fd_update_func al) b arg = Some (CHAIN_INCOMPLETE, b, ?arg)"
          unfolding up using line(3,4) eq by (simp add: http_get_header_func_def 2(1))
        show "http_good al D content N T ?arg"
          using 2(2-6) g(4) line(5,6) w' assms(2)
          by (intro http_goodI [OF assms(1), where C = C' and w = w']) (simp_all add: awaits_fresh)
        show "http_left ?arg < http_left arg" by (rule 2(7)) simp
      qed
    qed
  qed
qed

lemma http_step_chunk_header:
  assumes "http_good al D content N T arg" and "phase arg = http_get_contents_chunked_header" and "buffer_wf b"
  shows "http_step al D content N T b arg"
proof -
  from assms(1) obtain C P w where g: "fd_in.reads al D (client arg) C P" "drop P D = w @ drop N D"
      "\<not> is_complete (client arg)" "length T < 2 ^ 57" "awaits_line D (client arg) C P"
      "at_chunk_header content T arg w" "length (content_data content) < 2 ^ 57"
    by (rule http_goodE) (use assms(2) in blast)
  have up: "http_update al u b arg = http_get_contents_chunked_header_func u b arg" for u
    using assms(2) by (simp add: http_update_def)
  obtain cs where cs: "transfer_encoding_type arg = TRANSFER_ENCODING_CHUNKED" "[] \<notin> set cs"
      "T @ concat cs = content_data content" "w = chunks_wire cs"
    using g(6) unfolding at_chunk_header_def by blast
  let ?n = "length (case cs of [] \<Rightarrow> [] | c # _ \<Rightarrow> c)"
  let ?w = "case cs of [] \<Rightarrow> CRLF | c # cs' \<Rightarrow> c @ CRLF @ chunks_wire cs'"
  have w: "w = hex_text ?n @ CRLF @ ?w" using cs(4) by (cases cs) simp_all
  have n: "?n < 2 ^ 57" using g(7) unfolding cs(3) [symmetric] by (cases cs) simp_all
  have d: "drop P D = (hex_text ?n @ CRLF @ ?w) @ drop N D" using g(2) unfolding w .
  show ?thesis
  proof (cases rule: http_line_step [OF g(1,3) d no_CR_digits(2) g(5)])
    case (1 C' c)
    show ?thesis
    proof (rule http_step_quiet [OF _ assms(3)])
      show "http_update al (chain_read_fd_update_func al) b arg = Some (CHAIN_INCOMPLETE, b, arg\<lparr>client := c\<rparr>)"
        unfolding up by (simp add: http_get_contents_chunked_header_func_def 1(1))
      show "http_good al D content N T (arg\<lparr>client := c\<rparr>)"
        using 1(2-4) g(2,4,6) assms(2) by (intro http_goodI [OF assms(1), where C = C' and P = P and w = w]) simp_all
      show "http_left (arg\<lparr>client := c\<rparr>) < http_left arg" by (rule 1(5)) simp
    qed
  next
    case (2 C' c)
    let ?arg = "arg\<lparr>client := c, body_size := word_of_nat ?n, have_size := 0, phase := http_get_body\<rparr>"
    show ?thesis
    proof (rule http_step_quiet [OF _ assms(3)])
      show "http_update al (chain_read_fd_update_func al) b arg = Some (CHAIN_INCOMPLETE, b, ?arg)"
        unfolding up by (simp add: http_get_contents_chunked_header_func_def 2(1) to_hex_hex_text)
      have "at_body content T ?arg ?w \<or> at_end content T ?arg ?w"
      proof (cases cs)
        case Nil
        then show ?thesis using cs(3) by (simp add: at_end_def)
      next
        case (Cons r cs')
        then have "r \<noteq> []" "[] \<notin> set cs'" using cs(2) by auto
        then show ?thesis
          using Cons cs(1,3) n word_length_0 [of "length r"] by (auto simp: at_body_def)
      qed
      then show "http_good al D content N T ?arg"
        using 2(2-6) g(4) by (intro http_goodI [OF assms(1), where C = C' and w = ?w]) auto
      show "http_left ?arg < http_left arg" by (rule 2(7)) simp
    qed
  qed
qed

section \<open>The body\<close>

text \<open>A pull of the body hands out some of it, and does not come to the end of the connection.\<close>

lemma http_body_pull:
  assumes "fd_in.reads al D c C P" and "\<not> is_complete c" and "fresh_read c" and "P \<le> length C"
    and "drop P D = r @ rest" and "r \<noteq> []" and "P + length r + min (length r) 1000000 < length D"
  obtains C' c' where
      "chain_pull (chain_read_fd_update_func al) c (min (length r) 1000000) = Some (Some (drop P C'), c')"
    and "fd_in.reads al D c' C' P" and "\<not> is_complete c'" and "P < length C'" and "length C \<le> length C'"
    and "take (min (length (drop P C')) (length r)) (drop P C') = take (min (length (drop P C')) (length r)) r"
proof -
  define n where "n = min (length r) 1000000"
  note b = fd_reads_bounds [OF assms(1)]
  have P: "P < 2 ^ 58" using assms(4) b by simp
  obtain bs c' where p:
      "chain_pull (chain_read_fd_update_func al) c n = Some (Some (drop P (C @ bs)), c')"
      "fd_in.reads al D c' (C @ bs) P"
      "is_complete c' \<longrightarrow> length D \<le> P + n \<or> length D \<le> length C + n \<and> (fresh_read c \<longrightarrow> length C < P + n)"
      "\<not> is_complete c' \<longrightarrow> bs \<noteq> [] \<or> fresh_read c \<and> P + n \<le> length C"
    using fd_chain_pull [OF assms(1,2) _ P, of n] by (metis min.cobounded2 n_def)
  have n: "n \<le> length r" "0 < n" using assms(6) by (simp_all add: n_def)
  have nc: "\<not> is_complete c'"
  proof
    assume "is_complete c'"
    then have "length D \<le> P + n \<or> length D \<le> length C + n \<and> length C < P + n" using p(3) assms(3) by blast
    then have "length D < P + n + n" using n(2) by linarith
    then show False using n(1) assms(7) unfolding n_def by arith
  qed
  have "P < length (C @ bs)"
  proof (cases "bs = []")
    case True
    then show ?thesis using p(4) nc n(2) by simp
  next
    case False
    then show ?thesis using assms(4) by (cases bs) simp_all
  qed
  moreover have "C @ bs = take (length (C @ bs)) D"
    using p(2) unfolding fd_in.reads_def fd_good_def by (metis append_eq_conv_conj)
  then have ct: "drop P (C @ bs) = take (length (C @ bs) - P) (r @ rest)"
    unfolding assms(5) [symmetric] by (metis drop_take)
  have "take k (drop P (C @ bs)) = take k r" if "k \<le> length (C @ bs) - P" "k \<le> length r" for k
    unfolding ct take_take min_absorb1 [OF that(1)] using that(2) by simp
  then have "take (min (length (drop P (C @ bs))) (length r)) (drop P (C @ bs))
      = take (min (length (drop P (C @ bs))) (length r)) r"
    by (metis length_drop min.cobounded1 min.cobounded2)
  ultimately show ?thesis using that [OF p(1) [unfolded n_def] p(2) nc] by simp
qed

lemma http_step_end:
  assumes "http_good al D content N T arg" and "phase arg = http_get_body" and "buffer_wf b"
    and "body_size arg = 0"
  shows "http_step al D content N T b arg"
proof -
  from assms(1) obtain C P w where g: "fd_in.reads al D (client arg) C P" "drop P D = w @ drop N D" "P \<le> N"
      "N + min (length (content_data content)) 1000000 < length D" "length T < 2 ^ 57" "\<not> is_complete (client arg)"
      "at_end content T arg w"
    by (rule http_goodE) (use assms(2,4) in \<open>auto simp: at_body_def\<close>)
  have N: "N < length D" using g(4) by arith
  have P: "P + 2 = N" using wire_length [OF g(2,3) N] g(7) by (simp add: at_end_def CRLF_def)
  have "fd_in.reads al D (chain_release (client arg) 2) C (P + 2)"
    using fd_reads_bounds [OF g(1)] P N by (intro fd_in.reads_release [OF g(1)]) simp
  then have "http_over al D N T (arg\<lparr>client := chain_release (client arg) 2\<rparr>)"
    using g(5,6) P by (auto simp: http_over_def chain_release_def)
  then show ?thesis
    using assms(2-4) g(7) unfolding http_step_def
    by (intro exI [of _ CHAIN_COMPLETE] exI [of _ b] exI [of _ "arg\<lparr>client := chain_release (client arg) 2\<rparr>"] exI [of _ "[]"])
      (simp add: http_update_def http_get_body_func_def at_end_def CRLF_def numeral_2_eq_2)
qed

lemma http_body_left:
  assumes "fd_in.reads al D (client arg) C P" and "fd_in.reads al D (client arg') C' P'"
    and "P < P'" and "P' \<le> length D" and "length C \<le> length C'"
  shows "http_left arg' < http_left arg"
  unfolding http_left_reads [OF assms(1)] http_left_reads [OF assms(2)]
  using assms(3-5) by (cases "fresh_read (client arg)"; cases "fresh_read (client arg')") simp_all

lemma http_take_body_spec:
  assumes "body_size arg - have_size arg = word_of_nat (length r)" and "length r < 2 ^ 57"
    and "k = min (length ct) (length r)" and "take k ct = take k r" and "buffer_append_n al b (take k r) = Some b'"
  shows "http_take_body al b arg c ct =
    (if k = length r
     then (case transfer_encoding_type arg of
             TRANSFER_ENCODING_CHUNKED \<Rightarrow>
               Some (CHAIN_INCOMPLETE, b',
                 arg\<lparr>client := chain_release (chain_release c k) 2, have_size := body_size arg,
                     phase := http_get_contents_chunked_header\<rparr>)
           | TRANSFER_ENCODING_IDENTITY \<Rightarrow>
               Some (CHAIN_COMPLETE, b', arg\<lparr>client := chain_release c k, have_size := body_size arg\<rparr>))
     else Some (CHAIN_INCOMPLETE, b',
            arg\<lparr>client := chain_release c k, have_size := have_size arg + word_of_nat k\<rparr>))"
proof -
  have want: "unat (body_size arg - have_size arg) = length r"
    unfolding assms(1) using assms(2) by (simp add: unat_of_nat)
  have got: "(if length ct > length r then length r else length ct) = k"
    using assms(3) by (simp add: min_def)
  have body: "body_size arg = have_size arg + word_of_nat (length r)"
    using assms(1) by (metis add.commute diff_add_cancel)
  have now: "have_size arg + word_of_nat k = body_size arg \<longleftrightarrow> k = length r"
  proof
    assume "have_size arg + word_of_nat k = body_size arg"
    then have "word_of_nat k = (word_of_nat (length r) :: size_t)" unfolding body by simp
    then have "unat (word_of_nat k :: size_t) = unat (word_of_nat (length r) :: size_t)" by simp
    then show "k = length r" using assms(2,3) by (simp add: unat_of_nat)
  qed (simp add: body)
  show ?thesis
    unfolding http_take_body_def want got assms(4,5) Let_def option.case now
    using now by (auto simp: CRLF_def numeral_2_eq_2 split: transfer_encoding.split)
qed

text \<open>What a step of the body does: \<open>k\<close> bytes of the \<open>r\<close> that are missing arrive.\<close>

lemma http_body_arrives:
  assumes "http_good al D content N T arg" and "phase arg = http_get_body" and "buffer_wf b"
    and "T = h @ contents b" and "body_size arg \<noteq> 0"
  obtains C P C' c r rest k b' where "fd_in.reads al D (client arg) C P" and "length C \<le> length C'"
    and "fd_in.reads al D (chain_release c k) C' (P + k)" and "\<not> is_complete (chain_release c k)"
    and "fresh_read (chain_release c k)" and "0 < k" and "k \<le> length r" and "P + k \<le> length C'"
    and "length C' \<le> length D" and "P + length r + length rest = N \<and> N < length D" and "drop P D = (r @ rest) @ drop N D"
    and "body_size arg \<noteq> 0" and "body_size arg - have_size arg = word_of_nat (length r)"
    and "transfer_encoding_type arg = TRANSFER_ENCODING_IDENTITY \<and> T @ r = content_data content \<and> rest = [] \<or>
         transfer_encoding_type arg = TRANSFER_ENCODING_CHUNKED \<and>
           (\<exists>cs. [] \<notin> set cs \<and> T @ r @ concat cs = content_data content \<and> rest = CRLF @ chunks_wire cs)"
    and "contents b' = contents b @ take k r" and "buffer_wf b'" and "length (T @ take k r) < 2 ^ 57"
    and "http_update al (chain_read_fd_update_func al) b arg =
      (if k = length r
       then (case transfer_encoding_type arg of
               TRANSFER_ENCODING_CHUNKED \<Rightarrow>
                 Some (CHAIN_INCOMPLETE, b',
                   arg\<lparr>client := chain_release (chain_release c k) 2, have_size := body_size arg,
                       phase := http_get_contents_chunked_header\<rparr>)
             | TRANSFER_ENCODING_IDENTITY \<Rightarrow>
                 Some (CHAIN_COMPLETE, b', arg\<lparr>client := chain_release c k, have_size := body_size arg\<rparr>))
       else Some (CHAIN_INCOMPLETE, b',
              arg\<lparr>client := chain_release c k, have_size := have_size arg + word_of_nat k\<rparr>))"
proof -
  from assms(1) obtain C P w where g: "fd_in.reads al D (client arg) C P" "drop P D = w @ drop N D"
      "\<not> is_complete (client arg)" "length T < 2 ^ 57" "P \<le> N" "N + min (length (content_data content)) 1000000 < length D"
      "length (content_data content) < 2 ^ 57" "\<forall>m < 2 ^ 63. can_alloc al m"
      "fresh_read (client arg)" "P \<le> length C" "at_body content T arg w"
    by (rule http_goodE) (use assms(2,5) in \<open>auto simp: at_end_def\<close>)
  obtain r rest where r: "r \<noteq> []" "body_size arg \<noteq> 0" "body_size arg - have_size arg = word_of_nat (length r)"
      "transfer_encoding_type arg = TRANSFER_ENCODING_IDENTITY \<and> T @ r = content_data content \<and> rest = [] \<or>
       transfer_encoding_type arg = TRANSFER_ENCODING_CHUNKED \<and>
         (\<exists>cs. [] \<notin> set cs \<and> T @ r @ concat cs = content_data content \<and> rest = CRLF @ chunks_wire cs)"
      "w = r @ rest"
    using g(11) unfolding at_body_def by (elim exE conjE disjE) auto
  have N: "N < length D" using g(6) by arith
  then have P: "P + length w = N" by (rule wire_length [OF g(2,5)])
  have d: "drop P D = r @ rest @ drop N D" using g(2) r(5) by simp
  obtain v where v: "content_data content = T @ r @ v" using r(4) by (metis append_Nil2)
  then have lr: "length r < 2 ^ 57" using g(7) by simp
  have "length r \<le> length (content_data content)" "P + length r \<le> N" using v P r(5) by simp_all
  then have "P + length r + min (length r) 1000000 < length D" using g(6) by arith
  from http_body_pull [OF g(1,3,9,10) d r(1) this] obtain C' c where p:
      "chain_pull (chain_read_fd_update_func al) (client arg) (min (length r) 1000000) = Some (Some (drop P C'), c)"
      "fd_in.reads al D c C' P" "\<not> is_complete c" "P < length C'" "length C \<le> length C'"
      "take (min (length (drop P C')) (length r)) (drop P C') = take (min (length (drop P C')) (length r)) r" .
  define k where "k = min (length (drop P C')) (length r)"
  have k: "0 < k" "k \<le> length r" "P + k \<le> length C'" using p(4) r(1) by (auto simp: k_def min_def)
  have "room al b (length (take k r) + 0)"
    using g(4,8) assms(3,4) lr k(2) length_contents [OF assms(3)] by (simp add: room_def)
  from buffer_append_n_contents [OF this] obtain b' where b':
      "buffer_append_n al b (take k r) = Some b'" "contents b' = contents b @ take k r" "buffer_wf b'"
    by (auto simp: room_def)
  have tk: "take k (drop P C') = take k r" using p(6) by (simp add: k_def)
  have "(if unat (word_of_nat (length r) :: size_t) < 1000000 then unat (word_of_nat (length r) :: size_t)
      else 1000000) = min (length r) 1000000" using lr by (simp add: unat_of_nat)
  then have "http_update al (chain_read_fd_update_func al) b arg = http_take_body al b arg c (drop P C')"
    unfolding http_update_def http_get_body_func_def if_not_P [OF r(2)] Let_def r(3)
    using assms(2) p(1) by simp
  note up = this [unfolded http_take_body_spec [OF r(3) lr k_def tk b'(1)]]
  have lenD: "length C' \<le> length D" and lT: "length (T @ take k r) < 2 ^ 57"
    using fd_reads_bounds [OF p(2)] g(7) v k(2) by simp_all
  have rel: "fd_in.reads al D (chain_release c k) C' (P + k)"
      "\<not> is_complete (chain_release c k)" "fresh_read (chain_release c k)"
    using fd_in.reads_release [OF p(2), of k] p(3) k lenD fd_reads_bounds [OF p(2)]
    by (simp_all add: chain_release_def)
  show ?thesis
    using P N r(5) d by (intro that [OF g(1) p(5) rel k lenD _ _ r(2-4) b'(2,3) lT up]) simp_all
qed

lemma http_body_chunk_over:
  assumes "http_good al D content N T arg"
    and "fd_in.reads al D c C' P" and "\<not> is_complete c" and "P + 2 \<le> length D"
    and "drop P D = (CRLF @ chunks_wire cs) @ drop N D" and "length S < 2 ^ 57"
    and "[] \<notin> set cs" and "S @ concat cs = content_data content"
    and "transfer_encoding_type arg = TRANSFER_ENCODING_CHUNKED"
  shows "http_good al D content N S (arg\<lparr>client := chain_release c 2, have_size := n,
      phase := http_get_contents_chunked_header\<rparr>)" (is "http_good _ _ _ _ _ ?arg")
    and "fd_in.reads al D (chain_release c 2) C' (P + 2)"
proof -
  show r: "fd_in.reads al D (chain_release c 2) C' (P + 2)"
    using assms(4) fd_reads_bounds [OF assms(2)] by (intro fd_in.reads_release [OF assms(2)]) simp
  have "drop (P + 2) D = chunks_wire cs @ drop N D"
    using wire_drop [OF assms(5)] by (simp add: CRLF_def)
  moreover have "at_chunk_header content S ?arg (chunks_wire cs)"
    using assms(7-9) by (auto simp: at_chunk_header_def)
  ultimately show "http_good al D content N S ?arg"
    using r assms(3,6)
    by (intro http_goodI [OF assms(1), where C = C' and P = "P + 2" and w = "chunks_wire cs"])
      (simp_all add: awaits_fresh chain_release_def)
qed

lemma http_step_body:
  assumes "http_good al D content N T arg" and "phase arg = http_get_body" and "buffer_wf b"
    and "T = h @ contents b"
  shows "http_step al D content N T b arg"
proof (cases "body_size arg = 0")
  case True
  then show ?thesis by (rule http_step_end [OF assms(1-3)])
next
  case False
  from http_body_arrives [OF assms False] obtain C P C' c r rest k b' where
    p: "fd_in.reads al D (client arg) C P" "length C \<le> length C'"
      "fd_in.reads al D (chain_release c k) C' (P + k)" "\<not> is_complete (chain_release c k)"
      "fresh_read (chain_release c k)" "0 < k" "k \<le> length r" "P + k \<le> length C'"
      "length C' \<le> length D" "P + length r + length rest = N \<and> N < length D" "drop P D = (r @ rest) @ drop N D"
    and r: "body_size arg \<noteq> 0" "body_size arg - have_size arg = word_of_nat (length r)"
      "transfer_encoding_type arg = TRANSFER_ENCODING_IDENTITY \<and> T @ r = content_data content \<and> rest = [] \<or>
       transfer_encoding_type arg = TRANSFER_ENCODING_CHUNKED \<and>
         (\<exists>cs. [] \<notin> set cs \<and> T @ r @ concat cs = content_data content \<and> rest = CRLF @ chunks_wire cs)"
    and b': "contents b' = contents b @ take k r" "buffer_wf b'" "length (T @ take k r) < 2 ^ 57"
    and up: "http_update al (chain_read_fd_update_func al) b arg =
      (if k = length r
       then (case transfer_encoding_type arg of
               TRANSFER_ENCODING_CHUNKED \<Rightarrow>
                 Some (CHAIN_INCOMPLETE, b',
                   arg\<lparr>client := chain_release (chain_release c k) 2, have_size := body_size arg,
                       phase := http_get_contents_chunked_header\<rparr>)
             | TRANSFER_ENCODING_IDENTITY \<Rightarrow>
                 Some (CHAIN_COMPLETE, b', arg\<lparr>client := chain_release c k, have_size := body_size arg\<rparr>))
       else Some (CHAIN_INCOMPLETE, b',
              arg\<lparr>client := chain_release c k, have_size := have_size arg + word_of_nat k\<rparr>))"
    .
  have step: ?thesis
    if "http_update al (chain_read_fd_update_func al) b arg = Some (CHAIN_INCOMPLETE, b', arg')"
      and "fd_in.reads al D (client arg') C' P'" and "P < P'" and "P' \<le> length D"
      and "http_good al D content N (T @ take k r) arg'" for arg' P'
    unfolding http_step_def
    using that b'(1,2) http_body_left [OF p(1) that(2-4) p(2)]
    by (intro exI [of _ CHAIN_INCOMPLETE] exI [of _ b'] exI [of _ arg'] exI [of _ "take k r"]) simp
  consider (more) "k \<noteq> length r"
    | (identity) "k = length r" "transfer_encoding_type arg = TRANSFER_ENCODING_IDENTITY"
        "T @ r = content_data content"
    | (chunked) cs where "k = length r" "transfer_encoding_type arg = TRANSFER_ENCODING_CHUNKED"
        "[] \<notin> set cs" "T @ r @ concat cs = content_data content" "rest = CRLF @ chunks_wire cs"
    using r(3) by blast
  then show ?thesis
  proof cases
    case more
    let ?arg = "arg\<lparr>client := chain_release c k, have_size := have_size arg + word_of_nat k\<rparr>"
    have "word_of_nat (length r) - word_of_nat k = (word_of_nat (length (drop k r)) :: size_t)"
      using p(7) by (simp add: of_nat_diff)
    then have left: "body_size ?arg - have_size ?arg = word_of_nat (length (drop k r))"
      using r(2) by (simp add: algebra_simps)
    have tkd: "take k r @ drop k r @ x = r @ x" for x by (metis append_assoc append_take_drop_id)
    have "at_body content (T @ take k r) ?arg (drop k r @ rest)"
      unfolding at_body_def left using r(1,3) more p(7) by (intro exI [of _ "drop k r"]) (auto simp: tkd)
    moreover have "drop (P + k) D = (drop k r @ rest) @ drop N D"
      using wire_drop [of P D "take k r" "drop k r @ rest" N] p(7,11) by simp
    ultimately have "http_good al D content N (T @ take k r) ?arg"
      using p(3-5,8) b'(3) assms(2)
      by (intro http_goodI [OF assms(1), where C = C' and P = "P + k" and w = "drop k r @ rest"]) simp_all
    then show ?thesis using p more up by (intro step [where P' = "P + k"]) simp_all
  next
    case identity
    let ?arg = "arg\<lparr>client := chain_release c k, have_size := body_size arg\<rparr>"
    have "rest = []" using r(3) identity(2) by simp
    then have "P + k = N" using p(10) identity(1) by simp
    then have "http_over al D N (content_data content) ?arg"
      using p(3-5) b'(3) identity(1,3) by (auto simp: http_over_def)
    then show ?thesis
      using b'(1,2) up identity unfolding http_step_def
      by (intro exI [of _ CHAIN_COMPLETE] exI [of _ b'] exI [of _ ?arg] exI [of _ r]) simp
  next
    case (chunked cs)
    have "drop (P + k) D = (CRLF @ chunks_wire cs) @ drop N D"
      using wire_drop [of P D r rest N] p(11) chunked(1,5) by simp
    moreover have P: "P + k + 2 \<le> length D" using p(10) chunked(1,5) by (simp add: CRLF_def)
    ultimately show ?thesis
      using http_body_chunk_over [OF assms(1) p(3,4) P _ b'(3) chunked(3)] p(6) chunked(1,2,4) up
      by (intro step [where P' = "P + k + 2" and arg' = "arg\<lparr>client := chain_release (chain_release c k) 2,
          have_size := body_size arg, phase := http_get_contents_chunked_header\<rparr>"]) simp_all
  qed
qed

section \<open>The contract\<close>

lemma http_step_good:
  assumes "http_good al D content N T arg" and "buffer_wf b" and "T = h @ contents b"
  shows "http_step al D content N T b arg"
proof (cases "phase arg")
  case http_get_status
  then show ?thesis using http_step_status assms by blast
next
  case http_get_header
  then show ?thesis using http_step_header assms by blast
next
  case http_get_contents_chunked_header
  then show ?thesis using http_step_chunk_header assms by blast
next
  case http_get_body
  then show ?thesis using http_step_body assms by blast
qed

text \<open>When the chain of a request is over, all of the content has been delivered.\<close>

interpretation http_in: chain_input "http_update al (chain_read_fd_update_func al)" "http_good al D content N"
    "http_over al D N" "\<lambda>T. T = content_data content" http_left
proof unfold_locales
  fix T arg b h
  assume good: "http_good al D content N T arg" and "buffer_wf b" and "T = h @ contents b"
  from http_step_good [OF this] have "http_step al D content N T b arg" .
  then show "\<exists>st b' arg' bs. http_update al (chain_read_fd_update_func al) b arg = Some (st, b', arg') \<and>
      st \<noteq> CHAIN_ERROR \<and> contents b' = contents b @ bs \<and> buffer_wf b' \<and>
      (st = CHAIN_INCOMPLETE \<longrightarrow> http_good al D content N (T @ bs) arg' \<and> http_left arg' < http_left arg) \<and>
      (st = CHAIN_COMPLETE \<longrightarrow> http_over al D N (T @ bs) arg' \<and> T @ bs = content_data content)"
    unfolding http_step_def by metis
next
  fix T arg
  assume "http_good al D content N T arg \<or> http_over al D N T arg"
  then show "length T < 2 ^ 59" unfolding http_good_def http_over_def by (elim disjE conjE) simp_all
qed

interpretation http_fd: chain_pipe "http_update al (chain_read_fd_update_func al)" "http_good al D content N"
    "http_over al D N" "\<lambda>T. T = content_data content" http_left
    chain_write_fd_update_func sent fd_accepts
  by unfold_locales

text \<open>A request on a connection whose chain stands at the beginning of a response.\<close>

definition new_get :: "'s chain_read \<Rightarrow> 's client_get_arg" where
  "new_get c = \<lparr>client = c, transfer_encoding_type = TRANSFER_ENCODING_IDENTITY, body_size = 0, have_size = 0,
     phase = http_get_status\<rparr>"

lemma http_good_at:
  assumes "fd_in.reads al D c C P" and "awaits_line D c C P" and "\<not> is_complete c"
    and "drop P D = response reason before content after @ extra"
    and "min (length (content_data content)) 1000000 < length extra"
    and "reason_ok reason" and "list_all plain_header before" and "list_all plain_header after"
    and "content_ok content" and "length (content_data content) < 2 ^ 57" and "\<forall>m < 2 ^ 63. can_alloc al m"
  shows "http_good al D content (P + length (response reason before content after)) [] (new_get c)"
proof -
  let ?w = "response reason before content after"
  have "at_status content [] (new_get c) ?w"
    using assms(6-8) unfolding at_status_def unsettled_def by (auto simp: new_get_def)
  moreover have d: "drop (P + length ?w) D = extra"
    by (metis add.commute append_eq_conv_conj assms(4) drop_drop)
  then have "drop P D = ?w @ drop (P + length ?w) D" using assms(4) by simp
  moreover have "length D - (P + length ?w) = length extra" using arg_cong [OF d, of length] by simp
  then have "P + length ?w + min (length (content_data content)) 1000000 < length D" using assms(5) by linarith
  ultimately show ?thesis
    unfolding http_good_def using assms(1-3,9-11)
    by (intro conjI exI [of _ C] exI [of _ P] exI [of _ ?w]) (simp_all add: new_get_def le_add1)
qed

lemma http_good_new:
  assumes "fd_clean fd" and "fd_data fd = response reason before content after @ extra"
    and "length (fd_data fd) < 2 ^ 57" and "min (length (content_data content)) 1000000 < length extra"
    and "reason_ok reason" and "list_all plain_header before" and "list_all plain_header after"
    and "content_ok content" and "length (content_data content) < 2 ^ 57" and "\<forall>m < 2 ^ 63. can_alloc al m"
  shows "http_good al (fd_data fd) content (length (response reason before content after)) []
    (new_get (chain_read_open_fd fd))"
proof -
  have "fd_in.reads al (fd_data fd) (chain_read_open_fd fd) [] 0"
    unfolding chain_read_open_fd_def using assms(1,3,10) by (intro fd_in.reads_new) (simp add: fd_good_def)
  moreover have "awaits_line (fd_data fd) (chain_read_open_fd fd) [] 0" by (simp add: awaits_line_def)
  moreover have "\<not> is_complete (chain_read_open_fd fd)" by (simp add: chain_read_open_fd_def chain_read_new_def)
  moreover have "drop 0 (fd_data fd) = response reason before content after @ extra" using assms(2) by simp
  ultimately show ?thesis using http_good_at [OF _ _ _ _ assms(4-10)] by (metis add_0)
qed

section \<open>Properties\<close>

text \<open>A header line that says the transfer encoding is the identity is rejected, although the
  code has a branch for it: the branch is only for a repeated header, and what is left is
  reported as an unsupported encoding.\<close>

lemma http_identity_rejected:
  "parse_http_line arg (str ''Transfer-Encoding: identity'') = (False, arg)"
proof -
  have s: "split_c (byte_of (CHR '':'')) (str ''Transfer-Encoding: identity'')
      = (str ''Transfer-Encoding'', 32 # str ''identity'')"
    by (simp add: split_c_takeWhile str_def byte_of_def)
  have sp: "skip_isspace True (32 # str ''identity'') = str ''identity''" by (simp add: str_def isspace_def)
  show ?thesis unfolding parse_http_line_def s prod.case sp Let_def by (simp add: str_def)
qed

text \<open>A client that connects to a server and asks for a path sends the request for that
  path and host. If the server answers with status 200, any header lines besides the ones for
  the content, and a non-empty content of a given length or a content in chunks, and more
  data follows on the connection (a read of the connection blocks otherwise), then copying
  the chain of the request to a descriptor ends without an error, and the descriptor has
  received exactly the content, however the connection cuts the data.\<close>

theorem http_get_delivers_content:
  assumes "tcp_connect h p = Some (conn, out_fd)" and "fd_accepts out_fd"
    and "fd_clean conn" and "fd_data conn = response reason before content after @ extra"
    and "length (fd_data conn) < 2 ^ 57" and "min (length (content_data content)) 1000000 < length extra"
    and "reason_ok reason" and "list_all plain_header before" and "list_all plain_header after"
    and "content_ok content" and "length (content_data content) < 2 ^ 57" and "\<forall>m < 2 ^ 63. can_alloc al m"
    and "fd_accepts sink" and "sent sink = []"
  shows "\<exists>cl w req r dst u. http_client_connect tcp_connect h p = Some cl \<and>
    http_client_get cl path = (w, Some req) \<and> sent w = sent out_fd @ get_request h p path \<and>
    chain_copy al (http_update al (chain_read_fd_update_func al)) chain_write_fd_update_func
      req (chain_write_open_fd sink) = Some (r, dst) \<and>
    \<not> is_error r \<and> \<not> w_is_error dst \<and> chain_write_free chain_write_fd_update_func dst = Some u \<and>
    sent u = content_data content"
proof -
  obtain w where w: "dprintf out_fd (get_request h p path) = (True, w)" "sent w = sent out_fd @ get_request h p path"
    using dprintf_sent [OF assms(2)] by blast
  let ?cl = "\<lparr>fd_read = chain_read_open_fd conn, fd_write = out_fd, host = h, port = p\<rparr>"
  let ?arg = "new_get (chain_read_open_fd conn)"
  have "http_client_connect tcp_connect h p = Some ?cl" using assms(1) by (simp add: http_client_connect_def)
  moreover have "http_client_get ?cl path = (w, Some (chain_read_new ?arg))"
    using w(1) by (simp add: http_client_get_def new_get_def)
  moreover have "\<exists>r dst u. chain_copy al (http_update al (chain_read_fd_update_func al)) chain_write_fd_update_func
      (chain_read_new ?arg) (chain_write_open_fd sink) = Some (r, dst) \<and>
      \<not> is_error r \<and> \<not> w_is_error dst \<and> chain_write_free chain_write_fd_update_func dst = Some u \<and>
      sent u = content_data content"
    unfolding chain_write_open_fd_def
    by (rule http_fd.chain_copy_new [OF http_good_new [OF assms(3-12)] assms(13,14,12)])
  ultimately show ?thesis using w(2) by blast
qed

theorem http_get_delivers_content_witness:
  "\<exists>cl w req r dst u. http_client_connect
      (\<lambda>h p. Some ([Some (response [] [] (Chunked [[1, 2], [3]]) []), Some (replicate 9 0)],
        \<lparr>accept = [], sent = []\<rparr>)) (str ''h'') (str ''80'') = Some cl \<and>
    http_client_get cl (str ''x'') = (w, Some req) \<and>
    sent w = sent \<lparr>accept = [], sent = []\<rparr> @ get_request (str ''h'') (str ''80'') (str ''x'') \<and>
    chain_copy \<lparr>can_alloc = (\<lambda>_. True), fill = (\<lambda>_. 7)\<rparr>
      (http_update \<lparr>can_alloc = (\<lambda>_. True), fill = (\<lambda>_. 7)\<rparr>
        (chain_read_fd_update_func \<lparr>can_alloc = (\<lambda>_. True), fill = (\<lambda>_. 7)\<rparr>)) chain_write_fd_update_func
      req (chain_write_open_fd \<lparr>accept = [Some 1], sent = []\<rparr>) = Some (r, dst) \<and>
    \<not> is_error r \<and> \<not> w_is_error dst \<and> chain_write_free chain_write_fd_update_func dst = Some u \<and>
    sent u = content_data (Chunked [[1, 2], [3]])"
proof (rule http_get_delivers_content [where extra = "replicate 9 0" and reason = "[]" and before = "[]" and
      after = "[]" and content = "Chunked [[1, 2], [3]]"])
  let ?r = "response [] [] (Chunked [[1, 2], [3]]) []"
  have "length ?r = 62"
    by (simp add: response_def status_line_def CRLF_def str_def hex_text.simps)
  then show "length (fd_data [Some ?r, Some (replicate 9 0)]) < 2 ^ 57" by simp
qed (simp_all add: fd_accepts_def reason_ok_def response_def CRLF_def)

end
