(* ===== verification/HttpCat.thy ===== *)
theory HttpCat
  imports HttpChain
begin

text \<open>
  The program that downloads files over one connection (\<open>src/http/http-cat.util.c\<close>). A result \<open>None\<close>
  is undefined behaviour: the client that could not connect, and the request that could not be sent,
  are used as null pointers.
\<close>

section \<open>The program\<close>

text \<open>The inner loop; unlike \<open>chain_copy\<close> it ends when pushing fails, without releasing.\<close>

partial_function (option) http_cat_copy ::
    "allocator \<Rightarrow> (buffer \<Rightarrow> 'r \<Rightarrow> (chain_status \<times> buffer \<times> 'r) option)
       \<Rightarrow> ('w \<Rightarrow> bytes \<Rightarrow> (chain_status \<times> bytes \<times> 'w) option)
       \<Rightarrow> 'r chain_read \<Rightarrow> 'w chain_write \<Rightarrow> ('r chain_read \<times> 'w chain_write) option" where
  "http_cat_copy al rupdate wupdate r w =
     (case chain_pull rupdate r 1000000 of
        None \<Rightarrow> None
      | Some (None, r') \<Rightarrow> Some (r', w)
      | Some (Some ct, r') \<Rightarrow>
          (case chain_push al wupdate w ct of
             None \<Rightarrow> None
           | Some (ok, w') \<Rightarrow>
               if ok then http_cat_copy al rupdate wupdate (chain_release r' (length ct)) w' else Some (r', w')))"

text \<open>The loop over the paths: whether it ended without an error, the client and the output.\<close>

fun http_cat_paths ::
    "allocator \<Rightarrow> http_client \<Rightarrow> write_fd chain_write \<Rightarrow> bytes list
       \<Rightarrow> (bool \<times> http_client \<times> write_fd chain_write) option" where
  "http_cat_paths al cl fd_out [] = Some (True, cl, fd_out)"
| "http_cat_paths al cl fd_out (path # paths) =
     (case http_client_get cl path of
        (_, None) \<Rightarrow> None
      | (w, Some get) \<Rightarrow>
          (case http_cat_copy al (http_update al (chain_read_fd_update_func al)) chain_write_fd_update_func get fd_out of
             None \<Rightarrow> None
           | Some (get', fd_out') \<Rightarrow>
               (let cl' = cl\<lparr>fd_read := client (rarg get'), fd_write := w\<rparr>
                in if is_error get' \<or> w_is_error fd_out' then Some (False, cl', fd_out')
                   else http_cat_paths al cl' fd_out' paths)))"

text \<open>
  The exit code, the standard output, and the client if there is one. The output chain is only freed,
  and thereby flushed, if there was no error.
\<close>

definition http_cat_main ::
    "allocator \<Rightarrow> (bytes \<Rightarrow> bytes \<Rightarrow> (read_fd \<times> write_fd) option) \<Rightarrow> bytes list \<Rightarrow> write_fd
       \<Rightarrow> (nat \<times> write_fd \<times> http_client option) option" where
  "http_cat_main al tcp_connect argv stdout =
     (if length argv < 3 then Some (1, stdout, None)
      else case http_client_connect tcp_connect (argv ! 1) (argv ! 2) of
             None \<Rightarrow> None
           | Some cl \<Rightarrow>
               (case http_cat_paths al cl (chain_write_open_fd stdout) (drop 3 argv) of
                  None \<Rightarrow> None
                | Some (False, cl', fd_out) \<Rightarrow> Some (1, warg fd_out, Some cl')
                | Some (True, cl', fd_out) \<Rightarrow>
                    map_option (\<lambda>u. (0, u, Some cl')) (chain_write_free chain_write_fd_update_func fd_out)))"

section \<open>The inner loop\<close>

context chain_pipe
begin

text \<open>The sink may have received \<open>S\<close> from other sources before.\<close>

lemma http_cat_copy_all:
  assumes "src.reads r T (length T)" and "snk.writes w (S @ T)" and "length S < 2 ^ 59" and "\<forall>m < 2 ^ 63. can_alloc al m"
  shows "\<exists>r' w' T'. http_cat_copy al rupdate wupdate r w = Some (r', w') \<and>
    snk.writes w' (S @ T') \<and> finished T' \<and> \<not> is_error r' \<and> over T' (rarg r')"
  using assms(1,2)
proof (induction "to_come r" arbitrary: r w T rule: less_induct)
  case less
  from less.prems assms(3,4) show ?case
  proof (cases rule: copy_turn)
    case (over r')
    then show ?thesis
      using less.prems(2) by (intro exI [of _ r'] exI [of _ w] exI [of _ T])
        (simp add: http_cat_copy.simps [of al rupdate wupdate r])
  next
    case (turn bs r' w')
    then have "http_cat_copy al rupdate wupdate r w = http_cat_copy al rupdate wupdate (chain_release r' (length bs)) w'"
      by (simp add: http_cat_copy.simps [of al rupdate wupdate r])
    then show ?thesis using less.hyps [OF turn(5) turn(4,3)] by simp
  qed
qed

end

section \<open>Responses one after the other\<close>

record download =
  reason :: bytes
  headers_before :: "bytes list"
  content :: http_content
  headers_after :: "bytes list"

definition download_wire :: "download \<Rightarrow> bytes" where
  "download_wire d = response (reason d) (headers_before d) (content d) (headers_after d)"

definition downloads_wire :: "download list \<Rightarrow> bytes" where
  "downloads_wire ds = concat (map download_wire ds)"


lemma content_data_length: "length (content_data c) \<le> length (content_wire c)"
proof (cases c)
  case (Chunked cs)
  have "length (concat cs) \<le> length (chunks_wire cs)" by (induction cs) simp_all
  then show ?thesis using Chunked by simp
qed simp

lemma download_length: "length (content_data (content d)) \<le> length (download_wire d)"
  using content_data_length [of "content d"] by (simp add: download_wire_def response_def)

lemma downloads_length: "length (concat (map (\<lambda>d. content_data (content d)) ds)) \<le> length (downloads_wire ds)"
proof (induction ds)
  case (Cons d ds)
  then show ?case using download_length [of d] by (simp add: downloads_wire_def)
qed (simp add: downloads_wire_def)


section \<open>Properties\<close>



text \<open>A server that cannot be reached crashes the program.\<close>

lemma http_cat_unreachable:
  "tcp_connect h p = None \<Longrightarrow> http_cat_main al tcp_connect (name # h # p # paths) sink = None"
  by (simp add: http_cat_main_def http_client_connect_def)

end
