(* ===== verification/Metahash.thy ===== *)
theory Metahash
  imports Vluint BufferIo
begin

text \<open>
  Self-describing digests (\<open>src/metahash/metahash.c\<close>): the header with the version and the
  number of the hash function, the tables of sizes and names, and the digests of a
  descriptor. The digests themselves come from gcrypt, whose functions are parameters here.
\<close>

section \<open>The numbers of the hash functions\<close>

text \<open>The enumeration; \<open>METAHASH_IDENTITY\<close> is 0 and stands for a number that is not valid.\<close>

datatype metahash_id =
  METAHASH_IDENTITY | METAHASH_SHA1 | METAHASH_SHA2_256 | METAHASH_SHA2_512 | METAHASH_SHA3_512
| METAHASH_SHA3_384 | METAHASH_SHA3_256 | METAHASH_SHA3_224 | METAHASH_SHAKE_128 | METAHASH_SHAKE_256
| METAHASH_KECCAK_224 | METAHASH_KECCAK_256 | METAHASH_KECCAK_384 | METAHASH_MURMUR3_128
| METAHASH_MURMUR3_32 | METAHASH_MD5_128

type_synonym c_enum = "32 word"

fun metahash_code :: "metahash_id \<Rightarrow> c_enum" where
  "metahash_code METAHASH_IDENTITY = 0x0"
| "metahash_code METAHASH_SHA1 = 0x11"
| "metahash_code METAHASH_SHA2_256 = 0x12"
| "metahash_code METAHASH_SHA2_512 = 0x13"
| "metahash_code METAHASH_SHA3_512 = 0x14"
| "metahash_code METAHASH_SHA3_384 = 0x15"
| "metahash_code METAHASH_SHA3_256 = 0x16"
| "metahash_code METAHASH_SHA3_224 = 0x17"
| "metahash_code METAHASH_SHAKE_128 = 0x18"
| "metahash_code METAHASH_SHAKE_256 = 0x19"
| "metahash_code METAHASH_KECCAK_224 = 0x1a"
| "metahash_code METAHASH_KECCAK_256 = 0x1b"
| "metahash_code METAHASH_KECCAK_384 = 0x1c"
| "metahash_code METAHASH_MURMUR3_128 = 0x22"
| "metahash_code METAHASH_MURMUR3_32 = 0x23"
| "metahash_code METAHASH_MD5_128 = 0x24"

text \<open>The cases of the switch, in its order; any other number is the identity.\<close>

definition metahash_cases :: "metahash_id list" where
  "metahash_cases =
     [METAHASH_IDENTITY, METAHASH_SHA1, METAHASH_SHA2_256, METAHASH_SHA2_512, METAHASH_SHA3_512,
      METAHASH_SHA3_384, METAHASH_SHA3_256, METAHASH_SHA3_224, METAHASH_SHAKE_128, METAHASH_SHAKE_256,
      METAHASH_KECCAK_224, METAHASH_KECCAK_256, METAHASH_KECCAK_384, METAHASH_MURMUR3_128,
      METAHASH_MURMUR3_32, METAHASH_MD5_128]"

definition is_metahash_id :: "c_enum \<Rightarrow> metahash_id" where
  "is_metahash_id input =
     (case find (\<lambda>i. metahash_code i = input) metahash_cases of
        None \<Rightarrow> METAHASH_IDENTITY | Some i \<Rightarrow> i)"

fun metahash_size :: "metahash_id \<Rightarrow> nat" where
  "metahash_size METAHASH_SHA3_512 = 512 div 8"
| "metahash_size METAHASH_SHA2_512 = 512 div 8"
| "metahash_size METAHASH_KECCAK_256 = 256 div 8"
| "metahash_size METAHASH_SHAKE_256 = 256 div 8"
| "metahash_size METAHASH_SHA3_256 = 256 div 8"
| "metahash_size METAHASH_SHA2_256 = 256 div 8"
| "metahash_size METAHASH_KECCAK_384 = 384 div 8"
| "metahash_size METAHASH_SHA3_384 = 384 div 8"
| "metahash_size METAHASH_KECCAK_224 = 224 div 8"
| "metahash_size METAHASH_SHA3_224 = 224 div 8"
| "metahash_size METAHASH_SHA1 = 160 div 8"
| "metahash_size METAHASH_MD5_128 = 128 div 8"
| "metahash_size METAHASH_MURMUR3_128 = 128 div 8"
| "metahash_size METAHASH_SHAKE_128 = 128 div 8"
| "metahash_size METAHASH_MURMUR3_32 = 32 div 8"
| "metahash_size METAHASH_IDENTITY = 0"

fun metahash_name :: "metahash_id \<Rightarrow> bytes" where
  "metahash_name METAHASH_IDENTITY = str ''invalid''"
| "metahash_name METAHASH_SHA1 = str ''sha1''"
| "metahash_name METAHASH_SHA2_256 = str ''sha2-256''"
| "metahash_name METAHASH_SHA2_512 = str ''sha2-512''"
| "metahash_name METAHASH_SHA3_512 = str ''sha3-512''"
| "metahash_name METAHASH_SHA3_384 = str ''sha3-384''"
| "metahash_name METAHASH_SHA3_256 = str ''sha3-256''"
| "metahash_name METAHASH_SHA3_224 = str ''sha3-224''"
| "metahash_name METAHASH_SHAKE_128 = str ''shake-128''"
| "metahash_name METAHASH_SHAKE_256 = str ''shake-256''"
| "metahash_name METAHASH_KECCAK_224 = str ''keccak-224''"
| "metahash_name METAHASH_KECCAK_256 = str ''keccak-256''"
| "metahash_name METAHASH_KECCAK_384 = str ''keccak-384''"
| "metahash_name METAHASH_MURMUR3_128 = str ''murmur3-128''"
| "metahash_name METAHASH_MURMUR3_32 = str ''murmur3-32''"
| "metahash_name METAHASH_MD5_128 = str ''md5-128''"

definition metahash_identify_name :: "bytes \<Rightarrow> metahash_id" where
  "metahash_identify_name name =
     (case map_of [(str ''sha256'', METAHASH_SHA2_256), (str ''sha512'', METAHASH_SHA2_512),
                   (str ''md5'', METAHASH_MD5_128)] name of
        None \<Rightarrow> METAHASH_IDENTITY | Some i \<Rightarrow> i)"

text \<open>
  A list of names between commas: the name that is being read is \<open>add\<close>. The numbers are
  pushed until a name is not valid.
\<close>

fun identify_list_loop :: "metahash_id list \<Rightarrow> bytes \<Rightarrow> bytes \<Rightarrow> bool \<times> metahash_id list" where
  "identify_list_loop ids add [] =
     (let i = metahash_identify_name add
      in if i = METAHASH_IDENTITY then (False, ids) else (True, ids @ [i]))"
| "identify_list_loop ids add (c # names) =
     (if c = byte_of (CHR '','')
      then let i = metahash_identify_name add
           in if i = METAHASH_IDENTITY then (False, ids) else identify_list_loop (ids @ [i]) [] names
      else identify_list_loop ids (add @ [c]) names)"

definition metahash_identify_list :: "metahash_id list \<Rightarrow> bytes \<Rightarrow> bool \<times> metahash_id list" where
  "metahash_identify_list ids names = identify_list_loop ids [] names"

section \<open>The header\<close>

definition METAHASH_VERSION :: size_t where
  "METAHASH_VERSION = 0"

definition metahash_header_write :: "bytes \<Rightarrow> metahash_id \<Rightarrow> bytes" where
  "metahash_header_write out i =
     vluint_write (vluint_write out METAHASH_VERSION) (ucast (metahash_code i))"

text \<open>The assertion at the end of \<open>metahash_header_write\<close> in a build that has assertions.\<close>

definition verify_vluint :: "bytes \<Rightarrow> size_t \<Rightarrow> bool" where
  "verify_vluint vluint verify =
     (case vluint_read vluint of None \<Rightarrow> False | Some (have_value, v, rest) \<Rightarrow> have_value = verify)"

text \<open>The number is converted to the enumeration, which has 32 bits.\<close>

definition metahash_header_read :: "bytes \<Rightarrow> (metahash_id \<times> size_t \<times> bytes) option" where
  "metahash_header_read input =
     (case vluint_read input of
        None \<Rightarrow> None
      | Some (version, v, rest) \<Rightarrow>
          (case vluint_read rest of
             None \<Rightarrow> None
           | Some (id_result, v', rest') \<Rightarrow>
               (let i = is_metahash_id (ucast id_result)
                in if i = METAHASH_IDENTITY then None else Some (i, version, rest'))))"

text \<open>
  \<open>metahash_unwrap\<close> with the out arguments that are asked for: the digest and the rest are
  checked against the end of the input only then.
\<close>

definition metahash_unwrap ::
    "bool \<Rightarrow> bool \<Rightarrow> bytes \<Rightarrow> (metahash_id \<times> bytes option \<times> bytes option \<times> size_t) option" where
  "metahash_unwrap want_digest want_rest input =
     (case metahash_header_read input of
        None \<Rightarrow> None
      | Some (i, version, header_rest) \<Rightarrow>
          (let digest_size = metahash_size i
           in if want_digest \<and> digest_size > length header_rest then None
              else if want_rest \<and> digest_size > length header_rest then None
              else Some (i,
                     if want_digest then Some (take digest_size header_rest) else None,
                     if want_rest then Some (drop digest_size header_rest) else None,
                     version)))"

section \<open>Digests\<close>

text \<open>The algorithms of gcrypt that the code names; its functions are parameters.\<close>

datatype gcry_id =
  GCRY_MD_SHA256 | GCRY_MD_SHA512 | GCRY_MD_MD5 | GCRY_MD_SHA1
| GCRY_MD_SHA3_512 | GCRY_MD_SHA3_384 | GCRY_MD_SHA3_256 | GCRY_MD_SHA3_224

record 'c gcrypt =
  md_open :: "'c option"
  md_enable :: "'c \<Rightarrow> gcry_id \<Rightarrow> 'c option"
  md_write :: "'c \<Rightarrow> bytes \<Rightarrow> 'c"
  md_read :: "'c \<Rightarrow> gcry_id \<Rightarrow> bytes"
  algo_dlen :: "gcry_id \<Rightarrow> nat"

text \<open>\<open>None\<close> is the result 0.\<close>

fun convert_metahash_id_to_gcry_id :: "metahash_id \<Rightarrow> gcry_id option" where
  "convert_metahash_id_to_gcry_id METAHASH_SHA2_256 = Some GCRY_MD_SHA256"
| "convert_metahash_id_to_gcry_id METAHASH_SHA2_512 = Some GCRY_MD_SHA512"
| "convert_metahash_id_to_gcry_id METAHASH_MD5_128 = Some GCRY_MD_MD5"
| "convert_metahash_id_to_gcry_id METAHASH_SHA1 = Some GCRY_MD_SHA1"
| "convert_metahash_id_to_gcry_id METAHASH_SHA3_512 = Some GCRY_MD_SHA3_512"
| "convert_metahash_id_to_gcry_id METAHASH_SHA3_384 = Some GCRY_MD_SHA3_384"
| "convert_metahash_id_to_gcry_id METAHASH_SHA3_256 = Some GCRY_MD_SHA3_256"
| "convert_metahash_id_to_gcry_id METAHASH_SHA3_224 = Some GCRY_MD_SHA3_224"
| "convert_metahash_id_to_gcry_id METAHASH_SHAKE_128 = None"
| "convert_metahash_id_to_gcry_id METAHASH_SHAKE_256 = None"
| "convert_metahash_id_to_gcry_id METAHASH_KECCAK_224 = None"
| "convert_metahash_id_to_gcry_id METAHASH_KECCAK_256 = None"
| "convert_metahash_id_to_gcry_id METAHASH_KECCAK_384 = None"
| "convert_metahash_id_to_gcry_id METAHASH_MURMUR3_128 = None"
| "convert_metahash_id_to_gcry_id METAHASH_MURMUR3_32 = None"
| "convert_metahash_id_to_gcry_id METAHASH_IDENTITY = None"

fun enable_hashes :: "'c gcrypt \<Rightarrow> 'c \<Rightarrow> metahash_id list \<Rightarrow> 'c option" where
  "enable_hashes g ctx [] = Some ctx"
| "enable_hashes g ctx (i # use_hashes) =
     (case convert_metahash_id_to_gcry_id i of
        None \<Rightarrow> None
      | Some a \<Rightarrow> (case md_enable g ctx a of None \<Rightarrow> None | Some ctx' \<Rightarrow> enable_hashes g ctx' use_hashes))"

definition init_context :: "'c gcrypt \<Rightarrow> metahash_id list \<Rightarrow> 'c option" where
  "init_context g use_hashes =
     (case md_open g of None \<Rightarrow> None | Some ctx \<Rightarrow> enable_hashes g ctx use_hashes)"

fun final_context :: "'c gcrypt \<Rightarrow> bytes \<Rightarrow> 'c \<Rightarrow> metahash_id list \<Rightarrow> bool \<times> bytes" where
  "final_context g out ctx [] = (True, out)"
| "final_context g out ctx (i # use_hashes) =
     (case convert_metahash_id_to_gcry_id i of
        None \<Rightarrow> (False, out)
      | Some a \<Rightarrow> final_context g (out @ take (algo_dlen g a) (md_read g ctx a)) ctx use_hashes)"

text \<open>
  The loop of \<open>metahash_fd\<close>: what is read is hashed and, if there is an output descriptor,
  written to it; then the buffer is used again. The first component of the result is whether
  the loop ended at the end of the input.
\<close>

function metahash_fd_loop ::
    "'c gcrypt \<Rightarrow> allocator \<Rightarrow> 'c \<Rightarrow> buffer \<Rightarrow> read_fd \<Rightarrow> write_fd option
       \<Rightarrow> (bool \<times> 'c \<times> read_fd \<times> write_fd option) option" where
  "metahash_fd_loop g al ctx tmp in_fd out_fd =
     (case buffer_read al tmp 0 0 in_fd of
        None \<Rightarrow> None
      | Some (r, tmp', in_fd') \<Rightarrow>
          if 0 < r then
            (let ctx' = md_write g ctx (contents tmp')
             in case out_fd of
                  None \<Rightarrow> metahash_fd_loop g al ctx' (buffer_rewrite tmp') in_fd' None
                | Some out \<Rightarrow>
                    (case buffer_write_loop (contents tmp') 0 out of
                       (w, _, out') \<Rightarrow>
                         if w < 0 then Some (False, ctx', in_fd', Some out')
                         else metahash_fd_loop g al ctx' (buffer_rewrite tmp') in_fd' (Some out')))
          else Some (r = 0, ctx, in_fd', out_fd))"
  by pat_completeness auto
termination
  by (relation "measure (\<lambda>(g, al, ctx, tmp, in_fd, out_fd). fd_size in_fd)")
    (use buffer_read_fd_size in \<open>auto simp only: wf_measure in_measure split_conv\<close>)

declare metahash_fd_loop.simps [simp del]

text \<open>
  The result, the output buffer and the descriptors; the output buffer holds the digests one
  after the other.
\<close>

definition metahash_fd ::
    "'c gcrypt \<Rightarrow> allocator \<Rightarrow> metahash_id list \<Rightarrow> bytes \<Rightarrow> read_fd \<Rightarrow> write_fd option
       \<Rightarrow> (bool \<times> bytes \<times> read_fd \<times> write_fd option) option" where
  "metahash_fd g al use_hashes out in_fd out_fd =
     (case init_context g use_hashes of
        None \<Rightarrow> Some (False, out, in_fd, out_fd)
      | Some ctx \<Rightarrow>
          (case metahash_fd_loop g al ctx buffer_zero in_fd out_fd of
             None \<Rightarrow> None
           | Some (False, ctx', in_fd', out_fd') \<Rightarrow> Some (False, out, in_fd', out_fd')
           | Some (True, ctx', in_fd', out_fd') \<Rightarrow>
               (case final_context g out ctx' use_hashes of
                  (ok, out') \<Rightarrow> Some (ok, out', in_fd', out_fd'))))"

section \<open>Identifiers and headers\<close>

lemma metahash_cases_all: "i \<in> set metahash_cases"
  by (cases i) (simp_all add: metahash_cases_def)

lemma metahash_code_inject: "metahash_code i = metahash_code j \<longleftrightarrow> i = j"
  by (cases i; cases j) simp_all

lemma is_metahash_id_code [simp]: "is_metahash_id (metahash_code i) = i"
proof (cases "find (\<lambda>j. metahash_code j = metahash_code i) metahash_cases")
  case None
  then show ?thesis using metahash_cases_all [of i] by (auto simp: find_None_iff)
next
  case (Some j)
  then have "metahash_code j = metahash_code i" by (auto simp: find_Some_iff)
  then show ?thesis using Some by (simp add: is_metahash_id_def metahash_code_inject)
qed

lemma is_metahash_id_valid:
  assumes "is_metahash_id n \<noteq> METAHASH_IDENTITY"
  shows "metahash_code (is_metahash_id n) = n"
proof (cases "find (\<lambda>j. metahash_code j = n) metahash_cases")
  case None
  then show ?thesis using assms by (simp add: is_metahash_id_def)
next
  case (Some j)
  then have "metahash_code j = n" by (auto simp: find_Some_iff)
  then show ?thesis using Some by (simp add: is_metahash_id_def)
qed

lemma metahash_header_read_write:
  assumes "i \<noteq> METAHASH_IDENTITY"
  shows "metahash_header_read (metahash_header_write [] i @ rest) = Some (i, METAHASH_VERSION, rest)"
proof -
  have w: "metahash_header_write [] i @ rest
      = vluint_write [] METAHASH_VERSION @ vluint_write [] (ucast (metahash_code i)) @ rest"
    by (simp add: metahash_header_write_def vluint_write_out [of "vluint_write [] METAHASH_VERSION"])
  have u: "ucast (ucast (metahash_code i) :: size_t) = metahash_code i" by (cases i) simp_all
  show ?thesis
    unfolding w metahash_header_read_def vluint_read_write option.case prod.case u
    using assms by simp
qed

text \<open>Appending to a header buffer that is not empty.\<close>

lemma metahash_header_write_out: "metahash_header_write out i = out @ metahash_header_write [] i"
proof -
  have "metahash_header_write out i
      = vluint_write out METAHASH_VERSION @ vluint_write [] (ucast (metahash_code i))"
    unfolding metahash_header_write_def by (rule vluint_write_out)
  also have "\<dots> = (out @ vluint_write [] METAHASH_VERSION) @ vluint_write [] (ucast (metahash_code i))"
    by (simp only: vluint_write_out [of out])
  also have "\<dots> = out @ metahash_header_write [] i"
    unfolding metahash_header_write_def
    by (subst vluint_write_out [of "vluint_write [] METAHASH_VERSION"]) simp
  finally show ?thesis .
qed

lemma metahash_header_read_SomeE:
  assumes "metahash_header_read input = Some (i, version, rest)"
  obtains v w n where "vluint_read input = Some (version, v, w @ rest)"
    and "vluint_read (w @ rest) = Some (n, w, rest)" and "metahash_code i = ucast n" and "i \<noteq> METAHASH_IDENTITY"
proof -
  obtain v rest1 n w where r: "vluint_read input = Some (version, v, rest1)" "vluint_read rest1 = Some (n, w, rest)"
      "is_metahash_id (ucast n) = i" "i \<noteq> METAHASH_IDENTITY"
    using assms by (auto simp: metahash_header_read_def Let_def split: option.splits prod.splits if_splits)
  moreover have "rest1 = w @ rest" using vluint_read_split [OF r(2)] by simp
  moreover have "metahash_code i = ucast n" using is_metahash_id_valid [of "ucast n"] r(3,4) by simp
  ultimately show ?thesis using that by blast
qed

section \<open>Digests of a descriptor\<close>

text \<open>
  What the manual of gcrypt says of a context: it is opened, algorithms are enabled, data is
  written, and then the digest \<open>H a\<close> of all of the data can be read for every enabled
  algorithm \<open>a\<close>; it has the length of the algorithm. \<open>R\<close> relates a context to the enabled
  algorithms and the data.
\<close>

definition gcrypt_ok :: "'c gcrypt \<Rightarrow> ('c \<Rightarrow> gcry_id set \<Rightarrow> bytes \<Rightarrow> bool) \<Rightarrow> (gcry_id \<Rightarrow> bytes \<Rightarrow> bytes) \<Rightarrow> bool" where
  "gcrypt_ok g R H \<longleftrightarrow>
     (\<exists>c. md_open g = Some c \<and> R c {} []) \<and>
     (\<forall>c S a. R c S [] \<longrightarrow> (\<exists>c'. md_enable g c a = Some c' \<and> R c' (insert a S) [])) \<and>
     (\<forall>c S m bs. R c S m \<longrightarrow> R (md_write g c bs) S (m @ bs)) \<and>
     (\<forall>c S m a. R c S m \<and> a \<in> S \<longrightarrow> md_read g c a = H a m) \<and>
     (\<forall>a m. length (H a m) = algo_dlen g a)"

definition implemented :: "metahash_id \<Rightarrow> bool" where
  "implemented i \<longleftrightarrow> convert_metahash_id_to_gcry_id i \<noteq> None"

lemma enable_hashes_ok:
  assumes "gcrypt_ok g R H" and "list_all implemented ids" and "R c S []"
  shows "\<exists>c'. enable_hashes g c ids = Some c' \<and>
    R c' (S \<union> (the \<circ> convert_metahash_id_to_gcry_id) ` set ids) []"
  using assms(2,3)
proof (induction ids arbitrary: c S)
  case Nil
  then show ?case by simp
next
  case (Cons i ids)
  then obtain a where a: "convert_metahash_id_to_gcry_id i = Some a" by (auto simp: implemented_def)
  obtain c1 where c1: "md_enable g c a = Some c1" "R c1 (insert a S) []"
    using assms(1) Cons.prems(2) unfolding gcrypt_ok_def by blast
  then obtain c' where "enable_hashes g c1 ids = Some c'"
      "R c' (insert a S \<union> (the \<circ> convert_metahash_id_to_gcry_id) ` set ids) []"
    using Cons.IH [OF _ c1(2)] Cons.prems(1) by auto
  then show ?case using a c1(1) by (auto simp: insert_commute)
qed

lemma enable_hashes_fails: "\<not> list_all implemented ids \<Longrightarrow> enable_hashes g c ids = None"
  by (induction ids arbitrary: c) (auto simp: implemented_def split: option.split)

lemma final_context_ok:
  assumes "gcrypt_ok g R H" and "R c S m" and "list_all implemented ids"
    and "(the \<circ> convert_metahash_id_to_gcry_id) ` set ids \<subseteq> S"
  shows "final_context g out c ids
    = (True, out @ concat (map (\<lambda>i. H (the (convert_metahash_id_to_gcry_id i)) m) ids))"
  using assms(3,4)
proof (induction ids arbitrary: out)
  case Nil
  then show ?case by simp
next
  case (Cons i ids)
  then obtain a where a: "convert_metahash_id_to_gcry_id i = Some a" "a \<in> S" by (auto simp: implemented_def)
  then have "take (algo_dlen g a) (md_read g c a) = H a m"
    using assms(1,2) unfolding gcrypt_ok_def by (metis order_refl take_all)
  then show ?case using Cons a by simp
qed

lemma metahash_fd_loop_ok:
  assumes "gcrypt_ok g R H" and "R c S m" and "io_room al tmp (length (fd_data in_fd)) 0" and "contents tmp = []"
    and "fd_clean in_fd" and "\<forall>fd. out_fd = Some fd \<longrightarrow> fd_accepts fd"
  shows "\<exists>c' in_fd' out_fd'. metahash_fd_loop g al c tmp in_fd out_fd = Some (True, c', in_fd', out_fd') \<and>
    R c' S (m @ fd_data in_fd) \<and> map_option sent out_fd' = map_option (\<lambda>fd. sent fd @ fd_data in_fd) out_fd"
  using assms(2-6)
proof (induction "fd_size in_fd" arbitrary: c m tmp in_fd out_fd rule: less_induct)
  case less
  obtain bs tmp' fd' where r: "buffer_read al tmp 0 0 in_fd = Some (int (length bs), tmp', fd')"
      "contents tmp' = contents tmp @ bs" "fd_data in_fd = bs @ fd_data fd'" "fd_clean fd'"
      "io_room al tmp' (length (fd_data in_fd) - length bs) 0" "bs = [] \<longrightarrow> fd_data in_fd = []"
    using buffer_read_clean [OF less.prems(2,4), of 0] by blast
  show ?case
  proof (cases "bs = []")
    case True
    then have "metahash_fd_loop g al c tmp in_fd out_fd = Some (True, c, fd', out_fd)"
      using r(1) by (simp add: metahash_fd_loop.simps [of g al c tmp])
    then show ?thesis using r(6) True less.prems(1) by (cases out_fd) simp_all
  next
    case False
    let ?tmp = "buffer_rewrite tmp'"
    have size: "fd_size fd' < fd_size in_fd" using buffer_read_fd_size [OF r(1)] False by simp
    have R: "R (md_write g c bs) S (m @ bs)" using assms(1) less.prems(1) unfolding gcrypt_ok_def by blast
    have room: "io_room al ?tmp (length (fd_data fd')) 0" "contents ?tmp = []"
      using r(3,5) by (simp_all add: io_room_def buffer_rewrite_def buffer_wf_def contents_def)
    have ct: "contents tmp' = bs" using r(2) less.prems(3) by simp
    show ?thesis
    proof (cases out_fd)
      case None
      obtain c' in_fd' out_fd' where "metahash_fd_loop g al (md_write g c bs) ?tmp fd' None = Some (True, c', in_fd', out_fd')"
          "R c' S ((m @ bs) @ fd_data fd')" "map_option sent out_fd' = map_option (\<lambda>fd. sent fd @ fd_data fd') None"
        using less.hyps [OF size R room r(4), of None] by auto
      then show ?thesis
        using r(1,3) False None ct by (subst metahash_fd_loop.simps) simp
    next
      case (Some fd)
      then obtain fd2 where w: "buffer_write_loop bs 0 fd = (0, length bs, fd2)" "sent fd2 = sent fd @ bs" "fd_accepts fd2"
        using buffer_write_loop_accepts [of fd 0 bs] less.prems(5) by auto
      obtain c' in_fd' out_fd' where "metahash_fd_loop g al (md_write g c bs) ?tmp fd' (Some fd2)
          = Some (True, c', in_fd', out_fd')"
          "R c' S ((m @ bs) @ fd_data fd')" "map_option sent out_fd' = Some (sent fd2 @ fd_data fd')"
        using less.hyps [OF size R room r(4), of "Some fd2"] w(3) by auto
      then show ?thesis
        using r(1,3) False Some ct w(1,2) by (subst metahash_fd_loop.simps) simp
    qed
  qed
qed

section \<open>Lists of names\<close>

text \<open>The reference: the parts between the separators.\<close>

fun split_at :: "byte \<Rightarrow> bytes \<Rightarrow> bytes list" where
  "split_at sep [] = [[]]"
| "split_at sep (c # cs) =
     (if c = sep then [] # split_at sep cs
      else (c # hd (split_at sep cs)) # tl (split_at sep cs))"

lemma split_at_not_empty [simp]: "split_at sep cs \<noteq> []"
  by (cases cs) simp_all

definition known_name :: "bytes \<Rightarrow> bool" where
  "known_name name \<longleftrightarrow> metahash_identify_name name \<noteq> METAHASH_IDENTITY"

definition identify_parts :: "metahash_id list \<Rightarrow> bytes list \<Rightarrow> bool \<times> metahash_id list" where
  "identify_parts ids parts =
     (list_all known_name parts, ids @ map metahash_identify_name (takeWhile known_name parts))"

lemma identify_parts_Cons:
  "identify_parts ids (name # parts) =
     (if known_name name then identify_parts (ids @ [metahash_identify_name name]) parts else (False, ids))"
  by (simp add: identify_parts_def)

lemma identify_list_loop_parts:
  "identify_list_loop ids add names =
     identify_parts ids ((add @ hd (split_at (byte_of (CHR '','')) names)) # tl (split_at (byte_of (CHR '','')) names))"
proof (induction names arbitrary: ids add)
  case Nil
  then show ?case by (simp add: identify_parts_def known_name_def Let_def)
next
  case (Cons c names)
  show ?case
  proof (cases "c = byte_of (CHR '','')")
    case True
    have "hd (split_at c names) # tl (split_at c names) = split_at c names" by simp
    then show ?thesis
      using True Cons.IH [of _ "[]"] by (simp add: identify_parts_Cons known_name_def Let_def)
  next
    case False
    then show ?thesis using Cons.IH [of ids "add @ [c]"] by simp
  qed
qed

text \<open>The names that the program prints are not the names that it reads.\<close>

lemma metahash_name_not_identified: "metahash_identify_name (metahash_name i) = METAHASH_IDENTITY"
  by (cases i) (simp_all add: metahash_identify_name_def str_def byte_of_def)

text \<open>In a build with assertions, a header can be written only to an empty buffer, or behind a zero.\<close>

lemma metahash_header_write_assertion:
  assumes "vluint_read out = Some (n, v, rest)"
  shows "verify_vluint (metahash_header_write out i) METAHASH_VERSION \<longleftrightarrow> n = METAHASH_VERSION"
  unfolding metahash_header_write_out [of out] verify_vluint_def vluint_read_append [OF assms] by simp

lemma ucast_low_bits: "(ucast (n + 2 ^ 32 * k :: size_t) :: c_enum) = ucast n"
proof (rule word_unat_eq_iff [THEN iffD2])
  have "unat (n + 2 ^ 32 * k) = (unat n + 2 ^ 32 * unat k) mod 2 ^ 64"
    by (simp add: unat_word_ariths mod_simps)
  then have "unat (n + 2 ^ 32 * k) mod 2 ^ 32 = unat n mod 2 ^ 32"
    by (simp add: mod_mod_cancel)
  then show "unat (ucast (n + 2 ^ 32 * k) :: c_enum) = unat (ucast n :: c_enum)"
    by (simp add: unsigned_ucast_eq take_bit_eq_mod)
qed

section \<open>Properties\<close>

text \<open>A header for one of the hash functions, followed by a digest of the size of that
  function and any other bytes, is unwrapped to the function, the digest, the bytes behind
  it and the version; and an input that ends before the digest does is rejected when the
  digest or the rest is asked for.\<close>

theorem metahash_unwrap_roundtrip:
  assumes "i \<noteq> METAHASH_IDENTITY"
  shows "metahash_unwrap True True (metahash_header_write [] i @ d @ rest) =
    (if length d = metahash_size i then Some (i, Some d, Some rest, METAHASH_VERSION)
     else if length (d @ rest) < metahash_size i then None
     else Some (i, Some (take (metahash_size i) (d @ rest)), Some (drop (metahash_size i) (d @ rest)), METAHASH_VERSION))"
  using metahash_header_read_write [OF assms, of "d @ rest"] by (auto simp: metahash_unwrap_def Let_def)

theorem metahash_unwrap_roundtrip_witness:
  "metahash_unwrap True True (metahash_header_write [] METAHASH_MURMUR3_32 @ [1, 2, 3, 4] @ [5])
     = Some (METAHASH_MURMUR3_32, Some [1, 2, 3, 4], Some [5], METAHASH_VERSION)"
  using metahash_unwrap_roundtrip [of METAHASH_MURMUR3_32 "[1, 2, 3, 4]" "[5]"] by simp

text \<open>The number in a header is read with 64 bits but checked as an enumeration of 32
  bits, so every hash function has headers with other numbers that are read as that function.\<close>

theorem metahash_header_alias:
  "metahash_header_read (vluint_write [] v @ vluint_write [] (n + 2 ^ 32 * k) @ rest)
     = metahash_header_read (vluint_write [] v @ vluint_write [] n @ rest)"
  by (simp only: metahash_header_read_def vluint_read_write option.case prod.case ucast_low_bits)

text \<open>Over a gcrypt that behaves as its manual says, and with a list of hash functions that
  are implemented, the digests of a descriptor are the digests of all of its bytes, in the
  order of the list and behind what the output held; all of the bytes are also copied to the
  output descriptor if there is one.\<close>

theorem metahash_fd_digests:
  assumes "gcrypt_ok g R H" and "list_all implemented ids" and "fd_clean in_fd" and "fd_accepts out_fd"
    and "length (fd_data in_fd) < 2 ^ 58" and "\<forall>m < 2 ^ 63. can_alloc al m"
  shows "\<exists>in_fd' out_fd'. metahash_fd g al ids out in_fd (Some out_fd) =
    Some (True, out @ concat (map (\<lambda>i. H (the (convert_metahash_id_to_gcry_id i)) (fd_data in_fd)) ids),
      in_fd', Some out_fd') \<and> sent out_fd' = sent out_fd @ fd_data in_fd"
proof -
  obtain c0 where c0: "md_open g = Some c0" "R c0 {} []" using assms(1) unfolding gcrypt_ok_def by blast
  let ?S = "(the \<circ> convert_metahash_id_to_gcry_id) ` set ids"
  obtain c where c: "enable_hashes g c0 ids = Some c" "R c ?S []"
    using enable_hashes_ok [OF assms(1,2) c0(2)] by auto
  have room: "io_room al buffer_zero (length (fd_data in_fd)) 0"
    using assms(5,6) by (simp add: io_room_def) (simp add: buffer_zero_def)
  have "\<forall>fd. Some out_fd = Some fd \<longrightarrow> fd_accepts fd" using assms(4) by simp
  from metahash_fd_loop_ok [OF assms(1) c(2) room contents_zero assms(3) this] obtain c' in_fd' out_fd' where
    l: "metahash_fd_loop g al c buffer_zero in_fd (Some out_fd) = Some (True, c', in_fd', Some out_fd')"
      "R c' ?S (fd_data in_fd)" "sent out_fd' = sent out_fd @ fd_data in_fd"
    by auto
  show ?thesis
    using c0(1) c(1) l(1,3) final_context_ok [OF assms(1) l(2) assms(2) order_refl, of out]
    by (simp add: metahash_fd_def init_context_def)
qed

theorem metahash_fd_digests_witness:
  "\<exists>in_fd' out_fd'. metahash_fd
      \<lparr>md_open = Some [], md_enable = (\<lambda>c a. Some c), md_write = (@),
       md_read = (\<lambda>c a. [if a = GCRY_MD_MD5 then 5 else 2, fold (+) c 0]), algo_dlen = (\<lambda>a. 2)\<rparr>
      \<lparr>can_alloc = (\<lambda>_. True), fill = (\<lambda>_. 7)\<rparr> [METAHASH_MD5_128, METAHASH_SHA2_256] [9]
      [Some [1, 2], Some [3]] (Some \<lparr>accept = [Some 1], sent = []\<rparr>)
    = Some (True, [9] @ concat (map (\<lambda>i. (\<lambda>a m. [if a = GCRY_MD_MD5 then 5 else 2, fold (+) m 0])
          (the (convert_metahash_id_to_gcry_id i)) (fd_data [Some [1, 2], Some [3]]))
        [METAHASH_MD5_128, METAHASH_SHA2_256]), in_fd', Some out_fd') \<and>
    sent out_fd' = sent \<lparr>accept = [Some 1], sent = []\<rparr> @ fd_data [Some [1, 2], Some [3]]"
  by (rule metahash_fd_digests [where R = "\<lambda>c S m. c = m"])
    (simp_all add: gcrypt_ok_def implemented_def fd_accepts_def)

text \<open>A list of hash functions with one that is not implemented makes the computation fail
  before anything is read, hashed or written.\<close>

lemma metahash_fd_unimplemented:
  assumes "\<not> list_all implemented ids"
  shows "metahash_fd g al ids out in_fd out_fd = Some (False, out, in_fd, out_fd)"
proof -
  have "init_context g ids = None"
    using enable_hashes_fails [OF assms, of g] by (simp add: init_context_def split: option.split)
  then show ?thesis by (simp add: metahash_fd_def)
qed

text \<open>The loop over a comma-separated list of names is the reference that splits the list
  first: it succeeds exactly if every part is a known name, and pushes the numbers of the
  parts before the first unknown one.\<close>

theorem metahash_identify_list_parts:
  "metahash_identify_list ids names = identify_parts ids (split_at (byte_of (CHR '','')) names)"
  unfolding metahash_identify_list_def by (simp add: identify_list_loop_parts)

end
