(* ===== verification/Paren.thy ===== *)
theory Paren
  imports Table
begin

text \<open>
  The parser of parenthesised text (\<open>src/paren-parser/paren-parser.c\<close>). It links nodes on the
  heap: \<open>set\<close> is a pointer to the pointer where the next node goes, and \<open>paths\<close> is the
  stack of the pointers to the peers of the open lists. A node's address is the number of its
  allocation; an allocation does not fail.
\<close>

section \<open>Nodes and locations\<close>

type_synonym c_uint = "32 word"

datatype paren_atom_child = Text nat | Atom "nat option"

record paren_atom =
  peer :: "nat option"
  child :: paren_atom_child
  line_number :: c_uint
  column_number :: c_uint
  atom_filename :: nat

text \<open>The locations a \<open>paren_atom **\<close> points to.\<close>

datatype paren_loc = Root | Peer nat | Child nat

record paren_state =
  heap :: "paren_atom list"
  root :: "nat option"
  set_at :: paren_loc
  paths :: "paren_loc list"
  atom_ns :: immutable_namespace

definition new_node :: "nat \<Rightarrow> nat \<Rightarrow> nat \<Rightarrow> paren_atom" where
  "new_node line column filename =
     \<lparr>peer = None, child = Atom None, line_number = word_of_nat line, column_number = word_of_nat column,
      atom_filename = filename\<rparr>"

fun heap_store :: "paren_loc \<Rightarrow> nat option \<Rightarrow> paren_atom list \<Rightarrow> paren_atom list" where
  "heap_store Root v h = h"
| "heap_store (Peer a) v h = h[a := (h ! a)\<lparr>peer := v\<rparr>]"
| "heap_store (Child a) v h = h[a := (h ! a)\<lparr>child := Atom v\<rparr>]"

definition paren_store :: "paren_loc \<Rightarrow> nat option \<Rightarrow> paren_state \<Rightarrow> paren_state" where
  "paren_store l v st = st\<lparr>heap := heap_store l v (heap st), root := (if l = Root then v else root st)\<rparr>"

section \<open>The parser\<close>

definition PAREN_OPEN :: byte where "PAREN_OPEN = byte_of (CHR ''('')"
definition PAREN_CLOSE :: byte where "PAREN_CLOSE = byte_of (CHR '')'')"

text \<open>
  The position of the iterator, the line and the position of the last newline are counted
  from the beginning of the text.
\<close>

fun skip_space :: "bytes \<Rightarrow> nat \<Rightarrow> nat \<Rightarrow> nat \<Rightarrow> bytes \<times> nat \<times> nat \<times> nat" where
  "skip_space [] pos line newline = ([], pos, line, newline)"
| "skip_space (c # cs) pos line newline =
     (if isspace c
      then (if c = 10 then skip_space cs (Suc pos) (Suc line) pos else skip_space cs (Suc pos) line newline)
      else (c # cs, pos, line, newline))"

fun skip_word :: "bytes \<Rightarrow> bytes \<times> bytes" where
  "skip_word [] = ([], [])"
| "skip_word (c # cs) =
     (if \<not> isspace c \<and> c \<noteq> PAREN_OPEN \<and> c \<noteq> PAREN_CLOSE
      then (case skip_word cs of (w, rest) \<Rightarrow> (c # w, rest)) else ([], c # cs))"

definition paren_open :: "bytes \<Rightarrow> nat \<Rightarrow> nat \<Rightarrow> paren_state \<Rightarrow> paren_state" where
  "paren_open filename line column st =
     (case immutable_string (atom_ns st) filename of
        (ns', f) \<Rightarrow>
          (let a = length (heap st);
               st' = paren_store (set_at st) (Some a)
                       (st\<lparr>heap := heap st @ [new_node line column f], atom_ns := ns'\<rparr>)
           in st'\<lparr>paths := Peer a # paths st', set_at := Child a\<rparr>))"

definition paren_word :: "bytes \<Rightarrow> nat \<Rightarrow> nat \<Rightarrow> bytes \<Rightarrow> paren_state \<Rightarrow> paren_state" where
  "paren_word filename line column w st =
     (case immutable_string (atom_ns st) filename of
        (ns1, f) \<Rightarrow>
          (case immutable_string ns1 w of
             (ns2, p) \<Rightarrow>
               (let a = length (heap st);
                    st' = paren_store (set_at st) (Some a)
                            (st\<lparr>heap := heap st @ [(new_node line column f)\<lparr>child := Text p\<rparr>], atom_ns := ns2\<rparr>)
                in st'\<lparr>set_at := Peer a\<rparr>)))"

text \<open>The loop; \<open>False\<close> is a closing parenthesis without an open list.\<close>

lemma skip_space_length: "length (fst (skip_space tx pos line newline)) \<le> length tx"
  by (induction tx pos line newline rule: skip_space.induct) auto

lemma skip_space_shorter: "skip_space tx pos line newline = (c # cs, r) \<Longrightarrow> length cs < length tx"
  using skip_space_length [of tx pos line newline] by simp

lemma skip_word_append: "skip_word tx = (w, rest) \<Longrightarrow> tx = w @ rest"
  by (induction tx arbitrary: w rest) (auto split: if_splits prod.splits)

function paren_loop ::
    "bytes \<Rightarrow> bytes \<Rightarrow> nat \<Rightarrow> nat \<Rightarrow> nat \<Rightarrow> paren_state \<Rightarrow> bool \<times> paren_state" where
  "paren_loop filename text pos line newline st =
     (if text = [] then (True, st)
      else case skip_space text pos line newline of
             ([], _) \<Rightarrow> (True, st)
           | (c # cs, pos', line', newline') \<Rightarrow>
               if c = PAREN_OPEN then
                 paren_loop filename cs (Suc pos') line' newline'
                   (paren_open filename line' (Suc pos' - newline') st)
               else if c = PAREN_CLOSE then
                 (case paths st of
                    [] \<Rightarrow> (False, st)
                  | p # ps \<Rightarrow> paren_loop filename cs (Suc pos') line' newline' (st\<lparr>set_at := p, paths := ps\<rparr>))
               else
                 (case skip_word cs of
                    (w, rest) \<Rightarrow>
                      paren_loop filename rest (pos' + length (c # w)) line' newline'
                        (paren_word filename line' (pos' - newline') (c # w) st)))"
  by pat_completeness auto
termination
  by (relation "measure (\<lambda>(filename, text, pos, line, newline, st). length text)")
    (auto dest!: skip_space_shorter [OF sym] skip_word_append [OF sym])

declare paren_loop.simps [simp del]

text \<open>
  Freeing: the nodes in the order in which they are freed, the children of a node before the
  node. The number bounds the recursion; \<open>None\<close> is reached when it is too small or when a
  pointer points outside of the heap.
\<close>

fun paren_atom_free :: "nat \<Rightarrow> paren_atom list \<Rightarrow> nat option \<Rightarrow> nat list option" where
  "paren_atom_free n h None = Some []"
| "paren_atom_free 0 h (Some a) = None"
| "paren_atom_free (Suc n) h (Some a) =
     (if a < length h
      then (case (case child (h ! a) of Text _ \<Rightarrow> Some [] | Atom c \<Rightarrow> paren_atom_free n h c) of
              None \<Rightarrow> None
            | Some xs \<Rightarrow>
                (case paren_atom_free n h (peer (h ! a)) of
                   None \<Rightarrow> None
                 | Some ys \<Rightarrow> Some (xs @ a # ys)))
      else None)"

text \<open>
  \<open>_load_file\<close>: \<open>os\<close> tells the size of a file and what can be read of it; \<open>None\<close> when it
  does not exist.
\<close>

definition paren_load_file :: "(bytes \<Rightarrow> (nat \<times> bytes) option) \<Rightarrow> bytes \<Rightarrow> bytes option" where
  "paren_load_file os filename =
     (case os filename of
        None \<Rightarrow> None
      | Some (st_size, content) \<Rightarrow>
          (let retval = take st_size content in if length retval = st_size then Some retval else None))"

text \<open>
  The result: the nodes and the first of them, or \<open>NULL\<close> together with the nodes that were
  freed (\<open>None\<close> when freeing went wrong).
\<close>

datatype paren_result = Parsed "paren_atom list" "nat option" | Failed "nat list option"

definition paren_parse_text :: "immutable_namespace \<Rightarrow> bytes \<Rightarrow> bytes \<Rightarrow> immutable_namespace \<times> paren_result" where
  "paren_parse_text ns filename text =
     (case paren_loop filename text 0 1 0
             \<lparr>heap = [], root = None, set_at = Root, paths = [], atom_ns = ns\<rparr> of
        (ok, st) \<Rightarrow>
          (atom_ns st,
           if ok \<and> paths st = [] then Parsed (heap st) (root st)
           else Failed (paren_atom_free (length (heap st)) (heap st) (root st))))"

text \<open>
  \<open>paren_parse\<close>: the first namespace is the default one, which the nodes use; the second one
  is the argument, \<open>None\<close> for \<open>NULL\<close>. \<open>realpath\<close> and the files are parameters.
\<close>

definition paren_parse ::
    "(bytes \<Rightarrow> bytes option) \<Rightarrow> (bytes \<Rightarrow> (nat \<times> bytes) option) \<Rightarrow> immutable_namespace
       \<Rightarrow> immutable_namespace option \<Rightarrow> bytes option \<Rightarrow> bytes option
       \<Rightarrow> immutable_namespace \<times> immutable_namespace option \<times> paren_result" where
  "paren_parse realpath os ns0 ns text filename =
     (let (name, ns0', ns') =
            (case filename of
               None \<Rightarrow> (str ''input'', ns0, ns)
             | Some f \<Rightarrow>
                 (case ns of
                    None \<Rightarrow> (case realpath f of None \<Rightarrow> [] | Some r \<Rightarrow> r, fst (immutable_path ns0 (realpath f)), None)
                  | Some n \<Rightarrow> (case realpath f of None \<Rightarrow> [] | Some r \<Rightarrow> r, ns0, Some (fst (immutable_path n (realpath f))))))
      in case (case text of Some t \<Rightarrow> Some t | None \<Rightarrow> Option.bind (paren_load_file os name) (\<lambda>c. c_string (c @ [0]))) of
           None \<Rightarrow> (ns0', ns', Failed (Some []))
         | Some t \<Rightarrow> (case paren_parse_text ns0' name t of (ns0'', r) \<Rightarrow> (ns0'', ns', r)))"

end
