(* ===== verification/ParenTree.thy ===== *)
theory ParenTree
  imports Paren
begin

text \<open>
  What the parser of parenthesised text promises: the nodes it links represent the forest
  whose tokens are the tokens of the text, it fails exactly if the parentheses do not match,
  and every node is freed exactly once.
\<close>

section \<open>Tokens and forests\<close>

type_synonym position = "c_uint \<times> c_uint"

datatype token = TOpen position | TClose | TWord position bytes

datatype paren_tree = Leaf position bytes | Node position "paren_tree list"

definition word_char :: "byte \<Rightarrow> bool" where
  "word_char c \<longleftrightarrow> \<not> isspace c \<and> c \<noteq> PAREN_OPEN \<and> c \<noteq> PAREN_CLOSE"

text \<open>The position of a list is behind its parenthesis, that of a word before it.\<close>

function lex :: "nat \<Rightarrow> nat \<Rightarrow> nat \<Rightarrow> bytes \<Rightarrow> token list" where
  "lex pos line newline [] = []"
| "lex pos line newline (c # cs) =
     (if isspace c then
        (if c = 10 then lex (Suc pos) (Suc line) pos cs else lex (Suc pos) line newline cs)
      else if c = PAREN_OPEN then
        TOpen (word_of_nat line, word_of_nat (Suc pos - newline)) # lex (Suc pos) line newline cs
      else if c = PAREN_CLOSE then TClose # lex (Suc pos) line newline cs
      else let w = takeWhile word_char (c # cs)
           in TWord (word_of_nat line, word_of_nat (pos - newline)) w
                # lex (pos + length w) line newline (dropWhile word_char (c # cs)))"
  by pat_completeness auto
termination
  by (relation "measure (\<lambda>(pos, line, newline, cs). length cs)")
    (auto simp: word_char_def less_Suc_eq_le length_dropWhile_le)

declare lex.simps(2) [simp del]

fun forest_tokens :: "paren_tree list \<Rightarrow> token list" where
  "forest_tokens [] = []"
| "forest_tokens (Leaf l w # ts) = TWord l w # forest_tokens ts"
| "forest_tokens (Node l us # ts) = TOpen l # forest_tokens us @ TClose # forest_tokens ts"

fun fsize :: "paren_tree list \<Rightarrow> nat" where
  "fsize [] = 0"
| "fsize (Leaf l w # ts) = Suc (fsize ts)"
| "fsize (Node l us # ts) = Suc (fsize us + fsize ts)"

text \<open>A pointer represents a forest; \<open>P\<close> gives the pointer of an interned string.\<close>

definition located :: "(bytes \<Rightarrow> nat) \<Rightarrow> bytes \<Rightarrow> position \<Rightarrow> paren_atom \<Rightarrow> bool" where
  "located P F l x \<longleftrightarrow> line_number x = fst l \<and> column_number x = snd l \<and> atom_filename x = P F"

fun forest_at :: "(bytes \<Rightarrow> nat) \<Rightarrow> bytes \<Rightarrow> paren_atom list \<Rightarrow> nat option \<Rightarrow> paren_tree list \<Rightarrow> bool" where
  "forest_at P F h p [] \<longleftrightarrow> p = None"
| "forest_at P F h p (Leaf l w # ts) \<longleftrightarrow>
     (case p of
        None \<Rightarrow> False
      | Some a \<Rightarrow> a < length h \<and> located P F l (h ! a) \<and> child (h ! a) = Text (P w) \<and>
          forest_at P F h (peer (h ! a)) ts)"
| "forest_at P F h p (Node l us # ts) \<longleftrightarrow>
     (case p of
        None \<Rightarrow> False
      | Some a \<Rightarrow> a < length h \<and> located P F l (h ! a) \<and>
          (case child (h ! a) of Text _ \<Rightarrow> False | Atom c \<Rightarrow> forest_at P F h c us) \<and>
          forest_at P F h (peer (h ! a)) ts)"

lemma fsize_append [simp]: "fsize (us @ vs) = fsize us + fsize vs"
  by (induction us rule: fsize.induct) simp_all

lemma fsize_0 [simp]: "fsize ts = 0 \<longleftrightarrow> ts = []"
  by (cases ts rule: fsize.cases) simp_all

lemma forest_tokens_append [simp]: "forest_tokens (us @ vs) = forest_tokens us @ forest_tokens vs"
  by (induction us rule: fsize.induct) simp_all

lemma length_forest_tokens: "fsize ts \<le> length (forest_tokens ts)"
  by (induction ts rule: fsize.induct) simp_all

section \<open>The layout of the heap\<close>

text \<open>
  Nodes are allocated in the order in which a forest is read, so the layout of the heap for a
  forest whose first address is \<open>i\<close> is determined; \<open>q\<close> is the last peer.
\<close>

definition first :: "nat \<Rightarrow> paren_tree list \<Rightarrow> nat option \<Rightarrow> nat option" where
  "first i ts q = (if ts = [] then q else Some i)"

definition node :: "(bytes \<Rightarrow> nat) \<Rightarrow> bytes \<Rightarrow> position \<Rightarrow> paren_atom_child \<Rightarrow> nat option \<Rightarrow> paren_atom" where
  "node P F l c q =
     \<lparr>peer = q, child = c, line_number = fst l, column_number = snd l, atom_filename = P F\<rparr>"

fun forest_nodes :: "(bytes \<Rightarrow> nat) \<Rightarrow> bytes \<Rightarrow> nat \<Rightarrow> paren_tree list \<Rightarrow> nat option \<Rightarrow> paren_atom list" where
  "forest_nodes P F i [] q = []"
| "forest_nodes P F i (Leaf l w # ts) q =
     node P F l (Text (P w)) (first (Suc i) ts q) # forest_nodes P F (Suc i) ts q"
| "forest_nodes P F i (Node l us # ts) q =
     node P F l (Atom (first (Suc i) us None)) (first (Suc (i + fsize us)) ts q)
       # forest_nodes P F (Suc i) us None @ forest_nodes P F (Suc (i + fsize us)) ts q"

lemma length_forest_nodes [simp]: "length (forest_nodes P F i ts q) = fsize ts"
  by (induction P F i ts q rule: forest_nodes.induct) simp_all

lemma first_simps [simp]: "first i [] q = q" "first i (t # ts) q = Some i" "first i (ts @ [t]) q = Some i"
  by (simp_all add: first_def)

lemma forest_nodes_append:
  "forest_nodes P F i (us @ vs) q =
     forest_nodes P F i us (first (i + fsize us) vs q) @ forest_nodes P F (i + fsize us) vs q"
  by (induction P F i us q rule: forest_nodes.induct) (simp_all add: first_def add.assoc)

text \<open>The layout represents the forest, wherever it lies.\<close>

lemma forest_at_nodes:
  "h = pre @ forest_nodes P F (length pre) ts None @ post \<Longrightarrow>
     forest_at P F h (first (length pre) ts None) ts"
proof (induction ts arbitrary: pre post rule: fsize.induct)
  case 1
  then show ?case by simp
next
  case (2 l w ts)
  have "forest_at P F h (first (length (pre @ [h ! length pre])) ts None) ts"
    by (rule "2.IH" [of _ post]) (use 2 in simp)
  moreover have "h ! length pre = node P F l (Text (P w)) (first (Suc (length pre)) ts None)"
    using 2 by simp
  ultimately show ?case using 2(2) by (simp add: node_def located_def)
next
  case (3 l us ts)
  let ?x = "node P F l (Atom (first (Suc (length pre)) us None)) (first (Suc (length pre + fsize us)) ts None)"
  have x: "h ! length pre = ?x" using 3 by simp
  have "forest_at P F h (first (length (pre @ [?x])) us None) us"
    by (rule "3.IH"(1) [of _ "forest_nodes P F (Suc (length pre + fsize us)) ts None @ post"]) (use 3 in simp)
  moreover have "forest_at P F h (first (length (pre @ ?x # forest_nodes P F (Suc (length pre)) us None)) ts None) ts"
    by (rule "3.IH"(2) [of _ post]) (use 3 in simp)
  ultimately show ?case using 3(3) x by (simp add: node_def located_def)
qed

section \<open>Freeing\<close>

lemma mset_upt_Suc:
  "mset [i..<i + Suc (m + n)]
     = add_mset i (mset [Suc i..<Suc i + m] + mset [Suc (i + m)..<Suc (i + m) + n])"
proof -
  have "[i..<i + Suc (m + n)] = i # [Suc i..<Suc i + m + n]"
    by (subst upt_conv_Cons) (simp_all del: upt_Suc add: add.assoc)
  also have "\<dots> = i # [Suc i..<Suc i + m] @ [Suc i + m..<Suc i + m + n]"
    by (subst upt_add_eq_append) simp_all
  finally show ?thesis by (simp del: mset_upt upt_Suc)
qed

lemma paren_atom_free_nodes:
  "h = pre @ forest_nodes P F (length pre) ts None @ post \<Longrightarrow> fsize ts \<le> n \<Longrightarrow>
     \<exists>xs. paren_atom_free n h (first (length pre) ts None) = Some xs \<and>
       mset xs = mset [length pre..<length pre + fsize ts]"
proof (induction ts arbitrary: pre post n rule: fsize.induct)
  case 1
  then show ?case by simp
next
  case (2 l w ts)
  obtain m where m: "n = Suc m" "fsize ts \<le> m" using 2(3) by (cases n) auto
  obtain ys where ys: "paren_atom_free m h (first (length (pre @ [h ! length pre])) ts None) = Some ys"
      "mset ys = mset [length (pre @ [h ! length pre])..<length (pre @ [h ! length pre]) + fsize ts]"
    using "2.IH" [of "pre @ [h ! length pre]" post m] 2(2) m(2) by auto
  have "h ! length pre = node P F l (Text (P w)) (first (Suc (length pre)) ts None)" "length pre < length h"
    using 2(2) by simp_all
  moreover have "mset [length pre..<length pre + fsize (Leaf l w # ts)]
      = add_mset (length pre) (mset [Suc (length pre)..<Suc (length pre) + fsize ts])"
    by (subst upt_conv_Cons) simp_all
  ultimately show ?case using ys m(1) by (simp add: node_def)
next
  case (3 l us ts)
  obtain m where m: "n = Suc m" "fsize us + fsize ts \<le> m" using 3(4) by (cases n) auto
  let ?x = "node P F l (Atom (first (Suc (length pre)) us None)) (first (Suc (length pre + fsize us)) ts None)"
  have x: "h ! length pre = ?x" "length pre < length h" using 3(3) by simp_all
  obtain xs where xs: "paren_atom_free m h (first (length (pre @ [?x])) us None) = Some xs"
      "mset xs = mset [length (pre @ [?x])..<length (pre @ [?x]) + fsize us]"
    using "3.IH"(1) [of "pre @ [?x]" "forest_nodes P F (Suc (length pre + fsize us)) ts None @ post" m] 3(3) m(2)
    by auto
  let ?pre = "pre @ ?x # forest_nodes P F (Suc (length pre)) us None"
  obtain ys where ys: "paren_atom_free m h (first (length ?pre) ts None) = Some ys"
      "mset ys = mset [length ?pre..<length ?pre + fsize ts]"
    using "3.IH"(2) [of ?pre post m] 3(3) m(2) by auto
  have "mset [length pre..<length pre + fsize (Node l us # ts)]
      = add_mset (length pre) (mset xs + mset ys)"
    unfolding xs(2) ys(2) using mset_upt_Suc [of "length pre" "fsize us" "fsize ts"] by (simp del: mset_upt)
  then show ?case using x xs(1) ys(1) m(1) by (simp add: node_def del: mset_upt)
qed

section \<open>The state of the parser\<close>

text \<open>
  The open lists, from the outermost one: what stands before a list in its parent, and the
  position of the list. If they all were closed now, the forest would be \<open>close_all\<close>.
\<close>

type_synonym frames = "(paren_tree list \<times> position) list"

fun close_all :: "frames \<Rightarrow> paren_tree list \<Rightarrow> paren_tree list" where
  "close_all [] ts = ts"
| "close_all ((us, l) # fs) ts = us @ [Node l (close_all fs ts)]"

text \<open>The location where the next node goes, and the locations behind the open lists.\<close>

fun hole :: "paren_loc \<Rightarrow> nat \<Rightarrow> frames \<Rightarrow> paren_tree list \<Rightarrow> paren_loc" where
  "hole loc i [] ts = (if ts = [] then loc else Peer (i + fsize (butlast ts)))"
| "hole loc i ((us, l) # fs) ts = hole (Child (i + fsize us)) (Suc (i + fsize us)) fs ts"

fun open_peers :: "nat \<Rightarrow> frames \<Rightarrow> paren_loc list" where
  "open_peers i [] = []"
| "open_peers i ((us, l) # fs) = Peer (i + fsize us) # open_peers (Suc (i + fsize us)) fs"

lemma close_all_Nil [simp]: "close_all fs ts = [] \<longleftrightarrow> fs = [] \<and> ts = []"
  by (cases fs) auto

lemma close_all_snoc [simp]: "close_all (fs @ [(us, l)]) ts = close_all fs (us @ [Node l ts])"
  by (induction fs) auto

lemma open_peers_snoc [simp]:
  "open_peers i (fs @ [(us, l)]) = open_peers i fs @ [Peer (i + fsize (close_all fs us))]"
  by (induction i fs rule: open_peers.induct) (simp_all add: add.assoc)

lemma hole_open: "hole loc i (fs @ [(us, l)]) [] = Child (i + fsize (close_all fs us))"
  by (induction loc i fs us rule: hole.induct) (simp_all add: add.assoc)

lemma hole_snoc: "hole loc i fs (ts @ [t]) = Peer (i + fsize (close_all fs ts))"
  by (induction loc i fs ts rule: hole.induct) (simp_all add: add.assoc)

fun loc_below :: "nat \<Rightarrow> paren_loc \<Rightarrow> bool" where
  "loc_below n Root = False"
| "loc_below n (Peer a) = (a < n)"
| "loc_below n (Child a) = (a < n)"

lemma heap_store_append: "loc_below (length h) l \<Longrightarrow> heap_store l v (h @ x) = heap_store l v h @ x"
  by (cases l) (simp_all add: list_update_append nth_append)

lemma hole_below: "\<not> (fs = [] \<and> ts = []) \<Longrightarrow> loc_below (i + fsize (close_all fs ts)) (hole loc i fs ts)"
proof (induction fs arbitrary: loc i)
  case Nil
  then show ?case by (cases ts rule: rev_cases) (auto, metis fsize_0 list.distinct(1) neq0_conv)
next
  case (Cons f fs)
  obtain us l where f: "f = (us, l)" by (cases f)
  show ?case
    using Cons.IH [of "Suc (i + fsize us)" "Child (i + fsize us)"]
    by (cases "fs = [] \<and> ts = []") (auto simp: f add.assoc)
qed

text \<open>A new leaf (a word or an empty list) is linked at the hole.\<close>

definition leaf :: "paren_tree \<Rightarrow> bool" where
  "leaf t \<longleftrightarrow> fsize [t] = 1"

lemma forest_nodes_leaf: "leaf t \<Longrightarrow> length (forest_nodes P F i [t] q) = 1"
  by (simp add: leaf_def)

lemma last_peer:
  assumes "ts \<noteq> []"
  shows "heap_store (Peer (length pre + fsize (butlast ts))) v (pre @ forest_nodes P F (length pre) ts None)
    = pre @ forest_nodes P F (length pre) ts v"
proof -
  obtain us t where ts: "ts = us @ [t]" using assms by (cases ts rule: rev_cases) auto
  show ?thesis
    unfolding ts by (cases t) (simp_all add: forest_nodes_append list_update_append nth_append node_def first_def)
qed

lemma add_leaf:
  assumes "\<not> (fs = [] \<and> ts = [])"
  shows "heap_store (hole loc (length pre) fs ts) (Some (length pre + fsize (close_all fs ts)))
      (pre @ forest_nodes P F (length pre) (close_all fs ts) None)
      @ forest_nodes P F (length pre + fsize (close_all fs ts)) [t] None
    = pre @ forest_nodes P F (length pre) (close_all fs (ts @ [t])) None"
  using assms
proof (induction fs arbitrary: loc pre)
  case Nil
  then have "ts \<noteq> []" by simp
  then show ?case using last_peer [of ts pre] by (simp add: forest_nodes_append)
next
  case (Cons f fs)
  obtain us l where f: "f = (us, l)" by (cases f)
  let ?i = "length pre" and ?a = "length pre + fsize us"
  let ?x = "\<lambda>ts. node P F l (Atom (first (Suc ?a) (close_all fs ts) None)) None"
  let ?pre = "\<lambda>ts. pre @ forest_nodes P F ?i us (Some ?a) @ [?x ts]"
  have n: "pre @ forest_nodes P F ?i (close_all (f # fs) ts) None
      = ?pre ts @ forest_nodes P F (length (?pre ts)) (close_all fs ts) None" for ts
    by (simp add: f forest_nodes_append)
  have h: "hole loc ?i (f # fs) ts = hole (Child ?a) (length (?pre ts)) fs ts"
    and s: "?i + fsize (close_all (f # fs) ts) = length (?pre ts) + fsize (close_all fs ts)"
    by (simp_all add: f)
  show ?case
  proof (cases "fs = [] \<and> ts = []")
    case True
    then show ?thesis
      unfolding h s n by (simp add: list_update_append nth_append node_def)
  next
    case False
    have "?x ts = ?x (ts @ [t])" using False by (auto simp: first_def)
    then show ?thesis using Cons.IH [OF False, of "Child ?a" "?pre ts"] unfolding h s n by simp
  qed
qed

text \<open>\<open>P\<close> agrees with the strings that are interned, and \<open>n\<close> more strings fit.\<close>

definition names :: "immutable_namespace \<Rightarrow> (bytes \<Rightarrow> nat) \<Rightarrow> bool" where
  "names ns P \<longleftrightarrow> (\<forall>s p. table_map (ns_table ns) s = Some p \<longrightarrow> P s = p)"

definition ns_room :: "nat \<Rightarrow> immutable_namespace \<Rightarrow> bool" where
  "ns_room n ns \<longleftrightarrow> ns_ok ns \<and> unat (item_count (ns_table ns)) + n \<le> 2 ^ 50"

lemma names_ex: "\<exists>P. names ns P"
  by (rule exI [of _ "\<lambda>s. the (table_map (ns_table ns) s)"]) (simp add: names_def)

lemma intern:
  assumes "ns_room (Suc n) ns"
  obtains ns' p where "immutable_string ns s = (ns', p)" and "ns_room n ns'"
    and "\<And>P. names ns' P \<Longrightarrow> names ns P \<and> P s = p" and "table_map (ns_table ns') s = Some p"
    and "table_map (ns_table ns) \<subseteq>\<^sub>m table_map (ns_table ns')"
proof -
  obtain ns' p where i: "immutable_string ns s = (ns', p)" by fastforce
  have "ns_ok ns" "unat (item_count (ns_table ns)) < 2 ^ 50" using assms by (simp_all add: ns_room_def)
  from immutable_string_spec [OF this, of s] have r: "ns_ok ns'" "table_map (ns_table ns') s = Some p"
      "table_map (ns_table ns) \<subseteq>\<^sub>m table_map (ns_table ns')"
      "unat (item_count (ns_table ns')) \<le> unat (item_count (ns_table ns)) + 1"
    unfolding i by simp_all
  have "names ns P \<and> P s = p" if "names ns' P" for P
    using that r(2,3) unfolding names_def by (metis map_le_def domI)
  moreover have "ns_room n ns'" using assms r(1,4) by (simp add: ns_room_def)
  ultimately show ?thesis using that [OF i] r(2,3) by blast
qed

definition paren_inv :: "bytes \<Rightarrow> nat \<Rightarrow> paren_state \<Rightarrow> frames \<Rightarrow> paren_tree list \<Rightarrow> bool" where
  "paren_inv F n st fs ts \<longleftrightarrow>
     ns_room n (atom_ns st) \<and>
     (\<forall>P. names (atom_ns st) P \<longrightarrow> heap st = forest_nodes P F 0 (close_all fs ts) None) \<and>
     root st = first 0 (close_all fs ts) None \<and> set_at st = hole Root 0 fs ts \<and>
     paths st = rev (open_peers 0 fs)"

lemma paren_inv_length: "paren_inv F n st fs ts \<Longrightarrow> length (heap st) = fsize (close_all fs ts)"
  using names_ex [of "atom_ns st"] unfolding paren_inv_def by (metis length_forest_nodes)

lemma paren_inv_less: "paren_inv F n st fs ts \<Longrightarrow> m \<le> n \<Longrightarrow> paren_inv F m st fs ts"
  by (auto simp: paren_inv_def ns_room_def)

text \<open>A leaf is allocated and stored where \<open>set\<close> points to.\<close>

lemma paren_store_leaf:
  assumes "paren_inv F n st fs ts" and "ns_room m ns'" and "\<And>P. names ns' P \<Longrightarrow> names (atom_ns st) P"
    and "\<And>P. names ns' P \<Longrightarrow> forest_nodes P F (length (heap st)) [t] None = [x]"
  defines "st' \<equiv> paren_store (set_at st) (Some (length (heap st))) (st\<lparr>heap := heap st @ [x], atom_ns := ns'\<rparr>)"
  shows "ns_room m (atom_ns st')" and "root st' = first 0 (close_all fs (ts @ [t])) None"
    and "names (atom_ns st') P \<Longrightarrow> heap st' = forest_nodes P F 0 (close_all fs (ts @ [t])) None"
    and "paths st' = rev (open_peers 0 fs)"
proof -
  note inv = assms(1) [unfolded paren_inv_def]
  note len = paren_inv_length [OF assms(1)]
  have ns': "atom_ns st' = ns'" "paths st' = paths st" by (simp_all add: st'_def paren_store_def)
  show "ns_room m (atom_ns st')" "paths st' = rev (open_peers 0 fs)" using assms(2) ns' inv by simp_all
  have root_iff: "hole Root 0 fs ts = Root \<longleftrightarrow> fs = [] \<and> ts = []"
    using hole_below [of fs ts 0 Root] by (metis hole.simps(1) loc_below.simps(1))
  show "root st' = first 0 (close_all fs (ts @ [t])) None"
    using inv root_iff len by (auto simp: st'_def paren_store_def first_def)
  assume P: "names (atom_ns st') P"
  have x: "forest_nodes P F (fsize (close_all fs ts)) [t] None = [x]" using assms(4) P ns' len by simp
  have h: "heap st = forest_nodes P F 0 (close_all fs ts) None" using inv assms(3) P ns' by simp
  show "heap st' = forest_nodes P F 0 (close_all fs (ts @ [t])) None"
  proof (cases "fs = [] \<and> ts = []")
    case True
    then show ?thesis using x inv h by (simp add: st'_def paren_store_def)
  next
    case False
    have "loc_below (length (heap st)) (hole Root 0 fs ts)" using hole_below [OF False, of 0] len by simp
    then have "heap st' = heap_store (hole Root 0 fs ts) (Some (length (heap st))) (heap st) @ [x]"
      using inv by (simp add: st'_def paren_store_def heap_store_append)
    then show ?thesis
      using add_leaf [OF False, of Root "[]" P F t] x len unfolding h by simp
  qed
qed

lemma paren_open_inv:
  assumes "paren_inv F (Suc n) st fs ts"
  shows "paren_inv F n (paren_open F line column st) (fs @ [(ts, (word_of_nat line, word_of_nat column))]) []"
proof -
  let ?l = "(word_of_nat line, word_of_nat column)"
  have "ns_room (Suc n) (atom_ns st)" using assms by (simp add: paren_inv_def)
  from intern [OF this, of F] obtain ns' f where i: "immutable_string (atom_ns st) F = (ns', f)" "ns_room n ns'"
      "\<And>P. names ns' P \<Longrightarrow> names (atom_ns st) P \<and> P F = f"
    by metis
  have x: "forest_nodes P F (length (heap st)) [Node ?l []] None = [new_node line column f]" if "names ns' P" for P
    using i(3) [OF that] by (simp add: node_def new_node_def)
  note s = paren_store_leaf [OF assms i(2) conjunct1 [OF i(3)] x]
  show ?thesis
    unfolding paren_inv_def paren_open_def i(1) prod.case Let_def
    using s paren_inv_length [OF assms] by (simp add: hole_open)
qed

lemma paren_word_inv:
  assumes "paren_inv F (Suc (Suc n)) st fs ts"
  shows "paren_inv F n (paren_word F line column w st) fs
    (ts @ [Leaf (word_of_nat line, word_of_nat column) w])"
proof -
  let ?l = "(word_of_nat line, word_of_nat column)"
  have "ns_room (Suc (Suc n)) (atom_ns st)" using assms by (simp add: paren_inv_def)
  from intern [OF this, of F] obtain ns1 f where i: "immutable_string (atom_ns st) F = (ns1, f)"
      "ns_room (Suc n) ns1" "\<And>P. names ns1 P \<Longrightarrow> names (atom_ns st) P \<and> P F = f"
    by metis
  from intern [OF i(2), of w] obtain ns2 p where j: "immutable_string ns1 w = (ns2, p)" "ns_room n ns2"
      "\<And>P. names ns2 P \<Longrightarrow> names ns1 P \<and> P w = p"
    by metis
  have x: "forest_nodes P F (length (heap st)) [Leaf ?l w] None = [(new_node line column f)\<lparr>child := Text p\<rparr>]"
    if "names ns2 P" for P
    using i(3) j(3) that by (simp add: node_def new_node_def)
  have "names (atom_ns st) P" if "names ns2 P" for P using i(3) j(3) that by blast
  note s = paren_store_leaf [OF assms j(2) this x]
  show ?thesis
    unfolding paren_inv_def paren_word_def i(1) j(1) prod.case Let_def
    using s paren_inv_length [OF assms] by (simp add: hole_snoc)
qed

lemma paren_close_inv:
  assumes "paren_inv F n st (fs @ [(us, l)]) ts"
  obtains p where "paths st = p # rev (open_peers 0 fs)"
    and "paren_inv F n (st\<lparr>set_at := p, paths := rev (open_peers 0 fs)\<rparr>) fs (us @ [Node l ts])"
  using assms by (auto simp: paren_inv_def hole_snoc)

section \<open>The loop\<close>

text \<open>The effect of tokens on the open lists; \<open>None\<close> is a list closed that is not open.\<close>

fun run :: "token list \<Rightarrow> frames \<Rightarrow> paren_tree list \<Rightarrow> (frames \<times> paren_tree list) option" where
  "run [] fs ts = Some (fs, ts)"
| "run (TWord l w # k) fs ts = run k fs (ts @ [Leaf l w])"
| "run (TOpen l # k) fs ts = run k (fs @ [(ts, l)]) []"
| "run (TClose # k) fs ts =
     (if fs = [] then None
      else case last fs of (us, l) \<Rightarrow> run k (butlast fs) (us @ [Node l ts]))"

lemma run_forest: "run (forest_tokens us @ k) fs ts = run k fs (ts @ us)"
  by (induction us arbitrary: k fs ts rule: fsize.induct) simp_all

text \<open>The tokens that lead to open lists and a forest behind them.\<close>

fun open_tokens :: "frames \<Rightarrow> token list" where
  "open_tokens [] = []"
| "open_tokens ((us, l) # fs) = forest_tokens us @ TOpen l # open_tokens fs"

lemma open_tokens_append [simp]: "open_tokens (fs @ gs) = open_tokens fs @ open_tokens gs"
  by (induction fs rule: open_tokens.induct) simp_all

lemma run_tokens:
  "run k fs ts = Some (fs', ts') \<Longrightarrow>
     open_tokens fs @ forest_tokens ts @ k = open_tokens fs' @ forest_tokens ts'"
proof (induction k fs ts rule: run.induct)
  case (4 k fs ts)
  then obtain gs us l where fs: "fs = gs @ [(us, l)]" by (cases fs rule: rev_cases) auto
  then show ?case using 4 by simp
qed simp_all

lemma run_balanced: "run k [] [] = Some ([], ts) \<longleftrightarrow> k = forest_tokens ts"
  using run_tokens [of k "[]" "[]" "[]" ts] run_forest [of ts "[]" "[]" "[]"] by auto

lemma lex_Cons:
  "isspace c \<Longrightarrow> lex pos line newline (c # cs) =
     (if c = 10 then lex (Suc pos) (Suc line) pos cs else lex (Suc pos) line newline cs)"
  "\<not> isspace PAREN_OPEN \<Longrightarrow> lex pos line newline (PAREN_OPEN # cs) =
     TOpen (word_of_nat line, word_of_nat (Suc pos - newline)) # lex (Suc pos) line newline cs"
  "\<not> isspace PAREN_CLOSE \<Longrightarrow> lex pos line newline (PAREN_CLOSE # cs) = TClose # lex (Suc pos) line newline cs"
  "word_char c \<Longrightarrow> lex pos line newline (c # cs) =
     TWord (word_of_nat line, word_of_nat (pos - newline)) (c # takeWhile word_char cs)
       # lex (Suc (pos + length (takeWhile word_char cs))) line newline (dropWhile word_char cs)"
  by (subst lex.simps(2); simp add: word_char_def PAREN_OPEN_def PAREN_CLOSE_def byte_of_def)+

lemma skip_space_lex:
  "skip_space tx pos line newline = (rest, pos', line', newline') \<Longrightarrow>
     lex pos line newline tx = lex pos' line' newline' rest \<and> (rest \<noteq> [] \<longrightarrow> \<not> isspace (hd rest))"
  by (induction tx pos line newline rule: skip_space.induct)
    (auto simp: lex_Cons split: if_splits)

lemma skip_word_eq: "skip_word cs = (takeWhile word_char cs, dropWhile word_char cs)"
  by (induction cs) (simp_all add: word_char_def)

definition loop_result :: "bytes \<Rightarrow> (frames \<times> paren_tree list) option \<Rightarrow> bool \<times> paren_state \<Rightarrow> bool" where
  "loop_result F r = (\<lambda>(ok, st). \<exists>fs ts. paren_inv F 0 st fs ts \<and> r = (if ok then Some (fs, ts) else None))"

lemma paren_loop_run:
  assumes "paren_inv F n st fs ts" and "2 * length tx \<le> n"
  shows "loop_result F (run (lex pos line newline tx) fs ts) (paren_loop F tx pos line newline st)"
  using assms
proof (induction "length tx" arbitrary: tx pos line newline st fs ts n rule: less_induct)
  case less
  obtain rest pos' line' nl' where sk: "skip_space tx pos line newline = (rest, pos', line', nl')"
    by (metis prod_cases4)
  note lx = skip_space_lex [OF sk]
  show ?case
  proof (cases rest)
    case Nil
    then have "paren_loop F tx pos line newline st = (True, st)" using sk by (subst paren_loop.simps) simp
    moreover have "lex pos line newline tx = []" using lx Nil by simp
    ultimately show ?thesis using paren_inv_less [OF less.prems(1), of 0] by (auto simp: loop_result_def)
  next
    case (Cons c cs)
    have len: "length cs < length tx" using skip_space_shorter sk Cons by simp
    then have ne: "tx \<noteq> []" by auto
    have c: "\<not> isspace c" using lx Cons by simp
    have lex: "lex pos line newline tx = lex pos' line' nl' (c # cs)" using lx Cons by simp
    consider (op) "c = PAREN_OPEN" | (cl) "c = PAREN_CLOSE" "c \<noteq> PAREN_OPEN" | (wd) "word_char c"
      using c by (auto simp: word_char_def)
    then show ?thesis
    proof cases
      case op
      let ?l = "(word_of_nat line', word_of_nat (Suc pos' - nl'))"
      let ?st = "paren_open F line' (Suc pos' - nl') st"
      have "paren_inv F (Suc (n - 1)) st fs ts" using paren_inv_less [OF less.prems(1)] less.prems(2) len by simp
      from paren_open_inv [OF this] have "paren_inv F (n - 1) ?st (fs @ [(ts, ?l)]) []" .
      from less.hyps [OF len this] less.prems(2) len show ?thesis
        using op c unfolding lex paren_loop.simps [of F tx pos line newline st] sk Cons
        by (simp add: lex_Cons ne)
    next
      case cl
      show ?thesis
      proof (cases fs rule: rev_cases)
        case Nil
        then have "paths st = []" using less.prems(1) by (simp add: paren_inv_def)
        then show ?thesis
          using paren_inv_less [OF less.prems(1), of 0] cl c Nil
          unfolding lex paren_loop.simps [of F tx pos line newline st] sk Cons
          by (auto simp: lex_Cons ne loop_result_def)
      next
        case (snoc gs f)
        obtain us l where f: "f = (us, l)" by (cases f)
        obtain p where p: "paths st = p # rev (open_peers 0 gs)"
            "paren_inv F n (st\<lparr>set_at := p, paths := rev (open_peers 0 gs)\<rparr>) gs (us @ [Node l ts])"
          using paren_close_inv less.prems(1) unfolding snoc f by metis
        from less.hyps [OF len p(2)] less.prems(2) len show ?thesis
          using cl c p(1) snoc f unfolding lex paren_loop.simps [of F tx pos line newline st] sk Cons
          by (simp add: lex_Cons ne)
      qed
    next
      case wd
      let ?l = "(word_of_nat line', word_of_nat (pos' - nl'))"
      let ?w = "c # takeWhile word_char cs" and ?r = "dropWhile word_char cs"
      let ?st = "paren_word F line' (pos' - nl') ?w st"
      have "paren_inv F (Suc (Suc (n - 2))) st fs ts" using paren_inv_less [OF less.prems(1)] less.prems(2) len by simp
      from paren_word_inv [OF this] have i: "paren_inv F (n - 2) ?st fs (ts @ [Leaf ?l ?w])" .
      have r: "length ?r < length tx" using len length_dropWhile_le [of word_char cs] by linarith
      have "2 * length ?r \<le> n - 2" using less.prems(2) len length_dropWhile_le [of word_char cs] by linarith
      from less.hyps [OF r i this] show ?thesis
        using wd unfolding lex paren_loop.simps [of F tx pos line newline st] sk Cons
        by (auto simp: lex_Cons ne skip_word_eq Let_def word_char_def)
    qed
  qed
qed

section \<open>The result\<close>

abbreviation pointer_of :: "immutable_namespace \<Rightarrow> bytes \<Rightarrow> nat" where
  "pointer_of ns \<equiv> \<lambda>s. the (table_map (ns_table ns) s)"

abbreviation paren_start :: "immutable_namespace \<Rightarrow> paren_state" where
  "paren_start ns \<equiv> \<lparr>heap = [], root = None, set_at = Root, paths = [], atom_ns = ns\<rparr>"

lemma paren_loop_text:
  assumes "ns_room (2 * length tx) ns"
  shows "loop_result F (run (lex 0 1 0 tx) [] []) (paren_loop F tx 0 1 0 (paren_start ns))"
proof -
  have "paren_inv F (2 * length tx) (paren_start ns) [] []" using assms by (simp add: paren_inv_def)
  then show ?thesis by (rule paren_loop_run) simp
qed

lemma paren_inv_heap:
  "paren_inv F n st fs ts \<Longrightarrow>
     heap st = forest_nodes (pointer_of (atom_ns st)) F 0 (close_all fs ts) None \<and> root st = first 0 (close_all fs ts) None"
  by (simp add: paren_inv_def names_def)

lemma paren_inv_frames: "paren_inv F n st fs ts \<Longrightarrow> paths st = [] \<longleftrightarrow> fs = []"
  by (cases fs) (auto simp: paren_inv_def)

lemma paren_free_all:
  assumes "paren_inv F n st fs ts"
  shows "\<exists>xs. paren_atom_free (length (heap st)) (heap st) (root st) = Some xs \<and> mset xs = mset [0..<length (heap st)]"
proof -
  note h = paren_inv_heap [OF assms]
  have "heap st = [] @ forest_nodes (pointer_of (atom_ns st)) F (length ([] :: paren_atom list)) (close_all fs ts) None @ []"
    using h by simp
  from paren_atom_free_nodes [OF this, of "length (heap st)"] show ?thesis
    using h paren_inv_length [OF assms] by simp
qed

section \<open>Rendering\<close>

text \<open>A text of a forest, and forests without their positions.\<close>

fun render :: "paren_tree list \<Rightarrow> bytes" where
  "render [] = []"
| "render (Leaf l w # ts) = w @ [32] @ render ts"
| "render (Node l us # ts) = PAREN_OPEN # render us @ PAREN_CLOSE # render ts"

fun wordy :: "paren_tree list \<Rightarrow> bool" where
  "wordy [] \<longleftrightarrow> True"
| "wordy (Leaf l w # ts) \<longleftrightarrow> w \<noteq> [] \<and> list_all word_char w \<and> wordy ts"
| "wordy (Node l us # ts) \<longleftrightarrow> wordy us \<and> wordy ts"

fun erase :: "paren_tree list \<Rightarrow> paren_tree list" where
  "erase [] = []"
| "erase (Leaf l w # ts) = Leaf (0, 0) w # erase ts"
| "erase (Node l us # ts) = Node (0, 0) (erase us) # erase ts"

fun erase_token :: "token \<Rightarrow> token" where
  "erase_token (TOpen l) = TOpen (0, 0)"
| "erase_token TClose = TClose"
| "erase_token (TWord l w) = TWord (0, 0) w"

lemma erase_tokens: "map erase_token (forest_tokens ts) = forest_tokens (erase ts)"
  by (induction ts rule: erase.induct) simp_all

lemma erase_append [simp]: "erase (us @ vs) = erase us @ erase vs"
  by (induction us rule: erase.induct) simp_all

lemma lex_word:
  assumes "w \<noteq> []" and "list_all word_char w"
  shows "\<exists>l pos'. lex pos line newline (w @ 32 # tx) = TWord l w # lex pos' line newline tx"
proof -
  obtain c cs where w: "w = c # cs" "word_char c" "list_all word_char cs" using assms by (cases w) auto
  have sp: "isspace 32" "\<not> word_char 32" by (simp_all add: isspace_def word_char_def)
  then have "takeWhile word_char (cs @ 32 # tx) = cs" "dropWhile word_char (cs @ 32 # tx) = 32 # tx"
    using w(3) by (simp_all add: list_all_iff takeWhile_append2 dropWhile_append2)
  then show ?thesis using w(1,2) sp by (auto simp: lex_Cons)
qed

lemma paren_not_space: "\<not> isspace PAREN_OPEN" "\<not> isspace PAREN_CLOSE"
  by (simp_all add: isspace_def PAREN_OPEN_def PAREN_CLOSE_def byte_of_def)

lemma lex_render:
  "wordy ts \<Longrightarrow> \<exists>pos'. map erase_token (lex pos line newline (render ts @ tx))
     = forest_tokens (erase ts) @ map erase_token (lex pos' line newline tx)"
proof (induction ts arbitrary: pos tx rule: wordy.induct)
  case (2 l w ts)
  obtain l' pos1 where "lex pos line newline (w @ 32 # render ts @ tx) = TWord l' w # lex pos1 line newline (render ts @ tx)"
    using lex_word 2 by force
  then show ?case using 2 by simp
next
  case (3 l us ts)
  have u: "wordy us" "wordy ts" using 3 by simp_all
  obtain pos1 where p1: "map erase_token (lex (Suc pos) line newline (render us @ PAREN_CLOSE # render ts @ tx))
      = forest_tokens (erase us) @ map erase_token (lex pos1 line newline (PAREN_CLOSE # render ts @ tx))"
    using "3.IH"(1) [OF u(1)] by blast
  obtain pos2 where "map erase_token (lex (Suc pos1) line newline (render ts @ tx))
      = forest_tokens (erase ts) @ map erase_token (lex pos2 line newline tx)"
    using "3.IH"(2) [OF u(2)] by blast
  then show ?case using p1 by (auto simp: lex_Cons paren_not_space)
qed auto

lemma run_erase:
  "run (map erase_token k) (map (map_prod erase (\<lambda>_. (0, 0))) fs) (erase ts)
     = map_option (map_prod (map (map_prod erase (\<lambda>_. (0, 0)))) erase) (run k fs ts)"
proof (induction k fs ts rule: run.induct)
  case (4 k fs ts)
  show ?case
  proof (cases fs rule: rev_cases)
    case (snoc gs f)
    then show ?thesis using 4 by (cases f) simp
  qed simp
next
  case (3 l k fs ts)
  then show ?case by simp
qed simp_all

lemma erased_balanced:
  assumes "map erase_token k = forest_tokens (erase ts)"
  shows "\<exists>us. k = forest_tokens us \<and> erase us = erase ts"
proof -
  have "run (map erase_token k) [] [] = Some ([], erase ts)" unfolding run_balanced using assms .
  then obtain fs us where r: "run k [] [] = Some (fs, us)" "map (map_prod erase (\<lambda>_. (0, 0))) fs = []" "erase us = erase ts"
    using run_erase [of k "[]" "[]"] by (auto simp: map_option_case split: option.splits)
  then have "run k [] [] = Some ([], us)" by simp
  then show ?thesis using r(3) unfolding run_balanced by blast
qed

text \<open>What the parser returns.\<close>

lemma paren_parse_text_forest:
  assumes "ns_ok ns" and "unat (item_count (ns_table ns)) + 2 * length tx \<le> 2 ^ 50"
  shows "case paren_parse_text ns filename tx of
      (ns', Parsed h r) \<Rightarrow>
        (\<exists>ts. lex 0 1 0 tx = forest_tokens ts \<and> forest_at (pointer_of ns') filename h r ts)
    | (ns', Failed freed) \<Rightarrow> (\<nexists>ts. lex 0 1 0 tx = forest_tokens ts)"
proof -
  have "ns_room (2 * length tx) ns" using assms by (simp add: ns_room_def)
  from paren_loop_text [OF this, of filename] obtain ok st fs ts where
    l: "paren_loop filename tx 0 1 0 (paren_start ns) = (ok, st)" "paren_inv filename 0 st fs ts"
      "run (lex 0 1 0 tx) [] [] = (if ok then Some (fs, ts) else None)"
    by (auto simp: loop_result_def)
  note p = paren_inv_frames [OF l(2)]
  show ?thesis
  proof (cases "ok \<and> paths st = []")
    case True
    then have "lex 0 1 0 tx = forest_tokens ts" using l(3) p by (simp add: run_balanced)
    moreover have "forest_at (pointer_of (atom_ns st)) filename (heap st) (root st) ts"
      using forest_at_nodes [of "heap st" "[]" "pointer_of (atom_ns st)" filename ts "[]"]
        paren_inv_heap [OF l(2)] True p by simp
    ultimately show ?thesis using l(1) True by (auto simp: paren_parse_text_def)
  next
    case False
    then have "run (lex 0 1 0 tx) [] [] \<noteq> Some ([], us)" for us using l(3) p by auto
    then show ?thesis using l(1) False by (auto simp: paren_parse_text_def run_balanced)
  qed
qed

lemma item_count_zero [simp]: "item_count (ns_table immutable_namespace_zero) = 0"
  by (simp add: immutable_namespace_zero_def table_zero_def)

section \<open>Properties\<close>

text \<open>C12: The parser returns nodes exactly if the tokens of the text are those of a forest,
  that is if its parentheses match. The nodes represent that forest: every pointer to a
  child or to a peer leads to the node of the right tree, with the interned word and file
  name and the line and column of the token.\<close>

theorem paren_parse_represents:
  assumes "ns_ok ns" and "unat (item_count (ns_table ns)) + 2 * length tx \<le> 2 ^ 50"
  shows "case paren_parse_text ns filename tx of
      (ns', Parsed h r) \<Rightarrow>
        (\<exists>ts. lex 0 1 0 tx = forest_tokens ts \<and> forest_at (pointer_of ns') filename h r ts)
    | (ns', Failed freed) \<Rightarrow> (\<nexists>ts. lex 0 1 0 tx = forest_tokens ts)"
  using assms by (rule paren_parse_text_forest)

theorem paren_parse_represents_witness:
  "case paren_parse_text immutable_namespace_zero (str ''f'') (str ''(a (b))'') of
      (ns', Parsed h r) \<Rightarrow>
        (\<exists>ts. lex 0 1 0 (str ''(a (b))'') = forest_tokens ts \<and> forest_at (pointer_of ns') (str ''f'') h r ts)
    | (ns', Failed freed) \<Rightarrow> (\<nexists>ts. lex 0 1 0 (str ''(a (b))'') = forest_tokens ts)"
  by (rule paren_parse_represents) (simp_all add: str_def)

text \<open>C28: However the parser ends, freeing the nodes from the root, as a failing parse and the
  client of a successful one do, ends and frees every node that was allocated exactly once.\<close>

theorem paren_free_exactly_once:
  assumes "ns_ok ns" and "unat (item_count (ns_table ns)) + 2 * length tx \<le> 2 ^ 50"
  shows "case paren_loop filename tx 0 1 0 (paren_start ns) of (ok, st) \<Rightarrow>
    \<exists>xs. paren_atom_free (length (heap st)) (heap st) (root st) = Some xs \<and>
      distinct xs \<and> set xs = {0..<length (heap st)}"
proof -
  have "ns_room (2 * length tx) ns" using assms by (simp add: ns_room_def)
  from paren_loop_text [OF this, of filename] obtain ok st fs ts where
    l: "paren_loop filename tx 0 1 0 (paren_start ns) = (ok, st)" "paren_inv filename 0 st fs ts"
    by (auto simp: loop_result_def)
  from paren_free_all [OF l(2)] obtain xs where
    xs: "paren_atom_free (length (heap st)) (heap st) (root st) = Some xs" "mset xs = mset [0..<length (heap st)]"
    by blast
  have "distinct xs" using mset_eq_imp_distinct_iff [OF xs(2)] by simp
  moreover have "set xs = {0..<length (heap st)}" using mset_eq_setD [OF xs(2)] by simp
  ultimately show ?thesis using l(1) xs(1) by simp
qed

theorem paren_free_exactly_once_witness:
  "case paren_loop (str ''f'') (str ''(a (b c)'') 0 1 0 (paren_start immutable_namespace_zero) of (ok, st) \<Rightarrow>
    \<exists>xs. paren_atom_free (length (heap st)) (heap st) (root st) = Some xs \<and>
      distinct xs \<and> set xs = {0..<length (heap st)}"
  by (rule paren_free_exactly_once) (simp_all add: str_def)

text \<open>A rendered forest, whose words are not empty and contain neither white space nor
  parentheses, is parsed back to the same forest, up to positions.\<close>

theorem paren_parse_render:
  assumes "ns_ok ns" and "unat (item_count (ns_table ns)) + 2 * length (render ts) \<le> 2 ^ 50" and "wordy ts"
  shows "\<exists>ns' h r us. paren_parse_text ns filename (render ts) = (ns', Parsed h r) \<and>
    forest_at (pointer_of ns') filename h r us \<and> erase us = erase ts"
proof -
  have "ns_room (2 * length (render ts)) ns" using assms(1,2) by (simp add: ns_room_def)
  from paren_loop_text [OF this, of filename] obtain ok st fs vs where
    l: "paren_loop filename (render ts) 0 1 0 (paren_start ns) = (ok, st)" "paren_inv filename 0 st fs vs"
      "run (lex 0 1 0 (render ts)) [] [] = (if ok then Some (fs, vs) else None)"
    by (auto simp: loop_result_def)
  have "map erase_token (lex 0 1 0 (render ts)) = forest_tokens (erase ts)"
    using lex_render [OF assms(3), of 0 1 0 "[]"] by simp
  then obtain us where us: "lex 0 1 0 (render ts) = forest_tokens us" "erase us = erase ts"
    using erased_balanced by blast
  then have "run (lex 0 1 0 (render ts)) [] [] = Some ([], us)" by (simp add: run_balanced)
  then have ok: "ok" "fs = []" "vs = us" using l(3) by (simp_all split: if_splits)
  then have "paren_parse_text ns filename (render ts) = (atom_ns st, Parsed (heap st) (root st))"
    using l(1) paren_inv_frames [OF l(2)] by (simp add: paren_parse_text_def)
  moreover have "forest_at (pointer_of (atom_ns st)) filename (heap st) (root st) us"
    using forest_at_nodes [of "heap st" "[]" "pointer_of (atom_ns st)" filename us "[]"]
      paren_inv_heap [OF l(2)] ok by simp
  ultimately show ?thesis using us(2) by blast
qed

theorem paren_parse_render_witness:
  "\<exists>ns' h r us. paren_parse_text immutable_namespace_zero (str ''f'')
      (render [Leaf (0, 0) (str ''a''), Node (0, 0) [Leaf (0, 0) (str ''b''), Node (0, 0) []]]) = (ns', Parsed h r) \<and>
    forest_at (pointer_of ns') (str ''f'') h r us \<and>
    erase us = erase [Leaf (0, 0) (str ''a''), Node (0, 0) [Leaf (0, 0) (str ''b''), Node (0, 0) []]]"
  by (rule paren_parse_render)
    (simp_all add: str_def byte_of_def word_char_def isspace_def
      PAREN_OPEN_def PAREN_CLOSE_def)

end
