(* ===== verification/Preproc.thy ===== *)
theory Preproc
  imports ParenTree
begin

text \<open>
  The preprocessor of parenthesised text (\<open>src/paren-parser/paren-preprocessor.c\<close>), on
  forests: it includes files and expands macros while it walks over the lists with a stack of
  layers. Equal words have equal pointers as long as they are in the same namespace.
\<close>

section \<open>Macros\<close>

text \<open>An argument has a name, unless it is an empty list, and a default value, which is not used.\<close>

record macro =
  m_name :: bytes
  m_args :: "(bytes option \<times> paren_tree option) list"
  m_body :: "paren_tree list"

fun read_macro_arg_list :: "paren_tree list \<Rightarrow> (bytes option \<times> paren_tree option) list option" where
  "read_macro_arg_list [] = Some []"
| "read_macro_arg_list (Leaf l w # ts) = map_option (\<lambda>r. (Some w, None) # r) (read_macro_arg_list ts)"
| "read_macro_arg_list (Node l [] # ts) = map_option (\<lambda>r. (None, None) # r) (read_macro_arg_list ts)"
| "read_macro_arg_list (Node l (Node k us # vs) # ts) = None"
| "read_macro_arg_list (Node l [Leaf k w] # ts) = map_option (\<lambda>r. (Some w, None) # r) (read_macro_arg_list ts)"
| "read_macro_arg_list (Node l [Leaf k w, d] # ts) = map_option (\<lambda>r. (Some w, Some d) # r) (read_macro_arg_list ts)"
| "read_macro_arg_list (Node l (Leaf k w # d # e # vs) # ts) = None"

text \<open>What follows the keyword: the name, the list of the arguments and the body.\<close>

fun read_macro :: "paren_tree list \<Rightarrow> macro option" where
  "read_macro (Leaf l name # Node k args # t # body) =
     map_option (\<lambda>r. \<lparr>m_name = name, m_args = r, m_body = t # body\<rparr>) (read_macro_arg_list args)"
| "read_macro _ = None"

text \<open>
  The places of the arguments in the body, which are looked up by name when the macro is
  read, get the children of the actual arguments; the last argument of a name is the one
  that stays.
\<close>

fun child_at :: "position \<Rightarrow> paren_tree \<Rightarrow> paren_tree" where
  "child_at l (Leaf k w) = Leaf l w"
| "child_at l (Node k us) = Node l us"

fun fill_matches :: "(bytes \<Rightarrow> paren_tree option) \<Rightarrow> paren_tree list \<Rightarrow> paren_tree list" where
  "fill_matches s [] = []"
| "fill_matches s (Leaf l w # ts) =
     (case s w of None \<Rightarrow> Leaf l w | Some t \<Rightarrow> child_at l t) # fill_matches s ts"
| "fill_matches s (Node l us # ts) = Node l (fill_matches s us) # fill_matches s ts"

fun arg_matches :: "(bytes option \<times> paren_tree option) list \<Rightarrow> paren_tree list \<Rightarrow> (bytes \<times> paren_tree) list" where
  "arg_matches ((Some n, d) # ps) (a # as) = arg_matches ps as @ [(n, a)]"
| "arg_matches ((None, d) # ps) (a # as) = arg_matches ps as"
| "arg_matches _ _ = []"

definition apply_macro :: "macro \<Rightarrow> paren_tree list \<Rightarrow> paren_tree list option" where
  "apply_macro m input =
     (if length input = length (m_args m)
      then Some (fill_matches (map_of (arg_matches (m_args m) input)) (m_body m))
      else None)"

section \<open>Includes\<close>

text \<open>The forest of a text, as \<open>paren_parse\<close> returns it.\<close>

definition parse_forest :: "bytes \<Rightarrow> paren_tree list option" where
  "parse_forest tx = (case run (lex 0 1 0 tx) [] [] of Some ([], ts) \<Rightarrow> Some ts | _ \<Rightarrow> None)"

lemma parse_forest_Some: "parse_forest tx = Some ts \<longleftrightarrow> lex 0 1 0 tx = forest_tokens ts"
  unfolding parse_forest_def run_balanced [symmetric] by (auto split: option.splits list.splits)

lemma parse_forest_parsed:
  assumes "ns_ok ns" and "unat (item_count (ns_table ns)) + 2 * length tx \<le> 2 ^ 50"
  shows "case paren_parse_text ns filename tx of
      (ns', Parsed h r) \<Rightarrow> \<exists>ts. parse_forest tx = Some ts \<and> forest_at (pointer_of ns') filename h r ts
    | (ns', Failed freed) \<Rightarrow> parse_forest tx = None"
proof -
  obtain ns' r where p: "paren_parse_text ns filename tx = (ns', r)" by (cases "paren_parse_text ns filename tx")
  note rep = paren_parse_text_forest [OF assms, of filename, unfolded p prod.case]
  show ?thesis
  proof (cases r)
    case (Parsed h q)
    then show ?thesis using rep p by (simp add: parse_forest_Some)
  next
    case (Failed freed)
    then have "\<nexists>ts. parse_forest tx = Some ts" using rep by (simp add: parse_forest_Some)
    then show ?thesis using p Failed by simp
  qed
qed

definition parse_file :: "(bytes \<Rightarrow> bytes option) \<Rightarrow> (bytes \<Rightarrow> (nat \<times> bytes) option) \<Rightarrow> bytes \<Rightarrow> paren_tree list option" where
  "parse_file realpath os filename =
     (let resolve = (\<lambda>p. case realpath p of None \<Rightarrow> [] | Some r \<Rightarrow> r)
      in Option.bind (paren_load_file os (resolve (resolve filename))) (\<lambda>content.
         Option.bind (c_string (content @ [0])) parse_forest))"

text \<open>A file without a node is an error.\<close>

fun process_include :: "(bytes \<Rightarrow> paren_tree list option) \<Rightarrow> paren_tree list \<Rightarrow> paren_tree list option" where
  "process_include parse [] = Some []"
| "process_include parse (Node l us # ts) = None"
| "process_include parse (Leaf l w # ts) =
     (case parse w of
        None \<Rightarrow> None
      | Some [] \<Rightarrow> None
      | Some new \<Rightarrow> map_option (\<lambda>r. new @ r) (process_include parse ts))"

section \<open>The walk\<close>

text \<open>
  A layer is a list of siblings: the ones that are done, and the ones from \<open>set\<close> on. The
  first of these in an outer layer is the list that the next inner layer walks over.
\<close>

record layer =
  done_atoms :: "paren_tree list"
  set_atoms :: "paren_tree list"
  macros :: "macro list"

datatype walk = Continue "layer list" | Finished "paren_tree list" | Fatal

text \<open>
  The context: how an included file is parsed, and whether the namespace of the call is the
  one that the words of the nodes are interned in; no keyword is recognised otherwise.
\<close>

record preproc_context =
  parse_include :: "bytes \<Rightarrow> paren_tree list option"
  default_namespace :: bool

definition find_macro :: "layer list \<Rightarrow> bytes \<Rightarrow> macro option" where
  "find_macro ls w = find (\<lambda>m. m_name m = w) (concat (map macros ls))"

definition is_keyword :: "preproc_context \<Rightarrow> string \<Rightarrow> bytes \<Rightarrow> bool" where
  "is_keyword cx k w \<longleftrightarrow> default_namespace cx \<and> w = str k"

definition walk_child :: "paren_tree list \<Rightarrow> layer \<Rightarrow> layer list \<Rightarrow> walk" where
  "walk_child us here ls = Continue (\<lparr>done_atoms = [], set_atoms = us, macros = []\<rparr> # here # ls)"

fun walk_peer :: "layer list \<Rightarrow> paren_tree list \<Rightarrow> walk" where
  "walk_peer [] retval = Finished retval"
| "walk_peer (here # ls) retval =
     (case set_atoms here of
        Node l us # ts \<Rightarrow>
          Continue (here\<lparr>done_atoms := done_atoms here @ [Node l retval], set_atoms := ts\<rparr> # ls)
      | _ \<Rightarrow> Continue (here # ls))"

definition walk_list :: "preproc_context \<Rightarrow> position \<Rightarrow> paren_tree list \<Rightarrow> paren_tree list \<Rightarrow> layer \<Rightarrow> layer list \<Rightarrow> walk" where
  "walk_list cx l us ts here ls =
     (case us of
        Leaf k w # input \<Rightarrow>
          if is_keyword cx ''include'' w then
            (case process_include (parse_include cx) input of
               None \<Rightarrow> Fatal
             | Some new \<Rightarrow> Continue (here\<lparr>set_atoms := new @ ts\<rparr> # ls))
          else if is_keyword cx ''macro'' w then
            (case read_macro input of
               None \<Rightarrow> Fatal
             | Some m \<Rightarrow> Continue (here\<lparr>set_atoms := ts, macros := m # macros here\<rparr> # ls))
          else (case find_macro (here # ls) w of
                  None \<Rightarrow> walk_child us here ls
                | Some m \<Rightarrow>
                    (case apply_macro m input of
                       None \<Rightarrow> Fatal
                     | Some new \<Rightarrow> Continue (here\<lparr>set_atoms := new @ ts\<rparr> # ls)))
      | _ \<Rightarrow> walk_child us here ls)"

fun walk_step :: "preproc_context \<Rightarrow> layer list \<Rightarrow> walk" where
  "walk_step cx [] = Fatal"
| "walk_step cx (here # ls) =
     (case set_atoms here of
        [] \<Rightarrow> walk_peer ls (done_atoms here)
      | Leaf l w # ts \<Rightarrow> Continue (here\<lparr>done_atoms := done_atoms here @ [Leaf l w], set_atoms := ts\<rparr> # ls)
      | Node l us # ts \<Rightarrow> walk_list cx l us ts here ls)"

text \<open>The loop, which may not end; the inner \<open>None\<close> is the result \<open>NULL\<close> after an error.\<close>

partial_function (option) walk_loop :: "preproc_context \<Rightarrow> layer list \<Rightarrow> paren_tree list option option" where
  "walk_loop cx ls =
     (case walk_step cx ls of
        Continue ls' \<Rightarrow> walk_loop cx ls'
      | Finished ts \<Rightarrow> Some (Some ts)
      | Fatal \<Rightarrow> Some None)"

definition paren_preprocessor :: "preproc_context \<Rightarrow> bytes \<Rightarrow> paren_tree list option option" where
  "paren_preprocessor cx tx =
     walk_loop cx
       [\<lparr>done_atoms = [], set_atoms = (case parse_forest tx of None \<Rightarrow> [] | Some ts \<Rightarrow> ts), macros = []\<rparr>]"

section \<open>What the preprocessor computes\<close>

text \<open>What becomes of a list with the given elements, where the macros of \<open>env\<close> are known.\<close>

datatype action = Replace "paren_tree list" | Define macro | Descend | Reject

definition list_action :: "preproc_context \<Rightarrow> macro list list \<Rightarrow> paren_tree list \<Rightarrow> action" where
  "list_action cx env us =
     (case us of
        Leaf k w # input \<Rightarrow>
          if is_keyword cx ''include'' w then
            (case process_include (parse_include cx) input of None \<Rightarrow> Reject | Some new \<Rightarrow> Replace new)
          else if is_keyword cx ''macro'' w then
            (case read_macro input of None \<Rightarrow> Reject | Some m \<Rightarrow> Define m)
          else (case find (\<lambda>m. m_name m = w) (concat env) of
                  None \<Rightarrow> Descend
                | Some m \<Rightarrow> (case apply_macro m input of None \<Rightarrow> Reject | Some new \<Rightarrow> Replace new))
      | _ \<Rightarrow> Descend)"

text \<open>
  The expansion of a list of siblings, without a stack: \<open>ms\<close> are the macros defined among the
  siblings so far, \<open>env\<close> those around. A definition disappears, what replaces a list is
  expanded again, and a definition does not reach out of the list that it is in.
\<close>

inductive expands :: "preproc_context \<Rightarrow> macro list list \<Rightarrow> macro list \<Rightarrow> paren_tree list \<Rightarrow> paren_tree list \<Rightarrow> bool"
  for cx where
  expands_Nil: "expands cx env ms [] []"
| expands_word: "expands cx env ms ts rs \<Longrightarrow> expands cx env ms (Leaf l w # ts) (Leaf l w # rs)"
| expands_replace: "list_action cx (ms # env) us = Replace new \<Longrightarrow> expands cx env ms (new @ ts) rs \<Longrightarrow>
    expands cx env ms (Node l us # ts) rs"
| expands_define: "list_action cx (ms # env) us = Define m \<Longrightarrow> expands cx env (m # ms) ts rs \<Longrightarrow>
    expands cx env ms (Node l us # ts) rs"
| expands_descend: "list_action cx (ms # env) us = Descend \<Longrightarrow> expands cx (ms # env) [] us vs \<Longrightarrow>
    expands cx env ms ts rs \<Longrightarrow> expands cx env ms (Node l us # ts) (Node l vs # rs)"

lemma walk_list_action:
  "walk_list cx l us ts here ls =
     (case list_action cx (map macros (here # ls)) us of
        Replace new \<Rightarrow> Continue (here\<lparr>set_atoms := new @ ts\<rparr> # ls)
      | Define m \<Rightarrow> Continue (here\<lparr>set_atoms := ts, macros := m # macros here\<rparr> # ls)
      | Descend \<Rightarrow> walk_child us here ls
      | Reject \<Rightarrow> Fatal)"
  by (auto simp: walk_list_def list_action_def find_macro_def split: list.split paren_tree.split option.split)

lemma expands_walk:
  "expands cx env ms ts rs \<Longrightarrow> map macros ls = env \<Longrightarrow>
     \<exists>ms'. walk_loop cx (\<lparr>done_atoms = d, set_atoms = ts, macros = ms\<rparr> # ls)
       = walk_loop cx (\<lparr>done_atoms = d @ rs, set_atoms = [], macros = ms'\<rparr> # ls)"
proof (induction arbitrary: d ls rule: expands.induct)
  case (expands_Nil env ms)
  then show ?case by auto
next
  case (expands_word env ms ts rs l w)
  show ?case using expands_word.IH [OF expands_word.prems, of "d @ [Leaf l w]"] by (subst walk_loop.simps) simp
next
  case (expands_replace ms env us new ts rs l)
  show ?case
    using expands_replace.IH [OF expands_replace.prems, of d] expands_replace.hyps(1) expands_replace.prems
    by (subst walk_loop.simps) (simp add: walk_list_action)
next
  case (expands_define ms env us m ts rs l)
  show ?case
    using expands_define.IH [OF expands_define.prems, of d] expands_define.hyps(1) expands_define.prems
    by (subst walk_loop.simps) (simp add: walk_list_action)
next
  case (expands_descend ms env us vs ts rs l)
  let ?here = "\<lparr>done_atoms = d, set_atoms = Node l us # ts, macros = ms\<rparr>"
  have "walk_loop cx (?here # ls)
      = walk_loop cx (\<lparr>done_atoms = [], set_atoms = us, macros = []\<rparr> # ?here # ls)"
    using expands_descend.hyps(1) expands_descend.prems
    by (subst walk_loop.simps) (simp add: walk_list_action walk_child_def)
  moreover obtain ms' where "walk_loop cx (\<lparr>done_atoms = [], set_atoms = us, macros = []\<rparr> # ?here # ls)
      = walk_loop cx (\<lparr>done_atoms = vs, set_atoms = [], macros = ms'\<rparr> # ?here # ls)"
    using expands_descend.IH(1) [of "?here # ls" "[]"] expands_descend.prems by auto
  moreover have "walk_loop cx (\<lparr>done_atoms = vs, set_atoms = [], macros = ms'\<rparr> # ?here # ls)
      = walk_loop cx (\<lparr>done_atoms = d @ [Node l vs], set_atoms = ts, macros = ms\<rparr> # ls)"
    by (subst walk_loop.simps) simp
  ultimately show ?case using expands_descend.IH(2) [OF expands_descend.prems, of "d @ [Node l vs]"] by auto
qed

text \<open>The other direction, by the number of steps.\<close>

fun walk_n :: "nat \<Rightarrow> preproc_context \<Rightarrow> layer list \<Rightarrow> paren_tree list option option" where
  "walk_n 0 cx ls = None"
| "walk_n (Suc n) cx ls =
     (case walk_step cx ls of
        Continue ls' \<Rightarrow> walk_n n cx ls'
      | Finished ts \<Rightarrow> Some (Some ts)
      | Fatal \<Rightarrow> Some None)"

lemma walk_loop_walk_n:
  assumes "walk_loop cx ls = Some r"
  shows "\<exists>n. walk_n n cx ls = Some r"
proof (rule walk_loop.raw_induct [where P = "\<lambda>cx ls r. \<exists>n. walk_n n cx ls = Some r", OF _ assms])
  fix loop cx ls r
  assume IH: "\<And>cx ls r. loop cx ls = Some r \<Longrightarrow> \<exists>n. walk_n n cx ls = Some r"
    and r: "(case walk_step cx ls of Continue ls' \<Rightarrow> loop cx ls' | Finished ts \<Rightarrow> Some (Some ts) | Fatal \<Rightarrow> Some None)
      = Some r"
  show "\<exists>n. walk_n n cx ls = Some r"
  proof (cases "walk_step cx ls")
    case (Continue ls')
    then obtain n where "walk_n n cx ls' = Some r" using IH [of cx ls' r] r by auto
    then show ?thesis using Continue by (intro exI [of _ "Suc n"]) simp
  next
    case (Finished ts)
    then show ?thesis using r by (intro exI [of _ 1]) simp
  next
    case Fatal
    then show ?thesis using r by (intro exI [of _ 1]) simp
  qed
qed

lemma walk_n_expands:
  "walk_n n cx (\<lparr>done_atoms = d, set_atoms = ts, macros = ms\<rparr> # ls) = Some (Some f) \<Longrightarrow>
     \<exists>rs ms' k. k \<le> n \<and> expands cx (map macros ls) ms ts rs \<and>
       walk_n k cx (\<lparr>done_atoms = d @ rs, set_atoms = [], macros = ms'\<rparr> # ls) = Some (Some f)"
proof (induction n arbitrary: d ts ms ls rule: less_induct)
  case (less n)
  obtain m where m: "n = Suc m" using less.prems by (cases n) auto
  have IH: "\<exists>rs ms' k. k \<le> i \<and> expands cx (map macros ls) ms ts rs \<and>
      walk_n k cx (\<lparr>done_atoms = d @ rs, set_atoms = [], macros = ms'\<rparr> # ls) = Some (Some f)"
    if "i \<le> m" "walk_n i cx (\<lparr>done_atoms = d, set_atoms = ts, macros = ms\<rparr> # ls) = Some (Some f)" for i d ts ms ls
    using less.IH [of i] that m by simp
  show ?case
  proof (cases ts)
    case Nil
    then show ?thesis using less.prems expands_Nil by fastforce
  next
    case (Cons t us)
    show ?thesis
    proof (cases t)
      case (Leaf l w)
      have "walk_n m cx (\<lparr>done_atoms = d @ [Leaf l w], set_atoms = us, macros = ms\<rparr> # ls) = Some (Some f)"
        using less.prems m Cons Leaf by simp
      from IH [OF le_refl this] show ?thesis
        using expands_word m Cons Leaf by (metis append.assoc append_Cons append_Nil le_SucI)
    next
      case (Node l vs)
      let ?here = "\<lparr>done_atoms = d, set_atoms = Node l vs # us, macros = ms\<rparr>"
      have st: "walk_step cx (?here # ls) = walk_list cx l vs us ?here ls" by simp
      show ?thesis
      proof (cases "list_action cx (ms # map macros ls) vs")
        case (Replace new)
        then have "walk_n m cx (\<lparr>done_atoms = d, set_atoms = new @ us, macros = ms\<rparr> # ls) = Some (Some f)"
          using less.prems m Cons Node st by (simp add: walk_list_action)
        from IH [OF le_refl this] show ?thesis
          using expands_replace [OF Replace] m Cons Node by (meson le_SucI)
      next
        case (Define mc)
        then have "walk_n m cx (\<lparr>done_atoms = d, set_atoms = us, macros = mc # ms\<rparr> # ls) = Some (Some f)"
          using less.prems m Cons Node st by (simp add: walk_list_action)
        from IH [OF le_refl this] show ?thesis
          using expands_define [OF Define] m Cons Node by (meson le_SucI)
      next
        case Reject
        then show ?thesis using less.prems m Cons Node st by (simp add: walk_list_action)
      next
        case Descend
        then have "walk_n m cx (\<lparr>done_atoms = [], set_atoms = vs, macros = []\<rparr> # ?here # ls) = Some (Some f)"
          using less.prems m Cons Node st by (simp add: walk_list_action walk_child_def)
        from IH [OF le_refl this] obtain rs ms' k where
          r: "k \<le> m" "expands cx (ms # map macros ls) [] vs rs"
            "walk_n k cx (\<lparr>done_atoms = rs, set_atoms = [], macros = ms'\<rparr> # ?here # ls) = Some (Some f)"
          by auto
        obtain j where j: "k = Suc j" using r(3) by (cases k) auto
        have "walk_n j cx (\<lparr>done_atoms = d @ [Node l rs], set_atoms = us, macros = ms\<rparr> # ls) = Some (Some f)"
          using r(3) j by simp
        from IH [OF _ this] r(1) j obtain qs ms2 i where
          "i \<le> j" "expands cx (map macros ls) ms us qs"
          "walk_n i cx (\<lparr>done_atoms = (d @ [Node l rs]) @ qs, set_atoms = [], macros = ms2\<rparr> # ls) = Some (Some f)"
          by auto
        then show ?thesis
          using expands_descend [OF Descend r(2)] r(1) j m Cons Node
          by (intro exI [of _ "Node l rs # qs"] exI [of _ ms2] exI [of _ i]) simp
      qed
    qed
  qed
qed

lemma walk_finish: "walk_loop cx [\<lparr>done_atoms = rs, set_atoms = [], macros = ms\<rparr>] = Some (Some rs)"
  by (subst walk_loop.simps) simp

text \<open>Forests in which no list is a directive and no macro is known.\<close>

fun inert :: "preproc_context \<Rightarrow> paren_tree list \<Rightarrow> bool" where
  "inert cx [] \<longleftrightarrow> True"
| "inert cx (Leaf l w # ts) \<longleftrightarrow> inert cx ts"
| "inert cx (Node l us # ts) \<longleftrightarrow>
     (case us of
        Leaf k w # _ \<Rightarrow> \<not> is_keyword cx ''include'' w \<and> \<not> is_keyword cx ''macro'' w
      | _ \<Rightarrow> True) \<and> inert cx us \<and> inert cx ts"

lemma inert_expands: "inert cx ts \<Longrightarrow> concat env = [] \<Longrightarrow> expands cx env [] ts ts"
proof (induction cx ts arbitrary: env rule: inert.induct)
  case (3 cx l us ts)
  have "find P (concat ([] # env)) = None" for P using "3.prems"(2) by (simp del: concat_eq_Nil_conv)
  then have "list_action cx ([] # env) us = Descend"
    using "3.prems"(1) by (auto simp: list_action_def simp del: concat.simps split: list.splits paren_tree.splits)
  moreover have "expands cx ([] # env) [] us us" using 3 by (intro "3.IH"(1)) simp_all
  moreover have "expands cx env [] ts ts" using 3 by (intro "3.IH"(2)) simp_all
  ultimately show ?case by (rule expands_descend)
qed (simp_all add: expands_Nil expands_word)

lemma other_namespace_inert: "\<not> default_namespace cx \<Longrightarrow> inert cx ts"
  by (induction cx ts rule: inert.induct) (auto simp: is_keyword_def split: list.splits paren_tree.splits)

section \<open>Properties\<close>

text \<open>C17: The loop with the stack of layers returns a forest exactly if that forest is the
  expansion of the parsed text: included files and the bodies of the called macros, with
  the arguments filled in, are expanded in place, definitions disappear and are known to
  the lists behind them and inside of those, and every other list is expanded inside.\<close>

theorem paren_preprocessor_expands:
  "paren_preprocessor cx tx = Some (Some rs) \<longleftrightarrow>
     expands cx [] [] (case parse_forest tx of None \<Rightarrow> [] | Some ts \<Rightarrow> ts) rs"
proof
  let ?ts = "case parse_forest tx of None \<Rightarrow> [] | Some ts \<Rightarrow> ts"
  assume "expands cx [] [] ?ts rs"
  from expands_walk [OF this, of "[]" "[]"] show "paren_preprocessor cx tx = Some (Some rs)"
    by (auto simp: paren_preprocessor_def walk_finish)
next
  let ?ts = "case parse_forest tx of None \<Rightarrow> [] | Some ts \<Rightarrow> ts"
  assume "paren_preprocessor cx tx = Some (Some rs)"
  then obtain n where "walk_n n cx [\<lparr>done_atoms = [], set_atoms = ?ts, macros = []\<rparr>] = Some (Some rs)"
    unfolding paren_preprocessor_def using walk_loop_walk_n by blast
  from walk_n_expands [OF this] obtain qs ms' k where "expands cx [] [] ?ts qs"
      "walk_n k cx [\<lparr>done_atoms = qs, set_atoms = [], macros = ms'\<rparr>] = Some (Some rs)"
    by auto
  then show "expands cx [] [] ?ts rs" by (cases k) auto
qed

text \<open>C32: A text without directives is preprocessed in finitely many steps, and the result is what
  the parser returns. The same holds for every text when the namespace of the call is not
  the one in which the parser interns its words: then no directive is recognised.\<close>

theorem paren_preprocessor_plain:
  assumes "parse_forest tx = Some ts" and "inert cx ts \<or> \<not> default_namespace cx"
  shows "paren_preprocessor cx tx = Some (Some ts)"
proof -
  have "inert cx ts" using assms(2) other_namespace_inert by blast
  then have "expands cx [] [] ts ts" by (rule inert_expands) simp
  from expands_walk [OF this, of "[]" "[]"] show ?thesis
    using assms(1) by (auto simp: paren_preprocessor_def walk_finish)
qed

theorem paren_preprocessor_plain_witness:
  "\<exists>ts. parse_forest (str ''(a (b))'') = Some ts \<and>
    paren_preprocessor \<lparr>parse_include = (\<lambda>_. None), default_namespace = True\<rparr> (str ''(a (b))'') = Some (Some ts)"
proof -
  have p: "parse_forest (str ''(a (b))'') = Some [Node (1, 1) [Leaf (1, 1) (str ''a''), Node (1, 4) [Leaf (1, 4) (str ''b'')]]]"
    by code_simp
  show ?thesis using paren_preprocessor_plain [OF p] p by (simp add: is_keyword_def str_def)
qed

end
