(* ===== verification/Libc.thy ===== *)
theory Libc
  imports Prelude
begin

text \<open>
  The string functions of \<open>src/libc\<close>, on a memory of bytes whose first address is a multiple
  of eight, the size of \<open>uint_fast32_t\<close>. \<open>None\<close> is an access out of bounds.
\<close>

type_synonym memory = bytes

abbreviation WORD :: nat where "WORD \<equiv> 8"

text \<open>The bytes of a region, and a region overwritten.\<close>

definition region :: "memory \<Rightarrow> nat \<Rightarrow> nat \<Rightarrow> bytes" where
  "region m a n = take n (drop a m)"

definition put :: "memory \<Rightarrow> nat \<Rightarrow> bytes \<Rightarrow> memory" where
  "put m a bs = take a m @ bs @ drop (a + length bs) m"

text \<open>One load and one store of \<open>u\<close> bytes.\<close>

definition copy_unit :: "nat \<Rightarrow> memory \<Rightarrow> nat \<Rightarrow> nat \<Rightarrow> memory option" where
  "copy_unit u m d s =
     (if s + u \<le> length m \<and> d + u \<le> length m then Some (put m d (region m s u)) else None)"

section \<open>memcpy\<close>

text \<open>The four loops: bytes up to an aligned source, four words, one word, bytes.\<close>

fun memcpy_tail :: "memory \<Rightarrow> nat \<Rightarrow> nat \<Rightarrow> nat \<Rightarrow> memory option" where
  "memcpy_tail m d s n =
     (if n > 0
      then (case copy_unit 1 m d s of None \<Rightarrow> None | Some m' \<Rightarrow> memcpy_tail m' (d + 1) (s + 1) (n - 1))
      else Some m)"

fun memcpy_words :: "memory \<Rightarrow> nat \<Rightarrow> nat \<Rightarrow> nat \<Rightarrow> memory option" where
  "memcpy_words m d s n =
     (if n > WORD
      then (case copy_unit WORD m d s of
              None \<Rightarrow> None | Some m' \<Rightarrow> memcpy_words m' (d + WORD) (s + WORD) (n - WORD))
      else memcpy_tail m d s n)"

definition copy_4_words :: "memory \<Rightarrow> nat \<Rightarrow> nat \<Rightarrow> memory option" where
  "copy_4_words m d s =
     Option.bind (copy_unit WORD m d s) (\<lambda>m1.
     Option.bind (copy_unit WORD m1 (d + WORD) (s + WORD)) (\<lambda>m2.
     Option.bind (copy_unit WORD m2 (d + 2 * WORD) (s + 2 * WORD)) (\<lambda>m3.
     copy_unit WORD m3 (d + 3 * WORD) (s + 3 * WORD))))"

fun memcpy_4_words :: "memory \<Rightarrow> nat \<Rightarrow> nat \<Rightarrow> nat \<Rightarrow> memory option" where
  "memcpy_4_words m d s n =
     (if n > 4 * WORD
      then (case copy_4_words m d s of
              None \<Rightarrow> None | Some m' \<Rightarrow> memcpy_4_words m' (d + 4 * WORD) (s + 4 * WORD) (n - 4 * WORD))
      else memcpy_words m d s n)"

fun memcpy_align :: "memory \<Rightarrow> nat \<Rightarrow> nat \<Rightarrow> nat \<Rightarrow> memory option" where
  "memcpy_align m d s n =
     (if s mod WORD \<noteq> 0 \<and> n \<noteq> 0
      then (case copy_unit 1 m d s of None \<Rightarrow> None | Some m' \<Rightarrow> memcpy_align m' (d + 1) (s + 1) (n - 1))
      else memcpy_4_words m d s n)"

definition memcpy :: "memory \<Rightarrow> nat \<Rightarrow> nat \<Rightarrow> nat \<Rightarrow> memory option" where
  "memcpy m d s n = memcpy_align m d s n"

declare memcpy_tail.simps [simp del] memcpy_words.simps [simp del] memcpy_4_words.simps [simp del]
  memcpy_align.simps [simp del]

section \<open>Strings\<close>

fun strlen_loop :: "bytes \<Rightarrow> nat option" where
  "strlen_loop [] = None"
| "strlen_loop (c # cs) = (if c \<noteq> 0 then map_option Suc (strlen_loop cs) else Some 0)"

definition strlen :: "memory \<Rightarrow> nat \<Rightarrow> nat option" where
  "strlen m s = strlen_loop (drop s m)"

text \<open>The result is the difference of the first bytes that differ, or of the ends.\<close>

fun strcmp_loop :: "bytes \<Rightarrow> bytes \<Rightarrow> int option" where
  "strcmp_loop (c # cs) (d # ds) =
     (if c = d \<and> d \<noteq> 0 then strcmp_loop cs ds else Some (int (unat c) - int (unat d)))"
| "strcmp_loop _ _ = None"

definition strcmp :: "memory \<Rightarrow> nat \<Rightarrow> nat \<Rightarrow> int option" where
  "strcmp m s1 s2 = strcmp_loop (drop s1 m) (drop s2 m)"

definition store_null :: "memory \<Rightarrow> nat \<Rightarrow> memory option" where
  "store_null m a = (if a < length m then Some (m[a := 0]) else None)"

definition strcpy :: "memory \<Rightarrow> nat \<Rightarrow> nat \<Rightarrow> memory option" where
  "strcpy m dest src =
     Option.bind (strlen m src) (\<lambda>len.
     Option.bind (memcpy m dest src len) (\<lambda>m'. store_null m' (dest + len)))"

text \<open>The whole source is copied, however small \<open>n\<close> is.\<close>

fun fill_nulls :: "memory \<Rightarrow> nat \<Rightarrow> nat \<Rightarrow> memory option" where
  "fill_nulls m a 0 = Some m"
| "fill_nulls m a (Suc n) = Option.bind (store_null m a) (\<lambda>m'. fill_nulls m' (Suc a) n)"

definition strncpy :: "memory \<Rightarrow> nat \<Rightarrow> nat \<Rightarrow> nat \<Rightarrow> memory option" where
  "strncpy m dest src n =
     Option.bind (strlen m src) (\<lambda>len.
     Option.bind (memcpy m dest src len) (\<lambda>m'. fill_nulls m' (dest + len) (n - len)))"

text \<open>
  \<open>strdup\<close>: \<open>malloc\<close> extends the memory at an aligned address, or fails. The outer \<open>None\<close> is
  an access out of bounds, the inner one the result \<open>NULL\<close>.
\<close>

definition strdup :: "(nat \<Rightarrow> (nat \<times> bytes) option) \<Rightarrow> memory \<Rightarrow> nat \<Rightarrow> (memory \<times> nat option) option" where
  "strdup malloc m input =
     Option.bind (strlen m input) (\<lambda>len.
       case malloc (len + 1) of
         None \<Rightarrow> Some (m, None)
       | Some (gap, junk) \<Rightarrow>
           (let m1 = m @ replicate gap 0 @ take (len + 1) junk; a = length m + gap
            in map_option (\<lambda>m'. (m', Some a)) (strcpy m1 a input)))"

section \<open>memcmp_length\<close>

definition load :: "memory \<Rightarrow> nat \<Rightarrow> byte option" where
  "load m a = (if a < length m then Some (m ! a) else None)"

definition load_word :: "memory \<Rightarrow> nat \<Rightarrow> bytes option" where
  "load_word m a = (if a + WORD \<le> length m then Some (region m a WORD) else None)"

text \<open>The last loop, whose guard already holds only for different bytes.\<close>

definition memcmp_length_tail :: "memory \<Rightarrow> nat \<Rightarrow> nat \<Rightarrow> nat \<Rightarrow> nat \<Rightarrow> nat option" where
  "memcmp_length_tail m a b n sz =
     (case (load m a, load m b) of
        (Some x, Some y) \<Rightarrow> Some (n - sz)
      | _ \<Rightarrow> None)"

fun memcmp_length_words :: "memory \<Rightarrow> nat \<Rightarrow> nat \<Rightarrow> nat \<Rightarrow> nat \<Rightarrow> nat option" where
  "memcmp_length_words m a b n sz =
     (if sz \<ge> WORD
      then (case (load_word m a, load_word m b) of
              (Some x, Some y) \<Rightarrow>
                if x \<noteq> y then memcmp_length_tail m a b n sz
                else memcmp_length_words m (a + WORD) (b + WORD) n (sz - WORD)
            | _ \<Rightarrow> None)
      else memcmp_length_tail m a b n sz)"

fun memcmp_length_align :: "memory \<Rightarrow> nat \<Rightarrow> nat \<Rightarrow> nat \<Rightarrow> nat \<Rightarrow> nat option" where
  "memcmp_length_align m a b n sz =
     (if a mod WORD \<noteq> 0 \<and> sz \<noteq> 0
      then (case (load m a, load m b) of
              (Some x, Some y) \<Rightarrow>
                if x \<noteq> y then Some (n - sz) else memcmp_length_align m (a + 1) (b + 1) n (sz - 1)
            | _ \<Rightarrow> None)
      else memcmp_length_words m a b n sz)"

declare memcmp_length_words.simps [simp del] memcmp_length_align.simps [simp del]

definition memcmp_length :: "memory \<Rightarrow> nat \<Rightarrow> nat \<Rightarrow> nat \<Rightarrow> nat option" where
  "memcmp_length m a b n = memcmp_length_align m a b n n"

section \<open>The loops of memcpy copy a region\<close>

lemma length_put: "a + length bs \<le> length m \<Longrightarrow> length (put m a bs) = length m"
  by (simp add: put_def)

lemma length_region: "a + n \<le> length m \<Longrightarrow> length (region m a n) = n"
  by (simp add: region_def)

lemma region_add: "region m a (k + n) = region m a k @ region m (a + k) n"
  by (simp add: region_def take_add add.commute)

definition disjoint_regions :: "nat \<Rightarrow> nat \<Rightarrow> nat \<Rightarrow> bool" where
  "disjoint_regions d s n \<longleftrightarrow> d + n \<le> s \<or> s + n \<le> d"

lemma put_region_frame:
  assumes "d + length bs \<le> length m" and "disjoint_regions d s n" and "length bs \<le> n" and "s + k + u \<le> s + n"
  shows "region (put m d bs) (s + k) u = region m (s + k) u"
proof (cases "d + n \<le> s")
  case True
  then have "drop (s + k) (put m d bs) = drop (s + k) m" using assms(1,3) by (simp add: put_def)
  then show ?thesis by (simp add: region_def)
next
  case False
  then have "s + k + u \<le> d" using assms(2,4) by (simp add: disjoint_regions_def)
  then have "take (s + k + u) (put m d bs) = take (s + k + u) m" using assms(1) by (simp add: put_def)
  then show ?thesis unfolding region_def by (metis add.commute take_drop)
qed

lemma put_put:
  assumes "d + length bs + length cs \<le> length m"
  shows "put (put m d bs) (d + length bs) cs = put m d (bs @ cs)"
  using assms by (simp add: put_def add.assoc add.commute add.left_commute)

text \<open>After \<open>k\<close> bytes, one more unit.\<close>

definition copied :: "memory \<Rightarrow> nat \<Rightarrow> nat \<Rightarrow> nat \<Rightarrow> memory" where
  "copied m d s k = put m d (region m s k)"

definition copy_ok :: "memory \<Rightarrow> nat \<Rightarrow> nat \<Rightarrow> nat \<Rightarrow> bool" where
  "copy_ok m d s n \<longleftrightarrow> disjoint_regions d s n \<and> s + n \<le> length m \<and> d + n \<le> length m"

lemma copy_unit_copied:
  assumes "copy_ok m d s n" and "k + u \<le> n"
  shows "copy_unit u (copied m d s k) (d + k) (s + k) = Some (copied m d s (k + u))"
proof -
  have lk: "length (region m s k) = k" using assms by (simp add: copy_ok_def length_region)
  have len: "length (copied m d s k) = length m" using assms lk by (simp add: copy_ok_def copied_def length_put)
  have "region (copied m d s k) (s + k) u = region m (s + k) u"
    unfolding copied_def using assms lk by (intro put_region_frame [where n = n]) (simp_all add: copy_ok_def)
  moreover have "put (copied m d s k) (d + k) (region m (s + k) u) = copied m d s (k + u)"
    unfolding copied_def region_add using put_put [of d "region m s k" "region m (s + k) u" m] lk assms
    by (simp add: copy_ok_def length_region)
  ultimately show ?thesis unfolding copy_unit_def len using assms by (simp add: copy_ok_def)
qed


lemma memcpy_tail_copied:
  assumes ok: "copy_ok m d s n" and "k + j = n"
  shows "memcpy_tail (copied m d s k) (d + k) (s + k) j = Some (copied m d s n)"
  using assms(2)
proof (induction j arbitrary: k)
  case 0
  then show ?case by (simp add: memcpy_tail.simps)
next
  case (Suc j)
  then show ?case
    using copy_unit_copied [OF ok, of k 1] Suc.IH [of "Suc k"]
    by (subst memcpy_tail.simps) simp
qed

lemma memcpy_words_copied:
  assumes ok: "copy_ok m d s n" and "k + j = n"
  shows "memcpy_words (copied m d s k) (d + k) (s + k) j = Some (copied m d s n)"
  using assms(2)
proof (induction j arbitrary: k rule: less_induct)
  case (less j)
  show ?case
  proof (cases "j > WORD")
    case True
    then show ?thesis
      using copy_unit_copied [OF ok, of k WORD] less.IH [of "j - WORD" "k + WORD"] less.prems
      by (subst memcpy_words.simps) (simp add: add.assoc)
  next
    case False
    then show ?thesis using memcpy_tail_copied [OF ok less.prems] by (subst memcpy_words.simps) simp
  qed
qed

lemma copy_4_words_copied:
  assumes ok: "copy_ok m d s n" and "k + 4 * WORD \<le> n"
  shows "copy_4_words (copied m d s k) (d + k) (s + k) = Some (copied m d s (k + 4 * WORD))"
  unfolding copy_4_words_def
  using copy_unit_copied [OF ok, of k WORD] copy_unit_copied [OF ok, of "k + WORD" WORD]
    copy_unit_copied [OF ok, of "k + 2 * WORD" WORD]
    copy_unit_copied [OF ok, of "k + 3 * WORD" WORD] assms
  by (simp add: add.assoc)

lemma memcpy_4_words_copied:
  assumes ok: "copy_ok m d s n" and "k + j = n"
  shows "memcpy_4_words (copied m d s k) (d + k) (s + k) j = Some (copied m d s n)"
  using assms(2)
proof (induction j arbitrary: k rule: less_induct)
  case (less j)
  show ?case
  proof (cases "j > 4 * WORD")
    case True
    then show ?thesis
      using copy_4_words_copied [OF ok, of k] less.IH [of "j - 4 * WORD" "k + 4 * WORD"] less.prems
      by (subst memcpy_4_words.simps) (simp add: add.assoc)
  next
    case False
    then show ?thesis using memcpy_words_copied [OF ok less.prems] by (subst memcpy_4_words.simps) simp
  qed
qed

lemma memcpy_align_copied:
  assumes ok: "copy_ok m d s n" and "k + j = n"
  shows "memcpy_align (copied m d s k) (d + k) (s + k) j = Some (copied m d s n)"
  using assms(2)
proof (induction j arbitrary: k)
  case 0
  then show ?case using memcpy_4_words_copied [OF ok, of k 0] by (subst memcpy_align.simps) simp
next
  case (Suc j)
  then show ?case
    using copy_unit_copied [OF ok, of k 1] Suc.IH [of "Suc k"] memcpy_4_words_copied [OF ok, of k "Suc j"]
    by (subst memcpy_align.simps) simp
qed

lemma memcpy_copied: "copy_ok m d s n \<Longrightarrow> memcpy m d s n = Some (put m d (region m s n))"
  using memcpy_align_copied [of m d s n 0 n] by (simp add: memcpy_def copied_def put_def region_def)

section \<open>Strings\<close>

lemma strlen_loop_spec: "0 \<notin> set w \<Longrightarrow> strlen_loop (w @ 0 # rest) = Some (length w)"
  by (induction w) auto

lemma strlen_spec: "drop s m = w @ 0 # rest \<Longrightarrow> 0 \<notin> set w \<Longrightarrow> strlen m s = Some (length w)"
  by (simp add: strlen_def strlen_loop_spec)

lemma strcmp_loop_spec:
  assumes "0 \<notin> set v" and "0 \<notin> set w"
  shows "\<exists>r. strcmp_loop (v @ 0 # x) (w @ 0 # y) = Some r \<and> (r = 0 \<longleftrightarrow> v = w)"
  using assms
proof (induction v w rule: list_induct2')
  case (2 c cs)
  then show ?case by (auto simp: uint_0_iff)
next
  case (3 d ds)
  then show ?case by (auto simp: uint_0_iff)
next
  case (4 c cs d ds)
  have "int (unat c) - int (unat d) = 0 \<longleftrightarrow> c = d"
    unfolding eq_iff_diff_eq_0 [symmetric] of_nat_eq_iff word_unat_eq_iff ..
  then show ?case using 4 by (cases "c = d") simp_all
qed simp

lemma fill_nulls_spec:
  "a + n \<le> length m \<Longrightarrow> fill_nulls m a n = Some (put m a (replicate n 0))"
proof (induction n arbitrary: m a)
  case 0
  then show ?case by (simp add: put_def)
next
  case (Suc n)
  have "put (m[a := 0]) (Suc a) (replicate n 0) = put m a (0 # replicate n 0)"
    using Suc.prems by (simp add: put_def take_Suc_conv_app_nth)
  then show ?case using Suc by (simp add: store_null_def)
qed

text \<open>Copying a string of length \<open>length w\<close> that does not overlap its destination.\<close>

definition string_at :: "memory \<Rightarrow> nat \<Rightarrow> bytes \<Rightarrow> bool" where
  "string_at m a w \<longleftrightarrow> 0 \<notin> set w \<and> (\<exists>rest. drop a m = w @ 0 # rest)"

lemma string_copy:
  assumes "string_at m src w" and "disjoint_regions dest src (length w)" and "dest + length w \<le> length m"
  shows "strlen m src = Some (length w)" and "memcpy m dest src (length w) = Some (put m dest w)"
proof -
  obtain rest where r: "drop src m = w @ 0 # rest" "0 \<notin> set w" using assms(1) by (auto simp: string_at_def)
  then show "strlen m src = Some (length w)" by (rule strlen_spec)
  have "src + length w \<le> length m" using arg_cong [OF r(1), of length] by simp
  then show "memcpy m dest src (length w) = Some (put m dest w)"
    using memcpy_copied [of m dest src "length w"] assms(2,3) r(1) by (simp add: copy_ok_def region_def)
qed

lemma strcpy_spec:
  assumes "string_at m src w" and "disjoint_regions dest src (length w)" and "dest + length w < length m"
  shows "strcpy m dest src = Some (put m dest (w @ [0]))"
proof -
  have "(put m dest w)[dest + length w := 0] = put (put m dest w) (dest + length w) [0]"
    using assms(3) by (simp add: put_def list_update_append upd_conv_take_nth_drop)
  then have "(put m dest w)[dest + length w := 0] = put m dest (w @ [0])"
    using put_put [of dest w "[0]" m] assms(3) by simp
  then show ?thesis
    using string_copy [OF assms(1,2)] assms(3) by (simp add: strcpy_def store_null_def length_put)
qed

text \<open>\<open>strncpy\<close> writes the whole source even if it is longer than \<open>n\<close>.\<close>

lemma strncpy_ignores_bound:
  assumes "string_at m src w" and "disjoint_regions dest src (length w)"
    and "dest + length w \<le> length m" and "dest + n \<le> length m"
  shows "strncpy m dest src n = Some (put m dest (w @ replicate (n - length w) 0))"
  using string_copy [OF assms(1-3)] fill_nulls_spec [of "dest + length w" "n - length w" "put m dest w"]
    put_put [of dest w "replicate (n - length w) 0" m] assms(3,4)
  by (simp add: strncpy_def length_put)

section \<open>memcmp_length\<close>

text \<open>The number of equal bytes at the beginning of two regions.\<close>

fun common :: "bytes \<Rightarrow> bytes \<Rightarrow> nat" where
  "common (x # xs) (y # ys) = (if x = y then Suc (common xs ys) else 0)"
| "common _ _ = 0"

lemma common_le: "common xs ys \<le> length xs"
  by (induction xs ys rule: common.induct) auto

lemma common_append: "common (xs @ us) (xs @ vs) = length xs + common us vs"
  by (induction xs) auto

lemma common_same [simp]: "common xs xs = length xs"
  using common_append [of xs "[]" "[]"] by simp

lemma common_differ: "length xs = length ys \<Longrightarrow> xs \<noteq> ys \<Longrightarrow> common (xs @ us) (ys @ vs) < length xs"
  by (induction xs ys rule: list_induct2) auto

lemma memcmp_length_words_spec:
  assumes "a + sz < length m" and "b + sz < length m" and "sz \<le> n"
  shows "memcmp_length_words m a b n sz
    = Some (n - sz + common (region m a sz) (region m b sz) div WORD * WORD)"
  using assms
proof (induction sz arbitrary: a b rule: less_induct)
  case (less sz)
  have tail: "memcmp_length_tail m a b n sz = Some (n - sz)"
    using less.prems by (simp add: memcmp_length_tail_def load_def)
  show ?case
  proof (cases "sz \<ge> WORD")
    case False
    then have "common (region m a sz) (region m b sz) < WORD"
      using common_le [of "region m a sz" "region m b sz"] less.prems by (simp add: length_region)
    then show ?thesis using False tail by (subst memcmp_length_words.simps) simp
  next
    case True
    have r: "region m c sz = region m c WORD @ region m (c + WORD) (sz - WORD)" for c
      using True region_add [of m c WORD "sz - WORD"] by simp
    have l: "length (region m c WORD) = WORD" if "c + sz < length m" for c
      using that True by (simp add: length_region)
    show ?thesis
    proof (cases "region m a WORD = region m b WORD")
      case eq: True
      have "common (region m a sz) (region m b sz)
          = WORD + common (region m (a + WORD) (sz - WORD)) (region m (b + WORD) (sz - WORD))"
        unfolding r [of a] r [of b] eq common_append l [OF less.prems(2)] ..
      moreover have "(WORD + x) div WORD * WORD = WORD + x div WORD * WORD" for x :: nat by presburger
      ultimately show ?thesis
        using less.IH [of "sz - WORD" "a + WORD" "b + WORD"] less.prems True eq
        by (subst memcmp_length_words.simps) (simp add: load_word_def add.assoc)
    next
      case ne: False
      have "common (region m a sz) (region m b sz) < WORD"
        unfolding r [of a] r [of b] using common_differ [OF _ ne] l less.prems by metis
      then show ?thesis
        using less.prems True ne tail by (subst memcmp_length_words.simps) (simp add: load_word_def)
    qed
  qed
qed

section \<open>Properties\<close>

text \<open>\<open>memcpy\<close>, which copies bytes up to an aligned source address, then four words at a
  time, then words, then bytes, is the reference that copies the region at once, whenever
  the two regions lie in the memory and do not overlap.\<close>

theorem memcpy_copies:
  assumes "copy_ok m d s n"
  shows "memcpy m d s n = Some (take d m @ take n (drop s m) @ drop (d + n) m)"
proof -
  have "min (length m - s) n = n" using assms by (auto simp: copy_ok_def min_def)
  then show ?thesis using memcpy_copied [OF assms] by (simp add: put_def region_def)
qed

theorem memcpy_copies_witness:
  "memcpy [1, 2, 3, 4, 5, 6] 0 3 2 = Some [4, 5, 3, 4, 5, 6]"
  using memcpy_copies [of "[1, 2, 3, 4, 5, 6]" 0 3 2] by (simp add: copy_ok_def disjoint_regions_def)

text \<open>\<open>memcmp_length\<close> with an aligned first address does not return the number of equal
  bytes, but rounds it down to a multiple of the word size, even if the regions are equal:
  the loop for the last bytes stops at an equal byte.\<close>

theorem memcmp_length_rounds_down:
  assumes "a mod WORD = 0" and "a + n < length m" and "b + n < length m"
  shows "memcmp_length m a b n = Some (common (region m a n) (region m b n) div WORD * WORD)"
  unfolding memcmp_length_def using memcmp_length_words_spec [OF assms(2,3), of n] assms(1)
  by (subst memcmp_length_align.simps) simp

theorem memcmp_length_rounds_down_witness:
  "memcmp_length (replicate 30 7) 0 13 12 = Some 8"
  using memcmp_length_rounds_down [of 0 12 "replicate 30 7" 13]
  by (simp add: region_def)

end
