(* ===== verification/HashFs.thy ===== *)
theory HashFs
  imports Prelude
begin

text \<open>
  The sector cache of the hash file system (\<open>src/hash-fs/hash-fs.c\<close>). Positions are computed
  modulo the number of sectors without leaving 64 bits. The device is a parameter. The outer
  \<open>None\<close> is a division by zero or a mutex that is locked already.
\<close>

section \<open>Modular positions\<close>

definition mod_add :: "size_t \<Rightarrow> size_t \<Rightarrow> size_t \<Rightarrow> size_t" where
  "mod_add a b m = (let negative_a = m - a in if b \<ge> negative_a then b - negative_a else a + b)"

record hash_fs_digest =
  ints :: "size_t list"
  type_index :: byte

definition mod_reference :: "hash_fs_digest \<Rightarrow> size_t \<Rightarrow> size_t \<Rightarrow> size_t option" where
  "mod_reference digest offset m =
     (if m = 0 then None
      else Some (fold (\<lambda>i point. mod_add point (i mod m) m) (ints digest) (offset mod m)))"

section \<open>Sectors\<close>

record loaded_sector =
  is_loaded :: bool
  mutex_locked :: bool
  sector_digest :: hash_fs_digest
  sector_input :: bytes

record 'd hash_fs =
  device :: 'd
  block_count :: size_t
  sector_table :: "loaded_sector list"

text \<open>What the device answers: whether a seek succeeds, and what a read delivers.\<close>

record 'd device_ops =
  do_lseek :: "'d \<Rightarrow> nat \<Rightarrow> bool \<times> 'd"
  do_read :: "'d \<Rightarrow> nat \<Rightarrow> bytes option \<times> 'd"

definition HASH_FS_SECTOR_SIZE :: nat where "HASH_FS_SECTOR_SIZE = 32768"
definition HASH_FS_USER_BLOCK_START :: nat where "HASH_FS_USER_BLOCK_START = 1"

text \<open>The length of \<open>contents.input\<close>: the sector without its header of 88 bytes.\<close>

definition input_size :: nat where "input_size = HASH_FS_SECTOR_SIZE - 88"

definition hash_fs_user_block_count :: "'d hash_fs \<Rightarrow> size_t" where
  "hash_fs_user_block_count fs = block_count fs - 2"

text \<open>The result is that of the comparison with the error code of \<open>lseek\<close>.\<close>

definition lseek_fs :: "'d device_ops \<Rightarrow> 'd hash_fs \<Rightarrow> hash_fs_digest \<Rightarrow> size_t \<Rightarrow> (bool \<times> 'd hash_fs) option" where
  "lseek_fs ops fs digest offset =
     (case mod_reference digest offset (hash_fs_user_block_count fs) of
        None \<Rightarrow> None
      | Some p \<Rightarrow>
          (case do_lseek ops (device fs) (HASH_FS_USER_BLOCK_START * HASH_FS_SECTOR_SIZE + unat p) of
             (ok, d) \<Rightarrow> Some (\<not> ok, fs\<lparr>device := d\<rparr>)))"

definition update_sector :: "nat \<Rightarrow> (loaded_sector \<Rightarrow> loaded_sector) \<Rightarrow> 'd hash_fs \<Rightarrow> 'd hash_fs" where
  "update_sector t f fs = fs\<lparr>sector_table := (sector_table fs)[t := f (sector_table fs ! t)]\<rparr>"

definition hash_fs_cache_load ::
    "'d device_ops \<Rightarrow> 'd hash_fs \<Rightarrow> nat \<Rightarrow> hash_fs_digest \<Rightarrow> size_t \<Rightarrow> (bool \<times> 'd hash_fs) option" where
  "hash_fs_cache_load ops fs t digest offset =
     (case lseek_fs ops fs digest offset of
        None \<Rightarrow> None
      | Some (False, fs1) \<Rightarrow> Some (False, update_sector t (\<lambda>s. s\<lparr>is_loaded := False\<rparr>) fs1)
      | Some (True, fs1) \<Rightarrow>
          (case do_read ops (device fs1) input_size of
             (None, d) \<Rightarrow> Some (False, update_sector t (\<lambda>s. s\<lparr>is_loaded := False\<rparr>) (fs1\<lparr>device := d\<rparr>))
           | (Some bs, d) \<Rightarrow>
               (let fs2 = update_sector t (\<lambda>s. s\<lparr>sector_input := bs @ drop (length bs) (sector_input s)\<rparr>)
                            (fs1\<lparr>device := d\<rparr>)
                in if length bs \<noteq> input_size
                   then Some (False, update_sector t (\<lambda>s. s\<lparr>is_loaded := False\<rparr>) fs2)
                   else Some (True, update_sector t (\<lambda>s. s\<lparr>sector_digest := digest, is_loaded := True\<rparr>) fs2))))"

definition hash_fs_digest_equals :: "hash_fs_digest \<Rightarrow> hash_fs_digest \<Rightarrow> bool" where
  "hash_fs_digest_equals a b \<longleftrightarrow> ints a = ints b \<and> type_index a = type_index b"

text \<open>The results are whether the access succeeded, and the sector that stays locked, if any.\<close>

definition hash_fs_cache_access ::
    "'d device_ops \<Rightarrow> 'd hash_fs \<Rightarrow> hash_fs_digest \<Rightarrow> size_t \<Rightarrow> (bool \<times> nat option \<times> 'd hash_fs) option" where
  "hash_fs_cache_access ops fs digest offset =
     (case mod_reference digest offset (word_of_nat (length (sector_table fs))) of
        None \<Rightarrow> None
      | Some p \<Rightarrow>
          (let t = unat p; s = sector_table fs ! t
           in if mutex_locked s then None
              else let fs1 = update_sector t (\<lambda>s. s\<lparr>mutex_locked := True\<rparr>) fs
                   in if is_loaded s then
                        (if hash_fs_digest_equals (sector_digest s) digest then Some (True, Some t, fs1)
                         else Some (True, None, update_sector t (\<lambda>s. s\<lparr>mutex_locked := False\<rparr>) fs1))
                      else (case hash_fs_cache_load ops fs1 t digest offset of
                              None \<Rightarrow> None
                            | Some (False, fs2) \<Rightarrow>
                                Some (False, None, update_sector t (\<lambda>s. s\<lparr>mutex_locked := False\<rparr>) fs2)
                            | Some (True, fs2) \<Rightarrow> Some (True, Some t, fs2))))"

section \<open>Positions are sums modulo\<close>

lemma mod_add_nat:
  assumes "a < m" and "b < m"
  shows "unat (mod_add a b m) = (unat a + unat b) mod unat m"
proof -
  have le: "unat a < unat m" "unat b < unat m" using assms by (simp_all add: word_less_nat_alt)
  then have neg: "unat (m - a) = unat m - unat a" using assms(1) by (simp add: unat_sub order_less_imp_le)
  show ?thesis
  proof (cases "b \<ge> m - a")
    case True
    then have ge: "unat m - unat a \<le> unat b" using neg by (simp add: word_le_nat_alt)
    have "unat (mod_add a b m) = unat b - (unat m - unat a)"
      using True neg by (simp add: mod_add_def unat_sub)
    also have "\<dots> = unat a + unat b - unat m" using ge le by simp
    also have "\<dots> = (unat a + unat b) mod unat m" using ge le by (simp add: le_mod_geq)
    finally show ?thesis .
  next
    case False
    then have lt: "unat a + unat b < unat m" using neg le by (simp add: word_le_nat_alt)
    then have "unat a + unat b < 2 ^ LENGTH(64)" by (rule less_trans) (rule unsigned_less)
    then have "unat (a + b) = unat a + unat b" by (simp add: unat_word_ariths)
    then show ?thesis using False lt by (simp add: mod_add_def)
  qed
qed

lemma mod_add_less:
  assumes "a < m" and "b < m"
  shows "mod_add a b m < m"
proof -
  have "0 < unat m" using assms(1) by (simp add: word_less_nat_alt)
  then show ?thesis using mod_add_nat [OF assms] by (simp add: word_less_nat_alt)
qed

lemma mod_less_word: "m \<noteq> 0 \<Longrightarrow> i mod m < (m :: size_t)"
  by (simp add: word_less_nat_alt unat_mod unat_gt_0)

lemma fold_mod_add:
  assumes "point < m"
  shows "unat (fold (\<lambda>i point. mod_add point (i mod m) m) xs point)
    = (unat point + sum_list (map unat xs)) mod unat m"
  using assms
proof (induction xs arbitrary: point)
  case Nil
  then have "unat point < unat m" by (simp add: word_less_nat_alt)
  then show ?case by simp
next
  case (Cons i xs)
  have "m \<noteq> 0" using Cons.prems by auto
  then have i: "i mod m < m" by (rule mod_less_word)
  have "unat (mod_add point (i mod m) m) = (unat point + unat i) mod unat m"
    using mod_add_nat [OF Cons.prems i] by (simp add: unat_mod mod_simps)
  then show ?case
    using Cons.IH [OF mod_add_less [OF Cons.prems i]] by (simp add: mod_simps add.assoc)
qed

section \<open>The seek\<close>

text \<open>
  The result of \<open>lseek\<close> is compared with the error code, but used as success: on a device on
  which every seek succeeds no sector is ever loaded.
\<close>

lemma hash_fs_never_loads:
  assumes "\<forall>d n. fst (do_lseek ops d n)"
  shows "case hash_fs_cache_load ops fs t digest offset of None \<Rightarrow> True | Some (ok, fs') \<Rightarrow> \<not> ok"
proof (cases "mod_reference digest offset (hash_fs_user_block_count fs)")
  case (Some p)
  obtain d where "do_lseek ops (device fs) (HASH_FS_USER_BLOCK_START * HASH_FS_SECTOR_SIZE + unat p) = (True, d)"
    using assms by (metis prod.collapse)
  then show ?thesis using Some by (simp add: hash_fs_cache_load_def lseek_fs_def)
qed (simp add: hash_fs_cache_load_def lseek_fs_def)

section \<open>Properties\<close>

text \<open>The position of a sector, computed with additions that never exceed 64 bits, is the sum
  of the offset and of the eight integers of the digest modulo the number of sectors, as
  natural numbers; so it lies in the table.\<close>

theorem mod_reference_sum:
  assumes "m \<noteq> 0"
  shows "\<exists>p. mod_reference digest offset m = Some p \<and>
    unat p = (unat offset + sum_list (map unat (ints digest))) mod unat m \<and> p < m"
proof -
  let ?p = "fold (\<lambda>i point. mod_add point (i mod m) m) (ints digest) (offset mod m)"
  have "unat ?p = (unat offset + sum_list (map unat (ints digest))) mod unat m"
    using fold_mod_add [OF mod_less_word [OF assms], of "ints digest" offset] by (simp add: unat_mod mod_simps)
  moreover from this have "?p < m" using assms by (simp add: word_less_nat_alt unat_gt_0)
  ultimately show ?thesis using assms by (simp add: mod_reference_def)
qed

theorem mod_reference_sum_witness:
  "\<exists>p. mod_reference \<lparr>ints = [2 ^ 63, 2 ^ 63, 5], type_index = 0\<rparr> 4 7 = Some p \<and>
    unat p = (unat (4 :: size_t) + sum_list (map unat (ints \<lparr>ints = [2 ^ 63, 2 ^ 63, 5], type_index = 0\<rparr>)))
      mod unat (7 :: size_t) \<and> p < 7"
  by (rule mod_reference_sum) simp

end
