(* ===== verification/Getline.thy ===== *)
theory Getline
  imports BufferIo
begin

text \<open>
  Reading a descriptor line by line (\<open>buffer_getline_fd\<close> of \<open>src/buffer_io/buffer_io.c\<close>).
  The two pointers of a line are offsets in the buffer; \<open>None\<close> is the null pointer. The
  separator is searched with \<open>strstr\<close>, so it is looked for up to the next null byte.
\<close>

section \<open>strstr\<close>

fun find_sub :: "bytes \<Rightarrow> bytes \<Rightarrow> nat option" where
  "find_sub sep [] = (if sep = [] then Some 0 else None)"
| "find_sub sep (c # cs) =
     (if take (length sep) (c # cs) = sep then Some 0 else map_option Suc (find_sub sep cs))"

text \<open>\<open>None\<close>: there is no null byte in the memory from the point on.\<close>

definition strstr_at :: "bytes \<Rightarrow> nat \<Rightarrow> bytes \<Rightarrow> nat option option" where
  "strstr_at m pos sep =
     map_option (\<lambda>s. map_option (\<lambda>i. pos + i) (find_sub sep s)) (c_string (drop pos m))"

section \<open>buffer_getline_fd\<close>

record text_line =
  line_begin :: nat
  line_end :: "nat option"

definition text_line_zero :: text_line where
  "text_line_zero = \<lparr>line_begin = 0, line_end = None\<rparr>"

text \<open>\<open>None\<close> is a negative size of the part to delete.\<close>

definition buffer_downshift_protect :: "nat \<Rightarrow> buffer \<Rightarrow> nat \<Rightarrow> buffer option" where
  "buffer_downshift_protect protect_size b new_begin =
     (if protect_size \<ge> used b then Some b
      else if new_begin \<ge> used b then Some (b\<lparr>used := protect_size\<rparr>)
      else if new_begin < protect_size then None
      else let shift = take (used b - new_begin) (drop new_begin (mem b))
           in map_option (\<lambda>b'. b'\<lparr>used := used b - (new_begin - protect_size)\<rparr>)
                (mem_write b protect_size shift))"

text \<open>The conversion of the \<open>long\<close> that \<open>buffer_read\<close> returns to \<open>int\<close>.\<close>

definition int_of_long :: "int \<Rightarrow> int" where
  "int_of_long r = sint (word_of_int r :: 32 word)"

lemma buffer_read_result:
  "buffer_read al b m i fd = Some (r, b', fd') \<Longrightarrow> - 1 \<le> r"
  by (auto simp: buffer_read_def Let_def split: if_splits option.splits prod.splits)

lemma int_of_long_pos: "0 < int_of_long r \<Longrightarrow> - 1 \<le> r \<Longrightarrow> 0 < r"
proof (rule ccontr)
  assume a: "0 < int_of_long r" "- 1 \<le> r" "\<not> 0 < r"
  then have "r = 0 \<or> r = - 1" by auto
  then show False using a(1) by (auto simp: int_of_long_def)
qed

text \<open>
  The label \<open>readnew\<close>: whether a separator was found, the end of the line as it is then, the
  buffer and the descriptor. \<open>None\<close> is a read out of bounds, a failing assertion or a
  failing allocation.
\<close>

function getline_readnew ::
    "allocator \<Rightarrow> bytes \<Rightarrow> nat \<Rightarrow> nat \<Rightarrow> nat \<Rightarrow> nat option \<Rightarrow> buffer \<Rightarrow> read_fd
       \<Rightarrow> (bool \<times> nat option \<times> buffer \<times> read_fd) option" where
  "getline_readnew al sep protect_size m i e b fd =
     (case buffer_read al b m i fd of
        None \<Rightarrow> None
      | Some (r, b', fd') \<Rightarrow>
          if 0 < int_of_long r
          then (case strstr_at (mem b') protect_size sep of
                  None \<Rightarrow> None
                | Some (Some e') \<Rightarrow> if e' < used b' then Some (True, Some e', b', fd') else None
                | Some None \<Rightarrow> getline_readnew al sep protect_size m i None b' fd')
          else Some (False, e, b', fd'))"
  by pat_completeness auto
termination
  by (relation "measure (\<lambda>(al, sep, p, m, i, e, b, fd). (if m \<noteq> 0 then m else size_max - 1) - used b)")
    (use buffer_read_decreases int_of_long_pos [OF _ buffer_read_result]
      in \<open>auto simp only: wf_measure in_measure split_conv\<close>)

declare getline_readnew.simps [simp del]

text \<open>What follows the loop.\<close>

definition getline_readnew_end ::
    "allocator \<Rightarrow> bytes \<Rightarrow> nat \<Rightarrow> nat \<Rightarrow> nat \<Rightarrow> text_line \<Rightarrow> buffer \<Rightarrow> read_fd
       \<Rightarrow> (bool \<times> text_line \<times> buffer \<times> read_fd) option" where
  "getline_readnew_end al sep protect_size m i line b fd =
     (case getline_readnew al sep protect_size m i (line_end line) b fd of
        None \<Rightarrow> None
      | Some (True, e, b', fd') \<Rightarrow> Some (True, \<lparr>line_begin = protect_size, line_end = e\<rparr>, b', fd')
      | Some (False, e, b', fd') \<Rightarrow>
          if used b' \<le> protect_size then Some (False, line\<lparr>line_end := e\<rparr>, b', fd')
          else Some (True, \<lparr>line_begin = protect_size, line_end = Some (used b')\<rparr>, b', fd'))"

definition buffer_getline_fd ::
    "allocator \<Rightarrow> bytes option \<Rightarrow> nat \<Rightarrow> bool \<Rightarrow> nat \<Rightarrow> nat \<Rightarrow> text_line \<Rightarrow> buffer \<Rightarrow> read_fd
       \<Rightarrow> (bool \<times> text_line \<times> buffer \<times> read_fd) option" where
  "buffer_getline_fd al sep_arg protect_size init m i line b fd =
     (let sep = (case sep_arg of None \<Rightarrow> [10] | Some s \<Rightarrow> s);
          readnew = \<lambda>l b'. getline_readnew_end al sep protect_size m i l b' fd
      in if used b \<le> protect_size then readnew line b
         else if init then
           (case strstr_at (mem b) protect_size sep of
              None \<Rightarrow> None
            | Some (Some e) \<Rightarrow> Some (True, \<lparr>line_begin = protect_size, line_end = Some e\<rparr>, b, fd)
            | Some None \<Rightarrow> readnew \<lparr>line_begin = protect_size, line_end = None\<rparr> b)
         else
           (case line_end line of
              None \<Rightarrow> None
            | Some e \<Rightarrow>
                (let next = e + length sep
                 in if next > used b then Some (False, line\<lparr>line_begin := next\<rparr>, b, fd)
                    else case strstr_at (mem b) next sep of
                           None \<Rightarrow> None
                         | Some (Some e') \<Rightarrow>
                             if e' < used b
                             then Some (True, \<lparr>line_begin = next, line_end = Some e'\<rparr>, b, fd) else None
                         | Some None \<Rightarrow>
                             (case buffer_downshift_protect protect_size b next of
                                None \<Rightarrow> None
                              | Some b' \<Rightarrow> readnew (line\<lparr>line_begin := next\<rparr>) b'))))"

text \<open>\<open>buffer_getline_end\<close>: dropping the current line.\<close>

definition buffer_getline_end :: "nat \<Rightarrow> bytes \<Rightarrow> text_line \<Rightarrow> buffer \<Rightarrow> buffer option" where
  "buffer_getline_end protect_size sep line b =
     (case line_end line of
        None \<Rightarrow> None
      | Some e \<Rightarrow> buffer_downshift_protect protect_size b (e + length sep))"

section \<open>Searching\<close>

lemma find_sub_byte:
  "find_sub [c] s = (if c \<in> set s then Some (length (takeWhile (\<lambda>x. x \<noteq> c) s)) else None)"
  by (induction s) auto

lemma c_string_contents:
  assumes "terminated b" and "pos \<le> used b" and "0 \<notin> set (drop pos (contents b))"
  shows "c_string (drop pos (mem b)) = Some (drop pos (contents b))"
proof -
  have u: "used b < length (mem b)" "mem b ! used b = 0" using assms(1) by (simp_all add: terminated_def)
  have "drop pos (mem b) = drop pos (contents b) @ 0 # drop (Suc (used b)) (mem b)"
    using id_take_nth_drop [OF u(1)] u assms(2)
    by (metis append_take_drop_id contents_def Cons_nth_drop_Suc drop_append diff_is_0_eq drop0 length_contents
        length_take less_imp_le min.absorb2)
  moreover have "takeWhile (\<lambda>c. c \<noteq> 0) (drop pos (contents b)) = drop pos (contents b)"
    using assms(3) by (auto simp: takeWhile_eq_all_conv)
  ultimately show ?thesis by (simp add: c_string_def takeWhile_tail)
qed

lemma strstr_at_contents:
  assumes "terminated b" and "pos \<le> used b" and "0 \<notin> set (drop pos (contents b))"
  shows "strstr_at (mem b) pos [c] =
    Some (if c \<in> set (drop pos (contents b))
          then Some (pos + length (takeWhile (\<lambda>x. x \<noteq> c) (drop pos (contents b)))) else None)"
  using c_string_contents [OF assms] by (simp add: strstr_at_def find_sub_byte)

lemma length_takeWhile_in: "c \<in> set s \<Longrightarrow> length (takeWhile (\<lambda>x. x \<noteq> c) s) < length s"
  by (metis (mono_tags, lifting) length_takeWhile_eq_iff length_takeWhile_le le_neq_implies_less)

section \<open>Reading all lines\<close>

text \<open>
  The text that is still to be delivered, for a client that protects nothing, never passes
  \<open>init\<close>, and uses the default separator: the state before the first line, between lines,
  and after a last line without a separator.
\<close>

definition lines_left :: "allocator \<Rightarrow> text_line \<Rightarrow> buffer \<Rightarrow> read_fd \<Rightarrow> bytes \<Rightarrow> bool" where
  "lines_left al line b fd text_left \<longleftrightarrow>
     fd_clean fd \<and> 0 \<notin> set text_left \<and> length (fd_data fd) < 2 ^ 31 \<and> io_room al b (length (fd_data fd)) 0 \<and>
     (used b = 0 \<and> text_left = fd_data fd \<or>
      terminated b \<and> 0 < used b \<and>
      (\<exists>e. line_end line = Some e \<and>
         (e < used b \<and> text_left = drop (Suc e) (contents b) @ fd_data fd \<or>
          e = used b \<and> text_left = [])))"

lemma lines_left_start:
  assumes "fd_clean fd" and "0 \<notin> set (fd_data fd)" and "length (fd_data fd) < 2 ^ 31"
    and "\<forall>m < 2 ^ 63. can_alloc al m"
  shows "lines_left al line buffer_zero fd (fd_data fd)"
  using assms by (simp add: lines_left_def io_room_def buffer_zero_def buffer_wf_def)

text \<open>The first line of a text and what follows it.\<close>

definition first_line :: "bytes \<Rightarrow> bytes" where
  "first_line s = takeWhile (\<lambda>x. x \<noteq> 10) s"

definition after_line :: "bytes \<Rightarrow> bytes" where
  "after_line s = tl (dropWhile (\<lambda>x. x \<noteq> 10) s)"

lemma after_line_found: "10 \<in> set s \<Longrightarrow> after_line (s @ t) = drop (Suc (length (first_line s))) s @ t"
proof -
  assume "10 \<in> set s"
  then have "dropWhile (\<lambda>x. x \<noteq> 10) s \<noteq> []" by (auto simp: dropWhile_eq_Nil_conv)
  then show ?thesis using \<open>10 \<in> set s\<close>
    by (simp add: after_line_def first_line_def dropWhile_append dropWhile_eq_drop drop_Suc tl_drop)
qed

lemma first_line_found: "10 \<in> set s \<Longrightarrow> first_line (s @ t) = first_line s"
  by (auto simp: first_line_def takeWhile_append1)

lemma first_line_all: "10 \<notin> set s \<Longrightarrow> first_line s = s \<and> after_line s = []"
  proof -
  assume "10 \<notin> set s"
  then have "dropWhile (\<lambda>x. x \<noteq> 10) s = []" by (auto simp: dropWhile_eq_Nil_conv)
  then have "after_line s = []" by (simp only: after_line_def list.sel)
  then show ?thesis using \<open>10 \<notin> set s\<close> by (auto simp: first_line_def takeWhile_eq_all_conv)
qed

text \<open>A result that delivers the next line.\<close>

definition delivers :: "allocator \<Rightarrow> bytes \<Rightarrow> bool \<times> text_line \<times> buffer \<times> read_fd \<Rightarrow> bool" where
  "delivers al text_left res \<longleftrightarrow>
     (case res of (found, line, b, fd) \<Rightarrow>
        if text_left = [] then \<not> found
        else found \<and> lines_left al line b fd (after_line text_left) \<and>
             (\<exists>e. line_end line = Some e \<and> line_begin line \<le> e \<and> e \<le> used b \<and> terminated b \<and>
                take (e - line_begin line) (drop (line_begin line) (contents b)) = first_line text_left))"

text \<open>From the label \<open>readnew\<close> on: what is in the buffer has no separator yet.\<close>

lemma getline_readnew_end_delivers:
  assumes "io_room al b (length (fd_data fd)) 0" and "fd_clean fd" and "length (fd_data fd) < 2 ^ 31"
    and "0 \<notin> set (contents b @ fd_data fd)" and "10 \<notin> set (contents b)"
    and "contents b @ fd_data fd = [] \<longrightarrow> used b = 0"
  shows "\<exists>res. getline_readnew_end al [10] 0 0 0 line b fd = Some res \<and> delivers al (contents b @ fd_data fd) res"
  using assms
proof (induction "length (fd_data fd)" arbitrary: b fd line rule: less_induct)
  case less
  obtain bs b' fd' where r: "buffer_read al b 0 0 fd = Some (int (length bs), b', fd')"
      "contents b' = contents b @ bs" "fd_data fd = bs @ fd_data fd'" "fd_clean fd'"
      "io_room al b' (length (fd_data fd) - length bs) 0" "bs = [] \<longrightarrow> fd_data fd = []"
    using buffer_read_clean [OF less.prems(1,2), of 0] by auto
  have t: "terminated b'" using buffer_read_terminated [OF r(1)] by simp
  have wf: "buffer_wf b'" using r(5) by (simp add: io_room_def)
  have lb: "length (contents b') = used b'" using length_contents [OF wf] .
  have "length bs < 2 ^ 31" using less.prems(3) r(3) by simp
  then have il: "int_of_long (int (length bs)) = int (length bs)"
    unfolding int_of_long_def sint_sbintrunc' by (simp add: signed_take_bit_int_eq_self)
  have room': "io_room al b' (length (fd_data fd')) 0" using r(3,5) by simp
  show ?case
  proof (cases "bs = []")
    case True
    then have n: "getline_readnew al [10] 0 0 0 e b fd = Some (False, e, b', fd')" for e
      using r(1) by (simp add: getline_readnew.simps [of al "[10]"] int_of_long_def)
    have e: "contents b @ fd_data fd = contents b'" "fd_data fd' = []" using True r(2,3,6) by simp_all
    show ?thesis
    proof (cases "used b' = 0")
      case True
      then show ?thesis unfolding e(1) using lb by (simp add: getline_readnew_end_def n delivers_def)
    next
      case False
      then have ne: "contents b' \<noteq> []" using lb by auto
      have "10 \<notin> set (contents b')" using less.prems(5) True r(2) by simp
      note f = first_line_all [OF this]
      have "lines_left al \<lparr>line_begin = 0, line_end = Some (used b')\<rparr> b' fd' []"
        using t False room' r(4) e(2) by (simp add: lines_left_def)
      then show ?thesis unfolding e(1)
        using False ne f t lb by (simp add: getline_readnew_end_def n delivers_def)
    qed
  next
    case False
    have z: "0 \<notin> set (drop 0 (contents b'))" using less.prems(4) r(2,3) by auto
    note s = strstr_at_contents [OF t le0 z, of 10, unfolded drop0]
    have ct: "contents b @ fd_data fd = contents b' @ fd_data fd'" using r(2,3) by simp
    have ne: "contents b' \<noteq> []" using r(2) False by simp
    show ?thesis
    proof (cases "10 \<in> set (contents b')")
      case True
      let ?e = "length (first_line (contents b'))"
      have lt: "?e < used b'" using length_takeWhile_in [OF True] lb by (simp add: first_line_def)
      have n: "getline_readnew al [10] 0 0 0 e b fd = Some (True, Some ?e, b', fd')" for e
        using r(1) False il s True lt by (simp add: getline_readnew.simps [of al "[10]"] first_line_def)
      let ?l = "\<lparr>line_begin = 0, line_end = Some ?e\<rparr>"
      have "lines_left al ?l b' fd' (after_line (contents b' @ fd_data fd'))"
        unfolding after_line_found [OF True]
        using z t lt room' r(4) less.prems(3,4) ct r(3) set_drop_subset [of "Suc ?e" "contents b'"]
        by (auto simp: lines_left_def)
      moreover have "take ?e (contents b') = first_line (contents b')"
        by (metis first_line_def takeWhile_eq_take)
      ultimately have "delivers al (contents b' @ fd_data fd') (True, ?l, b', fd')"
        using ne lt t by (simp add: delivers_def first_line_found [OF True])
      then show ?thesis unfolding ct by (simp add: getline_readnew_end_def n)
    next
      case nf: False
      have step: "getline_readnew al [10] 0 0 0 e b fd = getline_readnew al [10] 0 0 0 None b' fd'" for e
        using r(1) False il s nf by (simp add: getline_readnew.simps [of al "[10]"])
      have "length (fd_data fd') < length (fd_data fd)" using r(3) False by simp
      moreover have "length (fd_data fd') < 2 ^ 31" using less.prems(3) r(3) by simp
      moreover have "0 \<notin> set (contents b' @ fd_data fd')" using less.prems(4) ct by metis
      ultimately obtain res where res: "getline_readnew_end al [10] 0 0 0 (line\<lparr>line_end := None\<rparr>) b' fd' = Some res"
          "delivers al (contents b' @ fd_data fd') res"
        using less.hyps [of fd' b' "line\<lparr>line_end := None\<rparr>"] room' r(4) nf ne by auto
      have "getline_readnew_end al [10] 0 0 0 line b fd =
          getline_readnew_end al [10] 0 0 0 (line\<lparr>line_end := None\<rparr>) b' fd'"
        unfolding getline_readnew_end_def step by (auto split: option.splits prod.splits bool.splits)
      then show ?thesis unfolding ct using res by simp
    qed
  qed
qed

text \<open>Dropping what was delivered.\<close>

lemma downshift_contents:
  assumes "buffer_wf b" and "0 < used b" and "next \<le> used b"
  shows "\<exists>b'. buffer_downshift_protect 0 b next = Some b' \<and> contents b' = drop next (contents b) \<and>
    buffer_wf b' \<and> used b' = used b - next"
proof (cases "next = used b")
  case True
  then show ?thesis using assms by (simp add: buffer_downshift_protect_def contents_def buffer_wf_def)
next
  case False
  have len: "used b \<le> length (mem b)" using assms(1) by (simp add: buffer_wf_def)
  let ?s = "take (used b - next) (drop next (mem b))"
  have "0 + length ?s \<le> length (mem b)" using len assms(3) by simp
  from mem_write_Some [OF this] obtain b2 where b2: "mem_write b 0 ?s = Some b2" "length (mem b2) = length (mem b)"
      "take (0 + length ?s) (mem b2) = take 0 (mem b) @ ?s" by blast
  have ls: "length ?s = used b - next" using len by simp
  have "take (used b - next) (mem b2) = ?s" using b2(3) unfolding ls by simp
  also have "\<dots> = drop next (contents b)" by (simp add: contents_def drop_take)
  finally have "contents (b2\<lparr>used := used b - next\<rparr>) = drop next (contents b)" by (simp add: contents_def)
  moreover have "buffer_downshift_protect 0 b next = Some (b2\<lparr>used := used b - next\<rparr>)"
    using False assms(2,3) b2(1) by (simp add: buffer_downshift_protect_def Let_def)
  ultimately show ?thesis using len b2(2) by (simp add: buffer_wf_def)
qed

text \<open>One call delivers the first line of the text that is left, and leaves the rest.\<close>

lemma buffer_getline_fd_delivers:
  assumes "lines_left al line b fd text_left"
  shows "\<exists>res. buffer_getline_fd al None 0 False 0 0 line b fd = Some res \<and> delivers al text_left res"
proof -
  have c: "fd_clean fd" "0 \<notin> set text_left" "length (fd_data fd) < 2 ^ 31" "io_room al b (length (fd_data fd)) 0"
    using assms by (simp_all add: lines_left_def)
  have wf: "buffer_wf b" using c(4) by (simp add: io_room_def)
  show ?thesis
  proof (cases "used b = 0")
    case True
    then have cb: "contents b = []" by (simp add: contents_def)
    have tl: "text_left = fd_data fd" using assms True by (auto simp: lines_left_def)
    then have "0 \<notin> set (contents b @ fd_data fd)" using c(2) cb by simp
    from getline_readnew_end_delivers [OF c(4,1,3) this] cb True tl show ?thesis
      by (auto simp: buffer_getline_fd_def Let_def)
  next
    case False
    then obtain e where e: "terminated b" "line_end line = Some e"
        "e < used b \<and> text_left = drop (Suc e) (contents b) @ fd_data fd \<or> e = used b \<and> text_left = []"
      using assms by (auto simp: lines_left_def)
    show ?thesis
    proof (cases "e < used b")
      case False
      then show ?thesis using e \<open>used b \<noteq> 0\<close> by (simp add: buffer_getline_fd_def Let_def delivers_def)
    next
      case lt: True
      define s where "s = drop (Suc e) (contents b)"
      have tl: "text_left = s @ fd_data fd" using lt e(3) by (auto simp: s_def)
      have z: "0 \<notin> set (drop (Suc e) (contents b))" using c(2) tl by (simp add: s_def)
      have le: "Suc e \<le> used b" using lt by simp
      have lens: "length s = used b - Suc e" using length_contents [OF wf] by (simp add: s_def)
      note st = strstr_at_contents [OF e(1) le z, of 10, folded s_def first_line_def]
      show ?thesis
      proof (cases "10 \<in> set s")
        case True
        let ?e = "Suc e + length (first_line s)"
        have lt': "?e < used b" using length_takeWhile_in [OF True] lens by (simp add: first_line_def)
        let ?l = "\<lparr>line_begin = Suc e, line_end = Some ?e\<rparr>"
        have g: "buffer_getline_fd al None 0 False 0 0 line b fd = Some (True, ?l, b, fd)"
          using \<open>used b \<noteq> 0\<close> le e(2) st True lt' by (simp add: buffer_getline_fd_def Let_def)
        have "drop (Suc ?e) (contents b) = drop (Suc (length (first_line s))) s"
          by (simp add: s_def add.commute)
        then have "lines_left al ?l b fd (after_line text_left)"
          unfolding tl after_line_found [OF True]
          using c(1-4) tl e(1) \<open>used b \<noteq> 0\<close> lt' set_drop_subset [of "Suc (length (first_line s))" s]
          by (auto simp: lines_left_def)
        moreover have "take (length (first_line s)) s = first_line s"
          by (metis first_line_def takeWhile_eq_take)
        ultimately show ?thesis
          using g tl True e(1) lt' first_line_found [OF True, of "fd_data fd"] by (auto simp: delivers_def s_def)
      next
        case nf: False
        obtain b' where b': "buffer_downshift_protect 0 b (Suc e) = Some b'" "contents b' = s" "buffer_wf b'"
            "used b' = used b - Suc e"
          using downshift_contents [OF wf _ le] \<open>used b \<noteq> 0\<close> by (auto simp: s_def)
        have r: "io_room al b' (length (fd_data fd)) 0" using c(4) b'(3,4) unfolding io_room_def by (simp, linarith)
        have "buffer_getline_fd al None 0 False 0 0 line b fd =
            getline_readnew_end al [10] 0 0 0 (line\<lparr>line_begin := Suc e\<rparr>) b' fd"
          using \<open>used b \<noteq> 0\<close> le e(2) st nf b'(1) by (simp add: buffer_getline_fd_def Let_def)
        moreover have "contents b' @ fd_data fd = [] \<longrightarrow> used b' = 0" using b'(2,4) lens by auto
        ultimately show ?thesis
          using getline_readnew_end_delivers [OF r c(1,3), of "line\<lparr>line_begin := Suc e\<rparr>"] c(2) nf b'(2) tl by auto
      qed
    qed
  qed
qed

text \<open>The client may overwrite the line and its separator.\<close>

lemma lines_left_overwrite:
  assumes "lines_left al line b fd text_left" and "line_end line = Some e"
    and "length m = length (mem b)" and "drop (Suc e) m = drop (Suc e) (mem b)"
    and "m ! e = 0" and "used b \<noteq> 0"
  shows "lines_left al line (b\<lparr>mem := m\<rparr>) fd text_left"
proof -
  have "drop (Suc e) (contents (b\<lparr>mem := m\<rparr>)) = drop (Suc e) (contents b)"
    using assms(4) by (simp add: contents_def drop_take)
  moreover have "terminated b \<Longrightarrow> e \<le> used b \<Longrightarrow> terminated (b\<lparr>mem := m\<rparr>)"
  proof -
    assume t: "terminated b" and le: "e \<le> used b"
    show ?thesis
    proof (cases "e = used b")
      case False
      then have "Suc e \<le> used b" using le by simp
      then have "m ! used b = mem b ! used b"
        using arg_cong [OF assms(4), of "\<lambda>l. l ! (used b - Suc e)"] assms(3) t by (simp add: terminated_def)
      then show ?thesis using t assms(3) by (simp add: terminated_def)
    qed (use t assms(3,5) in \<open>simp add: terminated_def\<close>)
  qed
  ultimately show ?thesis
    using assms(1-3,6) by (auto simp: lines_left_def io_room_def buffer_wf_def)
qed

text \<open>A line ends at a separator or at the end of the contents.\<close>

lemma find_sub_nth: "find_sub [c] s = Some i \<Longrightarrow> i < length s \<and> s ! i = c"
  by (induction s arbitrary: i) (auto split: if_splits)

lemma strstr_at_nth:
  assumes "strstr_at m pos [c] = Some (Some e)"
  shows "pos \<le> e \<and> e < length m \<and> m ! e = c"
proof -
  obtain s i where s: "c_string (drop pos m) = Some s" "find_sub [c] s = Some i" "e = pos + i"
    using assms by (auto simp: strstr_at_def)
  have "s = takeWhile (\<lambda>c. c \<noteq> 0) (drop pos m)" using s(1) by (simp add: c_string_def split: if_splits)
  then obtain t where t: "drop pos m = s @ t" by (metis takeWhile_dropWhile_id)
  have i: "i < length s" "s ! i = c" using find_sub_nth [OF s(2)] by simp_all
  have "i < length (drop pos m)" "drop pos m ! i = c" using i by (simp_all add: t nth_append)
  then show ?thesis using s(3) by simp
qed

lemma getline_readnew_separator:
  "getline_readnew al [c] p m i e b fd = Some (True, Some e', b', fd') \<Longrightarrow> e' < used b' \<and> mem b' ! e' = c"
proof (induction al "[c]" p m i e b fd rule: getline_readnew.induct)
  case (1 al p m i e b fd)
  from 1(2) show ?case
    by (subst (asm) getline_readnew.simps)
      (auto split: option.splits prod.splits if_splits dest: strstr_at_nth 1(1) [OF _ refl refl _ _ refl])
qed

lemma getline_separator:
  assumes "buffer_getline_fd al None 0 False 0 0 line b fd = Some (True, line', b', fd')"
    and "line_end line' = Some e"
  shows "e = used b' \<or> e < used b' \<and> mem b' ! e = 10"
proof -
  have "e = used b' \<or> e < used b' \<and> mem b' ! e = 10"
    if "getline_readnew_end al [10] 0 0 0 l b0 fd = Some (True, line', b', fd')" for l b0
    using that assms(2)
    by (auto simp: getline_readnew_end_def split: option.splits prod.splits bool.splits if_splits
        dest!: getline_readnew_separator)
  then show ?thesis
    using assms
    by (auto simp: buffer_getline_fd_def Let_def split: option.splits if_splits dest!: strstr_at_nth)
qed

end
