(* ===== verification/PkgLog.thy ===== *)
theory PkgLog
  imports Getline Table Path
begin

text \<open>
  The log of a package root, which says what package owns a path (\<open>src/pkg/pkg-root.c\<close>,
  \<open>src/pkg/internal.h\<close>): writing it, and reading it line by line. The table of the log is the
  one of \<open>table2\<close>, a directory that the repository does not have; it is a parameter here, with
  the contract that the table of \<open>src/table\<close> fulfils.
\<close>

section \<open>The table of the log\<close>

text \<open>
  Items have a key and a \<open>package_name\<close>, \<open>None\<close> for the null pointer. A name points to the key
  of an item, which stays as it is; it is given by the text of that key. \<open>t2_items\<close> is the
  order in which the loops over the table come to the items.
\<close>

record 't table2 =
  t2_zero :: 't
  t2_include :: "'t \<Rightarrow> bytes \<Rightarrow> 't"
  t2_package_name :: "'t \<Rightarrow> bytes \<Rightarrow> bytes option"
  t2_set_package_name :: "'t \<Rightarrow> bytes \<Rightarrow> bytes option \<Rightarrow> 't"
  t2_items :: "'t \<Rightarrow> (bytes \<times> bytes option) list"

text \<open>
  \<open>table_string_include (log, path)->value.package_name = table_string_include (log, name)->query.key\<close>;
  C does not say which of the two is included first.
\<close>

definition set_owner :: "'t table2 \<Rightarrow> 't \<Rightarrow> bytes \<Rightarrow> bytes \<Rightarrow> 't" where
  "set_owner T t path name = t2_set_package_name T (t2_include T (t2_include T t path) name) path (Some name)"

section \<open>Writing the log\<close>

fun dump_log_items :: "write_fd \<Rightarrow> (bytes \<times> bytes option) list \<Rightarrow> bool \<times> write_fd" where
  "dump_log_items fd [] = (True, fd)"
| "dump_log_items fd ((key, None) # its) = dump_log_items fd its"
| "dump_log_items fd ((key, Some name) # its) =
     (case dprintf fd (name @ [32] @ key @ [10]) of
        (False, fd') \<Rightarrow> (False, fd')
      | (True, fd') \<Rightarrow> dump_log_items fd' its)"

definition dump_log_to_fd :: "'t table2 \<Rightarrow> write_fd \<Rightarrow> 't \<Rightarrow> bool \<times> write_fd" where
  "dump_log_to_fd T fd t = dump_log_items fd (t2_items T t)"

section \<open>Reading the log\<close>

text \<open>
  The value of \<open>isspace\<close> is compared with that of a \<open>bool\<close>, so which of its nonzero values the
  C library returns matters; \<open>isp\<close> is that function. The result is the number of skipped
  characters; \<open>None\<close>: there is no null byte.
\<close>

fun skip_isspace_log :: "(byte \<Rightarrow> int) \<Rightarrow> bytes \<Rightarrow> bool \<Rightarrow> nat option" where
  "skip_isspace_log isp [] pred = None"
| "skip_isspace_log isp (c # cs) pred =
     (if c \<noteq> 0 \<and> of_bool pred = isp c then map_option Suc (skip_isspace_log isp cs pred) else Some 0)"

text \<open>
  The memory from the beginning of the line on, with the offsets of name and path. The
  first condition of the code looks at the pointer and not at the character, and is never true.
\<close>

definition parse_log_line :: "(byte \<Rightarrow> int) \<Rightarrow> bytes \<Rightarrow> (bool \<times> nat \<times> nat \<times> bytes) option" where
  "parse_log_line isp m =
     (case skip_isspace_log isp m True of
        None \<Rightarrow> None
      | Some name \<Rightarrow>
          (case skip_isspace_log isp (drop name m) False of
             None \<Rightarrow> None
           | Some k \<Rightarrow>
               (let m' = m[name + k := 0]
                in case skip_isspace_log isp (drop (name + k + 1) m') True of
                     None \<Rightarrow> None
                   | Some j \<Rightarrow>
                       (let path = name + k + 1 + j
                        in Some (name \<noteq> path \<and> m' ! path \<noteq> 0, name, path, m')))))"

partial_function (option) read_log_fd ::
    "allocator \<Rightarrow> (byte \<Rightarrow> int) \<Rightarrow> 't table2 \<Rightarrow> 't \<Rightarrow> text_line \<Rightarrow> buffer \<Rightarrow> read_fd \<Rightarrow> (bool \<times> 't) option" where
  "read_log_fd al isp T t line b fd =
     (case buffer_getline_fd al None 0 False 0 0 line b fd of
        None \<Rightarrow> None
      | Some (found, line', b', fd') \<Rightarrow>
          if \<not> found then Some (True, t)
          else (case line_end line' of
                  None \<Rightarrow> None
                | Some e \<Rightarrow>
                    if e \<ge> length (mem b') then None
                    else (let m = (mem b')[e := 0]; start = line_begin line'
                          in case parse_log_line isp (drop start m) of
                               None \<Rightarrow> None
                             | Some (ok, name, path, m') \<Rightarrow>
                                 if \<not> ok then Some (False, t)
                                 else (case (c_string (drop name m'), c_string (drop path m')) of
                                         (Some n, Some p) \<Rightarrow>
                                           read_log_fd al isp T (set_owner T t p n) line'
                                             (b'\<lparr>mem := take start m @ m'\<rparr>) fd'
                                       | _ \<Rightarrow> None))))"

section \<open>The contract\<close>

locale pkg_log = string_table "t2_zero T" "\<lambda>t. map_of (t2_items T t)" "t2_include T" "t2_set_package_name T"
    count inv "None :: bytes option" limit
  for T :: "'t table2" and count :: "'t \<Rightarrow> nat" and inv :: "'t \<Rightarrow> bool" and limit :: nat +
  assumes name_law: "inv t \<Longrightarrow> map_of (t2_items T t) k = Some v \<Longrightarrow> t2_package_name T t k = v"
    and items_law: "inv t \<Longrightarrow> distinct (map fst (t2_items T t))"

text \<open>What the log says of the owner of a path.\<close>

definition owner :: "'t table2 \<Rightarrow> 't \<Rightarrow> bytes \<Rightarrow> bytes option" where
  "owner T t p = (case map_of (t2_items T t) p of Some (Some n) \<Rightarrow> Some n | _ \<Rightarrow> None)"

context pkg_log
begin

lemma set_owner_spec:
  assumes "inv t" and "count t + 2 \<le> limit"
  shows "inv (set_owner T t p n) \<and> count (set_owner T t p n) \<le> count t + 2 \<and>
    owner T (set_owner T t p n) = (owner T t)(p \<mapsto> n)"
proof -
  let ?v = "\<lambda>t. map_of (t2_items T t)"
  let ?t1 = "t2_include T t p" and ?t2 = "t2_include T (t2_include T t p) n"
  have "count t < limit" using assms(2) by simp
  from include_law [OF assms(1) this, of p] have 1: "inv ?t1" "count ?t1 \<le> count t + 1"
    "?v ?t1 = (if ?v t p = None then (?v t)(p \<mapsto> None) else ?v t)" by simp_all
  have "count ?t1 < limit" using 1(2) assms(2) by simp
  from include_law [OF 1(1) this, of n] have 2: "inv ?t2" "count ?t2 \<le> count ?t1 + 1"
    "?v ?t2 = (if ?v ?t1 n = None then (?v ?t1)(n \<mapsto> None) else ?v ?t1)" by simp_all
  have "?v ?t2 p \<noteq> None" unfolding 2(3) 1(3) by auto
  from set_law [OF 2(1) this, of "Some n"] have 3: "inv (set_owner T t p n)" "count (set_owner T t p n) = count ?t2"
    "?v (set_owner T t p n) = (?v ?t2)(p \<mapsto> Some n)" by (simp_all add: set_owner_def)
  have "owner T (set_owner T t p n) k = ((owner T t)(p \<mapsto> n)) k" for k
    unfolding owner_def 3(3) 2(3) 1(3) fun_upd_apply by (auto split: option.splits)
  then show ?thesis using 1(2) 2(2) 3(1,2) by auto
qed

text \<open>Storing entries one after the other.\<close>

lemma set_owners_spec:
  "inv t \<Longrightarrow> count t + 2 * length es \<le> limit \<Longrightarrow>
     inv (fold (\<lambda>(p, n) t. set_owner T t p n) es t) \<and>
     owner T (fold (\<lambda>(p, n) t. set_owner T t p n) es t) = owner T t ++ map_of (rev es)"
proof (induction es arbitrary: t)
  case (Cons e es)
  obtain p n where e: "e = (p, n)" by (cases e)
  have "count t + 2 \<le> limit" using Cons.prems(2) by simp
  note s = set_owner_spec [OF Cons.prems(1) this, of p n]
  have s3: "owner T (set_owner T t p n) = (owner T t)(p \<mapsto> n)" using s by (elim conjE)
  have "count (set_owner T t p n) + 2 * length es \<le> limit" using s Cons.prems(2) by (auto simp: e)
  note IH = Cons.IH [OF s [THEN conjunct1] this]
  have "owner T (fold (\<lambda>(p, n) t. set_owner T t p n) (e # es) t) = (owner T t)(p \<mapsto> n) ++ map_of (rev es)"
    using IH unfolding s3 by (simp only: e fold_simps comp_def prod.case)
  also have "\<dots> = owner T t ++ map_of (rev (e # es))" by (simp add: e)
  finally show ?case using IH by (simp add: e)
qed simp

end

text \<open>The table of \<open>src/table\<close> fulfils the contract.\<close>

definition src_table :: "bytes option table table2" where
  "src_table =
     \<lparr>t2_zero = table_zero, t2_include = \<lambda>t k. fst (table_string_include None t k),
      t2_package_name = \<lambda>t k. case table_get t k of Some (Some it) \<Rightarrow> t_value it | _ \<Rightarrow> None,
      t2_set_package_name = table_set, t2_items = \<lambda>t. pairs (concat (buckets t))\<rparr>"

lemma src_table_map: "map_of (t2_items src_table t) = table_map t"
  by (simp add: src_table_def table_map_def)

interpretation src_log: pkg_log src_table "\<lambda>t. unat (item_count t)" table_wf "2 ^ 50"
proof unfold_locales
  show "table_wf (t2_zero src_table) \<and> map_of (t2_items src_table (t2_zero src_table)) = Map.empty \<and>
      unat (item_count (t2_zero src_table)) = 0"
    unfolding src_table_map using tab.empty_law by (simp add: src_table_def)
next
  fix t :: "bytes option table" and k
  assume "table_wf t" "unat (item_count t) < 2 ^ 50"
  then show "table_wf (t2_include src_table t k) \<and>
      unat (item_count (t2_include src_table t k)) \<le> unat (item_count t) + 1 \<and>
      map_of (t2_items src_table (t2_include src_table t k)) =
        (if map_of (t2_items src_table t) k = None then (map_of (t2_items src_table t))(k \<mapsto> None)
         else map_of (t2_items src_table t))"
    unfolding src_table_map using tab.include_law [of t None k] by (simp add: src_table_def)
next
  fix t :: "bytes option table" and k v
  assume "table_wf t" "map_of (t2_items src_table t) k \<noteq> None"
  then show "table_wf (t2_set_package_name src_table t k v) \<and>
      unat (item_count (t2_set_package_name src_table t k v)) = unat (item_count t) \<and>
      map_of (t2_items src_table (t2_set_package_name src_table t k v)) = (map_of (t2_items src_table t))(k \<mapsto> v)"
    unfolding src_table_map using tab.set_law [of t k v] by (simp add: src_table_def)
next
  fix t :: "bytes option table" and k v
  assume a: "table_wf t" "map_of (t2_items src_table t) k = Some v"
  then have "table_map t k = Some v" by (simp add: src_table_map)
  moreover from this have "buckets t \<noteq> []" by (auto simp: table_map_def pairs_def)
  ultimately obtain it where "table_get t k = Some (Some it)" "t_value it = v"
    using table_get_map [OF a(1), of k] by auto
  then show "t2_package_name src_table t k = v" by (simp add: src_table_def)
next
  fix t :: "bytes option table"
  assume "table_wf t"
  then show "distinct (map fst (t2_items src_table t))"
    by (simp add: src_table_def pairs_def table_wf_def comp_def)
qed

section \<open>Writing what can be read\<close>

text \<open>The entries of the items that have an owner, and their lines.\<close>

fun entries :: "(bytes \<times> bytes option) list \<Rightarrow> (bytes \<times> bytes) list" where
  "entries [] = []"
| "entries ((key, None) # its) = entries its"
| "entries ((key, Some name) # its) = (key, name) # entries its"

lemma length_entries: "length (entries its) \<le> length its"
  by (induction its rule: entries.induct) auto

definition log_text :: "(bytes \<times> bytes) list \<Rightarrow> bytes" where
  "log_text es = concat (map (\<lambda>(p, n). n @ [32] @ p @ [10]) es)"

lemma log_text_simps [simp]: "log_text [] = []" "log_text ((p, n) # es) = n @ [32] @ p @ [10] @ log_text es"
  by (simp_all add: log_text_def)

lemma dump_log_items_text:
  "fd_accepts fd \<Longrightarrow>
     \<exists>fd'. dump_log_items fd its = (True, fd') \<and> sent fd' = sent fd @ log_text (entries its)"
proof (induction fd its rule: dump_log_items.induct)
  case (3 fd key name its)
  obtain fd' where d: "dprintf fd (name @ [32] @ key @ [10]) = (True, fd')"
      "sent fd' = sent fd @ name @ [32] @ key @ [10]" "fd_accepts fd'"
    using dprintf_sent [OF 3(2)] by blast
  from 3(1) [OF d(1) [symmetric] refl d(3)] d show ?case by auto
qed auto

lemma map_of_entries:
  "distinct (map fst its) \<Longrightarrow>
     map_of (entries its) k = (case map_of its k of Some (Some n) \<Rightarrow> Some n | _ \<Rightarrow> None) \<and>
     fst ` set (entries its) \<subseteq> fst ` set its \<and> distinct (map fst (entries its))"
proof (induction its rule: entries.induct)
  case (2 key its)
  have "map_of its key = None" using 2(2) by (simp add: map_of_eq_None_iff)
  then show ?case using 2 by auto
next
  case (3 key name its)
  then show ?case by auto
qed simp

section \<open>Reading what was written\<close>

text \<open>Names and paths that keep their shape in a line.\<close>

definition log_entry_ok :: "bytes \<times> bytes \<Rightarrow> bool" where
  "log_entry_ok e \<longleftrightarrow>
     (case e of (p, n) \<Rightarrow>
        n \<noteq> [] \<and> 0 \<notin> set n \<and> (\<forall>c \<in> set n. \<not> isspace c) \<and>
        p \<noteq> [] \<and> 0 \<notin> set p \<and> 10 \<notin> set p \<and> \<not> isspace (hd p))"

definition isspace_values :: "(byte \<Rightarrow> int) \<Rightarrow> bool" where
  "isspace_values isp \<longleftrightarrow> (\<forall>c. isp c \<noteq> 0 \<longleftrightarrow> isspace c)"

lemma isspace_space [simp]: "isspace 32" "isspace 10" "\<not> isspace 0"
  by (simp_all add: isspace_def)

lemma skip_isspace_log_none:
  "isspace_values isp \<Longrightarrow> \<not> isspace c \<Longrightarrow> skip_isspace_log isp (c # cs) True = Some 0"
proof -
  assume "isspace_values isp" "\<not> isspace c"
  then have "isp c = 0" unfolding isspace_values_def by blast
  then show ?thesis by simp
qed

lemma skip_isspace_log_word:
  assumes "isspace_values isp" and "0 \<notin> set w" and "\<forall>c \<in> set w. \<not> isspace c" and "isspace d"
  shows "skip_isspace_log isp (w @ d # cs) False = Some (length w)"
  using assms by (induction w) (auto simp: isspace_values_def)

lemma parse_log_line_entry:
  assumes "isspace_values isp" and "log_entry_ok (p, n)"
  shows "parse_log_line isp (n @ [32] @ p @ 0 # r) = Some (True, 0, length n + 1, n @ [0] @ p @ 0 # r)"
proof -
  have n: "n \<noteq> []" "0 \<notin> set n" "\<forall>c \<in> set n. \<not> isspace c" and p: "p \<noteq> []" "0 \<notin> set p" "\<not> isspace (hd p)"
    using assms(2) by (simp_all add: log_entry_ok_def)
  obtain c cs where c: "n = c # cs" "\<not> isspace c" using n by (cases n) auto
  obtain d ds where d: "p = d # ds" "\<not> isspace d" "d \<noteq> 0" using p by (cases p) auto
  let ?m = "n @ [32] @ p @ 0 # r"
  have 1: "skip_isspace_log isp ?m True = Some 0"
    unfolding c(1) append_Cons by (rule skip_isspace_log_none [OF assms(1) c(2)])
  have 2: "skip_isspace_log isp (drop 0 ?m) False = Some (length n)"
    using skip_isspace_log_word [OF assms(1) n(2,3), of 32 "p @ 0 # r"] by simp
  have 3: "?m[0 + length n := 0] = n @ [0] @ p @ 0 # r" by (simp add: list_update_append)
  have 4: "drop (0 + length n + 1) (n @ [0] @ p @ 0 # r) = d # ds @ 0 # r" using d(1) by simp
  have 5: "skip_isspace_log isp (d # ds @ 0 # r) True = Some 0" by (rule skip_isspace_log_none [OF assms(1) d(2)])
  have "(n @ [0] @ p @ 0 # r) ! (length n + 1) = d" using d(1) by (simp add: nth_append)
  then show ?thesis
    unfolding parse_log_line_def 1 option.case 2 Let_def 3 4 5 using d(3) by simp
qed

lemma map_of_rev_distinct: "distinct (map fst xs) \<Longrightarrow> map_of (rev xs) = map_of xs"
  by (rule map_of_eqI) (auto simp: rev_map [symmetric] map_of_eq_Some_iff)

lemma log_text_line:
  assumes "log_entry_ok (p, n)"
  shows "first_line (log_text ((p, n) # es)) = n @ [32] @ p" and "after_line (log_text ((p, n) # es)) = log_text es"
proof -
  have nl: "10 \<notin> set (n @ [32] @ p)" using assms by (auto simp: log_entry_ok_def)
  have t: "log_text ((p, n) # es) = (n @ [32] @ p) @ 10 # log_text es" by simp
  show "first_line (log_text ((p, n) # es)) = n @ [32] @ p"
    unfolding t first_line_def using nl by (subst takeWhile_append2) auto
  show "after_line (log_text ((p, n) # es)) = log_text es"
    unfolding t after_line_def using nl by (subst dropWhile_append2) auto
qed

text \<open>What the buffer holds once the end of a delivered line is overwritten.\<close>

lemma delivered_line:
  assumes "terminated b" and "lb \<le> e" and "e \<le> used b" and "take (e - lb) (drop lb (contents b)) = l"
  shows "drop lb ((mem b)[e := 0]) = l @ 0 # drop (Suc e) (mem b)"
proof -
  have e: "e < length (mem b)" using assms(1,3) by (simp add: terminated_def)
  have "(mem b)[e := 0] = take e (mem b) @ 0 # drop (Suc e) (mem b)" by (rule upd_conv_take_nth_drop [OF e])
  then have "drop lb ((mem b)[e := 0]) = drop lb (take e (mem b)) @ 0 # drop (Suc e) (mem b)"
    using assms(2) e by simp
  moreover have "drop lb (take e (mem b)) = l"
  proof -
    have "min (e - lb) (used b - lb) = e - lb" using assms(3) by simp
    then show ?thesis using assms(4) by (simp only: contents_def drop_take take_take)
  qed
  ultimately show ?thesis by simp
qed

context pkg_log
begin

lemma read_log_entries:
  assumes "isspace_values isp"
  shows "list_all log_entry_ok es \<Longrightarrow> lines_left al line b fd (log_text es) \<Longrightarrow>
    read_log_fd al isp T t line b fd = Some (True, fold (\<lambda>(p, n) t. set_owner T t p n) es t)"
proof (induction es arbitrary: line b fd t)
  case Nil
  from buffer_getline_fd_delivers [OF Nil(2)] show ?case
    by (subst read_log_fd.simps) (auto simp: delivers_def)
next
  case (Cons e es)
  obtain p n where e: "e = (p, n)" by (cases e)
  have ok: "log_entry_ok (p, n)" using Cons.prems(1) by (simp add: e)
  note l = log_text_line [OF ok, of es, folded e]
  from buffer_getline_fd_delivers [OF Cons.prems(2)] obtain found line' b' fd' where
    g: "buffer_getline_fd al None 0 False 0 0 line b fd = Some (found, line', b', fd')"
      "delivers al (log_text (e # es)) (found, line', b', fd')"
    by (metis prod_cases4)
  have "log_text (e # es) \<noteq> []" by (simp add: e)
  with g(2) obtain i where
    d: "found" "lines_left al line' b' fd' (log_text es)" "line_end line' = Some i" "line_begin line' \<le> i"
      "i \<le> used b'" "terminated b'" "take (i - line_begin line') (drop (line_begin line') (contents b')) = n @ [32] @ p"
    by (auto simp: delivers_def l)
  let ?lb = "line_begin line'" and ?m = "(mem b')[i := 0]" and ?r = "drop (Suc i) (mem b')"
  have lt: "i < length (mem b')" using d(5,6) by (simp add: terminated_def)
  have dm: "drop ?lb ?m = n @ [32] @ p @ 0 # ?r" using delivered_line [OF d(6,4,5,7)] by simp
  have len: "i = ?lb + length n + 1 + length p"
    using arg_cong [OF dm, of length] lt by simp
  have cs: "c_string (drop 0 (n @ [0] @ p @ 0 # ?r)) = Some n"
    "c_string (drop (length n + 1) (n @ [0] @ p @ 0 # ?r)) = Some p"
    using ok c_string_append [of n] c_string_append [of p] by (simp_all add: log_entry_ok_def)
  let ?mem = "take ?lb ?m @ n @ [0] @ p @ 0 # ?r"
  have "lines_left al line' (b'\<lparr>mem := ?mem\<rparr>) fd' (log_text es)"
  proof (rule lines_left_overwrite [OF d(2,3)])
    have lm: "length (take ?lb ?m) = ?lb" using lt len by simp
    show "length ?mem = length (mem b')" using lt len by simp
    show "drop (Suc i) ?mem = drop (Suc i) (mem b')" using lm len by simp
    show "?mem ! i = 0" using lm len by (simp add: nth_append)
    show "used b' \<noteq> 0" using d(5) len by simp
  qed
  from Cons.IH [OF _ this, of "set_owner T t p n"] Cons.prems(1)
  have IH: "read_log_fd al isp T (set_owner T t p n) line' (b'\<lparr>mem := ?mem\<rparr>) fd' =
      Some (True, fold (\<lambda>(p, n) t. set_owner T t p n) es (set_owner T t p n))" by simp
  have "read_log_fd al isp T t line b fd =
      read_log_fd al isp T (set_owner T t p n) line' (b'\<lparr>mem := ?mem\<rparr>) fd'"
    using d(1,3) lt unfolding read_log_fd.simps [of al isp T t line] g(1)
    by (simp add: Let_def dm [simplified] parse_log_line_entry [OF assms ok, simplified] cs [simplified])
  then show ?case unfolding IH by (simp add: e)
qed

lemma log_roundtrip:
  assumes "inv t" and "list_all log_entry_ok (entries (t2_items T t))" and "isspace_values isp"
    and "2 * length (t2_items T t) \<le> limit" and "fd_accepts wfd" and "sent wfd = []"
    and "\<forall>m < 2 ^ 63. can_alloc al m"
  shows "\<exists>wfd'. dump_log_to_fd T wfd t = (True, wfd') \<and>
    (\<forall>fd. fd_clean fd \<and> fd_data fd = sent wfd' \<and> length (fd_data fd) < 2 ^ 31 \<longrightarrow>
      (\<exists>t'. read_log_fd al isp T (t2_zero T) text_line_zero buffer_zero fd = Some (True, t') \<and>
        inv t' \<and> owner T t' = owner T t))"
proof -
  let ?es = "entries (t2_items T t)"
  obtain wfd' where w: "dump_log_to_fd T wfd t = (True, wfd')" "sent wfd' = log_text ?es"
    using dump_log_items_text [OF assms(5)] assms(6) by (auto simp: dump_log_to_fd_def)
  have m: "map_of ?es k = owner T t k" "distinct (map fst ?es)" for k
    using map_of_entries [OF items_law [OF assms(1)]] by (simp_all add: owner_def)
  have z: "0 \<notin> set (log_text ?es)"
    using assms(2) by (auto simp: log_text_def list_all_iff log_entry_ok_def)
  have len: "length ?es \<le> length (t2_items T t)" by (rule length_entries)
  have "\<exists>t'. read_log_fd al isp T (t2_zero T) text_line_zero buffer_zero fd = Some (True, t') \<and>
        inv t' \<and> owner T t' = owner T t"
    if f: "fd_clean fd" "fd_data fd = sent wfd'" "length (fd_data fd) < 2 ^ 31" for fd
  proof -
    have "lines_left al text_line_zero buffer_zero fd (log_text ?es)"
      using lines_left_start [OF f(1) _ f(3) assms(7)] z f(2) w(2) by simp
    note r = read_log_entries [OF assms(3,2) this, of "t2_zero T"]
    have "count (t2_zero T) + 2 * length ?es \<le> limit" using assms(4) len empty_law by simp
    note s = set_owners_spec [OF conjunct1 [OF empty_law] this]
    have "owner T (t2_zero T) = Map.empty" using empty_law by (simp add: owner_def fun_eq_iff)
    moreover have "map_of (rev ?es) = owner T t"
      using m(1) map_of_rev_distinct [OF m(2)] by auto
    ultimately show ?thesis using r s by simp
  qed
  then show ?thesis using w(1) by blast
qed

end

end
