(* ===== verification/PkgRoot.thy ===== *)
theory PkgRoot
  imports PkgLog Preproc
begin

text \<open>
  Package roots (\<open>src/pkg/pkg-root.c\<close>): the configuration with the protected paths, the log on
  disk, opening and closing. The operating system is a record of functions over its state.
  \<open>None\<close> is an access out of bounds, a null pointer that is followed, a failing allocation or,
  for the loops, no end.
\<close>

section \<open>The operating system and the root\<close>

datatype open_read = Opened read_fd | Missing | Open_failed

text \<open>
  \<open>os_open_write\<close> has the flag \<open>O_TRUNC\<close> and the mode; its answer is \<open>None\<close> for a failure, or
  how much each write to the new descriptor accepts. What is then written to the descriptor,
  which starts at the beginning of the file, becomes part of the state with \<open>os_wrote\<close>.
\<close>

record 'f pkg_os =
  os_exists :: "'f \<Rightarrow> bytes \<Rightarrow> bool"
  os_mkdir :: "bytes \<Rightarrow> 'f \<Rightarrow> bool \<times> 'f"
  os_realpath :: "'f \<Rightarrow> bytes \<Rightarrow> bytes option"
  os_files :: "'f \<Rightarrow> bytes \<Rightarrow> (nat \<times> bytes) option"
  os_open_read :: "'f \<Rightarrow> bytes \<Rightarrow> open_read"
  os_open_write :: "bool \<Rightarrow> size_t \<Rightarrow> bytes \<Rightarrow> 'f \<Rightarrow> nat option list option \<times> 'f"
  os_wrote :: "bytes \<Rightarrow> bytes \<Rightarrow> 'f \<Rightarrow> 'f"

record 't pkg_root =
  tmp_name :: bytes
  tmp_path :: buffer
  tmp_build_sh :: buffer
  root_path :: bytes
  root_log :: 't
  protected_paths :: "bytes list"

definition pkg_root_zero :: "'t table2 \<Rightarrow> 't pkg_root" where
  "pkg_root_zero T =
     \<lparr>tmp_name = [], tmp_path = buffer_zero, tmp_build_sh = buffer_zero, root_path = [], root_log = t2_zero T,
      protected_paths = []\<rparr>"

section \<open>The log on disk\<close>

definition LOG_PATH :: bytes where
  "LOG_PATH = str ''pkg/system.log''"

definition load_log_file_path :: "allocator \<Rightarrow> 't pkg_root \<Rightarrow> 't pkg_root option" where
  "load_log_file_path al rt =
     map_option (\<lambda>b. rt\<lparr>tmp_path := b\<rparr>) (buffer_printf al (tmp_path rt) (root_path rt @ [PATH_SEPARATOR] @ LOG_PATH))"

definition dump_log ::
    "allocator \<Rightarrow> 'f pkg_os \<Rightarrow> 't table2 \<Rightarrow> 't pkg_root \<Rightarrow> 'f \<Rightarrow> (bool \<times> 't pkg_root \<times> 'f) option" where
  "dump_log al os T rt fs =
     (case load_log_file_path al rt of
        None \<Rightarrow> None
      | Some rt1 \<Rightarrow>
          (let path = contents (tmp_path rt1)
           in case path_mkdir (os_mkdir os) path False fs of
                (False, fs1) \<Rightarrow> Some (False, rt1, fs1)
              | (True, fs1) \<Rightarrow>
                  (case os_open_write os True 420 path fs1 of
                     (None, fs2) \<Rightarrow> Some (False, rt1, fs2)
                   | (Some acc, fs2) \<Rightarrow>
                       (case dump_log_to_fd T \<lparr>accept = acc, sent = []\<rparr> (root_log rt1) of
                          (ok, fd) \<Rightarrow> Some (ok, rt1, os_wrote os path (sent fd) fs2)))))"

definition read_log ::
    "allocator \<Rightarrow> (byte \<Rightarrow> int) \<Rightarrow> 'f pkg_os \<Rightarrow> 't table2 \<Rightarrow> 't pkg_root \<Rightarrow> 'f \<Rightarrow> (bool \<times> 't pkg_root) option" where
  "read_log al isp os T rt fs =
     (case load_log_file_path al rt of
        None \<Rightarrow> None
      | Some rt1 \<Rightarrow>
          (case os_open_read os fs (contents (tmp_path rt1)) of
             Missing \<Rightarrow> Some (True, rt1)
           | Open_failed \<Rightarrow> Some (False, rt1)
           | Opened fd \<Rightarrow>
               map_option (\<lambda>(ok, t). (ok, rt1\<lparr>root_log := t\<rparr>))
                 (read_log_fd al isp T (root_log rt1) text_line_zero buffer_zero fd)))"

section \<open>The configuration\<close>

text \<open>The arguments of the key.\<close>

fun paren_config_entry_protected_paths :: "'t table2 \<Rightarrow> 't pkg_root \<Rightarrow> paren_tree list \<Rightarrow> bool \<times> 't pkg_root" where
  "paren_config_entry_protected_paths T rt [] = (True, rt)"
| "paren_config_entry_protected_paths T rt (Node l us # ts) = (False, rt)"
| "paren_config_entry_protected_paths T rt (Leaf l w # ts) =
     paren_config_entry_protected_paths T
       (rt\<lparr>root_log := t2_include T (root_log rt) w, protected_paths := protected_paths rt @ [w]\<rparr>) ts"

text \<open>The first node of an empty list is a null pointer.\<close>

fun parse_config_entry :: "'t table2 \<Rightarrow> 't pkg_root \<Rightarrow> paren_tree \<Rightarrow> (bool \<times> 't pkg_root) option" where
  "parse_config_entry T rt (Leaf l w) = Some (False, rt)"
| "parse_config_entry T rt (Node l []) = None"
| "parse_config_entry T rt (Node l (Node k us # ts)) = Some (False, rt)"
| "parse_config_entry T rt (Node l (Leaf k w # ts)) =
     Some (if w = str ''protect-paths'' then paren_config_entry_protected_paths T rt ts else (True, rt))"

fun parse_config :: "'t table2 \<Rightarrow> 't pkg_root \<Rightarrow> paren_tree list \<Rightarrow> (bool \<times> 't pkg_root) option" where
  "parse_config T rt [] = Some (True, rt)"
| "parse_config T rt (t # ts) =
     (case parse_config_entry T rt t of
        None \<Rightarrow> None
      | Some (False, rt') \<Rightarrow> Some (False, rt')
      | Some (True, rt') \<Rightarrow> parse_config T rt' ts)"

text \<open>
  The text of a file for the preprocessor, which interns the name of the file with its real
  path; a file that cannot be loaded gives no node, as the empty text does. An empty result is
  a null pointer.
\<close>

definition os_text :: "'f pkg_os \<Rightarrow> 'f \<Rightarrow> bytes \<Rightarrow> bytes" where
  "os_text os fs filename =
     (let name = (case os_realpath os fs filename of None \<Rightarrow> [] | Some r \<Rightarrow> r)
      in case Option.bind (paren_load_file (os_files os fs) name) (\<lambda>c. c_string (c @ [0])) of
           None \<Rightarrow> []
         | Some t \<Rightarrow> t)"

definition load_config ::
    "allocator \<Rightarrow> 'f pkg_os \<Rightarrow> 't table2 \<Rightarrow> 't pkg_root \<Rightarrow> 'f \<Rightarrow> (bool \<times> 't pkg_root) option" where
  "load_config al os T rt fs =
     (case buffer_printf al (tmp_path rt) (root_path rt @ str ''/etc/pkg/config'') of
        None \<Rightarrow> None
      | Some b \<Rightarrow>
          (let rt1 = rt\<lparr>tmp_path := b\<rparr>; path = contents b
           in if \<not> os_exists os fs path then Some (True, rt1)
              else case paren_preprocessor
                          \<lparr>parse_include = parse_file (os_realpath os fs) (os_files os fs), default_namespace = True\<rparr>
                          (os_text os fs path) of
                     None \<Rightarrow> None
                   | Some None \<Rightarrow> Some (False, rt1)
                   | Some (Some []) \<Rightarrow> Some (False, rt1)
                   | Some (Some (t # ts)) \<Rightarrow> parse_config T rt1 (t # ts)))"

section \<open>Opening and closing\<close>

text \<open>Closing writes the log and ignores whether that succeeded.\<close>

definition pkg_root_close :: "allocator \<Rightarrow> 'f pkg_os \<Rightarrow> 't table2 \<Rightarrow> 't pkg_root \<Rightarrow> 'f \<Rightarrow> 'f option" where
  "pkg_root_close al os T rt fs = map_option (\<lambda>(ok, rt', fs'). fs') (dump_log al os T rt fs)"

text \<open>The root, \<open>None\<close> for \<open>NULL\<close>; a failure closes what was opened so far.\<close>

definition pkg_root_open ::
    "allocator \<Rightarrow> (byte \<Rightarrow> int) \<Rightarrow> 'f pkg_os \<Rightarrow> 't table2 \<Rightarrow> bytes \<Rightarrow> 'f \<Rightarrow> ('t pkg_root option \<times> 'f) option" where
  "pkg_root_open al isp os T path fs =
     (let rt = (pkg_root_zero T)\<lparr>root_path := path\<rparr>;
          fail = \<lambda>rt. map_option (\<lambda>fs'. (None, fs')) (pkg_root_close al os T rt fs)
      in case load_config al os T rt fs of
           None \<Rightarrow> None
         | Some (False, rt1) \<Rightarrow> fail rt1
         | Some (True, rt1) \<Rightarrow>
             (case read_log al isp os T rt1 fs of
                None \<Rightarrow> None
              | Some (False, rt2) \<Rightarrow> fail rt2
              | Some (True, rt2) \<Rightarrow> Some (Some rt2, fs)))"

section \<open>Protected paths\<close>

text \<open>C strings without their null byte: the character at their end is the null byte.\<close>

fun is_protected_compare :: "bytes \<Rightarrow> bytes \<Rightarrow> bool" where
  "is_protected_compare check arg =
     (case (check, arg) of
        (c # cs, a # as) \<Rightarrow>
          if c = a then is_protected_compare cs as
          else a = PATH_SEPARATOR \<and> as = [] \<and> c = PATH_SEPARATOR
      | (c # cs, []) \<Rightarrow> c = PATH_SEPARATOR
      | ([], as) \<Rightarrow> as = [])"

declare is_protected_compare.simps [simp del]

definition is_protected :: "'t pkg_root \<Rightarrow> bytes \<Rightarrow> bool" where
  "is_protected rt check = list_ex (is_protected_compare check) (protected_paths rt)"

section \<open>What they do\<close>

lemma is_protected_compare_prefix:
  "is_protected_compare check arg \<longleftrightarrow> check = arg \<or> (\<exists>rest. check = arg @ PATH_SEPARATOR # rest)"
proof (induction check arbitrary: arg)
  case Nil
  show ?case by (auto simp: is_protected_compare.simps [of "[]"])
next
  case (Cons c cs)
  show ?case by (cases arg) (auto simp: is_protected_compare.simps [of "c # cs"] Cons.IH)
qed

lemma load_log_file_path_spec:
  assumes "buffer_wf (tmp_path rt)" and "length (root_path rt) < 2 ^ 32" and "\<forall>m < 2 ^ 63. can_alloc al m"
  shows "\<exists>b. load_log_file_path al rt = Some (rt\<lparr>tmp_path := b\<rparr>) \<and> buffer_wf b \<and>
    contents b = root_path rt @ [PATH_SEPARATOR] @ LOG_PATH"
proof -
  have "length (root_path rt @ [PATH_SEPARATOR] @ LOG_PATH) + 1 < 2 ^ 60"
    using assms(2) by (simp add: LOG_PATH_def str_def)
  from buffer_printf_contents [OF assms(1) this assms(3)] show ?thesis
    by (auto simp: load_log_file_path_def)
qed

text \<open>The place of the log can be written: what is stored there is read back.\<close>

definition log_place :: "'f pkg_os \<Rightarrow> bytes \<Rightarrow> 'f \<Rightarrow> bool" where
  "log_place os path fs \<longleftrightarrow>
     (\<exists>fs1 acc fs2. path_mkdir (os_mkdir os) path False fs = (True, fs1) \<and>
        os_open_write os True 420 path fs1 = (Some acc, fs2) \<and> fd_accepts \<lparr>accept = acc, sent = []\<rparr> \<and>
        (\<forall>data. \<exists>fd. os_open_read os (os_wrote os path data fs2) path = Opened fd \<and>
           fd_clean fd \<and> fd_data fd = data))"

lemma buffer_zero_wf [simp]: "buffer_wf buffer_zero"
  by (simp add: buffer_wf_def buffer_zero_def)

definition log_path :: "'t pkg_root \<Rightarrow> bytes" where
  "log_path rt = root_path rt @ [PATH_SEPARATOR] @ LOG_PATH"

definition config_path :: "'t pkg_root \<Rightarrow> bytes" where
  "config_path rt = root_path rt @ str ''/etc/pkg/config''"

lemma load_config_absent:
  assumes "buffer_wf (tmp_path rt)" and "length (root_path rt) < 2 ^ 32" and "\<forall>m < 2 ^ 63. can_alloc al m"
    and "\<not> os_exists os fs (config_path rt)"
  shows "\<exists>b. load_config al os T rt fs = Some (True, rt\<lparr>tmp_path := b\<rparr>) \<and> buffer_wf b"
proof -
  have "length (root_path rt @ str ''/etc/pkg/config'') + 1 < 2 ^ 60" using assms(2) by (simp add: str_def)
  from buffer_printf_contents [OF assms(1) this assms(3)] assms(4) show ?thesis
    by (auto simp: load_config_def config_path_def Let_def)
qed

text \<open>
  The state of the system after the log was stored: the directories above it are made, the file is
  made or emptied, and the text is written to it.
\<close>

definition log_stored :: "'f pkg_os \<Rightarrow> bytes \<Rightarrow> bytes \<Rightarrow> 'f \<Rightarrow> 'f \<Rightarrow> bool" where
  "log_stored os path data fs fs' \<longleftrightarrow>
     (\<exists>fs1 acc fs2. path_mkdir (os_mkdir os) path False fs = (True, fs1) \<and>
        os_open_write os True 420 path fs1 = (Some acc, fs2) \<and> fs' = os_wrote os path data fs2)"

context pkg_log
begin

lemma dump_log_stored:
  assumes "inv (root_log rt)" and "buffer_wf (tmp_path rt)" and "length (root_path rt) < 2 ^ 32"
    and "\<forall>m < 2 ^ 63. can_alloc al m" and "log_place os (log_path rt) fs"
  shows "\<exists>rt' fs' fd. dump_log al os T rt fs = Some (True, rt', fs') \<and>
    os_open_read os fs' (log_path rt) = Opened fd \<and> fd_clean fd \<and>
    fd_data fd = log_text (entries (t2_items T (root_log rt))) \<and>
    log_stored os (log_path rt) (log_text (entries (t2_items T (root_log rt)))) fs fs'"
proof -
  obtain b where b: "load_log_file_path al rt = Some (rt\<lparr>tmp_path := b\<rparr>)" "contents b = log_path rt"
    using load_log_file_path_spec [OF assms(2-4)] by (auto simp: log_path_def)
  from assms(5) obtain fs1 acc fs2 where f: "path_mkdir (os_mkdir os) (log_path rt) False fs = (True, fs1)"
      "os_open_write os True 420 (log_path rt) fs1 = (Some acc, fs2)" "fd_accepts \<lparr>accept = acc, sent = []\<rparr>"
      "\<forall>data. \<exists>fd. os_open_read os (os_wrote os (log_path rt) data fs2) (log_path rt) = Opened fd \<and>
         fd_clean fd \<and> fd_data fd = data"
    unfolding log_place_def by blast
  have "fd_accepts \<lparr>accept = acc, sent = []\<rparr>" using f(3) by simp
  from dump_log_items_text [OF this, of "t2_items T (root_log rt)"] obtain w where
    "dump_log_to_fd T \<lparr>accept = acc, sent = []\<rparr> (root_log rt) = (True, w)"
    "sent w = log_text (entries (t2_items T (root_log rt)))"
    by (auto simp: dump_log_to_fd_def)
  moreover have "log_stored os (log_path rt) data fs (os_wrote os (log_path rt) data fs2)" for data
    using f(1,2) unfolding log_stored_def by blast
  ultimately show ?thesis using b f by (auto simp: dump_log_def)
qed

lemma log_survives:
  assumes "inv (root_log rt)" and "list_all log_entry_ok (entries (t2_items T (root_log rt)))"
    and "2 * length (t2_items T (root_log rt)) \<le> limit"
    and "length (log_text (entries (t2_items T (root_log rt)))) < 2 ^ 31"
    and "isspace_values isp" and "buffer_wf (tmp_path rt)" and "length (root_path rt) < 2 ^ 32"
    and "\<forall>m < 2 ^ 63. can_alloc al m" and "log_place os (log_path rt) fs"
    and "\<forall>fs'. pkg_root_close al os T rt fs = Some fs' \<longrightarrow> \<not> os_exists os fs' (config_path rt)"
  shows "\<exists>fs' rt'. pkg_root_close al os T rt fs = Some fs' \<and>
    pkg_root_open al isp os T (root_path rt) fs' = Some (Some rt', fs') \<and>
    inv (root_log rt') \<and> owner T (root_log rt') = owner T (root_log rt)"
proof -
  let ?es = "entries (t2_items T (root_log rt))"
  obtain rt1 fs' fd where d: "dump_log al os T rt fs = Some (True, rt1, fs')"
      "os_open_read os fs' (log_path rt) = Opened fd" "fd_clean fd" "fd_data fd = log_text ?es"
    using dump_log_stored [OF assms(1,6-9)] by blast
  let ?rt = "(pkg_root_zero T)\<lparr>root_path := root_path rt\<rparr>"
  have cl: "pkg_root_close al os T rt fs = Some fs'" using d(1) by (simp add: pkg_root_close_def)
  have w: "buffer_wf (tmp_path ?rt)" "length (root_path ?rt) < 2 ^ 32" "\<not> os_exists os fs' (config_path ?rt)"
    using assms(7,10) cl by (simp_all add: pkg_root_zero_def config_path_def)
  from load_config_absent [OF w(1,2) assms(8) w(3), of T] obtain b where
    c: "load_config al os T ?rt fs' = Some (True, ?rt\<lparr>tmp_path := b\<rparr>)" "buffer_wf b" by blast
  let ?rb = "?rt\<lparr>tmp_path := b\<rparr>"
  from load_log_file_path_spec [of ?rb al] c(2) assms(7,8) obtain b2 where
    l: "load_log_file_path al ?rb = Some (?rb\<lparr>tmp_path := b2\<rparr>)" "contents b2 = log_path rt"
    by (auto simp: log_path_def)
  have "fd_accepts \<lparr>accept = [], sent = []\<rparr>" "sent \<lparr>accept = [], sent = []\<rparr> = []" by simp_all
  from log_roundtrip [OF assms(1,2,5,3) this assms(8)] obtain wfd' where
    r: "dump_log_to_fd T \<lparr>accept = [], sent = []\<rparr> (root_log rt) = (True, wfd')"
      "\<And>fd. fd_clean fd \<Longrightarrow> fd_data fd = sent wfd' \<Longrightarrow> length (fd_data fd) < 2 ^ 31 \<Longrightarrow>
        \<exists>t'. read_log_fd al isp T (t2_zero T) text_line_zero buffer_zero fd = Some (True, t') \<and>
          inv t' \<and> owner T t' = owner T (root_log rt)"
    by blast
  have "sent wfd' = log_text ?es"
    using dump_log_items_text [of "\<lparr>accept = [], sent = []\<rparr>" "t2_items T (root_log rt)"] r(1)
    by (simp add: dump_log_to_fd_def)
  from r(2) [OF d(3)] this d(4) assms(4) obtain t' where
    t: "read_log_fd al isp T (t2_zero T) text_line_zero buffer_zero fd = Some (True, t')"
      "inv t'" "owner T t' = owner T (root_log rt)" by auto
  have "read_log al isp os T ?rb fs' = Some (True, ?rb\<lparr>tmp_path := b2, root_log := t'\<rparr>)"
    using l d(2) t(1) by (simp add: read_log_def pkg_root_zero_def)
  then have "pkg_root_open al isp os T (root_path rt) fs' = Some (Some (?rb\<lparr>tmp_path := b2, root_log := t'\<rparr>), fs')"
    using c(1) by (simp add: pkg_root_open_def Let_def)
  with cl show ?thesis using t(2,3) by auto
qed

end

section \<open>Properties\<close>

text \<open>A path is protected exactly if a configured path is equal to it or is one of the
  directories it lies in. (A configured path with a separator at its end protects only what
  starts with two separators there: the condition of the code for such paths is never true.)\<close>

theorem is_protected_below:
  "is_protected rt check \<longleftrightarrow>
     (\<exists>arg \<in> set (protected_paths rt). check = arg \<or> (\<exists>rest. check = arg @ PATH_SEPARATOR # rest))"
  by (simp add: is_protected_def list_ex_iff is_protected_compare_prefix)

text \<open>C8: The log of a root survives closing and reopening it: if names and paths have the shape
  that a line of the log can hold (names are not empty and have no white space, paths are not empty,
  have no line end and do not begin with white space), the log file can be written, with less than
  two gigabytes, and there is no configuration, then \<open>pkg_root_close\<close> followed by \<open>pkg_root_open\<close> gives a root in which every path has the
  owner it had, for every value the C library uses for the truth of \<open>isspace\<close>.\<close>

theorem pkg_log_survives:
  assumes "pkg_log T cnt iv limit" and "iv (root_log rt)"
    and "list_all log_entry_ok (entries (t2_items T (root_log rt)))"
    and "2 * length (t2_items T (root_log rt)) \<le> limit"
    and "length (log_text (entries (t2_items T (root_log rt)))) < 2 ^ 31"
    and "isspace_values isp" and "buffer_wf (tmp_path rt)" and "length (root_path rt) < 2 ^ 32"
    and "\<forall>m < 2 ^ 63. can_alloc al m" and "log_place os (log_path rt) fs"
    and "\<forall>fs'. pkg_root_close al os T rt fs = Some fs' \<longrightarrow> \<not> os_exists os fs' (config_path rt)"
  shows "\<exists>fs' rt'. pkg_root_close al os T rt fs = Some fs' \<and>
    pkg_root_open al isp os T (root_path rt) fs' = Some (Some rt', fs') \<and>
    owner T (root_log rt') = owner T (root_log rt)"
  using pkg_log.log_survives [OF assms] by blast

text \<open>A system whose state is the contents of its files, with any directory.\<close>

definition plain_os :: "(bytes \<Rightarrow> bytes option) pkg_os" where
  "plain_os =
     \<lparr>os_exists = \<lambda>fs p. fs p \<noteq> None, os_mkdir = \<lambda>p fs. (True, fs), os_realpath = \<lambda>fs p. Some p,
      os_files = \<lambda>fs p. map_option (\<lambda>c. (length c, c)) (fs p),
      os_open_read = \<lambda>fs p. case fs p of None \<Rightarrow> Missing | Some [] \<Rightarrow> Opened [] | Some c \<Rightarrow> Opened [Some c],
      os_open_write = \<lambda>trunc mode p fs. (Some [], if trunc \<or> fs p = None then fs(p \<mapsto> []) else fs),
      os_wrote = \<lambda>p data fs. fs(p \<mapsto> data @ drop (length data) (the (fs p)))\<rparr>"

lemma mkdirs_all: "mkdirs (\<lambda>d. Pair True) ds fs = (True, fs)"
  by (induction ds) simp_all

lemma path_mkdir_all [simp]: "path_mkdir (\<lambda>d. Pair True) p t fs = (True, fs)"
  by (simp add: path_mkdir_def path_mkdir_loop_mkdirs mkdirs_all split: list.split)

lemma log_place_plain: "log_place plain_os p fs"
proof -
  have "\<exists>fd. os_open_read plain_os (os_wrote plain_os p data (fs(p \<mapsto> []))) p = Opened fd \<and>
      fd_clean fd \<and> fd_data fd = data" for data
    by (cases data) (simp_all add: plain_os_def)
  moreover have "path_mkdir (os_mkdir plain_os) p False fs = (True, fs)"
    by (simp add: plain_os_def)
  moreover have "os_open_write plain_os True 420 p fs = (Some [], fs(p \<mapsto> []))" by (simp add: plain_os_def)
  ultimately show ?thesis unfolding log_place_def by fastforce
qed

text \<open>A root in which the package \<open>foo\<close> owns \<open>etc/a\<close>.\<close>

definition foo_root :: "bytes option table pkg_root" where
  "foo_root = (pkg_root_zero src_table)\<lparr>root_log := set_owner src_table table_zero (str ''etc/a'') (str ''foo'')\<rparr>"

lemma foo_root_log:
  "table_wf (root_log foo_root)" "owner src_table (root_log foo_root) = [str ''etc/a'' \<mapsto> str ''foo'']"
  "entries (t2_items src_table (root_log foo_root)) = [(str ''etc/a'', str ''foo'')]"
  "length (t2_items src_table (root_log foo_root)) \<le> 2"
proof -
  let ?t = "set_owner src_table table_zero (str ''etc/a'') (str ''foo'')"
  have z: "table_wf table_zero" "unat (item_count (table_zero :: bytes option table)) + 2 \<le> 2 ^ 50"
    by (simp, simp add: table_zero_def)
  have lg: "root_log foo_root = ?t" by (simp add: foo_root_def)
  note s = src_log.set_owner_spec [OF z, of "str ''etc/a''" "str ''foo''", folded lg]
  have "owner src_table table_zero = Map.empty" by (simp add: owner_def src_table_map fun_eq_iff)
  then show o: "owner src_table (root_log foo_root) = [str ''etc/a'' \<mapsto> str ''foo'']" using s by simp
  show wf: "table_wf (root_log foo_root)" using s by blast
  let ?es = "entries (t2_items src_table (root_log foo_root))"
  note d = map_of_entries [OF src_log.items_law [OF wf]]
  have m: "map_of ?es k = [str ''etc/a'' \<mapsto> str ''foo''] k" for k
    using d o by (auto simp: owner_def fun_eq_iff)
  have dist: "distinct (map fst ?es)" using d by blast
  have "(p, n) \<in> set ?es \<longleftrightarrow> p = str ''etc/a'' \<and> n = str ''foo''" for p n
    using m [of p] map_of_eq_Some_iff [OF dist, of p n] by (auto split: if_splits)
  then have st: "set ?es = {(str ''etc/a'', str ''foo'')}" by auto
  have "distinct ?es" using dist by (simp add: distinct_map)
  from distinct_card [OF this] have "length ?es = 1" unfolding st by simp
  then show "?es = [(str ''etc/a'', str ''foo'')]" using st by (cases ?es) auto
  have "unat (item_count (root_log foo_root)) \<le> 2"
    using s by (simp add: table_zero_def)
  then show "length (t2_items src_table (root_log foo_root)) \<le> 2"
    using wf by (simp add: table_wf_def src_table_def pairs_def)
qed

lemma foo_root_fields [simp]: "root_path foo_root = []" "tmp_path foo_root = buffer_zero"
  by (simp_all add: foo_root_def pkg_root_zero_def)

theorem pkg_log_survives_witness:
  "\<exists>fs' rt'. pkg_root_close plain_alloc plain_os src_table foo_root Map.empty = Some fs' \<and>
    pkg_root_open plain_alloc (\<lambda>c. if isspace c then 8192 else 0) plain_os src_table [] fs' = Some (Some rt', fs') \<and>
    owner src_table (root_log rt') = [str ''etc/a'' \<mapsto> str ''foo'']"
proof -
  let ?isp = "\<lambda>c. if isspace c then 8192 else 0"
  have e: "list_all log_entry_ok (entries (t2_items src_table (root_log foo_root)))"
    "length (log_text (entries (t2_items src_table (root_log foo_root)))) < 2 ^ 31"
    unfolding foo_root_log(3) by (simp_all add: log_entry_ok_def isspace_def str_def)
  have l: "2 * length (t2_items src_table (root_log foo_root)) \<le> 2 ^ 50" using foo_root_log(4) by simp
  have i: "isspace_values ?isp" by (simp add: isspace_values_def)
  have w: "buffer_wf (tmp_path foo_root)" "length (root_path foo_root) < 2 ^ 32" by simp_all
  have al: "\<forall>m < 2 ^ 63. can_alloc plain_alloc m" by simp
  have c: "\<forall>fs'. pkg_root_close plain_alloc plain_os src_table foo_root Map.empty = Some fs' \<longrightarrow>
      \<not> os_exists plain_os fs' (config_path foo_root)"
  proof (intro allI impI)
    fix fs'
    assume a: "pkg_root_close plain_alloc plain_os src_table foo_root Map.empty = Some fs'"
    obtain b where "load_log_file_path plain_alloc foo_root = Some (foo_root\<lparr>tmp_path := b\<rparr>)"
        "contents b = log_path foo_root"
      using load_log_file_path_spec [OF w al] by (auto simp: log_path_def)
    with a obtain x where "fs' = Map.empty(log_path foo_root \<mapsto> x)"
      by (auto simp: pkg_root_close_def dump_log_def Let_def plain_os_def split: prod.splits bool.splits)
    moreover have "config_path foo_root \<noteq> log_path foo_root"
      by (simp add: config_path_def log_path_def LOG_PATH_def str_def PATH_SEPARATOR_def byte_of_def)
    ultimately show "\<not> os_exists plain_os fs' (config_path foo_root)" by (simp add: plain_os_def)
  qed
  from pkg_log_survives [OF src_log.pkg_log_axioms foo_root_log(1) e(1) l e(2) i w al log_place_plain c]
  show ?thesis unfolding foo_root_log(2) foo_root_fields .
qed

text \<open>A configuration with unbalanced parentheses costs the log: \<open>pkg_root_open\<close> fails before it
  has read the log, and closes the root on its way out, which writes the log of the root,
  without an owner of any path, over the one on disk.\<close>

theorem pkg_root_open_bad_config:
  assumes "pkg_log T cnt iv limit" and "os_exists os fs (path @ str ''/etc/pkg/config'')"
    and "parse_forest (os_text os fs (path @ str ''/etc/pkg/config'')) = None"
    and "\<forall>m < 2 ^ 63. can_alloc al m" and "length path < 2 ^ 32"
    and "log_place os (path @ [PATH_SEPARATOR] @ LOG_PATH) fs"
  shows "\<exists>fs' fd. pkg_root_open al isp os T path fs = Some (None, fs') \<and>
    os_open_read os fs' (path @ [PATH_SEPARATOR] @ LOG_PATH) = Opened fd \<and> fd_data fd = []"
proof -
  let ?rt = "(pkg_root_zero T)\<lparr>root_path := path\<rparr>"
  have z: "iv (t2_zero T)" "map_of (t2_items T (t2_zero T)) = Map.empty"
    using string_table.empty_law [OF pkg_log.axioms(1) [OF assms(1)]] by simp_all
  then have e: "entries (t2_items T (t2_zero T)) = []" by simp
  have "buffer_wf (tmp_path ?rt)" "length (root_path ?rt @ str ''/etc/pkg/config'') + 1 < 2 ^ 60"
    using assms(5) by (simp_all add: pkg_root_zero_def str_def)
  from buffer_printf_contents [OF this assms(4)] obtain b where
    b: "buffer_printf al (tmp_path ?rt) (path @ str ''/etc/pkg/config'') = Some b"
      "contents b = path @ str ''/etc/pkg/config''" "buffer_wf b" by auto
  have "paren_preprocessor cx (os_text os fs (path @ str ''/etc/pkg/config'')) = Some (Some [])" for cx
    using assms(3) by (simp add: paren_preprocessor_def walk_finish)
  then have c: "load_config al os T ?rt fs = Some (False, ?rt\<lparr>tmp_path := b\<rparr>)"
    using b assms(2) by (simp add: load_config_def Let_def)
  let ?rb = "?rt\<lparr>tmp_path := b\<rparr>"
  have "iv (root_log ?rb)" "buffer_wf (tmp_path ?rb)" "length (root_path ?rb) < 2 ^ 32" "log_place os (log_path ?rb) fs"
    using z b(3) assms(5,6) by (simp_all add: pkg_root_zero_def log_path_def)
  from pkg_log.dump_log_stored [OF assms(1) this(1-3) assms(4) this(4)] obtain rt' fs' fd where
    "dump_log al os T ?rb fs = Some (True, rt', fs')"
    "os_open_read os fs' (log_path ?rb) = Opened fd" "fd_data fd = log_text (entries (t2_items T (root_log ?rb)))"
    by blast
  then show ?thesis using c e by (simp add: pkg_root_open_def Let_def pkg_root_close_def log_path_def pkg_root_zero_def)
qed

theorem pkg_root_open_bad_config_witness:
  "\<exists>fs'. pkg_root_open plain_alloc (\<lambda>c. of_bool (isspace c)) plain_os src_table []
      [str ''/etc/pkg/config'' \<mapsto> str ''(a'', str ''/pkg/system.log'' \<mapsto> str ''foo bar'' @ [10]] = Some (None, fs') \<and>
    os_open_read plain_os fs' (str ''/pkg/system.log'') = Opened []"
proof -
  let ?fs = "[str ''/etc/pkg/config'' \<mapsto> str ''(a'', str ''/pkg/system.log'' \<mapsto> str ''foo bar'' @ [10]]"
  have ne: "str ''/etc/pkg/config'' \<noteq> str ''/pkg/system.log''" by (simp add: str_def)
  have t: "os_text plain_os ?fs ([] @ str ''/etc/pkg/config'') = str ''(a''"
    using ne by (simp add: os_text_def plain_os_def paren_load_file_def c_string_def str_def)
  have p: "parse_forest (str ''(a'') = None" by code_simp
  have lp: "[] @ [PATH_SEPARATOR] @ LOG_PATH = str ''/pkg/system.log''"
    by (simp add: LOG_PATH_def str_def PATH_SEPARATOR_def byte_of_def)
  have "os_exists plain_os ?fs ([] @ str ''/etc/pkg/config'')" using ne by (simp add: plain_os_def)
  from pkg_root_open_bad_config [OF src_log.pkg_log_axioms this, unfolded t p, OF refl, of plain_alloc,
      unfolded lp, OF _ _ log_place_plain, of "\<lambda>c. of_bool (isspace c)"]
  obtain fs' fd where r: "pkg_root_open plain_alloc (\<lambda>c. of_bool (isspace c)) plain_os src_table [] ?fs = Some (None, fs')"
      "os_open_read plain_os fs' (str ''/pkg/system.log'') = Opened fd" "fd_data fd = []"
    by auto
  then have "fd = []" by (cases "fs' (str ''/pkg/system.log'')" rule: option.exhaust)
      (auto simp: plain_os_def split: list.splits)
  then show ?thesis using r(1,2) by blast
qed

end
