(* ===== verification/PkgInstall.thy ===== *)
theory PkgInstall
  imports PkgRoot TarArchive
begin

text \<open>
  Installing a package (\<open>src/pkg/pkg-install.c\<close>): the archive begins with directories and the
  file \<open>build.sh\<close>, which names the package; every other entry is made below the root and
  recorded in the log. \<open>None\<close> is as in \<open>PkgRoot\<close>.
\<close>

section \<open>The name of the package\<close>

definition verify_build_sh_name :: "tar_state \<Rightarrow> bool" where
  "verify_build_sh_name st \<longleftrightarrow>
     ts_type st = TAR_FILE \<and>
     (case dropWhile (\<lambda>c. c \<noteq> PATH_SEPARATOR) (ts_path st) of
        [] \<Rightarrow> ts_path st
      | _ # basename \<Rightarrow> basename) = str ''build.sh''"

definition read_file_contents ::
    "allocator \<Rightarrow> buffer \<Rightarrow> tar_state \<Rightarrow> read_fd \<Rightarrow> (bool \<times> buffer \<times> read_fd) option" where
  "read_file_contents al out st fd = tar_read_region al out (ts_file_size st) fd"

text \<open>A null byte in the place of the first \<open>c\<close> behind a position, if there is one.\<close>

definition cut_at :: "bytes \<Rightarrow> nat \<Rightarrow> byte \<Rightarrow> bytes option" where
  "cut_at m pos c =
     map_option (\<lambda>e. case e of None \<Rightarrow> m | Some i \<Rightarrow> m[i := 0]) (strstr_at m pos [c])"

definition PKG_NAME :: bytes where "PKG_NAME = str ''PKG_NAME=''"

definition QUOTE :: byte where "QUOTE = 34"
definition APOSTROPHE :: byte where "APOSTROPHE = 39"

definition parse_build_sh :: "'t pkg_root \<Rightarrow> (bool \<times> 't pkg_root) option" where
  "parse_build_sh rt =
     (let m = mem (tmp_build_sh rt); done = (\<lambda>m'. rt\<lparr>tmp_build_sh := (tmp_build_sh rt)\<lparr>mem := m'\<rparr>\<rparr>)
      in case strstr_at m 0 PKG_NAME of
           None \<Rightarrow> None
         | Some None \<Rightarrow> Some (False, rt)
         | Some (Some i) \<Rightarrow>
             (case cut_at m (i + 9) 10 of
                None \<Rightarrow> None
              | Some m1 \<Rightarrow>
                  (let quoted = (m1 ! (i + 9) = QUOTE \<or> m1 ! (i + 9) = APOSTROPHE);
                       name = (if quoted then i + 10 else i + 9)
                   in case (if quoted
                            then Option.bind (cut_at m1 name QUOTE) (\<lambda>m2. cut_at m2 name APOSTROPHE)
                            else Some m1) of
                        None \<Rightarrow> None
                      | Some m3 \<Rightarrow>
                          (case c_string (drop name m3) of
                             None \<Rightarrow> None
                           | Some w \<Rightarrow>
                               if list_ex isspace w then Some (False, done m3)
                               else Some (True, (done m3)\<lparr>tmp_name := w\<rparr>)))))"

section \<open>Files\<close>

definition take_ownership :: "'t table2 \<Rightarrow> 't pkg_root \<Rightarrow> bool \<times> 't pkg_root" where
  "take_ownership T rt =
     (let path = contents (tmp_path rt); name = tmp_name rt; t1 = t2_include T (root_log rt) path
      in if (case t2_package_name T t1 path of None \<Rightarrow> False | Some n \<Rightarrow> n \<noteq> name)
         then (False, rt\<lparr>root_log := t1\<rparr>)
         else (True, rt\<lparr>root_log := t2_set_package_name T (t2_include T t1 name) path (Some name)\<rparr>))"

text \<open>
  The loop of \<open>write_file\<close>, with what is written so far; the new descriptor is never closed.
\<close>

function write_file_loop ::
    "allocator \<Rightarrow> tar_state \<Rightarrow> read_fd \<Rightarrow> write_fd \<Rightarrow> nat
       \<Rightarrow> (bool \<times> tar_state \<times> read_fd \<times> write_fd) option" where
  "write_file_loop al st fd out written_size =
     (let chunk_size = min (unat (ts_file_size st) - written_size) (4 * TAR_BLOCK_SIZE)
      in case tar_read_region al (buffer_rewrite (ts_tmp st)) (word_of_nat chunk_size) fd of
           None \<Rightarrow> None
         | Some (ok, b, fd1) \<Rightarrow>
             (let st1 = st\<lparr>ts_tmp := b\<rparr>
              in if \<not> ok then Some (False, st1, fd1, out)
                 else case buffer_write_loop (contents b) 0 out of
                        (r, _, out1) \<Rightarrow>
                          if r < 0 then Some (False, st1, fd1, out1)
                          else if written_size + chunk_size < unat (ts_file_size st)
                               then write_file_loop al st1 fd1 out1 (written_size + chunk_size)
                               else Some (True, st1, fd1, out1)))"
  by pat_completeness auto
termination
  by (relation "measure (\<lambda>(al, st, fd, out, w). unat (ts_file_size st) - w)") (auto simp: TAR_BLOCK_SIZE_def)

declare write_file_loop.simps [simp del]

definition write_file ::
    "allocator \<Rightarrow> 'f pkg_os \<Rightarrow> bytes \<Rightarrow> tar_state \<Rightarrow> read_fd \<Rightarrow> 'f
       \<Rightarrow> (bool \<times> tar_state \<times> read_fd \<times> 'f) option" where
  "write_file al os path st in_fd fs =
     (case os_open_write os False (ts_mode st) path fs of
        (None, fs1) \<Rightarrow> Some (False, st, in_fd, fs1)
      | (Some acc, fs1) \<Rightarrow>
          map_option (\<lambda>(ok, st1, fd1, out). (ok, st1, fd1, os_wrote os path (sent out) fs1))
            (write_file_loop al st in_fd \<lparr>accept = acc, sent = []\<rparr> 0))"

section \<open>Installing\<close>

text \<open>The entries before \<open>build.sh\<close>.\<close>

partial_function (option) install_preamble ::
    "allocator \<Rightarrow> tar_state \<Rightarrow> read_fd \<Rightarrow> (bool \<times> tar_state \<times> read_fd) option" where
  "install_preamble al st fd =
     (case tar_update_fd al st fd of
        None \<Rightarrow> None
      | Some (ok, st1, fd1) \<Rightarrow>
          if \<not> ok \<or> ts_type st1 = TAR_FILE then Some (True, st1, fd1)
          else if ts_type st1 \<noteq> TAR_DIR then Some (False, st1, fd1)
          else install_preamble al st1 fd1)"

text \<open>One entry; the result of \<open>tar_skip_file\<close> is not looked at.\<close>

definition install_entry ::
    "allocator \<Rightarrow> 'f pkg_os \<Rightarrow> 't table2 \<Rightarrow> 't pkg_root \<Rightarrow> tar_state \<Rightarrow> read_fd \<Rightarrow> 'f
       \<Rightarrow> (bool \<times> 't pkg_root \<times> tar_state \<times> read_fd \<times> 'f) option" where
  "install_entry al os T rt st fd fs =
     (case path_cat al (tmp_path rt) (root_path rt) (ts_path st) of
        None \<Rightarrow> None
      | Some b \<Rightarrow>
          (let rt1 = rt\<lparr>tmp_path := b\<rparr>; path = contents b
           in if ts_type st = TAR_DIR then
                (case path_mkdir (os_mkdir os) path True fs of (ok, fs1) \<Rightarrow> Some (ok, rt1, st, fd, fs1))
              else if ts_type st = TAR_FILE then
                (if os_exists os fs path \<and> is_protected rt1 (ts_path st)
                 then map_option (\<lambda>(_, st1, fd1). (True, rt1, st1, fd1, fs)) (tar_skip_file al st fd)
                 else case path_mkdir (os_mkdir os) path False fs of
                        (False, fs1) \<Rightarrow> Some (False, rt1, st, fd, fs1)
                      | (True, fs1) \<Rightarrow>
                          (case take_ownership T rt1 of
                             (False, rt2) \<Rightarrow> Some (False, rt2, st, fd, fs1)
                           | (True, rt2) \<Rightarrow>
                               map_option (\<lambda>(ok, st1, fd1, fs2). (ok, rt2, st1, fd1, fs2))
                                 (write_file al os path st fd fs1)))
              else Some (True, rt1, st, fd, fs)))"

partial_function (option) install_loop ::
    "allocator \<Rightarrow> 'f pkg_os \<Rightarrow> 't table2 \<Rightarrow> 't pkg_root \<Rightarrow> tar_state \<Rightarrow> read_fd \<Rightarrow> 'f
       \<Rightarrow> (bool \<times> 't pkg_root \<times> read_fd \<times> 'f) option" where
  "install_loop al os T rt st fd fs =
     (case tar_update_fd al st fd of
        None \<Rightarrow> None
      | Some (ok, st1, fd1) \<Rightarrow>
          if \<not> ok then Some (True, rt, fd1, fs)
          else case install_entry al os T rt st1 fd1 fs of
                 None \<Rightarrow> None
               | Some (ok, rt2, st2, fd2, fs2) \<Rightarrow>
                   if \<not> ok then Some (False, rt2, fd2, fs2)
                   else install_loop al os T rt2 st2 fd2 fs2)"

definition pkg_install_fd ::
    "allocator \<Rightarrow> 'f pkg_os \<Rightarrow> 't table2 \<Rightarrow> 't pkg_root \<Rightarrow> read_fd \<Rightarrow> 'f
       \<Rightarrow> (bool \<times> 't pkg_root \<times> read_fd \<times> 'f) option" where
  "pkg_install_fd al os T rt fd fs =
     (case install_preamble al tar_state_zero fd of
        None \<Rightarrow> None
      | Some (ok, st, fd1) \<Rightarrow>
          if \<not> ok \<or> \<not> verify_build_sh_name st then Some (False, rt, fd1, fs)
          else case read_file_contents al (tmp_build_sh rt) st fd1 of
                 None \<Rightarrow> None
               | Some (ok, b, fd2) \<Rightarrow>
                   (let rt1 = rt\<lparr>tmp_build_sh := b\<rparr>
                    in if \<not> ok then Some (False, rt1, fd2, fs)
                       else case parse_build_sh rt1 of
                              None \<Rightarrow> None
                            | Some (False, rt2) \<Rightarrow> Some (False, rt2, fd2, fs)
                            | Some (True, rt2) \<Rightarrow> install_loop al os T rt2 st fd2 fs))"

section \<open>The parts\<close>

lemma cut_at_found:
  assumes "c \<noteq> 0" and "c \<notin> set s" and "0 \<notin> set (s @ c # t)"
  shows "cut_at (p @ s @ c # t @ 0 # r) (length p) c = Some (p @ s @ 0 # t @ 0 # r)"
proof -
  have "c_string (s @ c # t @ 0 # r) = Some (s @ c # t)"
    using c_string_append [of "s @ c # t" r] assms(3) by simp
  moreover have "find_sub [c] (s @ c # t) = Some (length s)"
  proof -
    have "takeWhile (\<lambda>x. x \<noteq> c) s = s" using assms(2) by (auto simp: takeWhile_eq_all_conv)
    then show ?thesis by (simp add: find_sub_byte takeWhile_tail)
  qed
  ultimately show ?thesis by (simp add: cut_at_def strstr_at_def list_update_append)
qed

lemma cut_at_absent:
  assumes "c \<notin> set s" and "0 \<notin> set s"
  shows "cut_at (p @ s @ 0 # r) (length p) c = Some (p @ s @ 0 # r)"
  using assms by (simp add: cut_at_def strstr_at_def c_string_append find_sub_byte)

text \<open>A script that names the package with or without quotes, followed by the end of the line.\<close>

definition names_package :: "bytes \<Rightarrow> bytes \<Rightarrow> bool" where
  "names_package script name \<longleftrightarrow>
     (\<exists>pre q post. script = pre @ PKG_NAME @ q @ name @ q @ 10 # post \<and>
        find_sub PKG_NAME script = Some (length pre) \<and> q \<in> {[], [QUOTE], [APOSTROPHE]} \<and> 0 \<notin> set script \<and>
        (\<forall>c \<in> set name. \<not> isspace c \<and> c \<noteq> QUOTE \<and> c \<noteq> APOSTROPHE))"

lemma quote_simps [simp]: "QUOTE \<noteq> 0" "APOSTROPHE \<noteq> 0" "QUOTE \<noteq> APOSTROPHE" "APOSTROPHE \<noteq> QUOTE"
  "QUOTE \<noteq> 10" "APOSTROPHE \<noteq> 10" "10 \<noteq> QUOTE" "10 \<noteq> APOSTROPHE" "0 \<noteq> QUOTE" "0 \<noteq> APOSTROPHE"
  by (simp_all add: QUOTE_def APOSTROPHE_def)

lemma length_PKG_NAME [simp]: "length PKG_NAME = 9"
  by (simp add: PKG_NAME_def str_def)

lemma parse_build_sh_names:
  assumes "names_package script name" and "mem (tmp_build_sh rt) = script @ 0 # r"
  shows "\<exists>b. parse_build_sh rt = Some (True, rt\<lparr>tmp_build_sh := b, tmp_name := name\<rparr>)"
proof -
  from assms(1) obtain pre q post where s: "script = pre @ PKG_NAME @ q @ name @ q @ 10 # post"
      "find_sub PKG_NAME script = Some (length pre)" "q \<in> {[], [QUOTE], [APOSTROPHE]}" "0 \<notin> set script"
      "\<forall>c \<in> set name. \<not> isspace c \<and> c \<noteq> QUOTE \<and> c \<noteq> APOSTROPHE"
    unfolding names_package_def by blast
  let ?p = "pre @ PKG_NAME"
  have m: "mem (tmp_build_sh rt) = ?p @ (q @ name @ q) @ 10 # post @ 0 # r" using assms(2) s(1) by simp
  have st: "strstr_at (mem (tmp_build_sh rt)) 0 PKG_NAME = Some (Some (length pre))"
    unfolding strstr_at_def assms(2) using c_string_append [OF s(4)] s(2) by simp
  have nq: "10 \<notin> set (q @ name @ q)"   proof -
    have "10 \<notin> set name" using s(5) isspace_space(2) by blast
    then show ?thesis using s(3) by auto
  qed
  have z: "0 \<notin> set ((q @ name @ q) @ 10 # post)" "0 \<notin> set name" using s(1,4) by auto
  have c1: "cut_at (?p @ (q @ name @ q) @ 10 # post @ 0 # r) (length ?p) 10
      = Some (?p @ (q @ name @ q) @ 0 # post @ 0 # r)"
    by (rule cut_at_found [OF _ nq z(1)]) simp
  have lp: "length pre + 9 = length ?p" by simp
  have nth: "(?p @ xs) ! (length pre + 9) = hd (xs @ [0])" if "xs \<noteq> []" for xs
    unfolding lp using that by (simp add: nth_append hd_conv_nth)
  have ws: "\<not> list_ex isspace name" using s(5) by (auto simp: list_ex_iff)
  note unf = parse_build_sh_def Let_def m st [unfolded m] option.case lp
  consider "q = []" | "q = [QUOTE]" | "q = [APOSTROPHE]" using s(3) by blast
  then show ?thesis
  proof cases
    case 1
    have h: "\<not> ((?p @ ([] @ name @ []) @ 0 # post @ 0 # r) ! length ?p = QUOTE \<or>
        (?p @ ([] @ name @ []) @ 0 # post @ 0 # r) ! length ?p = APOSTROPHE)"
      using s(5) by (cases name) (auto simp: nth_append)
    have cs: "c_string (drop (length ?p) (?p @ ([] @ name @ []) @ 0 # post @ 0 # r)) = Some name"
      using c_string_append [OF z(2)] by simp
    show ?thesis unfolding unf c1 unfolding 1 if_not_P [OF h] option.case cs if_not_P [OF ws] by auto
  next
    case 2
    let ?p1 = "?p @ [QUOTE]"
    have h: "(?p @ ([QUOTE] @ name @ [QUOTE]) @ 0 # post @ 0 # r) ! length ?p = QUOTE \<or>
        (?p @ ([QUOTE] @ name @ [QUOTE]) @ 0 # post @ 0 # r) ! length ?p = APOSTROPHE"
      by (simp add: nth_append)
    have "cut_at (?p1 @ name @ QUOTE # [] @ 0 # post @ 0 # r) (length ?p1) QUOTE
        = Some (?p1 @ name @ 0 # [] @ 0 # post @ 0 # r)"
      using s(5) z(2) by (intro cut_at_found) auto
    moreover have "cut_at (?p1 @ name @ 0 # 0 # post @ 0 # r) (length ?p1) APOSTROPHE
        = Some (?p1 @ name @ 0 # 0 # post @ 0 # r)"
      using s(5) z(2) by (intro cut_at_absent) auto
    ultimately have c2: "Option.bind (cut_at (?p @ ([QUOTE] @ name @ [QUOTE]) @ 0 # post @ 0 # r) (length pre + 10) QUOTE)
        (\<lambda>m2. cut_at m2 (length pre + 10) APOSTROPHE) = Some (?p1 @ name @ 0 # 0 # post @ 0 # r)"
      by simp
    have cs: "c_string (drop (length pre + 10) (?p1 @ name @ 0 # 0 # post @ 0 # r)) = Some name"
      using c_string_append [OF z(2)] by simp
    show ?thesis unfolding unf c1 unfolding 2 if_P [OF h] option.case c2 cs if_not_P [OF ws] by auto
  next
    case 3
    let ?p1 = "?p @ [APOSTROPHE]"
    have h: "(?p @ ([APOSTROPHE] @ name @ [APOSTROPHE]) @ 0 # post @ 0 # r) ! length ?p = QUOTE \<or>
        (?p @ ([APOSTROPHE] @ name @ [APOSTROPHE]) @ 0 # post @ 0 # r) ! length ?p = APOSTROPHE"
      by (simp add: nth_append)
    have "cut_at (?p1 @ (name @ [APOSTROPHE]) @ 0 # post @ 0 # r) (length ?p1) QUOTE
        = Some (?p1 @ (name @ [APOSTROPHE]) @ 0 # post @ 0 # r)"
      using s(5) z(2) by (intro cut_at_absent) auto
    moreover have "cut_at (?p1 @ name @ APOSTROPHE # [] @ 0 # post @ 0 # r) (length ?p1) APOSTROPHE
        = Some (?p1 @ name @ 0 # [] @ 0 # post @ 0 # r)"
      using s(5) z(2) by (intro cut_at_found) auto
    ultimately have c2: "Option.bind (cut_at (?p @ ([APOSTROPHE] @ name @ [APOSTROPHE]) @ 0 # post @ 0 # r) (length pre + 10) QUOTE)
        (\<lambda>m2. cut_at m2 (length pre + 10) APOSTROPHE) = Some (?p1 @ name @ 0 # 0 # post @ 0 # r)"
      by simp
    have cs: "c_string (drop (length pre + 10) (?p1 @ name @ 0 # 0 # post @ 0 # r)) = Some name"
      using c_string_append [OF z(2)] by simp
    show ?thesis unfolding unf c1 unfolding 3 if_P [OF h] option.case c2 cs if_not_P [OF ws] by auto
  qed
qed

section \<open>Writing and skipping the contents of a file\<close>

lemma tar_padding_mod: "n mod 512 = 0 \<Longrightarrow> tar_padding n = []"
  by (simp add: tar_padding_def tar_write_padding_def TAR_BLOCK_SIZE_def)

lemma tar_padding_tail: "w \<le> n \<Longrightarrow> w mod 512 = 0 \<Longrightarrow> tar_padding (n - w) = tar_padding n"
  using mod_add_right_eq [of "n - w" w 512] by (simp add: tar_padding_def tar_write_padding_def TAR_BLOCK_SIZE_def)

text \<open>One chunk of a file.\<close>

lemma write_chunk:
  assumes "tar_room al st fd" and "length piece < 2 ^ 57"
    and "fd_data fd = piece @ tar_padding (length piece) @ rest"
  obtains b fd' where
    "tar_read_region al (buffer_rewrite (ts_tmp st)) (word_of_nat (length piece)) fd = Some (True, b, fd')"
    and "contents b = piece" and "tar_room al st fd'" and "fd_data fd' = rest"
proof -
  have u: "used (buffer_rewrite (ts_tmp st)) = 0" by (simp add: buffer_rewrite_def)
  have l: "length piece = unat (word_of_nat (length piece) :: size_t)" using assms(2) by (simp add: unat_of_nat)
  from tar_read_region_data [OF assms(1) u assms(3) l, of st] obtain b fd' where
    r: "tar_read_region al (buffer_rewrite (ts_tmp st)) (word_of_nat (length piece)) fd = Some (True, b, fd')"
      "(word_of_nat (length piece) :: size_t) \<noteq> 0 \<longrightarrow> contents b = piece" "tar_room al st fd'" "fd_data fd' = rest"
    by blast
  have "contents b = piece"
  proof (cases "(word_of_nat (length piece) :: size_t) = 0")
    case True
    then have "b = buffer_rewrite (ts_tmp st)" "piece = []"
      using r(1) l by (simp_all add: tar_read_region_def)
    then show ?thesis by (simp add: contents_def buffer_rewrite_def)
  qed (use r(2) in simp)
  then show ?thesis using r that by blast
qed

lemma write_file_loop_data:
  assumes "tar_room al st fd" and "length data = unat (ts_file_size st)" and "length data < 2 ^ 57"
    and "w \<le> length data" and "w mod 512 = 0"
    and "fd_data fd = drop w data @ tar_padding (length data) @ rest" and "fd_accepts out"
  shows "\<exists>b fd' out'. write_file_loop al st fd out w = Some (True, st\<lparr>ts_tmp := b\<rparr>, fd', out') \<and>
    sent out' = sent out @ drop w data \<and> tar_room al (st\<lparr>ts_tmp := b\<rparr>) fd' \<and> fd_data fd' = rest"
  using assms
proof (induction "length data - w" arbitrary: st fd out w rule: less_induct)
  case less
  let ?n = "unat (ts_file_size st)"
  define chunk where "chunk = min (?n - w) (4 * TAR_BLOCK_SIZE)"
  define piece where "piece = take chunk (drop w data)"
  define more where "more = drop (w + chunk) data"
  have lp: "length piece = chunk" using less.prems(2) by (simp add: piece_def chunk_def)
  have small: "length piece < 2 ^ 57" using lp less.prems(2,3) by (simp add: chunk_def)
  have d: "drop w data = piece @ more" by (simp add: piece_def more_def add.commute drop_drop [symmetric] del: drop_drop)
  have again: "w + chunk < ?n \<longleftrightarrow> more \<noteq> []" using less.prems(2) by (auto simp: more_def)
  have chunk_512: "w + chunk < ?n \<Longrightarrow> chunk = 2048" by (auto simp: chunk_def TAR_BLOCK_SIZE_def)
  have pad: "tar_padding (length data) = (if more = [] then tar_padding (length piece) else tar_padding (length data))"
  proof (cases "more = []")
    case True
    then have "chunk = length data - w" using again less.prems(2,4) by (simp add: chunk_def)
    then show ?thesis using True tar_padding_tail [OF less.prems(4,5)] lp by simp
  qed simp
  have "fd_data fd = piece @ tar_padding (length piece) @ (if more = [] then rest else more @ tar_padding (length data) @ rest)"
  proof (cases "more = []")
    case True
    then show ?thesis using less.prems(6) d pad by simp
  next
    case False
    then have "tar_padding (length piece) = []" using again chunk_512 lp by (simp add: tar_padding_mod)
    then show ?thesis using less.prems(6) d False by simp
  qed
  from write_chunk [OF less.prems(1) small this] obtain b fd1 where
    r: "tar_read_region al (buffer_rewrite (ts_tmp st)) (word_of_nat chunk) fd = Some (True, b, fd1)"
      "contents b = piece" "tar_room al st fd1"
      "fd_data fd1 = (if more = [] then rest else more @ tar_padding (length data) @ rest)"
    unfolding lp by blast
  obtain out1 where o: "buffer_write_loop piece 0 out = (0, length piece, out1)"
      "sent out1 = sent out @ piece" "fd_accepts out1"
    using buffer_write_loop_accepts [OF less.prems(7), of 0 piece] by auto
  let ?st = "st\<lparr>ts_tmp := b\<rparr>"
  have room: "tar_room al ?st fd1" using r(3) by (simp add: tar_room_def)
  show ?case
  proof (cases "more = []")
    case True
    then have "write_file_loop al st fd out w = Some (True, ?st, fd1, out1)"
      using r(1,2) o(1) again
      by (simp add: write_file_loop.simps [of al st] Let_def chunk_def [symmetric])
    then show ?thesis using True room r(4) o(2) d by auto
  next
    case False
    then have lt: "w + chunk < ?n" "chunk = 2048" using again chunk_512 by simp_all
    have "write_file_loop al st fd out w = write_file_loop al ?st fd1 out1 (w + chunk)"
      using r(1,2) o(1) lt(1)
      by (simp add: write_file_loop.simps [of al st] Let_def chunk_def [symmetric])
    moreover have "\<exists>b' fd' out'. write_file_loop al ?st fd1 out1 (w + chunk) = Some (True, ?st\<lparr>ts_tmp := b'\<rparr>, fd', out') \<and>
        sent out' = sent out1 @ drop (w + chunk) data \<and> tar_room al (?st\<lparr>ts_tmp := b'\<rparr>) fd' \<and> fd_data fd' = rest"
    proof (rule less.hyps)
      show "length data - (w + chunk) < length data - w" using lt less.prems(2) by simp
      show "fd_data fd1 = drop (w + chunk) data @ tar_padding (length data) @ rest"
        using r(4) False by (simp add: more_def)
      show "(w + chunk) mod 512 = 0" using less.prems(5) lt(2) by (simp add: mod_add_eq [symmetric])
    qed (use room less.prems lt o(3) in simp_all)
    ultimately show ?thesis using o(2) d by (simp add: more_def)
  qed
qed

text \<open>Skipping a file takes its blocks from the descriptor.\<close>

lemma tar_skip_blocks_data:
  assumes "tar_room al st fd" and "length d = 512 * k" and "fd_data fd = d @ rest"
  shows "\<exists>b fd'. tar_skip_blocks k al st fd = Some (True, st\<lparr>ts_tmp := b\<rparr>, fd') \<and>
    tar_room al (st\<lparr>ts_tmp := b\<rparr>) fd' \<and> fd_data fd' = rest"
  using assms
proof (induction k arbitrary: st fd d)
  case 0
  then show ?case by (intro exI [of _ "ts_tmp st"]) simp
next
  case (Suc k)
  define piece where "piece = take 512 d"
  have lp: "length piece = 512" using Suc.prems(2) by (simp add: piece_def)
  have "fd_data fd = piece @ tar_padding (length piece) @ (drop 512 d @ rest)"
    using Suc.prems(3) lp by (simp add: tar_padding_mod piece_def)
  moreover have "length piece < 2 ^ 57" using lp by simp
  ultimately obtain b fd1 where
    r: "tar_read_region al (buffer_rewrite (ts_tmp st)) (word_of_nat TAR_BLOCK_SIZE) fd = Some (True, b, fd1)"
      "tar_room al st fd1" "fd_data fd1 = drop 512 d @ rest"
    using write_chunk [OF Suc.prems(1)] unfolding TAR_BLOCK_SIZE_def by (metis lp)
  have "tar_room al (st\<lparr>ts_tmp := b\<rparr>) fd1" "length (drop 512 d) = 512 * k"
    using r(2) Suc.prems(2) by (simp_all add: tar_room_def)
  from Suc.IH [OF this r(3)] show ?case using r(1) by auto
qed

lemma tar_skip_file_data:
  assumes "tar_room al st fd" and "length data = unat (ts_file_size st)"
    and "fd_data fd = data @ tar_padding (length data) @ rest"
  shows "\<exists>b fd'. tar_skip_file al st fd = Some (True, st\<lparr>ts_tmp := b\<rparr>, fd') \<and>
    tar_room al (st\<lparr>ts_tmp := b\<rparr>) fd' \<and> fd_data fd' = rest"
proof -
  let ?d = "data @ tar_padding (length data)"
  have "unat (ts_file_size st) < 2 ^ 58" using assms by (simp add: tar_room_def)
  then have l: "length ?d = unat (round_blocks (ts_file_size st))"
    using assms(2) by (simp add: unat_round_blocks tar_write_padding_append)
  have "length ?d mod 512 = 0"
    by (simp add: tar_padding_def tar_write_padding_def TAR_BLOCK_SIZE_def Let_def mod_add_left_eq [symmetric, of "length data"])
  then have k: "length ?d = 512 * (unat (round_blocks (ts_file_size st)) div TAR_BLOCK_SIZE)"
    unfolding l TAR_BLOCK_SIZE_def by (metis mult_div_mod_eq add_0_right)
  have "fd_data fd = ?d @ rest" using assms(3) by simp
  from tar_skip_blocks_data [OF assms(1) k this] show ?thesis by (simp add: tar_skip_file_def)
qed

section \<open>What reading an archive takes from the descriptor\<close>

lemma sys_read_fd_size_le: "sys_read fd n = (r, fd') \<Longrightarrow> fd_size fd' \<le> fd_size fd"
  by (induction fd n rule: sys_read.induct) (auto simp: fd_size_def split: if_splits)

lemma buffer_read_fd_size_le: "buffer_read al b m i fd = Some (r, b', fd') \<Longrightarrow> fd_size fd' \<le> fd_size fd"
  by (auto simp: buffer_read_def Let_def split: if_splits option.splits prod.splits dest!: sys_read_fd_size_le)

lemma buffer_read_zero_used:
  assumes "buffer_read al b m i fd = Some (0, b', fd')"
  shows "used b' = used b"
proof -
  have u: "used (snd (buffer_realloc al b sz n)) = used b" for sz n
    by (simp add: buffer_realloc_def Let_def split: option.split)
  have p: "buffer_push al b 0 = Some c \<Longrightarrow> used c = used b + 1" for c
    unfolding buffer_push_def Let_def by (cases "used b = length (mem b)") (auto simp: u split: if_splits)
  show ?thesis
  proof (cases "used b \<ge> (if m \<noteq> 0 then m else size_max - 1)")
    case True
    then show ?thesis using assms p by (auto simp: buffer_read_def Let_def split: option.splits)
  next
    case False
    show ?thesis
      using assms unfolding buffer_read_def Let_def if_not_P [OF False]
      by (auto split: option.splits prod.splits dest!: mem_write_used)
  qed
qed

lemma buffer_read_loop_fd_size:
  assumes "buffer_read_loop al b m i fd = Some (r, b', fd')"
  shows "fd_size fd' \<le> fd_size fd" and "0 \<le> r \<Longrightarrow> used b < used b' \<Longrightarrow> fd_size fd' < fd_size fd"
proof -
  have "fd_size fd' \<le> fd_size fd \<and> (0 \<le> r \<longrightarrow> used b < used b' \<longrightarrow> fd_size fd' < fd_size fd)"
    using assms
  proof (induction al b m i fd rule: buffer_read_loop.induct)
    case (1 al b m i fd)
    from "1.prems" obtain r1 b1 fd1 where r: "buffer_read al b m i fd = Some (r1, b1, fd1)"
      by (subst (asm) buffer_read_loop.simps) (auto split: option.splits)
    show ?case
    proof (cases "0 < r1")
      case True
      then have "buffer_read_loop al b1 m i fd1 = Some (r, b', fd')"
        using "1.prems" r by (subst (asm) buffer_read_loop.simps) simp
      from "1.IH" [OF r refl refl True this] buffer_read_fd_size [OF r True] show ?thesis by simp
    next
      case False
      then have e: "r1 = r \<and> b1 = b' \<and> fd1 = fd'"
        using "1.prems" r by (subst (asm) buffer_read_loop.simps) simp
      have "used b' = used b" if "0 \<le> r"
        using buffer_read_zero_used [of al b m i fd b' fd'] r e False that by simp
      then show ?thesis using buffer_read_fd_size_le [OF r] e by auto
    qed
  qed
  then show "fd_size fd' \<le> fd_size fd" and "0 \<le> r \<Longrightarrow> used b < used b' \<Longrightarrow> fd_size fd' < fd_size fd" by blast+
qed

lemma tar_update_fd_fd_size:
  assumes "tar_update_fd al st fd = Some (ok, st', fd')"
  shows "fd_size fd' \<le> fd_size fd" and "ok \<Longrightarrow> fd_size fd' < fd_size fd"
proof -
  let ?P = "\<lambda>fd (ok, st', fd'). fd_size fd' \<le> fd_size fd \<and> (ok \<longrightarrow> fd_size fd' < fd_size fd)"
  have "?P fd (ok, st', fd')"
  proof (rule tar_update_fd.raw_induct [where P = "\<lambda>al st fd r. ?P fd r", OF _ assms])
    fix go al st fd r
    assume IH: "\<And>al st fd r. go al st fd = Some r \<Longrightarrow> ?P fd r"
      and e: "(case buffer_read_loop al (buffer_rewrite (ts_tmp st)) TAR_BLOCK_SIZE 0 fd of
        None \<Rightarrow> None
      | Some (n, b, fd1) \<Rightarrow>
          (let st1 = st\<lparr>ts_tmp := b\<rparr>
           in if n < 0 then Some (False, tar_failed st1, fd1)
              else if used b < TAR_BLOCK_SIZE then Some (False, tar_failed st1, fd1)
              else case tar_update_mem st1 (take (used b) (mem b)) (drop (used b) (mem b)) of
                     None \<Rightarrow> None
                   | Some (ok, st2, _) \<Rightarrow>
                       if \<not> ok then Some (False, st2, fd1)
                       else if ts_ready st2 then Some (True, st2, fd1)
                       else go al st2 fd1)) = Some r"
    from e obtain n b fd1 where
      l: "buffer_read_loop al (buffer_rewrite (ts_tmp st)) TAR_BLOCK_SIZE 0 fd = Some (n, b, fd1)"
      by (auto split: option.splits)
    note s = buffer_read_loop_fd_size [OF l]
    have u: "used (buffer_rewrite (ts_tmp st)) = 0" by (simp add: buffer_rewrite_def)
    show "?P fd r"
    proof (cases "n < 0 \<or> used b < TAR_BLOCK_SIZE")
      case True
      then show ?thesis using e l s(1) by (auto simp: Let_def split: if_splits)
    next
      case False
      then have lt: "fd_size fd1 < fd_size fd" using s(2) u by (simp add: TAR_BLOCK_SIZE_def)
      have "?P fd1 r" if "go al st2 fd1 = Some r" for st2 using IH [OF that] .
      then show ?thesis using e l lt False by (fastforce simp: Let_def split: option.splits if_splits prod.splits)
    qed
  qed
  then show "fd_size fd' \<le> fd_size fd" and "ok \<Longrightarrow> fd_size fd' < fd_size fd" by simp_all
qed

lemma tar_read_region_fd_size: "tar_read_region al buf n fd = Some (ok, b, fd') \<Longrightarrow> fd_size fd' \<le> fd_size fd"
  by (auto simp: tar_read_region_def split: if_splits option.splits dest: buffer_read_loop_fd_size(1))

lemma tar_skip_blocks_fd_size: "tar_skip_blocks k al st fd = Some (ok, st', fd') \<Longrightarrow> fd_size fd' \<le> fd_size fd"
proof (induction k al st fd rule: tar_skip_blocks.induct)
  case (2 k al st fd)
  obtain ok1 b fd1 where r: "tar_read_region al (buffer_rewrite (ts_tmp st)) (word_of_nat TAR_BLOCK_SIZE) fd = Some (ok1, b, fd1)"
    using "2.prems" by (auto split: option.splits)
  from tar_read_region_fd_size [OF r] "2.IH" [OF r refl refl] "2.prems" r show ?case by (cases ok1) auto
qed simp

lemma write_file_loop_fd_size: "write_file_loop al st fd out w = Some (ok, st', fd', out') \<Longrightarrow> fd_size fd' \<le> fd_size fd"
proof (induction al st fd out w rule: write_file_loop.induct)
  case (1 al st fd out w)
  let ?c = "min (unat (ts_file_size st) - w) (4 * TAR_BLOCK_SIZE)"
  obtain ok1 b fd1 where r: "tar_read_region al (buffer_rewrite (ts_tmp st)) (word_of_nat ?c) fd = Some (ok1, b, fd1)"
    using "1.prems" by (subst (asm) write_file_loop.simps) (auto simp: Let_def split: option.splits)
  obtain n d out1 where o: "buffer_write_loop (contents b) 0 out = (n, d, out1)" by (cases "buffer_write_loop (contents b) 0 out")
  note le = tar_read_region_fd_size [OF r]
  show ?case
  proof (cases "ok1 \<and> \<not> n < 0 \<and> w + ?c < unat (ts_file_size st)")
    case True
    then have "write_file_loop al (st\<lparr>ts_tmp := b\<rparr>) fd1 out1 (w + ?c) = Some (ok, st', fd', out')"
      using "1.prems" r o by (subst (asm) write_file_loop.simps) (simp add: Let_def)
    with "1.IH" [OF refl r refl refl refl _ o [symmetric]] True le show ?thesis by auto
  next
    case False
    then have "fd' = fd1"
      using "1.prems" r o by (subst (asm) write_file_loop.simps) (auto simp: Let_def split: if_splits)
    then show ?thesis using le by simp
  qed
qed

section \<open>What installing does to the log and the files\<close>

text \<open>
  The abstract effect of an item on the log and the state of the system: directories are made,
  files are written where they may be, unless they are protected and exist, and everything
  else is ignored. \<open>rt\<close> gives the root's path, the protected paths and the name of the package.
\<close>

definition join_path :: "bytes \<Rightarrow> bytes \<Rightarrow> bytes" where
  "join_path x y =
     (let x' = rev (dropWhile (\<lambda>c. c = PATH_SEPARATOR) (rev x))
      in if x' = [] then y else x' @ [PATH_SEPARATOR] @ dropWhile (\<lambda>c. c = PATH_SEPARATOR) y)"

definition owns :: "'t table2 \<Rightarrow> 't \<Rightarrow> bytes \<Rightarrow> bytes \<Rightarrow> bool" where
  "owns T t path name \<longleftrightarrow> (case owner T t path of None \<Rightarrow> True | Some n \<Rightarrow> n = name)"

fun install_item :: "'f pkg_os \<Rightarrow> 't table2 \<Rightarrow> 't pkg_root \<Rightarrow> tar_item \<Rightarrow> 't \<times> 'f \<Rightarrow> bool \<times> 't \<times> 'f" where
  "install_item os T rt (args, data) (t, fs) =
     (let path = join_path (root_path rt) (entry_name args)
      in if a_type args = TAR_DIR then
           (case path_mkdir (os_mkdir os) path True fs of (ok, fs1) \<Rightarrow> (ok, t, fs1))
         else if a_type args = TAR_FILE then
           (if os_exists os fs path \<and> is_protected rt (entry_name args) then (True, t, fs)
            else case path_mkdir (os_mkdir os) path False fs of
                   (False, fs1) \<Rightarrow> (False, t, fs1)
                 | (True, fs1) \<Rightarrow>
                     if owns T t path (tmp_name rt)
                     then (case os_open_write os False (ucast (a_mode args)) path fs1 of
                             (None, fs2) \<Rightarrow> (False, set_owner T t path (tmp_name rt), fs2)
                           | (Some acc, fs2) \<Rightarrow> (True, set_owner T t path (tmp_name rt), os_wrote os path data fs2))
                     else (False, t2_include T t path, fs1))
         else (True, t, fs))"

fun install_items :: "'f pkg_os \<Rightarrow> 't table2 \<Rightarrow> 't pkg_root \<Rightarrow> tar_item list \<Rightarrow> 't \<times> 'f \<Rightarrow> bool \<times> 't \<times> 'f" where
  "install_items os T rt [] s = (True, s)"
| "install_items os T rt (item # items) s =
     (case install_item os T rt item s of
        (False, s') \<Rightarrow> (False, s')
      | (True, s') \<Rightarrow> install_items os T rt items s')"

text \<open>Every descriptor that is opened for writing accepts what is written to it.\<close>

definition os_accepts :: "'f pkg_os \<Rightarrow> bool" where
  "os_accepts os \<longleftrightarrow>
     (\<forall>trunc mode path fs acc fs'. os_open_write os trunc mode path fs = (Some acc, fs') \<longrightarrow>
        fd_accepts \<lparr>accept = acc, sent = []\<rparr>)"

text \<open>Roots that differ from another one at most in the path buffer and in the log.\<close>

definition same_root :: "'t pkg_root \<Rightarrow> 't pkg_root \<Rightarrow> bool" where
  "same_root rt rt' \<longleftrightarrow>
     root_path rt' = root_path rt \<and> tmp_name rt' = tmp_name rt \<and> protected_paths rt' = protected_paths rt"

lemma install_item_same: "same_root rt rt' \<Longrightarrow> install_item os T rt' (args, data) (t, fs) = install_item os T rt (args, data) (t, fs)"
  unfolding install_item.simps by (simp only: same_root_def is_protected_def)

lemma write_file_data:
  assumes "os_accepts os" and "tar_room al st fd" and "length data = unat (ts_file_size st)" and "length data < 2 ^ 57"
    and "fd_data fd = data @ tar_padding (length data) @ rest"
    and "os_open_write os False (ts_mode st) path fs = (Some acc, fs1)"
  shows "\<exists>b fd'. write_file al os path st fd fs = Some (True, st\<lparr>ts_tmp := b\<rparr>, fd', os_wrote os path data fs1) \<and>
    tar_room al (st\<lparr>ts_tmp := b\<rparr>) fd' \<and> fd_data fd' = rest"
proof -
  have a: "fd_accepts \<lparr>accept = acc, sent = []\<rparr>" using assms(1,6) unfolding os_accepts_def by blast
  have d: "fd_data fd = drop 0 data @ tar_padding (length data) @ rest" using assms(5) by simp
  from write_file_loop_data [OF assms(2,3,4) le0 _ d a] show ?thesis
    using assms(6) by (auto simp: write_file_def)
qed

context pkg_log
begin

lemma take_ownership_owns:
  assumes "inv (root_log rt)" and "count (root_log rt) + 2 \<le> limit"
  shows "take_ownership T rt =
    (if owns T (root_log rt) (contents (tmp_path rt)) (tmp_name rt)
     then (True, rt\<lparr>root_log := set_owner T (root_log rt) (contents (tmp_path rt)) (tmp_name rt)\<rparr>)
     else (False, rt\<lparr>root_log := t2_include T (root_log rt) (contents (tmp_path rt))\<rparr>))"
proof -
  let ?t = "root_log rt" and ?p = "contents (tmp_path rt)"
  have "count ?t < limit" using assms(2) by simp
  note i = include_law [OF assms(1) this, of ?p]
  have "map_of (t2_items T (t2_include T ?t ?p)) ?p = Some (case map_of (t2_items T ?t) ?p of None \<Rightarrow> None | Some v \<Rightarrow> v)"
    using i by (auto split: option.splits)
  from name_law [OF conjunct1 [OF i] this] show ?thesis
    by (auto simp: take_ownership_def Let_def owns_def owner_def set_owner_def split: option.splits)
qed

text \<open>An entry of the archive that the reader has come to.\<close>

lemma install_entry_item:
  assumes "os_accepts os" and "tar_room al st fd" and "ts_type st = a_type args" and "ts_path st = entry_name args"
    and "ts_mode st = ucast (a_mode args)" and "a_type args = TAR_FILE \<longrightarrow> ts_file_size st = a_size args"
    and "fd_data fd = item_data (args, data) @ rest" and "a_type args = TAR_FILE \<longrightarrow> length data = unat (a_size args)"
    and "length (entry_name args) < 2 ^ 32" and "length (root_path rt) < 2 ^ 32" and "buffer_wf (tmp_path rt)"
    and "inv (root_log rt)" and "count (root_log rt) + 2 \<le> limit"
    and "install_item os T rt (args, data) (root_log rt, fs) = (ok, t', fs')"
  shows "\<exists>rt' st' fd'. install_entry al os T rt st fd fs = Some (ok, rt', st', fd', fs') \<and> root_log rt' = t' \<and>
    same_root rt rt' \<and> buffer_wf (tmp_path rt') \<and> (ok \<longrightarrow> ts_type st' = ts_type st \<and> tar_room al st' fd' \<and> fd_data fd' = rest)"
proof -
  have al: "\<forall>m < 2 ^ 63. can_alloc al m" using assms(2) by (simp add: tar_room_def)
  have "length (root_path rt) + length (entry_name args) + 2 < 2 ^ 60" using assms(9,10) by simp
  from path_cat_contents [OF assms(11) this al] obtain b where
    b: "path_cat al (tmp_path rt) (root_path rt) (entry_name args) = Some b" "buffer_wf b"
      "contents b = join_path (root_path rt) (entry_name args)"
    unfolding join_path_def by blast
  let ?rt = "rt\<lparr>tmp_path := b\<rparr>" and ?path = "join_path (root_path rt) (entry_name args)"
  have sr: "same_root rt ?rt" by (simp add: same_root_def)
  have fits: "a_type args = TAR_FILE \<Longrightarrow> fd_data fd = data @ tar_padding (length data) @ rest \<and>
      length data = unat (ts_file_size st) \<and> length data < 2 ^ 57"
    using assms(2,6-8) by (simp add: item_data_def tar_room_def)
  show ?thesis
  proof (cases "a_type args = TAR_FILE")
    case True
    note f = fits [OF True]
    have ty: "ts_type st = TAR_FILE" "ts_type st \<noteq> TAR_DIR" using True assms(3) by simp_all
    note entry = install_entry_def assms(4) b(1,3) option.case Let_def ty if_False if_True simp_thms
    note item = assms(14) [unfolded install_item.simps Let_def True, simplified]
    show ?thesis
    proof (cases "os_exists os fs ?path \<and> is_protected rt (entry_name args)")
      case True
      then have p: "os_exists os fs ?path \<and> is_protected ?rt (entry_name args)" by (simp add: is_protected_def)
      from tar_skip_file_data [OF assms(2)] f obtain c fd' where
        "tar_skip_file al st fd = Some (True, st\<lparr>ts_tmp := c\<rparr>, fd')"
        "tar_room al (st\<lparr>ts_tmp := c\<rparr>) fd'" "fd_data fd' = rest" by blast
      then show ?thesis using True item p b(2) sr by (auto simp: entry)
    next
      case False
      then have p: "\<not> (os_exists os fs ?path \<and> is_protected ?rt (entry_name args))" by (simp add: is_protected_def)
      obtain mk fs1 where mk: "path_mkdir (os_mkdir os) ?path False fs = (mk, fs1)" by fastforce
      note it1 = item [unfolded if_not_P [OF False] mk prod.case]
      have own: "take_ownership T ?rt =
          (if owns T (root_log rt) ?path (tmp_name rt)
           then (True, ?rt\<lparr>root_log := set_owner T (root_log rt) ?path (tmp_name rt)\<rparr>)
           else (False, ?rt\<lparr>root_log := t2_include T (root_log rt) ?path\<rparr>))"
        using take_ownership_owns [of ?rt] assms(12,13) b(3) by simp
      show ?thesis
      proof (cases "mk \<and> owns T (root_log rt) ?path (tmp_name rt)")
        case False
        then show ?thesis using it1 p mk own sr b(2)
          by (cases mk) (auto simp: entry same_root_def)
      next
        case True
        then have mkT: "mk = True" and ow: "owns T (root_log rt) ?path (tmp_name rt)" by simp_all
        let ?rt2 = "?rt\<lparr>root_log := set_owner T (root_log rt) ?path (tmp_name rt)\<rparr>"
        have e: "install_entry al os T rt st fd fs =
            map_option (\<lambda>(ok, st1, fd1, fs2). (ok, ?rt2, st1, fd1, fs2)) (write_file al os ?path st fd fs1)"
          using p mk mkT own ow by (auto simp: entry)
        have sr2: "same_root rt ?rt2" by (simp add: same_root_def)
        show ?thesis
        proof (cases "os_open_write os False (ts_mode st) ?path fs1")
          case (Pair acc fs2)
          show ?thesis
          proof (cases acc)
            case None
            then show ?thesis using it1 mkT ow Pair assms(5) e sr2 b(2) by (auto simp: write_file_def)
          next
            case (Some a)
            from write_file_data [OF assms(1,2) _ _ _ Pair [unfolded Some]] f obtain c fd' where
              "write_file al os ?path st fd fs1 = Some (True, st\<lparr>ts_tmp := c\<rparr>, fd', os_wrote os ?path data fs2)"
              "tar_room al (st\<lparr>ts_tmp := c\<rparr>) fd'" "fd_data fd' = rest" by blast
            then show ?thesis using it1 mkT ow Pair Some assms(5) e sr2 b(2) by auto
          qed
        qed
      qed
    qed
  next
    case False
    then have "fd_data fd = rest" using assms(7) by (simp add: item_data_def)
    then show ?thesis
      using False assms(2-4,14) b sr by (auto simp: install_entry_def Let_def split: prod.splits if_splits)
  qed
qed

text \<open>The log of an item, and of a list of items: the owners stay.\<close>

lemma install_item_log:
  assumes "inv t" and "count t + 2 \<le> limit" and "install_item os T rt (args, data) (t, fs) = (ok, t', fs')"
  shows "inv t' \<and> count t' \<le> count t + 2 \<and> owner T t \<subseteq>\<^sub>m owner T t' \<and>
    (\<forall>p. owner T t' p = owner T t p \<or> owner T t p = None \<and> owner T t' p = Some (tmp_name rt))"
proof -
  let ?path = "join_path (root_path rt) (entry_name args)"
  have "count t < limit" using assms(2) by simp
  note i = include_law [OF assms(1) this, of ?path]
  have io: "owner T (t2_include T t ?path) = owner T t"
    using i by (auto simp: owner_def fun_eq_iff split: option.splits)
  note s = set_owner_spec [OF assms(1,2), of ?path "tmp_name rt"]
  have "t' = t \<or> t' = t2_include T t ?path \<or> owns T t ?path (tmp_name rt) \<and> t' = set_owner T t ?path (tmp_name rt)"
    using assms(3) by (auto simp: Let_def split: if_splits prod.splits bool.splits option.splits)
  moreover have "owns T t ?path (tmp_name rt) \<Longrightarrow> owner T t ?path = None \<or> owner T t ?path = Some (tmp_name rt)"
    by (auto simp: owns_def split: option.splits)
  ultimately show ?thesis using i io s assms(1) by (auto simp: map_le_def split: if_splits)
qed

lemma install_items_log:
  "inv t \<Longrightarrow> count t + 2 * length items \<le> limit \<Longrightarrow> install_items os T rt items (t, fs) = (ok, t', fs') \<Longrightarrow>
     inv t' \<and> owner T t \<subseteq>\<^sub>m owner T t' \<and>
     (\<forall>p. owner T t' p = owner T t p \<or> owner T t p = None \<and> owner T t' p = Some (tmp_name rt))"
proof (induction items arbitrary: t fs)
  case (Cons item items)
  obtain args data where it: "item = (args, data)" by (cases item)
  obtain ok1 t1 fs1 where i: "install_item os T rt (args, data) (t, fs) = (ok1, t1, fs1)" by (metis prod_cases3)
  have "count t + 2 \<le> limit" using Cons.prems(2) by simp
  note l = install_item_log [OF Cons.prems(1) this i]
  show ?case
  proof (cases ok1)
    case False
    then show ?thesis using l i Cons.prems(3) by (simp add: it)
  next
    case True
    have "inv t1" "count t1 + 2 * length items \<le> limit" using l Cons.prems(2) by auto
    from Cons.IH [OF this] Cons.prems(3) i True
    have h: "inv t' \<and> owner T t1 \<subseteq>\<^sub>m owner T t' \<and>
        (\<forall>p. owner T t' p = owner T t1 p \<or> owner T t1 p = None \<and> owner T t' p = Some (tmp_name rt))"
      by (simp add: it)
    then show ?thesis using l map_le_trans by metis
  qed
qed simp

lemma install_loop_items:
  assumes "os_accepts os"
  shows "archive_bytes items t \<Longrightarrow> list_all (item_ok us) items \<Longrightarrow> tar_room al st fd \<Longrightarrow> idle st \<Longrightarrow>
    fd_data fd = t @ extra \<Longrightarrow> length (root_path rt) < 2 ^ 32 \<Longrightarrow> buffer_wf (tmp_path rt) \<Longrightarrow> inv (root_log rt) \<Longrightarrow>
    count (root_log rt) + 2 * length items \<le> limit \<Longrightarrow>
    install_items os T rt0 items (root_log rt, fs) = (ok, t', fs') \<Longrightarrow> same_root rt0 rt \<Longrightarrow>
    \<exists>rt' fd'. install_loop al os T rt st fd fs = Some (ok, rt', fd', fs') \<and> root_log rt' = t' \<and>
      same_root rt0 rt' \<and> buffer_wf (tmp_path rt')"
proof (induction items t arbitrary: st fd rt fs rule: archive_bytes.induct)
  case (1 t)
  then obtain st' fd' where "tar_update_fd al st fd = Some (False, st', fd')"
    using tar_update_fd_end by (metis archive_bytes.simps(1))
  then show ?case using "1.prems" by (subst install_loop.simps) simp
next
  case (2 args data items t)
  from "2.prems"(1) obtain m flag r where a: "t = m @ item_data (args, data) @ r" "archive_bytes items r"
      "block_reads m args (entry_name args) flag (entry_link args)" "convert_type (a_type args) = Some flag"
    by auto
  have ok: "a_type args \<in> {TAR_FILE, TAR_DIR, TAR_SYMLINK}"
      "a_type args = TAR_FILE \<longrightarrow> length data = unat (a_size args)" "length (entry_name args) < 2 ^ 32"
    using "2.prems"(2) by (simp_all add: item_ok_def entry_ok_def entry_short_def)
  have "fd_data fd = m @ item_data (args, data) @ (r @ extra)" using "2.prems"(5) a(1) by simp
  from tar_update_fd_entry [OF "2.prems"(3,4) this a(3,4) ok(1)] obtain b fd1 where
    u: "tar_update_fd al st fd = Some (True, entry_state args (st\<lparr>ts_tmp := b\<rparr>), fd1)" "tar_room al st fd1"
      "fd_data fd1 = item_data (args, data) @ (r @ extra)" by blast
  let ?st = "entry_state args (st\<lparr>ts_tmp := b\<rparr>)"
  have s: "tar_room al ?st fd1" "ts_type ?st = a_type args" "ts_path ?st = entry_name args"
      "ts_mode ?st = ucast (a_mode args)" "a_type args = TAR_FILE \<longrightarrow> ts_file_size ?st = a_size args"
    using u(2) by (simp_all add: entry_state_def tar_room_def)
  obtain ok1 t1 fs1 where it0: "install_item os T rt0 (args, data) (root_log rt, fs) = (ok1, t1, fs1)"
    by (metis prod_cases3)
  have "install_item os T rt (args, data) (root_log rt, fs) = (ok1, t1, fs1)"
    using it0 by (simp only: install_item_same [OF "2.prems"(11)])
  from install_entry_item [OF assms s(1-5) u(3) ok(2,3) "2.prems"(6,7,8) _ this] "2.prems"(9)
  obtain rt1 st1 fd2 where e: "install_entry al os T rt ?st fd1 fs = Some (ok1, rt1, st1, fd2, fs1)"
      "root_log rt1 = t1" "same_root rt rt1" "buffer_wf (tmp_path rt1)"
      "ok1 \<longrightarrow> ts_type st1 = ts_type ?st \<and> tar_room al st1 fd2 \<and> fd_data fd2 = r @ extra"
    by auto
  have step: "install_loop al os T rt st fd fs =
      (if \<not> ok1 then Some (False, rt1, fd2, fs1) else install_loop al os T rt1 st1 fd2 fs1)"
    using u(1) e(1) by (subst install_loop.simps) simp
  show ?case
  proof (cases ok1)
    case False
    then show ?thesis using step e(2,3,4) it0 "2.prems"(10,11) by (simp add: same_root_def)
  next
    case True
    have idle: "idle st1" using True e(5) s(2) ok(1) by (auto simp: idle_def)
    have lg: "inv t1 \<and> count t1 \<le> count (root_log rt) + 2"
      using install_item_log [OF "2.prems"(8) _ it0] "2.prems"(9) by simp
    have "\<exists>rt' fd'. install_loop al os T rt1 st1 fd2 fs1 = Some (ok, rt', fd', fs') \<and> root_log rt' = t' \<and>
      same_root rt0 rt' \<and> buffer_wf (tmp_path rt')"
    proof (rule "2.IH" [OF a(2)])
      show "list_all (item_ok us) items" using "2.prems"(2) by simp
      show "install_items os T rt0 items (root_log rt1, fs1) = (ok, t', fs')" using True it0 "2.prems"(10) e(2) by simp
      show "same_root rt0 rt1" using e(3) "2.prems"(11) by (simp add: same_root_def)
    qed (use True e idle lg "2.prems" in \<open>auto simp: same_root_def\<close>)
    then show ?thesis using step True by simp
  qed
qed

end

text \<open>The directories before \<open>build.sh\<close>, up to its header.\<close>

lemma install_preamble_dirs:
  assumes "archive_bytes (dirs @ (bargs, script) # items) t" and "list_all (item_ok us) (dirs @ (bargs, script) # items)"
    and "list_all (\<lambda>d. a_type (fst d) = TAR_DIR) dirs" and "a_type bargs = TAR_FILE"
    and "tar_room al st fd" and "idle st" and "fd_data fd = t @ extra"
  shows "\<exists>st' fd' r. install_preamble al st fd = Some (True, entry_state bargs st', fd') \<and>
    tar_room al (entry_state bargs st') fd' \<and> fd_data fd' = item_data (bargs, script) @ r @ extra \<and> archive_bytes items r"
  using assms
proof (induction dirs arbitrary: t st fd)
  case Nil
  from Nil.prems(1) obtain m flag r where a: "t = m @ item_data (bargs, script) @ r" "archive_bytes items r"
      "block_reads m bargs (entry_name bargs) flag (entry_link bargs)" "convert_type (a_type bargs) = Some flag"
    by auto
  have "fd_data fd = m @ item_data (bargs, script) @ (r @ extra)" using Nil.prems(7) a(1) by simp
  from tar_update_fd_entry [OF Nil.prems(5,6) this a(3,4)] Nil.prems(4) obtain b fd1 where
    u: "tar_update_fd al st fd = Some (True, entry_state bargs (st\<lparr>ts_tmp := b\<rparr>), fd1)" "tar_room al st fd1"
      "fd_data fd1 = item_data (bargs, script) @ (r @ extra)" by auto
  have "install_preamble al st fd = Some (True, entry_state bargs (st\<lparr>ts_tmp := b\<rparr>), fd1)"
    using u(1) Nil.prems(4) by (subst install_preamble.simps) (simp add: entry_state_def)
  then show ?case using u(2,3) a(2) by (auto simp: tar_room_def)
next
  case (Cons d dirs)
  obtain args data where d: "d = (args, data)" by (cases d)
  have ty: "a_type args = TAR_DIR" using Cons.prems(3) by (simp add: d)
  from Cons.prems(1) obtain m flag r where a: "t = m @ item_data (args, data) @ r"
      "archive_bytes (dirs @ (bargs, script) # items) r"
      "block_reads m args (entry_name args) flag (entry_link args)" "convert_type (a_type args) = Some flag"
    by (auto simp: d)
  have "fd_data fd = m @ r @ extra" using Cons.prems(7) a(1) ty by (simp add: item_data_def)
  from tar_update_fd_entry [OF Cons.prems(5,6) this a(3,4)] ty obtain b fd1 where
    u: "tar_update_fd al st fd = Some (True, entry_state args (st\<lparr>ts_tmp := b\<rparr>), fd1)" "tar_room al st fd1"
      "fd_data fd1 = r @ extra" by auto
  let ?st = "entry_state args (st\<lparr>ts_tmp := b\<rparr>)"
  have "install_preamble al st fd = install_preamble al ?st fd1"
    using u(1) ty by (subst install_preamble.simps) (simp add: entry_state_def)
  moreover have "tar_room al ?st fd1" "idle ?st" using u(2) ty by (simp_all add: tar_room_def idle_def entry_state_def)
  ultimately show ?case using Cons.IH [OF a(2) _ _ Cons.prems(4) _ _ u(3)] Cons.prems(2,3) by simp
qed

context pkg_log
begin

lemma install_archive:
  assumes "os_accepts os" and "archive_bytes (dirs @ (bargs, script) # items) archive"
    and "list_all (item_ok us) (dirs @ (bargs, script) # items)"
    and "list_all (\<lambda>d. a_type (fst d) = TAR_DIR) dirs" and "a_type bargs = TAR_FILE"
    and "entry_name bargs = str ''build.sh''" and "names_package script name"
    and "\<forall>m < 2 ^ 63. can_alloc al m" and "fd_clean fd" and "fd_data fd = archive @ extra" and "length (fd_data fd) < 2 ^ 57"
    and "used (tmp_build_sh rt) = 0" and "buffer_wf (tmp_path rt)" and "length (root_path rt) < 2 ^ 32"
    and "inv (root_log rt)" and "count (root_log rt) + 2 * length items \<le> limit"
    and "install_items os T (rt\<lparr>tmp_name := name\<rparr>) items (root_log rt, fs) = (ok, t', fs')"
  shows "\<exists>rt' fd'. pkg_install_fd al os T rt fd fs = Some (ok, rt', fd', fs') \<and> root_log rt' = t' \<and>
    root_path rt' = root_path rt \<and> buffer_wf (tmp_path rt') \<and> tmp_name rt' = name"
proof -
  note ab = assms(2)
  have "tar_room al tar_state_zero fd" using assms(8,9,11) by (simp add: tar_room_def)
  moreover have "idle tar_state_zero" by (simp add: idle_def tar_state_zero_def)
  ultimately obtain st fd1 r where p: "install_preamble al tar_state_zero fd = Some (True, entry_state bargs st, fd1)"
      "tar_room al (entry_state bargs st) fd1" "fd_data fd1 = item_data (bargs, script) @ r @ extra" "archive_bytes items r"
    using install_preamble_dirs [OF ab assms(3-5) _ _ assms(10)] by blast
  let ?st = "entry_state bargs st"
  have ty: "ts_type ?st = TAR_FILE" "ts_path ?st = str ''build.sh''" "ts_file_size ?st = a_size bargs"
    using assms(5,6) by (simp_all add: entry_state_def)
  have v: "verify_build_sh_name ?st"
    unfolding verify_build_sh_name_def ty by (simp add: str_def PATH_SEPARATOR_def byte_of_def)
  have sz: "length script = unat (a_size bargs)" using assms(3,5) by (simp add: item_ok_def)
  have "fd_data fd1 = script @ tar_padding (length script) @ (r @ extra)" using p(3) assms(5) by (simp add: item_data_def)
  from tar_read_region_data [OF p(2) assms(12) this sz, of ?st] obtain b fd2 where
    rd: "tar_read_region al (tmp_build_sh rt) (a_size bargs) fd1 = Some (True, b, fd2)" "tar_room al ?st fd2"
      "fd_data fd2 = r @ extra" "a_size bargs \<noteq> 0 \<longrightarrow> (\<exists>q. mem b = script @ 0 # q)" by blast
  have "script \<noteq> []" using assms(7) by (auto simp: names_package_def)
  then have "a_size bargs \<noteq> 0" using sz by auto
  then obtain q where "mem b = script @ 0 # q" using rd(4) by blast
  then obtain b' where ps: "parse_build_sh (rt\<lparr>tmp_build_sh := b\<rparr>) =
      Some (True, rt\<lparr>tmp_build_sh := b', tmp_name := name\<rparr>)"
    using parse_build_sh_names [OF assms(7), of "rt\<lparr>tmp_build_sh := b\<rparr>" q] by auto
  let ?rt = "rt\<lparr>tmp_build_sh := b', tmp_name := name\<rparr>"
  have st: "pkg_install_fd al os T rt fd fs = install_loop al os T ?rt ?st fd2 fs"
    using p(1) v rd(1) ps by (simp add: pkg_install_fd_def read_file_contents_def ty(3))
  have "idle ?st" using ty(1) by (simp add: idle_def)
  moreover have "list_all (item_ok us) items" using assms(3) by simp
  ultimately show ?thesis unfolding st
    using install_loop_items [OF assms(1) p(4) _ rd(2) _ rd(3), of us ?rt "rt\<lparr>tmp_name := name\<rparr>" fs ok t' fs']
      assms(13-17) by (auto simp: same_root_def)
qed

lemma install_refines:
  assumes "os_accepts os" and "tar_archive us junk (dirs @ (bargs, script) # items) [] = Some archive"
    and "list_all (item_ok us) (dirs @ (bargs, script) # items)"
    and "list_all (\<lambda>d. a_type (fst d) = TAR_DIR) dirs" and "a_type bargs = TAR_FILE"
    and "entry_name bargs = str ''build.sh''" and "names_package script name"
    and "\<forall>m < 2 ^ 63. can_alloc al m" and "fd_clean fd" and "fd_data fd = archive @ extra" and "length (fd_data fd) < 2 ^ 57"
    and "used (tmp_build_sh rt) = 0" and "buffer_wf (tmp_path rt)" and "length (root_path rt) < 2 ^ 32"
    and "inv (root_log rt)" and "count (root_log rt) + 2 * length items \<le> limit"
    and "install_items os T (rt\<lparr>tmp_name := name\<rparr>) items (root_log rt, fs) = (ok, t', fs')"
  shows "\<exists>rt' fd'. pkg_install_fd al os T rt fd fs = Some (ok, rt', fd', fs') \<and> root_log rt' = t' \<and>
    root_path rt' = root_path rt \<and> buffer_wf (tmp_path rt') \<and> tmp_name rt' = name"
proof -
  have "archive_bytes (dirs @ (bargs, script) # items) archive"
    using tar_archive_bytes [OF assms(3), of junk "[]"] assms(2) by auto
  from install_archive [OF assms(1) this assms(3-17)] show ?thesis .
qed

end

text \<open>
  A log in which every path that had an owner keeps it, and a path that gets one gets the package
  \<open>name\<close>; this is all that installing does to a log, whatever the archive holds.
\<close>

definition owners_grow :: "'t table2 \<Rightarrow> bytes \<Rightarrow> 't \<Rightarrow> 't \<Rightarrow> bool" where
  "owners_grow T name t t' \<longleftrightarrow>
     (\<forall>p. owner T t' p = owner T t p \<or> owner T t p = None \<and> owner T t' p = Some name)"

lemma owners_grow_refl [simp]: "owners_grow T name t t"
  by (simp add: owners_grow_def)

lemma owners_grow_trans: "owners_grow T name t u \<Longrightarrow> owners_grow T name u v \<Longrightarrow> owners_grow T name t v"
  unfolding owners_grow_def by metis

lemma owners_grow_map_le: "owners_grow T name t u \<Longrightarrow> owner T t \<subseteq>\<^sub>m owner T u"
  unfolding owners_grow_def map_le_def by (metis domIff)

lemma parse_build_sh_log: "parse_build_sh rt = Some (ok, rt') \<Longrightarrow> root_log rt' = root_log rt"
  by (auto simp: parse_build_sh_def Let_def split: option.splits if_splits)

lemma install_preamble_fd_size:
  assumes "install_preamble al st fd = Some (ok, st', fd')"
  shows "fd_size fd' \<le> fd_size fd"
proof -
  have "fd_size (snd (snd (ok, st', fd'))) \<le> fd_size fd"
  proof (rule install_preamble.raw_induct [where P = "\<lambda>al st fd r. fd_size (snd (snd r)) \<le> fd_size fd", OF _ assms])
    fix go al st fd r
    assume IH: "\<And>al st fd r. go al st fd = Some r \<Longrightarrow> fd_size (snd (snd r)) \<le> fd_size fd"
      and e: "(case tar_update_fd al st fd of
        None \<Rightarrow> None
      | Some (ok, st1, fd1) \<Rightarrow>
          if \<not> ok \<or> ts_type st1 = TAR_FILE then Some (True, st1, fd1)
          else if ts_type st1 \<noteq> TAR_DIR then Some (False, st1, fd1)
          else go al st1 fd1) = Some r"
    from e obtain ok1 st1 fd1 where u: "tar_update_fd al st fd = Some (ok1, st1, fd1)" by (auto split: option.splits)
    then have "r = (True, st1, fd1) \<or> r = (False, st1, fd1) \<or> go al st1 fd1 = Some r" using e by (auto split: if_splits)
    then show "fd_size (snd (snd r)) \<le> fd_size fd" using tar_update_fd_fd_size(1) [OF u] IH [of al st1 fd1 r] by auto
  qed
  then show ?thesis by simp
qed

context pkg_log
begin

lemma take_ownership_log:
  assumes "inv (root_log rt)" and "count (root_log rt) + 2 \<le> limit" and "take_ownership T rt = (ok, rt')"
  shows "inv (root_log rt') \<and> count (root_log rt') \<le> count (root_log rt) + 2 \<and>
    owners_grow T (tmp_name rt) (root_log rt) (root_log rt') \<and> tmp_name rt' = tmp_name rt"
proof -
  let ?t = "root_log rt" and ?p = "contents (tmp_path rt)" and ?n = "tmp_name rt"
  have "count ?t < limit" using assms(2) by simp
  note i = include_law [OF assms(1) this, of ?p]
  have io: "owner T (t2_include T ?t ?p) = owner T ?t"
    using i by (auto simp: owner_def fun_eq_iff split: option.splits)
  note s = set_owner_spec [OF assms(1,2), of ?p ?n]
  show ?thesis
  proof (cases "owns T ?t ?p ?n")
    case True
    then have r: "rt' = rt\<lparr>root_log := set_owner T ?t ?p ?n\<rparr>" using take_ownership_owns [OF assms(1,2)] assms(3) by simp
    have "owner T ?t ?p = None \<or> owner T ?t ?p = Some ?n" using True by (auto simp: owns_def split: option.splits)
    then show ?thesis using s r by (auto simp: owners_grow_def)
  next
    case False
    then have "rt' = rt\<lparr>root_log := t2_include T ?t ?p\<rparr>" using take_ownership_owns [OF assms(1,2)] assms(3) by simp
    then show ?thesis using i io by (auto simp: owners_grow_def)
  qed
qed

lemma install_entry_log:
  assumes "inv (root_log rt)" and "count (root_log rt) + 2 \<le> limit"
    and e: "install_entry al os T rt st fd fs = Some (ok, rt2, st2, fd2, fs2)"
  shows "inv (root_log rt2) \<and> count (root_log rt2) \<le> count (root_log rt) + 2 \<and>
    owners_grow T (tmp_name rt) (root_log rt) (root_log rt2) \<and> tmp_name rt2 = tmp_name rt" and "fd_size fd2 \<le> fd_size fd"
proof -
  from e obtain b where b: "path_cat al (tmp_path rt) (root_path rt) (ts_path st) = Some b"
    by (auto simp: install_entry_def split: option.splits)
  let ?rt = "rt\<lparr>tmp_path := b\<rparr>"
  obtain ok3 rt3 where o: "take_ownership T ?rt = (ok3, rt3)" by (cases "take_ownership T ?rt")
  have "inv (root_log ?rt)" "count (root_log ?rt) + 2 \<le> limit" using assms(1,2) by simp_all
  note tl = take_ownership_log [OF this o]
  have w: "write_file al os p st fd fs1 = Some (x, st2, fd2, fs2) \<Longrightarrow> fd_size fd2 \<le> fd_size fd" for p fs1 x
    by (auto simp: write_file_def split: prod.splits option.splits dest: write_file_loop_fd_size)
  have k: "tar_skip_file al st fd = Some (x, st2, fd2) \<Longrightarrow> fd_size fd2 \<le> fd_size fd" for x
    unfolding tar_skip_file_def by (rule tar_skip_blocks_fd_size)
  from e b o have "(rt2 = ?rt \<or> rt2 = rt3) \<and> (fd2 = fd \<or> (\<exists>x. tar_skip_file al st fd = Some (x, st2, fd2)) \<or>
      (\<exists>p fs1 x. write_file al os p st fd fs1 = Some (x, st2, fd2, fs2)))"
    by (auto simp: install_entry_def Let_def split: if_splits prod.splits bool.splits) 
  then show "inv (root_log rt2) \<and> count (root_log rt2) \<le> count (root_log rt) + 2 \<and>
      owners_grow T (tmp_name rt) (root_log rt) (root_log rt2) \<and> tmp_name rt2 = tmp_name rt" "fd_size fd2 \<le> fd_size fd"
    using tl assms(1) w k by auto
qed

lemma install_loop_log:
  assumes "inv (root_log rt)" and "count (root_log rt) + 2 * fd_size fd \<le> limit"
    and "install_loop al os T rt st fd fs = Some (ok, rt', fd', fs')"
  shows "owners_grow T (tmp_name rt) (root_log rt) (root_log rt') \<and> tmp_name rt' = tmp_name rt"
proof -
  let ?P = "\<lambda>T' rt fd r. T' = T \<longrightarrow> inv (root_log rt) \<longrightarrow> count (root_log rt) + 2 * fd_size fd \<le> limit \<longrightarrow>
    (case r of (ok, rt', fd', fs') \<Rightarrow> owners_grow T (tmp_name rt) (root_log rt) (root_log rt') \<and> tmp_name rt' = tmp_name rt)"
  have "?P T rt fd (ok, rt', fd', fs')"
  proof (rule install_loop.raw_induct [where P = "\<lambda>al os T' rt st fd fs r. ?P T' rt fd r", OF _ assms(3)], intro impI)
    fix go al os T' rt st fd fs r
    assume IH: "\<And>al os T' rt st fd fs r. go al os T' rt st fd fs = Some r \<Longrightarrow> ?P T' rt fd r"
      and e: "(case tar_update_fd al st fd of
        None \<Rightarrow> None
      | Some (ok, st1, fd1) \<Rightarrow>
          if \<not> ok then Some (True, rt, fd1, fs)
          else case install_entry al os T' rt st1 fd1 fs of
                 None \<Rightarrow> None
               | Some (ok, rt2, st2, fd2, fs2) \<Rightarrow>
                   if \<not> ok then Some (False, rt2, fd2, fs2)
                   else go al os T' rt2 st2 fd2 fs2) = Some r"
      and T: "T' = T" and inv: "inv (root_log rt)" and c: "count (root_log rt) + 2 * fd_size fd \<le> limit"
    from e obtain ok1 st1 fd1 where u: "tar_update_fd al st fd = Some (ok1, st1, fd1)" by (auto split: option.splits)
    show "case r of (ok, rt', fd', fs') \<Rightarrow> owners_grow T (tmp_name rt) (root_log rt) (root_log rt') \<and> tmp_name rt' = tmp_name rt"
    proof (cases ok1)
      case False
      then show ?thesis using e u by auto
    next
      case True
      then have lt: "fd_size fd1 < fd_size fd" using tar_update_fd_fd_size(2) [OF u] by simp
      from e u True obtain ok2 rt2 st2 fd2 fs2 where
        i: "install_entry al os T rt st1 fd1 fs = Some (ok2, rt2, st2, fd2, fs2)" unfolding T by (auto split: option.splits)
      have "count (root_log rt) + 2 \<le> limit" using c lt by simp
      note l = install_entry_log [OF inv this i]
      show ?thesis
      proof (cases ok2)
        case False
        then show ?thesis using e u True i l(1) unfolding T by auto
      next
        case o2: True
        have g: "go al os T rt2 st2 fd2 fs2 = Some r" using e u True i o2 unfolding T by simp
        have "count (root_log rt2) + 2 * fd_size fd2 \<le> limit" using l c lt by linarith
        with IH [OF g] l(1) obtain ok3 rt3 fd3 fs3 where r: "r = (ok3, rt3, fd3, fs3)"
            "owners_grow T (tmp_name rt2) (root_log rt2) (root_log rt3)" "tmp_name rt3 = tmp_name rt2"
          by (cases r) auto
        have "owners_grow T (tmp_name rt) (root_log rt) (root_log rt3)"
          by (rule owners_grow_trans [of T _ _ "root_log rt2"]) (use l(1) r(2) in auto)
        then show ?thesis using r(1,3) l(1) by simp
      qed
    qed
  qed
  then show ?thesis using assms(1,2) by simp
qed

lemma install_log:
  assumes "inv (root_log rt)" and "count (root_log rt) + 2 * fd_size fd \<le> limit"
    and r: "pkg_install_fd al os T rt fd fs = Some (ok, rt', fd', fs')"
  shows "owners_grow T (tmp_name rt') (root_log rt) (root_log rt')"
proof -
  from r obtain ok1 st fd1 where p: "install_preamble al tar_state_zero fd = Some (ok1, st, fd1)"
    by (auto simp: pkg_install_fd_def split: option.splits)
  note s1 = install_preamble_fd_size [OF p]
  show ?thesis
  proof (cases "\<not> ok1 \<or> \<not> verify_build_sh_name st")
    case True
    then show ?thesis using r p by (simp add: pkg_install_fd_def split: if_splits)
  next
    case False
    then obtain ok2 b fd2 where c: "read_file_contents al (tmp_build_sh rt) st fd1 = Some (ok2, b, fd2)"
      using r p by (auto simp: pkg_install_fd_def split: option.splits)
    have s2: "fd_size fd2 \<le> fd_size fd1" using tar_read_region_fd_size c by (simp add: read_file_contents_def)
    let ?rt1 = "rt\<lparr>tmp_build_sh := b\<rparr>"
    note run = r [unfolded pkg_install_fd_def p option.case prod.case if_not_P [OF False] c Let_def]
    show ?thesis
    proof (cases ok2)
      case o2: True
      then obtain ok3 rt2 where ps: "parse_build_sh ?rt1 = Some (ok3, rt2)" using run by (auto split: option.splits)
      have lg: "root_log rt2 = root_log rt" using parse_build_sh_log [OF ps] by simp
      show ?thesis
      proof (cases ok3)
        case True
        have "install_loop al os T rt2 st fd2 fs = Some (ok, rt', fd', fs')" using run o2 ps True by simp
        from install_loop_log [OF _ _ this] show ?thesis using assms(1,2) s1 s2 unfolding lg by simp
      qed (use run o2 ps lg in simp)
    qed (use run in auto)
  qed
qed

end

section \<open>Properties\<close>

text \<open>C6: Installing a package refines the abstract effect of its entries: on an archive that
  consists of directories, a file \<open>build.sh\<close> that names the package, and any entries whose names
  fit into the headers, \<open>pkg_install_fd\<close> returns, and result, log and files are what making the
  directories, writing the unprotected files and recording the package as the owner of these files
  (but not of directories) in the order of the entries gives, up to the first that fails.\<close>

theorem pkg_install_refines:
  assumes "pkg_log T cnt iv limit" and "os_accepts os"
    and "tar_archive us junk (dirs @ (bargs, script) # items) [] = Some archive"
    and "list_all (item_ok us) (dirs @ (bargs, script) # items)"
    and "list_all (\<lambda>d. a_type (fst d) = TAR_DIR) dirs" and "a_type bargs = TAR_FILE"
    and "entry_name bargs = str ''build.sh''" and "names_package script name"
    and "\<forall>m < 2 ^ 63. can_alloc al m" and "fd_clean fd" and "fd_data fd = archive @ extra" and "length (fd_data fd) < 2 ^ 57"
    and "used (tmp_build_sh rt) = 0" and "buffer_wf (tmp_path rt)" and "length (root_path rt) < 2 ^ 32"
    and "iv (root_log rt)" and "cnt (root_log rt) + 2 * length items \<le> limit"
    and "install_items os T (rt\<lparr>tmp_name := name\<rparr>) items (root_log rt, fs) = (ok, t', fs')"
  shows "\<exists>rt' fd'. pkg_install_fd al os T rt fd fs = Some (ok, rt', fd', fs') \<and> root_log rt' = t'"
  using pkg_log.install_refines [OF assms] by blast

text \<open>A package \<open>foo\<close> with one file \<open>a\<close>.\<close>

definition file_item :: "bytes \<Rightarrow> bytes \<Rightarrow> tar_item" where
  "file_item name data =
     (\<lparr>a_name = name, a_mode = 420, a_uid = 0, a_gid = 0, a_size = word_of_nat (length data), a_mtime = 0,
       a_type = TAR_FILE, a_linkname = None, a_uname = None, a_gname = None\<rparr>, data)"

definition foo_script :: bytes where
  "foo_script = str ''PKG_NAME=foo'' @ [10]"

lemma foo_script_names: "names_package foo_script (str ''foo'')"
  unfolding names_package_def
proof (intro exI conjI)
  show "foo_script = [] @ PKG_NAME @ [] @ str ''foo'' @ [] @ 10 # []" by (simp add: foo_script_def PKG_NAME_def str_def)
  show "find_sub PKG_NAME foo_script = Some (length [])" by (simp add: foo_script_def PKG_NAME_def str_def)
  show "\<forall>c \<in> set (str ''foo''). \<not> isspace c \<and> c \<noteq> QUOTE \<and> c \<noteq> APOSTROPHE"
    by (simp add: str_def isspace_def QUOTE_def APOSTROPHE_def)
qed (simp_all add: foo_script_def str_def)

lemma file_item_ok:
  assumes "length name < 99" and "0 \<notin> set name" and "length data < 8 ^ 11"
  shows "item_ok one_user (file_item name data)"
proof -
  have "length (dropWhile (\<lambda>c. c = PATH_SEPARATOR) name) < 99"
    using assms(1) length_dropWhile_le [of _ name] by (rule le_less_trans [rotated])
  then show ?thesis
    using assms by (simp add: item_ok_def file_item_def users_known_def tar_passwd_def tar_group_def one_user_def
        entry_ok_def fields_ok_def entry_short_def entry_name_def entry_link_def unat_of_nat)
qed

definition foo_items :: "tar_item list" where
  "foo_items = [file_item (str ''build.sh'') foo_script, file_item (str ''a'') [1, 2, 3]]"

lemma foo_items_ok: "list_all (item_ok one_user) foo_items"
  unfolding foo_items_def list.pred_inject
  by (intro conjI file_item_ok TrueI) (simp_all add: str_def foo_script_def)

lemma foo_archive:
  obtains archive where "tar_archive one_user (\<lambda>_. []) foo_items [] = Some archive" and "length archive = 3072"
proof -
  from tar_archive_extract [OF foo_items_ok, of "\<lambda>_. []" "[]" plain_alloc] obtain archive where
    "tar_archive one_user (\<lambda>_. []) foo_items [] = Some archive" "length archive = archive_length foo_items"
    by auto
  moreover have "archive_length foo_items = 3072"
    by (simp add: foo_items_def file_item_def item_data_def foo_script_def str_def tar_padding_def
        tar_write_padding_def TAR_BLOCK_SIZE_def)
  ultimately show ?thesis using that by simp
qed

lemma plain_os_accepts: "os_accepts plain_os"
  by (auto simp: os_accepts_def plain_os_def)

theorem pkg_install_refines_witness:
  "\<exists>archive rt' fd'. tar_archive one_user (\<lambda>_. []) foo_items [] = Some archive \<and>
    pkg_install_fd plain_alloc plain_os src_table (pkg_root_zero src_table) [Some archive] Map.empty
      = Some (True, rt', fd', [str ''a'' \<mapsto> [1, 2, 3]]) \<and>
    root_log rt' = set_owner src_table table_zero (str ''a'') (str ''foo'')"
proof -
  obtain archive where a: "tar_archive one_user (\<lambda>_. []) foo_items [] = Some archive" "length archive = 3072"
    by (rule foo_archive)
  let ?rt = "pkg_root_zero src_table" and ?b = "file_item (str ''build.sh'') foo_script"
  have arch: "tar_archive one_user (\<lambda>_. []) ([] @ (fst ?b, snd ?b) # [file_item (str ''a'') [1, 2, 3]]) [] = Some archive"
    using a(1) by (simp add: foo_items_def)
  have ok: "list_all (item_ok one_user) ([] @ (fst ?b, snd ?b) # [file_item (str ''a'') [1, 2, 3]])"
    using foo_items_ok by (simp add: foo_items_def)
  have b: "a_type (fst ?b) = TAR_FILE" "entry_name (fst ?b) = str ''build.sh''" "names_package (snd ?b) (str ''foo'')"
    using foo_script_names by (simp_all add: file_item_def entry_name_def str_def PATH_SEPARATOR_def byte_of_def)
  have fd: "fd_clean [Some archive]" "fd_data [Some archive] = archive @ []" "length (fd_data [Some archive]) < 2 ^ 57"
    using a(2) by auto
  have r: "used (tmp_build_sh ?rt) = 0" "buffer_wf (tmp_path ?rt)" "length (root_path ?rt) < 2 ^ 32"
    "table_wf (root_log ?rt)" "unat (item_count (root_log ?rt)) + 2 * length [file_item (str ''a'') [1, 2, 3]] \<le> 2 ^ 50"
    by (simp_all add: pkg_root_zero_def buffer_zero_def buffer_wf_def src_table_def) (simp add: table_zero_def)
  have z: "root_log ?rt = table_zero" by (simp add: pkg_root_zero_def src_table_def)
  have "owns src_table table_zero p n" for p n by (simp add: owns_def owner_def src_table_map)
  then have it: "install_items plain_os src_table (?rt\<lparr>tmp_name := str ''foo''\<rparr>) [file_item (str ''a'') [1, 2, 3]] (root_log ?rt, Map.empty)
      = (True, set_owner src_table table_zero (str ''a'') (str ''foo''), [str ''a'' \<mapsto> [1, 2, 3]])"
    unfolding z by (simp add: file_item_def join_path_def entry_name_def plain_os_def pkg_root_zero_def Let_def
        str_def PATH_SEPARATOR_def byte_of_def)
  have al: "\<forall>m < 2 ^ 63. can_alloc plain_alloc m" by simp
  from pkg_install_refines [OF src_log.pkg_log_axioms plain_os_accepts arch ok _ b al fd r it] a(1)
  show ?thesis by auto
qed

text \<open>An archive of directories, a script \<open>build.sh\<close> with the name of the package, and short entries.\<close>

definition package_archive :: "os_users \<Rightarrow> bytes \<Rightarrow> bytes \<Rightarrow> tar_item list \<Rightarrow> bool" where
  "package_archive us archive name items \<longleftrightarrow>
     (\<exists>junk dirs bargs script. tar_archive us junk (dirs @ (bargs, script) # items) [] = Some archive \<and>
        list_all (item_ok us) (dirs @ (bargs, script) # items) \<and> list_all (\<lambda>d. a_type (fst d) = TAR_DIR) dirs \<and>
        a_type bargs = TAR_FILE \<and> entry_name bargs = str ''build.sh'' \<and> names_package script name)"

text \<open>C7: Installing never takes a path away: whatever the descriptor delivers, a malformed or truncated
  archive, one that cannot be read, or anything else, and however making and writing the files turns
  out, when the installation ends, successfully or not, every path that had an owner keeps it, and a
  path that gets one gets the package whose name was read. It does end on every archive of directories,
  a file \<open>build.sh\<close> that names the package, and short entries.\<close>

theorem pkg_install_keeps_owners:
  assumes "pkg_log T cnt iv limit" and "iv (root_log rt)" and "cnt (root_log rt) + 2 * fd_size fd \<le> limit"
  shows "(\<forall>ok rt' fd' fs'. pkg_install_fd al os T rt fd fs = Some (ok, rt', fd', fs') \<longrightarrow>
      owner T (root_log rt) \<subseteq>\<^sub>m owner T (root_log rt') \<and>
      (\<forall>p. owner T (root_log rt') p \<in> {owner T (root_log rt) p, Some (tmp_name rt')})) \<and>
    (\<forall>us archive extra name items. package_archive us archive name items \<and>
      fd_clean fd \<and> fd_data fd = archive @ extra \<and> length (fd_data fd) < 2 ^ 57 \<and>
      os_accepts os \<and> (\<forall>m < 2 ^ 63. can_alloc al m) \<and>
      used (tmp_build_sh rt) = 0 \<and> buffer_wf (tmp_path rt) \<and> length (root_path rt) < 2 ^ 32 \<and>
      cnt (root_log rt) + 2 * length items \<le> limit \<longrightarrow>
      (\<exists>ok rt' fd' fs'. pkg_install_fd al os T rt fd fs = Some (ok, rt', fd', fs') \<and> tmp_name rt' = name))"
proof (intro conjI allI impI)
  fix ok rt' fd' fs'
  assume "pkg_install_fd al os T rt fd fs = Some (ok, rt', fd', fs')"
  note g = pkg_log.install_log [OF assms this]
  show "owner T (root_log rt) \<subseteq>\<^sub>m owner T (root_log rt')" by (rule owners_grow_map_le [OF g])
  show "owner T (root_log rt') p \<in> {owner T (root_log rt) p, Some (tmp_name rt')}" for p
    using g unfolding owners_grow_def by auto
next
  fix us archive extra name items
  assume "package_archive us archive name items \<and> fd_clean fd \<and> fd_data fd = archive @ extra \<and> length (fd_data fd) < 2 ^ 57 \<and>
      os_accepts os \<and> (\<forall>m < 2 ^ 63. can_alloc al m) \<and>
      used (tmp_build_sh rt) = 0 \<and> buffer_wf (tmp_path rt) \<and> length (root_path rt) < 2 ^ 32 \<and>
      cnt (root_log rt) + 2 * length items \<le> limit"
  then have w: "package_archive us archive name items" "fd_clean fd" "fd_data fd = archive @ extra" "length (fd_data fd) < 2 ^ 57"
      "os_accepts os" "\<forall>m < 2 ^ 63. can_alloc al m" "used (tmp_build_sh rt) = 0" "buffer_wf (tmp_path rt)"
      "length (root_path rt) < 2 ^ 32" "cnt (root_log rt) + 2 * length items \<le> limit" by blast+
  from w(1) obtain junk dirs bargs script where
    p: "tar_archive us junk (dirs @ (bargs, script) # items) [] = Some archive"
      "list_all (item_ok us) (dirs @ (bargs, script) # items)" "list_all (\<lambda>d. a_type (fst d) = TAR_DIR) dirs"
      "a_type bargs = TAR_FILE" "entry_name bargs = str ''build.sh''" "names_package script name"
    unfolding package_archive_def by blast
  obtain ok t' fs' where i: "install_items os T (rt\<lparr>tmp_name := name\<rparr>) items (root_log rt, fs) = (ok, t', fs')"
    by (metis prod_cases3)
  from pkg_log.install_refines [OF assms(1) w(5) p w(6,2,3,4,7,8,9) assms(2) w(10) i]
  show "\<exists>ok rt' fd' fs'. pkg_install_fd al os T rt fd fs = Some (ok, rt', fd', fs') \<and> tmp_name rt' = name" by blast
qed

text \<open>The same package where the path \<open>a\<close> belongs to another one.\<close>

theorem pkg_install_keeps_owners_witness:
  "\<exists>archive ok rt' fd' fs'. tar_archive one_user (\<lambda>_. []) foo_items [] = Some archive \<and>
    pkg_install_fd plain_alloc plain_os src_table
      ((pkg_root_zero src_table)\<lparr>root_log := set_owner src_table table_zero (str ''a'') (str ''bar'')\<rparr>) [Some archive] Map.empty
      = Some (ok, rt', fd', fs') \<and>
    owner src_table (root_log rt') (str ''a'') = Some (str ''bar'')"
proof -
  obtain archive where a: "tar_archive one_user (\<lambda>_. []) foo_items [] = Some archive" "length archive = 3072"
    by (rule foo_archive)
  let ?t = "set_owner src_table table_zero (str ''a'') (str ''bar'')"
  let ?rt = "(pkg_root_zero src_table)\<lparr>root_log := ?t\<rparr>" and ?b = "file_item (str ''build.sh'') foo_script"
  have arch: "tar_archive one_user (\<lambda>_. []) ([] @ (fst ?b, snd ?b) # [file_item (str ''a'') [1, 2, 3]]) [] = Some archive"
    using a(1) by (simp add: foo_items_def)
  have ok: "list_all (item_ok one_user) ([] @ (fst ?b, snd ?b) # [file_item (str ''a'') [1, 2, 3]])"
    using foo_items_ok by (simp add: foo_items_def)
  have b: "a_type (fst ?b) = TAR_FILE" "entry_name (fst ?b) = str ''build.sh''" "names_package (snd ?b) (str ''foo'')"
    using foo_script_names by (simp_all add: file_item_def entry_name_def str_def PATH_SEPARATOR_def byte_of_def)
  have fd: "fd_clean [Some archive]" "fd_data [Some archive] = archive @ []" "length (fd_data [Some archive]) < 2 ^ 57"
    using a(2) by auto
  have z: "table_wf table_zero" "unat (item_count (table_zero :: bytes option table)) + 2 \<le> 2 ^ 50"
    by (simp, simp add: table_zero_def)
  note s = src_log.set_owner_spec [OF z, of "str ''a''" "str ''bar''"]
  have n: "unat (item_count ?t) \<le> 2" using s by (simp add: table_zero_def)
  have r: "used (tmp_build_sh ?rt) = 0" "buffer_wf (tmp_path ?rt)" "length (root_path ?rt) < 2 ^ 32"
    "table_wf (root_log ?rt)" "unat (item_count (root_log ?rt)) + 2 * length [file_item (str ''a'') [1, 2, 3]] \<le> 2 ^ 50"
    using s n by (simp_all add: pkg_root_zero_def buffer_zero_def buffer_wf_def)
  have c: "unat (item_count (root_log ?rt)) + 2 * fd_size [Some archive] \<le> 2 ^ 50" using n a(2) by (simp add: fd_size_def)
  have al: "\<forall>m < 2 ^ 63. can_alloc plain_alloc m" by simp
  have pa: "package_archive one_user archive (str ''foo'') [file_item (str ''a'') [1, 2, 3]]"
    unfolding package_archive_def
    by (intro exI [of _ "\<lambda>_. []"] exI [of _ "[]"] exI [of _ "fst ?b"] exI [of _ "snd ?b"] conjI) (use arch ok b in simp_all)
  note k = pkg_install_keeps_owners [OF src_log.pkg_log_axioms r(4) c, of plain_alloc plain_os Map.empty]
  obtain ok rt' fd' fs' where i: "pkg_install_fd plain_alloc plain_os src_table ?rt [Some archive] Map.empty = Some (ok, rt', fd', fs')"
    using k [THEN conjunct2, THEN spec, THEN spec, THEN spec, THEN spec, THEN spec, THEN mp,
        OF conjI [OF pa conjI [OF fd(1) conjI [OF fd(2) conjI [OF fd(3) conjI [OF plain_os_accepts conjI [OF al
          conjI [OF r(1) conjI [OF r(2) conjI [OF r(3) r(5)]]]]]]]]]] by blast
  have "owner src_table (root_log ?rt) \<subseteq>\<^sub>m owner src_table (root_log rt')" using k i by blast
  moreover have "owner src_table (root_log ?rt) (str ''a'') = Some (str ''bar'')" using s by simp
  ultimately have "owner src_table (root_log rt') (str ''a'') = Some (str ''bar'')"
    unfolding map_le_def by (metis domI)
  then show ?thesis using a(1) i by blast
qed

end
