(* ===== verification/PkgPack.thy ===== *)
theory PkgPack
  imports PkgInstall DzipChain
begin

text \<open>
  Packing (\<open>src/pkg/pkg-pack.c\<close>): an archive of the build script and of trees of files is
  collected in a buffer, compressed into another one or not, and written when the buffers are
  full. What the file system answers is a parameter. \<open>None\<close> is a fault, or not returning.
\<close>

section \<open>State\<close>

definition FILE_BUFFER_SIZE :: nat where "FILE_BUFFER_SIZE = 1000000"

record pkg_pack_state =
  output_fd :: write_fd
  tar_buffer :: buffer
  compress_buffer :: buffer
  deflate :: "dzip_deflate_state option"
  name_skip :: nat

text \<open>\<open>lstat\<close>, \<open>readlink\<close>, the names that \<open>readdir\<close> gives, and a descriptor for reading.\<close>

record pack_fs =
  fs_lstat :: "bytes \<Rightarrow> file_stat option"
  fs_readlink :: "bytes \<Rightarrow> bytes option"
  fs_opendir :: "bytes \<Rightarrow> bytes list option"
  fs_open :: "bytes \<Rightarrow> read_fd option"

definition identify_compression_type :: "bytes \<Rightarrow> bool option" where
  "identify_compression_type name =
     (if name = str ''none'' then Some False else if name = str ''dzip'' then Some True else None)"

text \<open>What the functions of \<open>tar\<close> and \<open>dzip\<close> append to the contents is pushed onto the buffer.\<close>

definition tar_output :: "allocator \<Rightarrow> pkg_pack_state \<Rightarrow> bytes \<Rightarrow> pkg_pack_state option" where
  "tar_output al st out = map_option (\<lambda>b. st\<lparr>tar_buffer := b\<rparr>) (buffer_extend al (tar_buffer st) out)"

section \<open>Operations\<close>

definition script_args :: "nat \<Rightarrow> tar_header_args" where
  "script_args n =
     \<lparr>a_name = str ''build.sh'', a_mode = 448, a_uid = 0, a_gid = 0, a_size = word_of_nat n, a_mtime = 0,
      a_type = TAR_FILE, a_linkname = None, a_uname = None, a_gname = None\<rparr>"

text \<open>The compress buffer holds the script at first. The inner \<open>None\<close> is the null pointer.\<close>

definition pkg_pack_new ::
    "allocator \<Rightarrow> os_users \<Rightarrow> (nat \<Rightarrow> bytes) \<Rightarrow> write_fd \<Rightarrow> read_fd \<Rightarrow> bool \<Rightarrow> pkg_pack_state option option" where
  "pkg_pack_new al us junk out_fd script_fd compression =
     (case buffer_read_loop al buffer_zero 0 0 script_fd of
        None \<Rightarrow> None
      | Some (r, script, _) \<Rightarrow>
          if r < 0 then Some None
          else case tar_write_header us junk (script_args (used script)) [] of
                 None \<Rightarrow> None
               | Some (ok, out) \<Rightarrow>
                   if \<not> ok then Some None
                   else map_option (\<lambda>b. Some
                          \<lparr>output_fd = out_fd, tar_buffer = b, compress_buffer = buffer_rewrite script,
                           deflate = (if compression then Some dzip_deflate_state_new else None), name_skip = 0\<rparr>)
                          (buffer_extend al buffer_zero (tar_write_padding (out @ contents script) (used script))))"

definition flush_buffer_to_fd :: "write_fd \<Rightarrow> buffer \<Rightarrow> bool \<times> write_fd \<times> buffer" where
  "flush_buffer_to_fd fd b =
     (if used b = 0 then (True, fd, b)
      else case buffer_write_loop (contents b) 0 fd of
             (r, _, fd') \<Rightarrow> if r < 0 then (False, fd', b) else (True, fd', buffer_rewrite b))"

definition flush_compress_buffer :: "pkg_pack_state \<Rightarrow> bool \<times> pkg_pack_state" where
  "flush_compress_buffer st =
     (case flush_buffer_to_fd (output_fd st) (compress_buffer st) of
        (ok, fd, b) \<Rightarrow> (ok, st\<lparr>output_fd := fd, compress_buffer := b\<rparr>))"

definition flush_tar_buffer :: "allocator \<Rightarrow> pkg_pack_state \<Rightarrow> (bool \<times> pkg_pack_state) option" where
  "flush_tar_buffer al st =
     (case deflate st of
        Some z \<Rightarrow>
          (case dzip_deflate (contents (compress_buffer st)) z (contents (tar_buffer st)) of
             None \<Rightarrow> None
           | Some (out, z') \<Rightarrow>
               map_option (\<lambda>b. (True, st\<lparr>deflate := Some z', compress_buffer := b,
                                          tar_buffer := buffer_rewrite (tar_buffer st)\<rparr>))
                 (buffer_extend al (compress_buffer st) out))
      | None \<Rightarrow>
          (case flush_buffer_to_fd (output_fd st) (tar_buffer st) of
             (ok, fd, b) \<Rightarrow> Some (ok, st\<lparr>output_fd := fd, tar_buffer := b\<rparr>)))"

definition optional_flush_buffers :: "allocator \<Rightarrow> pkg_pack_state \<Rightarrow> (bool \<times> pkg_pack_state) option" where
  "optional_flush_buffers al st =
     (case (if FILE_BUFFER_SIZE \<le> used (tar_buffer st) then flush_tar_buffer al st else Some (True, st)) of
        None \<Rightarrow> None
      | Some (ok, st1) \<Rightarrow>
          if \<not> ok then Some (False, st1)
          else Some (if FILE_BUFFER_SIZE \<le> used (compress_buffer st1) then flush_compress_buffer st1 else (True, st1)))"

text \<open>
  The inner loop of \<open>pkg_pack_file\<close> ends only with the size 0: the size is unsigned, so a
  failing call is repeated.
\<close>

partial_function (option) pack_read_all :: "allocator \<Rightarrow> buffer \<Rightarrow> read_fd \<Rightarrow> (buffer \<times> read_fd) option" where
  "pack_read_all al b fd =
     (case buffer_read al b FILE_BUFFER_SIZE FILE_BUFFER_SIZE fd of
        None \<Rightarrow> None
      | Some (io_size, b', fd') \<Rightarrow> if io_size \<noteq> 0 then pack_read_all al b' fd' else Some (b', fd'))"

partial_function (option) pack_file_loop ::
    "allocator \<Rightarrow> size_t \<Rightarrow> pkg_pack_state \<Rightarrow> read_fd \<Rightarrow> pkg_pack_state option" where
  "pack_file_loop al file_size st fd =
     (case pack_read_all al (tar_buffer st) fd of
        None \<Rightarrow> None
      | Some (b, fd') \<Rightarrow>
          (let st1 = st\<lparr>tar_buffer := b\<rparr>
           in if used (tar_buffer st) = used b then tar_output al st1 (tar_write_padding (contents b) (unat file_size))
              else case optional_flush_buffers al st1 of
                     None \<Rightarrow> None
                   | Some (_, st2) \<Rightarrow> pack_file_loop al file_size st2 fd'))"

definition pkg_pack_file ::
    "allocator \<Rightarrow> pack_fs \<Rightarrow> pkg_pack_state \<Rightarrow> bytes \<Rightarrow> size_t \<Rightarrow> (bool \<times> pkg_pack_state) option" where
  "pkg_pack_file al fs st path file_size =
     (case fs_open fs path of
        None \<Rightarrow> Some (False, st)
      | Some fd \<Rightarrow>
          (case optional_flush_buffers al st of
             None \<Rightarrow> None
           | Some (_, st1) \<Rightarrow> map_option (Pair True) (pack_file_loop al file_size st1 fd)))"

text \<open>
  A path and the rest of the names in a directory, with a bound on the depth of the recursion.
  A directory that cannot be opened is a null pointer for \<open>readdir\<close>.
\<close>

definition is_dots :: "bytes \<Rightarrow> bool" where
  "is_dots name \<longleftrightarrow> name = str ''..'' \<or> name = str ''.''"

fun pkg_pack_path_sub ::
      "nat \<Rightarrow> allocator \<Rightarrow> os_users \<Rightarrow> (nat \<Rightarrow> bytes) \<Rightarrow> pack_fs \<Rightarrow> pkg_pack_state \<Rightarrow> bytes
         \<Rightarrow> (bool \<times> pkg_pack_state) option"
  and pkg_pack_dir ::
      "nat \<Rightarrow> allocator \<Rightarrow> os_users \<Rightarrow> (nat \<Rightarrow> bytes) \<Rightarrow> pack_fs \<Rightarrow> pkg_pack_state \<Rightarrow> bytes \<Rightarrow> buffer \<Rightarrow> bytes list
         \<Rightarrow> (bool \<times> pkg_pack_state) option"
  where
  "pkg_pack_path_sub 0 al us junk fs st path = None"
| "pkg_pack_path_sub (Suc n) al us junk fs st path =
     (if length path < name_skip st then None
      else case tar_write_path_header us junk (fs_lstat fs) (fs_readlink fs) path (Some (drop (name_skip st) path))
                  (contents (tar_buffer st)) of
             None \<Rightarrow> None
           | Some (ok, out, detected) \<Rightarrow>
               (case tar_output al st out of
                  None \<Rightarrow> None
                | Some st1 \<Rightarrow>
                    (case detected of
                       None \<Rightarrow> Some (False, st1)
                     | Some (ty, file_size) \<Rightarrow>
                         if ty = TAR_FILE then pkg_pack_file al fs st1 path file_size
                         else if ty = TAR_DIR then
                           (case fs_opendir fs path of
                              None \<Rightarrow> None
                            | Some ents \<Rightarrow> pkg_pack_dir n al us junk fs st1 path buffer_zero ents)
                         else Some (ty = TAR_SYMLINK, st1))))"
| "pkg_pack_dir n al us junk fs st path path_buffer [] = Some (True, st)"
| "pkg_pack_dir n al us junk fs st path path_buffer (d_name # ents) =
     (if is_dots d_name then pkg_pack_dir n al us junk fs st path path_buffer ents
      else case path_cat al path_buffer path d_name of
             None \<Rightarrow> None
           | Some b \<Rightarrow>
               (case pkg_pack_path_sub n al us junk fs st (contents b) of
                  None \<Rightarrow> None
                | Some (ok, st') \<Rightarrow>
                    if ok then pkg_pack_dir n al us junk fs st' path b ents else Some (False, st')))"

definition pkg_pack_path ::
    "nat \<Rightarrow> allocator \<Rightarrow> os_users \<Rightarrow> (nat \<Rightarrow> bytes) \<Rightarrow> pack_fs \<Rightarrow> pkg_pack_state \<Rightarrow> bytes
       \<Rightarrow> (bool \<times> pkg_pack_state) option" where
  "pkg_pack_path n al us junk fs st path = pkg_pack_path_sub n al us junk fs (st\<lparr>name_skip := length path\<rparr>) path"

definition pkg_pack_finish :: "allocator \<Rightarrow> pkg_pack_state \<Rightarrow> (bool \<times> pkg_pack_state) option" where
  "pkg_pack_finish al st =
     (case tar_output al st (tar_write_end (contents (tar_buffer st))) of
        None \<Rightarrow> None
      | Some st1 \<Rightarrow>
          (case flush_tar_buffer al st1 of
             None \<Rightarrow> None
           | Some (ok, st2) \<Rightarrow> Some (if ok then flush_compress_buffer st2 else (False, st2))))"

text \<open>
  The program after its options were read (\<open>src/pkg/pkg-pack.util.c\<close>): the exit code and the
  standard output. What \<open>pkg_pack_path\<close> returns is not looked at.
\<close>

fun pack_paths ::
    "nat \<Rightarrow> allocator \<Rightarrow> os_users \<Rightarrow> (nat \<Rightarrow> bytes) \<Rightarrow> pack_fs \<Rightarrow> pkg_pack_state \<Rightarrow> bytes list \<Rightarrow> pkg_pack_state option" where
  "pack_paths n al us junk fs st [] = Some st"
| "pack_paths n al us junk fs st (path # args) =
     (case pkg_pack_path n al us junk fs st path of
        None \<Rightarrow> None
      | Some (_, st') \<Rightarrow> pack_paths n al us junk fs st' args)"

definition pkg_pack_main ::
    "nat \<Rightarrow> allocator \<Rightarrow> os_users \<Rightarrow> (nat \<Rightarrow> bytes) \<Rightarrow> pack_fs \<Rightarrow> bool \<Rightarrow> bytes \<Rightarrow> bytes list \<Rightarrow> write_fd
       \<Rightarrow> (nat \<times> write_fd) option" where
  "pkg_pack_main n al us junk fs compression_type script_path args stdout =
     (case fs_open fs script_path of
        None \<Rightarrow> Some (1, stdout)
      | Some script_fd \<Rightarrow>
          (case pkg_pack_new al us junk stdout script_fd compression_type of
             None \<Rightarrow> None
           | Some None \<Rightarrow> Some (1, stdout)
           | Some (Some st) \<Rightarrow>
               (case pack_paths n al us junk fs st args of
                  None \<Rightarrow> None
                | Some st1 \<Rightarrow>
                    map_option (\<lambda>(ok, st2). (if ok then 0 else 1, output_fd st2)) (pkg_pack_finish al st1))))"

section \<open>What is packed so far\<close>

text \<open>
  The bytes packed so far are on the descriptor, in the compress buffer and in the tar buffer,
  compressed up to the last of these.
\<close>

definition pack_limit :: "bool \<Rightarrow> nat" where
  "pack_limit z = (if z then 2 ^ 27 else 2 ^ 57)"

definition packed :: "allocator \<Rightarrow> bool \<Rightarrow> pkg_pack_state \<Rightarrow> bytes \<Rightarrow> bool" where
  "packed al z st X \<longleftrightarrow>
     buffer_wf (tar_buffer st) \<and> buffer_wf (compress_buffer st) \<and> fd_accepts (output_fd st) \<and>
     (\<forall>m < 2 ^ 63. can_alloc al m) \<and> length X < pack_limit z \<and> (deflate st \<noteq> None \<longleftrightarrow> z) \<and>
     (if z then \<exists>d. deflates (sent (output_fd st) @ contents (compress_buffer st)) d \<and> X = d @ contents (tar_buffer st)
      else contents (compress_buffer st) = [] \<and> X = sent (output_fd st) @ contents (tar_buffer st))"

declare contents_rewrite [simp]

lemma packed_tar:
  assumes "packed al z st X" and "contents b = contents (tar_buffer st) @ s" and "buffer_wf b" and "length (X @ s) < pack_limit z"
  shows "packed al z (st\<lparr>tar_buffer := b\<rparr>) (X @ s)"
  using assms by (auto simp: packed_def)

lemma packed_tar_length: "packed al z st X \<Longrightarrow> length (contents (tar_buffer st)) \<le> length X"
  by (auto simp: packed_def split: if_splits)

lemma packed_length: "packed al z st X \<Longrightarrow> length X < 2 ^ 57"
  by (auto simp: packed_def pack_limit_def split: if_splits)

lemma tar_output_packed:
  assumes "packed al z st X" and "length (X @ s) < pack_limit z"
  shows "\<exists>b. tar_output al st (contents (tar_buffer st) @ s) = Some (st\<lparr>tar_buffer := b\<rparr>) \<and>
    packed al z (st\<lparr>tar_buffer := b\<rparr>) (X @ s)"
proof -
  have "buffer_wf (tar_buffer st)" "\<forall>m < 2 ^ 63. can_alloc al m" using assms(1) by (simp_all add: packed_def)
  moreover have "length (contents (tar_buffer st) @ s) < 2 ^ 60"
    using packed_tar_length [OF assms(1)] assms(2) by (auto simp: pack_limit_def split: if_splits)
  ultimately obtain b where "buffer_extend al (tar_buffer st) (contents (tar_buffer st) @ s) = Some b"
      "contents b = contents (tar_buffer st) @ s" "buffer_wf b"
    using buffer_extend_contents by metis
  then show ?thesis using packed_tar [OF assms(1) _ _ assms(2)] by (auto simp: tar_output_def)
qed

lemma flush_buffer_accepts:
  assumes "fd_accepts fd" and "buffer_wf b"
  shows "\<exists>fd' b'. flush_buffer_to_fd fd b = (True, fd', b') \<and> sent fd' = sent fd @ contents b \<and> fd_accepts fd' \<and>
    contents b' = [] \<and> buffer_wf b'"
proof (cases "used b = 0")
  case True
  then show ?thesis using assms by (simp add: flush_buffer_to_fd_def contents_def)
next
  case False
  from buffer_write_loop_accepts [OF assms(1), of 0 "contents b"] obtain fd' where
    "buffer_write_loop (contents b) 0 fd = (0, length (contents b), fd')" "sent fd' = sent fd @ contents b" "fd_accepts fd'"
    by auto
  then show ?thesis using False by (simp add: flush_buffer_to_fd_def)
qed

lemma flush_compress_packed:
  assumes "packed al z st X"
  shows "\<exists>st'. flush_compress_buffer st = (True, st') \<and> packed al z st' X \<and> contents (compress_buffer st') = [] \<and>
    tar_buffer st' = tar_buffer st \<and> name_skip st' = name_skip st"
proof -
  have "fd_accepts (output_fd st)" "buffer_wf (compress_buffer st)" using assms by (simp_all add: packed_def)
  then obtain fd' b' where "flush_buffer_to_fd (output_fd st) (compress_buffer st) = (True, fd', b')"
      "sent fd' = sent (output_fd st) @ contents (compress_buffer st)" "fd_accepts fd'" "contents b' = []" "buffer_wf b'"
    using flush_buffer_accepts by metis
  then show ?thesis using assms by (simp add: flush_compress_buffer_def packed_def split: if_splits)
qed

text \<open>Compressing what was collected.\<close>

lemma dzip_deflate_deflates:
  assumes "length out + 3 * length input + 48 < 4294967296"
  obtains cs z' where "dzip_deflate out z input = Some (out @ cs, z')" and "deflates cs input" and "length cs \<le> 19 * length input"
proof -
  from dzip_deflate_chunks [OF assms, of z] obtain ps z' where
    z: "dzip_deflate out z input = Some (out @ concat (map fst ps), z')" "list_all is_chunk ps" "concat (map snd ps) = input"
      "length (concat (map fst ps)) \<le> deflated_size (length input)" by blast
  have sz: "deflated_size (length input) \<le> 19 * length input"
    using deflated_size_le [of "length input"] by (cases "length input") (simp_all add: deflated_size_def [of 0])
  have "deflates (concat (map fst ps)) input" using z(2-4) sz by (auto simp: deflates_def)
  then show ?thesis using that z(1,4) sz by (metis le_trans)
qed

lemma deflates_inflate:
  assumes "deflates T d" and "length d < 4294967296"
  shows "dzip_inflate_range [] T = Some (True, d, [])"
proof -
  obtain ps where "T = concat (map fst ps)" "d = concat (map snd ps)" "list_all is_chunk ps"
    using assms(1) by (auto simp: deflates_def)
  then show ?thesis
    using inflate_range_chunks [of ps "[]" "[]"] assms(2)
    by (simp add: dzip_inflate_range_def inflate_range_loop.simps [of _ "[]"])
qed

lemma flush_tar_packed:
  assumes "packed al z st X"
  shows "\<exists>st'. flush_tar_buffer al st = Some (True, st') \<and> packed al z st' X \<and> contents (tar_buffer st') = [] \<and>
    name_skip st' = name_skip st"
proof (cases z)
  case False
  have "fd_accepts (output_fd st)" "buffer_wf (tar_buffer st)" using assms by (simp_all add: packed_def)
  then obtain fd' b' where "flush_buffer_to_fd (output_fd st) (tar_buffer st) = (True, fd', b')"
      "sent fd' = sent (output_fd st) @ contents (tar_buffer st)" "fd_accepts fd'" "contents b' = []" "buffer_wf b'"
    using flush_buffer_accepts by metis
  then show ?thesis using assms False by (auto simp: flush_tar_buffer_def packed_def)
next
  case True
  let ?c = "contents (compress_buffer st)" and ?t = "contents (tar_buffer st)"
  obtain y where y: "deflate st = Some y" using assms True by (auto simp: packed_def)
  obtain d where d: "deflates (sent (output_fd st) @ ?c) d" "X = d @ ?t" using assms True by (auto simp: packed_def)
  have p: "buffer_wf (compress_buffer st)" "\<forall>m < 2 ^ 63. can_alloc al m" "length X < 2 ^ 27"
    using assms True by (simp_all add: packed_def pack_limit_def)
  have c: "length ?c \<le> 19 * length d" using d(1) by (simp add: deflates_def)
  then have "length ?c + 3 * length ?t + 48 < 4294967296" using d(2) p(3) by simp
  then obtain cs y' where cs: "dzip_deflate ?c y ?t = Some (?c @ cs, y')" "deflates cs ?t" "length cs \<le> 19 * length ?t"
    using dzip_deflate_deflates by metis
  have "length (?c @ cs) < 2 ^ 60" using c cs(3) d(2) p(3) by simp
  then obtain b where b: "buffer_extend al (compress_buffer st) (?c @ cs) = Some b" "contents b = ?c @ cs" "buffer_wf b"
    using buffer_extend_contents [OF p(1) _ p(2)] by metis
  have "deflates ((sent (output_fd st) @ ?c) @ cs) (d @ ?t)" using d(1) cs(2) by (rule deflates_append)
  then show ?thesis
    using assms True y cs(1) b d(2) by (auto simp: flush_tar_buffer_def packed_def)
qed





section \<open>Trees of files\<close>

text \<open>
  What is found below a path: a file with its contents, a symbolic link, or a directory with
  names that are not empty and have no separators.
\<close>

datatype node = NFile file_stat bytes | NLink file_stat bytes | NDir file_stat kids
  and kids = NoKids | Kid bytes node kids


definition below :: "bytes \<Rightarrow> bytes \<Rightarrow> bytes" where
  "below path name = path @ PATH_SEPARATOR # name"



definition stat_args :: "bytes \<Rightarrow> file_stat \<Rightarrow> bytes option \<Rightarrow> tar_header_args" where
  "stat_args name s link =
     \<lparr>a_name = name, a_mode = st_mode s, a_uid = st_uid s, a_gid = st_gid s, a_size = st_size s, a_mtime = 0,
      a_type = stat_type s, a_linkname = link, a_uname = None, a_gname = None\<rparr>"

fun node_items :: "bytes \<Rightarrow> node \<Rightarrow> tar_item list" and kids_items :: "bytes \<Rightarrow> kids \<Rightarrow> tar_item list" where
  "node_items name (NFile s data) = [(stat_args name s None, data)]"
| "node_items name (NLink s target) = [(stat_args name s (Some target), [])]"
| "node_items name (NDir s ks) = (stat_args name s None, []) # kids_items name ks"
| "kids_items name NoKids = []"
| "kids_items name (Kid n k ks) = node_items (below name n) k @ kids_items name ks"

section \<open>Packing a tree\<close>

text \<open>Bytes that are the entries of an archive without its end.\<close>

definition begins :: "tar_item list \<Rightarrow> bytes \<Rightarrow> bool" where
  "begins items t \<longleftrightarrow> (\<forall>ys u. archive_bytes ys u \<longrightarrow> archive_bytes (items @ ys) (t @ u))"

lemma begins_Nil [simp]: "begins [] []"
  by (simp add: begins_def)


lemma begins_archive: "begins items t \<Longrightarrow> archive_bytes items (t @ tar_write_end [])"
  using archive_bytes.simps(1) unfolding begins_def by (metis append_Nil2)

lemma begins_length: "begins items t \<Longrightarrow> length t + 1024 = archive_length items"
  using archive_bytes_length [OF begins_archive] by (fastforce simp: tar_write_end_def TAR_BLOCK_SIZE_def)



text \<open>The header of an item.\<close>

declare tar_write_header.simps [simp del]

lemma item_header:
  assumes "item_ok us (args, data)"
  obtains m where "tar_write_header us junk args out = Some (True, out @ m)"
    and "begins [(args, data)] (m @ item_data (args, data))" and "length m = 512"
proof -
  have ok: "users_known us args" "fields_ok args" "entry_short args" "a_type args \<in> {TAR_FILE, TAR_DIR, TAR_SYMLINK}"
    using assms by (simp_all add: item_ok_def entry_ok_def)
  obtain flag where f: "convert_type (a_type args) = Some flag" using ok(4) by auto
  obtain m where m: "tar_write_header us junk args out = Some (True, out @ m)"
      "block_reads m args (entry_name args) flag (entry_link args)"
    using tar_write_header_short [OF ok(1-3) f] by metis
  then have "begins [(args, data)] (m @ item_data (args, data))" using f by (auto simp: begins_def)
  moreover have "length m = 512" using m(2) unfolding block_reads_def by blast
  ultimately show ?thesis using m(1) that by blast
qed



declare pkg_pack_path_sub.simps(2) [simp del]






section \<open>The program\<close>

text \<open>The build script and the trees below some paths.\<close>

definition package_items :: "bytes \<Rightarrow> (bytes \<times> node) list \<Rightarrow> tar_item list" where
  "package_items script ps = (script_args (length script), script) # concat (map (\<lambda>p. node_items [] (snd p)) ps)"

lemma pkg_pack_new_packed:
  assumes "fd_clean fd" and "fd_accepts out" and "sent out = []" and "\<forall>m < 2 ^ 63. can_alloc al m"
    and "item_ok us (script_args (length (fd_data fd)), fd_data fd)"
    and "archive_length [(script_args (length (fd_data fd)), fd_data fd)] < pack_limit z"
  shows "\<exists>t st. pkg_pack_new al us junk out fd z = Some (Some st) \<and> packed al z st t \<and>
    begins [(script_args (length (fd_data fd)), fd_data fd)] t"
proof -
  let ?s = "fd_data fd" and ?it = "(script_args (length (fd_data fd)), fd_data fd)"
  have it: "item_data ?it = ?s @ tar_padding (length ?s)" by (simp add: item_data_def script_args_def)
  obtain m where m: "tar_write_header us junk (script_args (length ?s)) [] = Some (True, [] @ m)"
      "begins [?it] (m @ item_data ?it)" "length m = 512"
    using item_header [OF assms(5)] by metis
  have len: "length (m @ item_data ?it) < pack_limit z" using begins_length [OF m(2)] assms(6) by simp
  then have small: "length (m @ item_data ?it) < 2 ^ 57" by (auto simp: pack_limit_def split: if_splits)
  then have "io_room al buffer_zero (length ?s) 0"
    using assms(4) it by (simp add: io_room_def buffer_zero_def buffer_wf_def)
  from buffer_read_loop_clean [OF this assms(1) order_refl, of 0] obtain b fd' where
    r: "buffer_read_loop al buffer_zero 0 0 fd = Some (0, b, fd')" "buffer_wf b" "contents b = ?s"
    by (auto simp: contents_def buffer_zero_def)
  have u: "used b = length ?s" using length_contents [OF r(2)] r(3) by simp
  have wf: "buffer_wf buffer_zero" "contents buffer_zero = []" by (simp_all add: buffer_zero_def buffer_wf_def contents_def)
  have "length (contents buffer_zero @ (m @ item_data ?it)) < 2 ^ 60" using small wf(2) by simp
  from buffer_extend_contents [OF wf(1) this assms(4)] obtain c where
    c: "buffer_extend al buffer_zero (m @ item_data ?it) = Some c" "contents c = m @ item_data ?it" "buffer_wf c"
    unfolding wf(2) by auto
  let ?st = "\<lparr>output_fd = out, tar_buffer = c, compress_buffer = buffer_rewrite b,
      deflate = (if z then Some dzip_deflate_state_new else None), name_skip = 0\<rparr>"
  have "pkg_pack_new al us junk out fd z = Some (Some ?st)"
    using r(1,3) u m(1) c(1) it by (simp add: pkg_pack_new_def tar_write_padding_append)
  moreover have "deflates [] []" by (auto simp: deflates_def intro: exI [of _ "[]"])
  then have "packed al z ?st (m @ item_data ?it)"
    using assms(2-4) c(2,3) len by (auto simp: packed_def)
  ultimately show ?thesis using m(2) by blast
qed


lemma pkg_pack_finish_packed:
  assumes "packed al z st X" and "length X + 1024 < pack_limit z"
  shows "\<exists>st'. pkg_pack_finish al st = Some (True, st') \<and>
    (if z then dzip_inflate_range [] (sent (output_fd st')) = Some (True, X @ tar_write_end [], [])
     else sent (output_fd st') = X @ tar_write_end [])"
proof -
  let ?X = "X @ tar_write_end []"
  have e: "tar_write_end out = out @ tar_write_end []" for out by (simp add: tar_write_end_def)
  have len: "length ?X < pack_limit z" using assms(2) by (simp add: tar_write_end_def TAR_BLOCK_SIZE_def)
  from tar_output_packed [OF assms(1) this] obtain b where
    b: "tar_output al st (tar_write_end (contents (tar_buffer st))) = Some (st\<lparr>tar_buffer := b\<rparr>)"
      "packed al z (st\<lparr>tar_buffer := b\<rparr>) ?X"
    unfolding e [of "contents (tar_buffer st)"] by blast
  from flush_tar_packed [OF b(2)] obtain st1 where
    1: "flush_tar_buffer al (st\<lparr>tar_buffer := b\<rparr>) = Some (True, st1)" "packed al z st1 ?X" "contents (tar_buffer st1) = []" by blast
  from flush_compress_packed [OF 1(2)] obtain st2 where
    2: "flush_compress_buffer st1 = (True, st2)" "packed al z st2 ?X" "contents (compress_buffer st2) = []"
      "tar_buffer st2 = tar_buffer st1" by blast
  have "if z then deflates (sent (output_fd st2)) ?X else sent (output_fd st2) = ?X"
    using 2(2-4) 1(3) by (auto simp: packed_def)
  moreover have "z \<Longrightarrow> length ?X < 4294967296" using len by (simp add: pack_limit_def)
  ultimately show ?thesis
    using b(1) 1(1) 2(1) deflates_inflate by (auto simp: pkg_pack_finish_def split: if_splits)
qed


section \<open>Properties\<close>


text \<open>A directory \<open>d\<close> with a file \<open>a\<close>, and the script of the package \<open>foo\<close>.\<close>

definition regular_stat :: "nat \<Rightarrow> file_stat" where
  "regular_stat n = \<lparr>st_mode = 33188, st_uid = 0, st_gid = 0, st_size = word_of_nat n\<rparr>"

definition directory_stat :: file_stat where
  "directory_stat = \<lparr>st_mode = 16877, st_uid = 0, st_gid = 0, st_size = 4096\<rparr>"

definition foo_fs :: pack_fs where
  "foo_fs =
     \<lparr>fs_lstat = [str ''d'' \<mapsto> directory_stat, str ''d/a'' \<mapsto> regular_stat 3],
      fs_readlink = Map.empty,
      fs_opendir = [str ''d'' \<mapsto> [str ''.'', str ''..'', str ''a'']],
      fs_open = [str ''s'' \<mapsto> [Some foo_script], str ''d/a'' \<mapsto> [Some [1], Some [2, 3]]]\<rparr>"

definition foo_tree :: node where
  "foo_tree = NDir directory_stat (Kid (str ''a'') (NFile (regular_stat 3) [1, 2, 3]) NoKids)"

lemma foo_stats [simp]:
  "stat_type directory_stat = TAR_DIR" "stat_type (regular_stat n) = TAR_FILE"
  "st_mode directory_stat = 16877" "st_mode (regular_stat n) = 33188" "st_uid directory_stat = 0" "st_uid (regular_stat n) = 0"
  "st_gid directory_stat = 0" "st_gid (regular_stat n) = 0" "st_size directory_stat = 4096" "st_size (regular_stat n) = word_of_nat n"
  by (simp_all add: stat_type_def directory_stat_def regular_stat_def Let_def)


lemma length_foo_script: "length foo_script = 13"
  by (simp add: foo_script_def str_def)

lemma foo_package: "package_items foo_script [(str ''d'', foo_tree)] =
    [(script_args 13, foo_script), (stat_args [] directory_stat None, []),
     (stat_args (str ''/a'') (regular_stat 3) None, [1, 2, 3])]"
  by (simp add: package_items_def length_foo_script foo_tree_def below_def str_def PATH_SEPARATOR_def byte_of_def)

lemma foo_package_ok: "list_all (item_ok one_user) (package_items foo_script [(str ''d'', foo_tree)])"
  unfolding foo_package list.pred_inject
  by (simp add: item_ok_def script_args_def stat_args_def users_known_def tar_passwd_def tar_group_def one_user_def
      entry_ok_def fields_ok_def entry_short_def entry_name_def entry_link_def length_foo_script str_def byte_of_def
      PATH_SEPARATOR_def Let_def)



text \<open>What cannot be packed is left out without an error: for a path that does not exist the
  program returns 0 and writes a package that has the build script only.\<close>

theorem pkg_pack_missing_path:
  assumes "fs_open fs script_path = Some fd" and "fd_clean fd" and "fs_lstat fs path = None"
    and "list_all (item_ok us) (package_items (fd_data fd) [])"
    and "archive_length (package_items (fd_data fd) []) < pack_limit z"
    and "\<forall>m < 2 ^ 63. can_alloc al m" and "fd_accepts out" and "sent out = []"
  shows "\<exists>out' archive. pkg_pack_main (Suc n) al us junk fs z script_path [path] out = Some (0, out') \<and>
    (if z then dzip_inflate_range [] (sent out') = Some (True, archive, []) else sent out' = archive) \<and>
    extracts al archive [(script_args (length (fd_data fd)), fd_data fd)]"
proof -
  let ?it = "(script_args (length (fd_data fd)), fd_data fd)"
  have pi: "package_items (fd_data fd) [] = [?it]" by (simp add: package_items_def)
  have ok: "item_ok us ?it" "archive_length [?it] < pack_limit z" using assms(4,5) unfolding pi by simp_all
  from pkg_pack_new_packed [OF assms(2,7,8,6) ok, of junk] obtain t st where
    1: "pkg_pack_new al us junk out fd z = Some (Some st)" "packed al z st t" "begins [?it] t" by blast
  let ?st = "st\<lparr>name_skip := length path\<rparr>"
  have t: "length t + 1024 < pack_limit z" using begins_length [OF 1(3)] ok(2) by simp
  have "packed al z ?st t" "length (t @ []) < pack_limit z" using 1(2) t by (simp_all add: packed_def)
  from tar_output_packed [OF this] obtain b where
    b: "tar_output al ?st (contents (tar_buffer st)) = Some (?st\<lparr>tar_buffer := b\<rparr>)" "packed al z (?st\<lparr>tar_buffer := b\<rparr>) t" by auto
  have "pkg_pack_path (Suc n) al us junk fs st path = Some (False, ?st\<lparr>tar_buffer := b\<rparr>)"
    using assms(3) b(1) by (simp add: pkg_pack_path_def pkg_pack_path_sub.simps(2) tar_write_path_header_def)
  moreover from pkg_pack_finish_packed [OF b(2) t] obtain st2 where
    "pkg_pack_finish al (?st\<lparr>tar_buffer := b\<rparr>) = Some (True, st2)"
    "if z then dzip_inflate_range [] (sent (output_fd st2)) = Some (True, t @ tar_write_end [], [])
     else sent (output_fd st2) = t @ tar_write_end []" by blast
  moreover have "extracts al (t @ tar_write_end []) [?it]"
    using archive_bytes_extracts [OF begins_archive [OF 1(3)]] ok(1) by simp
  ultimately show ?thesis using assms(1) 1(1) by (simp add: pkg_pack_main_def)
qed

theorem pkg_pack_missing_path_witness:
  "\<exists>out' archive. pkg_pack_main 1 plain_alloc one_user (\<lambda>_. []) foo_fs False (str ''s'') [str ''x''] \<lparr>accept = [], sent = []\<rparr> = Some (0, out') \<and>
    sent out' = archive \<and> extracts plain_alloc archive [(script_args 13, foo_script)]"
proof -
  have o: "fs_open foo_fs (str ''s'') = Some [Some foo_script]" "fs_lstat foo_fs (str ''x'') = None" by (simp_all add: foo_fs_def str_def)
  have s: "fd_data [Some foo_script] = foo_script" "fd_clean [Some foo_script]" using length_foo_script by auto
  have i: "package_items foo_script [] = [(script_args 13, foo_script)]" by (simp add: package_items_def length_foo_script)
  have ok: "list_all (item_ok one_user) (package_items foo_script [])" using foo_package_ok unfolding foo_package i by simp
  have l: "archive_length (package_items foo_script []) < pack_limit False"
    unfolding i by (simp add: item_data_def script_args_def length_foo_script tar_padding_def
      tar_write_padding_def TAR_BLOCK_SIZE_def pack_limit_def)
  have al: "\<forall>m < 2 ^ 63. can_alloc plain_alloc m" by simp
  have out: "fd_accepts \<lparr>accept = [], sent = []\<rparr>" "sent \<lparr>accept = [], sent = []\<rparr> = []" by simp_all
  have f: "list_all (item_ok one_user) (package_items (fd_data [Some foo_script]) [])"
    "archive_length (package_items (fd_data [Some foo_script]) []) < pack_limit False"
    unfolding s(1) by (fact ok l)+
  from pkg_pack_missing_path [OF o(1) s(2) o(2) f al out, of 0 "\<lambda>_. []"]
  show ?thesis unfolding s(1) length_foo_script by (simp add: One_nat_def)
qed

end
