(* ===== verification/Vm.thy ===== *)
theory Vm
  imports DzipFormat "HOL-Library.Signed_Division"
begin

text \<open>
  The virtual machine of \<open>src/backburner/vm\<close>: instructions on one register and a memory of
  bytes (\<open>vm.c\<close>), programs in files (\<open>machine-code.c\<close>) and the table of constants
  (\<open>constants.c\<close>). Allocations succeed here. The arithmetic of 32-bit floats, as bit patterns,
  is a parameter. What the C standard leaves undefined is a fault.
\<close>

section \<open>Architecture\<close>

datatype opcode =
  OP_EXIT
| OP_INT_LOAD | OP_INT_STORE | OP_INT_ADD | OP_INT_SUBTRACT | OP_INT_MULTIPLY | OP_INT_DIVIDE
| OP_FLOAT_LOAD | OP_FLOAT_STORE | OP_FLOAT_ADD | OP_FLOAT_SUBTRACT | OP_FLOAT_MULTIPLY | OP_FLOAT_DIVIDE
| OP_ITOF | OP_FTOI | OP_JUMP | OP_JUMP_IF_NOT

definition opcodes :: "opcode list" where
  "opcodes =
     [OP_EXIT, OP_INT_LOAD, OP_INT_STORE, OP_INT_ADD, OP_INT_SUBTRACT, OP_INT_MULTIPLY, OP_INT_DIVIDE,
      OP_FLOAT_LOAD, OP_FLOAT_STORE, OP_FLOAT_ADD, OP_FLOAT_SUBTRACT, OP_FLOAT_MULTIPLY, OP_FLOAT_DIVIDE,
      OP_ITOF, OP_FTOI, OP_JUMP, OP_JUMP_IF_NOT]"

type_synonym vm_word = "32 word"

definition opcode_of :: "vm_word \<Rightarrow> opcode option" where
  "opcode_of n = (if unat n < length opcodes then Some (opcodes ! unat n) else None)"

fun opcode_number :: "opcode \<Rightarrow> vm_word" where
  "opcode_number OP_EXIT = 0"
| "opcode_number OP_INT_LOAD = 1"
| "opcode_number OP_INT_STORE = 2"
| "opcode_number OP_INT_ADD = 3"
| "opcode_number OP_INT_SUBTRACT = 4"
| "opcode_number OP_INT_MULTIPLY = 5"
| "opcode_number OP_INT_DIVIDE = 6"
| "opcode_number OP_FLOAT_LOAD = 7"
| "opcode_number OP_FLOAT_STORE = 8"
| "opcode_number OP_FLOAT_ADD = 9"
| "opcode_number OP_FLOAT_SUBTRACT = 10"
| "opcode_number OP_FLOAT_MULTIPLY = 11"
| "opcode_number OP_FLOAT_DIVIDE = 12"
| "opcode_number OP_ITOF = 13"
| "opcode_number OP_FTOI = 14"
| "opcode_number OP_JUMP = 15"
| "opcode_number OP_JUMP_IF_NOT = 16"

record instruction =
  i_opcode :: vm_word
  i_arg :: vm_word

record machine_code =
  mc_instructions :: "instruction list"
  mc_constants :: bytes

text \<open>The union of the register is its 32 bits.\<close>

record vm_state =
  instructions :: "instruction list"
  memory :: bytes
  instruction_pointer :: vm_word
  frame :: vm_word
  result :: vm_word

definition vm_state_zero :: vm_state where
  "vm_state_zero = \<lparr>instructions = [], memory = [], instruction_pointer = 0, frame = 0, result = 0\<rparr>"

text \<open>Floats; the conversion to an integer is undefined outside its range.\<close>

record float_unit =
  f_add :: "vm_word \<Rightarrow> vm_word \<Rightarrow> vm_word"
  f_subtract :: "vm_word \<Rightarrow> vm_word \<Rightarrow> vm_word"
  f_multiply :: "vm_word \<Rightarrow> vm_word \<Rightarrow> vm_word"
  f_divide :: "vm_word \<Rightarrow> vm_word \<Rightarrow> vm_word"
  f_of_int :: "vm_word \<Rightarrow> vm_word"
  f_to_int :: "vm_word \<Rightarrow> vm_word option"

section \<open>Running\<close>

text \<open>Signed numbers that do not fit are undefined, as is a division by zero.\<close>

definition signed32 :: "int \<Rightarrow> vm_word option" where
  "signed32 i = (if - (2 ^ 31) \<le> i \<and> i < 2 ^ 31 then Some (word_of_int i) else None)"

text \<open>The result of an operation of the register and the operand.\<close>

fun vm_arith :: "float_unit \<Rightarrow> opcode \<Rightarrow> vm_word \<Rightarrow> vm_word \<Rightarrow> vm_word option" where
  "vm_arith fu OP_INT_ADD r a = signed32 (sint r + sint a)"
| "vm_arith fu OP_INT_SUBTRACT r a = signed32 (sint r - sint a)"
| "vm_arith fu OP_INT_MULTIPLY r a = signed32 (sint r * sint a)"
| "vm_arith fu OP_INT_DIVIDE r a = (if a = 0 then None else signed32 (sint r sdiv sint a))"
| "vm_arith fu OP_FLOAT_ADD r a = Some (f_add fu r a)"
| "vm_arith fu OP_FLOAT_SUBTRACT r a = Some (f_subtract fu r a)"
| "vm_arith fu OP_FLOAT_MULTIPLY r a = Some (f_multiply fu r a)"
| "vm_arith fu OP_FLOAT_DIVIDE r a = Some (f_divide fu r a)"
| "vm_arith fu OP_INT_LOAD r a = Some a"
| "vm_arith fu OP_FLOAT_LOAD r a = Some a"
| "vm_arith fu OP_ITOF r a = Some (f_of_int fu r)"
| "vm_arith fu OP_FTOI r a = f_to_int fu r"
| "vm_arith fu _ r a = Some r"

datatype vm_outcome = Running vm_state | Halted bool vm_state | Fault

text \<open>
  Access to four bytes of the memory, which the allocator aligned: an address that is no multiple of
  four is undefined.
\<close>

definition load32 :: "bytes \<Rightarrow> nat \<Rightarrow> vm_word option" where
  "load32 m a = (if 4 dvd a \<and> a + 4 \<le> length m then Some (word_of_nat (le32 (drop a m))) else None)"

definition store32 :: "bytes \<Rightarrow> nat \<Rightarrow> vm_word \<Rightarrow> bytes option" where
  "store32 m a w = (if 4 dvd a \<and> a + 4 \<le> length m then Some (take a m @ le32_bytes (unat w) @ drop (a + 4) m) else None)"

text \<open>The switch: an instruction with its argument and the address of its operand.\<close>

definition vm_operate :: "float_unit \<Rightarrow> opcode \<Rightarrow> vm_word \<Rightarrow> nat \<Rightarrow> vm_state \<Rightarrow> vm_outcome" where
  "vm_operate fu op arg a st =
     (case op of
        OP_EXIT \<Rightarrow> Halted True st
      | OP_JUMP \<Rightarrow> Running (st\<lparr>instruction_pointer := arg\<rparr>)
      | OP_JUMP_IF_NOT \<Rightarrow>
          Running (if result st \<noteq> 0 then st else st\<lparr>instruction_pointer := arg\<rparr>)
      | OP_ITOF \<Rightarrow> (case vm_arith fu op (result st) 0 of None \<Rightarrow> Fault | Some r \<Rightarrow> Running (st\<lparr>result := r\<rparr>))
      | OP_FTOI \<Rightarrow> (case vm_arith fu op (result st) 0 of None \<Rightarrow> Fault | Some r \<Rightarrow> Running (st\<lparr>result := r\<rparr>))
      | _ \<Rightarrow>
          if op = OP_INT_STORE \<or> op = OP_FLOAT_STORE
          then (case store32 (memory st) a (result st) of None \<Rightarrow> Fault | Some m \<Rightarrow> Running (st\<lparr>memory := m\<rparr>))
          else (case load32 (memory st) a of
                  None \<Rightarrow> Fault
                | Some w \<Rightarrow> (case vm_arith fu op (result st) w of None \<Rightarrow> Fault | Some r \<Rightarrow> Running (st\<lparr>result := r\<rparr>))))"

text \<open>
  The address of an operand: the sizes are unsigned numbers of 32 bits, and the frame is
  taken from the size but not added. A division by zero is a fault.
\<close>

definition arg_address :: "vm_state \<Rightarrow> vm_word \<Rightarrow> nat option" where
  "arg_address st arg =
     (let memory_size = word_of_nat (length (memory st)) - 4; memory_mod = memory_size - frame st
      in if memory_mod = 0 then None else Some (unat ((arg + memory_mod) mod memory_mod)))"

definition current_instruction :: "vm_state \<Rightarrow> instruction" where
  "current_instruction st =
     instructions st ! unat (instruction_pointer st mod word_of_nat (length (instructions st)))"

definition vm_step :: "float_unit \<Rightarrow> vm_state \<Rightarrow> vm_outcome" where
  "vm_step fu st =
     (if (word_of_nat (length (instructions st)) :: vm_word) = 0 then Fault
      else let ins = current_instruction st; st1 = st\<lparr>instruction_pointer := instruction_pointer st + 1\<rparr>
           in case arg_address st1 (i_arg ins) of
                None \<Rightarrow> Fault
              | Some a \<Rightarrow>
                  (case opcode_of (i_opcode ins) of
                     None \<Rightarrow> Halted False st1
                   | Some op \<Rightarrow> vm_operate fu op (i_arg ins) a st1))"

text \<open>The loop of \<open>vm_frame\<close>, which is \<open>None\<close> if it does not end.\<close>

partial_function (option) vm_frame :: "float_unit \<Rightarrow> vm_state \<Rightarrow> vm_outcome option" where
  "vm_frame fu st = (case vm_step fu st of Running st' \<Rightarrow> vm_frame fu st' | out \<Rightarrow> Some out)"

definition vm_init :: "vm_state \<Rightarrow> machine_code \<Rightarrow> nat \<Rightarrow> bool \<times> vm_state" where
  "vm_init st code size_of_memory =
     (if size_of_memory \<le> length (mc_constants code) then (False, st)
      else (True, st\<lparr>memory := mc_constants code @ replicate (size_of_memory - length (mc_constants code)) 0,
                     instructions := mc_instructions code\<rparr>))"

section \<open>Files\<close>

text \<open>
  A file that is written accepts all of the bytes, or so many; \<open>fread\<close> fills what it can and
  reports the number of complete items.
\<close>

definition fwrite :: "bytes \<Rightarrow> nat \<Rightarrow> nat option \<times> bytes \<Rightarrow> nat \<times> nat option \<times> bytes" where
  "fwrite data item_size file =
     (case file of
        (None, out) \<Rightarrow> (length data div item_size, None, out @ data)
      | (Some k, out) \<Rightarrow> (min k (length data) div item_size, Some (k - length data), out @ take k data))"

definition instruction_bytes :: "instruction \<Rightarrow> bytes" where
  "instruction_bytes i = le32_bytes (unat (i_opcode i)) @ le32_bytes (unat (i_arg i))"

definition write_machine_code :: "nat option \<times> bytes \<Rightarrow> machine_code \<Rightarrow> bool \<times> nat option \<times> bytes" where
  "write_machine_code file code =
     (let constants = mc_constants code; ins = mc_instructions code;
          header = le32_bytes (length constants) @ le32_bytes (length ins)
      in case fwrite header 4 file of
           (n, file1) \<Rightarrow>
             if n < 2 then (False, file1)
             else case fwrite constants 1 file1 of
                    (n, file2) \<Rightarrow>
                      if n \<noteq> length constants then (False, file2)
                      else case fwrite (concat (map instruction_bytes ins)) 8 file2 of
                             (n, file3) \<Rightarrow> (\<not> n < length ins, file3))"

fun read_instructions :: "nat \<Rightarrow> bytes \<Rightarrow> instruction list" where
  "read_instructions 0 m = []"
| "read_instructions (Suc n) m =
     \<lparr>i_opcode = word_of_nat (le32 m), i_arg = word_of_nat (le32 (drop 4 m))\<rparr> # read_instructions n (drop 8 m)"

text \<open>
  The code that is read replaces the contents of both buffers; when the file is too short they
  are not used by the caller. The rest of the file is returned.
\<close>

definition read_machine_code :: "bytes \<Rightarrow> (machine_code \<times> bytes) option" where
  "read_machine_code file =
     (if length file < 8 then None
      else let c = le32 file; n = le32 (drop 4 file); m = drop 8 file
           in if length m < c then None
              else if length (drop c m) div 8 < n then None
              else Some (\<lparr>mc_instructions = read_instructions n (drop c m), mc_constants = take c m\<rparr>,
                         drop (8 * n) (drop c m)))"

section \<open>Constants\<close>

fun mem_compare :: "nat \<Rightarrow> bytes \<Rightarrow> bytes \<Rightarrow> bool" where
  "mem_compare 0 a b = True"
| "mem_compare (Suc n) a b = (if hd a \<noteq> hd b then False else mem_compare n (tl a) (tl b))"

text \<open>
  The scan ends before the last position at which the value fits. Without memory, which is when
  there are no constants, nothing is found; with fewer bytes than the value has, the end lies
  before the beginning, and the scan does not stop at it.
\<close>

fun find_constant_from :: "nat \<Rightarrow> nat \<Rightarrow> bytes \<Rightarrow> bytes \<Rightarrow> nat option" where
  "find_constant_from 0 i constants needle = None"
| "find_constant_from (Suc n) i constants needle =
     (if mem_compare (length needle) (drop i constants) needle then Some i
      else find_constant_from n (Suc i) constants needle)"

definition find_constant :: "bytes \<Rightarrow> bytes \<Rightarrow> nat option option" where
  "find_constant constants needle =
     (if constants = [] then Some None
      else if length constants < length needle then None
      else Some (find_constant_from (length constants - length needle) 0 constants needle))"

definition record_constant :: "bytes \<Rightarrow> bytes \<Rightarrow> (vm_word \<times> bytes) option" where
  "record_constant constants value =
     (case find_constant constants value of
        None \<Rightarrow> None
      | Some (Some i) \<Rightarrow> Some (word_of_nat i, constants)
      | Some None \<Rightarrow>
          (let retval = word_of_nat (length constants)
           in Some (retval, take (unat retval) constants @ value)))"

section \<open>What they do\<close>

lemma opcode_of_number [simp]: "opcode_of (opcode_number op) = Some op"
  by (cases op) (simp_all add: opcode_of_def opcodes_def)

lemma unat_of_nat32: "n < 4294967296 \<Longrightarrow> unat (word_of_nat n :: vm_word) = n"
  by (simp add: unat_of_nat)

lemma unat_vm_word: "unat (w :: vm_word) < 4294967296"
  using unsigned_less [of w] by simp

lemma load32_Some: "4 dvd a \<Longrightarrow> a + 4 \<le> length m \<Longrightarrow> \<exists>w. load32 m a = Some w"
  by (simp add: load32_def)

lemma store32_Some: "4 dvd a \<Longrightarrow> a + 4 \<le> length m \<Longrightarrow> \<exists>m'. store32 m a w = Some m' \<and> length m' = length m"
  by (simp add: store32_def)

lemma load_store32: "store32 m a w = Some m' \<Longrightarrow> load32 m' a = Some w"
  by (auto simp: load32_def store32_def le32_bytes_roundtrip unat_vm_word split: if_splits)

text \<open>
  A machine with a program and a memory whose operands all lie inside: a frame below the last
  register of the memory.
\<close>

definition vm_wf :: "vm_state \<Rightarrow> bool" where
  "vm_wf st \<longleftrightarrow>
     instructions st \<noteq> [] \<and> length (instructions st) < 2 ^ 32 \<and>
     unat (frame st) + 4 < length (memory st) \<and> length (memory st) < 2 ^ 32"

lemma arg_address_inside:
  assumes "vm_wf st"
  obtains a where "arg_address st arg = Some a" and "a + 4 + unat (frame st) < length (memory st)"
proof -
  let ?size = "word_of_nat (length (memory st)) - 4 :: vm_word" and ?mod = "word_of_nat (length (memory st)) - 4 - frame st"
  have wf: "unat (frame st) + 4 < length (memory st)" "length (memory st) < 4294967296"
    using assms by (simp_all add: vm_wf_def)
  have "(4 :: vm_word) \<le> word_of_nat (length (memory st))"
    using wf by (simp add: word_le_nat_alt unat_of_nat32)
  then have s: "unat ?size = length (memory st) - 4" using wf by (simp add: unat_sub unat_of_nat32)
  then have "frame st \<le> ?size" using wf by (simp add: word_le_nat_alt)
  then have m: "unat ?mod = length (memory st) - 4 - unat (frame st)" using s by (simp add: unat_sub)
  then have "0 < unat ?mod" using wf by simp
  moreover have "unat ((arg + ?mod) mod ?mod) = unat (arg + ?mod) mod unat ?mod" by (rule unat_mod)
  ultimately have "unat ((arg + ?mod) mod ?mod) < unat ?mod" "?mod \<noteq> 0" by auto
  then show ?thesis using that m wf by (simp add: arg_address_def Let_def)
qed

lemma current_instruction_in:
  assumes "vm_wf st"
  shows "current_instruction st \<in> set (instructions st)" and "(word_of_nat (length (instructions st)) :: vm_word) \<noteq> 0"
proof -
  let ?n = "word_of_nat (length (instructions st)) :: vm_word"
  have n: "unat ?n = length (instructions st)" "0 < length (instructions st)"
    using assms by (auto simp: vm_wf_def unat_of_nat32)
  then show nz: "?n \<noteq> 0" by auto
  have "unat (instruction_pointer st mod ?n) < length (instructions st)" using n by (simp add: unat_mod)
  then show "current_instruction st \<in> set (instructions st)" by (simp add: current_instruction_def)
qed

text \<open>The operation of an instruction of which the result is undefined.\<close>

definition undefined_result :: "float_unit \<Rightarrow> vm_state \<Rightarrow> bool" where
  "undefined_result fu st \<longleftrightarrow>
     (\<exists>op w. opcode_of (i_opcode (current_instruction st)) = Some op \<and>
        op \<in> {OP_INT_ADD, OP_INT_SUBTRACT, OP_INT_MULTIPLY, OP_INT_DIVIDE, OP_FTOI} \<and>
        (op = OP_FTOI \<or> Some w = Option.bind (arg_address st (i_arg (current_instruction st))) (load32 (memory st))) \<and>
        vm_arith fu op (result st) w = None)"

text \<open>An operand in the memory at an address that is no multiple of four.\<close>

definition uses_memory :: "opcode \<Rightarrow> bool" where
  "uses_memory op \<longleftrightarrow> op \<notin> {OP_EXIT, OP_JUMP, OP_JUMP_IF_NOT, OP_ITOF, OP_FTOI}"

definition misaligned_operand :: "vm_state \<Rightarrow> bool" where
  "misaligned_operand st \<longleftrightarrow>
     (\<exists>op a. opcode_of (i_opcode (current_instruction st)) = Some op \<and> uses_memory op \<and>
        arg_address st (i_arg (current_instruction st)) = Some a \<and> \<not> 4 dvd a)"

lemma vm_step_wf:
  assumes "vm_wf st"
  obtains a where "arg_address st (i_arg (current_instruction st)) = Some a" and "a + 4 + unat (frame st) < length (memory st)"
    and "vm_step fu st =
      (case opcode_of (i_opcode (current_instruction st)) of
         None \<Rightarrow> Halted False (st\<lparr>instruction_pointer := instruction_pointer st + 1\<rparr>)
       | Some op \<Rightarrow> vm_operate fu op (i_arg (current_instruction st)) a (st\<lparr>instruction_pointer := instruction_pointer st + 1\<rparr>))"
proof -
  let ?st = "st\<lparr>instruction_pointer := instruction_pointer st + 1\<rparr>"
  obtain a where a: "arg_address st (i_arg (current_instruction st)) = Some a" "a + 4 + unat (frame st) < length (memory st)"
    using arg_address_inside [OF assms] by metis
  have "arg_address ?st arg = arg_address st arg" for arg by (simp add: arg_address_def)
  then show ?thesis using that a current_instruction_in(2) [OF assms] by (simp add: vm_step_def Let_def)
qed

text \<open>Every step of such a machine stays in it.\<close>

lemma vm_operate_preserves:
  "vm_operate fu op arg a st = Running st' \<Longrightarrow>
     instructions st' = instructions st \<and> frame st' = frame st \<and> length (memory st') = length (memory st)"
  by (cases op) (auto simp: vm_operate_def store32_def split: option.splits if_splits)

lemma vm_step_preserves:
  "vm_step fu st = Running st' \<Longrightarrow>
     instructions st' = instructions st \<and> frame st' = frame st \<and> length (memory st') = length (memory st)"
  by (auto simp: vm_step_def Let_def split: if_splits option.splits dest!: vm_operate_preserves)

lemma vm_step_preserves_wf: "vm_wf st \<Longrightarrow> vm_step fu st = Running st' \<Longrightarrow> vm_wf st'"
  using vm_step_preserves unfolding vm_wf_def by metis

lemma vm_operate_fault:
  assumes "a + 4 \<le> length (memory st)"
  shows "vm_operate fu op arg a st = Fault \<longleftrightarrow>
    op \<in> {OP_INT_ADD, OP_INT_SUBTRACT, OP_INT_MULTIPLY, OP_INT_DIVIDE, OP_FTOI} \<and>
    (\<exists>w. (op = OP_FTOI \<or> Some w = load32 (memory st) a) \<and> vm_arith fu op (result st) w = None) \<or>
    uses_memory op \<and> \<not> 4 dvd a"
  using assms by (cases op) (auto simp: vm_operate_def load32_def store32_def uses_memory_def split: option.splits)

text \<open>The faults of a step.\<close>

lemma vm_step_fault:
  assumes "vm_wf st"
  shows "vm_step fu st = Fault \<longleftrightarrow> undefined_result fu st \<or> misaligned_operand st"
proof -
  obtain a where a: "arg_address st (i_arg (current_instruction st)) = Some a" "a + 4 + unat (frame st) < length (memory st)"
      "vm_step fu st = (case opcode_of (i_opcode (current_instruction st)) of
         None \<Rightarrow> Halted False (st\<lparr>instruction_pointer := instruction_pointer st + 1\<rparr>)
       | Some op \<Rightarrow> vm_operate fu op (i_arg (current_instruction st)) a (st\<lparr>instruction_pointer := instruction_pointer st + 1\<rparr>))"
    using vm_step_wf [OF assms] by metis
  have "a + 4 \<le> length (memory (st\<lparr>instruction_pointer := instruction_pointer st + 1\<rparr>))" using a(2) by simp
  from vm_operate_fault [OF this] show ?thesis
    unfolding a(3) undefined_result_def misaligned_operand_def by (auto simp: a(1) split: option.split)
qed

lemma opcode_of_exit: "opcode_of n = Some OP_EXIT \<longleftrightarrow> n = opcode_number OP_EXIT"
proof
  assume "opcode_of n = Some OP_EXIT"
  then have n: "unat n < 17" "opcodes ! unat n = OP_EXIT" by (auto simp: opcode_of_def opcodes_def split: if_splits)
  have "distinct opcodes" by (simp add: opcodes_def)
  then have "unat n = 0" using n nth_eq_iff_index_eq [of opcodes "unat n" 0] by (simp add: opcodes_def)
  then show "n = opcode_number OP_EXIT" by (simp add: unat_eq_0)
qed (simp add: opcode_of_def opcodes_def)

lemma vm_operate_exit: "vm_operate fu OP_EXIT arg a st = Halted True st"
  by (simp add: vm_operate_def)

lemma vm_operate_goes_on: "op \<noteq> OP_EXIT \<Longrightarrow> vm_operate fu op arg a st = Fault \<or> (\<exists>st'. vm_operate fu op arg a st = Running st')"
  by (cases op) (auto simp: vm_operate_def split: option.splits)

text \<open>States that are reached.\<close>

inductive vm_reaches :: "float_unit \<Rightarrow> vm_state \<Rightarrow> vm_state \<Rightarrow> bool" for fu where
  vm_reaches_refl: "vm_reaches fu st st"
| vm_reaches_step: "vm_reaches fu st st' \<Longrightarrow> vm_step fu st' = Running st'' \<Longrightarrow> vm_reaches fu st st''"

lemma vm_reaches_trans: "vm_reaches fu b c \<Longrightarrow> vm_reaches fu a b \<Longrightarrow> vm_reaches fu a c"
  by (induction rule: vm_reaches.induct) (auto intro: vm_reaches_step)

lemma vm_reaches_frame: "vm_reaches fu st st' \<Longrightarrow> vm_frame fu st = vm_frame fu st'"
  by (induction rule: vm_reaches.induct) (simp_all add: vm_frame.simps [of fu])

text \<open>\<open>vm_frame\<close> returns what the first step that does not go on gives.\<close>

lemma vm_frame_reaches:
  assumes "vm_frame fu st = Some out"
  shows "\<exists>st'. vm_reaches fu st st' \<and> vm_step fu st' = out \<and> (\<forall>st''. out \<noteq> Running st'')"
proof (rule vm_frame.raw_induct [where P = "\<lambda>fu st out.
    \<exists>st'. vm_reaches fu st st' \<and> vm_step fu st' = out \<and> (\<forall>st''. out \<noteq> Running st'')", OF _ assms])
  fix go fu st out
  assume IH: "\<And>fu st out. go fu st = Some out \<Longrightarrow>
      \<exists>st'. vm_reaches fu st st' \<and> vm_step fu st' = out \<and> (\<forall>st''. out \<noteq> Running st'')"
    and r: "(case vm_step fu st of Running st' \<Rightarrow> go fu st' | out \<Rightarrow> Some out) = Some out"
  show "\<exists>st'. vm_reaches fu st st' \<and> vm_step fu st' = out \<and> (\<forall>st''. out \<noteq> Running st'')"
  proof (cases "vm_step fu st")
    case (Running st1)
    then have "go fu st1 = Some out" using r by simp
    from IH [OF this] obtain st' where "vm_reaches fu st1 st'" "vm_step fu st' = out" "\<forall>st''. out \<noteq> Running st''" by blast
    then show ?thesis using vm_reaches_trans vm_reaches_step [OF vm_reaches_refl Running] by blast
  next
    case (Halted b st1)
    then show ?thesis using r vm_reaches_refl by fastforce
  next
    case Fault
    then show ?thesis using r vm_reaches_refl by fastforce
  qed
qed

lemma vm_frame_iff:
  "vm_frame fu st = Some out \<longleftrightarrow> (\<exists>st'. vm_reaches fu st st' \<and> vm_step fu st' = out \<and> (\<forall>st''. out \<noteq> Running st''))"
proof
  assume "\<exists>st'. vm_reaches fu st st' \<and> vm_step fu st' = out \<and> (\<forall>st''. out \<noteq> Running st'')"
  then obtain st' where "vm_reaches fu st st'" "vm_step fu st' = out" "\<forall>st''. out \<noteq> Running st''" by blast
  then show "vm_frame fu st = Some out"
    using vm_reaches_frame [of fu st st'] by (cases out) (simp_all add: vm_frame.simps [of fu st'])
qed (rule vm_frame_reaches)

text \<open>Instructions that are executed in their order, and those that end the program.\<close>

definition is_jump :: "instruction \<Rightarrow> bool" where
  "is_jump i \<longleftrightarrow> opcode_of (i_opcode i) \<in> {Some OP_JUMP, Some OP_JUMP_IF_NOT}"

definition is_end :: "instruction \<Rightarrow> bool" where
  "is_end i \<longleftrightarrow> opcode_of (i_opcode i) \<in> {None, Some OP_EXIT}"

lemma vm_step_next:
  "vm_step fu st = Running st' \<Longrightarrow> \<not> is_jump (current_instruction st) \<Longrightarrow>
     instruction_pointer st' = instruction_pointer st + 1"
  by (auto simp: vm_step_def Let_def is_jump_def vm_operate_def split: if_splits option.splits opcode.splits)

lemma vm_step_end:
  "is_end (current_instruction st) \<Longrightarrow> vm_step fu st \<noteq> Running st'"
  by (auto simp: vm_step_def Let_def is_end_def vm_operate_def split: if_splits option.splits opcode.splits)

text \<open>The instruction pointer runs through the instructions; behind the largest number it is 0 again.\<close>

lemma vm_frame_halts:
  assumes "vm_wf st" and "\<forall>i \<in> set (instructions st). \<not> is_jump i"
    and "is_end (instructions st ! unat ((instruction_pointer st + word_of_nat d) mod word_of_nat (length (instructions st)) :: vm_word))"
  shows "\<exists>out. vm_frame fu st = Some out"
  using assms
proof (induction d arbitrary: st)
  case 0
  then have "is_end (current_instruction st)" by (simp add: current_instruction_def)
  then show ?case using vm_step_end by (cases "vm_step fu st") (fastforce simp: vm_frame.simps [of fu st])+
next
  case (Suc d)
  show ?case
  proof (cases "vm_step fu st")
    case (Running st')
    have ip: "instruction_pointer st' = instruction_pointer st + 1"
      using vm_step_next [OF Running] current_instruction_in [OF Suc.prems(1)] Suc.prems(2) by blast
    have "\<exists>out. vm_frame fu st' = Some out"
    proof (rule Suc.IH)
      show "vm_wf st'" using vm_step_preserves_wf [OF Suc.prems(1) Running] .
      show "is_end (instructions st' ! unat ((instruction_pointer st' + word_of_nat d) mod word_of_nat (length (instructions st')) :: vm_word))"
        using Suc.prems(3) vm_step_preserves [OF Running] by (simp add: ip add.assoc)
    qed (use Suc.prems(2) vm_step_preserves [OF Running] in simp)
    then show ?thesis using Running by (simp add: vm_frame.simps [of fu st])
  qed (simp_all add: vm_frame.simps [of fu st])
qed

text \<open>Programs in files.\<close>

lemma length_instruction_bytes [simp]: "length (instruction_bytes i) = 8"
  by (simp add: instruction_bytes_def)

lemma length_instructions_bytes [simp]: "length (concat (map instruction_bytes is)) = 8 * length is"
  by (induction "is") simp_all

lemma word_le32 [simp]: "word_of_nat (le32 (le32_bytes (unat w))) = (w :: vm_word)"
  by (simp add: le32_bytes_roundtrip unat_vm_word)

lemma read_instructions_bytes: "read_instructions (length is) (concat (map instruction_bytes is) @ rest) = is"
  by (induction "is") (simp_all add: instruction_bytes_def)

definition code_bytes :: "machine_code \<Rightarrow> bytes" where
  "code_bytes code =
     le32_bytes (length (mc_constants code)) @ le32_bytes (length (mc_instructions code)) @ mc_constants code @
       concat (map instruction_bytes (mc_instructions code))"

lemma write_code_bytes: "write_machine_code (None, out) code = (True, None, out @ code_bytes code)"
  by (simp add: write_machine_code_def fwrite_def Let_def code_bytes_def)

lemma read_code_bytes:
  assumes "length (mc_constants code) < 2 ^ 32" and "length (mc_instructions code) < 2 ^ 32"
  shows "read_machine_code (code_bytes code @ rest) = Some (code, rest)"
  using assms by (simp add: read_machine_code_def code_bytes_def Let_def le32_bytes_roundtrip read_instructions_bytes)

lemma read_code_truncated:
  assumes "length (mc_constants code) < 2 ^ 32" and "length (mc_instructions code) < 2 ^ 32" and "k < length (code_bytes code)"
  shows "read_machine_code (take k (code_bytes code)) = None"
proof (cases "k < 8")
  case False
  let ?c = "mc_constants code" and ?i = "concat (map instruction_bytes (mc_instructions code))"
  have t: "take k (code_bytes code) = le32_bytes (length ?c) @ le32_bytes (length (mc_instructions code)) @ take (k - 8) (?c @ ?i)"
    using False by (simp add: code_bytes_def)
  have "k - 8 < length ?c + 8 * length (mc_instructions code)" using assms(3) False by (simp add: code_bytes_def)
  then show ?thesis
    using assms(1,2) unfolding t by (auto simp: read_machine_code_def Let_def le32_bytes_roundtrip div_less_iff_less_mult)
qed (use assms(3) in \<open>simp add: read_machine_code_def\<close>)

text \<open>Constants.\<close>

lemma mem_compare_iff: "n \<le> length a \<Longrightarrow> n \<le> length b \<Longrightarrow> mem_compare n a b \<longleftrightarrow> take n a = take n b"
proof (induction n arbitrary: a b)
  case (Suc n)
  then show ?case by (cases a; cases b) auto
qed simp

lemma find_constant_from_found:
  "find_constant_from n i constants needle = Some k \<Longrightarrow> i + n + length needle \<le> length constants \<Longrightarrow>
     k + length needle \<le> length constants \<and> take (length needle) (drop k constants) = needle"
proof (induction n arbitrary: i)
  case (Suc n)
  show ?case
  proof (cases "mem_compare (length needle) (drop i constants) needle")
    case True
    then show ?thesis using Suc.prems mem_compare_iff [of "length needle" "drop i constants" needle] by simp
  next
    case False
    then show ?thesis using Suc.prems Suc.IH [of "Suc i"] by simp
  qed
qed simp

section \<open>Properties\<close>

text \<open>C29: The machine is type safe: whatever a program with instructions, loaded into a memory of more
  than four bytes whose size fits the addresses, has done so far, the memory has its size, the
  instructions are unchanged, the operand of the next instruction lies inside the memory, and the
  next step fails only for a result that the C standard leaves undefined or for an operand that is
  not aligned.\<close>

theorem vm_type_safe:
  assumes "vm_init vm_state_zero code size_of_memory = (True, st0)"
    and "mc_instructions code \<noteq> []" and "length (mc_instructions code) < 2 ^ 32"
    and "4 < size_of_memory" and "size_of_memory < 2 ^ 32" and "vm_reaches fu st0 st"
  shows "length (memory st) = size_of_memory \<and> instructions st = mc_instructions code \<and>
    (\<exists>a. arg_address st (i_arg (current_instruction st)) = Some a \<and> a + 4 \<le> size_of_memory) \<and>
    (vm_step fu st = Fault \<longleftrightarrow> undefined_result fu st \<or> misaligned_operand st)"
proof -
  have 0: "vm_wf st0" "length (memory st0) = size_of_memory" "instructions st0 = mc_instructions code"
    using assms(1-5) by (auto simp: vm_init_def vm_wf_def vm_state_zero_def split: if_splits)
  have st: "vm_wf st \<and> length (memory st) = size_of_memory \<and> instructions st = mc_instructions code"
    using assms(6) 0 by (induction rule: vm_reaches.induct) (auto simp: vm_step_preserves dest: vm_step_preserves_wf)
  moreover from st obtain a where "arg_address st (i_arg (current_instruction st)) = Some a" "a + 4 + unat (frame st) < length (memory st)"
    using arg_address_inside by metis
  ultimately show ?thesis using vm_step_fault by auto
qed

text \<open>Floats of which every operation gives zero.\<close>

definition null_floats :: float_unit where
  "null_floats = \<lparr>f_add = \<lambda>a b. 0, f_subtract = \<lambda>a b. 0, f_multiply = \<lambda>a b. 0, f_divide = \<lambda>a b. 0,
    f_of_int = \<lambda>a. 0, f_to_int = \<lambda>a. Some 0\<rparr>"

text \<open>A program that divides zero by zero.\<close>

definition divide_code :: machine_code where
  "divide_code = \<lparr>mc_instructions = [\<lparr>i_opcode = 6, i_arg = 0\<rparr>], mc_constants = [0, 0, 0, 0]\<rparr>"

theorem vm_type_safe_witness:
  "\<exists>st. vm_init vm_state_zero divide_code 8 = (True, st) \<and> length (memory st) = 8 \<and> vm_step null_floats st = Fault"
proof -
  let ?st = "snd (vm_init vm_state_zero divide_code 8)"
  have i: "vm_init vm_state_zero divide_code 8 = (True, ?st)" by (simp add: vm_init_def divide_code_def)
  have st: "memory ?st = replicate 8 0" "current_instruction ?st = \<lparr>i_opcode = 6, i_arg = 0\<rparr>" "result ?st = 0" "frame ?st = 0"
    by (simp_all add: vm_init_def divide_code_def vm_state_zero_def current_instruction_def eval_nat_numeral)
  have "arg_address ?st 0 = Some 0" by (simp add: arg_address_def st Let_def)
  then have "undefined_result null_floats ?st"
    unfolding undefined_result_def st by (intro exI [of _ OP_INT_DIVIDE] exI [of _ 0])
      (simp add: opcode_of_def opcodes_def load32_def le32_def)
  then show ?thesis
    using vm_type_safe [OF i _ _ _ _ vm_reaches_refl, of null_floats] i by (auto simp: divide_code_def)
qed

text \<open>A memory of less than four bytes is accepted by \<open>vm_init\<close>, but its size minus four wraps, and
  operands lie outside.\<close>

theorem vm_small_memory_faults:
  "\<exists>st. vm_init vm_state_zero \<lparr>mc_instructions = [\<lparr>i_opcode = 1, i_arg = 0\<rparr>], mc_constants = []\<rparr> 2 = (True, st) \<and>
    vm_step fu st = Fault"
  by (simp add: vm_init_def vm_state_zero_def vm_step_def current_instruction_def arg_address_def opcode_of_def opcodes_def
      vm_operate_def load32_def Let_def)

text \<open>C30: A program without jumps that has an instruction which ends it comes to an end in a machine
  whose operands lie in its memory, from every value of the instruction pointer, also from those
  that run over the largest number: it stops at an ending instruction, or before it at an instruction
  whose result is undefined or whose operand is not aligned.\<close>

theorem vm_halts:
  assumes "vm_wf st" and "\<forall>i \<in> set (instructions st). \<not> is_jump i" and "\<exists>i \<in> set (instructions st). is_end i"
  shows "\<exists>out st'. vm_frame fu st = Some out \<and> vm_reaches fu st st' \<and>
    (if is_end (current_instruction st') then \<exists>st''. out = Halted (i_opcode (current_instruction st') = opcode_number OP_EXIT) st''
     else out = Fault \<and> (undefined_result fu st' \<or> misaligned_operand st'))"
proof -
  let ?n = "length (instructions st)" and ?p = "instruction_pointer st"
  obtain k where k: "k < ?n" "is_end (instructions st ! k)" using assms(3) by (auto simp: in_set_conv_nth)
  have n: "?n < 4294967296" using assms(1) by (simp add: vm_wf_def)
  define d where "d = unat (word_of_nat k - ?p)"
  have "?p + word_of_nat d = (word_of_nat k :: vm_word)" by (simp add: d_def)
  moreover have "unat (word_of_nat k mod word_of_nat ?n :: vm_word) = k" using k(1) n by (simp add: unat_mod unat_of_nat32)
  ultimately obtain out where out: "vm_frame fu st = Some out" using vm_frame_halts [OF assms(1,2), of d fu] k(2) by auto
  then obtain st' where st': "vm_reaches fu st st'" "vm_step fu st' = out" "\<forall>st''. out \<noteq> Running st''"
    using vm_frame_reaches [OF out] by blast
  have wf: "vm_wf st'" and same: "instructions st' = instructions st"
    using st'(1) assms(1) by (induction rule: vm_reaches.induct) (auto simp: vm_step_preserves dest: vm_step_preserves_wf)
  have nj: "\<not> is_jump (current_instruction st')"
    using current_instruction_in(1) [OF wf] assms(2) unfolding same by blast
  from vm_step_wf [OF wf, of fu] obtain a where a: "arg_address st' (i_arg (current_instruction st')) = Some a"
      "a + 4 + unat (frame st') < length (memory st')"
      "vm_step fu st' = (case opcode_of (i_opcode (current_instruction st')) of
         None \<Rightarrow> Halted False (st'\<lparr>instruction_pointer := instruction_pointer st' + 1\<rparr>)
       | Some op \<Rightarrow> vm_operate fu op (i_arg (current_instruction st')) a (st'\<lparr>instruction_pointer := instruction_pointer st' + 1\<rparr>))"
    by metis
  let ?st = "st'\<lparr>instruction_pointer := instruction_pointer st' + 1\<rparr>" and ?i = "current_instruction st'"
  have "if is_end ?i then \<exists>st''. out = Halted (i_opcode ?i = opcode_number OP_EXIT) st'' else out = Fault"
  proof (cases "opcode_of (i_opcode ?i)")
    case None
    moreover from None have "i_opcode ?i \<noteq> opcode_number OP_EXIT" using opcode_of_exit [of "i_opcode ?i"] by simp
    ultimately show ?thesis using a(3) st'(2) by (simp add: is_end_def)
  next
    case (Some op)
    show ?thesis
    proof (cases "op = OP_EXIT")
      case True
      then have "i_opcode ?i = opcode_number OP_EXIT" using Some opcode_of_exit by blast
      then show ?thesis using Some True a(3) st'(2) vm_operate_exit [of fu "i_arg ?i" a ?st] by (simp add: is_end_def)
    next
      case False
      then show ?thesis
        using Some a(3) st'(2,3) vm_operate_goes_on [OF False, of fu "i_arg ?i" a ?st] by (auto simp: is_end_def)
    qed
  qed
  moreover have "vm_step fu st' = Fault \<longleftrightarrow> undefined_result fu st' \<or> misaligned_operand st'"
    by (rule vm_step_fault [OF wf])
  ultimately show ?thesis using out st'(1,2) by auto
qed

theorem vm_halts_witness:
  "\<exists>out st'. vm_frame null_floats (snd (vm_init vm_state_zero
     \<lparr>mc_instructions = [\<lparr>i_opcode = 13, i_arg = 0\<rparr>, \<lparr>i_opcode = 0, i_arg = 0\<rparr>], mc_constants = []\<rparr> 8)) = Some out \<and>
    (if is_end (current_instruction st') then \<exists>st''. out = Halted (i_opcode (current_instruction st') = opcode_number OP_EXIT) st''
     else out = Fault)"
proof -
  let ?st = "snd (vm_init vm_state_zero
     \<lparr>mc_instructions = [\<lparr>i_opcode = 13, i_arg = 0\<rparr>, \<lparr>i_opcode = 0, i_arg = 0\<rparr>], mc_constants = []\<rparr> 8)"
  have "vm_wf ?st" "\<forall>i \<in> set (instructions ?st). \<not> is_jump i" "\<exists>i \<in> set (instructions ?st). is_end i"
    by (simp_all add: vm_init_def vm_state_zero_def vm_wf_def is_jump_def is_end_def opcode_of_def opcodes_def)
  from vm_halts [OF this, of null_floats] show ?thesis by (auto split: if_splits)
qed

text \<open>A program that is written to a file reads back from it, whatever follows, and from no
  part of the file that is shorter.\<close>

theorem machine_code_roundtrip:
  assumes "length (mc_constants code) < 2 ^ 32" and "length (mc_instructions code) < 2 ^ 32"
  shows "\<exists>bs. write_machine_code (None, out) code = (True, None, out @ bs) \<and>
    read_machine_code (bs @ rest) = Some (code, rest) \<and> (\<forall>k < length bs. read_machine_code (take k bs) = None)"
  using write_code_bytes read_code_bytes [OF assms] read_code_truncated [OF assms] by blast

theorem machine_code_roundtrip_witness:
  "\<exists>bs. write_machine_code (None, []) divide_code = (True, None, [] @ bs) \<and>
    read_machine_code (bs @ [1]) = Some (divide_code, [1]) \<and> (\<forall>k < length bs. read_machine_code (take k bs) = None)"
  by (rule machine_code_roundtrip) (simp_all add: divide_code_def)

text \<open>A constant that was recorded is at its address, and the constants before it stay.\<close>

theorem record_constant_stores:
  assumes "constants = [] \<or> length value \<le> length constants" and "length constants < 2 ^ 32"
  shows "\<exists>a constants'. record_constant constants value = Some (a, constants') \<and>
    take (length value) (drop (unat a) constants') = value \<and> take (length constants) constants' = constants"
proof (cases "find_constant constants value")
  case None
  then show ?thesis using assms(1) by (auto simp: find_constant_def split: if_splits)
next
  case (Some r)
  show ?thesis
  proof (cases r)
    case None
    then show ?thesis using Some assms(2) by (simp add: record_constant_def unat_of_nat32)
  next
    case (Some i)
    then have f: "find_constant_from (length constants - length value) 0 constants value = Some i" "length value \<le> length constants"
      using \<open>find_constant constants value = Some r\<close> by (auto simp: find_constant_def split: if_splits)
    then have i: "i + length value \<le> length constants" "take (length value) (drop i constants) = value"
      using find_constant_from_found [OF f(1)] by simp_all
    then have "unat (word_of_nat i :: vm_word) = i" using assms(2) by (simp add: unat_of_nat32)
    then show ?thesis using i Some \<open>find_constant constants value = Some r\<close> by (simp add: record_constant_def)
  qed
qed

theorem record_constant_stores_witness:
  "\<exists>a constants'. record_constant [1, 2, 3, 4] [5, 6, 7, 8] = Some (a, constants') \<and>
    take (length [5, 6, 7, 8 :: byte]) (drop (unat a) constants') = [5, 6, 7, 8] \<and>
    take (length [1, 2, 3, 4 :: byte]) constants' = [1, 2, 3, 4]"
  by (rule record_constant_stores) simp_all

text \<open>A constant at the end of the table is not found again.\<close>

lemma last_constant_repeated: "record_constant [1, 2, 3, 4] [1, 2, 3, 4] = Some (4, [1, 2, 3, 4, 1, 2, 3, 4])"
  by (simp add: record_constant_def find_constant_def)

end
