(* ===== verification/VmText.thy ===== *)
theory VmText
  imports Vm HttpResponse Table
begin

text \<open>
  The words of an assembler program (\<open>src/backburner/vm/text.c\<close>): constants as they are written,
  and the names of the instructions, which are compared as pointers to interned strings. A C
  string is the list of its bytes without the final null byte.
\<close>

section \<open>Constants\<close>

definition is_vm_address :: "bytes \<Rightarrow> bool" where
  "is_vm_address text = (case text of [] \<Rightarrow> False | c # cs \<Rightarrow> c = byte_of (CHR ''@'') \<and> list_all isdigit cs)"

text \<open>
  The loops of the next two start behind the first character, which can be anything; of an empty
  string they read beyond its end, which is \<open>None\<close>.
\<close>

definition is_vm_float :: "bytes \<Rightarrow> bool option" where
  "is_vm_float text =
     (case text of
        [] \<Rightarrow> None
      | _ # cs \<Rightarrow> Some (list_all (\<lambda>c. isdigit c \<or> c = byte_of (CHR ''-'') \<or> c = byte_of (CHR ''.'')) cs))"

definition is_vm_int :: "bytes \<Rightarrow> bool option" where
  "is_vm_int text =
     (case text of
        [] \<Rightarrow> None
      | _ # cs \<Rightarrow> Some (list_all (\<lambda>c. isdigit c \<or> c = byte_of (CHR ''-'')) cs))"

text \<open>\<open>atoi\<close>: undefined (\<open>None\<close>) when the number is not an \<open>int\<close>.\<close>

definition atoi :: "bytes \<Rightarrow> vm_word option" where
  "atoi text =
     (let s = dropWhile isspace text;
          digits = (\<lambda>cs. int (decimal (takeWhile isdigit cs)))
      in case s of
           [] \<Rightarrow> Some 0
         | c # cs \<Rightarrow>
             signed32 (if c = byte_of (CHR ''-'') then - digits cs
                       else if c = byte_of (CHR ''+'') then digits cs
                       else digits (c # cs)))"

definition read_vm_address :: "bytes \<Rightarrow> vm_word option option" where
  "read_vm_address text = (if is_vm_address text then map_option Some (atoi (tl text)) else Some None)"

definition read_vm_int :: "bytes \<Rightarrow> vm_word option option" where
  "read_vm_int text =
     (case is_vm_int text of
        None \<Rightarrow> None
      | Some ok \<Rightarrow> if ok then map_option Some (atoi text) else Some None)"

definition read_vm_float :: "(bytes \<Rightarrow> vm_word) \<Rightarrow> bytes \<Rightarrow> vm_word option option" where
  "read_vm_float atof text =
     (case is_vm_float text of
        None \<Rightarrow> None
      | Some ok \<Rightarrow> if ok then Some (Some (atof text)) else Some None)"

section \<open>Keywords\<close>

record vm_keywords =
  kw_address :: nat
  kw_ifelse :: nat
  kw_float :: nat
  kw_int :: nat
  kw_name :: nat
  kw_exit :: nat
  kw_load_int :: nat
  kw_store_int :: nat
  kw_load_float :: nat
  kw_store_float :: nat
  kw_load_char :: nat
  kw_store_char :: nat
  kw_add_int :: nat
  kw_add_float :: nat
  kw_subtract_int :: nat
  kw_subtract_float :: nat
  kw_multiply_int :: nat
  kw_multiply_float :: nat
  kw_divide_int :: nat
  kw_divide_float :: nat
  kw_sum :: nat

definition keyword_names :: "bytes list" where
  "keyword_names = map str
     [''address'', ''ifelse'', ''float'', ''int'', ''name'', ''exit'', ''load-int'', ''store-int'',
      ''load-float'', ''store-float'', ''load-char'', ''store-char'', ''+int'', ''+float'', ''-int'',
      ''-float'', ''*int'', ''*float'', ''/int'', ''/float'', ''+'']"

definition init_keywords :: "immutable_namespace \<Rightarrow> immutable_namespace \<times> vm_keywords" where
  "init_keywords ns =
     (case immutable_strings ns keyword_names of
        (ns', p) \<Rightarrow>
          (ns', \<lparr>kw_address = p ! 0, kw_ifelse = p ! 1, kw_float = p ! 2, kw_int = p ! 3, kw_name = p ! 4,
                 kw_exit = p ! 5, kw_load_int = p ! 6, kw_store_int = p ! 7, kw_load_float = p ! 8,
                 kw_store_float = p ! 9, kw_load_char = p ! 10, kw_store_char = p ! 11, kw_add_int = p ! 12,
                 kw_add_float = p ! 13, kw_subtract_int = p ! 14, kw_subtract_float = p ! 15,
                 kw_multiply_int = p ! 16, kw_multiply_float = p ! 17, kw_divide_int = p ! 18,
                 kw_divide_float = p ! 19, kw_sum = p ! 20\<rparr>))"

text \<open>The first match in the list of names.\<close>

definition identify_string_opcode :: "vm_keywords \<Rightarrow> nat \<Rightarrow> opcode option" where
  "identify_string_opcode kw =
     map_of [(kw_exit kw, OP_EXIT), (kw_load_int kw, OP_INT_LOAD), (kw_store_int kw, OP_INT_STORE),
       (kw_load_float kw, OP_FLOAT_LOAD), (kw_store_float kw, OP_FLOAT_STORE), (kw_add_int kw, OP_INT_ADD),
       (kw_add_float kw, OP_FLOAT_ADD), (kw_subtract_int kw, OP_INT_SUBTRACT),
       (kw_subtract_float kw, OP_FLOAT_SUBTRACT), (kw_multiply_int kw, OP_INT_MULTIPLY),
       (kw_multiply_float kw, OP_FLOAT_MULTIPLY), (kw_divide_int kw, OP_INT_DIVIDE),
       (kw_divide_float kw, OP_FLOAT_DIVIDE)]"

text \<open>The four bytes of the constant and the pointer to the name of its type.\<close>

definition parse_written_constant ::
    "(bytes \<Rightarrow> vm_word) \<Rightarrow> vm_keywords \<Rightarrow> bytes \<Rightarrow> (bytes \<times> nat) option option" where
  "parse_written_constant atof kw text =
     (case read_vm_address text of
        None \<Rightarrow> None
      | Some (Some a) \<Rightarrow> Some (Some (le32_bytes (unat a), kw_address kw))
      | Some None \<Rightarrow>
          (case read_vm_int text of
             None \<Rightarrow> None
           | Some (Some i) \<Rightarrow> Some (Some (le32_bytes (unat i), kw_int kw))
           | Some None \<Rightarrow>
               (case read_vm_float atof text of
                  None \<Rightarrow> None
                | Some (Some f) \<Rightarrow> Some (Some (le32_bytes (unat f), kw_float kw))
                | Some None \<Rightarrow> Some None)))"

section \<open>What they do\<close>

lemma isdigit_not_sign: "isdigit c \<Longrightarrow> c \<noteq> byte_of (CHR ''-'') \<and> c \<noteq> byte_of (CHR ''+'') \<and> c \<noteq> byte_of (CHR ''@'')"
  by (auto simp: isdigit_def byte_of_def)

lemma takeWhile_digits: "list_all isdigit ds \<Longrightarrow> takeWhile isdigit ds = ds"
  by (simp add: list_all_iff takeWhile_eq_all_conv)

lemma atoi_digits:
  assumes "list_all isdigit ds" and "decimal ds < 2 ^ 31"
  shows "atoi ds = Some (word_of_nat (decimal ds))"
proof (cases ds)
  case Nil
  then show ?thesis by (simp add: atoi_def decimal_def)
next
  case (Cons c cs)
  then have "dropWhile isspace ds = ds" using assms(1) isdigit_not_space by simp
  then show ?thesis
    using assms isdigit_not_sign [of c] by (simp add: atoi_def Cons signed32_def takeWhile_digits)
qed

lemma atoi_minus:
  assumes "list_all isdigit ds" and "decimal ds \<le> 2 ^ 31"
  shows "atoi (byte_of (CHR ''-'') # ds) = Some (- word_of_nat (decimal ds))"
proof -
  have "\<not> isspace (byte_of (CHR ''-''))" by (simp add: isspace_def byte_of_def)
  then show ?thesis using assms by (simp add: atoi_def signed32_def takeWhile_digits)
qed

text \<open>Interned names: the function from strings to pointers of a namespace.\<close>

lemma init_keywords_names:
  assumes "ns_ok ns" and "unat (item_count (ns_table ns)) + 21 \<le> 2 ^ 50" and "init_keywords ns = (ns', kw)"
  shows "ns_ok ns'" and "table_map (ns_table ns) \<subseteq>\<^sub>m table_map (ns_table ns')"
    and "map Some [kw_address kw, kw_ifelse kw, kw_float kw, kw_int kw, kw_name kw, kw_exit kw, kw_load_int kw,
      kw_store_int kw, kw_load_float kw, kw_store_float kw, kw_load_char kw, kw_store_char kw, kw_add_int kw,
      kw_add_float kw, kw_subtract_int kw, kw_subtract_float kw, kw_multiply_int kw, kw_multiply_float kw,
      kw_divide_int kw, kw_divide_float kw, kw_sum kw] = map (table_map (ns_table ns')) keyword_names"
proof -
  obtain p where p: "immutable_strings ns keyword_names = (ns', p)"
    using assms(3) by (auto simp: init_keywords_def split: prod.splits)
  have l: "length keyword_names = 21" by (simp add: keyword_names_def)
  then have "unat (item_count (ns_table ns)) + length keyword_names \<le> 2 ^ 50" using assms(2) by simp
  from immutable_strings_spec [OF assms(1) this] have s: "ns_ok ns'"
      "table_map (ns_table ns) \<subseteq>\<^sub>m table_map (ns_table ns')" "map Some p = map (table_map (ns_table ns')) keyword_names"
    unfolding p by simp_all
  then show "ns_ok ns'" "table_map (ns_table ns) \<subseteq>\<^sub>m table_map (ns_table ns')" by simp_all
  have "length p = 21" using arg_cong [OF s(3), of length] l by simp
  then have e: "p = map (\<lambda>i. p ! i) [0..<21]" using map_nth [of p] by simp
  have up: "[0..<21] = [0, 1, 2, 3, 4, 5, 6, 7, 8, 9, 10, 11, 12, 13, 14, 15, 16, 17, 18, 19, 20]"
    by (simp add: upt_rec)
  have "kw = snd (init_keywords ns)" using assms(3) by simp
  then show "map Some [kw_address kw, kw_ifelse kw, kw_float kw, kw_int kw, kw_name kw, kw_exit kw, kw_load_int kw,
      kw_store_int kw, kw_load_float kw, kw_store_float kw, kw_load_char kw, kw_store_char kw, kw_add_int kw,
      kw_add_float kw, kw_subtract_int kw, kw_subtract_float kw, kw_multiply_int kw, kw_multiply_float kw,
      kw_divide_int kw, kw_divide_float kw, kw_sum kw] = map (table_map (ns_table ns')) keyword_names"
    unfolding s(3) [symmetric] by (subst e) (simp add: init_keywords_def p up)
qed

section \<open>Properties\<close>

text \<open>Numbers and addresses that are written as the assembler expects them are read as what
  they say, with their type: digits, digits behind a minus sign, and digits behind \<open>@\<close>.\<close>

theorem written_constant_read:
  assumes "n < 2 ^ 31"
  shows "parse_written_constant atof kw (decimal_text n) = Some (Some (le32_bytes n, kw_int kw)) \<and>
    parse_written_constant atof kw (byte_of (CHR ''-'') # decimal_text n) =
      Some (Some (le32_bytes (unat (- word_of_nat n :: vm_word)), kw_int kw)) \<and>
    parse_written_constant atof kw (byte_of (CHR ''@'') # decimal_text n) = Some (Some (le32_bytes n, kw_address kw))"
proof -
  have d: "decimal (decimal_text n) = n" "list_all isdigit (decimal_text n)" using decimal_text_spec [of n] by simp_all
  then have a: "atoi (decimal_text n) = Some (word_of_nat n)" "atoi (byte_of (CHR ''-'') # decimal_text n) = Some (- word_of_nat n)"
    using atoi_digits [OF d(2)] atoi_minus [OF d(2)] assms by simp_all
  have u: "unat (word_of_nat n :: vm_word) = n" using assms by (simp add: unat_of_nat32)
  obtain c cs where c: "decimal_text n = c # cs" "isdigit c" "list_all isdigit cs" using d(2) by (cases "decimal_text n") auto
  have w: "list_all (\<lambda>c. isdigit c \<or> c = byte_of (CHR ''-'')) ds" if "list_all isdigit ds" for ds
    using that by (auto simp: list_all_iff)
  have m: "byte_of (CHR ''-'') \<noteq> byte_of (CHR ''@'')" by (simp add: byte_of_def)
  have "parse_written_constant atof kw (decimal_text n) = Some (Some (le32_bytes n, kw_int kw))"
    using a(1) u isdigit_not_sign [OF c(2)] w [OF c(3)]
    by (simp add: parse_written_constant_def read_vm_address_def is_vm_address_def read_vm_int_def is_vm_int_def c(1))
  moreover have "parse_written_constant atof kw (byte_of (CHR ''-'') # decimal_text n) =
      Some (Some (le32_bytes (unat (- word_of_nat n :: vm_word)), kw_int kw))"
    using a(2) m w [OF d(2)]
    by (simp add: parse_written_constant_def read_vm_address_def is_vm_address_def read_vm_int_def is_vm_int_def)
  moreover have "parse_written_constant atof kw (byte_of (CHR ''@'') # decimal_text n) = Some (Some (le32_bytes n, kw_address kw))"
    using a(1) u d(2)
    by (simp add: parse_written_constant_def read_vm_address_def is_vm_address_def)
  ultimately show ?thesis by blast
qed

theorem written_constant_read_witness:
  "parse_written_constant (\<lambda>_. 0) (snd (init_keywords immutable_namespace_zero)) (byte_of (CHR ''@'') # decimal_text 300) =
     Some (Some ([44, 1, 0, 0], kw_address (snd (init_keywords immutable_namespace_zero))))"
  using written_constant_read [of 300 "\<lambda>_. 0" "snd (init_keywords immutable_namespace_zero)"] by (simp add: le32_bytes_def)

text \<open>The first character of a number is not looked at.\<close>

lemma written_word_is_zero: "parse_written_constant atof kw (str ''x'') = Some (Some ([0, 0, 0, 0], kw_int kw))"
  by (simp add: parse_written_constant_def read_vm_address_def is_vm_address_def read_vm_int_def is_vm_int_def
      str_def byte_of_def atoi_def isspace_def isdigit_def signed32_def decimal_def le32_bytes_def word_le_nat_alt)

text \<open>The names of the instructions.\<close>

definition opcode_names :: "(bytes \<times> opcode) list" where
  "opcode_names = map (\<lambda>(n, op). (str n, op))
     [(''exit'', OP_EXIT), (''load-int'', OP_INT_LOAD), (''store-int'', OP_INT_STORE),
      (''load-float'', OP_FLOAT_LOAD), (''store-float'', OP_FLOAT_STORE), (''+int'', OP_INT_ADD),
      (''+float'', OP_FLOAT_ADD), (''-int'', OP_INT_SUBTRACT), (''-float'', OP_FLOAT_SUBTRACT),
      (''*int'', OP_INT_MULTIPLY), (''*float'', OP_FLOAT_MULTIPLY), (''/int'', OP_INT_DIVIDE),
      (''/float'', OP_FLOAT_DIVIDE)]"

lemma map_of_pointers:
  assumes "inj_on M (dom M)" and "list_all2 (\<lambda>(p, x) (s, y). M s = Some p \<and> x = y) ps ss" and "M s = Some q"
  shows "map_of ps q = map_of ss s"
  using assms(2)
proof (induction rule: list_all2_induct)
  case (Cons p ps e ss)
  obtain p0 x s0 y where e: "p = (p0, x)" "e = (s0, y)" by (cases p; cases e)
  then have "M s0 = Some p0" "x = y" using Cons.hyps(1) by simp_all
  moreover have "q = p0 \<longleftrightarrow> s = s0" using assms(1,3) \<open>M s0 = Some p0\<close>
    by (metis domI inj_onD option.inject)
  ultimately show ?case using Cons.IH e by auto
qed simp

text \<open>The assembler recognises an instruction by the pointer of its interned name: after the
  keywords were interned in a namespace, a string of that namespace is an opcode exactly if it is
  the name of one, and then it is that one.\<close>

theorem identify_string_opcode_name:
  assumes "ns_ok ns" and "unat (item_count (ns_table ns)) + 21 \<le> 2 ^ 50" and "init_keywords ns = (ns', kw)"
    and "table_map (ns_table ns') s = Some p"
  shows "identify_string_opcode kw p = map_of opcode_names s"
proof -
  note k = init_keywords_names [OF assms(1-3)]
  have "inj_on (table_map (ns_table ns')) (dom (table_map (ns_table ns')))" using k(1) by (simp add: ns_ok_def)
  moreover have "list_all2 (\<lambda>(p, x) (s, y). table_map (ns_table ns') s = Some p \<and> x = y)
      [(kw_exit kw, OP_EXIT), (kw_load_int kw, OP_INT_LOAD), (kw_store_int kw, OP_INT_STORE),
       (kw_load_float kw, OP_FLOAT_LOAD), (kw_store_float kw, OP_FLOAT_STORE), (kw_add_int kw, OP_INT_ADD),
       (kw_add_float kw, OP_FLOAT_ADD), (kw_subtract_int kw, OP_INT_SUBTRACT),
       (kw_subtract_float kw, OP_FLOAT_SUBTRACT), (kw_multiply_int kw, OP_INT_MULTIPLY),
       (kw_multiply_float kw, OP_FLOAT_MULTIPLY), (kw_divide_int kw, OP_INT_DIVIDE),
       (kw_divide_float kw, OP_FLOAT_DIVIDE)] opcode_names"
    using k(3) by (simp add: keyword_names_def opcode_names_def)
  ultimately show ?thesis unfolding identify_string_opcode_def using assms(4) by (rule map_of_pointers)
qed

theorem identify_string_opcode_name_witness:
  "\<exists>ns kw p. init_keywords immutable_namespace_zero = (ns, kw) \<and> table_map (ns_table ns) (str ''/int'') = Some p \<and>
     identify_string_opcode kw p = Some OP_INT_DIVIDE"
proof -
  obtain ns kw where i: "init_keywords immutable_namespace_zero = (ns, kw)" by fastforce
  have z: "unat (item_count (ns_table immutable_namespace_zero)) + 21 \<le> 2 ^ 50"
    by (simp add: immutable_namespace_zero_def table_zero_def)
  have p: "table_map (ns_table ns) (str ''/int'') = Some (kw_divide_int kw)"
    using init_keywords_names(3) [OF ns_ok_zero z i] by (simp add: keyword_names_def)
  have "identify_string_opcode kw (kw_divide_int kw) = map_of opcode_names (str ''/int'')"
    by (rule identify_string_opcode_name [OF ns_ok_zero z i p])
  also have "\<dots> = Some OP_INT_DIVIDE" by (simp add: opcode_names_def str_def byte_of_def)
  finally show ?thesis using i p by blast
qed

end
