(* ===== verification/VmAssembler.thy ===== *)
theory VmAssembler
  imports VmText ParenTree
begin

text \<open>
  The assembler (\<open>src/backburner/vm/assembler.c\<close>) on the trees of the parser, with the function
  \<open>P\<close> from strings to their interned pointers. The function \<open>resolve_constant\<close>, which has no body
  yet, is a parameter: from the constants, the scopes and the node it gives an address and the
  constants. \<open>None\<close> is the use of a null pointer, or of a text as a list.
\<close>

section \<open>Names\<close>

record vm_name =
  nm_key :: nat
  nm_value :: vm_word
  nm_is_constant :: bool
  nm_type :: "nat option"

type_synonym vm_scope = "vm_name list"

definition resolve_name_local :: "vm_scope \<Rightarrow> nat \<Rightarrow> vm_name option" where
  "resolve_name_local ns key = find (\<lambda>n. nm_key n = key) ns"

fun resolve_name :: "vm_scope list \<Rightarrow> nat \<Rightarrow> vm_name option" where
  "resolve_name [] key = None"
| "resolve_name (ns # scs) key =
     (case resolve_name_local ns key of Some n \<Rightarrow> Some n | None \<Rightarrow> resolve_name scs key)"

definition add_name :: "vm_scope \<Rightarrow> vm_name \<Rightarrow> vm_scope option" where
  "add_name ns n = (if resolve_name_local ns (nm_key n) \<noteq> None then None else Some (ns @ [n]))"

section \<open>Parsing\<close>

record asm_state =
  asm_instructions :: "instruction list"
  asm_constants :: bytes
  asm_scopes :: "vm_scope list"

definition asm_zero :: asm_state where
  "asm_zero = \<lparr>asm_instructions = [], asm_constants = [], asm_scopes = [[]]\<rparr>"

type_synonym resolver = "bytes \<Rightarrow> vm_scope list \<Rightarrow> paren_tree option \<Rightarrow> (vm_word \<times> bytes) option"

text \<open>\<open>add_constant\<close> and \<open>parse_instruction\<close> get the nodes behind the first word of the list.\<close>

definition add_constant :: "(bytes \<Rightarrow> nat) \<Rightarrow> resolver \<Rightarrow> paren_tree list \<Rightarrow> asm_state \<Rightarrow> bool \<times> asm_state" where
  "add_constant P resolve args st =
     (case args of
        Leaf _ w # rest \<Rightarrow>
          (case resolve (asm_constants st) (asm_scopes st) (case rest of [] \<Rightarrow> None | v # _ \<Rightarrow> Some v) of
             None \<Rightarrow> (False, st)
           | Some (a, cs) \<Rightarrow>
               (case add_name (hd (asm_scopes st)) \<lparr>nm_key = P w, nm_value = a, nm_is_constant = False, nm_type = None\<rparr> of
                  None \<Rightarrow> (False, st\<lparr>asm_constants := cs\<rparr>)
                | Some sc \<Rightarrow> (True, st\<lparr>asm_constants := cs, asm_scopes := sc # tl (asm_scopes st)\<rparr>)))
      | _ \<Rightarrow> (False, st))"

definition parse_instruction ::
    "(bytes \<Rightarrow> nat) \<Rightarrow> vm_keywords \<Rightarrow> resolver \<Rightarrow> bytes \<Rightarrow> paren_tree list \<Rightarrow> asm_state \<Rightarrow> bool \<times> asm_state" where
  "parse_instruction P kw resolve w args st =
     (let push = (\<lambda>op a. asm_instructions st @ [\<lparr>i_opcode = opcode_number op, i_arg = a\<rparr>])
      in case identify_string_opcode kw (P w) of
           None \<Rightarrow> (False, st)
         | Some op \<Rightarrow>
             if op = OP_EXIT
             then (if args \<noteq> [] then (False, st) else (True, st\<lparr>asm_instructions := push op 0\<rparr>))
             else (case args of
                     [] \<Rightarrow> (False, st)
                   | arg # _ \<Rightarrow>
                       (case resolve (asm_constants st) (asm_scopes st) (Some arg) of
                          None \<Rightarrow> (False, st)
                        | Some (a, cs) \<Rightarrow> (True, st\<lparr>asm_instructions := push op a, asm_constants := cs\<rparr>))))"

definition jump_to :: "opcode \<Rightarrow> nat \<Rightarrow> instruction" where
  "jump_to op n = \<lparr>i_opcode = opcode_number op, i_arg = word_of_nat n\<rparr>"

text \<open>An instruction that is set later; until then it is indeterminate.\<close>

definition push_later :: "asm_state \<Rightarrow> asm_state" where
  "push_later st = st\<lparr>asm_instructions := asm_instructions st @ [\<lparr>i_opcode = 0, i_arg = 0\<rparr>]\<rparr>"

definition set_later :: "nat \<Rightarrow> instruction \<Rightarrow> asm_state \<Rightarrow> asm_state" where
  "set_later n i st = st\<lparr>asm_instructions := (asm_instructions st)[n := i]\<rparr>"

text \<open>
  \<open>parse_recurse\<close> with its loop over the nodes, of which every one has to be a list that is not
  empty; the scope of a list of lists is dropped behind it.
\<close>

function (sequential) parse_recurse ::
      "(bytes \<Rightarrow> nat) \<Rightarrow> vm_keywords \<Rightarrow> resolver \<Rightarrow> paren_tree list \<Rightarrow> asm_state \<Rightarrow> (bool \<times> asm_state) option"
  and parse_loop ::
      "(bytes \<Rightarrow> nat) \<Rightarrow> vm_keywords \<Rightarrow> resolver \<Rightarrow> paren_tree list \<Rightarrow> asm_state \<Rightarrow> (bool \<times> asm_state) option"
  and parse_ifelse ::
      "(bytes \<Rightarrow> nat) \<Rightarrow> vm_keywords \<Rightarrow> resolver \<Rightarrow> paren_tree list \<Rightarrow> asm_state \<Rightarrow> (bool \<times> asm_state) option"
  where
  "parse_recurse P kw resolve roots st = (if roots = [] then None else parse_loop P kw resolve roots st)"
| "parse_loop P kw resolve [] st = Some (True, st)"
| "parse_loop P kw resolve (Node _ (Node l us # cs) # rest) st =
     (case parse_recurse P kw resolve (Node l us # cs) (st\<lparr>asm_scopes := [] # asm_scopes st\<rparr>) of
        None \<Rightarrow> None
      | Some (ok, st1) \<Rightarrow>
          (let st2 = st1\<lparr>asm_scopes := tl (asm_scopes st1)\<rparr>
           in if ok then parse_loop P kw resolve rest st2 else Some (False, st2)))"
| "parse_loop P kw resolve (Node _ (Leaf _ w # args) # rest) st =
     (case (if P w = kw_ifelse kw then parse_ifelse P kw resolve args st
            else if P w = kw_name kw then Some (add_constant P resolve args st)
            else Some (parse_instruction P kw resolve w args st)) of
        None \<Rightarrow> None
      | Some (ok, st1) \<Rightarrow> if ok then parse_loop P kw resolve rest st1 else Some (False, st1))"
| "parse_loop P kw resolve _ st = None"
| "parse_ifelse P kw resolve (Node _ us # args) st =
     (let ifjump_location = length (asm_instructions st)
      in case parse_recurse P kw resolve us (push_later st) of
           None \<Rightarrow> None
         | Some (False, st1) \<Rightarrow> Some (False, st1)
         | Some (True, st1) \<Rightarrow>
             (case args of
                [] \<Rightarrow> Some (True, set_later ifjump_location (jump_to OP_JUMP_IF_NOT (length (asm_instructions st1))) st1)
              | Leaf _ _ # _ \<Rightarrow> Some (False, st1)
              | Node _ es # _ \<Rightarrow>
                  (let elsejump_location = length (asm_instructions st1)
                   in case parse_recurse P kw resolve es (push_later st1) of
                        None \<Rightarrow> None
                      | Some (False, st2) \<Rightarrow> Some (False, st2)
                      | Some (True, st2) \<Rightarrow>
                          Some (True, set_later ifjump_location (jump_to OP_JUMP_IF_NOT (elsejump_location + 1))
                            (set_later elsejump_location (jump_to OP_JUMP (length (asm_instructions st2))) st2)))))"
| "parse_ifelse P kw resolve _ st = Some (False, st)"
  by pat_completeness auto
termination
  by (relation "measure (\<lambda>x. case x of
      Inl (P, kw, resolve, roots, st) \<Rightarrow> 2 * fsize roots + 1
    | Inr (Inl (P, kw, resolve, roots, st)) \<Rightarrow> 2 * fsize roots
    | Inr (Inr (P, kw, resolve, args, st)) \<Rightarrow> 2 * fsize args)") auto

definition assembler ::
    "(bytes \<Rightarrow> nat) \<Rightarrow> (vm_keywords \<Rightarrow> resolver) \<Rightarrow> immutable_namespace \<Rightarrow> paren_tree list \<Rightarrow> (bool \<times> machine_code) option" where
  "assembler P resolve ns roots =
     (case init_keywords ns of
        (ns', kw) \<Rightarrow>
          map_option (\<lambda>(ok, st). (ok, \<lparr>mc_instructions = asm_instructions st, mc_constants = asm_constants st\<rparr>))
            (parse_recurse P kw (resolve kw) roots asm_zero))"

section \<open>Structured programs\<close>

text \<open>
  What a program means without jumps: instructions and alternatives, by the register. Running
  to the end is \<open>Running\<close>.
\<close>

datatype cmd = Do instruction | If1 "cmd list" | If2 "cmd list" "cmd list"

definition do_instruction :: "float_unit \<Rightarrow> instruction \<Rightarrow> vm_state \<Rightarrow> vm_outcome" where
  "do_instruction fu i st =
     (case arg_address st (i_arg i) of
        None \<Rightarrow> Fault
      | Some a \<Rightarrow>
          (case opcode_of (i_opcode i) of
             None \<Rightarrow> Halted False st
           | Some op \<Rightarrow> vm_operate fu op (i_arg i) a st))"

definition and_then :: "vm_outcome \<Rightarrow> (vm_state \<Rightarrow> vm_outcome) \<Rightarrow> vm_outcome" where
  "and_then out f = (case out of Running st \<Rightarrow> f st | _ \<Rightarrow> out)"

fun exec :: "float_unit \<Rightarrow> cmd list \<Rightarrow> vm_state \<Rightarrow> vm_outcome" where
  "exec fu [] st = Running st"
| "exec fu (Do i # cs) st = and_then (do_instruction fu i st) (exec fu cs)"
| "exec fu (If1 a # cs) st = and_then (if result st \<noteq> 0 then exec fu a st else Running st) (exec fu cs)"
| "exec fu (If2 a b # cs) st = and_then (if result st \<noteq> 0 then exec fu a st else exec fu b st) (exec fu cs)"

text \<open>The program of a list of nodes; it threads the constants and the scopes as the parser does.\<close>

function (sequential) elab ::
    "(bytes \<Rightarrow> nat) \<Rightarrow> vm_keywords \<Rightarrow> resolver \<Rightarrow> paren_tree list \<Rightarrow> bytes \<times> vm_scope list
       \<Rightarrow> (cmd list \<times> bytes \<times> vm_scope list) option" where
  "elab P kw resolve [] s = Some ([], s)"
| "elab P kw resolve (Node _ (Node l us # cs) # rest) (c, ss) =
     (case elab P kw resolve (Node l us # cs) (c, [] # ss) of
        None \<Rightarrow> None
      | Some (xs, c1, ss1) \<Rightarrow> map_option (\<lambda>(ys, s). (xs @ ys, s)) (elab P kw resolve rest (c1, tl ss1)))"
| "elab P kw resolve (Node _ (Leaf _ w # args) # rest) (c, ss) =
     (case (if P w = kw_ifelse kw then
              (case args of
                 Node _ us # others \<Rightarrow>
                   (if us = [] then None
                    else case elab P kw resolve us (c, ss) of
                           None \<Rightarrow> None
                         | Some (xs, s1) \<Rightarrow>
                             (case others of
                                [] \<Rightarrow> Some ([If1 xs], s1)
                              | Node _ es # _ \<Rightarrow>
                                  (if es = [] then None
                                   else map_option (\<lambda>(ys, s2). ([If2 xs ys], s2)) (elab P kw resolve es s1))
                              | _ \<Rightarrow> None))
               | _ \<Rightarrow> None)
            else let st = \<lparr>asm_instructions = [], asm_constants = c, asm_scopes = ss\<rparr>
                 in case (if P w = kw_name kw then add_constant P resolve args st
                          else parse_instruction P kw resolve w args st) of
                      (ok, st1) \<Rightarrow>
                        if ok then Some (map Do (asm_instructions st1), asm_constants st1, asm_scopes st1) else None) of
        None \<Rightarrow> None
      | Some (xs, s1) \<Rightarrow> map_option (\<lambda>(ys, s2). (xs @ ys, s2)) (elab P kw resolve rest s1))"
| "elab P kw resolve _ s = None"
  by pat_completeness auto
termination
  by (relation "measure (\<lambda>(P, kw, resolve, roots, s). fsize roots)") auto

text \<open>The instructions of a program that begins at some address.\<close>

fun emit :: "nat \<Rightarrow> cmd list \<Rightarrow> instruction list" where
  "emit n [] = []"
| "emit n (Do i # cs) = i # emit (Suc n) cs"
| "emit n (If1 a # cs) =
     (let ca = emit (Suc n) a; e = Suc n + length ca in jump_to OP_JUMP_IF_NOT e # ca @ emit e cs)"
| "emit n (If2 a b # cs) =
     (let ca = emit (Suc n) a; m = Suc n + length ca; cb = emit (Suc m) b; e = Suc m + length cb
      in jump_to OP_JUMP_IF_NOT (Suc m) # ca @ jump_to OP_JUMP e # cb @ emit e cs)"

section \<open>The parser writes these instructions\<close>

abbreviation asm :: "instruction list \<Rightarrow> bytes \<Rightarrow> vm_scope list \<Rightarrow> asm_state" where
  "asm ins c ss \<equiv> \<lparr>asm_instructions = ins, asm_constants = c, asm_scopes = ss\<rparr>"

definition agrees :: "instruction list \<Rightarrow> (cmd list \<times> bytes \<times> vm_scope list) option \<Rightarrow> (bool \<times> asm_state) option \<Rightarrow> bool" where
  "agrees ins r p \<longleftrightarrow>
     (case r of
        None \<Rightarrow> \<forall>st. p \<noteq> Some (True, st)
      | Some (cmds, c, ss) \<Rightarrow> p = Some (True, asm (ins @ emit (length ins) cmds) c ss))"

lemma agrees_simps [simp]:
  "agrees ins (Some (cmds, c, ss)) p \<longleftrightarrow> p = Some (True, asm (ins @ emit (length ins) cmds) c ss)"
  "agrees ins None p \<longleftrightarrow> (\<forall>st. p \<noteq> Some (True, st))"
  by (simp_all add: agrees_def)

lemma emit_append: "emit n (xs @ ys) = emit n xs @ emit (n + length (emit n xs)) ys"
  by (induction n xs rule: emit.induct) (simp_all add: Let_def add.assoc)

lemma emit_Do [simp]: "emit n (map Do is) = is"
  by (induction "is" arbitrary: n) simp_all

lemma add_constant_instructions:
  "add_constant P resolve args (asm ins c ss) =
     (case add_constant P resolve args (asm [] c ss) of (ok, st1) \<Rightarrow> (ok, st1\<lparr>asm_instructions := ins @ asm_instructions st1\<rparr>))"
  by (auto simp: add_constant_def split: list.split paren_tree.split option.split)

lemma parse_instruction_instructions:
  "parse_instruction P kw resolve w args (asm ins c ss) =
     (case parse_instruction P kw resolve w args (asm [] c ss) of
        (ok, st1) \<Rightarrow> (ok, st1\<lparr>asm_instructions := ins @ asm_instructions st1\<rparr>))"
  by (auto simp: parse_instruction_def Let_def split: list.split option.split)

text \<open>A list after the other.\<close>

lemma agrees_sequence:
  assumes "agrees ins r p" and "\<And>ins c ss. agrees ins (r' (c, ss)) (k (asm ins c ss))"
  shows "agrees ins (case r of None \<Rightarrow> None | Some (xs, s1) \<Rightarrow> map_option (\<lambda>(ys, s2). (xs @ ys, s2)) (r' s1))
    (case p of None \<Rightarrow> None | Some (ok, st1) \<Rightarrow> if ok then k st1 else Some (False, st1))"
proof (cases r)
  case None
  then show ?thesis using assms(1) by (auto split: option.split)
next
  case (Some x)
  obtain xs c ss where x: "x = (xs, c, ss)" by (cases x)
  have "p = Some (True, asm (ins @ emit (length ins) xs) c ss)" using assms(1) Some x by simp
  then show ?thesis
    using assms(2) [of "ins @ emit (length ins) xs" c ss] Some x
    by (cases "r' (c, ss)") (auto simp: emit_append)
qed

text \<open>The alternative.\<close>

lemma parse_ifelse_agrees:
  assumes ih: "\<And>us ins c ss. fsize us < fsize args \<Longrightarrow> agrees ins (elab P kw resolve us (c, ss)) (parse_loop P kw resolve us (asm ins c ss))"
  shows "agrees ins
    (case args of
       Node _ us # others \<Rightarrow>
         (if us = [] then None
          else case elab P kw resolve us (c, ss) of
                 None \<Rightarrow> None
               | Some (xs, s1) \<Rightarrow>
                   (case others of
                      [] \<Rightarrow> Some ([If1 xs], s1)
                    | Node _ es # _ \<Rightarrow>
                        (if es = [] then None
                         else map_option (\<lambda>(ys, s2). ([If2 xs ys], s2)) (elab P kw resolve es s1))
                    | _ \<Rightarrow> None))
     | _ \<Rightarrow> None) (parse_ifelse P kw resolve args (asm ins c ss))"
proof (cases args)
  case Nil
  then show ?thesis by simp
next
  case (Cons a others)
  show ?thesis
  proof (cases a)
    case (Leaf l w)
    then show ?thesis using Cons by simp
  next
    case (Node l us)
    let ?z = "\<lparr>i_opcode = 0, i_arg = 0\<rparr> :: instruction"
    have h: "agrees (ins @ [?z]) (elab P kw resolve us (c, ss)) (parse_loop P kw resolve us (asm (ins @ [?z]) c ss))"
      using Cons Node by (intro ih) simp
    show ?thesis
    proof (cases "us = [] \<or> elab P kw resolve us (c, ss) = None")
      case True
      then have "\<forall>st'. parse_recurse P kw resolve us (push_later (asm ins c ss)) \<noteq> Some (True, st')"
        using h by (auto simp: push_later_def)
      then show ?thesis
        using True Cons Node by (auto simp: Let_def simp del: parse_recurse.simps split: option.splits bool.splits)
    next
      case False
      then obtain xs c1 ss1 where e: "elab P kw resolve us (c, ss) = Some (xs, c1, ss1)" "us \<noteq> []" by auto
      let ?i1 = "ins @ [?z] @ emit (Suc (length ins)) xs"
      have p: "parse_recurse P kw resolve us (push_later (asm ins c ss)) = Some (True, asm ?i1 c1 ss1)"
        using h e by (simp add: push_later_def)
      show ?thesis
      proof (cases others)
        case Nil
        then show ?thesis using Cons Node e p by (simp del: parse_recurse.simps add: set_later_def list_update_append Let_def)
      next
        case (Cons b rest)
        show ?thesis
        proof (cases b)
          case (Leaf l w)
          then show ?thesis using \<open>args = a # others\<close> Node Cons e p by (simp del: parse_recurse.simps)
        next
          case (Node l' es)
          have h2: "agrees (?i1 @ [?z]) (elab P kw resolve es (c1, ss1)) (parse_loop P kw resolve es (asm (?i1 @ [?z]) c1 ss1))"
            using \<open>args = a # others\<close> \<open>a = Node l us\<close> Cons Node by (intro ih) simp
          show ?thesis
          proof (cases "es = [] \<or> elab P kw resolve es (c1, ss1) = None")
            case True
            then have "\<forall>st'. parse_recurse P kw resolve es (push_later (asm ?i1 c1 ss1)) \<noteq> Some (True, st')"
              using h2 by (auto simp: push_later_def)
            then show ?thesis
              using True \<open>args = a # others\<close> \<open>a = Node l us\<close> Cons Node e p
              by (auto simp: Let_def simp del: parse_recurse.simps split: option.splits bool.splits)
          next
            case False
            then obtain ys c2 ss2 where e2: "elab P kw resolve es (c1, ss1) = Some (ys, c2, ss2)" "es \<noteq> []" by auto
            have "parse_recurse P kw resolve es (push_later (asm ?i1 c1 ss1))
                = Some (True, asm (?i1 @ [?z] @ emit (Suc (length ?i1)) ys) c2 ss2)"
              using h2 e2 by (simp add: push_later_def)
            then show ?thesis
              using \<open>args = a # others\<close> \<open>a = Node l us\<close> Cons Node e p e2
              by (simp del: parse_recurse.simps add: set_later_def list_update_append Let_def add.assoc)
          qed
        qed
      qed
    qed
  qed
qed

lemma parse_loop_agrees: "agrees ins (elab P kw resolve roots (c, ss)) (parse_loop P kw resolve roots (asm ins c ss))"
proof (induction "fsize roots" arbitrary: roots ins c ss rule: less_induct)
  case less
  show ?case
  proof (cases roots)
    case Nil
    then show ?thesis by simp
  next
    case (Cons r rest)
    show ?thesis
    proof (cases r)
      case (Leaf l w)
      then show ?thesis using Cons by simp
    next
      case (Node l us)
      have "fsize rest < fsize roots" using Cons Node by simp
      note rest = less.hyps [OF this]
      show ?thesis
      proof (cases us)
        case Nil
        then show ?thesis using Cons Node by simp
      next
        case us: (Cons u cs)
        show ?thesis
        proof (cases u)
          case u: (Node l' vs)
          have "fsize us < fsize roots" using Cons Node by simp
          note inner = less.hyps [OF this, of ins c "[] # ss"]
          show ?thesis
          proof (cases "elab P kw resolve us (c, [] # ss)")
            case None
            then show ?thesis using inner Cons Node us u by (auto split: option.split)
          next
            case (Some x)
            obtain xs c1 ss1 where x: "x = (xs, c1, ss1)" by (cases x)
            have "parse_loop P kw resolve us (asm ins c ([] # ss)) = Some (True, asm (ins @ emit (length ins) xs) c1 ss1)"
              using inner Some x by simp
            then show ?thesis
              using Some x Cons Node us u rest [of "ins @ emit (length ins) xs" c1 "tl ss1"]
              by (cases "elab P kw resolve rest (c1, tl ss1)") (auto simp: emit_append)
          qed
        next
          case u: (Leaf l' w)
          let ?st = "asm [] c ss"
          let ?word = "if P w = kw_name kw then add_constant P resolve cs ?st else parse_instruction P kw resolve w cs ?st"
          have ih: "agrees ins (elab P kw resolve vs (c, ss)) (parse_loop P kw resolve vs (asm ins c ss))" if "fsize vs < fsize cs" for vs ins c ss
            by (rule less.hyps) (use that Cons Node us u in simp)
          have "agrees ins
            (if P w = kw_ifelse kw then
               (case cs of
                  Node _ us # others \<Rightarrow>
                    (if us = [] then None
                     else case elab P kw resolve us (c, ss) of
                            None \<Rightarrow> None
                          | Some (xs, s1) \<Rightarrow>
                              (case others of
                                 [] \<Rightarrow> Some ([If1 xs], s1)
                               | Node _ es # _ \<Rightarrow>
                                   (if es = [] then None
                                    else map_option (\<lambda>(ys, s2). ([If2 xs ys], s2)) (elab P kw resolve es s1))
                               | _ \<Rightarrow> None))
                | _ \<Rightarrow> None)
             else case ?word of
                    (ok, st1) \<Rightarrow> if ok then Some (map Do (asm_instructions st1), asm_constants st1, asm_scopes st1) else None)
            (if P w = kw_ifelse kw then parse_ifelse P kw resolve cs (asm ins c ss)
             else if P w = kw_name kw then Some (add_constant P resolve cs (asm ins c ss))
             else Some (parse_instruction P kw resolve w cs (asm ins c ss)))"
          proof (cases "P w = kw_ifelse kw")
            case True
            then show ?thesis using parse_ifelse_agrees [OF ih, of cs ins c ss] by simp
          next
            case False
            then show ?thesis
              unfolding add_constant_instructions [of P resolve cs ins] parse_instruction_instructions [of P kw resolve w cs ins]
              by (auto split: prod.split)
          qed
          from agrees_sequence [OF this rest] show ?thesis unfolding Cons Node us u elab.simps parse_loop.simps Let_def .
        qed
      qed
    qed
  qed
qed

section \<open>The machine runs them as structured programs\<close>

definition at :: "vm_state \<Rightarrow> nat \<Rightarrow> vm_state" where
  "at st n = st\<lparr>instruction_pointer := word_of_nat n\<rparr>"

fun out_at :: "nat \<Rightarrow> vm_outcome \<Rightarrow> vm_outcome" where
  "out_at n (Running st) = Running (at st n)"
| "out_at n (Halted b st) = Halted b (at st n)"
| "out_at n Fault = Fault"

text \<open>The machine comes from a state to an outcome, where the instruction pointer of a final state is any.\<close>

fun runs :: "float_unit \<Rightarrow> vm_state \<Rightarrow> vm_outcome \<Rightarrow> bool" where
  "runs fu st (Running st') \<longleftrightarrow> vm_reaches fu st st'"
| "runs fu st (Halted b st') \<longleftrightarrow> (\<exists>m k. vm_reaches fu st m \<and> vm_step fu m = Halted b (at st' k))"
| "runs fu st Fault \<longleftrightarrow> (\<exists>m. vm_reaches fu st m \<and> vm_step fu m = Fault)"

lemma at_at [simp]: "at (at st n) k = at st k"
  by (simp add: at_def)

lemma at_fields [simp]:
  "result (at st n) = result st" "memory (at st n) = memory st" "instructions (at st n) = instructions st"
  "frame (at st n) = frame st" "vm_wf (at st n) = vm_wf st" "arg_address (at st n) arg = arg_address st arg"
  by (simp_all add: at_def vm_wf_def arg_address_def)

lemma runs_trans: "vm_reaches fu st m \<Longrightarrow> runs fu m out \<Longrightarrow> runs fu st out"
  by (cases out) (auto intro: vm_reaches_trans)

lemma runs_step: "vm_step fu st = out_at n out \<Longrightarrow> runs fu st (out_at n out)"
  by (cases out) (auto intro: vm_reaches_refl vm_reaches_step)

lemma runs_and_then:
  assumes "runs fu st (out_at n out)" and "\<And>st'. out = Running st' \<Longrightarrow> runs fu (at st' n) (out_at k (f st'))"
  shows "runs fu st (out_at k (and_then out f))"
  using assms by (cases out) (auto simp: and_then_def intro: runs_trans)

lemma vm_operate_at:
  "op \<notin> {OP_JUMP, OP_JUMP_IF_NOT} \<Longrightarrow> vm_operate fu op arg a (at st n) = out_at n (vm_operate fu op arg a st)"
  by (cases op) (simp_all add: vm_operate_def at_def split: option.split)

text \<open>The instruction at an address.\<close>

lemma current_instruction_at:
  assumes "instructions st = pre @ i # post" and "vm_wf st"
  shows "current_instruction (at st (length pre)) = i"
    and "(at st (length pre))\<lparr>instruction_pointer := instruction_pointer (at st (length pre)) + 1\<rparr> = at st (Suc (length pre))"
proof -
  have l: "length (instructions st) < 4294967296" "length pre < length (instructions st)"
    using assms by (simp_all add: vm_wf_def)
  then have "unat (word_of_nat (length pre) mod word_of_nat (length (instructions st)) :: vm_word) = length pre"
    by (simp add: unat_mod unat_of_nat32)
  then show "current_instruction (at st (length pre)) = i" using assms(1) by (simp add: current_instruction_def at_def)
qed (simp add: at_def)

lemma vm_step_at:
  assumes "instructions st = pre @ i # post" and "vm_wf st"
  obtains a where "arg_address st (i_arg i) = Some a"
    and "vm_step fu (at st (length pre)) = (case opcode_of (i_opcode i) of
         None \<Rightarrow> Halted False (at st (Suc (length pre)))
       | Some op \<Rightarrow> vm_operate fu op (i_arg i) a (at st (Suc (length pre))))"
proof -
  note c = current_instruction_at [OF assms]
  have "vm_wf (at st (length pre))" using assms(2) by simp
  then obtain a where "arg_address st (i_arg i) = Some a"
      "vm_step fu (at st (length pre)) = (case opcode_of (i_opcode i) of
         None \<Rightarrow> Halted False (at st (Suc (length pre)))
       | Some op \<Rightarrow> vm_operate fu op (i_arg i) a (at st (Suc (length pre))))"
    using vm_step_wf [of "at st (length pre)" fu] unfolding c by auto
  then show ?thesis by (rule that)
qed

lemma vm_step_do:
  assumes "instructions st = pre @ i # post" and "vm_wf st" and "\<not> is_jump i"
  shows "vm_step fu (at st (length pre)) = out_at (Suc (length pre)) (do_instruction fu i st)"
proof -
  from vm_step_at [OF assms(1,2)] obtain a where a: "arg_address st (i_arg i) = Some a"
      "vm_step fu (at st (length pre)) = (case opcode_of (i_opcode i) of
         None \<Rightarrow> Halted False (at st (Suc (length pre)))
       | Some op \<Rightarrow> vm_operate fu op (i_arg i) a (at st (Suc (length pre))))" by metis
  show ?thesis
    using assms(3) unfolding a(2)
    by (auto simp: do_instruction_def a(1) is_jump_def vm_operate_at split: option.split)
qed

lemma vm_step_jump:
  assumes "vm_wf st"
  shows "instructions st = pre @ jump_to OP_JUMP n # post \<Longrightarrow> vm_step fu (at st (length pre)) = Running (at st n)"
    and "instructions st = pre @ jump_to OP_JUMP_IF_NOT n # post \<Longrightarrow>
      vm_step fu (at st (length pre)) = Running (at st (if result st \<noteq> 0 then Suc (length pre) else n))"
proof -
  assume i: "instructions st = pre @ jump_to OP_JUMP n # post"
  obtain a where "vm_step fu (at st (length pre)) = (case opcode_of (i_opcode (jump_to OP_JUMP n)) of
         None \<Rightarrow> Halted False (at st (Suc (length pre)))
       | Some op \<Rightarrow> vm_operate fu op (i_arg (jump_to OP_JUMP n)) a (at st (Suc (length pre))))"
    by (rule vm_step_at [OF i assms])
  then show "vm_step fu (at st (length pre)) = Running (at st n)"
    by (simp add: jump_to_def vm_operate_def at_def del: opcode_number.simps)
next
  assume i: "instructions st = pre @ jump_to OP_JUMP_IF_NOT n # post"
  obtain a where "vm_step fu (at st (length pre)) = (case opcode_of (i_opcode (jump_to OP_JUMP_IF_NOT n)) of
         None \<Rightarrow> Halted False (at st (Suc (length pre)))
       | Some op \<Rightarrow> vm_operate fu op (i_arg (jump_to OP_JUMP_IF_NOT n)) a (at st (Suc (length pre))))"
    by (rule vm_step_at [OF i assms])
  then show "vm_step fu (at st (length pre)) = Running (at st (if result st \<noteq> 0 then Suc (length pre) else n))"
    by (simp add: jump_to_def vm_operate_def at_def del: opcode_number.simps)
qed

text \<open>Structured programs do not depend on the instruction pointer, and keep the machine.\<close>

fun jump_free :: "cmd list \<Rightarrow> bool" where
  "jump_free [] \<longleftrightarrow> True"
| "jump_free (Do i # cs) \<longleftrightarrow> \<not> is_jump i \<and> jump_free cs"
| "jump_free (If1 a # cs) \<longleftrightarrow> jump_free a \<and> jump_free cs"
| "jump_free (If2 a b # cs) \<longleftrightarrow> jump_free a \<and> jump_free b \<and> jump_free cs"

lemma do_instruction_at: "\<not> is_jump i \<Longrightarrow> do_instruction fu i (at st n) = out_at n (do_instruction fu i st)"
  by (auto simp: do_instruction_def is_jump_def vm_operate_at split: option.split)

lemma and_then_at:
  assumes "\<And>st. out = Running st \<Longrightarrow> f (at st n) = out_at n (f st)"
  shows "and_then (out_at n out) f = out_at n (and_then out f)"
  using assms by (cases out) (simp_all add: and_then_def)

lemma exec_at: "jump_free cs \<Longrightarrow> exec fu cs (at st n) = out_at n (exec fu cs st)"
proof (induction fu cs st rule: exec.induct)
  case (2 fu i cs st)
  have "exec fu cs (at st' n) = out_at n (exec fu cs st')" for st' using "2.IH" "2.prems" by simp
  then show ?case using "2.prems" do_instruction_at and_then_at by simp
next
  case (3 fu a cs st)
  have "exec fu cs (at st' n) = out_at n (exec fu cs st')" for st' using "3.IH" "3.prems" by simp
  moreover have "(if result (at st n) \<noteq> 0 then exec fu a (at st n) else Running (at st n))
      = out_at n (if result st \<noteq> 0 then exec fu a st else Running st)"
    using 3 by simp
  ultimately show ?case by (simp only: exec.simps and_then_at)
next
  case (4 fu a b cs st)
  have "exec fu cs (at st' n) = out_at n (exec fu cs st')" for st' using "4.IH" "4.prems" by simp
  moreover have "(if result (at st n) \<noteq> 0 then exec fu a (at st n) else exec fu b (at st n))
      = out_at n (if result st \<noteq> 0 then exec fu a st else exec fu b st)"
    using 4 by simp
  ultimately show ?case by (simp only: exec.simps and_then_at)
qed simp

definition same_machine :: "vm_state \<Rightarrow> vm_state \<Rightarrow> bool" where
  "same_machine st st' \<longleftrightarrow> instructions st' = instructions st \<and> frame st' = frame st \<and> length (memory st') = length (memory st)"

lemma same_machine_refl [simp]: "same_machine st st"
  by (simp add: same_machine_def)

lemma same_machine_wf: "same_machine st st' \<Longrightarrow> vm_wf st \<Longrightarrow> vm_wf st'"
  unfolding same_machine_def vm_wf_def by metis

lemma and_then_Running: "and_then out f = Running st' \<longleftrightarrow> (\<exists>st. out = Running st \<and> f st = Running st')"
  by (cases out) (simp_all add: and_then_def)

lemma exec_same_machine: "exec fu cs st = Running st' \<Longrightarrow> same_machine st st'"
proof (induction fu cs st arbitrary: st' rule: exec.induct)
  case (2 fu i cs st)
  from "2.prems" obtain st1 where "do_instruction fu i st = Running st1" "exec fu cs st1 = Running st'"
    by (auto simp: and_then_Running)
  then show ?case
    using "2.IH" by (fastforce simp: do_instruction_def same_machine_def split: option.splits dest: vm_operate_preserves)
next
  case (3 fu a cs st)
  then show ?case by (fastforce simp: and_then_Running same_machine_def split: if_splits)
next
  case (4 fu a b cs st)
  then show ?case by (fastforce simp: and_then_Running same_machine_def split: if_splits)
qed simp

text \<open>A program that begins at its address in the instructions.\<close>

lemma emit_runs:
  "instructions st = pre @ emit (length pre) cs @ post \<Longrightarrow> vm_wf st \<Longrightarrow> jump_free cs \<Longrightarrow>
     runs fu (at st (length pre)) (out_at (length pre + length (emit (length pre) cs)) (exec fu cs st))"
proof (induction "length pre" cs arbitrary: pre st post rule: emit.induct)
  case 1
  show ?case by (simp add: vm_reaches_refl)
next
  case (2 i cs)
  let ?k = "length (pre @ [i]) + length (emit (length (pre @ [i])) cs)"
  have i: "instructions st = pre @ i # (emit (Suc (length pre)) cs @ post)" using "2.prems"(1) by simp
  have "runs fu (at st (length pre)) (out_at (Suc (length pre)) (do_instruction fu i st))"
    using vm_step_do [OF i "2.prems"(2)] "2.prems"(3) by (intro runs_step) simp
  moreover have "runs fu (at st' (Suc (length pre))) (out_at ?k (exec fu cs st'))" if r: "do_instruction fu i st = Running st'" for st'
  proof -
    have "same_machine st st'" using exec_same_machine [of fu "[Do i]" st st'] r by (simp add: and_then_def)
    then have "instructions st' = (pre @ [i]) @ emit (length (pre @ [i])) cs @ post" "vm_wf st'"
      using i same_machine_wf [OF _ "2.prems"(2)] by (auto simp: same_machine_def)
    then show ?thesis using "2.hyps" [of "pre @ [i]" st' post] "2.prems"(3) by simp
  qed
  ultimately have "runs fu (at st (length pre)) (out_at ?k (and_then (do_instruction fu i st) (exec fu cs)))"
    by (rule runs_and_then)
  then show ?case by simp
next
  case (3 a cs)
  let ?j = "jump_to OP_JUMP_IF_NOT (Suc (length pre) + length (emit (Suc (length pre)) a))" and ?ca = "emit (Suc (length pre)) a"
  let ?e = "Suc (length pre) + length ?ca"
  let ?p2 = "pre @ ?j # ?ca"
  let ?k = "length ?p2 + length (emit (length ?p2) cs)"
  let ?c = "if result st \<noteq> 0 then exec fu a st else Running st"
  have i: "instructions st = pre @ ?j # (?ca @ emit ?e cs @ post)" using "3.prems"(1) by (simp add: Let_def)
  note step = vm_step_jump(2) [OF "3.prems"(2) i]
  have "runs fu (at st (length pre)) (out_at ?e ?c)"
  proof (cases "result st = 0")
    case True
    then show ?thesis using step vm_reaches_step [OF vm_reaches_refl] by simp
  next
    case False
    have "instructions st = (pre @ [?j]) @ emit (length (pre @ [?j])) a @ (emit ?e cs @ post)" using i by simp
    from "3.hyps"(1) [OF _ this "3.prems"(2)] "3.prems"(3)
    have "runs fu (at st (Suc (length pre))) (out_at ?e (exec fu a st))" by simp
    then show ?thesis
      using False step vm_reaches_step [OF vm_reaches_refl, of fu "at st (length pre)"] by (auto intro: runs_trans)
  qed
  moreover have "runs fu (at st' ?e) (out_at ?k (exec fu cs st'))" if r: "?c = Running st'" for st'
  proof -
    have "same_machine st st'" using exec_same_machine r by (auto split: if_splits)
    then have "instructions st' = ?p2 @ emit (length ?p2) cs @ post" "vm_wf st'"
      using i same_machine_wf [OF _ "3.prems"(2)] by (auto simp: same_machine_def)
    then show ?thesis using "3.hyps"(2) [OF refl, of ?p2 st' post] "3.prems"(3) by simp
  qed
  ultimately have "runs fu (at st (length pre)) (out_at ?k (and_then ?c (exec fu cs)))"
    by (rule runs_and_then)
  then show ?case by (auto simp: Let_def add.assoc)
next
  case (4 a b cs)
  let ?ca = "emit (Suc (length pre)) a"
  let ?m = "Suc (length pre) + length ?ca"
  let ?cb = "emit (Suc ?m) b"
  let ?e = "Suc ?m + length ?cb"
  let ?j = "jump_to OP_JUMP_IF_NOT (Suc ?m)" and ?h = "jump_to OP_JUMP ?e"
  let ?p1 = "pre @ ?j # ?ca" and ?p2 = "pre @ ?j # ?ca @ ?h # ?cb"
  let ?k = "length ?p2 + length (emit (length ?p2) cs)"
  let ?c = "if result st \<noteq> 0 then exec fu a st else exec fu b st"
  have i: "instructions st = pre @ ?j # (?ca @ ?h # ?cb @ emit ?e cs @ post)" using "4.prems"(1) by (simp add: Let_def)
  note step = vm_step_jump(2) [OF "4.prems"(2) i]
  have "runs fu (at st (length pre)) (out_at ?e ?c)"
  proof (cases "result st = 0")
    case True
    have "instructions st = (?p1 @ [?h]) @ emit (length (?p1 @ [?h])) b @ (emit ?e cs @ post)" using i by simp
    from "4.hyps"(2) [OF refl refl _ this "4.prems"(2)] "4.prems"(3)
    have "runs fu (at st (Suc ?m)) (out_at ?e (exec fu b st))" by simp
    then show ?thesis
      using True step vm_reaches_step [OF vm_reaches_refl, of fu "at st (length pre)"] by (auto intro: runs_trans)
  next
    case False
    have "instructions st = (pre @ [?j]) @ emit (length (pre @ [?j])) a @ (?h # ?cb @ emit ?e cs @ post)" using i by simp
    from "4.hyps"(1) [OF _ this "4.prems"(2)] "4.prems"(3)
    have "runs fu (at st (Suc (length pre))) (out_at ?m (exec fu a st))" by simp
    then have a: "runs fu (at st (length pre)) (out_at ?m (exec fu a st))"
      using False step vm_reaches_step [OF vm_reaches_refl, of fu "at st (length pre)"] by (auto intro: runs_trans)
    have "runs fu (at st' ?m) (out_at ?e (Running st'))" if r: "exec fu a st = Running st'" for st'
    proof -
      have "same_machine st st'" by (rule exec_same_machine [OF r])
      then have "instructions st' = ?p1 @ ?h # (?cb @ emit ?e cs @ post)" "vm_wf st'"
        using i same_machine_wf [OF _ "4.prems"(2)] by (auto simp: same_machine_def add.assoc)
      from vm_step_jump(1) [OF this(2,1), of fu] show ?thesis
        using vm_reaches_step [OF vm_reaches_refl, of fu "at st' ?m"] by simp
    qed
    from runs_and_then [OF a this] show ?thesis using False by (cases "exec fu a st") (simp_all add: and_then_def)
  qed
  moreover have "runs fu (at st' ?e) (out_at ?k (exec fu cs st'))" if r: "?c = Running st'" for st'
  proof -
    have "same_machine st st'" using exec_same_machine r by (auto split: if_splits)
    then have "instructions st' = ?p2 @ emit (length ?p2) cs @ post" "vm_wf st'"
      using i same_machine_wf [OF _ "4.prems"(2)] by (auto simp: same_machine_def add.assoc)
    then show ?thesis using "4.hyps"(3) [OF refl refl refl, of ?p2 st' post] "4.prems"(3) by (simp add: add.assoc)
  qed
  ultimately have "runs fu (at st (length pre)) (out_at ?k (and_then ?c (exec fu cs)))"
    by (rule runs_and_then)
  then show ?case by (auto simp: Let_def add.assoc)
qed

text \<open>The assembler writes no jumps but its own.\<close>

lemma identify_no_jump: "identify_string_opcode kw p = Some op \<Longrightarrow> op \<notin> {OP_JUMP, OP_JUMP_IF_NOT}"
  by (auto simp: identify_string_opcode_def split: if_splits)

lemma jump_free_append [simp]: "jump_free (xs @ ys) \<longleftrightarrow> jump_free xs \<and> jump_free ys"
  by (induction xs rule: jump_free.induct) auto

lemma jump_free_Do [simp]: "jump_free (map Do is) \<longleftrightarrow> list_all (\<lambda>i. \<not> is_jump i) is"
  by (induction "is") simp_all

lemma parse_instruction_jump_free:
  "parse_instruction P kw resolve w args (asm [] c ss) = (ok, st) \<Longrightarrow> list_all (\<lambda>i. \<not> is_jump i) (asm_instructions st)"
  by (auto simp: parse_instruction_def Let_def is_jump_def simp del: opcode_number.simps dest: identify_no_jump split: option.splits if_splits list.splits)

lemma add_constant_jump_free:
  "add_constant P resolve args (asm [] c ss) = (ok, st) \<Longrightarrow> list_all (\<lambda>i. \<not> is_jump i) (asm_instructions st)"
  by (auto simp: add_constant_def split: option.splits list.splits paren_tree.splits)

lemma elab_jump_free: "elab P kw resolve roots s = Some (cs, s') \<Longrightarrow> jump_free cs"
proof (induction P kw resolve roots s arbitrary: cs s' rule: elab.induct)
  case (3 P kw resolve l l' w args rest c ss)
  show ?case
  proof (cases "P w = kw_ifelse kw")
    case True
    then show ?thesis using 3 by (auto split: option.splits list.splits paren_tree.splits if_splits)
  next
    case False
    then show ?thesis
      using 3 parse_instruction_jump_free add_constant_jump_free
      by (fastforce simp: Let_def split: option.splits prod.splits if_splits)
  qed
qed (fastforce split: option.splits)+

section \<open>Properties\<close>

text \<open>C15: The assembler is correct for the machine: when it accepts a program, the program has a
  structured meaning of instructions and alternatives, and the machine, loaded with the code,
  comes to the end of the code in the state that this meaning gives, or halts with the same result,
  register and memory, or fails, exactly as it says.\<close>

theorem assembler_correct:
  assumes "assembler P resolve ns roots = Some (True, code)"
    and "mc_instructions code \<noteq> []" and "length (mc_instructions code) < 2 ^ 32"
    and "4 < size_of_memory" and "size_of_memory < 2 ^ 32" and "vm_init vm_state_zero code size_of_memory = (True, st0)"
    and "kw = snd (init_keywords ns)"
  shows "\<exists>cmds s. elab P kw (resolve kw) roots ([], [[]]) = Some (cmds, s) \<and>
    (case exec fu cmds st0 of
       Running st \<Rightarrow> vm_reaches fu st0 (at st (length (mc_instructions code)))
     | Halted b st \<Rightarrow> \<exists>n. vm_frame fu st0 = Some (Halted b (at st n))
     | Fault \<Rightarrow> vm_frame fu st0 = Some Fault)"
proof -
  obtain ns' where kw: "init_keywords ns = (ns', kw)" using assms(7) by (cases "init_keywords ns") simp
  from assms(1) obtain st where st: "parse_loop P kw (resolve kw) roots asm_zero = Some (True, st)"
      "code = \<lparr>mc_instructions = asm_instructions st, mc_constants = asm_constants st\<rparr>"
    by (auto simp: assembler_def kw split: if_splits)
  have "agrees [] (elab P kw (resolve kw) roots ([], [[]])) (Some (True, st))"
    using parse_loop_agrees [of "[]" P kw "resolve kw" roots "[]" "[[]]"] st(1) by (simp add: asm_zero_def)
  then obtain cmds c ss where e: "elab P kw (resolve kw) roots ([], [[]]) = Some (cmds, c, ss)"
      "st = asm (emit 0 cmds) c ss"
    by (cases "elab P kw (resolve kw) roots ([], [[]])") auto
  have init: "instructions st0 = [] @ emit (length ([] :: instruction list)) cmds @ []" "vm_wf st0" "st0 = at st0 0"
    using assms(2-6) st(2) e(2) by (auto simp: vm_init_def vm_wf_def vm_state_zero_def at_def split: if_splits)
  from emit_runs [OF init(1,2) elab_jump_free [OF e(1)], of fu]
  have r: "runs fu st0 (out_at (length (mc_instructions code)) (exec fu cmds st0))"
    using init(3) st(2) e(2) by simp
  have "case exec fu cmds st0 of
       Running st \<Rightarrow> vm_reaches fu st0 (at st (length (mc_instructions code)))
     | Halted b st \<Rightarrow> \<exists>n. vm_frame fu st0 = Some (Halted b (at st n))
     | Fault \<Rightarrow> vm_frame fu st0 = Some Fault"
    using r by (cases "exec fu cmds st0") (auto simp: vm_frame_iff)
  then show ?thesis using e(1) by blast
qed

text \<open>The program \<open>(ifelse ((exit))) (exit)\<close>.\<close>

definition exit_program :: "paren_tree list" where
  "exit_program =
     (let p = (0, 0); e = Node p [Leaf p (str ''exit'')] in [Node p [Leaf p (str ''ifelse''), Node p [e]], e])"

theorem assembler_correct_witness:
  "\<exists>P code st. assembler P (\<lambda>kw c ss t. None) immutable_namespace_zero exit_program = Some (True, code) \<and>
    length (mc_instructions code) = 3 \<and>
    vm_frame null_floats (snd (vm_init vm_state_zero code 8)) = Some (Halted True st) \<and> result st = 0"
proof -
  obtain ns kw where i: "init_keywords immutable_namespace_zero = (ns, kw)" by fastforce
  have z: "unat (item_count (ns_table immutable_namespace_zero)) + 21 \<le> 2 ^ 50"
    by (simp add: immutable_namespace_zero_def table_zero_def)
  note k = init_keywords_names [OF ns_ok_zero z i]
  have inj: "inj_on (table_map (ns_table ns)) (dom (table_map (ns_table ns)))" using k(1) by (simp add: ns_ok_def)
  have m: "table_map (ns_table ns) (str ''exit'') = Some (kw_exit kw)" "table_map (ns_table ns) (str ''ifelse'') = Some (kw_ifelse kw)"
      "table_map (ns_table ns) (str ''name'') = Some (kw_name kw)"
    using k(3) by (simp_all add: keyword_names_def)
  have ne: "kw_exit kw \<noteq> kw_ifelse kw" "kw_exit kw \<noteq> kw_name kw"
    using inj_onD [OF inj, of "str ''exit''" "str ''ifelse''"] inj_onD [OF inj, of "str ''exit''" "str ''name''"] m
    by (auto simp: str_def byte_of_def)
  have ex: "identify_string_opcode kw (kw_exit kw) = Some OP_EXIT" by (simp add: identify_string_opcode_def)
  let ?P = "\<lambda>w. if w = str ''ifelse'' then kw_ifelse kw else kw_exit kw"
  let ?x = "\<lparr>i_opcode = 0, i_arg = 0\<rparr>"
  let ?code = "\<lparr>mc_instructions = [\<lparr>i_opcode = 16, i_arg = 2\<rparr>, ?x, ?x], mc_constants = []\<rparr>"
  have s: "str ''exit'' \<noteq> str ''ifelse''" by (simp add: str_def)
  have a: "assembler ?P (\<lambda>kw c ss t. None) immutable_namespace_zero exit_program = Some (True, ?code)"
    using ne s by (simp add: assembler_def i exit_program_def Let_def asm_zero_def parse_instruction_def ex push_later_def
        set_later_def jump_to_def)
  obtain st0 where init: "vm_init vm_state_zero ?code 8 = (True, st0)" by (simp add: vm_init_def)
  then have st0: "result st0 = 0" "memory st0 = replicate 8 0" "frame st0 = 0" by (auto simp: vm_init_def vm_state_zero_def)
  then have adr: "arg_address st0 0 = Some 0" by (simp add: arg_address_def Let_def)
  have "kw = snd (init_keywords immutable_namespace_zero)" by (simp add: i)
  from assembler_correct [OF a _ _ _ _ init this, of null_floats] obtain cmds s where
    c: "elab ?P kw (\<lambda>c ss t. None) exit_program ([], [[]]) = Some (cmds, s)"
      "case exec null_floats cmds st0 of
         Running st \<Rightarrow> vm_reaches null_floats st0 (at st (length (mc_instructions ?code)))
       | Halted b st \<Rightarrow> \<exists>n. vm_frame null_floats st0 = Some (Halted b (at st n))
       | Fault \<Rightarrow> vm_frame null_floats st0 = Some Fault"
    by auto
  have "cmds = [If1 [Do ?x], Do ?x]"
    using c(1) ne \<open>str ''exit'' \<noteq> str ''ifelse''\<close>
    by (auto simp: exit_program_def Let_def parse_instruction_def ex)
  then have "exec null_floats cmds st0 = Halted True st0"
    using st0(1) adr by (simp add: and_then_def do_instruction_def opcode_of_def opcodes_def vm_operate_def)
  then obtain n where "vm_frame null_floats st0 = Some (Halted True (at st0 n))" using c(2) by auto
  then show ?thesis using a init st0(1) by (intro exI [of _ ?P] exI [of _ ?code] exI [of _ "at st0 n"]) simp
qed

end
