(* ===== verification/DzipOutput.thy ===== *)
theory DzipOutput
  imports DzipChain
begin

text \<open>
  The chains that compress or expand what is pushed to them and push the result to another
  chain (\<open>dzip_deflate_chain_output\<close> of \<open>src/dzip/deflate/chain.c\<close>,
  \<open>dzip_inflate_chain_output\<close> of \<open>src/dzip/inflate/chain.c\<close>). No program of the repository
  uses them. Freeing such a chain flushes it and leaves the other one to its owner.
\<close>

section \<open>Update functions\<close>

text \<open>The input is not advanced: it is given back as it was.\<close>

definition dzip_deflate_output_update_func ::
    "allocator \<Rightarrow> ('s \<Rightarrow> bytes \<Rightarrow> (chain_status \<times> bytes \<times> 's) option)
       \<Rightarrow> 's chain_write \<times> dzip_deflate_state \<Rightarrow> bytes
       \<Rightarrow> (chain_status \<times> bytes \<times> 's chain_write \<times> dzip_deflate_state) option" where
  "dzip_deflate_output_update_func al update arg input =
     (case arg of (output, state) \<Rightarrow>
        case dzip_deflate (contents (wbuffer output)) state input of
          None \<Rightarrow> None
        | Some (out, state') \<Rightarrow>
            (case buffer_extend al (wbuffer output) out of
               None \<Rightarrow> None
             | Some b \<Rightarrow>
                 (case chain_push_final update (output\<lparr>wbuffer := b\<rparr>) of
                    None \<Rightarrow> None
                  | Some (ok, output') \<Rightarrow>
                      Some (if ok then CHAIN_COMPLETE else CHAIN_ERROR, input, output', state'))))"

definition dzip_deflate_chain_output ::
    "'s chain_write \<Rightarrow> ('s chain_write \<times> dzip_deflate_state) chain_write" where
  "dzip_deflate_chain_output output = chain_write_new 0 (output, dzip_deflate_state_new)"

text \<open>The result of \<open>dzip_inflate_range\<close> is not looked at.\<close>

definition dzip_inflate_output_update_func ::
    "allocator \<Rightarrow> ('s \<Rightarrow> bytes \<Rightarrow> (chain_status \<times> bytes \<times> 's) option)
       \<Rightarrow> 's chain_write \<Rightarrow> bytes \<Rightarrow> (chain_status \<times> bytes \<times> 's chain_write) option" where
  "dzip_inflate_output_update_func al update chain compressed_contents =
     (case dzip_inflate_range (contents (wbuffer chain)) compressed_contents of
        None \<Rightarrow> None
      | Some (result, out, rest) \<Rightarrow>
          (case buffer_extend al (wbuffer chain) out of
             None \<Rightarrow> None
           | Some b \<Rightarrow>
               (case chain_push_final update (chain\<lparr>wbuffer := b\<rparr>) of
                  None \<Rightarrow> None
                | Some (ok, chain') \<Rightarrow>
                    Some (if \<not> ok then CHAIN_ERROR
                          else if length rest = length compressed_contents then CHAIN_COMPLETE
                          else CHAIN_INCOMPLETE, rest, chain'))))"

definition dzip_inflate_chain_output :: "'s chain_write \<Rightarrow> 's chain_write chain_write" where
  "dzip_inflate_chain_output input = chain_write_new 0 input"

text \<open>A range that is pushed piece by piece, as long as the pushes succeed.\<close>

fun chain_push_pieces ::
    "allocator \<Rightarrow> ('s \<Rightarrow> bytes \<Rightarrow> (chain_status \<times> bytes \<times> 's) option) \<Rightarrow> 's chain_write \<Rightarrow> bytes list
       \<Rightarrow> (bool \<times> 's chain_write) option" where
  "chain_push_pieces al update c [] = Some (True, c)"
| "chain_push_pieces al update c (x # xs) =
     (case chain_push al update c x of
        None \<Rightarrow> None
      | Some (ok, c') \<Rightarrow> if ok then chain_push_pieces al update c' xs else Some (False, c'))"

text \<open>The members of an updated chain, for chains whose argument is a chain too.\<close>

lemma chain_write_members [simp]:
  "w_is_error (c\<lparr>warg := x\<rparr>) = w_is_error c" "written (c\<lparr>warg := x\<rparr>) = written c"
  "wbuffer (c\<lparr>warg := x\<rparr>) = wbuffer c" "warg (c\<lparr>warg := x\<rparr>) = x" "flush_size (c\<lparr>warg := x\<rparr>) = flush_size c"
  "w_is_error (c\<lparr>wbuffer := b\<rparr>) = w_is_error c" "written (c\<lparr>wbuffer := b\<rparr>) = written c"
  "wbuffer (c\<lparr>wbuffer := b\<rparr>) = b" "warg (c\<lparr>wbuffer := b\<rparr>) = warg c" "flush_size (c\<lparr>wbuffer := b\<rparr>) = flush_size c"
  "w_is_error (c\<lparr>written := n\<rparr>) = w_is_error c" "written (c\<lparr>written := n\<rparr>) = n"
  "wbuffer (c\<lparr>written := n\<rparr>) = wbuffer c" "warg (c\<lparr>written := n\<rparr>) = warg c" "flush_size (c\<lparr>written := n\<rparr>) = flush_size c"
  "c\<lparr>warg := x, warg := y\<rparr> = c\<lparr>warg := y\<rparr>"
  by simp_all

section \<open>Over a sink\<close>

context chain_sink
begin

lemma extend_writes:
  assumes "writes c S" and "length (S @ bs) < 2 ^ 59" and "\<forall>m < 2 ^ 63. can_alloc al m"
  shows "\<exists>b. buffer_extend al (wbuffer c) (contents (wbuffer c) @ bs) = Some b \<and> writes (c\<lparr>wbuffer := b\<rparr>) (S @ bs)"
proof -
  have wf: "buffer_wf (wbuffer c)" using assms(1) by (simp add: writes_def)
  have "length (contents (wbuffer c) @ bs) < 2 ^ 60"
    using assms(2) writes_size [OF assms(1)] length_contents [OF wf] by simp
  from buffer_extend_contents [OF wf this assms(3)] obtain b where
    b: "buffer_extend al (wbuffer c) (contents (wbuffer c) @ bs) = Some b" "contents b = contents (wbuffer c) @ bs"
      "buffer_wf b" by blast
  have "used b = used (wbuffer c) + length bs"
    using arg_cong [OF b(2), of length] length_contents [OF wf] length_contents [OF b(3)] by simp
  then have "writes (c\<lparr>wbuffer := b\<rparr>) (S @ bs)"
    using b(2,3) assms(1) length_contents [OF wf] by (auto simp: writes_def)
  with b(1) show ?thesis by blast
qed

text \<open>Compression: the whole input is compressed, and nothing of it counts as taken.\<close>

lemma deflate_output_update:
  assumes "writes out S" and "length S + 3 * length input + 48 < 4294967296" and "\<forall>m < 2 ^ 63. can_alloc al m"
  shows "\<exists>out' st' e. dzip_deflate_output_update_func al update (out, st) input
      = Some (CHAIN_COMPLETE, input, out', st') \<and> writes out' (S @ e) \<and> deflates e input"
proof -
  have "length (contents (wbuffer out)) \<le> length S"
    using writes_size [OF assms(1)] assms(1) by (simp add: length_contents writes_def)
  then have "length (contents (wbuffer out)) + 3 * length input + 48 < 4294967296" using assms(2) by simp
  from dzip_deflate_chunks [OF this, of st] obtain ps st' where
    z: "dzip_deflate (contents (wbuffer out)) st input = Some (contents (wbuffer out) @ concat (map fst ps), st')"
      "list_all is_chunk ps" "concat (map snd ps) = input" "length (concat (map fst ps)) \<le> deflated_size (length input)"
    by blast
  let ?e = "concat (map fst ps)"
  have sz: "deflated_size (length input) \<le> 19 * length input"
    using deflated_size_le [of "length input"] by (cases "length input") (simp_all add: deflated_size_def [of 0])
  have "length (S @ ?e) < 2 ^ 59" using z(4) sz assms(2) by simp
  then obtain b where b: "buffer_extend al (wbuffer out) (contents (wbuffer out) @ ?e) = Some b"
      "writes (out\<lparr>wbuffer := b\<rparr>) (S @ ?e)"
    using extend_writes [OF assms(1) _ assms(3)] by blast
  obtain out' where f: "chain_push_final update (out\<lparr>wbuffer := b\<rparr>) = Some (True, out')" "writes out' (S @ ?e)"
    using push_final_writes [OF b(2)] by blast
  have "deflates ?e input" using z(2-4) sz by (auto simp: deflates_def)
  moreover have "dzip_deflate_output_update_func al update (out, st) input = Some (CHAIN_COMPLETE, input, out', st')"
    using z(1) b(1) f(1) by (simp add: dzip_deflate_output_update_func_def)
  ultimately show ?thesis using f(2) by blast
qed

lemma deflate_output_flush:
  assumes "writes (fst (warg c)) S" and "length S + 3 * length input + 48 < 4294967296"
    and "\<forall>m < 2 ^ 63. can_alloc al m" and "\<not> w_is_error c"
  shows "\<exists>arg e. chain_write_flush_input (dzip_deflate_output_update_func al update) c input
      = Some (True, input, c\<lparr>warg := arg\<rparr>) \<and> writes (fst arg) (S @ e) \<and> deflates e input"
proof -
  obtain out st where c: "warg c = (out, st)" by (cases "warg c")
  with assms(1) have "writes out S" by simp
  from deflate_output_update [OF this assms(2,3), of st] obtain out' st' e where
    u: "dzip_deflate_output_update_func al update (out, st) input = Some (CHAIN_COMPLETE, input, out', st')"
      "writes out' (S @ e)" "deflates e input" by blast
  have "chain_write_flush_input (dzip_deflate_output_update_func al update) c input
      = Some (True, input, c\<lparr>warg := (out', st')\<rparr>)"
    using u(1) c assms(4) by (simp add: chain_write_flush_input_def chain_write_flush_loop.simps)
  then show ?thesis using u(2,3) by (intro exI [of _ "(out', st')"] exI [of _ e]) simp
qed

text \<open>Expansion, on the chunks \<open>rs\<close> that are still to come.\<close>

lemma inflate_output_flush:
  assumes "writes (warg c) T" and "list_all is_chunk rs" and "concat (map fst rs) = input @ future"
    and "length T + length (concat (map snd rs)) < 4294967296"
    and "\<forall>m < 2 ^ 63. can_alloc al m" and "\<not> w_is_error c"
  shows "\<exists>out qs rs' rest. chain_write_flush_input (dzip_inflate_output_update_func al update) c input
      = Some (True, rest, c\<lparr>warg := out\<rparr>) \<and> writes out (T @ concat (map snd qs)) \<and> rs = qs @ rs' \<and>
    input = concat (map fst qs) @ rest \<and> (future = [] \<longrightarrow> rs' = [] \<and> rest = [])"
  using assms(1-4,6)
proof (induction "length input" arbitrary: c T rs input rule: less_induct)
  case less
  let ?ct = "contents (wbuffer (warg c))"
  have "length ?ct \<le> length T"
    using writes_size [OF less.prems(1)] less.prems(1) by (simp add: length_contents writes_def)
  then have "length ?ct + length (concat (map snd rs)) < 4294967296" using less.prems(4) by simp
  from inflate_range_prefix [OF less.prems(2,3) this] obtain qs rs' rest where
    i: "rs = qs @ rs'" "input = concat (map fst qs) @ rest"
      "inflate_range_loop ?ct input = Some (True, ?ct @ concat (map snd qs), rest)"
      "future = [] \<longrightarrow> rs' = [] \<and> rest = []" by blast
  let ?T = "T @ concat (map snd qs)"
  have "length ?T < 2 ^ 59" using less.prems(4) i(1) by simp
  then obtain b where b: "buffer_extend al (wbuffer (warg c)) (?ct @ concat (map snd qs)) = Some b"
      "writes ((warg c)\<lparr>wbuffer := b\<rparr>) ?T"
    using extend_writes [OF less.prems(1) _ assms(5)] by blast
  obtain out where f: "chain_push_final update ((warg c)\<lparr>wbuffer := b\<rparr>) = Some (True, out)" "writes out ?T"
    using push_final_writes [OF b(2)] by blast
  have u: "dzip_inflate_output_update_func al update (warg c) input =
      Some (if length rest = length input then CHAIN_COMPLETE else CHAIN_INCOMPLETE, rest, out)"
    using i(3) b(1) f(1) by (simp add: dzip_inflate_output_update_func_def dzip_inflate_range_def)
  show ?case
  proof (cases "length rest = length input")
    case True
    then have "chain_write_flush_input (dzip_inflate_output_update_func al update) c input
        = Some (True, rest, c\<lparr>warg := out\<rparr>)"
      using u less.prems(5) by (simp add: chain_write_flush_input_def chain_write_flush_loop.simps)
    then show ?thesis using f(2) i by blast
  next
    case False
    let ?c = "c\<lparr>warg := out\<rparr>"
    have "length rest < length input" using False i(2) by (metis length_append le_add2 le_neq_implies_less)
    moreover have "list_all is_chunk rs'" "concat (map fst rs') = rest @ future"
      "length ?T + length (concat (map snd rs')) < 4294967296"
      using less.prems(2-4) i(1,2) by simp_all
    moreover have "writes (warg ?c) ?T" "\<not> w_is_error ?c" using f(2) less.prems(5) by simp_all
    ultimately obtain out' qs' rs2 rest' where
      r: "chain_write_flush_input (dzip_inflate_output_update_func al update) ?c rest
          = Some (True, rest', ?c\<lparr>warg := out'\<rparr>)"
        "writes out' (?T @ concat (map snd qs'))" "rs' = qs' @ rs2" "rest = concat (map fst qs') @ rest'"
        "future = [] \<longrightarrow> rs2 = [] \<and> rest' = []"
      using less.hyps [of rest ?c ?T rs'] by blast
    have "chain_write_flush_input (dzip_inflate_output_update_func al update) c input
        = chain_write_flush_input (dzip_inflate_output_update_func al update) ?c rest"
      using u False less.prems(5)
      by (simp add: chain_write_flush_input_def chain_write_flush_loop.simps [of _ c])
    then show ?thesis
      using r i(1,2) by (intro exI [of _ out'] exI [of _ "qs @ qs'"] exI [of _ rs2] exI [of _ rest']) simp
  qed
qed

text \<open>
  The expanding chain has been pushed \<open>S\<close> in all, the beginning of a stream of the chunks
  \<open>ps\<close>: some have been expanded, and the unwritten end of the buffer begins the others.
\<close>

definition inflate_writes :: "(bytes \<times> bytes) list \<Rightarrow> 's chain_write chain_write \<Rightarrow> bytes \<Rightarrow> bool" where
  "inflate_writes ps c S \<longleftrightarrow>
     (\<exists>qs rs. ps = qs @ rs \<and> writes (warg c) (concat (map snd qs)) \<and>
        concat (map fst qs) @ drop (written c) (contents (wbuffer c)) = S \<and>
        written c \<le> length (concat (map fst qs))) \<and>
     written c \<le> used (wbuffer c) \<and> buffer_wf (wbuffer c) \<and> \<not> w_is_error c"

definition stream_ok :: "allocator \<Rightarrow> (bytes \<times> bytes) list \<Rightarrow> bool" where
  "stream_ok al ps \<longleftrightarrow>
     list_all is_chunk ps \<and> length (concat (map snd ps)) < 4294967296 \<and> length (concat (map fst ps)) < 2 ^ 58 \<and>
     (\<forall>m < 2 ^ 63. can_alloc al m)"

lemma inflate_writes_size:
  assumes "inflate_writes ps c S"
  shows "used (wbuffer c) \<le> length S"
  using assms length_contents [of "wbuffer c"] by (fastforce simp: inflate_writes_def)

lemma inflate_writes_flush:
  assumes "inflate_writes ps c S" and "stream_ok al ps" and "concat (map fst ps) = S @ input @ future"
    and "warg c' = warg c" and "\<not> w_is_error c'"
  shows "\<exists>out qs rs rest. chain_write_flush_input (dzip_inflate_output_update_func al update) c'
        (drop (written c) (contents (wbuffer c)) @ input) = Some (True, rest, c'\<lparr>warg := out\<rparr>) \<and>
    ps = qs @ rs \<and> writes out (concat (map snd qs)) \<and> S @ input = concat (map fst qs) @ rest \<and>
    (\<exists>pre. drop (written c) (contents (wbuffer c)) @ input = pre @ rest) \<and>
    written c \<le> length (concat (map fst qs)) \<and> (future = [] \<longrightarrow> rs = [] \<and> rest = [])"
proof -
  let ?input = "drop (written c) (contents (wbuffer c)) @ input"
  obtain qs rs where i: "ps = qs @ rs" "writes (warg c) (concat (map snd qs))"
      "concat (map fst qs) @ drop (written c) (contents (wbuffer c)) = S" "written c \<le> length (concat (map fst qs))"
    using assms(1) unfolding inflate_writes_def by blast
  have ok: "list_all is_chunk rs" "length (concat (map snd qs)) + length (concat (map snd rs)) < 4294967296"
      "\<forall>m < 2 ^ 63. can_alloc al m"
    using assms(2) i(1) by (simp_all add: stream_ok_def)
  have "concat (map fst qs) @ concat (map fst rs) = concat (map fst qs) @ ?input @ future"
    using assms(3) unfolding i(1) i(3) [symmetric] by simp
  then have rs: "concat (map fst rs) = ?input @ future" by simp
  have "writes (warg c') (concat (map snd qs))" using i(2) assms(4) by simp
  from inflate_output_flush [OF this ok(1) rs ok(2,3) assms(5)] obtain out qs' rs' rest where
    f: "chain_write_flush_input (dzip_inflate_output_update_func al update) c' ?input = Some (True, rest, c'\<lparr>warg := out\<rparr>)"
      "writes out (concat (map snd qs) @ concat (map snd qs'))" "rs = qs' @ rs'"
      "?input = concat (map fst qs') @ rest" "future = [] \<longrightarrow> rs' = [] \<and> rest = []" by blast
  have "S @ input = concat (map fst qs) @ ?input" unfolding i(3) [symmetric] by simp
  then have "S @ input = concat (map fst (qs @ qs')) @ rest" using f(4) by simp
  moreover have "written c \<le> length (concat (map fst (qs @ qs')))" using i(4) by simp
  moreover have "\<exists>pre. ?input = pre @ rest" using f(4) by blast
  ultimately show ?thesis
    using f(1,2,3,5) i(1) by (intro exI [of _ out] exI [of _ "qs @ qs'"] exI [of _ rs'] exI [of _ rest]) simp
qed

lemma inflate_writes_new: "writes out [] \<Longrightarrow> inflate_writes ps (dzip_inflate_chain_output out) []"
  unfolding inflate_writes_def
  by (intro conjI exI [of _ "[]"] exI [of _ ps]) (simp_all add: dzip_inflate_chain_output_def chain_write_new_def)

lemma inflate_writes_compact:
  assumes "inflate_writes ps c S" and "length S < 2 ^ 60"
  shows "inflate_writes ps (chain_push_compact c) S"
proof -
  have "written c < size_max" using assms inflate_writes_size [OF assms(1)] by (simp add: inflate_writes_def)
  then have "contents (buffer_downshift (wbuffer c) 1 (written c)) = drop (written c) (contents (wbuffer c))"
    "buffer_wf (buffer_downshift (wbuffer c) 1 (written c))"
    using buffer_downshift_contents assms(1) unfolding inflate_writes_def by blast+
  then show ?thesis using assms(1) by (auto simp: chain_push_compact_def inflate_writes_def Let_def)
qed

lemma inflate_writes_append:
  assumes "inflate_writes ps c S" and "used (wbuffer c) + length bs < 2 ^ 59" and "\<forall>m < 2 ^ 63. can_alloc al m"
  shows "\<exists>b. buffer_append_n al (wbuffer c) bs = Some b \<and> contents b = contents (wbuffer c) @ bs \<and>
    buffer_wf b \<and> used b = used (wbuffer c) + length bs"
proof -
  have "room al (wbuffer c) (length bs + 0)"
    using assms inflate_writes_size [OF assms(1)] by (simp add: room_def inflate_writes_def)
  from buffer_append_n_contents [OF this] obtain b where
    b: "buffer_append_n al (wbuffer c) bs = Some b" "contents b = contents (wbuffer c) @ bs" "room al b 0"
    by blast
  moreover have "used b = used (wbuffer c) + length bs"
    using arg_cong [OF b(2), of length] b(3) assms(1) by (simp add: length_contents room_def inflate_writes_def)
  ultimately show ?thesis by (auto simp: room_def)
qed

lemma inflate_flush:
  assumes "inflate_writes ps c S" and "stream_ok al ps" and "concat (map fst ps) = S @ future"
  shows "\<exists>c'. chain_flush (dzip_inflate_output_update_func al update) c = Some (True, c') \<and> inflate_writes ps c' S \<and>
    (future = [] \<longrightarrow> writes (warg c') (concat (map snd ps)))"
proof -
  have e: "\<not> w_is_error c" and wf: "buffer_wf (wbuffer c)" using assms(1) by (simp_all add: inflate_writes_def)
  have "concat (map fst ps) = S @ [] @ future" using assms(3) by simp
  from inflate_writes_flush [OF assms(1,2) this refl e] obtain out qs rs rest pre where
    f: "chain_write_flush_input (dzip_inflate_output_update_func al update) c
        (drop (written c) (contents (wbuffer c)) @ []) = Some (True, rest, c\<lparr>warg := out\<rparr>)"
      "ps = qs @ rs" "writes out (concat (map snd qs))" "S @ [] = concat (map fst qs) @ rest"
      "drop (written c) (contents (wbuffer c)) @ [] = pre @ rest"
      "future = [] \<longrightarrow> rs = [] \<and> rest = []" by blast
  let ?n = "used (wbuffer c) - length rest"
  let ?c = "c\<lparr>warg := out, written := ?n\<rparr>"
  have len: "length (contents (wbuffer c)) = used (wbuffer c)" using wf by (rule length_contents)
  have ct: "contents (wbuffer c) = (take (written c) (contents (wbuffer c)) @ pre) @ rest"
    using f(5) by (metis append.assoc append.right_neutral append_take_drop_id)
  have "length (take (written c) (contents (wbuffer c)) @ pre) + length rest = used (wbuffer c)"
    unfolding length_append [symmetric] ct [symmetric] by (rule len)
  then have "length (take (written c) (contents (wbuffer c)) @ pre) = ?n" by simp
  then have dr: "drop ?n (contents (wbuffer c)) = rest" by (subst ct) (metis append_eq_conv_conj)
  have "?n \<le> length (concat (map fst qs))"
    using inflate_writes_size [OF assms(1)] arg_cong [OF f(4), of length] by simp
  then have "inflate_writes ps ?c S"
    unfolding inflate_writes_def using f(2,3,4) dr wf e
    by (intro conjI exI [of _ qs] exI [of _ rs]) simp_all
  moreover have "chain_flush (dzip_inflate_output_update_func al update) c = Some (True, ?c)"
    using f(1) by (simp add: chain_flush_def Let_def)
  moreover have "future = [] \<longrightarrow> writes (warg ?c) (concat (map snd ps))" using f(2,3,6) by auto
  ultimately show ?thesis by blast
qed

lemma inflate_push:
  assumes "inflate_writes ps c S" and "stream_ok al ps" and "concat (map fst ps) = S @ x @ future"
  shows "\<exists>c'. chain_push al (dzip_inflate_output_update_func al update) c x = Some (True, c') \<and> inflate_writes ps c' (S @ x)"
proof (cases "x = []")
  case True
  then show ?thesis using assms(1) by (simp add: chain_push_def)
next
  case False
  let ?u = "dzip_inflate_output_update_func al update"
  let ?c1 = "chain_push_compact c"
  have al: "\<forall>m < 2 ^ 63. can_alloc al m" and lt: "length (S @ x) < 2 ^ 59"
    using assms(2) arg_cong [OF assms(3), of length] by (simp_all add: stream_ok_def)
  have w: "inflate_writes ps ?c1 S" using assms(1) lt by (intro inflate_writes_compact) simp_all
  have wf: "buffer_wf (wbuffer ?c1)" "\<not> w_is_error ?c1" using w by (simp_all add: inflate_writes_def)
  have len: "length (contents (wbuffer ?c1)) = used (wbuffer ?c1)" using wf(1) by (rule length_contents)
  show ?thesis
  proof (cases "used (wbuffer ?c1) = written ?c1 \<and> length x > flush_size ?c1")
    case True
    then have dr: "drop (written ?c1) (contents (wbuffer ?c1)) = []" using len by simp
    from inflate_writes_flush [OF w assms(2,3) refl wf(2)] obtain out qs rs rest where
      f: "chain_write_flush_input ?u ?c1 x = Some (True, rest, ?c1\<lparr>warg := out\<rparr>)" "ps = qs @ rs"
        "writes out (concat (map snd qs))" "S @ x = concat (map fst qs) @ rest"
        "written ?c1 \<le> length (concat (map fst qs))"
      unfolding dr by auto
    have "used (wbuffer ?c1) + length rest \<le> length (S @ x)"
      using arg_cong [OF f(4), of length] True f(5) by simp
    then have "used (wbuffer ?c1) + length rest < 2 ^ 59" using lt by linarith
    from inflate_writes_append [OF w this al] obtain b where
      b: "buffer_append_n al (wbuffer ?c1) rest = Some b" "contents b = contents (wbuffer ?c1) @ rest" "buffer_wf b"
        "used b = used (wbuffer ?c1) + length rest" by blast
    have "drop (written ?c1) (contents b) = rest" using b(2) True len by simp
    then have "inflate_writes ps (?c1\<lparr>warg := out, wbuffer := b\<rparr>) (S @ x)"
      unfolding inflate_writes_def using f(2-5) b(3,4) True wf(2)
      by (intro conjI exI [of _ qs] exI [of _ rs]) simp_all
    then show ?thesis using False True f(1) b(1) by (simp add: chain_push_def Let_def)
  next
    case no: False
    obtain b where b: "buffer_append_n al (wbuffer ?c1) x = Some b" "contents b = contents (wbuffer ?c1) @ x"
        "buffer_wf b" "used b = used (wbuffer ?c1) + length x"
      using inflate_writes_append [OF w _ al, of x] inflate_writes_size [OF w] lt by fastforce
    let ?c2 = "?c1\<lparr>wbuffer := b\<rparr>"
    obtain qs rs where i: "ps = qs @ rs" "writes (warg ?c1) (concat (map snd qs))"
        "concat (map fst qs) @ drop (written ?c1) (contents (wbuffer ?c1)) = S" "written ?c1 \<le> length (concat (map fst qs))"
        "written ?c1 \<le> used (wbuffer ?c1)"
      using w unfolding inflate_writes_def by blast
    have "inflate_writes ps ?c2 (S @ x)"
      unfolding inflate_writes_def using i b wf(2) len
      by (intro conjI exI [of _ qs] exI [of _ rs]) (auto simp flip: i(3))
    moreover have "concat (map fst ps) = (S @ x) @ future" using assms(3) by simp
    ultimately have "\<exists>c'. chain_push_final ?u ?c2 = Some (True, c') \<and> inflate_writes ps c' (S @ x)"
      using inflate_flush [OF _ assms(2), of ?c2 "S @ x" future] by (auto simp: chain_push_final_def)
    moreover have "chain_push al ?u c x = chain_push_final ?u ?c2"
      using False no b(1) unfolding chain_push_def Let_def by auto
    ultimately show ?thesis by simp
  qed
qed

lemma inflate_push_pieces:
  assumes "inflate_writes ps c S" and "stream_ok al ps" and "concat (map fst ps) = S @ concat xs"
  shows "\<exists>c'. chain_push_pieces al (dzip_inflate_output_update_func al update) c xs = Some (True, c') \<and>
    inflate_writes ps c' (S @ concat xs)"
  using assms(1,3)
proof (induction xs arbitrary: c S)
  case Nil
  then show ?case by simp
next
  case (Cons x xs)
  have "concat (map fst ps) = S @ x @ concat xs" using Cons.prems(2) by simp
  from inflate_push [OF Cons.prems(1) assms(2) this] obtain c' where
    c: "chain_push al (dzip_inflate_output_update_func al update) c x = Some (True, c')" "inflate_writes ps c' (S @ x)"
    by blast
  have "concat (map fst ps) = (S @ x) @ concat xs" using Cons.prems(2) by simp
  from Cons.IH [OF c(2) this] show ?case using c(1) by simp
qed

lemma inflate_output:
  assumes "deflates (concat xs) d" and "length d < 4294967296" and "writes out []" and "\<forall>m < 2 ^ 63. can_alloc al m"
  shows "\<exists>c out' s. chain_push_pieces al (dzip_inflate_output_update_func al update) (dzip_inflate_chain_output out) xs
      = Some (True, c) \<and>
    chain_write_free (dzip_inflate_output_update_func al update) c = Some out' \<and>
    chain_write_free update out' = Some s \<and> received s = d"
proof -
  obtain ps where ps: "concat xs = concat (map fst ps)" "d = concat (map snd ps)" "list_all is_chunk ps"
      "length (concat xs) \<le> 19 * length d"
    using assms(1) unfolding deflates_def by blast
  have ok: "stream_ok al ps" using ps assms(2,4) by (simp add: stream_ok_def)
  obtain c where c: "chain_push_pieces al (dzip_inflate_output_update_func al update) (dzip_inflate_chain_output out) xs
      = Some (True, c)" "inflate_writes ps c (concat xs)"
    using inflate_push_pieces [OF inflate_writes_new [OF assms(3), of ps] ok, of xs] ps(1) by auto
  have "concat (map fst ps) = concat xs @ []" using ps(1) by simp
  from inflate_flush [OF c(2) ok this] obtain c' where
    f: "chain_flush (dzip_inflate_output_update_func al update) c = Some (True, c')" "writes (warg c') d"
    using ps(2) by blast
  obtain s where s: "chain_write_free update (warg c') = Some s" "received s = d"
    using free_writes [OF f(2)] by blast
  have "chain_write_free (dzip_inflate_output_update_func al update) c = Some (warg c')"
    using f(1) by (simp add: chain_write_free_def)
  with c(1) s show ?thesis by blast
qed

text \<open>One push to the compressing chain: the range is compressed at once, as nothing waits in
  the buffer, and is appended to the buffer as if nothing of it had been taken.\<close>

lemma deflate_output:
  assumes "writes out []" and "22 * length bs + 48 < 4294967296" and al: "\<forall>m < 2 ^ 63. can_alloc al m"
  shows "\<exists>c out' st s. chain_push al (dzip_deflate_output_update_func al update) (dzip_deflate_chain_output out) bs
      = Some (True, c) \<and>
    chain_write_free (dzip_deflate_output_update_func al update) c = Some (out', st) \<and>
    chain_write_free update out' = Some s \<and> deflates (received s) (bs @ bs)"
proof -
  let ?u = "dzip_deflate_output_update_func al update" and ?c = "dzip_deflate_chain_output out"
  have new: "written ?c = 0" "wbuffer ?c = buffer_zero" "flush_size ?c = 0" "\<not> w_is_error ?c" "fst (warg ?c) = out"
    by (simp_all add: dzip_deflate_chain_output_def chain_write_new_def)
  have "length ([] :: bytes) + 3 * length bs + 48 < 4294967296" using assms(2) by simp
  from deflate_output_flush [OF _ this al new(4)] obtain arg e where
    f: "chain_write_flush_input ?u ?c bs = Some (True, bs, ?c\<lparr>warg := arg\<rparr>)" "writes (fst arg) e" "deflates e bs"
    using assms(1) new(5) by fastforce
  have "room al buffer_zero (length bs + 0)" using assms(2) al buffer_wf_zero by (simp add: room_def) (simp add: buffer_zero_def)
  from buffer_append_n_contents [OF this] obtain b where
    b: "buffer_append_n al buffer_zero bs = Some b" "contents b = contents buffer_zero @ bs" by blast
  have zero: "contents buffer_zero = []" by (simp add: buffer_zero_def contents_def)
  let ?d = "?c\<lparr>warg := arg, wbuffer := b\<rparr>"
  have "length e \<le> 19 * length bs" using f(3) by (simp add: deflates_def)
  then have "length e + 3 * length bs + 48 < 4294967296" using assms(2) by simp
  moreover have "writes (fst (warg ?d)) e" "\<not> w_is_error ?d" using f(2) new(4) by simp_all
  ultimately obtain arg' e' where
    g: "chain_write_flush_input ?u ?d bs = Some (True, bs, ?d\<lparr>warg := arg'\<rparr>)" "writes (fst arg') (e @ e')" "deflates e' bs"
    using deflate_output_flush [of ?d e bs al] al by blast
  have fl: "chain_write_free ?u ?d = Some arg'"
    using g(1) b(2) new(1) zero by (simp add: chain_write_free_def chain_flush_def Let_def)
  obtain s where s: "chain_write_free update (fst arg') = Some s" "received s = e @ e'"
    using free_writes [OF g(2)] by blast
  have "chain_push_compact ?c = ?c" using new(1) by (simp add: chain_push_compact_def)
  moreover have "used buffer_zero = 0" by (simp add: buffer_zero_def)
  ultimately have p: "chain_push al ?u ?c bs = Some (True, if bs = [] then ?c else ?d)"
    using f(1) b(1) new by (simp add: chain_push_def Let_def)
  show ?thesis
  proof (cases "bs = []")
    case True
    obtain t where t: "chain_write_free update (fst arg) = Some t" "received t = e" using free_writes [OF f(2)] by blast
    have "chain_write_free ?u ?c = Some arg"
      using f(1) new(1,2) zero True by (simp add: chain_write_free_def chain_flush_def Let_def)
    moreover have "arg = (fst arg, snd arg)" "deflates (received t) (bs @ bs)" using t(2) f(3) True by simp_all
    ultimately show ?thesis using p t(1) True by (intro exI [of _ ?c] exI [of _ "fst arg"] exI [of _ "snd arg"] exI [of _ t]) simp
  next
    case False
    moreover have "arg' = (fst arg', snd arg')" "deflates (received s) (bs @ bs)"
      using s(2) deflates_append [OF f(3) g(3)] by simp_all
    ultimately show ?thesis using p fl s(1)
      by (intro exI [of _ ?d] exI [of _ "fst arg'"] exI [of _ "snd arg'"] exI [of _ s]) simp
  qed
qed

end

section \<open>Properties\<close>



text \<open>The compressing output chain compresses what is pushed twice: its update function
  never advances the range, so what a push has compressed is also kept in the buffer and is
  compressed again when the chain is freed. The descriptor receives a stream that expands
  to two copies of the range.\<close>

theorem dzip_deflate_output_duplicates:
  assumes "22 * length bs + 48 < 4294967296" and "fd_accepts fd" and "sent fd = []"
    and "\<forall>m < 2 ^ 63. can_alloc al m"
  shows "\<exists>c out st v. chain_push al (dzip_deflate_output_update_func al chain_write_fd_update_func)
      (dzip_deflate_chain_output (chain_write_open_fd fd)) bs = Some (True, c) \<and>
    chain_write_free (dzip_deflate_output_update_func al chain_write_fd_update_func) c = Some (out, st) \<and>
    chain_write_free chain_write_fd_update_func out = Some v \<and> deflates (sent v) (bs @ bs)"
  unfolding chain_write_open_fd_def
  using fd_out.deflate_output [OF fd_out.writes_new [OF assms(2,3)] assms(1,4)] .

theorem dzip_deflate_output_duplicates_witness:
  "\<exists>c out st v. chain_push \<lparr>can_alloc = (\<lambda>_. True), fill = (\<lambda>_. 0)\<rparr>
      (dzip_deflate_output_update_func \<lparr>can_alloc = (\<lambda>_. True), fill = (\<lambda>_. 0)\<rparr> chain_write_fd_update_func)
      (dzip_deflate_chain_output (chain_write_open_fd \<lparr>accept = [Some 1], sent = []\<rparr>)) (str ''abc'')
      = Some (True, c) \<and>
    chain_write_free (dzip_deflate_output_update_func \<lparr>can_alloc = (\<lambda>_. True), fill = (\<lambda>_. 0)\<rparr>
      chain_write_fd_update_func) c = Some (out, st) \<and>
    chain_write_free chain_write_fd_update_func out = Some v \<and> deflates (sent v) (str ''abcabc'')"
  using dzip_deflate_output_duplicates [of "str ''abc''" "\<lparr>accept = [Some 1], sent = []\<rparr>"
      "\<lparr>can_alloc = (\<lambda>_. True), fill = (\<lambda>_. 0)\<rparr>"]
  by (simp add: fd_accepts_def str_def)

end
