(* ===== verification/MetahashUtil.thy ===== *)
theory MetahashUtil
  imports Metahash Bases Getline
begin

text \<open>
  The programs over digests: \<open>metahash\<close> (\<open>src/metahash/metahash.util.c\<close>), which prints the
  digests of files, and \<open>metahash-analyzer\<close> (\<open>src/metahash/metahash-analyzer.util.c\<close>), which
  takes printed digests apart. The results of \<open>getopt_long\<close>, one after the other, and the
  operands it leaves are input of the model. A program that stops with \<open>abort\<close> has the result
  false.
\<close>

section \<open>metahash\<close>

datatype metahash_option =
  Opt_help | Opt_hash "bytes option" | Opt_encoding string | Opt_other

type_synonym encoder = "bytes \<Rightarrow> bytes \<Rightarrow> bytes"

record metahash_program =
  program_encoder :: encoder
  program_hashes :: "metahash_id list"

text \<open>
  The file system and the standard input, which is at its end or closed after its first use.
  \<open>None\<close> is the descriptor \<open>-1\<close>; the second component says that it is the standard input.
\<close>

definition open_name :: "(bytes \<Rightarrow> read_fd option) \<Rightarrow> read_fd \<Rightarrow> bytes \<Rightarrow> read_fd option \<times> bool" where
  "open_name files stdin path =
     (case files path of
        Some fd \<Rightarrow> (Some fd, False)
      | None \<Rightarrow> if path = str ''-'' then (Some stdin, True) else (None, False))"

text \<open>
  The result, the standard input afterwards and the line that is printed. Reading \<open>-1\<close> fails,
  and so does every read from a closed descriptor.
\<close>

definition digest_file ::
    "'c gcrypt \<Rightarrow> allocator \<Rightarrow> metahash_program \<Rightarrow> (bytes \<Rightarrow> read_fd option) \<Rightarrow> read_fd \<Rightarrow> bytes
       \<Rightarrow> (bool \<times> read_fd \<times> bytes) option" where
  "digest_file g al prog files stdin path =
     (case open_name files stdin path of
        (fd, is_stdin) \<Rightarrow>
          (case metahash_fd g al (program_hashes prog) [] (case fd of None \<Rightarrow> [None] | Some f \<Rightarrow> f) None of
             None \<Rightarrow> None
           | Some (ok, digest, in_fd', _) \<Rightarrow>
               if \<not> ok then Some (False, stdin, [])
               else Some (True, if is_stdin then [None] else stdin,
                      program_encoder prog [] digest @ str ''  '' @ path @ [10])))"

fun digest_files ::
    "'c gcrypt \<Rightarrow> allocator \<Rightarrow> metahash_program \<Rightarrow> (bytes \<Rightarrow> read_fd option) \<Rightarrow> read_fd \<Rightarrow> bytes list
       \<Rightarrow> bytes \<Rightarrow> (bool \<times> bytes) option" where
  "digest_files g al prog files stdin [] out = Some (True, out)"
| "digest_files g al prog files stdin (p # paths) out =
     (case digest_file g al prog files stdin p of
        None \<Rightarrow> None
      | Some (ok, stdin', l) \<Rightarrow>
          if ok then digest_files g al prog files stdin' paths (out @ l) else Some (False, out))"

text \<open>The loop over the options; \<open>None\<close> is \<open>abort\<close>.\<close>

fun metahash_options ::
    "metahash_option list \<Rightarrow> metahash_program \<Rightarrow> metahash_id list
       \<Rightarrow> (metahash_program \<times> metahash_id list) option" where
  "metahash_options [] prog use_hash_ids = Some (prog, use_hash_ids)"
| "metahash_options (Opt_help # opts) prog use_hash_ids = None"
| "metahash_options (Opt_hash None # opts) prog use_hash_ids = None"
| "metahash_options (Opt_hash (Some optarg) # opts) prog use_hash_ids =
     (case metahash_identify_list use_hash_ids optarg of
        (ok, ids) \<Rightarrow> if ok then metahash_options opts prog ids else None)"
| "metahash_options (Opt_encoding optarg # opts) prog use_hash_ids =
     (case metabase_select_encoder (metabase_identify_name optarg) of
        None \<Rightarrow> None
      | Some e \<Rightarrow> metahash_options opts (prog\<lparr>program_encoder := e\<rparr>) use_hash_ids)"
| "metahash_options (Opt_other # opts) prog use_hash_ids = None"

definition metahash_main ::
    "'c gcrypt \<Rightarrow> allocator \<Rightarrow> (bytes \<Rightarrow> read_fd option) \<Rightarrow> read_fd \<Rightarrow> nat \<Rightarrow> metahash_option list \<Rightarrow> bytes list
       \<Rightarrow> (bool \<times> bytes) option" where
  "metahash_main g al files stdin argc opts operands =
     (if argc = 1 then Some (False, [])
      else case metahash_options opts \<lparr>program_encoder = metabase_encode_base16, program_hashes = []\<rparr> [] of
             None \<Rightarrow> Some (False, [])
           | Some (prog, use_hash_ids) \<Rightarrow>
               (let prog' = (if program_hashes prog = []
                             then prog\<lparr>program_hashes := program_hashes prog @ [METAHASH_SHA2_256]\<rparr> else prog)
                in digest_files g al prog' files stdin operands []))"

section \<open>metahash-analyzer\<close>

text \<open>What is logged: the arguments of the formats.\<close>

datatype report = Report_input bytes | Report_digest size_t metahash_id bytes | Report_empty

lemma metahash_unwrap_shorter:
  "metahash_unwrap d True input = Some (i, dg, Some rest, v) \<Longrightarrow> length rest < length input"
  by (auto simp: metahash_unwrap_def metahash_header_read_def Let_def
      split: option.splits prod.splits if_splits dest!: vluint_read_shorter)

function analyze_loop :: "bytes \<Rightarrow> report list \<Rightarrow> bool \<times> report list" where
  "analyze_loop rest logs =
     (if rest = [] then (True, logs @ [Report_empty])
      else case metahash_unwrap True True rest of
             Some (i, Some digest, Some rest', version) \<Rightarrow>
               analyze_loop rest' (logs @ [Report_digest version i (metabase_encode_base16 [] digest)])
           | _ \<Rightarrow> (False, logs))"
  by pat_completeness auto
termination
  by (relation "measure (\<lambda>(rest, logs). length rest)") (auto dest: metahash_unwrap_shorter)

declare analyze_loop.simps [simp del]

text \<open>
  The first character of the armor is read even if it is empty; then it is the null byte or the
  white space that ends it, which is no base with a decoder.
\<close>

definition analyze_digest :: "bytes \<Rightarrow> report list \<Rightarrow> (bool \<times> report list) option" where
  "analyze_digest digest_armor logs =
     (let logs' = logs @ [Report_input digest_armor]
      in if digest_armor = [] then Some (False, logs')
         else case metabase_decode [] digest_armor of
                None \<Rightarrow> None
              | Some (ok, decode) \<Rightarrow> Some (if ok then analyze_loop decode logs' else (False, logs')))"

text \<open>
  The end of the armor in the memory that begins with it; \<open>None\<close>: the memory has neither a null
  byte nor white space.
\<close>

fun truncate_spaces :: "bytes \<Rightarrow> nat option" where
  "truncate_spaces [] = None"
| "truncate_spaces (c # cs) =
     (if c \<noteq> 0 \<and> \<not> isspace c then map_option Suc (truncate_spaces cs) else Some 0)"

text \<open>
  The loop over the arguments. What is assigned takes the length of the previous range, and is
  evaluated before the assignment; there is no previous range, and the variable is not
  initialized, when the loop begins: \<open>None\<close>.
\<close>

fun analyze_arguments :: "bytes option \<Rightarrow> bytes list \<Rightarrow> report list \<Rightarrow> (bool \<times> report list) option" where
  "analyze_arguments previous [] logs = Some (True, logs)"
| "analyze_arguments None (arg # args) logs = None"
| "analyze_arguments (Some previous) (arg # args) logs =
     (case truncate_spaces (arg @ [0]) of
        None \<Rightarrow> None
      | Some n \<Rightarrow>
          (case analyze_digest (take n arg) logs of
             None \<Rightarrow> None
           | Some (ok, logs') \<Rightarrow>
               if ok then analyze_arguments (Some arg) args logs' else Some (False, logs')))"

partial_function (option) analyze_lines ::
    "allocator \<Rightarrow> text_line \<Rightarrow> buffer \<Rightarrow> read_fd \<Rightarrow> report list \<Rightarrow> (bool \<times> report list) option" where
  "analyze_lines al line b fd logs =
     (case buffer_getline_fd al None 0 False 0 0 line b fd of
        None \<Rightarrow> None
      | Some (found, line', b', fd') \<Rightarrow>
          if \<not> found then Some (True, logs)
          else (case truncate_spaces (drop (line_begin line') (mem b')) of
                  None \<Rightarrow> None
                | Some n \<Rightarrow>
                    (case analyze_digest (take n (drop (line_begin line') (mem b'))) logs of
                       None \<Rightarrow> None
                     | Some (ok, logs') \<Rightarrow>
                         if ok then analyze_lines al line' b' fd' logs' else Some (False, logs'))))"

text \<open>The variable \<open>line\<close> is not initialized: its value before the first line is an argument.\<close>

definition analyzer_main :: "allocator \<Rightarrow> text_line \<Rightarrow> bytes list \<Rightarrow> read_fd \<Rightarrow> (bool \<times> report list) option" where
  "analyzer_main al line args stdin =
     (if args \<noteq> [] then analyze_arguments None args []
      else analyze_lines al line buffer_zero stdin [])"

section \<open>Printed digests\<close>

text \<open>The characters of an encoded text.\<close>

definition armor_char :: "byte \<Rightarrow> bool" where
  "armor_char c \<longleftrightarrow> c \<noteq> 0 \<and> \<not> isspace c"

lemma hex_digit_armor: "x < 16 \<Longrightarrow> armor_char (hex_digit x)"
proof (rule nibble_exhaust [of "\<lambda>x. armor_char (hex_digit x)"])
  show "list_all (\<lambda>x. armor_char (hex_digit x)) (map (\<lambda>n. word_of_nat n) [0..<16])"
    by (simp add: upt_rec armor_char_def hex_digit_def isspace_def byte_of_def)
qed

lemma base16_encode_armor: "list_all armor_char (base16_encode [] bs le)"
proof (induction bs)
  case (Cons c bs)
  then show ?case using nibbles [of c] by (simp del: base16_encode.simps add: base16_encode_Cons pick_def hex_digit_armor)
qed simp

lemma base2_encode_armor: "list_all armor_char (base2_encode [] bs)"
proof (induction bs)
  case (Cons c bs)
  have "list_all armor_char (base2_encode_byte c)"
    by (auto simp: base2_encode_byte_def list_all_iff armor_char_def isspace_def byte_of_def)
  with Cons show ?case by (simp add: base2_encode_out [of "base2_encode_byte c"])
qed simp

lemma encoder_armor:
  assumes "metabase_select_encoder i = Some e"
  shows "list_all armor_char (e [] bs) \<and> e [] bs \<noteq> [] \<and> metabase_decode [] (e [] bs) = Some (True, bs)"
  using assms metabase_decode_base16_encode [of "[]" bs] metabase_decode_base2_encode [of "[]" bs]
    base16_encode_armor base2_encode_armor
  by (auto simp: select_encoder_Some metabase_encode_base16_def metabase_encode_base2_def metabase_code_def
      metabase_table_def base16_encode_out [of "[_]"] base2_encode_out [of "[_]"]
      armor_char_def isspace_def byte_of_def)

text \<open>Headers and digests, one after the other, and what the analyzer says of them.\<close>

definition digests_text :: "(metahash_id \<times> bytes) list \<Rightarrow> bytes" where
  "digests_text ds = concat (map (\<lambda>(i, d). metahash_header_write [] i @ d) ds)"

definition digests_ok :: "(metahash_id \<times> bytes) list \<Rightarrow> bool" where
  "digests_ok ds \<longleftrightarrow> list_all (\<lambda>(i, d). i \<noteq> METAHASH_IDENTITY \<and> length d = metahash_size i) ds"

definition digest_reports :: "(metahash_id \<times> bytes) list \<Rightarrow> report list" where
  "digest_reports ds =
     map (\<lambda>(i, d). Report_digest METAHASH_VERSION i (metabase_encode_base16 [] d)) ds @ [Report_empty]"

lemma analyze_loop_digests:
  "digests_ok ds \<Longrightarrow> analyze_loop (digests_text ds) logs = (True, logs @ digest_reports ds)"
proof (induction ds arbitrary: logs)
  case Nil
  then show ?case by (simp add: digests_text_def digest_reports_def analyze_loop.simps)
next
  case (Cons x ds)
  obtain i d where x: "x = (i, d)" by (cases x)
  have i: "i \<noteq> METAHASH_IDENTITY" "length d = metahash_size i" and ok: "digests_ok ds"
    using Cons.prems by (simp_all add: digests_ok_def x)
  have tx: "digests_text (x # ds) = metahash_header_write [] i @ d @ digests_text ds"
    by (simp add: digests_text_def x)
  have "metahash_unwrap True True (digests_text (x # ds)) = Some (i, Some d, Some (digests_text ds), METAHASH_VERSION)"
    unfolding tx metahash_unwrap_def metahash_header_read_write [OF i(1)] using i(2) by (simp add: Let_def)
  moreover from this have "digests_text (x # ds) \<noteq> []" by (auto dest: metahash_unwrap_shorter)
  ultimately show ?case
    using Cons.IH [OF ok] by (subst analyze_loop.simps) (simp add: digest_reports_def x)
qed

lemma truncate_spaces_armor:
  "list_all armor_char s \<Longrightarrow> c = 0 \<or> isspace c \<Longrightarrow> truncate_spaces (s @ c # r) = Some (length s)"
  by (induction s) (auto simp: armor_char_def)

text \<open>
  Lines with digests: what is encoded, the encoding, and what follows, which begins with a space
  or is empty.
\<close>

definition digest_line :: "encoder \<Rightarrow> (metahash_id \<times> bytes) list \<times> bytes \<Rightarrow> bytes" where
  "digest_line e l = e [] (digests_text (fst l)) @ snd l"

definition digest_line_ok :: "(metahash_id \<times> bytes) list \<times> bytes \<Rightarrow> bool" where
  "digest_line_ok l \<longleftrightarrow> digests_ok (fst l) \<and> 0 \<notin> set (snd l) \<and> 10 \<notin> set (snd l) \<and> (snd l \<noteq> [] \<longrightarrow> isspace (hd (snd l)))"

definition line_reports :: "encoder \<Rightarrow> (metahash_id \<times> bytes) list \<times> bytes \<Rightarrow> report list" where
  "line_reports e l = Report_input (e [] (digests_text (fst l))) # digest_reports (fst l)"

definition digest_lines :: "encoder \<Rightarrow> ((metahash_id \<times> bytes) list \<times> bytes) list \<Rightarrow> bytes" where
  "digest_lines e ls = concat (map (\<lambda>l. digest_line e l @ [10]) ls)"

lemma armor_char_not: "list_all armor_char s \<Longrightarrow> 0 \<notin> set s \<and> 10 \<notin> set s"
  by (auto simp: list_all_iff armor_char_def isspace_def)

lemma digest_line_chars:
  assumes "metabase_select_encoder i = Some e" and "digest_line_ok l"
  shows "0 \<notin> set (digest_line e l)" and "10 \<notin> set (digest_line e l)"
  using encoder_armor [OF assms(1)] armor_char_not assms(2)
  by (auto simp: digest_line_def digest_line_ok_def)

lemma digest_lines_Cons:
  assumes "metabase_select_encoder i = Some e" and "digest_line_ok l"
  shows "first_line (digest_lines e (l # ls)) = digest_line e l"
    and "after_line (digest_lines e (l # ls)) = digest_lines e ls"
proof -
  have nl: "10 \<notin> set (digest_line e l)" by (rule digest_line_chars [OF assms])
  then have f: "takeWhile (\<lambda>x. x \<noteq> 10) (digest_line e l) = digest_line e l"
      "dropWhile (\<lambda>x. x \<noteq> 10) (digest_line e l) = []"
    by (auto simp: takeWhile_eq_all_conv dropWhile_eq_Nil_conv)
  show "first_line (digest_lines e (l # ls)) = digest_line e l"
    using f by (simp add: digest_lines_def first_line_def takeWhile_append)
  show "after_line (digest_lines e (l # ls)) = digest_lines e ls"
    using f by (simp add: digest_lines_def after_line_def dropWhile_append)
qed

lemma analyze_digest_line:
  assumes "metabase_select_encoder i = Some e" and "digest_line_ok l" and "c = 0 \<or> isspace c"
  obtains n where "truncate_spaces (digest_line e l @ c # r) = Some n"
    and "analyze_digest (take n (digest_line e l @ c # r)) logs = Some (True, logs @ line_reports e l)"
proof -
  let ?a = "e [] (digests_text (fst l))"
  note a = encoder_armor [OF assms(1), of "digests_text (fst l)"]
  obtain c' r' where r': "digest_line e l @ c # r = ?a @ c' # r'" "c' = 0 \<or> isspace c'"
    using assms(2,3) by (cases "snd l") (auto simp: digest_line_def digest_line_ok_def)
  have "truncate_spaces (digest_line e l @ c # r) = Some (length ?a)"
    unfolding r'(1) using a r'(2) by (intro truncate_spaces_armor) auto
  moreover have "digests_ok (fst l)" using assms(2) by (simp add: digest_line_ok_def)
  then have "analyze_digest (take (length ?a) (digest_line e l @ c # r)) logs = Some (True, logs @ line_reports e l)"
    unfolding r'(1) using a analyze_loop_digests
    by (simp add: analyze_digest_def Let_def line_reports_def)
  ultimately show ?thesis by (rule that)
qed

text \<open>What reading the next line leaves in the memory: the line, and a character that ends it.\<close>

lemma getline_digest_line:
  assumes "metabase_select_encoder i = Some e" and "digest_line_ok l"
    and "lines_left al line b fd (digest_lines e (l # ls))"
  obtains line' b' fd' c r where
    "buffer_getline_fd al None 0 False 0 0 line b fd = Some (True, line', b', fd')"
    and "lines_left al line' b' fd' (digest_lines e ls)"
    and "drop (line_begin line') (mem b') = digest_line e l @ c # r" and "c = 0 \<or> isspace c"
proof -
  note ln = digest_lines_Cons [OF assms(1,2), of ls]
  from buffer_getline_fd_delivers [OF assms(3)] obtain found line' b' fd' where
    g: "buffer_getline_fd al None 0 False 0 0 line b fd = Some (found, line', b', fd')"
      "delivers al (digest_lines e (l # ls)) (found, line', b', fd')"
    by (metis prod_cases4)
  have "digest_lines e (l # ls) \<noteq> []" by (simp add: digest_lines_def)
  with g(2) obtain k where
    d: "found" "lines_left al line' b' fd' (digest_lines e ls)" "line_end line' = Some k" "line_begin line' \<le> k"
      "k \<le> used b'" "terminated b'" "take (k - line_begin line') (drop (line_begin line') (contents b')) = digest_line e l"
    by (auto simp: delivers_def ln)
  have lt: "k < length (mem b')" using d(5,6) by (simp add: terminated_def)
  have g': "buffer_getline_fd al None 0 False 0 0 line b fd = Some (True, line', b', fd')" using g(1) d(1) by simp
  from getline_separator [OF this d(3)] have "mem b' ! k = 0 \<or> mem b' ! k = 10"
    using d(6) by (auto simp: terminated_def)
  then have c: "mem b' ! k = 0 \<or> isspace (mem b' ! k)" by (auto simp: isspace_def)
  have tk: "take (k - line_begin line') (drop (line_begin line') (mem b')) = digest_line e l"
    using d(7) d(5) unfolding contents_def drop_take by simp
  let ?s = "drop (line_begin line') (mem b')" and ?i = "k - line_begin line'"
  have "?s = take ?i ?s @ ?s ! ?i # drop (Suc ?i) ?s" by (rule id_take_nth_drop) (use d(4) lt in simp)
  also have "\<dots> = digest_line e l @ mem b' ! k # drop (Suc k) (mem b')" unfolding tk using d(4) lt by simp
  finally have m: "?s = digest_line e l @ mem b' ! k # drop (Suc k) (mem b')" .
  show ?thesis by (rule that [OF g' d(2) m c])
qed

lemma analyze_lines_reports:
  assumes "metabase_select_encoder i = Some e"
  shows "list_all digest_line_ok ls \<Longrightarrow> lines_left al line b fd (digest_lines e ls) \<Longrightarrow>
    analyze_lines al line b fd logs = Some (True, logs @ concat (map (line_reports e) ls))"
proof (induction ls arbitrary: line b fd logs)
  case Nil
  then have "lines_left al line b fd []" by (simp add: digest_lines_def)
  from buffer_getline_fd_delivers [OF this] show ?case
    by (subst analyze_lines.simps) (auto simp: delivers_def)
next
  case (Cons l ls)
  then have ok: "digest_line_ok l" by simp
  obtain line' b' fd' c r where
    d: "buffer_getline_fd al None 0 False 0 0 line b fd = Some (True, line', b', fd')"
      "lines_left al line' b' fd' (digest_lines e ls)"
      "drop (line_begin line') (mem b') = digest_line e l @ c # r" "c = 0 \<or> isspace c"
    by (rule getline_digest_line [OF assms ok Cons.prems(2)])
  obtain n where n: "truncate_spaces (drop (line_begin line') (mem b')) = Some n"
      "analyze_digest (take n (drop (line_begin line') (mem b'))) logs = Some (True, logs @ line_reports e l)"
    unfolding d(3) by (rule analyze_digest_line [OF assms ok d(4)])
  have "analyze_lines al line b fd logs = analyze_lines al line' b' fd' (logs @ line_reports e l)"
    using d(1) n by (subst analyze_lines.simps) simp
  then show ?case using Cons.IH [OF _ d(2)] Cons.prems(1) by simp
qed

section \<open>Digests of files\<close>

lemma metahash_fd_no_output:
  assumes "gcrypt_ok g R H" and "list_all implemented ids" and "fd_clean in_fd"
    and "length (fd_data in_fd) < 2 ^ 58" and "\<forall>m < 2 ^ 63. can_alloc al m"
  shows "\<exists>in_fd' out_fd'. metahash_fd g al ids out in_fd None =
    Some (True, out @ concat (map (\<lambda>i. H (the (convert_metahash_id_to_gcry_id i)) (fd_data in_fd)) ids), in_fd', out_fd')"
proof -
  obtain c0 where c0: "md_open g = Some c0" "R c0 {} []" using assms(1) unfolding gcrypt_ok_def by blast
  let ?S = "(the \<circ> convert_metahash_id_to_gcry_id) ` set ids"
  obtain c where c: "enable_hashes g c0 ids = Some c" "R c ?S []"
    using enable_hashes_ok [OF assms(1,2) c0(2)] by auto
  have room: "io_room al buffer_zero (length (fd_data in_fd)) 0"
    using assms(4,5) by (simp add: io_room_def) (simp add: buffer_zero_def)
  from metahash_fd_loop_ok [OF assms(1) c(2) room contents_zero assms(3), of None] obtain c' in_fd' out_fd' where
    l: "metahash_fd_loop g al c buffer_zero in_fd None = Some (True, c', in_fd', out_fd')"
      "R c' ?S (fd_data in_fd)" by auto
  show ?thesis
    using c0(1) c(1) l(1) final_context_ok [OF assms(1) l(2) assms(2) order_refl, of out]
    by (simp add: metahash_fd_def init_context_def)
qed

definition file_ok :: "(bytes \<Rightarrow> read_fd option) \<Rightarrow> bytes \<Rightarrow> bool" where
  "file_ok files p \<longleftrightarrow> (\<exists>fd. files p = Some fd \<and> fd_clean fd \<and> length (fd_data fd) < 2 ^ 58)"

definition file_data :: "(bytes \<Rightarrow> read_fd option) \<Rightarrow> bytes \<Rightarrow> bytes" where
  "file_data files p = fd_data (the (files p))"

text \<open>The line for a file, with the digest of one hash function.\<close>

definition digest_report_line :: "encoder \<Rightarrow> (bytes \<Rightarrow> bytes) \<Rightarrow> (bytes \<Rightarrow> read_fd option) \<Rightarrow> bytes \<Rightarrow> bytes" where
  "digest_report_line e h files p = e [] (h (file_data files p)) @ str ''  '' @ p @ [10]"

lemma digest_files_lines:
  assumes "gcrypt_ok g R H" and "\<forall>m < 2 ^ 63. can_alloc al m"
    and "program_hashes prog = [METAHASH_SHA2_256]"
  shows "list_all (file_ok files) paths \<Longrightarrow> digest_files g al prog files stdin paths out =
    Some (True, out @ concat (map (digest_report_line (program_encoder prog) (H GCRY_MD_SHA256) files) paths))"
proof (induction paths arbitrary: out)
  case (Cons p paths)
  then obtain fd where fd: "files p = Some fd" "fd_clean fd" "length (fd_data fd) < 2 ^ 58"
    by (auto simp: file_ok_def)
  have "list_all implemented [METAHASH_SHA2_256]" by (simp add: implemented_def)
  from metahash_fd_no_output [OF assms(1) this fd(2,3) assms(2), of "[]"] fd(1)
  have "digest_file g al prog files stdin p =
      Some (True, stdin, digest_report_line (program_encoder prog) (H GCRY_MD_SHA256) files p)"
    by (auto simp: digest_file_def open_name_def assms(3) digest_report_line_def file_data_def)
  then show ?case using Cons by simp
qed simp

lemma metahash_options_hashes:
  "metahash_options opts prog ids = Some (prog', ids') \<Longrightarrow> program_hashes prog' = program_hashes prog"
  by (induction opts prog ids rule: metahash_options.induct) (auto split: prod.splits if_splits option.splits)

text \<open>The last encoding that is asked for.\<close>

definition chosen_encoder :: "metahash_option list \<Rightarrow> encoder" where
  "chosen_encoder opts = fold (\<lambda>opt e. case opt of
       Opt_encoding n \<Rightarrow> the (metabase_select_encoder (metabase_identify_name n)) | _ \<Rightarrow> e) opts metabase_encode_base16"

lemma metahash_options_encoder:
  "metahash_options opts prog ids = Some (prog', ids') \<Longrightarrow>
     program_encoder prog' = fold (\<lambda>opt e. case opt of
       Opt_encoding n \<Rightarrow> the (metabase_select_encoder (metabase_identify_name n)) | _ \<Rightarrow> e) opts (program_encoder prog)"
  by (induction opts prog ids rule: metahash_options.induct) (auto split: prod.splits if_splits option.splits)

section \<open>Properties\<close>

text \<open>C25: \<open>metahash\<close> prints, for every file that is named, the SHA2-256 digest of its contents in
  the last chosen encoding and the name. It does so whatever valid hash functions are asked for with
  \<open>--hash\<close>: the list that is read is not the list that is used.\<close>

theorem metahash_main_digests:
  assumes "gcrypt_ok g R H" and "\<forall>m < 2 ^ 63. can_alloc al m"
    and "argc \<noteq> 1" and "metahash_options opts \<lparr>program_encoder = metabase_encode_base16, program_hashes = []\<rparr> [] \<noteq> None"
    and "list_all (file_ok files) operands"
  shows "metahash_main g al files stdin argc opts operands =
    Some (True, concat (map (digest_report_line (chosen_encoder opts) (H GCRY_MD_SHA256) files) operands))"
proof -
  obtain prog ids where o: "metahash_options opts \<lparr>program_encoder = metabase_encode_base16, program_hashes = []\<rparr> []
      = Some (prog, ids)" using assms(4) by auto
  have h: "program_hashes prog = []" "program_encoder prog = chosen_encoder opts"
    using metahash_options_hashes [OF o] metahash_options_encoder [OF o] by (simp_all add: chosen_encoder_def)
  then show ?thesis
    using digest_files_lines [OF assms(1,2), of "prog\<lparr>program_hashes := [METAHASH_SHA2_256]\<rparr>"] assms(3,5) o
    by (simp add: metahash_main_def Let_def)
qed

theorem metahash_main_digests_witness:
  "metahash_main
      \<lparr>md_open = Some [], md_enable = (\<lambda>c a. Some c), md_write = (@),
       md_read = (\<lambda>c a. [if a = GCRY_MD_SHA256 then 5 else 2, fold (+) c 0]), algo_dlen = (\<lambda>a. 2)\<rparr>
      plain_alloc [str ''a'' \<mapsto> [Some [1, 2], Some [3]]] [] 4
      [Opt_hash (Some (str ''md5,sha512'')), Opt_encoding ''base2''] [str ''a''] =
    Some (True, concat (map (digest_report_line (chosen_encoder
        [Opt_hash (Some (str ''md5,sha512'')), Opt_encoding ''base2''])
      ((\<lambda>a m. [if a = GCRY_MD_SHA256 then 5 else 2, fold (+) m 0]) GCRY_MD_SHA256)
      [str ''a'' \<mapsto> [Some [1, 2], Some [3]]]) [str ''a'']))"
  by (rule metahash_main_digests [where R = "\<lambda>c S m. c = m"])
    (simp_all add: gcrypt_ok_def file_ok_def str_def byte_of_def metahash_identify_list_def metahash_identify_name_def
      Let_def metabase_select_encoder_def metabase_identify_name_def)

text \<open>C26: \<open>metahash-analyzer\<close> takes apart what the header writer and an encoder put together: from a
  text of lines, each an encoding of headers and digests and then nothing or white space and
  anything, it reports for every line the encoded text and the version, hash function and digest of every
  part, and it ends without an error.\<close>

theorem analyzer_main_reports:
  assumes "metabase_select_encoder i = Some e" and "list_all digest_line_ok ls"
    and "fd_clean stdin" and "fd_data stdin = digest_lines e ls" and "length (fd_data stdin) < 2 ^ 31"
    and "\<forall>m < 2 ^ 63. can_alloc al m"
  shows "analyzer_main al line [] stdin = Some (True, concat (map (line_reports e) ls))"
proof -
  have "0 \<notin> set (digest_lines e ls)"
    using assms(2) digest_line_chars(1) [OF assms(1)] by (auto simp: digest_lines_def list_all_iff)
  then have "lines_left al line buffer_zero stdin (digest_lines e ls)"
    using lines_left_start [OF assms(3) _ assms(5,6), of line] assms(4) by simp
  from analyze_lines_reports [OF assms(1,2) this] show ?thesis by (simp add: analyzer_main_def)
qed

theorem analyzer_main_reports_witness:
  "analyzer_main plain_alloc text_line_zero []
      [Some (digest_lines metabase_encode_base16 [([(METAHASH_MURMUR3_32, [1, 2, 3, 4])], str '' file''), ([], [])])] =
    Some (True, concat (map (line_reports metabase_encode_base16)
      [([(METAHASH_MURMUR3_32, [1, 2, 3, 4])], str '' file''), ([], [])]))"
  by (rule analyzer_main_reports [where i = METABASE_BASE16])
    (simp_all add: metabase_select_encoder_def digest_line_ok_def digests_ok_def str_def byte_of_def isspace_def
      digest_lines_def digest_line_def digests_text_def metabase_encode_base16_def metahash_header_write_def
      METAHASH_VERSION_def vluint_write.simps Let_def)

text \<open>With arguments the analyzer reads a variable that is not initialized.\<close>

lemma analyzer_main_arguments: "args \<noteq> [] \<Longrightarrow> analyzer_main al line args stdin = None"
  by (cases args) (simp_all add: analyzer_main_def)

end
