(* ===== verification/Gltf.thy ===== *)
theory Gltf
  imports Json DzipFormat
begin

text \<open>
  The reader of binary glTF files (\<open>src/backburner/gltf/gltf.c\<close>, \<open>gltf.h\<close>): the table of
  contents of a GLB file, and the buffers, views and accessors that its JSON text describes. A
  pointer to an element of one of the arrays is the index of the element, \<open>None\<close> the null
  pointer. What is \<open>Fault\<close> is undefined: a null pointer that is dereferenced, a division by
  zero, or a number that is converted to a type that it does not fit.
\<close>

section \<open>The table of contents\<close>

definition GLB_MAGIC :: nat where
  "GLB_MAGIC = 0x46546C67"

definition GLB_CHUNKTYPE_JSON :: nat where
  "GLB_CHUNKTYPE_JSON = 0x4E4F534A"

definition GLB_CHUNKTYPE_BIN :: nat where
  "GLB_CHUNKTYPE_BIN = 0x004E4942"

text \<open>The three pointers are offsets from the start of the file.\<close>

record glb_toc =
  toc_header :: nat
  toc_json :: nat
  toc_bin :: nat

definition sizeof_glb_header :: nat where
  "sizeof_glb_header = 12"

definition sizeof_glb_chunk_header :: nat where
  "sizeof_glb_chunk_header = 8"

text \<open>The members of the headers; a read past the end of the memory is a fault.\<close>

definition glb_u32 :: "bytes \<Rightarrow> nat \<Rightarrow> (unit, nat) outcome" where
  "glb_u32 m pos = (if pos + 4 \<le> length m then Done (le32 (drop pos m)) else Fault)"

definition glb_header_magic :: "bytes \<Rightarrow> nat \<Rightarrow> (unit, nat) outcome" where
  "glb_header_magic m header = glb_u32 m header"

definition glb_header_version :: "bytes \<Rightarrow> nat \<Rightarrow> (unit, nat) outcome" where
  "glb_header_version m header = glb_u32 m (header + 4)"

definition chunk_length :: "bytes \<Rightarrow> nat \<Rightarrow> (unit, nat) outcome" where
  "chunk_length m chunk = glb_u32 m chunk"

definition chunk_type :: "bytes \<Rightarrow> nat \<Rightarrow> (unit, nat) outcome" where
  "chunk_type m chunk = glb_u32 m (chunk + 4)"

fun and_then :: "('e, 'a) outcome \<Rightarrow> ('a \<Rightarrow> ('e, 'b) outcome) \<Rightarrow> ('e, 'b) outcome" where
  "and_then Fault f = Fault"
| "and_then Loop f = Loop"
| "and_then (Fail e) f = Fail e"
| "and_then (Done a) f = f a"

text \<open>\<open>Fail\<close> is the result false.\<close>

definition glb_toc_load_memory :: "bytes \<Rightarrow> (unit, glb_toc) outcome" where
  "glb_toc_load_memory m =
     (let header = 0; json = header + sizeof_glb_header
      in if length m < json + sizeof_glb_chunk_header then Fail ()
         else and_then (glb_header_magic m header) (\<lambda>magic.
           if magic \<noteq> GLB_MAGIC then Fail ()
           else and_then (chunk_type m json) (\<lambda>type.
             if type \<noteq> GLB_CHUNKTYPE_JSON then Fail ()
             else and_then (chunk_length m json) (\<lambda>json_length.
               let bin = json + json_length + sizeof_glb_chunk_header
               in if length m < bin + sizeof_glb_chunk_header then Fail ()
                  else and_then (chunk_type m bin) (\<lambda>type.
                    if type \<noteq> GLB_CHUNKTYPE_BIN then Fail ()
                    else and_then (chunk_length m bin) (\<lambda>bin_length.
                      if length m < bin + bin_length then Fail ()
                      else Done \<lparr>toc_header = header, toc_json = json, toc_bin = bin\<rparr>))))))"

text \<open>The data behind a chunk header.\<close>

definition chunk_data :: "bytes \<Rightarrow> nat \<Rightarrow> (unit, bytes) outcome" where
  "chunk_data m chunk =
     and_then (chunk_length m chunk) (\<lambda>n.
       let start = chunk + sizeof_glb_chunk_header
       in if start + n \<le> length m then Done (take n (drop start m)) else Fault)"

section \<open>Conversions\<close>

text \<open>
  The double that are written in the code, and the conversions to \<open>size_t\<close> and to an
  enumeration; \<open>None\<close> is a value that does not fit.
\<close>

record 'd double =
  double_0 :: 'd
  double_1 :: 'd
  to_size_t :: "'d \<Rightarrow> size_t option"
  to_enum :: "'d \<Rightarrow> 32 word option"

definition convert :: "('d \<Rightarrow> 'w option) \<Rightarrow> 'd \<Rightarrow> (unit, 'w) outcome" where
  "convert f d = (case f d of None \<Rightarrow> Fault | Some w \<Rightarrow> Done w)"

text \<open>\<open>json_get_number\<close> with the conversion at its call, and what is left in \<open>*success\<close>.\<close>

definition get_size ::
    "'d double \<Rightarrow> 'd json_value table \<Rightarrow> bytes \<Rightarrow> bool \<Rightarrow> 'd \<Rightarrow> bool \<Rightarrow> (unit, size_t \<times> bool) outcome" where
  "get_size D parent key optional default_value success =
     and_then (json_get_number (double_0 D) parent key optional default_value success)
       (\<lambda>(d, success'). and_then (convert (to_size_t D) d) (\<lambda>n. Done (n, success')))"

definition get_enum ::
    "'d double \<Rightarrow> 'd json_value table \<Rightarrow> bytes \<Rightarrow> bool \<Rightarrow> (unit, 32 word \<times> bool) outcome" where
  "get_enum D parent key success =
     and_then (json_get_number (double_0 D) parent key False (double_0 D) success)
       (\<lambda>(d, success'). and_then (convert (to_enum D) d) (\<lambda>n. Done (n, success')))"

section \<open>The data\<close>

text \<open>Two of the constants of the first enumeration are equal.\<close>

type_synonym gltf_accessor_type = "32 word"

definition GLTF_ACCESSOR_BADTYPE :: gltf_accessor_type where "GLTF_ACCESSOR_BADTYPE = 0"
definition GLTF_ACCESSOR_SCALAR :: gltf_accessor_type where "GLTF_ACCESSOR_SCALAR = 1"
definition GLTF_ACCESSOR_VEC2 :: gltf_accessor_type where "GLTF_ACCESSOR_VEC2 = 2"
definition GLTF_ACCESSOR_VEC3 :: gltf_accessor_type where "GLTF_ACCESSOR_VEC3 = 3"
definition GLTF_ACCESSOR_VEC4 :: gltf_accessor_type where "GLTF_ACCESSOR_VEC4 = 4"
definition GLTF_ACCESSOR_MAT2 :: gltf_accessor_type where "GLTF_ACCESSOR_MAT2 = 4"
definition GLTF_ACCESSOR_MAT3 :: gltf_accessor_type where "GLTF_ACCESSOR_MAT3 = 9"
definition GLTF_ACCESSOR_MAT4 :: gltf_accessor_type where "GLTF_ACCESSOR_MAT4 = 16"

lemmas accessor_types =
  GLTF_ACCESSOR_BADTYPE_def GLTF_ACCESSOR_SCALAR_def GLTF_ACCESSOR_VEC2_def GLTF_ACCESSOR_VEC3_def
  GLTF_ACCESSOR_VEC4_def GLTF_ACCESSOR_MAT2_def GLTF_ACCESSOR_MAT3_def GLTF_ACCESSOR_MAT4_def

type_synonym gltf_component_type = "32 word"

definition GLTF_COMPONENT_BADTYPE :: gltf_component_type where "GLTF_COMPONENT_BADTYPE = 0"
definition GLTF_COMPONENT_BYTE :: gltf_component_type where "GLTF_COMPONENT_BYTE = 5120"
definition GLTF_COMPONENT_UNSIGNED_BYTE :: gltf_component_type where "GLTF_COMPONENT_UNSIGNED_BYTE = 5121"
definition GLTF_COMPONENT_SHORT :: gltf_component_type where "GLTF_COMPONENT_SHORT = 5122"
definition GLTF_COMPONENT_UNSIGNED_SHORT :: gltf_component_type where "GLTF_COMPONENT_UNSIGNED_SHORT = 5123"
definition GLTF_COMPONENT_UNSIGNED_INT :: gltf_component_type where "GLTF_COMPONENT_UNSIGNED_INT = 5125"
definition GLTF_COMPONENT_FLOAT :: gltf_component_type where "GLTF_COMPONENT_FLOAT = 5126"

lemmas component_types =
  GLTF_COMPONENT_BADTYPE_def GLTF_COMPONENT_BYTE_def GLTF_COMPONENT_UNSIGNED_BYTE_def GLTF_COMPONENT_SHORT_def
  GLTF_COMPONENT_UNSIGNED_SHORT_def GLTF_COMPONENT_UNSIGNED_INT_def GLTF_COMPONENT_FLOAT_def

text \<open>The member \<open>data\<close> of a buffer is always null.\<close>

record gltf_buffer =
  buffer_uri :: "bytes option"
  buffer_byte_length :: size_t

record gltf_buffer_view =
  view_buffer :: "nat option"
  view_byte_length :: size_t
  view_byte_offset :: size_t
  view_byte_stride :: size_t

record gltf_asset =
  asset_generator :: "bytes option"
  asset_version :: "bytes option"

record gltf_sparse =
  sparse_present :: bool
  sparse_count :: size_t
  sparse_indices_buffer_view :: "nat option"
  sparse_indices_byte_offset :: size_t
  sparse_indices_component_type :: gltf_component_type
  sparse_values_buffer_view :: "nat option"
  sparse_values_byte_offset :: size_t

record gltf_accessor =
  accessor_type :: gltf_accessor_type
  accessor_component_type :: gltf_component_type
  accessor_buffer_view :: "nat option"
  accessor_byte_offset :: size_t
  accessor_count :: size_t
  accessor_sparse :: gltf_sparse

text \<open>The reader fills nothing else of a primitive, and no members of materials.\<close>

record gltf_mesh_primitive_target =
  target_position :: "nat option"
  target_normal :: "nat option"
  target_tangent :: "nat option"

record gltf_mesh_primitive =
  primitive_targets :: "gltf_mesh_primitive_target list"
  primitive_indices :: "nat option"
  primitive_material :: "nat option"

record gltf_mesh =
  mesh_primitives :: "gltf_mesh_primitive list"

record gltf =
  gltf_asset :: gltf_asset
  gltf_buffers :: "gltf_buffer list"
  gltf_buffer_views :: "gltf_buffer_view list"
  gltf_accessors :: "gltf_accessor list"
  gltf_materials :: "bytes option list"
  gltf_meshes :: "gltf_mesh list"

text \<open>What \<open>memset\<close> and \<open>calloc\<close> leave.\<close>

definition zero_buffer :: gltf_buffer where
  "zero_buffer = \<lparr>buffer_uri = None, buffer_byte_length = 0\<rparr>"

definition zero_buffer_view :: gltf_buffer_view where
  "zero_buffer_view = \<lparr>view_buffer = None, view_byte_length = 0, view_byte_offset = 0, view_byte_stride = 0\<rparr>"

definition zero_sparse :: gltf_sparse where
  "zero_sparse = \<lparr>sparse_present = False, sparse_count = 0, sparse_indices_buffer_view = None,
     sparse_indices_byte_offset = 0, sparse_indices_component_type = 0, sparse_values_buffer_view = None,
     sparse_values_byte_offset = 0\<rparr>"

definition zero_accessor :: gltf_accessor where
  "zero_accessor = \<lparr>accessor_type = 0, accessor_component_type = 0, accessor_buffer_view = None,
     accessor_byte_offset = 0, accessor_count = 0, accessor_sparse = zero_sparse\<rparr>"

definition zero_target :: gltf_mesh_primitive_target where
  "zero_target = \<lparr>target_position = None, target_normal = None, target_tangent = None\<rparr>"

definition zero_primitive :: gltf_mesh_primitive where
  "zero_primitive = \<lparr>primitive_targets = [], primitive_indices = None, primitive_material = None\<rparr>"

definition zero_mesh :: gltf_mesh where
  "zero_mesh = \<lparr>mesh_primitives = []\<rparr>"

definition zero_gltf :: gltf where
  "zero_gltf = \<lparr>gltf_asset = \<lparr>asset_generator = None, asset_version = None\<rparr>, gltf_buffers = [],
     gltf_buffer_views = [], gltf_accessors = [], gltf_materials = [], gltf_meshes = []\<rparr>"

section \<open>Helpers\<close>

text \<open>
  \<open>_reference_array\<close> with the number of elements of the array. What \<open>json_get_number\<close> leaves in
  \<open>success\<close> is not looked at.
\<close>

definition reference_array ::
    "'d double \<Rightarrow> nat \<Rightarrow> 'd json_value table \<Rightarrow> bytes \<Rightarrow> (unit, nat option) outcome" where
  "reference_array D n parent key =
     and_then (get_size D parent key False (double_0 D) True)
       (\<lambda>(index, success). Done (if unat index \<ge> n then None else Some (unat index)))"

text \<open>
  \<open>_read_array\<close>: the array that is filled is a part of the document, where \<open>put\<close> stores it, so
  that the function for the elements sees it.
\<close>

fun gltf_read_array_loop ::
    "('a list \<Rightarrow> gltf \<Rightarrow> gltf) \<Rightarrow> ('a \<Rightarrow> gltf \<Rightarrow> 'd json_value table \<Rightarrow> (unit, bool \<times> 'a) outcome)
       \<Rightarrow> nat \<Rightarrow> 'd json_value list \<Rightarrow> 'a list \<Rightarrow> gltf \<Rightarrow> (unit, bool \<times> 'a list \<times> gltf) outcome" where
  "gltf_read_array_loop put f i [] out g = Done (True, out, g)"
| "gltf_read_array_loop put f i (json_object obj # vs) out g =
     and_then (f (out ! i) g obj) (\<lambda>(ok, x).
       let out' = out[i := x]; g' = put out' g
       in if ok then gltf_read_array_loop put f (Suc i) vs out' g' else Done (False, out', g'))"
| "gltf_read_array_loop put f i (v # vs) out g = Done (False, out, g)"

definition gltf_read_array ::
    "('a list \<Rightarrow> gltf \<Rightarrow> gltf) \<Rightarrow> 'a \<Rightarrow> ('a \<Rightarrow> gltf \<Rightarrow> 'd json_value table \<Rightarrow> (unit, bool \<times> 'a) outcome)
       \<Rightarrow> 'd json_value list option \<Rightarrow> gltf \<Rightarrow> (unit, bool \<times> 'a list \<times> gltf) outcome" where
  "gltf_read_array put zero f input g =
     (case input of
        None \<Rightarrow> Done (False, [], g)
      | Some vs \<Rightarrow> (let out = replicate (length vs) zero in gltf_read_array_loop put f 0 vs out (put out g)))"

definition dupe_string :: "bytes option \<Rightarrow> bytes option" where
  "dupe_string input = (case input of None \<Rightarrow> None | Some s \<Rightarrow> Some s)"

definition set_accessor_type :: "bytes \<Rightarrow> bool \<times> gltf_accessor_type" where
  "set_accessor_type type_string =
     (case map_of [(str ''SCALAR'', GLTF_ACCESSOR_SCALAR), (str ''VEC2'', GLTF_ACCESSOR_VEC2),
         (str ''VEC3'', GLTF_ACCESSOR_VEC3), (str ''VEC4'', GLTF_ACCESSOR_VEC4), (str ''MAT2'', GLTF_ACCESSOR_MAT2),
         (str ''MAT3'', GLTF_ACCESSOR_MAT3), (str ''MAT4'', GLTF_ACCESSOR_MAT4)] type_string of
        Some t \<Rightarrow> (True, t) | None \<Rightarrow> (False, GLTF_ACCESSOR_BADTYPE))"

definition validate_component_type :: "size_t \<Rightarrow> bool" where
  "validate_component_type type \<longleftrightarrow>
     type \<in> set (map ucast [GLTF_COMPONENT_BYTE, GLTF_COMPONENT_UNSIGNED_BYTE, GLTF_COMPONENT_SHORT,
       GLTF_COMPONENT_UNSIGNED_SHORT, GLTF_COMPONENT_UNSIGNED_INT, GLTF_COMPONENT_FLOAT])"

definition get_accessor_component_size :: "gltf_component_type \<Rightarrow> size_t" where
  "get_accessor_component_size component_type =
     (if component_type = GLTF_COMPONENT_BYTE then 1
      else if component_type = GLTF_COMPONENT_UNSIGNED_BYTE then 1
      else if component_type = GLTF_COMPONENT_SHORT then 2
      else if component_type = GLTF_COMPONENT_UNSIGNED_SHORT then 2
      else if component_type = GLTF_COMPONENT_UNSIGNED_INT then 4
      else if component_type = GLTF_COMPONENT_FLOAT then 4
      else 0)"

section \<open>Single elements\<close>

definition gltf_read_asset ::
    "gltf_asset \<Rightarrow> 'd json_value table option \<Rightarrow> (unit, bool \<times> gltf_asset) outcome" where
  "gltf_read_asset a json_asset =
     (case json_asset of
        None \<Rightarrow> Done (False, a)
      | Some obj \<Rightarrow>
          and_then (json_get_string obj (str ''generator'') False None True) (\<lambda>(generator, s1).
          and_then (json_get_string obj (str ''version'') False None s1) (\<lambda>(version, s2).
            Done (s2, a\<lparr>asset_generator := dupe_string generator, asset_version := dupe_string version\<rparr>))))"

definition gltf_read_buffer ::
    "'d double \<Rightarrow> gltf_buffer \<Rightarrow> gltf \<Rightarrow> 'd json_value table \<Rightarrow> (unit, bool \<times> gltf_buffer) outcome" where
  "gltf_read_buffer D out g obj =
     and_then (get_size D obj (str ''byteLength'') False (double_0 D) True) (\<lambda>(byte_length, success).
       let out' = out\<lparr>buffer_byte_length := byte_length\<rparr>
       in if \<not> success then Done (False, out')
          else json_get obj (str ''uri'') (\<lambda>value.
            case value of
              json_string s \<Rightarrow> (True, out'\<lparr>buffer_uri := Some s\<rparr>)
            | json_null \<Rightarrow> (True, out'\<lparr>buffer_uri := None\<rparr>)
            | _ \<Rightarrow> (False, out')))"

definition gltf_read_buffer_view ::
    "'d double \<Rightarrow> gltf_buffer_view \<Rightarrow> gltf \<Rightarrow> 'd json_value table \<Rightarrow> (unit, bool \<times> gltf_buffer_view) outcome" where
  "gltf_read_buffer_view D out g obj =
     and_then (reference_array D (length (gltf_buffers g)) obj (str ''buffer'')) (\<lambda>b.
     and_then (get_size D obj (str ''byteLength'') False (double_0 D) True) (\<lambda>(byte_length, s1).
     and_then (get_size D obj (str ''byteOffset'') True (double_0 D) s1) (\<lambda>(byte_offset, s2).
     and_then (get_size D obj (str ''byteStride'') True (double_1 D) s2) (\<lambda>(byte_stride, s3).
       Done (s3 \<and> b \<noteq> None,
         out\<lparr>view_buffer := b, view_byte_length := byte_length, view_byte_offset := byte_offset,
             view_byte_stride := byte_stride\<rparr>)))))"

text \<open>
  The offset of the indices is looked up in the object of the values. The alignment is computed
  with the members of the accessor that are read after this function has returned.
\<close>

definition gltf_read_accessor_sparse ::
    "'d double \<Rightarrow> gltf_accessor \<Rightarrow> gltf \<Rightarrow> 'd json_value table \<Rightarrow> (unit, bool \<times> gltf_accessor) outcome" where
  "gltf_read_accessor_sparse D acc g obj =
     and_then (json_get_object obj (str ''indices'')) (\<lambda>sparse_indices.
     and_then (json_get_object obj (str ''values'')) (\<lambda>sparse_values.
       case (sparse_indices, sparse_values) of
         (Some indices, Some vals) \<Rightarrow>
           and_then (get_size D obj (str ''count'') False (double_0 D) True) (\<lambda>(count, s1).
           and_then (get_size D vals (str ''byteOffset'') False (double_0 D) s1) (\<lambda>(byte_offset, s2).
           and_then (get_enum D indices (str ''componentType'') s2) (\<lambda>(component_type, s3).
           and_then (reference_array D (length (gltf_buffer_views g)) indices (str ''bufferView'')) (\<lambda>iv.
           and_then (reference_array D (length (gltf_buffer_views g)) vals (str ''bufferView'')) (\<lambda>vv.
             let acc' = acc\<lparr>accessor_sparse := accessor_sparse acc
                   \<lparr>sparse_count := count, sparse_indices_byte_offset := byte_offset,
                    sparse_indices_component_type := component_type,
                    sparse_indices_buffer_view := iv, sparse_values_buffer_view := vv\<rparr>\<rparr>
             in if \<not> s3 \<or> iv = None \<or> vv = None then Done (False, acc')
                else if \<not> validate_component_type (ucast component_type) then Done (False, acc')
                else (let component_size = get_accessor_component_size (accessor_component_type acc')
                      in case accessor_buffer_view acc' of
                           None \<Rightarrow> Fault
                         | Some v \<Rightarrow>
                             if component_size = 0 then Fault
                             else Done ((accessor_byte_offset acc' +
                                 view_byte_offset (gltf_buffer_views g ! v)) mod component_size = 0, acc')))))))
       | _ \<Rightarrow> Done (False, acc)))"

text \<open>From \<open>success = true\<close> on.\<close>

definition gltf_read_accessor_members ::
    "'d double \<Rightarrow> gltf_accessor \<Rightarrow> gltf \<Rightarrow> 'd json_value table \<Rightarrow> (unit, bool \<times> gltf_accessor) outcome" where
  "gltf_read_accessor_members D out g obj =
     and_then (get_size D obj (str ''byteOffset'') True (double_0 D) True) (\<lambda>(byte_offset, s1).
     and_then (get_enum D obj (str ''componentType'') s1) (\<lambda>(component_type, s2).
     and_then (get_size D obj (str ''count'') False (double_0 D) s2) (\<lambda>(count, s3).
     and_then (json_get_string obj (str ''type'') False None s3) (\<lambda>(accessor_type_string, s4).
       let out' = out\<lparr>accessor_byte_offset := byte_offset, accessor_component_type := component_type,
             accessor_count := count\<rparr>
       in if \<not> s4 then Done (False, out')
          else if \<not> validate_component_type (ucast component_type) then Done (False, out')
          else case accessor_type_string of
                 None \<Rightarrow> Fault
               | Some type_string \<Rightarrow>
                   (case set_accessor_type type_string of
                      (known, type) \<Rightarrow>
                        (let out'' = out'\<lparr>accessor_type := type\<rparr>
                         in if \<not> known then Done (False, out'')
                            else and_then (reference_array D (length (gltf_buffer_views g)) obj (str ''bufferView'')) (\<lambda>v.
                              let out3 = out''\<lparr>accessor_buffer_view := v\<rparr>
                              in Done (\<not> (v = None \<and> \<not> sparse_present (accessor_sparse out3)), out3))))))))"

definition gltf_read_accessor ::
    "'d double \<Rightarrow> gltf_accessor \<Rightarrow> gltf \<Rightarrow> 'd json_value table \<Rightarrow> (unit, bool \<times> gltf_accessor) outcome" where
  "gltf_read_accessor D out g obj =
     and_then (json_get_object obj (str ''sparse'')) (\<lambda>sparse.
       case sparse of
         None \<Rightarrow> gltf_read_accessor_members D out g obj
       | Some sp \<Rightarrow>
           and_then (gltf_read_accessor_sparse D
               (out\<lparr>accessor_sparse := accessor_sparse out\<lparr>sparse_present := True\<rparr>\<rparr>) g sp) (\<lambda>(ok, out').
             if \<not> ok then Done (False, out') else gltf_read_accessor_members D out' g obj))"

text \<open>A function without a result, whose result would be used.\<close>

definition gltf_read_material ::
    "bytes option \<Rightarrow> gltf \<Rightarrow> 'd json_value table \<Rightarrow> (unit, bool \<times> bytes option) outcome" where
  "gltf_read_material out g obj = Fault"

definition gltf_read_mesh_primitive_target ::
    "'d double \<Rightarrow> gltf_mesh_primitive_target \<Rightarrow> gltf \<Rightarrow> 'd json_value table
       \<Rightarrow> (unit, bool \<times> gltf_mesh_primitive_target) outcome" where
  "gltf_read_mesh_primitive_target D out g obj =
     and_then (reference_array D (length (gltf_accessors g)) obj (str ''NORMAL'')) (\<lambda>normal.
     and_then (reference_array D (length (gltf_accessors g)) obj (str ''POSITION'')) (\<lambda>position.
     and_then (reference_array D (length (gltf_accessors g)) obj (str ''TANGENT'')) (\<lambda>tangent.
       Done (normal \<noteq> None \<and> position \<noteq> None \<and> tangent \<noteq> None,
         out\<lparr>target_normal := normal, target_position := position, target_tangent := tangent\<rparr>))))"

definition gltf_read_mesh_primitive ::
    "'d double \<Rightarrow> gltf_mesh_primitive \<Rightarrow> gltf \<Rightarrow> 'd json_value table \<Rightarrow> (unit, bool \<times> gltf_mesh_primitive) outcome" where
  "gltf_read_mesh_primitive D out g obj =
     and_then (reference_array D (length (gltf_accessors g)) obj (str ''indices'')) (\<lambda>indices.
     and_then (reference_array D (length (gltf_materials g)) obj (str ''material'')) (\<lambda>material.
     and_then (json_get_array obj (str ''targets'')) (\<lambda>targets.
     and_then (gltf_read_array (\<lambda>_ g. g) zero_target (gltf_read_mesh_primitive_target D) targets g) (\<lambda>(ok, ts, g').
       let out' = out\<lparr>primitive_indices := indices, primitive_material := material, primitive_targets := ts\<rparr>
       in Done (ok \<and> indices \<noteq> None \<and> material \<noteq> None, out')))))"

definition gltf_read_mesh ::
    "'d double \<Rightarrow> gltf_mesh \<Rightarrow> gltf \<Rightarrow> 'd json_value table \<Rightarrow> (unit, bool \<times> gltf_mesh) outcome" where
  "gltf_read_mesh D out g obj =
     and_then (json_get_array obj (str ''primitives'')) (\<lambda>primitives.
     and_then (gltf_read_array (\<lambda>_ g. g) zero_primitive (gltf_read_mesh_primitive D) primitives g) (\<lambda>(ok, ps, g').
       Done (ok, out\<lparr>mesh_primitives := ps\<rparr>)))"

section \<open>gltf_from_json\<close>

text \<open>One of the arrays of the document: its key, where it is stored, and the function for its elements.\<close>

definition gltf_read_member ::
    "'d json_value table \<Rightarrow> string \<Rightarrow> ('a list \<Rightarrow> gltf \<Rightarrow> gltf) \<Rightarrow> 'a
       \<Rightarrow> ('a \<Rightarrow> gltf \<Rightarrow> 'd json_value table \<Rightarrow> (unit, bool \<times> 'a) outcome) \<Rightarrow> gltf \<Rightarrow> (unit, bool \<times> gltf) outcome" where
  "gltf_read_member root key put zero f g =
     and_then (json_get_array root (str key)) (\<lambda>input.
     and_then (gltf_read_array put zero f input g) (\<lambda>(ok, out, g'). Done (ok, g')))"

definition gltf_from_json :: "'d double \<Rightarrow> 'd json_value \<Rightarrow> (unit, bool \<times> gltf) outcome" where
  "gltf_from_json D json_root_value =
     (case json_root_value of
        json_object root \<Rightarrow>
          and_then (json_get_object root (str ''asset'')) (\<lambda>asset.
          and_then (gltf_read_asset (gltf_asset zero_gltf) asset) (\<lambda>(ok, a).
            let g = zero_gltf\<lparr>gltf_asset := a\<rparr>
            in if \<not> ok then Done (False, g)
               else
                 and_then (gltf_read_member root ''buffers'' (\<lambda>x g. g\<lparr>gltf_buffers := x\<rparr>) zero_buffer (gltf_read_buffer D) g)
                   (\<lambda>(ok, g). if \<not> ok then Done (False, g)
                    else
                 and_then (gltf_read_member root ''bufferViews'' (\<lambda>x g. g\<lparr>gltf_buffer_views := x\<rparr>) zero_buffer_view
                     (gltf_read_buffer_view D) g)
                   (\<lambda>(ok, g). if \<not> ok then Done (False, g)
                    else gltf_read_member root ''accessors'' (\<lambda>x g. g\<lparr>gltf_accessors := x\<rparr>) zero_accessor
                      (gltf_read_accessor D) g))))
      | _ \<Rightarrow> Done (False, zero_gltf))"

end
