(* ===== verification/GltfDocument.thy ===== *)
theory GltfDocument
  imports Gltf
begin

text \<open>
  What the reader of \<open>src/backburner/gltf/gltf.c\<close> makes of a JSON text: the links of a document
  that is read lead to elements, and a document that is written out is read back.
\<close>

section \<open>Arrays element by element\<close>

lemma and_then_Done [simp]: "and_then m f = Done b \<longleftrightarrow> (\<exists>a. m = Done a \<and> f a = Done b)"
  by (cases m) auto

text \<open>A function for the elements that does not look at the array that is being filled.\<close>

definition ignores :: "('a list \<Rightarrow> gltf \<Rightarrow> gltf) \<Rightarrow> ('a \<Rightarrow> gltf \<Rightarrow> 'd json_value table \<Rightarrow> (unit, bool \<times> 'a) outcome) \<Rightarrow> bool" where
  "ignores put f \<longleftrightarrow> (\<forall>x out g obj. f x (put out g) obj = f x g obj) \<and> (\<forall>o1 o2 g. put o2 (put o1 g) = put o2 g)"

definition reads_element ::
    "('a \<Rightarrow> gltf \<Rightarrow> 'd json_value table \<Rightarrow> (unit, bool \<times> 'a) outcome) \<Rightarrow> 'a \<Rightarrow> gltf \<Rightarrow> 'd json_value \<Rightarrow> 'a \<Rightarrow> bool" where
  "reads_element f zero g v x \<longleftrightarrow> (\<exists>obj. v = json_object obj \<and> f zero g obj = Done (True, x))"

lemma reads_element_object [simp]: "reads_element f zero g (json_object obj) x \<longleftrightarrow> f zero g obj = Done (True, x)"
  by (simp add: reads_element_def)

lemma read_array_loop_iff:
  assumes "ignores put f"
  shows "gltf_read_array_loop put f (length pre) vs (pre @ replicate (length vs) zero) (put (pre @ replicate (length vs) zero) g)
      = Done (True, out, g') \<longleftrightarrow>
    (\<exists>xs. list_all2 (reads_element f zero g) vs xs \<and> out = pre @ xs \<and> g' = put out g)"
proof (induction vs arbitrary: pre)
  case Nil
  then show ?case by auto
next
  case (Cons v vs)
  note ig = assms [unfolded ignores_def]
  show ?case
  proof (cases "\<exists>obj x. v = json_object obj \<and> f zero g obj = Done (True, x)")
    case False
    then show ?thesis using ig
      by (cases v) (auto simp: list_all2_Cons1 reads_element_def Let_def nth_append split: if_splits)
  next
    case True
    then obtain obj x where x: "v = json_object obj" "f zero g obj = Done (True, x)" by blast
    have upd: "(pre @ replicate (length (v # vs)) zero)[length pre := x] = (pre @ [x]) @ replicate (length vs) zero"
      by (simp add: list_update_append)
    have eq: "gltf_read_array_loop put f (length pre) (v # vs) (pre @ replicate (length (v # vs)) zero)
          (put (pre @ replicate (length (v # vs)) zero) g)
        = gltf_read_array_loop put f (length (pre @ [x])) vs ((pre @ [x]) @ replicate (length vs) zero)
            (put ((pre @ [x]) @ replicate (length vs) zero) g)"
      using x ig upd by (simp add: Let_def nth_append)
    show ?thesis
      unfolding eq Cons.IH [of "pre @ [x]"] using x by (auto simp: list_all2_Cons1)
  qed
qed

lemma read_array_iff:
  assumes "ignores put f"
  shows "gltf_read_array put zero f (Some vs) g = Done (True, out, g') \<longleftrightarrow>
    list_all2 (reads_element f zero g) vs out \<and> g' = put out g"
  using read_array_loop_iff [OF assms, of "[]" vs zero g out g'] by (simp add: gltf_read_array_def Let_def)

lemma json_get_array_Done:
  "json_get_array t k = Done r \<longleftrightarrow> (\<exists>v. json_lookup t k = Some (Some v) \<and> r = (case v of json_array a \<Rightarrow> Some a | _ \<Rightarrow> None))"
  by (auto simp: json_get_array_def json_get_def split: option.splits)

text \<open>The member of an object.\<close>

definition member_is :: "'d json_value table \<Rightarrow> bytes \<Rightarrow> 'd json_value \<Rightarrow> bool" where
  "member_is t k v \<longleftrightarrow> json_lookup t k = Some (Some v)"

lemma read_member_iff:
  assumes "ignores put f"
  shows "gltf_read_member root key put zero f g = Done (True, g') \<longleftrightarrow>
    (\<exists>vs out. member_is root (str key) (json_array vs) \<and> list_all2 (reads_element f zero g) vs out \<and> g' = put out g)"
proof
  assume "gltf_read_member root key put zero f g = Done (True, g')"
  then obtain input out where i: "json_get_array root (str key) = Done input"
      "gltf_read_array put zero f input g = Done (True, out, g')"
    by (auto simp: gltf_read_member_def)
  then obtain v where v: "json_lookup root (str key) = Some (Some v)" "input = (case v of json_array a \<Rightarrow> Some a | _ \<Rightarrow> None)"
    by (auto simp: json_get_array_Done)
  obtain vs where "input = Some vs" using i(2) by (cases input) (auto simp: gltf_read_array_def)
  moreover from this have "v = json_array vs" using v(2) by (cases v) auto
  ultimately show "\<exists>vs out. member_is root (str key) (json_array vs) \<and> list_all2 (reads_element f zero g) vs out \<and> g' = put out g"
    using i(2) v(1) read_array_iff [OF assms] by (metis member_is_def)
next
  assume "\<exists>vs out. member_is root (str key) (json_array vs) \<and> list_all2 (reads_element f zero g) vs out \<and> g' = put out g"
  then obtain vs out where v: "member_is root (str key) (json_array vs)" "list_all2 (reads_element f zero g) vs out"
      "g' = put out g" by blast
  have "json_get_array root (str key) = Done (Some vs)" using v(1) by (simp add: json_get_array_Done member_is_def)
  moreover have "gltf_read_array put zero f (Some vs) g = Done (True, out, g')"
    using read_array_iff [OF assms] v(2,3) by blast
  ultimately show "gltf_read_member root key put zero f g = Done (True, g')" by (simp add: gltf_read_member_def)
qed

lemma read_accessor_views:
  assumes "gltf_buffer_views g = gltf_buffer_views g'"
  shows "gltf_read_accessor D x g obj = gltf_read_accessor D x g' obj"
  unfolding gltf_read_accessor_def gltf_read_accessor_members_def gltf_read_accessor_sparse_def assms ..

lemma ignores_members:
  "ignores (\<lambda>x g. g\<lparr>gltf_buffers := x\<rparr>) (gltf_read_buffer D)"
  "ignores (\<lambda>x g. g\<lparr>gltf_buffer_views := x\<rparr>) (gltf_read_buffer_view D)"
  "ignores (\<lambda>x g. g\<lparr>gltf_accessors := x\<rparr>) (gltf_read_accessor D)"
proof -
  show "ignores (\<lambda>x g. g\<lparr>gltf_accessors := x\<rparr>) (gltf_read_accessor D)"
    unfolding ignores_def by (intro conjI allI read_accessor_views) simp_all
qed (simp_all add: ignores_def gltf_read_buffer_def gltf_read_buffer_view_def)

text \<open>The whole document, member by member.\<close>

lemma gltf_from_json_iff:
  "gltf_from_json D v = Done (True, g) \<longleftrightarrow>
    (\<exists>root asset a bvs bs vvs vs avs accs g0 g1.
      v = json_object root \<and> json_get_object root (str ''asset'') = Done asset \<and>
      gltf_read_asset (gltf_asset zero_gltf) asset = Done (True, a) \<and> g0 = zero_gltf\<lparr>gltf_asset := a\<rparr> \<and>
      member_is root (str ''buffers'') (json_array bvs) \<and>
      list_all2 (reads_element (gltf_read_buffer D) zero_buffer g0) bvs bs \<and> g1 = g0\<lparr>gltf_buffers := bs\<rparr> \<and>
      member_is root (str ''bufferViews'') (json_array vvs) \<and>
      list_all2 (reads_element (gltf_read_buffer_view D) zero_buffer_view g1) vvs vs \<and>
      member_is root (str ''accessors'') (json_array avs) \<and>
      list_all2 (reads_element (gltf_read_accessor D) zero_accessor (g1\<lparr>gltf_buffer_views := vs\<rparr>)) avs accs \<and>
      g = g1\<lparr>gltf_buffer_views := vs, gltf_accessors := accs\<rparr>)" (is "?l \<longleftrightarrow> ?r")
proof
  assume ?l
  then obtain root where root: "v = json_object root" by (cases v) (auto simp: gltf_from_json_def)
  from \<open>?l\<close> obtain asset a g1 g2 where
    s: "json_get_object root (str ''asset'') = Done asset" "gltf_read_asset (gltf_asset zero_gltf) asset = Done (True, a)"
      "gltf_read_member root ''buffers'' (\<lambda>x g. g\<lparr>gltf_buffers := x\<rparr>) zero_buffer (gltf_read_buffer D)
         (zero_gltf\<lparr>gltf_asset := a\<rparr>) = Done (True, g1)"
      "gltf_read_member root ''bufferViews'' (\<lambda>x g. g\<lparr>gltf_buffer_views := x\<rparr>) zero_buffer_view
         (gltf_read_buffer_view D) g1 = Done (True, g2)"
      "gltf_read_member root ''accessors'' (\<lambda>x g. g\<lparr>gltf_accessors := x\<rparr>) zero_accessor (gltf_read_accessor D) g2
         = Done (True, g)"
    by (auto simp: gltf_from_json_def root Let_def split: if_splits)
  define g0 where "g0 = zero_gltf\<lparr>gltf_asset := a\<rparr>"
  obtain bvs bs where b: "member_is root (str ''buffers'') (json_array bvs)"
      "list_all2 (reads_element (gltf_read_buffer D) zero_buffer g0) bvs bs" "g1 = g0\<lparr>gltf_buffers := bs\<rparr>"
    using s(3) ignores_members(1) [THEN read_member_iff] unfolding g0_def by blast
  obtain vvs vs where v: "member_is root (str ''bufferViews'') (json_array vvs)"
      "list_all2 (reads_element (gltf_read_buffer_view D) zero_buffer_view g1) vvs vs" "g2 = g1\<lparr>gltf_buffer_views := vs\<rparr>"
    using s(4) ignores_members(2) [THEN read_member_iff] by blast
  obtain avs accs where c: "member_is root (str ''accessors'') (json_array avs)"
      "list_all2 (reads_element (gltf_read_accessor D) zero_accessor (g1\<lparr>gltf_buffer_views := vs\<rparr>)) avs accs"
      "g = g1\<lparr>gltf_buffer_views := vs, gltf_accessors := accs\<rparr>"
    using s(5) ignores_members(3) [THEN read_member_iff] unfolding v(3) by blast
  show ?r using root s(1,2) g0_def b v(1,2) c by blast
next
  assume ?r
  then obtain root asset a bvs bs vvs vs avs accs g0 g1 where
    r: "v = json_object root" "json_get_object root (str ''asset'') = Done asset"
      "gltf_read_asset (gltf_asset zero_gltf) asset = Done (True, a)" "g0 = zero_gltf\<lparr>gltf_asset := a\<rparr>"
      "member_is root (str ''buffers'') (json_array bvs)"
      "list_all2 (reads_element (gltf_read_buffer D) zero_buffer g0) bvs bs" "g1 = g0\<lparr>gltf_buffers := bs\<rparr>"
      "member_is root (str ''bufferViews'') (json_array vvs)"
      "list_all2 (reads_element (gltf_read_buffer_view D) zero_buffer_view g1) vvs vs"
      "member_is root (str ''accessors'') (json_array avs)"
      "list_all2 (reads_element (gltf_read_accessor D) zero_accessor (g1\<lparr>gltf_buffer_views := vs\<rparr>)) avs accs"
      "g = g1\<lparr>gltf_buffer_views := vs, gltf_accessors := accs\<rparr>" by blast
  have m: "gltf_read_member root ''buffers'' (\<lambda>x g. g\<lparr>gltf_buffers := x\<rparr>) zero_buffer (gltf_read_buffer D) g0 = Done (True, g1)"
      "gltf_read_member root ''bufferViews'' (\<lambda>x g. g\<lparr>gltf_buffer_views := x\<rparr>) zero_buffer_view
         (gltf_read_buffer_view D) g1 = Done (True, g1\<lparr>gltf_buffer_views := vs\<rparr>)"
      "gltf_read_member root ''accessors'' (\<lambda>x g. g\<lparr>gltf_accessors := x\<rparr>) zero_accessor (gltf_read_accessor D)
         (g1\<lparr>gltf_buffer_views := vs\<rparr>) = Done (True, g)"
    using r(5-12) ignores_members [THEN read_member_iff] by blast+
  show ?l using r(1-4) m by (simp add: gltf_from_json_def Let_def)
qed

section \<open>Links\<close>

lemma reference_array_bound: "reference_array D n t k = Done (Some i) \<Longrightarrow> i < n"
  by (auto simp: reference_array_def split: if_splits)

definition view_ok :: "nat \<Rightarrow> gltf_buffer_view \<Rightarrow> bool" where
  "view_ok n v \<longleftrightarrow> (\<exists>i. view_buffer v = Some i \<and> i < n)"

definition known_accessor_types :: "gltf_accessor_type set" where
  "known_accessor_types = {GLTF_ACCESSOR_SCALAR, GLTF_ACCESSOR_VEC2, GLTF_ACCESSOR_VEC3, GLTF_ACCESSOR_VEC4,
     GLTF_ACCESSOR_MAT2, GLTF_ACCESSOR_MAT3, GLTF_ACCESSOR_MAT4}"

definition accessor_ok :: "nat \<Rightarrow> gltf_accessor \<Rightarrow> bool" where
  "accessor_ok n a \<longleftrightarrow>
     (\<exists>i. accessor_buffer_view a = Some i \<and> i < n) \<and> accessor_type a \<in> known_accessor_types \<and>
     validate_component_type (ucast (accessor_component_type a)) \<and> \<not> sparse_present (accessor_sparse a)"

definition gltf_links :: "gltf \<Rightarrow> bool" where
  "gltf_links g \<longleftrightarrow>
     list_all (view_ok (length (gltf_buffers g))) (gltf_buffer_views g) \<and>
     list_all (accessor_ok (length (gltf_buffer_views g))) (gltf_accessors g)"

lemma read_buffer_view_ok:
  "gltf_read_buffer_view D out g obj = Done (True, v) \<Longrightarrow> view_ok (length (gltf_buffers g)) v"
  by (auto simp: gltf_read_buffer_view_def view_ok_def dest: reference_array_bound)

text \<open>A sparse accessor is never read: when its members are right, a null pointer is dereferenced.\<close>

lemma read_accessor_sparse_not:
  assumes "accessor_buffer_view acc = None"
  shows "gltf_read_accessor_sparse D acc g obj \<noteq> Done (True, acc')"
  using assms by (auto simp: gltf_read_accessor_sparse_def Let_def split: option.splits if_splits)

lemma set_accessor_type_known: "set_accessor_type s = (True, t) \<Longrightarrow> t \<in> known_accessor_types"
  by (auto simp: set_accessor_type_def known_accessor_types_def split: if_splits option.splits)

lemma read_accessor_ok:
  assumes "gltf_read_accessor D zero_accessor g obj = Done (True, a)"
  shows "accessor_ok (length (gltf_buffer_views g)) a"
proof -
  have none: "gltf_read_accessor_sparse D (zero_accessor\<lparr>accessor_sparse := sp\<rparr>) g o' \<noteq> Done (True, x)" for sp o' x
    by (rule read_accessor_sparse_not) (simp add: zero_accessor_def)
  have "gltf_read_accessor_members D zero_accessor g obj = Done (True, a)"
    using assms none by (auto simp: gltf_read_accessor_def split: option.split_asm if_split_asm)
  then obtain bo ct n ty t v where
    "validate_component_type (ucast ct)" "set_accessor_type ty = (True, t)"
      "reference_array D (length (gltf_buffer_views g)) obj (str ''bufferView'') = Done (Some v)"
      "a = zero_accessor\<lparr>accessor_byte_offset := bo, accessor_component_type := ct, accessor_count := n,
         accessor_type := t, accessor_buffer_view := Some v\<rparr>"
    by (auto simp: gltf_read_accessor_members_def Let_def zero_accessor_def zero_sparse_def
        split: option.split_asm if_split_asm prod.split_asm)
  then show ?thesis
    using reference_array_bound set_accessor_type_known
    by (simp add: accessor_ok_def zero_accessor_def zero_sparse_def)
qed

lemma list_all2_right: "list_all2 R xs ys \<Longrightarrow> (\<And>x y. R x y \<Longrightarrow> P y) \<Longrightarrow> list_all P ys"
  by (induction rule: list_all2_induct) auto

lemma gltf_from_json_links: "gltf_from_json D v = Done (True, g) \<Longrightarrow> gltf_links g"
proof -
  assume "gltf_from_json D v = Done (True, g)"
  then obtain vs accs vvs avs g1 where
    r: "list_all2 (reads_element (gltf_read_buffer_view D) zero_buffer_view g1) vvs vs"
      "list_all2 (reads_element (gltf_read_accessor D) zero_accessor (g1\<lparr>gltf_buffer_views := vs\<rparr>)) avs accs"
      "g = g1\<lparr>gltf_buffer_views := vs, gltf_accessors := accs\<rparr>"
    unfolding gltf_from_json_iff by blast
  have "list_all (view_ok (length (gltf_buffers g1))) vs"
    by (rule list_all2_right [OF r(1)]) (auto simp: reads_element_def dest: read_buffer_view_ok)
  moreover have "list_all (accessor_ok (length vs)) accs"
    by (rule list_all2_right [OF r(2)]) (auto simp: reads_element_def dest: read_accessor_ok)
  ultimately show ?thesis by (simp add: gltf_links_def r(3))
qed

section \<open>Writing a document\<close>

text \<open>The tree of a document. Numbers are written with \<open>num\<close>; what is left out is written as null.\<close>

definition opt_string :: "bytes option \<Rightarrow> 'd jtree" where
  "opt_string s = (case s of None \<Rightarrow> TNull | Some s \<Rightarrow> TString s)"

definition buffer_tree :: "(size_t \<Rightarrow> 'd) \<Rightarrow> gltf_buffer \<Rightarrow> 'd jtree" where
  "buffer_tree num b = TObject [(str ''byteLength'', TNumber (num (buffer_byte_length b))), (str ''uri'', opt_string (buffer_uri b))]"

definition index_tree :: "(size_t \<Rightarrow> 'd) \<Rightarrow> nat option \<Rightarrow> 'd jtree" where
  "index_tree num i = (case i of None \<Rightarrow> TNull | Some i \<Rightarrow> TNumber (num (word_of_nat i)))"

definition view_tree :: "(size_t \<Rightarrow> 'd) \<Rightarrow> gltf_buffer_view \<Rightarrow> 'd jtree" where
  "view_tree num v = TObject [(str ''buffer'', index_tree num (view_buffer v)),
     (str ''byteLength'', TNumber (num (view_byte_length v))), (str ''byteOffset'', TNumber (num (view_byte_offset v))),
     (str ''byteStride'', TNumber (num (view_byte_stride v)))]"

definition type_text :: "gltf_accessor_type \<Rightarrow> bytes" where
  "type_text t =
     (if t = GLTF_ACCESSOR_SCALAR then str ''SCALAR'' else if t = GLTF_ACCESSOR_VEC2 then str ''VEC2''
      else if t = GLTF_ACCESSOR_VEC3 then str ''VEC3'' else if t = GLTF_ACCESSOR_VEC4 then str ''VEC4''
      else if t = GLTF_ACCESSOR_MAT3 then str ''MAT3'' else str ''MAT4'')"

definition accessor_tree :: "(size_t \<Rightarrow> 'd) \<Rightarrow> gltf_accessor \<Rightarrow> 'd jtree" where
  "accessor_tree num a = TObject [(str ''sparse'', TNull), (str ''byteOffset'', TNumber (num (accessor_byte_offset a))),
     (str ''componentType'', TNumber (num (ucast (accessor_component_type a)))),
     (str ''count'', TNumber (num (accessor_count a))), (str ''type'', TString (type_text (accessor_type a))),
     (str ''bufferView'', index_tree num (accessor_buffer_view a))]"

definition gltf_tree :: "(size_t \<Rightarrow> 'd) \<Rightarrow> gltf \<Rightarrow> 'd jtree" where
  "gltf_tree num g = TObject
     [(str ''asset'', TObject [(str ''generator'', opt_string (asset_generator (gltf_asset g))),
        (str ''version'', opt_string (asset_version (gltf_asset g)))]),
      (str ''buffers'', TArray (map (buffer_tree num) (gltf_buffers g))),
      (str ''bufferViews'', TArray (map (view_tree num) (gltf_buffer_views g))),
      (str ''accessors'', TArray (map (accessor_tree num) (gltf_accessors g)))]"

text \<open>The documents that the reader supports.\<close>

definition gltf_plain :: "gltf \<Rightarrow> bool" where
  "gltf_plain g \<longleftrightarrow> gltf_links g \<and>
     asset_generator (gltf_asset g) \<noteq> None \<and> asset_version (gltf_asset g) \<noteq> None \<and>
     list_all (\<lambda>a. accessor_sparse a = zero_sparse) (gltf_accessors g) \<and>
     gltf_materials g = [] \<and> gltf_meshes g = [] \<and>
     length (gltf_buffers g) < 2 ^ 64 \<and> length (gltf_buffer_views g) < 2 ^ 64"

text \<open>The numbers of a document.\<close>

definition gltf_numbers :: "gltf \<Rightarrow> size_t set" where
  "gltf_numbers g =
     buffer_byte_length ` set (gltf_buffers g) \<union>
     (\<Union>v \<in> set (gltf_buffer_views g). word_of_nat ` set_option (view_buffer v) \<union>
        {view_byte_length v, view_byte_offset v, view_byte_stride v}) \<union>
     (\<Union>a \<in> set (gltf_accessors g). word_of_nat ` set_option (accessor_buffer_view a) \<union>
        {accessor_byte_offset a, ucast (accessor_component_type a), accessor_count a})"

text \<open>The conversions of a number that is written give it back.\<close>

definition exact :: "'d double \<Rightarrow> (size_t \<Rightarrow> 'd) \<Rightarrow> size_t \<Rightarrow> bool" where
  "exact D num n \<longleftrightarrow> to_size_t D (num n) = Some n \<and> (unat n < 2 ^ 32 \<longrightarrow> to_enum D (num n) = Some (ucast n))"

lemma object_member:
  assumes "represents (TObject kvs) (json_object t)" and "map_of (rev kvs) k = Some x"
  shows "\<exists>v. represents x v \<and> member_is t k v"
proof -
  have wf: "table_wf t" and r: "rel_option represents (map_of (rev kvs) k) (table_map t k)"
    using assms(1) by (auto elim: represents_objectE)
  then obtain v where v: "table_map t k = Some v" "represents x v"
    using assms(2) by (auto simp: option_rel_Some1)
  then have "buckets t \<noteq> []" by (auto simp: table_map_def pairs_def)
  from table_get_map [OF wf this] obtain r where "table_get t k = Some r" "map_option t_value r = Some v"
    using v(1) by metis
  then have "json_lookup t k = Some (Some v)" by (simp add: json_lookup_def)
  with v(2) show ?thesis by (auto simp: member_is_def)
qed

inductive_simps represents_number: "represents (TNumber d) v"
inductive_simps represents_null: "represents TNull v"
inductive_simps represents_string: "represents (TString s) v"
inductive_simps represents_array: "represents (TArray ts) v"

lemmas represents_simps = represents_number represents_null represents_string represents_array

lemma represents_object_table: "represents (TObject kvs) v \<Longrightarrow> \<exists>t. v = json_object t"
  by (auto elim: represents_objectE)

lemma get_size_member:
  assumes "member_is t k (json_number (num n))" and "exact D num n"
  shows "get_size D t k opt d s = Done (n, s)"
  using assms by (simp add: get_size_def json_get_number_def json_get_def member_is_def exact_def convert_def)

lemma get_enum_member:
  assumes "member_is t k (json_number (num (ucast c)))" and "exact D num (ucast c)"
  shows "get_enum D t k s = Done (c, s)"
proof -
  have "unat (ucast c :: size_t) < 2 ^ 32" using unsigned_less [of c, where ?'a = nat]
    by (simp add: unsigned_ucast_eq take_bit_nat_eq_self)
  moreover have "(ucast (ucast c :: size_t) :: 32 word) = c" by (rule ucast_up_ucast_id) (simp add: is_up)
  ultimately show ?thesis using assms
    by (simp add: get_enum_def json_get_number_def json_get_def member_is_def exact_def convert_def)
qed

lemma str_inject: "str a = str b \<longleftrightarrow> a = b"
proof -
  have "inj (of_char :: char \<Rightarrow> byte)"
  proof (rule injI)
    fix c d :: char
    assume "(of_char c :: byte) = of_char d"
    then have "(word_of_nat (of_char c) :: byte) = word_of_nat (of_char d)"
      by (simp only: of_nat_of_char)
    then have "(of_char c :: nat) mod 2 ^ 8 = of_char d mod 2 ^ 8"
      by (simp add: word_of_nat_eq_iff take_bit_eq_mod)
    then show "c = d" by simp
  qed
  then show ?thesis by (simp add: str_def inj_map_eq_map)
qed

text \<open>Reading the elements.\<close>

lemma number_member:
  "represents (TObject kvs) (json_object t) \<Longrightarrow> map_of (rev kvs) k = Some (TNumber d) \<Longrightarrow> member_is t k (json_number d)"
  by (drule (1) object_member) (auto simp: represents_simps)

lemma null_member:
  "represents (TObject kvs) (json_object t) \<Longrightarrow> map_of (rev kvs) k = Some TNull \<Longrightarrow> member_is t k json_null"
  by (drule (1) object_member) (auto simp: represents_simps)

lemma string_member:
  "represents (TObject kvs) (json_object t) \<Longrightarrow> map_of (rev kvs) k = Some (TString s) \<Longrightarrow> member_is t k (json_string s)"
  by (drule (1) object_member) (auto simp: represents_simps)

lemma array_member:
  "represents (TObject kvs) (json_object t) \<Longrightarrow> map_of (rev kvs) k = Some (TArray ts) \<Longrightarrow>
     \<exists>vs. member_is t k (json_array vs) \<and> list_all2 represents ts vs"
  by (drule (1) object_member) (auto simp: represents_simps)

lemma reference_array_member:
  assumes "member_is t k (json_number (num (word_of_nat i)))" and "exact D num (word_of_nat i)" and "i < n" and "n < 2 ^ 64"
  shows "reference_array D n t k = Done (Some i)"
proof -
  have "unat (word_of_nat i :: size_t) = i" using assms(3,4) by (simp add: unat_of_nat)
  then show ?thesis using get_size_member [OF assms(1,2)] assms(3) by (simp add: reference_array_def)
qed

lemma read_buffer_tree:
  assumes "represents (buffer_tree num b) v" and "exact D num (buffer_byte_length b)"
  shows "reads_element (gltf_read_buffer D) zero_buffer g v b"
proof -
  note r = assms(1) [unfolded buffer_tree_def]
  obtain t where t: "v = json_object t" using represents_object_table [OF r] by blast
  note n = number_member [OF r [unfolded t]] and u = string_member [OF r [unfolded t]] null_member [OF r [unfolded t]]
  have "get_size D t (str ''byteLength'') False (double_0 D) True = Done (buffer_byte_length b, True)"
    by (rule get_size_member [OF n assms(2)]) (simp add: str_inject)
  moreover have "member_is t (str ''uri'') (case buffer_uri b of None \<Rightarrow> json_null | Some s \<Rightarrow> json_string s)"
    using u by (auto simp: opt_string_def str_inject split: option.split)
  ultimately show ?thesis
    by (cases "buffer_uri b") (simp_all add: t gltf_read_buffer_def zero_buffer_def json_get_def member_is_def)
qed

lemma read_view_tree:
  assumes "represents (view_tree num x) v" and "view_buffer x = Some i" and "i < length (gltf_buffers g)"
    and "length (gltf_buffers g) < 2 ^ 64"
    and "\<forall>n \<in> {word_of_nat i, view_byte_length x, view_byte_offset x, view_byte_stride x}. exact D num n"
  shows "reads_element (gltf_read_buffer_view D) zero_buffer_view g v x"
proof -
  note r = assms(1) [unfolded view_tree_def index_tree_def assms(2) option.case]
  obtain t where t: "v = json_object t" using represents_object_table [OF r] by blast
  note n = number_member [OF r [unfolded t]]
  have e: "exact D num (word_of_nat i)" "exact D num (view_byte_length x)" "exact D num (view_byte_offset x)"
      "exact D num (view_byte_stride x)" using assms(5) by simp_all
  have "reference_array D (length (gltf_buffers g)) t (str ''buffer'') = Done (Some i)"
    by (rule reference_array_member [OF n e(1) assms(3,4)]) (simp add: str_inject)
  moreover have "get_size D t (str ''byteLength'') opt d s = Done (view_byte_length x, s)" for opt d s
    by (rule get_size_member [OF n e(2)]) (simp add: str_inject)
  moreover have "get_size D t (str ''byteOffset'') opt d s = Done (view_byte_offset x, s)" for opt d s
    by (rule get_size_member [OF n e(3)]) (simp add: str_inject)
  moreover have "get_size D t (str ''byteStride'') opt d s = Done (view_byte_stride x, s)" for opt d s
    by (rule get_size_member [OF n e(4)]) (simp add: str_inject)
  ultimately show ?thesis
    using assms(2) by (simp add: t gltf_read_buffer_view_def zero_buffer_view_def)
qed

lemma set_accessor_type_text:
  assumes "t \<in> known_accessor_types"
  shows "set_accessor_type (type_text t) = (True, t)"
  using assms by (auto simp: known_accessor_types_def type_text_def set_accessor_type_def accessor_types str_inject)

lemma read_accessor_tree:
  assumes "represents (accessor_tree num a) v" and "accessor_ok (length (gltf_buffer_views g)) a"
    and "length (gltf_buffer_views g) < 2 ^ 64" and "accessor_sparse a = zero_sparse"
    and "\<forall>n \<in> word_of_nat ` set_option (accessor_buffer_view a) \<union>
      {accessor_byte_offset a, ucast (accessor_component_type a), accessor_count a}. exact D num n"
  shows "reads_element (gltf_read_accessor D) zero_accessor g v a"
proof -
  obtain i where i: "accessor_buffer_view a = Some i" "i < length (gltf_buffer_views g)"
    and ok: "accessor_type a \<in> known_accessor_types" "validate_component_type (ucast (accessor_component_type a))"
    using assms(2) by (auto simp: accessor_ok_def)
  note r = assms(1) [unfolded accessor_tree_def index_tree_def i(1) option.case]
  obtain t where t: "v = json_object t" using represents_object_table [OF r] by blast
  note n = number_member [OF r [unfolded t]]
  have e: "exact D num (word_of_nat i)" "exact D num (accessor_byte_offset a)"
      "exact D num (ucast (accessor_component_type a))" "exact D num (accessor_count a)"
    using assms(5) i(1) by simp_all
  have "json_get_object t (str ''sparse'') = Done None"
    using null_member [OF r [unfolded t], of "str ''sparse''"] by (simp add: str_inject json_get_object_def json_get_def member_is_def)
  moreover have "get_size D t (str ''byteOffset'') opt d s = Done (accessor_byte_offset a, s)" for opt d s
    by (rule get_size_member [OF n e(2)]) (simp add: str_inject)
  moreover have "get_enum D t (str ''componentType'') s = Done (accessor_component_type a, s)" for s
    by (rule get_enum_member [OF n e(3)]) (simp add: str_inject)
  moreover have "get_size D t (str ''count'') opt d s = Done (accessor_count a, s)" for opt d s
    by (rule get_size_member [OF n e(4)]) (simp add: str_inject)
  moreover have "json_get_string t (str ''type'') False None s = Done (Some (type_text (accessor_type a)), s)" for s
    using string_member [OF r [unfolded t], of "str ''type''"]
    by (simp add: str_inject json_get_string_def json_get_def member_is_def)
  moreover have "reference_array D (length (gltf_buffer_views g)) t (str ''bufferView'') = Done (Some i)"
    by (rule reference_array_member [OF n e(1) i(2) assms(3)]) (simp add: str_inject)
  ultimately show ?thesis
    using ok i(1) assms(4) set_accessor_type_text [OF ok(1)]
    by (simp add: t gltf_read_accessor_def gltf_read_accessor_members_def zero_accessor_def Let_def)
qed

lemma list_all2_map_left: "list_all2 R (map f xs) vs \<Longrightarrow> (\<And>x v. x \<in> set xs \<Longrightarrow> R (f x) v \<Longrightarrow> Q v x) \<Longrightarrow> list_all2 Q vs xs"
  by (induction xs arbitrary: vs) (auto simp: list_all2_Cons1)

lemma gltf_from_json_tree:
  assumes "represents (gltf_tree num g) v" and "gltf_plain g" and "\<forall>n \<in> gltf_numbers g. exact D num n"
  shows "gltf_from_json D v = Done (True, g)"
proof -
  note p = assms(2) [unfolded gltf_plain_def gltf_links_def]
  note r = assms(1) [unfolded gltf_tree_def]
  obtain root where root: "v = json_object root" using represents_object_table [OF r] by blast
  note r' = r [unfolded root]
  let ?asset = "TObject [(str ''generator'', opt_string (asset_generator (gltf_asset g))),
        (str ''version'', opt_string (asset_version (gltf_asset g)))] :: 'a jtree"
  obtain gen ver where gv: "asset_generator (gltf_asset g) = Some gen" "asset_version (gltf_asset g) = Some ver"
    using p by auto
  obtain va where va: "represents ?asset va" "member_is root (str ''asset'') va"
    using object_member [OF r', of "str ''asset''"] by (auto simp: str_inject)
  obtain ta where ta: "va = json_object ta" using represents_object_table [OF va(1)] by blast
  have "member_is ta (str ''generator'') (json_string gen)" "member_is ta (str ''version'') (json_string ver)"
    using string_member [OF va(1) [unfolded ta]] gv by (simp_all add: str_inject opt_string_def)
  then have a: "gltf_read_asset (gltf_asset zero_gltf) (Some ta) = Done (True, gltf_asset g)"
    using gv by (simp add: gltf_read_asset_def json_get_string_def json_get_def member_is_def dupe_string_def zero_gltf_def)
  have o: "json_get_object root (str ''asset'') = Done (Some ta)"
    using va(2) by (simp add: json_get_object_def json_get_def member_is_def ta)
  define g0 where "g0 = zero_gltf\<lparr>gltf_asset := gltf_asset g\<rparr>"
  define g1 where "g1 = g0\<lparr>gltf_buffers := gltf_buffers g\<rparr>"
  obtain bvs where b: "member_is root (str ''buffers'') (json_array bvs)"
      "list_all2 represents (map (buffer_tree num) (gltf_buffers g)) bvs"
    using array_member [OF r', of "str ''buffers''"] by (auto simp: str_inject)
  obtain vvs where w: "member_is root (str ''bufferViews'') (json_array vvs)"
      "list_all2 represents (map (view_tree num) (gltf_buffer_views g)) vvs"
    using array_member [OF r', of "str ''bufferViews''"] by (auto simp: str_inject)
  obtain avs where c: "member_is root (str ''accessors'') (json_array avs)"
      "list_all2 represents (map (accessor_tree num) (gltf_accessors g)) avs"
    using array_member [OF r', of "str ''accessors''"] by (auto simp: str_inject)
  have "list_all2 (reads_element (gltf_read_buffer D) zero_buffer g0) bvs (gltf_buffers g)"
    by (rule list_all2_map_left [OF b(2)], rule read_buffer_tree) (use assms(3) in \<open>auto simp: gltf_numbers_def\<close>)
  moreover have "list_all2 (reads_element (gltf_read_buffer_view D) zero_buffer_view g1) vvs (gltf_buffer_views g)"
  proof (rule list_all2_map_left [OF w(2)])
    fix x v assume x: "x \<in> set (gltf_buffer_views g)" "represents (view_tree num x) v"
    then obtain i where i: "view_buffer x = Some i" "i < length (gltf_buffers g)"
      using p by (auto simp: list_all_iff view_ok_def)
    show "reads_element (gltf_read_buffer_view D) zero_buffer_view g1 v x"
      by (rule read_view_tree [OF x(2) i(1)])
        (use i p assms(3) x(1) in \<open>auto simp: g1_def gltf_numbers_def\<close>)
  qed
  moreover have "list_all2 (reads_element (gltf_read_accessor D) zero_accessor (g1\<lparr>gltf_buffer_views := gltf_buffer_views g\<rparr>))
      avs (gltf_accessors g)"
  proof (rule list_all2_map_left [OF c(2)])
    fix x v assume x: "x \<in> set (gltf_accessors g)" "represents (accessor_tree num x) v"
    show "reads_element (gltf_read_accessor D) zero_accessor (g1\<lparr>gltf_buffer_views := gltf_buffer_views g\<rparr>) v x"
    proof (rule read_accessor_tree [OF x(2)])
      have "word_of_nat ` set_option (accessor_buffer_view x) \<union>
          {accessor_byte_offset x, ucast (accessor_component_type x), accessor_count x} \<subseteq> gltf_numbers g"
        using x(1) unfolding gltf_numbers_def by blast
      then show "\<forall>n \<in> word_of_nat ` set_option (accessor_buffer_view x) \<union>
          {accessor_byte_offset x, ucast (accessor_component_type x), accessor_count x}. exact D num n"
        using assms(3) by blast
    qed (use p x(1) in \<open>auto simp: list_all_iff\<close>)
  qed
  moreover have "g = g1\<lparr>gltf_buffer_views := gltf_buffer_views g, gltf_accessors := gltf_accessors g\<rparr>"
    using p by (simp add: g1_def g0_def zero_gltf_def)
  ultimately show ?thesis
    unfolding gltf_from_json_iff using root o a g0_def g1_def b(1) w(1) c(1) by blast
qed

end
