(* ===== verification/FileIo.thy ===== *)
theory FileIo
  imports BufferIo
begin

text \<open>
  Whole files: \<open>load_file\<close> of \<open>src/file/file.c\<close>, which reads a stream into memory, and
  \<open>filebuffer\<close> of \<open>src/filebuffer/filebuffer.c\<close>, which copies a descriptor to a
  temporary file.
\<close>

section \<open>load_file\<close>

text \<open>
  \<open>fread\<close> of the C library on a stream over a descriptor: it reads until it has as many
  bytes as were asked for, the end of the file or an error.
\<close>

function fread :: "read_fd \<Rightarrow> nat \<Rightarrow> bytes \<times> read_fd" where
  "fread fd n =
     (if n = 0 then ([], fd)
      else case sys_read fd n of
             (None, fd') \<Rightarrow> ([], fd')
           | (Some bs, fd') \<Rightarrow>
               if bs = [] then ([], fd')
               else (case fread fd' (n - length bs) of (r, fd'') \<Rightarrow> (bs @ r, fd'')))"
  by pat_completeness auto
termination by (relation "measure snd") auto

declare fread.simps [simp del]

definition STREAM_READ_SIZE :: nat where
  "STREAM_READ_SIZE = 2 * 2 ^ 20"

definition STREAM_MAX_SIZE :: nat where
  "STREAM_MAX_SIZE = 50 * (2 * 2 ^ 20)"

lemma STREAM_READ_SIZE_pos [simp]: "0 < STREAM_READ_SIZE"
  by (simp add: STREAM_READ_SIZE_def)

text \<open>
  One pass of the loop from \<open>have_size\<close>; the result of the allocation is not tested.
  \<open>None\<close> is a write out of bounds.
\<close>

function load_file_loop ::
    "allocator \<Rightarrow> buffer \<Rightarrow> nat \<Rightarrow> read_fd \<Rightarrow> (bool \<times> buffer \<times> read_fd) option" where
  "load_file_loop al file_contents have_size file =
     (let next_size = have_size + STREAM_READ_SIZE + 1;
          b = snd (buffer_resize al file_contents next_size)
      in case fread file STREAM_READ_SIZE of
           (bs, file') \<Rightarrow>
             (case mem_write b have_size bs of
                None \<Rightarrow> None
              | Some b1 \<Rightarrow>
                  if length bs < STREAM_READ_SIZE
                  then (case mem_write (b1\<lparr>used := have_size + length bs\<rparr>) (have_size + length bs) [0] of
                          None \<Rightarrow> None
                        | Some b2 \<Rightarrow> Some (True, b2, file'))
                  else if have_size + length bs > STREAM_MAX_SIZE then Some (False, b1, file')
                  else load_file_loop al b1 (have_size + length bs) file'))"
  by pat_completeness auto
termination
  by (relation "measure (\<lambda>(al, b, have_size, file). Suc STREAM_MAX_SIZE - have_size)")
    (auto simp: not_less intro!: diff_less_mono2 dest: less_le_trans [OF STREAM_READ_SIZE_pos])

declare load_file_loop.simps [simp del]

definition load_file :: "allocator \<Rightarrow> buffer \<Rightarrow> read_fd \<Rightarrow> (bool \<times> buffer \<times> read_fd) option" where
  "load_file al file_contents file = load_file_loop al file_contents 0 file"

section \<open>filebuffer\<close>

definition BUFFER_IO_SMALL :: nat where
  "BUFFER_IO_SMALL = 2 ^ 20"

text \<open>
  The copy loop; the first component of the result is the last size. The sizes are those of
  \<open>buffer_read\<close> and of \<open>buffer_write\<close>.
\<close>

function filebuffer_loop ::
    "allocator \<Rightarrow> buffer \<Rightarrow> read_fd \<Rightarrow> write_fd \<Rightarrow> (int \<times> read_fd \<times> write_fd) option" where
  "filebuffer_loop al file_buffer in_fd tmp_fd =
     (case buffer_read al file_buffer BUFFER_IO_SMALL 0 in_fd of
        None \<Rightarrow> None
      | Some (r, file_buffer', in_fd') \<Rightarrow>
          if 0 < r then
            (case buffer_write_loop (contents file_buffer') 0 tmp_fd of
               (w, _, tmp_fd') \<Rightarrow>
                 if w < 0 then Some (w, in_fd', tmp_fd')
                 else filebuffer_loop al (buffer_rewrite file_buffer') in_fd' tmp_fd')
          else Some (r, in_fd', tmp_fd))"
  by pat_completeness auto
termination
  by (relation "measure (\<lambda>(al, b, in_fd, tmp_fd). fd_size in_fd)")
    (use buffer_read_fd_size in \<open>auto simp only: wf_measure in_measure split_conv\<close>)

declare filebuffer_loop.simps [simp del]

text \<open>
  The operating system gives the answers of \<open>mkstemp\<close>, a name for the template and a
  descriptor, and of \<open>lseek\<close>. The result is whether a descriptor is returned, the buffer with
  the name, and the descriptors. \<open>TMPDIR\<close> is looked up and then not used.
\<close>

definition filebuffer ::
    "allocator \<Rightarrow> (bytes \<times> write_fd) option \<Rightarrow> bool \<Rightarrow> buffer \<Rightarrow> read_fd
       \<Rightarrow> (bool \<times> buffer \<times> read_fd \<times> write_fd option) option" where
  "filebuffer al mkstemp lseek filename in_fd =
     (case mkstemp of
        None \<Rightarrow> Some (False, filename, in_fd, None)
      | Some (template, tmp_fd) \<Rightarrow>
          (case filebuffer_loop al buffer_zero in_fd tmp_fd of
             None \<Rightarrow> None
           | Some (r, in_fd', tmp_fd') \<Rightarrow>
               if r < 0 then Some (False, filename, in_fd', Some tmp_fd')
               else (case buffer_printf al filename template of
                       None \<Rightarrow> None
                     | Some filename' \<Rightarrow> Some (lseek, filename', in_fd', Some tmp_fd'))))"

text \<open>
  The program over \<open>filebuffer\<close> (\<open>src/filebuffer/filebuffer.util.c\<close>): the temporary file is read back,
  in pieces that \<open>tmp_read\<close> makes of its contents, written to the standard output, and removed. A
  failing write aborts the program, a failing read only ends the loop.
\<close>

function filebuffer_main_loop :: "allocator \<Rightarrow> buffer \<Rightarrow> read_fd \<Rightarrow> write_fd \<Rightarrow> (bool \<times> read_fd \<times> write_fd) option" where
  "filebuffer_main_loop al write_buffer fd stdout =
     (case buffer_read al write_buffer BUFFER_IO_SMALL 0 fd of
        None \<Rightarrow> None
      | Some (r, b', fd') \<Rightarrow>
          if 0 < r then
            (case buffer_write_loop (contents b') 0 stdout of
               (w, _, stdout') \<Rightarrow>
                 if w < 0 then Some (False, fd', stdout')
                 else filebuffer_main_loop al (buffer_rewrite b') fd' stdout')
          else Some (True, fd', stdout))"
  by pat_completeness auto
termination
  by (relation "measure (\<lambda>(al, b, fd, stdout). fd_size fd)")
    (use buffer_read_fd_size in \<open>auto simp only: wf_measure in_measure split_conv\<close>)

declare filebuffer_main_loop.simps [simp del]

text \<open>Whether the program ends without \<open>abort\<close>, the standard output, and the files it removes.\<close>

definition filebuffer_main ::
    "allocator \<Rightarrow> (bytes \<times> write_fd) option \<Rightarrow> bool \<Rightarrow> (bytes \<Rightarrow> read_fd) \<Rightarrow> read_fd \<Rightarrow> write_fd
       \<Rightarrow> (bool \<times> write_fd \<times> bytes list) option" where
  "filebuffer_main al mkstemp lseek tmp_read stdin stdout =
     (case filebuffer al mkstemp lseek buffer_zero stdin of
        Some (True, filename, _, Some tmp_fd) \<Rightarrow>
          map_option (\<lambda>(ok, _, stdout'). (ok, stdout', [contents filename]))
            (filebuffer_main_loop al buffer_zero (tmp_read (sent tmp_fd)) stdout)
      | Some (_, _, _, _) \<Rightarrow> Some (False, stdout, [])
      | None \<Rightarrow> None)"

section \<open>Reading streams\<close>

text \<open>An error is the end of the file for \<open>fread\<close>, as it is for \<open>fd_data\<close>.\<close>

lemma fread_data:
  assumes "Some [] \<notin> set fd"
  shows "fst (fread fd n) = take n (fd_data fd) \<and>
    (n \<le> length (fd_data fd) \<longrightarrow> fd_data (snd (fread fd n)) = drop n (fd_data fd) \<and> Some [] \<notin> set (snd (fread fd n)))"
  using assms
proof (induction fd n rule: fread.induct)
  case (1 fd n)
  show ?case
  proof (cases "n = 0")
    case True
    then show ?thesis using 1 by (simp add: fread.simps)
  next
    case False
    show ?thesis
    proof (cases fd)
      case Nil
      then show ?thesis using False by (simp add: fread.simps)
    next
      case (Cons a s)
      show ?thesis
      proof (cases a)
        case None
        then show ?thesis using Cons False by (simp add: fread.simps)
      next
        case (Some bs)
        let ?bs = "if length bs \<le> n then bs else take n bs"
        let ?fd = "if length bs \<le> n then s else Some (drop n bs) # s"
        have rd: "sys_read fd n = (Some ?bs, ?fd)" using Cons Some by simp
        have ne: "?bs \<noteq> []" and clean: "Some [] \<notin> set ?fd" using 1(2) Cons Some False by auto
        have dt: "fd_data fd = ?bs @ fd_data ?fd" and len: "length ?bs \<le> n" using Cons Some by auto
        note ih = 1(1) [OF False rd [symmetric] refl ne clean]
        obtain r fd'' where r: "fread ?fd (n - length ?bs) = (r, fd'')" by (cases "fread ?fd (n - length ?bs)")
        have "fread fd n = (?bs @ r, fd'')" using False rd ne r by (subst fread.simps) simp
        then show ?thesis using ih len unfolding dt r by auto
      qed
    qed
  qed
qed

text \<open>
  The loop stops before the limit if the rest of the stream is short enough. Its invariant:
  the first \<open>have_size\<close> bytes of the memory are what was read.
\<close>

lemma load_file_loop_data:
  assumes "Some [] \<notin> set fd" and "take have_size (mem b) = c" and "length c = have_size"
    and "buffer_wf b" and "have_size \<le> used b" and "have_size \<le> STREAM_MAX_SIZE" and "STREAM_READ_SIZE dvd have_size"
    and "\<forall>m < 2 ^ 63. can_alloc al m"
  shows "\<exists>b' fd'. load_file_loop al b have_size fd
      = Some (have_size + length (fd_data fd) < STREAM_MAX_SIZE + STREAM_READ_SIZE, b', fd') \<and>
    (have_size + length (fd_data fd) < STREAM_MAX_SIZE + STREAM_READ_SIZE \<longrightarrow>
      contents b' = c @ fd_data fd \<and> buffer_wf b' \<and> terminated b')"
  using assms(1-7)
proof (induction "STREAM_MAX_SIZE - have_size" arbitrary: b c have_size fd rule: less_induct)
  case less
  let ?S = STREAM_READ_SIZE and ?M = STREAM_MAX_SIZE
  obtain bs fd' where f: "fread fd ?S = (bs, fd')" by (cases "fread fd ?S")
  have bs: "bs = take ?S (fd_data fd)"
    and rest: "?S \<le> length (fd_data fd) \<Longrightarrow> fd_data fd' = drop ?S (fd_data fd) \<and> Some [] \<notin> set fd'"
    using fread_data [OF less.prems(1), of ?S] f by auto
  have "have_size + ?S + 1 < 2 ^ 60" using less.prems(6) by (simp add: STREAM_MAX_SIZE_def STREAM_READ_SIZE_def)
  then obtain b0 where b0: "buffer_resize al b (have_size + ?S + 1) = (0, b0)" "used b0 = have_size + ?S + 1"
      "buffer_wf b0" "take (used b) (mem b0) = contents b"
    using buffer_resize_keeps [OF _ assms(8) less.prems(4)] by metis
  have tk: "take have_size (mem b0) = c"
    using arg_cong [OF b0(4), of "take have_size"] less.prems(2,5) by (simp add: contents_def min_def)
  have room: "have_size + length bs < length (mem b0)" using b0(2,3) bs by (simp add: buffer_wf_def)
  then obtain b1 where b1: "mem_write b0 have_size bs = Some b1" "used b1 = used b0"
      "length (mem b1) = length (mem b0)" "take (have_size + length bs) (mem b1) = c @ bs"
    using mem_write_Some [of have_size bs b0] tk by auto
  show ?case
  proof (cases "length bs < ?S")
    case True
    then have all: "bs = fd_data fd" using bs by (simp add: min_def split: if_splits)
    have "have_size + length bs < length (mem b1)" using room b1(3) by simp
    from mem_write_terminate [OF b1(4) less_imp_le [OF this] refl this] obtain b2 where
      b2: "mem_write (b1\<lparr>used := have_size + length bs\<rparr>) (have_size + length bs) [0] = Some b2"
        "contents b2 = c @ bs" "buffer_wf b2" by blast
    have "load_file_loop al b have_size fd = Some (True, b2, fd')"
      using f b0(1) b1(1) b2(1) True by (subst load_file_loop.simps) (simp add: Let_def)
    moreover have "have_size + length (fd_data fd) < ?M + ?S" using True all less.prems(6) by simp
    ultimately show ?thesis using b2 all mem_write_null [OF b2(1)] by simp
  next
    case False
    then have len: "length bs = ?S" "?S \<le> length (fd_data fd)" using bs by simp_all
    show ?thesis
    proof (cases "have_size + ?S > ?M")
      case True
      have stop: "load_file_loop al b have_size fd = Some (False, b1, fd')"
        using f b0(1) b1(1) len(1) True by (subst load_file_loop.simps) (simp add: Let_def)
      obtain k where k: "have_size = ?S * k" using less.prems(7) by blast
      have M: "?M = ?S * 50" by (simp add: STREAM_MAX_SIZE_def STREAM_READ_SIZE_def)
      have "?S * 50 < ?S * (k + 1)" using True k M by simp
      then have "50 \<le> k" using STREAM_READ_SIZE_pos by (simp only: mult_less_cancel1) simp
      then have "?M \<le> have_size" unfolding k M by (rule mult_le_mono2)
      then have "\<not> have_size + length (fd_data fd) < ?M + ?S" using len(2) by simp
      with stop show ?thesis by simp
    next
      case False
      have "take (have_size + ?S) (mem b1) = c @ bs" "length (c @ bs) = have_size + ?S"
        "buffer_wf b1" "have_size + ?S \<le> used b1"
        using b1 len(1) less.prems(3) b0(2,3) by (simp_all add: buffer_wf_def)
      moreover have "?M - (have_size + ?S) < ?M - have_size" "have_size + ?S \<le> ?M" "?S dvd have_size + ?S"
        using False less.prems(7) STREAM_READ_SIZE_pos by (linarith, linarith, simp)
      moreover have "Some [] \<notin> set fd'" using rest len(2) by simp
      ultimately obtain b' fd2 where ih: "load_file_loop al b1 (have_size + ?S) fd'
          = Some (have_size + ?S + length (fd_data fd') < ?M + ?S, b', fd2)"
          "have_size + ?S + length (fd_data fd') < ?M + ?S \<longrightarrow>
            contents b' = (c @ bs) @ fd_data fd' \<and> buffer_wf b' \<and> terminated b'"
        using less.hyps [of "have_size + ?S" fd' b1 "c @ bs"] by blast
      have "load_file_loop al b have_size fd = load_file_loop al b1 (have_size + ?S) fd'"
        using f b0(1) b1(1) len(1) False by (subst load_file_loop.simps) (simp add: Let_def)
      moreover have "bs @ fd_data fd' = fd_data fd" "?S + length (fd_data fd') = length (fd_data fd)"
        using rest [OF len(2)] bs len(2) by simp_all
      ultimately show ?thesis using ih by (simp add: add.assoc)
    qed
  qed
qed

section \<open>Copying to a temporary file\<close>

lemma filebuffer_loop_copies:
  assumes "io_room al b (length (fd_data in_fd)) 0" and "contents b = []"
    and "fd_clean in_fd" and "fd_accepts tmp_fd"
  shows "\<exists>in_fd' tmp_fd'. filebuffer_loop al b in_fd tmp_fd = Some (0, in_fd', tmp_fd') \<and>
    sent tmp_fd' = sent tmp_fd @ fd_data in_fd"
  using assms
proof (induction "fd_size in_fd" arbitrary: b in_fd tmp_fd rule: less_induct)
  case less
  have u: "used b = 0" using less.prems(1,2) length_contents [of b] by (simp add: io_room_def)
  obtain bs b' fd' where r: "buffer_read al b BUFFER_IO_SMALL 0 in_fd = Some (int (length bs), b', fd')"
      "contents b' = contents b @ bs" "fd_data in_fd = bs @ fd_data fd'" "fd_clean fd'"
      "io_room al b' (length (fd_data in_fd) - length bs) 0"
      "bs = [] \<longrightarrow> fd_data in_fd = [] \<or> BUFFER_IO_SMALL \<noteq> 0 \<and> used b = BUFFER_IO_SMALL"
    using buffer_read_clean [OF less.prems(1,3), of BUFFER_IO_SMALL] u by (metis le0 order_refl)
  show ?case
  proof (cases "bs = []")
    case True
    then have "filebuffer_loop al b in_fd tmp_fd = Some (0, fd', tmp_fd)"
      using r(1) by (simp add: filebuffer_loop.simps [of al b])
    moreover have "fd_data in_fd = []" using r(6) True u by (auto simp: BUFFER_IO_SMALL_def)
    ultimately show ?thesis by simp
  next
    case False
    obtain tmp_fd2 where w: "buffer_write_loop bs 0 tmp_fd = (0, length bs, tmp_fd2)"
        "sent tmp_fd2 = sent tmp_fd @ bs" "fd_accepts tmp_fd2"
      using buffer_write_loop_accepts [OF less.prems(4), of 0 bs] by auto
    have room: "io_room al (buffer_rewrite b') (length (fd_data fd')) 0"
      using r(3,5) by (simp add: io_room_def buffer_rewrite_def buffer_wf_def)
    have "fd_size fd' < fd_size in_fd" using buffer_read_fd_size [OF r(1)] False by simp
    then obtain in_fd' tmp_fd' where "filebuffer_loop al (buffer_rewrite b') fd' tmp_fd2 = Some (0, in_fd', tmp_fd')"
        "sent tmp_fd' = sent tmp_fd2 @ fd_data fd'"
      using less.hyps [OF _ room contents_rewrite(1) r(4) w(3)] by blast
    moreover have "contents b' = bs" using r(2) less.prems(2) by simp
    ultimately show ?thesis
      using r(1,3) False w(1,2) by (subst filebuffer_loop.simps) simp
  qed
qed

text \<open>Where the loop of \<open>filebuffer\<close> succeeds, that of the program does the same.\<close>

lemma filebuffer_main_loop_eq:
  "filebuffer_loop al b fd out = Some (0, fd', out') \<Longrightarrow> filebuffer_main_loop al b fd out = Some (True, fd', out')"
proof (induction al b fd out rule: filebuffer_loop.induct)
  case (1 al b fd out)
  from 1(2) show ?case
    by (subst (asm) filebuffer_loop.simps, subst filebuffer_main_loop.simps)
      (auto split: option.splits prod.splits if_splits intro: 1(1))
qed

section \<open>Properties\<close>

text \<open>C27: \<open>load_file\<close> reads a whole stream: with memory to allocate it returns, true exactly for
  a stream of less than 51 times two megabytes, and then the buffer holds what the stream delivers and a null
  byte stands behind it. A read error is taken for the end of the file.\<close>

theorem load_file_reads_all:
  assumes "Some [] \<notin> set fd" and "\<forall>m < 2 ^ 63. can_alloc al m"
  shows "\<exists>b' fd'. load_file al buffer_zero fd
      = Some (length (fd_data fd) < 51 * (2 * 2 ^ 20), b', fd') \<and>
    (length (fd_data fd) < 51 * (2 * 2 ^ 20) \<longrightarrow> contents b' = fd_data fd \<and> buffer_wf b' \<and> terminated b')"
proof -
  have "STREAM_MAX_SIZE + STREAM_READ_SIZE = 51 * (2 * 2 ^ 20)"
    by (simp add: STREAM_MAX_SIZE_def STREAM_READ_SIZE_def)
  then show ?thesis
    using load_file_loop_data [OF assms(1), of 0 buffer_zero "[]" al] assms(2)
    by (simp add: load_file_def buffer_zero_def buffer_wf_def)
qed

theorem load_file_reads_all_witness:
  "\<exists>b' fd'. load_file plain_alloc buffer_zero [Some [1, 2], Some [3], None, Some [4]]
      = Some (length (fd_data [Some [1, 2], Some [3], None, Some [4]]) < 51 * (2 * 2 ^ 20), b', fd') \<and>
    (length (fd_data [Some [1, 2], Some [3], None, Some [4]]) < 51 * (2 * 2 ^ 20) \<longrightarrow>
      contents b' = fd_data [Some [1, 2], Some [3], None, Some [4]] \<and> buffer_wf b' \<and> terminated b')"
  by (rule load_file_reads_all) simp_all

text \<open>\<open>filebuffer\<close> copies a descriptor: when reading and writing do not fail, the
  temporary file receives exactly the bytes that the descriptor delivers, whatever pieces they
  come and go in, its name is handed out, and the result is a descriptor unless the file cannot be
  rewound.\<close>

theorem filebuffer_copies:
  assumes "fd_clean in_fd" and "fd_accepts tmp_fd" and "length (fd_data in_fd) < 2 ^ 57"
    and "\<forall>m < 2 ^ 63. can_alloc al m" and "buffer_wf filename" and "length template < 2 ^ 57"
  shows "\<exists>filename' in_fd' tmp_fd'.
    filebuffer al (Some (template, tmp_fd)) lseek filename in_fd = Some (lseek, filename', in_fd', Some tmp_fd') \<and>
    contents filename' = template \<and> sent tmp_fd' = sent tmp_fd @ fd_data in_fd"
proof -
  have "io_room al buffer_zero (length (fd_data in_fd)) 0" "contents buffer_zero = []"
    using assms(3,4) by (simp_all add: io_room_def buffer_wf_def buffer_zero_def contents_def)
  from filebuffer_loop_copies [OF this assms(1,2)] obtain in_fd' tmp_fd' where
    l: "filebuffer_loop al buffer_zero in_fd tmp_fd = Some (0, in_fd', tmp_fd')"
      "sent tmp_fd' = sent tmp_fd @ fd_data in_fd" by blast
  obtain f where "buffer_printf al filename template = Some f" "contents f = template"
    using buffer_printf_contents [OF assms(5) _ assms(4), of template] assms(6) by auto
  then show ?thesis using l by (simp add: filebuffer_def)
qed

theorem filebuffer_copies_witness:
  "\<exists>filename' in_fd' tmp_fd'.
    filebuffer plain_alloc (Some (str ''filestore-add-aB3xY9'', \<lparr>accept = [Some 1, Some 5], sent = []\<rparr>)) True
      buffer_zero [Some [1, 2, 3]] = Some (True, filename', in_fd', Some tmp_fd') \<and>
    contents filename' = str ''filestore-add-aB3xY9'' \<and>
    sent tmp_fd' = sent \<lparr>accept = [Some 1, Some 5], sent = []\<rparr> @ fd_data [Some [1, 2, 3]]"
  by (rule filebuffer_copies) (simp_all add: fd_accepts_def buffer_wf_def buffer_zero_def str_def)

text \<open>The \<open>filebuffer\<close> program writes what its standard input delivers, which went through a temporary
  file, unchanged to its standard output, whatever pieces all these come in, and removes the file.\<close>

theorem filebuffer_main_copies:
  assumes "fd_clean stdin" and "fd_accepts tmp_fd" and "sent tmp_fd = []" and "length (fd_data stdin) < 2 ^ 57"
    and "\<forall>m < 2 ^ 63. can_alloc al m" and "length template < 2 ^ 57"
    and "fd_clean (tmp_read (fd_data stdin))" and "fd_data (tmp_read (fd_data stdin)) = fd_data stdin"
    and "fd_accepts stdout"
  shows "\<exists>stdout'. filebuffer_main al (Some (template, tmp_fd)) True tmp_read stdin stdout = Some (True, stdout', [template]) \<and>
    sent stdout' = sent stdout @ fd_data stdin"
proof -
  obtain f in' tmp' where f: "filebuffer al (Some (template, tmp_fd)) True buffer_zero stdin = Some (True, f, in', Some tmp')"
      "contents f = template" "sent tmp' = fd_data stdin"
    using filebuffer_copies [OF assms(1,2,4,5) buffer_wf_zero assms(6), of True] assms(3) by auto
  have "io_room al buffer_zero (length (fd_data (tmp_read (fd_data stdin)))) 0" "contents buffer_zero = []"
    using assms(4,5,8) by (simp_all add: io_room_def buffer_wf_def buffer_zero_def contents_def)
  from filebuffer_loop_copies [OF this assms(7,9)] assms(8) obtain fd' out' where
    "filebuffer_loop al buffer_zero (tmp_read (fd_data stdin)) stdout = Some (0, fd', out')"
    "sent out' = sent stdout @ fd_data stdin" by auto
  then show ?thesis using f filebuffer_main_loop_eq by (fastforce simp: filebuffer_main_def)
qed

theorem filebuffer_main_copies_witness:
  "\<exists>stdout'. filebuffer_main plain_alloc (Some (str ''filestore-add-aB3xY9'', \<lparr>accept = [Some 1], sent = []\<rparr>)) True
      (\<lambda>d. map (\<lambda>c. Some [c]) d) [Some [1, 2, 3]] \<lparr>accept = [Some 2], sent = [9]\<rparr> =
    Some (True, stdout', [str ''filestore-add-aB3xY9'']) \<and>
    sent stdout' = sent \<lparr>accept = [Some 2], sent = [9]\<rparr> @ fd_data [Some [1, 2, 3]]"
  by (rule filebuffer_main_copies) (simp_all add: fd_accepts_def str_def)

end
