(* ===== verification/GlbFile.thy ===== *)
theory GlbFile
  imports GltfDocument FileIo
begin

text \<open>
  GLB files and the programs that print them: \<open>glb_toc_load_file\<close> of
  \<open>src/backburner/gltf/gltf.c\<close>, the two main functions of \<open>glb-info.util.c\<close> and the one of
  \<open>glb-json.util.c\<close>. A stream is the descriptor below it; the file system gives the
  streams, \<open>None\<close> being a file that cannot be opened, whose null pointer nobody looks at.
\<close>

section \<open>Loading\<close>

text \<open>The table of contents and the contents of the file, which its pointers point into.\<close>

definition glb_toc_load_file :: "allocator \<Rightarrow> read_fd \<Rightarrow> (unit, glb_toc \<times> bytes) outcome" where
  "glb_toc_load_file al file =
     (case load_file al buffer_zero file of
        None \<Rightarrow> Fault
      | Some (ok, b, file') \<Rightarrow>
          if \<not> ok then Fail ()
          else and_then (glb_toc_load_memory (contents b)) (\<lambda>toc. Done (toc, contents b)))"

section \<open>Programs\<close>

text \<open>What is logged to the standard output: the strings and numbers of the formats.\<close>

datatype glb_log = Log_path bytes | Log_string bytes bytes | Log_count nat bytes | Log_line bytes | Log_empty

text \<open>
  Opening, loading and parsing; \<open>Done None\<close> is the message that the file failed to load. The
  text is followed by the next chunk; a read behind the text counts as a fault. The result of
  \<open>json_parse\<close> is not tested, so a null pointer is dereferenced next.
\<close>

definition glb_parse_file ::
    "(bytes \<Rightarrow> 'd \<times> nat) \<Rightarrow> allocator \<Rightarrow> (bytes \<Rightarrow> read_fd option) \<Rightarrow> bytes \<Rightarrow> (unit, 'd json_value option) outcome" where
  "glb_parse_file strtod al files file_path =
     (case files file_path of
        None \<Rightarrow> Fault
      | Some file \<Rightarrow>
          (case glb_toc_load_file al file of
             Fault \<Rightarrow> Fault
           | Loop \<Rightarrow> Loop
           | Fail _ \<Rightarrow> Done None
           | Done (toc, m) \<Rightarrow>
               and_then (chunk_data m (toc_json toc)) (\<lambda>text.
                 case json_parse strtod False text of
                   Fault \<Rightarrow> Fault
                 | Loop \<Rightarrow> Loop
                 | Fail _ \<Rightarrow> Fault
                 | Done v \<Rightarrow> Done (Some v))))"



text \<open>The functions of \<open>main2\<close>, with their result and the log.\<close>

definition print_object_string ::
    "'d json_value table \<Rightarrow> bytes \<Rightarrow> bytes \<Rightarrow> glb_log list \<Rightarrow> (unit, bool \<times> glb_log list) outcome" where
  "print_object_string object key prefix logs =
     json_get object key (\<lambda>value. case value of
         json_string s \<Rightarrow> (True, logs @ [Log_string prefix s])
       | _ \<Rightarrow> (False, logs))"

definition print_asset :: "'d json_value table \<Rightarrow> glb_log list \<Rightarrow> (unit, bool \<times> glb_log list) outcome" where
  "print_asset root_object logs =
     (case json_lookup root_object (str ''asset'') of
        None \<Rightarrow> Fault
      | Some None \<Rightarrow> Done (False, logs)
      | Some (Some asset_value) \<Rightarrow>
          (case asset_value of
             json_object asset_object \<Rightarrow>
               and_then (print_object_string asset_object (str ''generator'') (str ''Asset generator:'') logs) (\<lambda>(ok, logs1).
                 if \<not> ok then Done (False, logs1)
                 else print_object_string asset_object (str ''version'') (str ''GLTF version:'') logs1)
           | _ \<Rightarrow> Done (False, logs)))"

fun print_scenes_loop :: "'d json_value list \<Rightarrow> glb_log list \<Rightarrow> (unit, bool \<times> glb_log list) outcome" where
  "print_scenes_loop [] logs = Done (True, logs)"
| "print_scenes_loop (json_object scene # scenes) logs =
     and_then (json_get scene (str ''name'') id) (\<lambda>name_value.
       case name_value of
         json_string s \<Rightarrow> print_scenes_loop scenes (logs @ [Log_string (str ''Scene: name='') s])
       | _ \<Rightarrow> Done (False, logs))"
| "print_scenes_loop (scene # scenes) logs = Done (False, logs)"

definition plural :: "bytes \<Rightarrow> bytes \<Rightarrow> nat \<Rightarrow> bytes" where
  "plural one many n = (if n > 1 then many else one)"

definition print_scenes :: "'d json_value table \<Rightarrow> glb_log list \<Rightarrow> (unit, bool \<times> glb_log list) outcome" where
  "print_scenes root_object logs =
     (case json_lookup root_object (str ''scenes'') of
        None \<Rightarrow> Fault
      | Some None \<Rightarrow> Done (False, logs)
      | Some (Some scenes_value) \<Rightarrow>
          (case scenes_value of
             json_array scenes \<Rightarrow>
               print_scenes_loop scenes
                 (logs @ [Log_count (length scenes) (plural (str ''scene'') (str ''scenes'') (length scenes))])
           | _ \<Rightarrow> Done (False, logs)))"

fun glb_info_loop2 ::
    "(bytes \<Rightarrow> 'd \<times> nat) \<Rightarrow> allocator \<Rightarrow> (bytes \<Rightarrow> read_fd option) \<Rightarrow> nat \<Rightarrow> bytes list
       \<Rightarrow> glb_log list \<Rightarrow> (unit, int \<times> glb_log list) outcome" where
  "glb_info_loop2 strtod al files argc [] logs = Done (0, logs)"
| "glb_info_loop2 strtod al files argc (file_path # argv) logs =
     (let logs1 = logs @ (if argc > 2 then [Log_path file_path] else [])
      in and_then (glb_parse_file strtod al files file_path) (\<lambda>root_value.
        case root_value of
          Some (json_object root_object) \<Rightarrow>
            and_then (print_asset root_object logs1) (\<lambda>(ok, logs2).
              if \<not> ok then Done (1, logs2)
              else and_then (print_scenes root_object logs2) (\<lambda>(ok, logs3).
                if \<not> ok then Done (1, logs3)
                else glb_info_loop2 strtod al files argc argv (logs3 @ (if argc > 2 then [Log_empty] else []))))
        | _ \<Rightarrow> Done (1, logs1)))"

definition glb_info_main2 ::
    "(bytes \<Rightarrow> 'd \<times> nat) \<Rightarrow> allocator \<Rightarrow> (bytes \<Rightarrow> read_fd option) \<Rightarrow> bytes list
       \<Rightarrow> (unit, int \<times> glb_log list) outcome" where
  "glb_info_main2 strtod al files argv = glb_info_loop2 strtod al files (length argv) (tl argv) []"

text \<open>
  \<open>glb-json\<close> prints the text up to its first null byte. A file that loads is too short for the
  precision to be negative.
\<close>

definition glb_json_main ::
    "allocator \<Rightarrow> (bytes \<Rightarrow> read_fd option) \<Rightarrow> bytes list \<Rightarrow> (unit, int \<times> glb_log list) outcome" where
  "glb_json_main al files argv =
     (if length argv \<noteq> 2 then Done (1, [])
      else case files (argv ! 1) of
             None \<Rightarrow> Fault
           | Some file \<Rightarrow>
               (case glb_toc_load_file al file of
                  Fault \<Rightarrow> Fault
                | Loop \<Rightarrow> Loop
                | Fail _ \<Rightarrow> Done (1, [])
                | Done (toc, m) \<Rightarrow>
                    and_then (chunk_data m (toc_json toc)) (\<lambda>text.
                      Done (0, [Log_line (takeWhile (\<lambda>c. c \<noteq> 0) text)]))))"

section \<open>Files\<close>

text \<open>A file with a JSON chunk and the header of a binary chunk of \<open>n\<close> bytes, and what follows.\<close>

definition glb_front :: "nat \<Rightarrow> nat \<Rightarrow> bytes \<Rightarrow> nat \<Rightarrow> bytes" where
  "glb_front version whole text n =
     le32_bytes GLB_MAGIC @ le32_bytes version @ le32_bytes whole @
     le32_bytes (length text) @ le32_bytes GLB_CHUNKTYPE_JSON @ text @
     le32_bytes n @ le32_bytes GLB_CHUNKTYPE_BIN"

definition glb_file :: "nat \<Rightarrow> bytes \<Rightarrow> bytes \<Rightarrow> bytes" where
  "glb_file version text bin = glb_front version (28 + length text + length bin) text (length bin) @ bin"

definition text_toc :: "bytes \<Rightarrow> glb_toc" where
  "text_toc text = \<lparr>toc_header = 0, toc_json = 12, toc_bin = 20 + length text\<rparr>"

lemma glb_u32_at: "n < 2 ^ 32 \<Longrightarrow> pos = length a \<Longrightarrow> glb_u32 (a @ le32_bytes n @ b) pos = Done n"
  by (simp add: glb_u32_def le32_bytes_roundtrip)

lemma length_glb_front [simp]: "length (glb_front version whole text n) = 28 + length text"
  by (simp add: glb_front_def)

lemma glb_front_fields:
  assumes "n < 2 ^ 32" and "length text < 2 ^ 32"
  shows "glb_header_magic (glb_front version whole text n @ r) 0 = Done GLB_MAGIC"
    and "chunk_length (glb_front version whole text n @ r) 12 = Done (length text)"
    and "chunk_type (glb_front version whole text n @ r) 12 = Done GLB_CHUNKTYPE_JSON"
    and "chunk_length (glb_front version whole text n @ r) (20 + length text) = Done n"
    and "chunk_type (glb_front version whole text n @ r) (20 + length text) = Done GLB_CHUNKTYPE_BIN"
proof -
  let ?a = "le32_bytes GLB_MAGIC @ le32_bytes version @ le32_bytes whole"
  let ?b = "?a @ le32_bytes (length text)" and ?c = "?a @ le32_bytes (length text) @ le32_bytes GLB_CHUNKTYPE_JSON @ text"
  have m: "GLB_MAGIC < 2 ^ 32" "GLB_CHUNKTYPE_JSON < 2 ^ 32" "GLB_CHUNKTYPE_BIN < 2 ^ 32"
    by (simp_all add: GLB_MAGIC_def GLB_CHUNKTYPE_JSON_def GLB_CHUNKTYPE_BIN_def)
  show "glb_header_magic (glb_front version whole text n @ r) 0 = Done GLB_MAGIC"
    using glb_u32_at [OF m(1), of 0 "[]"] by (simp add: glb_header_magic_def glb_front_def)
  show "chunk_length (glb_front version whole text n @ r) 12 = Done (length text)"
    using glb_u32_at [OF assms(2), of 12 ?a] by (simp add: chunk_length_def glb_front_def)
  show "chunk_type (glb_front version whole text n @ r) 12 = Done GLB_CHUNKTYPE_JSON"
    using glb_u32_at [OF m(2), of 16 ?b] by (simp add: chunk_type_def glb_front_def)
  show "chunk_length (glb_front version whole text n @ r) (20 + length text) = Done n"
    using glb_u32_at [OF assms(1), of _ ?c] by (simp add: chunk_length_def glb_front_def)
  show "chunk_type (glb_front version whole text n @ r) (20 + length text) = Done GLB_CHUNKTYPE_BIN"
    using glb_u32_at [OF m(3), of _ "?c @ le32_bytes n"] by (simp add: chunk_type_def glb_front_def)
qed

text \<open>The table of contents of a file whose binary chunk may be incomplete.\<close>

lemma glb_toc_load_front:
  assumes "n < 2 ^ 32" and "length text < 2 ^ 32"
  shows "glb_toc_load_memory (glb_front version whole text n @ r) =
    (if n \<le> 8 + length r then Done (text_toc text) else Fail ())"
proof -
  note f = glb_front_fields [OF assms, of version whole r]
  have s: "sizeof_glb_header = 12" "sizeof_glb_chunk_header = 8"
    by (simp_all add: sizeof_glb_header_def sizeof_glb_chunk_header_def)
  have "12 + length text + 8 = 20 + length text" by simp
  then show ?thesis
    by (simp add: glb_toc_load_memory_def s f Let_def text_toc_def)
qed

lemma chunk_data_front:
  assumes "n < 2 ^ 32" and "length text < 2 ^ 32"
  shows "chunk_data (glb_front version whole text n @ r) 12 = Done text"
    and "chunk_data (glb_front version whole text n @ r) (20 + length text) =
      (if n \<le> length r then Done (take n r) else Fault)"
proof -
  note f = glb_front_fields [OF assms, of version whole r]
  have s: "sizeof_glb_chunk_header = 8" by (simp add: sizeof_glb_chunk_header_def)
  have "take (length text) (drop 20 (glb_front version whole text n @ r)) = text" by (simp add: glb_front_def)
  then show "chunk_data (glb_front version whole text n @ r) 12 = Done text"
    by (simp add: chunk_data_def f s)
  show "chunk_data (glb_front version whole text n @ r) (20 + length text) =
      (if n \<le> length r then Done (take n r) else Fault)"
    by (simp add: chunk_data_def f s)
qed

section \<open>Parsing and printing\<close>

lemma json_parse_render:
  assumes "reads_numbers strtod pn" and "tree_ok t" and "length (render pn t) < 2 ^ 50" and "delimited pad"
  shows "\<exists>v. json_parse strtod nul (render pn t @ pad) = Done v \<and> represents t v"
proof -
  have "reads_back strtod nul pn t" using assms(1-3) by (rule all_reads_back)
  then obtain v where "read_value (2 * length (render pn t @ pad) + 1) strtod nul (render pn t @ pad) = Done (v, pad)"
      "represents t v" using assms(4) unfolding reads_back_def by blast
  then show ?thesis by (simp add: json_parse_def)
qed







text \<open>A number format for the witnesses: a digit and two bytes.\<close>

definition wide_digit :: "16 word \<Rightarrow> bytes" where
  "wide_digit d = [48, ucast (drop_bit 8 d), ucast d]"

definition read_wide_digit :: "bytes \<Rightarrow> 16 word \<times> nat" where
  "read_wide_digit t = (push_bit 8 (ucast (t ! 1)) OR ucast (t ! 2), 3)"

definition wide_double :: "16 word double" where
  "wide_double = \<lparr>double_0 = 0, double_1 = 1, to_size_t = (\<lambda>d. Some (ucast d)), to_enum = (\<lambda>d. Some (ucast d))\<rparr>"

lemma wide_digits: "reads_numbers read_wide_digit wide_digit"
proof -
  have "push_bit 8 (ucast (ucast (drop_bit 8 d) :: byte)) OR ucast (ucast d :: byte) = d" for d :: "16 word"
    by (rule bit_word_eqI) (auto simp: bit_simps)
  then show ?thesis by (simp add: reads_numbers_def wide_digit_def read_wide_digit_def byte_of_def)
qed

lemma wide_exact: "unat n < 2 ^ 16 \<Longrightarrow> exact wide_double ucast n"
  by (auto simp: exact_def wide_double_def word_unat_eq_iff unsigned_ucast_eq unsigned_take_bit_eq
      take_bit_nat_eq_self)

definition example_gltf :: gltf where
  "example_gltf = \<lparr>gltf_asset = \<lparr>asset_generator = Some (str ''G''), asset_version = Some (str ''2.0'')\<rparr>,
     gltf_buffers = [\<lparr>buffer_uri = None, buffer_byte_length = 4\<rparr>],
     gltf_buffer_views = [\<lparr>view_buffer = Some 0, view_byte_length = 4, view_byte_offset = 0, view_byte_stride = 1\<rparr>],
     gltf_accessors = [\<lparr>accessor_type = 1, accessor_component_type = 5126, accessor_buffer_view = Some 0,
       accessor_byte_offset = 0, accessor_count = 1, accessor_sparse = zero_sparse\<rparr>],
     gltf_materials = [], gltf_meshes = []\<rparr>"

lemma example_plain: "gltf_plain example_gltf"
  by (simp add: gltf_plain_def gltf_links_def example_gltf_def view_ok_def accessor_ok_def known_accessor_types_def
      accessor_types validate_component_type_def component_types zero_sparse_def)

lemma example_exact: "\<forall>n \<in> gltf_numbers example_gltf. exact wide_double ucast n"
  by (auto simp: gltf_numbers_def example_gltf_def intro!: wide_exact)

lemma example_tree_ok: "tree_ok (gltf_tree ucast example_gltf)"
  by (simp add: gltf_tree_def example_gltf_def buffer_tree_def view_tree_def accessor_tree_def index_tree_def
      opt_string_def type_text_def plain_char_def str_def byte_of_def accessor_types)

lemma example_length: "length (render wide_digit (gltf_tree ucast example_gltf)) < 1000"
  by (simp add: gltf_tree_def example_gltf_def buffer_tree_def view_tree_def accessor_tree_def index_tree_def
      opt_string_def type_text_def render_string_def render_char_def str_def byte_of_def accessor_types wide_digit_def)

section \<open>Properties\<close>

text \<open>C23: The table of contents is safe on every file: \<open>glb_toc_load_memory\<close> never reads out of
  bounds, and when it accepts a file, the JSON text that its pointer leads to lies within the file, and
  so does the header of the binary chunk.\<close>

theorem glb_toc_load_safe:
  "glb_toc_load_memory m = Fail () \<or>
    (\<exists>toc text n. glb_toc_load_memory m = Done toc \<and> chunk_data m (toc_json toc) = Done text \<and>
      toc_bin toc = toc_json toc + sizeof_glb_chunk_header + length text \<and>
      chunk_length m (toc_bin toc) = Done n \<and> toc_bin toc + n \<le> length m)"
proof (cases "length m < 20")
  case True
  then show ?thesis by (simp add: glb_toc_load_memory_def Let_def sizeof_glb_header_def sizeof_glb_chunk_header_def)
next
  case False
  then show ?thesis
    by (auto simp: glb_toc_load_memory_def Let_def sizeof_glb_header_def sizeof_glb_chunk_header_def chunk_data_def
        chunk_length_def chunk_type_def glb_header_magic_def glb_u32_def)
qed

text \<open>C33: A GLB file that is cut off within its binary data is rejected only if more than eight bytes are
  missing: the last check compares with the end of the data as if it began at the header of its
  chunk. The text is found in any case, the binary data only if nothing is missing.\<close>

theorem glb_toc_truncated:
  assumes "length text < 2 ^ 32" and "length bin < 2 ^ 32" and "k \<le> length bin"
  shows "glb_toc_load_memory (take (length (glb_file version text bin) - k) (glb_file version text bin)) =
      (if k \<le> 8 then Done (text_toc text) else Fail ()) \<and>
    chunk_data (take (length (glb_file version text bin) - k) (glb_file version text bin)) (toc_json (text_toc text)) = Done text \<and>
    (chunk_data (take (length (glb_file version text bin) - k) (glb_file version text bin)) (toc_bin (text_toc text)) = Done bin
      \<longleftrightarrow> k = 0)"
proof -
  let ?f = "glb_front version (28 + length text + length bin) text (length bin)"
  have t: "take (length (glb_file version text bin) - k) (glb_file version text bin) = ?f @ take (length bin - k) bin"
    using assms(3) by (simp add: glb_file_def take_append)
  show ?thesis
    unfolding t glb_toc_load_front [OF assms(2,1)] text_toc_def glb_toc.simps chunk_data_front [OF assms(2,1)]
    using assms(3) by auto
qed

theorem glb_toc_truncated_witness:
  "glb_toc_load_memory (take (length (glb_file 2 (str ''{} '') [1, 2, 3]) - 1) (glb_file 2 (str ''{} '') [1, 2, 3])) =
      (if (1 :: nat) \<le> 8 then Done (text_toc (str ''{} '')) else Fail ()) \<and>
    chunk_data (take (length (glb_file 2 (str ''{} '') [1, 2, 3]) - 1) (glb_file 2 (str ''{} '') [1, 2, 3]))
      (toc_json (text_toc (str ''{} ''))) = Done (str ''{} '') \<and>
    (chunk_data (take (length (glb_file 2 (str ''{} '') [1, 2, 3]) - 1) (glb_file 2 (str ''{} '') [1, 2, 3]))
      (toc_bin (text_toc (str ''{} ''))) = Done [1, 2, 3] \<longleftrightarrow> (1 :: nat) = 0)"
  by (rule glb_toc_truncated) (simp_all add: str_def)

text \<open>C22: The links of a document that is read lead to elements: when \<open>gltf_from_json\<close> succeeds, every
  view has a buffer of the document and every accessor a view of it, with types that are known; and no
  document with a sparse accessor is read at all.\<close>

theorem gltf_from_json_safe_links:
  assumes "gltf_from_json D v = Done (True, g)"
  shows "gltf_links g"
  using assms by (rule gltf_from_json_links)

theorem gltf_from_json_safe_links_witness:
  "\<exists>v. gltf_from_json wide_double v = Done (True, example_gltf) \<and> gltf_links example_gltf"
proof -
  have "length (render wide_digit (gltf_tree ucast example_gltf)) < 2 ^ 50" "delimited [10]"
    using example_length by (simp_all add: delimited_def isspace_def)
  from json_parse_render [OF wide_digits example_tree_ok this, of False]
  obtain v :: "16 word json_value" where "represents (gltf_tree ucast example_gltf) v" by blast
  then have "gltf_from_json wide_double v = Done (True, example_gltf)"
    using gltf_from_json_tree example_plain example_exact by blast
  then show ?thesis using gltf_from_json_safe_links by blast
qed



section \<open>What is missing faults\<close>

text \<open>
  A member that is left out makes \<open>json_lookup\<close> return a null pointer, which the getters
  dereference. So it is with the members that a glTF document may leave out.
\<close>

lemma read_buffer_without_uri:
  assumes "json_lookup obj (str ''uri'') = Some None" and "get_size D obj (str ''byteLength'') False (double_0 D) True = Done (n, True)"
  shows "gltf_read_buffer D out g obj = Fault"
  using assms by (simp add: gltf_read_buffer_def json_get_def)

lemma read_accessor_without_sparse:
  assumes "json_lookup obj (str ''sparse'') = Some None"
  shows "gltf_read_accessor D out g obj = Fault"
  using assms by (simp add: gltf_read_accessor_def json_get_object_def json_get_def)

text \<open>An index that is null or no number is the index 0.\<close>

lemma reference_array_null:
  assumes "member_is obj key json_null" and "to_size_t D (double_0 D) = Some 0" and "0 < n"
  shows "reference_array D n obj key = Done (Some 0)"
  using assms by (simp add: reference_array_def get_size_def json_get_number_def json_get_def member_is_def convert_def)

end
