(* ===== verification/PkgPrograms.thy ===== *)
theory PkgPrograms
  imports PkgPack
begin

text \<open>
  The programs \<open>pkg-install\<close> (\<open>src/pkg/pkg-install.util.c\<close>) and \<open>pkg-pack\<close>
  (\<open>src/pkg/pkg-pack.util.c\<close>) from their options on. The results of \<open>getopt_long\<close>, one after the
  other, and the operands it leaves are input of the model.
\<close>

section \<open>pkg-install\<close>

text \<open>An unknown option is reported by \<open>getopt_long\<close> and ignored.\<close>

datatype install_option = Install_help | Install_path bytes | Install_unknown

text \<open>
  The loop over the options: false is the jump to \<open>fail\<close>. A root_opt that cannot be opened is a null
  pointer, like one that was not asked for.
\<close>

fun install_options ::
    "allocator \<Rightarrow> (byte \<Rightarrow> int) \<Rightarrow> 'f pkg_os \<Rightarrow> 't table2 \<Rightarrow> install_option list \<Rightarrow> 't pkg_root option \<Rightarrow> 'f
       \<Rightarrow> (bool \<times> 't pkg_root option \<times> 'f) option" where
  "install_options al isp os T [] root_opt fs = Some (True, root_opt, fs)"
| "install_options al isp os T (Install_help # opts) root_opt fs = Some (False, root_opt, fs)"
| "install_options al isp os T (Install_path optarg # opts) root_opt fs =
     (if root_opt \<noteq> None then Some (False, root_opt, fs)
      else case pkg_root_open al isp os T optarg fs of
             None \<Rightarrow> None
           | Some (root', fs') \<Rightarrow> install_options al isp os T opts root' fs')"
| "install_options al isp os T (Install_unknown # opts) root_opt fs = install_options al isp os T opts root_opt fs"

text \<open>Closing a null pointer, or installing into one, is a fault.\<close>

definition install_close ::
    "allocator \<Rightarrow> 'f pkg_os \<Rightarrow> 't table2 \<Rightarrow> 't pkg_root option \<Rightarrow> 'f \<Rightarrow> int \<Rightarrow> (int \<times> 'f) option" where
  "install_close al os T root_opt fs status =
     (case root_opt of
        None \<Rightarrow> None
      | Some rt \<Rightarrow> map_option (\<lambda>fs'. (status, fs')) (pkg_root_close al os T rt fs))"

definition pkg_install_main ::
    "allocator \<Rightarrow> (byte \<Rightarrow> int) \<Rightarrow> 'f pkg_os \<Rightarrow> 't table2 \<Rightarrow> install_option list \<Rightarrow> bytes list \<Rightarrow> read_fd \<Rightarrow> 'f
       \<Rightarrow> (int \<times> 'f) option" where
  "pkg_install_main al isp os T opts operands stdin fs =
     (case install_options al isp os T opts None fs of
        None \<Rightarrow> None
      | Some (False, root_opt, fs1) \<Rightarrow> install_close al os T root_opt fs1 1
      | Some (True, root_opt, fs1) \<Rightarrow>
          (case (case root_opt of None \<Rightarrow> pkg_root_open al isp os T [] fs1 | Some rt \<Rightarrow> Some (Some rt, fs1)) of
             None \<Rightarrow> None
           | Some (root', fs2) \<Rightarrow>
               if operands \<noteq> [] then install_close al os T root' fs2 1
               else (case root' of
                       None \<Rightarrow> None
                     | Some rt \<Rightarrow>
                         (case pkg_install_fd al os T rt stdin fs2 of
                            None \<Rightarrow> None
                          | Some (ok, rt', stdin', fs3) \<Rightarrow>
                              install_close al os T (Some rt') fs3 (if ok then 0 else 1)))))"

section \<open>pkg-pack\<close>




section \<open>Opening an empty root\<close>

definition new_root :: "'t table2 \<Rightarrow> bytes \<Rightarrow> bytes \<Rightarrow> 't pkg_root" where
  "new_root T path name = (pkg_root_zero T)\<lparr>root_path := path, tmp_name := name\<rparr>"

lemma pkg_root_open_new:
  assumes "\<not> os_exists os fs (path @ str ''/etc/pkg/config'')" and "os_open_read os fs (path @ [PATH_SEPARATOR] @ LOG_PATH) = Missing"
    and "length path < 2 ^ 32" and "\<forall>m < 2 ^ 63. can_alloc al m"
  shows "\<exists>b. pkg_root_open al isp os T path fs = Some (Some ((pkg_root_zero T)\<lparr>root_path := path, tmp_path := b\<rparr>), fs) \<and> buffer_wf b"
proof -
  let ?rt = "(pkg_root_zero T)\<lparr>root_path := path\<rparr>"
  have "buffer_wf (tmp_path ?rt)" "length (root_path ?rt) < 2 ^ 32" "\<not> os_exists os fs (config_path ?rt)"
    using assms(1,3) by (simp_all add: pkg_root_zero_def config_path_def)
  from load_config_absent [OF this(1,2) assms(4) this(3), of T] obtain b where
    c: "load_config al os T ?rt fs = Some (True, ?rt\<lparr>tmp_path := b\<rparr>)" "buffer_wf b" by blast
  from load_log_file_path_spec [of "?rt\<lparr>tmp_path := b\<rparr>" al] c(2) assms(3,4) obtain b2 where
    l: "load_log_file_path al (?rt\<lparr>tmp_path := b\<rparr>) = Some (?rt\<lparr>tmp_path := b2\<rparr>)" "contents b2 = path @ [PATH_SEPARATOR] @ LOG_PATH"
      "buffer_wf b2"
    by auto
  then have "read_log al isp os T (?rt\<lparr>tmp_path := b\<rparr>) fs = Some (True, ?rt\<lparr>tmp_path := b2\<rparr>)"
    using assms(2) by (simp add: read_log_def)
  then show ?thesis using c(1) l(3) by (intro exI [of _ b2]) (simp add: pkg_root_open_def Let_def)
qed

lemma install_items_same:
  "same_root rt rt' \<Longrightarrow> install_items os T rt' items s = install_items os T rt items s"
  by (induction items arbitrary: s) (auto simp: install_item_same split: prod.splits bool.splits simp del: install_item.simps)

lemma install_program_archive:
  assumes "pkg_log T cnt iv limit" and "os_accepts os"
    and "archive_bytes (dirs @ (bargs, script) # items) archive"
    and "list_all (item_ok us) (dirs @ (bargs, script) # items)"
    and "list_all (\<lambda>d. a_type (fst d) = TAR_DIR) dirs" and "a_type bargs = TAR_FILE"
    and "entry_name bargs = str ''build.sh''" and "names_package script name"
    and "\<forall>m < 2 ^ 63. can_alloc al m" and "fd_clean stdin" and "fd_data stdin = archive @ extra" and "length (fd_data stdin) < 2 ^ 57"
    and "length path < 2 ^ 32" and "2 * length items \<le> limit"
    and "\<not> os_exists os fs (path @ str ''/etc/pkg/config'')" and "os_open_read os fs (path @ [PATH_SEPARATOR] @ LOG_PATH) = Missing"
    and "install_items os T (new_root T path name) items (t2_zero T, fs) = (ok, t', fs')"
    and "log_place os (path @ [PATH_SEPARATOR] @ LOG_PATH) fs'"
  shows "\<exists>fs'' log. pkg_install_main al isp os T [Install_path path] [] stdin fs = Some (if ok then 0 else 1, fs'') \<and>
    log_stored os (path @ [PATH_SEPARATOR] @ LOG_PATH) (log_text (entries (t2_items T t'))) fs' fs'' \<and>
    os_open_read os fs'' (path @ [PATH_SEPARATOR] @ LOG_PATH) = Opened log \<and>
    fd_data log = log_text (entries (t2_items T t'))"
proof -
  obtain b where o: "pkg_root_open al isp os T path fs = Some (Some ((pkg_root_zero T)\<lparr>root_path := path, tmp_path := b\<rparr>), fs)"
      "buffer_wf b"
    using pkg_root_open_new [OF assms(15,16,13,9)] by blast
  let ?rt = "(pkg_root_zero T)\<lparr>root_path := path, tmp_path := b\<rparr>"
  have z: "iv (t2_zero T)" "cnt (t2_zero T) = 0" using string_table.empty_law [OF pkg_log.axioms(1) [OF assms(1)]] by simp_all
  have r: "used (tmp_build_sh ?rt) = 0" "buffer_wf (tmp_path ?rt)" "length (root_path ?rt) < 2 ^ 32" "iv (root_log ?rt)"
    "cnt (root_log ?rt) + 2 * length items \<le> limit"
    using o(2) z assms(13,14) by (simp_all add: pkg_root_zero_def buffer_zero_def)
  have "same_root (new_root T path name) (?rt\<lparr>tmp_name := name\<rparr>)" by (simp add: same_root_def new_root_def)
  then have it: "install_items os T (?rt\<lparr>tmp_name := name\<rparr>) items (root_log ?rt, fs) = (ok, t', fs')"
    using assms(17) by (simp add: install_items_same pkg_root_zero_def)
  obtain rt' fd' where i: "pkg_install_fd al os T ?rt stdin fs = Some (ok, rt', fd', fs')" "root_log rt' = t'"
      "root_path rt' = path" "buffer_wf (tmp_path rt')"
    using pkg_log.install_archive [OF assms(1-12) r it] by auto
  have "iv (root_log rt')" using pkg_log.install_items_log [OF assms(1) r(4,5) it] i(2) by blast
  moreover have lp: "log_path rt' = path @ [PATH_SEPARATOR] @ LOG_PATH" using i(3) by (simp add: log_path_def)
  ultimately obtain rt2 fs2 log where d: "dump_log al os T rt' fs' = Some (True, rt2, fs2)"
      "os_open_read os fs2 (log_path rt') = Opened log" "fd_data log = log_text (entries (t2_items T t'))"
      "log_stored os (log_path rt') (log_text (entries (t2_items T t'))) fs' fs2"
    using pkg_log.dump_log_stored [OF assms(1) _ i(4) _ assms(9)] assms(13,18) i(2,3) by metis
  then show ?thesis
    using o(1) i(1) unfolding lp by (simp add: pkg_install_main_def install_close_def pkg_root_close_def)
qed

section \<open>Properties\<close>

text \<open>The installing program, on a root without a configuration and without a log, makes the files
  and directories of the archive on its standard input below the root, and leaves a log that
  holds the owners of all paths that were installed, also when an entry could not be installed;
  its exit status says whether that happened.\<close>

theorem pkg_install_program_logs:
  assumes "pkg_log T cnt iv limit" and "os_accepts os"
    and "tar_archive us junk (dirs @ (bargs, script) # items) [] = Some archive"
    and "list_all (item_ok us) (dirs @ (bargs, script) # items)"
    and "list_all (\<lambda>d. a_type (fst d) = TAR_DIR) dirs" and "a_type bargs = TAR_FILE"
    and "entry_name bargs = str ''build.sh''" and "names_package script name"
    and "\<forall>m < 2 ^ 63. can_alloc al m" and "fd_clean stdin" and "fd_data stdin = archive @ extra" and "length (fd_data stdin) < 2 ^ 57"
    and "length path < 2 ^ 32" and "2 * length items \<le> limit"
    and "\<not> os_exists os fs (path @ str ''/etc/pkg/config'')" and "os_open_read os fs (path @ [PATH_SEPARATOR] @ LOG_PATH) = Missing"
    and "install_items os T (new_root T path name) items (t2_zero T, fs) = (ok, t', fs')"
    and "log_place os (path @ [PATH_SEPARATOR] @ LOG_PATH) fs'"
  shows "\<exists>fs'' log. pkg_install_main al isp os T [Install_path path] [] stdin fs = Some (if ok then 0 else 1, fs'') \<and>
    log_stored os (path @ [PATH_SEPARATOR] @ LOG_PATH) (log_text (entries (t2_items T t'))) fs' fs'' \<and>
    os_open_read os fs'' (path @ [PATH_SEPARATOR] @ LOG_PATH) = Opened log \<and>
    fd_data log = log_text (entries (t2_items T t'))"
proof -
  have "archive_bytes (dirs @ (bargs, script) # items) archive"
    using tar_archive_bytes [OF assms(4), of junk "[]"] assms(3) by auto
  from install_program_archive [OF assms(1,2) this assms(4-18)] show ?thesis .
qed

theorem pkg_install_program_logs_witness:
  "\<exists>archive fs'' log. tar_archive one_user (\<lambda>_. []) foo_items [] = Some archive \<and>
    pkg_install_main plain_alloc (\<lambda>c. of_bool (isspace c)) plain_os src_table [Install_path []] [] [Some archive] Map.empty
      = Some (0, fs'') \<and>
    os_open_read plain_os fs'' (str ''/pkg/system.log'') = Opened log \<and>
    fd_data log = log_text (entries (t2_items src_table (set_owner src_table table_zero (str ''a'') (str ''foo''))))"
proof -
  obtain archive where a: "tar_archive one_user (\<lambda>_. []) foo_items [] = Some archive" "length archive = 3072"
    by (rule foo_archive)
  let ?b = "file_item (str ''build.sh'') foo_script" and ?rt = "new_root src_table [] (str ''foo'')"
  have arch: "tar_archive one_user (\<lambda>_. []) ([] @ (fst ?b, snd ?b) # [file_item (str ''a'') [1, 2, 3]]) [] = Some archive"
    using a(1) by (simp add: foo_items_def)
  have ok: "list_all (item_ok one_user) ([] @ (fst ?b, snd ?b) # [file_item (str ''a'') [1, 2, 3]])"
    using foo_items_ok by (simp add: foo_items_def)
  have b: "list_all (\<lambda>d. a_type (fst d) = TAR_DIR) []" "a_type (fst ?b) = TAR_FILE" "entry_name (fst ?b) = str ''build.sh''"
    "names_package (snd ?b) (str ''foo'')"
    using foo_script_names by (simp_all add: file_item_def entry_name_def str_def PATH_SEPARATOR_def byte_of_def)
  have fd: "\<forall>m < 2 ^ 63. can_alloc plain_alloc m" "fd_clean [Some archive]" "fd_data [Some archive] = archive @ []"
    "length (fd_data [Some archive]) < 2 ^ 57" "length ([] :: bytes) < 2 ^ 32"
    "2 * length [file_item (str ''a'') [1, 2, 3]] \<le> 2 ^ 50"
    using a(2) by auto
  have lp: "[] @ [PATH_SEPARATOR] @ LOG_PATH = str ''/pkg/system.log''"
    by (simp add: LOG_PATH_def str_def PATH_SEPARATOR_def byte_of_def)
  have new: "\<not> os_exists plain_os Map.empty ([] @ str ''/etc/pkg/config'')"
    "os_open_read plain_os Map.empty ([] @ [PATH_SEPARATOR] @ LOG_PATH) = Missing"
    by (simp_all add: plain_os_def)
  have "owns src_table table_zero p n" for p n by (simp add: owns_def owner_def src_table_map)
  moreover have "t2_zero src_table = table_zero" by (simp add: src_table_def)
  ultimately have it: "install_items plain_os src_table ?rt [file_item (str ''a'') [1, 2, 3]] (t2_zero src_table, Map.empty)
      = (True, set_owner src_table table_zero (str ''a'') (str ''foo''), [str ''a'' \<mapsto> [1, 2, 3]])"
    by (simp add: file_item_def join_path_def entry_name_def plain_os_def new_root_def pkg_root_zero_def Let_def
        str_def PATH_SEPARATOR_def byte_of_def)
  from pkg_install_program_logs [OF src_log.pkg_log_axioms plain_os_accepts arch ok b fd new it log_place_plain,
      of "\<lambda>c. of_bool (isspace c)", unfolded lp] a(1)
  show ?thesis by auto
qed



text \<open>Asking \<open>pkg-install\<close> for help crashes it: with no root_opt opened so far, the way out closes
  a null pointer.\<close>

theorem pkg_install_help_faults:
  "pkg_install_main al isp os T (Install_help # opts) operands stdin fs = None"
  by (simp add: pkg_install_main_def install_close_def)

end
