(* ===== verification/LinkedList.thy ===== *)
theory LinkedList
  imports Prelude
begin

text \<open>
  The macros for singly linked lists of \<open>src/list/list.h\<close>. An element is its address, the heap
  gives the member \<open>peer\<close> of every element, and \<open>None\<close> is the null pointer. The other members
  of the elements are not touched.
\<close>

section \<open>Operations\<close>

type_synonym 'a peers = "'a \<Rightarrow> 'a option"

record 'a list_bounds =
  list_begin :: "'a option"
  list_end :: "'a option"

text \<open>The element that is taken and the new handle.\<close>

definition list_pop :: "'a peers \<Rightarrow> 'a option \<Rightarrow> 'a option \<times> 'a option" where
  "list_pop h handle = (handle, case handle of None \<Rightarrow> handle | Some e \<Rightarrow> h e)"

definition list_push :: "'a peers \<Rightarrow> 'a option \<Rightarrow> 'a \<Rightarrow> 'a peers \<times> 'a option" where
  "list_push h handle e = (h(e := handle), Some e)"

text \<open>\<open>None\<close> is a write through a null pointer.\<close>

definition list_bounds_push_end :: "'a peers \<Rightarrow> 'a list_bounds \<Rightarrow> 'a \<Rightarrow> ('a peers \<times> 'a list_bounds) option" where
  "list_bounds_push_end h bounds e =
     (if list_begin bounds = None then Some (h, bounds\<lparr>list_begin := Some e, list_end := Some e\<rparr>)
      else case list_end bounds of
             None \<Rightarrow> None
           | Some l \<Rightarrow> Some (h(l := Some e, e := None), bounds\<lparr>list_end := Some e\<rparr>))"

definition list_bounds_push_begin :: "'a peers \<Rightarrow> 'a list_bounds \<Rightarrow> 'a \<Rightarrow> 'a peers \<times> 'a list_bounds" where
  "list_bounds_push_begin h bounds e =
     (if list_begin bounds = None then (h, bounds\<lparr>list_begin := Some e, list_end := Some e\<rparr>)
      else case list_push h (list_begin bounds) e of
             (h', handle) \<Rightarrow> (h', bounds\<lparr>list_begin := handle\<rparr>))"

text \<open>The elements that a \<open>for_list\<close> loop visits, which does not end on a cycle.\<close>

partial_function (option) for_list :: "'a peers \<Rightarrow> 'a option \<Rightarrow> 'a list option" where
  "for_list h handle =
     (case handle of
        None \<Rightarrow> Some []
      | Some e \<Rightarrow> Option.bind (for_list h (h e)) (\<lambda>es. Some (e # es)))"

text \<open>Uses of a list with bounds, one after the other.\<close>

datatype 'a list_op = Push_begin 'a | Push_end 'a | Pop

fun list_run :: "'a list_op list \<Rightarrow> 'a peers \<Rightarrow> 'a list_bounds \<Rightarrow> ('a peers \<times> 'a list_bounds) option" where
  "list_run [] h b = Some (h, b)"
| "list_run (Push_begin e # ops) h b =
     (case list_bounds_push_begin h b e of (h', b') \<Rightarrow> list_run ops h' b')"
| "list_run (Push_end e # ops) h b =
     (case list_bounds_push_end h b e of None \<Rightarrow> None | Some (h', b') \<Rightarrow> list_run ops h' b')"
| "list_run (Pop # ops) h b =
     (case list_pop h (list_begin b) of (_, handle) \<Rightarrow> list_run ops h (b\<lparr>list_begin := handle\<rparr>))"

section \<open>Sequences\<close>

text \<open>What the operations do to the sequence of the elements.\<close>

fun sequence_step :: "'a list_op \<Rightarrow> 'a list \<Rightarrow> 'a list" where
  "sequence_step (Push_begin e) xs = e # xs"
| "sequence_step (Push_end e) xs = xs @ [e]"
| "sequence_step Pop xs = tl xs"

fun pushed :: "'a list_op \<Rightarrow> 'a list" where
  "pushed (Push_begin e) = [e]"
| "pushed (Push_end e) = [e]"
| "pushed Pop = []"

text \<open>A handle leads through the elements of a sequence.\<close>

fun links :: "'a peers \<Rightarrow> 'a option \<Rightarrow> 'a list \<Rightarrow> bool" where
  "links h p [] \<longleftrightarrow> p = None"
| "links h p (x # xs) \<longleftrightarrow> p = Some x \<and> links h (h x) xs"

lemma links_None [simp]: "links h None xs \<longleftrightarrow> xs = []"
  by (cases xs) simp_all

lemma links_update [simp]: "e \<notin> set xs \<Longrightarrow> links (h(e := q)) p xs = links h p xs"
  by (induction xs arbitrary: p) auto

lemma links_append_end:
  "links h p (xs @ [l]) \<Longrightarrow> distinct (xs @ [l, e]) \<Longrightarrow> links (h(l := Some e, e := None)) p (xs @ [l, e])"
  by (induction xs arbitrary: p) auto

lemma for_list_links: "links h p xs \<Longrightarrow> for_list h p = Some xs"
proof (induction xs arbitrary: p)
  case (Cons x xs)
  then show ?case by (subst for_list.simps) simp
qed (simp add: for_list.simps)

text \<open>The bounds of a sequence, while the elements of \<open>fresh\<close> were not used yet.\<close>

definition list_inv :: "'a peers \<Rightarrow> 'a list_bounds \<Rightarrow> 'a list \<Rightarrow> 'a list \<Rightarrow> bool" where
  "list_inv h b xs fresh \<longleftrightarrow>
     links h (list_begin b) xs \<and> (xs \<noteq> [] \<longrightarrow> list_end b = Some (last xs)) \<and> distinct (xs @ fresh) \<and>
     (\<forall>e \<in> set fresh. h e = None)"

lemma list_inv_push_begin:
  assumes "list_inv h b xs (e # fresh)"
  shows "case list_bounds_push_begin h b e of (h', b') \<Rightarrow> list_inv h' b' (e # xs) fresh"
  using assms by (cases xs) (auto simp: list_inv_def list_bounds_push_begin_def list_push_def)

lemma list_inv_push_end:
  assumes "list_inv h b xs (e # fresh)"
  shows "\<exists>h' b'. list_bounds_push_end h b e = Some (h', b') \<and> list_inv h' b' (xs @ [e]) fresh"
proof (cases xs rule: rev_cases)
  case Nil
  then show ?thesis using assms by (simp add: list_inv_def list_bounds_push_end_def)
next
  case (snoc ys l)
  have "links h (list_begin b) (ys @ [l])" "distinct (ys @ [l, e])" "list_end b = Some l" "list_begin b \<noteq> None"
    using assms snoc by (auto simp: list_inv_def)
  moreover from links_append_end [OF this(1,2)] have "links (h(l := Some e, e := None)) (list_begin b) (xs @ [e])"
    using snoc by simp
  ultimately show ?thesis using assms snoc by (auto simp: list_inv_def list_bounds_push_end_def)
qed

lemma list_inv_pop: "list_inv h b xs fresh \<Longrightarrow> list_inv h (b\<lparr>list_begin := snd (list_pop h (list_begin b))\<rparr>) (tl xs) fresh"
  by (cases xs) (auto simp: list_inv_def list_pop_def split: if_splits)

lemma list_run_inv:
  assumes "list_inv h b xs (concat (map pushed ops))"
  shows "\<exists>h' b'. list_run ops h b = Some (h', b') \<and> list_inv h' b' (fold sequence_step ops xs) []"
  using assms
proof (induction ops arbitrary: h b xs)
  case (Cons a ops)
  show ?case
  proof (cases a)
    case (Push_begin e)
    then show ?thesis using Cons list_inv_push_begin [of h b xs e] by (auto split: prod.splits)
  next
    case (Push_end e)
    then show ?thesis using Cons list_inv_push_end [of h b xs e] by fastforce
  next
    case Pop
    then show ?thesis using Cons list_inv_pop [of h b xs] by (auto simp: list_pop_def)
  qed
qed (simp add: list_inv_def)

section \<open>Properties\<close>

text \<open>C38: Pushing at both ends and popping, in any order, from an empty list on, never writes through
  a null pointer, and a \<open>for_list\<close> loop then ends and visits the elements of the sequence that the
  operations mean, if no element is pushed twice and all have a null peer before.\<close>

theorem list_run_refines:
  assumes "distinct (concat (map pushed ops))" and "\<forall>e \<in> set (concat (map pushed ops)). h e = None"
  shows "\<exists>h' b'. list_run ops h \<lparr>list_begin = None, list_end = None\<rparr> = Some (h', b') \<and>
    for_list h' (list_begin b') = Some (fold sequence_step ops [])"
proof -
  have "list_inv h \<lparr>list_begin = None, list_end = None\<rparr> [] (concat (map pushed ops))"
    using assms by (simp add: list_inv_def)
  from list_run_inv [OF this] obtain h' b' where
    r: "list_run ops h \<lparr>list_begin = None, list_end = None\<rparr> = Some (h', b')" "list_inv h' b' (fold sequence_step ops []) []"
    by blast
  then have "for_list h' (list_begin b') = Some (fold sequence_step ops [])"
    by (intro for_list_links) (simp add: list_inv_def)
  with r(1) show ?thesis by blast
qed

theorem list_run_refines_witness:
  "\<exists>h' b'. list_run [Push_end 1, Push_end 2, Push_begin (3 :: nat), Pop, Pop, Push_end 4] Map.empty
      \<lparr>list_begin = None, list_end = None\<rparr> = Some (h', b') \<and>
    for_list h' (list_begin b') = Some [2, 4]"
  using list_run_refines [of "[Push_end 1, Push_end 2, Push_begin (3 :: nat), Pop, Pop, Push_end 4]" Map.empty] by simp

text \<open>An element that is pushed again to an emptied list brings along what followed it when it was
  popped, because the first push does not clear its peer: after two elements were pushed and popped
  and the first one was pushed again, a loop visits both.\<close>

theorem list_reuse_stale:
  assumes "a \<noteq> b"
  shows "\<exists>h' b'. list_run [Push_end a, Push_end b, Pop, Pop, Push_end a] h \<lparr>list_begin = None, list_end = None\<rparr> = Some (h', b') \<and>
    for_list h' (list_begin b') = Some [a, b]"
  using assms
  by (simp add: list_bounds_push_end_def list_pop_def for_list.simps [of _ "Some _"] for_list.simps [of _ None])

theorem list_reuse_stale_witness:
  "\<exists>h' b'. list_run [Push_end 1, Push_end (2 :: nat), Pop, Pop, Push_end 1] Map.empty
      \<lparr>list_begin = None, list_end = None\<rparr> = Some (h', b') \<and>
    for_list h' (list_begin b') = Some [1, 2]"
  by (rule list_reuse_stale) simp

end
