(* ===== verification/Network.thy ===== *)
theory Network
  imports Arrays
begin

text \<open>
  Connections and servers (\<open>src/network/network.c\<close>). The operating system is a record of
  functions that pass a world on and answer what the calls answer; the state also knows the
  address records that are allocated, the descriptors that are open and whether the mutex is
  taken. A result \<open>None\<close> is undefined behaviour: a record that is freed twice, a descriptor
  that is closed twice, a mutex that is given back without being held, a failed assertion.
\<close>

section \<open>The operating system\<close>

datatype socktype = SOCK_STREAM | SOCK_DGRAM

record ('w, 'i) net_os =
  net_getaddrinfo :: "'w \<Rightarrow> bytes option \<Rightarrow> bytes \<Rightarrow> socktype \<Rightarrow> 'i option \<times> 'w"
  net_socket :: "'w \<Rightarrow> 'i \<Rightarrow> nat option \<times> 'w"
  net_bind :: "'w \<Rightarrow> nat \<Rightarrow> 'i \<Rightarrow> bool \<times> 'w"
  net_connect :: "'w \<Rightarrow> nat \<Rightarrow> 'i \<Rightarrow> bool \<times> 'w"
  net_listen :: "'w \<Rightarrow> nat \<Rightarrow> nat \<Rightarrow> bool \<times> 'w"
  net_accept :: "'w \<Rightarrow> nat \<Rightarrow> nat option \<times> 'w"
  net_fdopen :: "'w \<Rightarrow> nat \<Rightarrow> bool \<times> 'w"

record ('w, 'i) net =
  world :: 'w
  infos :: "'i list"
  open_fds :: "nat set"
  lock_taken :: bool

definition sys_getaddrinfo ::
    "('w, 'i) net_os \<Rightarrow> bytes option \<Rightarrow> bytes \<Rightarrow> socktype \<Rightarrow> ('w, 'i) net \<Rightarrow> 'i option \<times> ('w, 'i) net" where
  "sys_getaddrinfo os host service socktype s =
     (case net_getaddrinfo os (world s) host service socktype of
        (None, w) \<Rightarrow> (None, s\<lparr>world := w\<rparr>)
      | (Some i, w) \<Rightarrow> (Some i, s\<lparr>world := w, infos := i # infos s\<rparr>))"

definition sys_freeaddrinfo :: "'i \<Rightarrow> ('w, 'i) net \<Rightarrow> ('w, 'i) net option" where
  "sys_freeaddrinfo i s = (if i \<in> set (infos s) then Some (s\<lparr>infos := remove1 i (infos s)\<rparr>) else None)"

definition sys_socket :: "('w, 'i) net_os \<Rightarrow> 'i \<Rightarrow> ('w, 'i) net \<Rightarrow> nat option \<times> ('w, 'i) net" where
  "sys_socket os i s =
     (case net_socket os (world s) i of
        (None, w) \<Rightarrow> (None, s\<lparr>world := w\<rparr>)
      | (Some fd, w) \<Rightarrow> (Some fd, s\<lparr>world := w, open_fds := insert fd (open_fds s)\<rparr>))"

definition sys_close :: "nat \<Rightarrow> ('w, 'i) net \<Rightarrow> ('w, 'i) net option" where
  "sys_close fd s = (if fd \<in> open_fds s then Some (s\<lparr>open_fds := open_fds s - {fd}\<rparr>) else None)"

definition sys_bind :: "('w, 'i) net_os \<Rightarrow> nat \<Rightarrow> 'i \<Rightarrow> ('w, 'i) net \<Rightarrow> bool \<times> ('w, 'i) net" where
  "sys_bind os fd i s = (case net_bind os (world s) fd i of (ok, w) \<Rightarrow> (ok, s\<lparr>world := w\<rparr>))"

definition sys_connect :: "('w, 'i) net_os \<Rightarrow> nat \<Rightarrow> 'i \<Rightarrow> ('w, 'i) net \<Rightarrow> bool \<times> ('w, 'i) net" where
  "sys_connect os fd i s = (case net_connect os (world s) fd i of (ok, w) \<Rightarrow> (ok, s\<lparr>world := w\<rparr>))"

definition sys_listen :: "('w, 'i) net_os \<Rightarrow> nat \<Rightarrow> nat \<Rightarrow> ('w, 'i) net \<Rightarrow> bool \<times> ('w, 'i) net" where
  "sys_listen os fd backlog s = (case net_listen os (world s) fd backlog of (ok, w) \<Rightarrow> (ok, s\<lparr>world := w\<rparr>))"

definition sys_accept :: "('w, 'i) net_os \<Rightarrow> nat \<Rightarrow> ('w, 'i) net \<Rightarrow> nat option \<times> ('w, 'i) net" where
  "sys_accept os fd s =
     (case net_accept os (world s) fd of
        (None, w) \<Rightarrow> (None, s\<lparr>world := w\<rparr>)
      | (Some c, w) \<Rightarrow> (Some c, s\<lparr>world := w, open_fds := insert c (open_fds s)\<rparr>))"

text \<open>A stream that is opened owns its descriptor, so both stay open.\<close>

definition sys_fdopen :: "('w, 'i) net_os \<Rightarrow> nat \<Rightarrow> ('w, 'i) net \<Rightarrow> bool \<times> ('w, 'i) net" where
  "sys_fdopen os fd s = (case net_fdopen os (world s) fd of (ok, w) \<Rightarrow> (ok, s\<lparr>world := w\<rparr>))"

section \<open>Operations\<close>

definition net_lock :: "('w, 'i) net \<Rightarrow> ('w, 'i) net option" where
  "net_lock s = (if lock_taken s then None else Some (s\<lparr>lock_taken := True\<rparr>))"

definition net_unlock :: "('w, 'i) net \<Rightarrow> ('w, 'i) net option" where
  "net_unlock s = (if lock_taken s then Some (s\<lparr>lock_taken := False\<rparr>) else None)"

definition get_info ::
    "('w, 'i) net_os \<Rightarrow> bytes option \<Rightarrow> bytes \<Rightarrow> socktype \<Rightarrow> ('w, 'i) net \<Rightarrow> 'i option \<times> ('w, 'i) net" where
  "get_info os host service socktype s =
     (case sys_getaddrinfo os host service socktype s of
        (None, s') \<Rightarrow> (None, s')
      | (Some got_info, s') \<Rightarrow> (Some got_info, s'))"

definition create_socket :: "('w, 'i) net_os \<Rightarrow> 'i \<Rightarrow> ('w, 'i) net \<Rightarrow> int \<times> ('w, 'i) net" where
  "create_socket os info s =
     (case sys_socket os info s of
        (None, s') \<Rightarrow> (-1, s')
      | (Some fd, s') \<Rightarrow> (int fd, s'))"

definition bind_socket :: "('w, 'i) net_os \<Rightarrow> 'i \<Rightarrow> ('w, 'i) net \<Rightarrow> (int \<times> ('w, 'i) net) option" where
  "bind_socket os info s =
     (case create_socket os info s of
        (fd, s1) \<Rightarrow>
          if fd = -1 then Some (-1, s1)
          else case sys_bind os (nat fd) info s1 of
                 (ok, s2) \<Rightarrow>
                   if \<not> ok then
                     Option.bind (sys_close (nat fd) s2) (\<lambda>s3.
                     Option.bind (net_unlock s3) (\<lambda>s4. Some (-1, s4)))
                   else Option.bind (net_unlock s2) (\<lambda>s3. Some (fd, s3)))"

definition tcp_connect ::
    "('w, 'i) net_os \<Rightarrow> bytes option \<Rightarrow> bytes \<Rightarrow> ('w, 'i) net \<Rightarrow> (int \<times> ('w, 'i) net) option" where
  "tcp_connect os host service s =
     (case get_info os host service SOCK_STREAM s of
        (None, s1) \<Rightarrow> Some (-1, s1)
      | (Some info, s1) \<Rightarrow>
          (case create_socket os info s1 of
             (conn, s2) \<Rightarrow>
               if conn = -1 then Option.bind (sys_freeaddrinfo info s2) (\<lambda>s3. Some (-1, s3))
               else case sys_connect os (nat conn) info s2 of
                      (ok, s3) \<Rightarrow>
                        if \<not> ok then
                          Option.bind (sys_freeaddrinfo info s3) (\<lambda>s4.
                          Option.bind (sys_close (nat conn) s4) (\<lambda>s5. Some (-1, s5)))
                        else Option.bind (sys_freeaddrinfo info s3) (\<lambda>s4. Some (conn, s4))))"

text \<open>The stream of a descriptor is the descriptor, or no stream.\<close>

definition tcp_connect_stream ::
    "('w, 'i) net_os \<Rightarrow> bytes option \<Rightarrow> bytes \<Rightarrow> ('w, 'i) net \<Rightarrow> (nat option \<times> ('w, 'i) net) option" where
  "tcp_connect_stream os host service s =
     (case tcp_connect os host service s of
        None \<Rightarrow> None
      | Some (fd, s1) \<Rightarrow>
          if fd = -1 then Some (None, s1)
          else case sys_fdopen os (nat fd) s1 of
                 (ok, s2) \<Rightarrow> Some (if ok then Some (nat fd) else None, s2))"

definition net_host ::
    "('w, 'i) net_os \<Rightarrow> bytes \<Rightarrow> socktype \<Rightarrow> ('w, 'i) net \<Rightarrow> (int \<times> ('w, 'i) net) option" where
  "net_host os service socktype s =
     (case get_info os None service socktype s of
        (None, s1) \<Rightarrow> Some (-1, s1)
      | (Some info, s1) \<Rightarrow>
          (case bind_socket os info s1 of
             None \<Rightarrow> None
           | Some (fd, s2) \<Rightarrow> Option.bind (sys_freeaddrinfo info s2) (\<lambda>s3. Some (fd, s3))))"

definition tcp_host :: "('w, 'i) net_os \<Rightarrow> bytes \<Rightarrow> ('w, 'i) net \<Rightarrow> (int \<times> ('w, 'i) net) option" where
  "tcp_host os service s = net_host os service SOCK_STREAM s"

definition udp_host :: "('w, 'i) net_os \<Rightarrow> bytes \<Rightarrow> ('w, 'i) net \<Rightarrow> (int \<times> ('w, 'i) net) option" where
  "udp_host os service s = net_host os service SOCK_DGRAM s"

definition tcp_listen :: "('w, 'i) net_os \<Rightarrow> nat \<Rightarrow> ('w, 'i) net \<Rightarrow> int \<times> ('w, 'i) net" where
  "tcp_listen os fd s =
     (case sys_listen os fd 10 s of
        (ok, s1) \<Rightarrow>
          if \<not> ok then (-1, s1)
          else case sys_accept os fd s1 of
                 (None, s2) \<Rightarrow> (-1, s2)
               | (Some c, s2) \<Rightarrow> (int c, s2))"

definition tcp_listen_stream :: "('w, 'i) net_os \<Rightarrow> nat \<Rightarrow> ('w, 'i) net \<Rightarrow> (nat option \<times> ('w, 'i) net) option" where
  "tcp_listen_stream os fd s =
     (case tcp_listen os fd s of
        (c, s1) \<Rightarrow>
          if c = -1 then Some (None, s1)
          else case sys_fdopen os (nat c) s1 of
                 (ok, s2) \<Rightarrow> if ok then Some (Some (nat c), s2) else None)"

definition PACKET_BUFFER_SIZE :: nat where
  "PACKET_BUFFER_SIZE = 2000"

text \<open>
  \<open>recvfrom\<close> gets the size of the buffer and answers with an error or the bytes of a packet. A
  message is a failure for the caller, whatever the family of the sender, and the buffer keeps
  the size it had for the call.
\<close>

definition udp_recv :: "allocator \<Rightarrow> (nat \<Rightarrow> bytes option) \<Rightarrow> buffer \<Rightarrow> (int \<times> buffer) option" where
  "udp_recv al recvfrom message =
     (let b = snd (buffer_resize al message PACKET_BUFFER_SIZE)
      in case recvfrom (used b) of
           None \<Rightarrow> Some (-1, b)
         | Some bs \<Rightarrow>
             Option.bind (mem_write b 0 bs) (\<lambda>b'. Some (if bs = [] then 0 else -1, b')))"

section \<open>Resources\<close>

text \<open>What a connection attempt may change besides the world.\<close>

definition gained :: "('w, 'i) net \<Rightarrow> int \<Rightarrow> ('w, 'i) net \<Rightarrow> bool" where
  "gained s fd s' \<longleftrightarrow>
     infos s' = infos s \<and> lock_taken s' = lock_taken s \<and>
     (if fd = -1 then open_fds s' = open_fds s
      else 0 \<le> fd \<and> nat fd \<notin> open_fds s \<and> open_fds s' = insert (nat fd) (open_fds s))"

section \<open>Properties\<close>

text \<open>C37: \<open>tcp_connect\<close> neither leaks nor frees twice: whatever the system answers, every record of
  addresses is freed exactly once, and the only descriptor that is left open is the one that is
  returned, which is new.\<close>

theorem tcp_connect_resources:
  assumes "\<And>w i fd w'. net_socket os w i = (Some fd, w') \<Longrightarrow> fd \<notin> open_fds s"
  shows "case tcp_connect os host service s of None \<Rightarrow> False | Some (fd, s') \<Rightarrow> gained s fd s'"
  using assms
  by (auto simp: tcp_connect_def get_info_def create_socket_def sys_getaddrinfo_def sys_socket_def sys_connect_def
      sys_freeaddrinfo_def sys_close_def gained_def split: option.splits prod.splits)

text \<open>A system on which every call succeeds except those that are told to fail.\<close>

definition example_os :: "bool \<Rightarrow> bool \<Rightarrow> (nat, nat) net_os" where
  "example_os connects opens =
     \<lparr>net_getaddrinfo = \<lambda>w _ _ _. (Some w, w + 1), net_socket = \<lambda>w _. (Some 3, w + 1),
      net_bind = \<lambda>w _ _. (True, w), net_connect = \<lambda>w _ _. (connects, w), net_listen = \<lambda>w _ _. (True, w),
      net_accept = \<lambda>w _. (Some 4, w), net_fdopen = \<lambda>w _. (opens, w)\<rparr>"

definition example_net :: "(nat, nat) net" where
  "example_net = \<lparr>world = 0, infos = [], open_fds = {0, 1, 2}, lock_taken = False\<rparr>"

theorem tcp_connect_resources_witness:
  "case tcp_connect (example_os False True) (Some (str ''localhost'')) (str ''80'') example_net of
     None \<Rightarrow> False | Some (fd, s') \<Rightarrow> gained example_net fd s'"
  by (rule tcp_connect_resources) (simp add: example_os_def example_net_def)

text \<open>A server cannot be made: as soon as the address is known and there is a socket, \<open>tcp_host\<close>
  gives back a mutex that nobody has taken, whether binding succeeds or not.\<close>

theorem tcp_host_unlocks:
  assumes "net_getaddrinfo os (world s) None service SOCK_STREAM = (Some i, w)"
    and "net_socket os w i = (Some fd, w')" and "\<not> lock_taken s"
  shows "tcp_host os service s = None"
  using assms
  by (auto simp: tcp_host_def net_host_def get_info_def bind_socket_def create_socket_def sys_getaddrinfo_def sys_socket_def
      sys_bind_def sys_close_def net_unlock_def split: option.splits prod.splits)

theorem tcp_host_unlocks_witness:
  "tcp_host (example_os True True) (str ''80'') example_net = None"
  by (rule tcp_host_unlocks) (simp_all add: example_os_def example_net_def)

text \<open>A stream that cannot be opened over a connection leaves the descriptor open, and nothing
  refers to it any more.\<close>

theorem tcp_connect_stream_leaks:
  assumes "tcp_connect os host service s = Some (int fd, s1)" and "net_fdopen os (world s1) fd = (False, w)"
    and "gained s (int fd) s1"
  shows "\<exists>s2. tcp_connect_stream os host service s = Some (None, s2) \<and> open_fds s2 = insert fd (open_fds s)"
  using assms by (simp add: tcp_connect_stream_def sys_fdopen_def gained_def)

text \<open>No message is ever received: \<open>udp_recv\<close> reports a failure for every packet with a content, and
  leaves the buffer at the size of the largest packet, so the caller cannot tell its length.\<close>

theorem udp_recv_never_succeeds:
  assumes "\<And>n bs. recvfrom n = Some bs \<Longrightarrow> length bs \<le> n" and "\<forall>m < 2 ^ 63. can_alloc al m" and "buffer_wf message"
  shows "\<exists>r b. udp_recv al recvfrom message = Some (r, b) \<and> r \<le> 0 \<and> used b = PACKET_BUFFER_SIZE \<and>
    (r = 0 \<longleftrightarrow> recvfrom PACKET_BUFFER_SIZE = Some [])"
proof -
  obtain b where b: "buffer_resize al message PACKET_BUFFER_SIZE = (0, b)" "used b = PACKET_BUFFER_SIZE" "buffer_wf b"
    using buffer_resize_keeps [OF _ assms(2,3), of PACKET_BUFFER_SIZE] by (auto simp: PACKET_BUFFER_SIZE_def)
  then have "PACKET_BUFFER_SIZE \<le> length (mem b)" by (simp add: buffer_wf_def)
  then show ?thesis using b(1,2) assms(1) [of PACKET_BUFFER_SIZE]
    by (cases "recvfrom PACKET_BUFFER_SIZE") (auto simp: udp_recv_def Let_def mem_write_def)
qed

theorem udp_recv_never_succeeds_witness:
  "\<exists>r b. udp_recv \<lparr>can_alloc = (\<lambda>_. True), fill = (\<lambda>_. 7)\<rparr> (\<lambda>n. Some (take n (str ''hello''))) buffer_zero = Some (r, b) \<and>
    r \<le> 0 \<and> used b = PACKET_BUFFER_SIZE \<and>
    (r = 0 \<longleftrightarrow> Some (take PACKET_BUFFER_SIZE (str ''hello'')) = Some [])"
  by (rule udp_recv_never_succeeds) simp_all

end
