(* ===== verification/PipeProgram.thy ===== *)
theory PipeProgram
  imports Prelude
begin

text \<open>
  Running a program with its standard streams redirected (\<open>src/pipe-program/pipe-program.c\<close>). A
  table of descriptors says which are open and on what: an end of a pipe, or anything else that
  can be opened. \<open>pipe\<close>, the result of \<open>fork\<close> and whether
  \<open>execvp\<close> finds a program are parameters. The result of \<open>pipe\<close> is not tested, so \<open>None\<close>, a pipe
  that cannot be made, is a read of uninitialised descriptors.
\<close>

section \<open>Operations\<close>

datatype 'f stream = Reads nat | Writes nat | Opened 'f

type_synonym 'f fds = "int \<Rightarrow> 'f stream option"

type_synonym 'f pipe = "'f fds \<Rightarrow> (int \<times> int \<times> 'f fds) option"

record pipe_io =
  in_fd :: int
  out_fd :: int
  err_fd :: int

text \<open>The descriptor of the child, that of the parent, and the table.\<close>

definition setup_pipe :: "'f pipe \<Rightarrow> int \<Rightarrow> bool \<Rightarrow> 'f fds \<Rightarrow> (int \<times> int \<times> 'f fds) option" where
  "setup_pipe pipe parent_side read_from_parent fds =
     (if parent_side < 0 then
        (case pipe fds of
           None \<Rightarrow> None
         | Some (pipe_read, pipe_write, fds') \<Rightarrow>
             Some (if read_from_parent then pipe_write else pipe_read,
                   if read_from_parent then pipe_read else pipe_write, fds'))
      else Some (parent_side, -1, fds))"

definition close_maybe :: "int \<Rightarrow> 'f fds \<Rightarrow> 'f fds" where
  "close_maybe fd fds = (if fd \<ge> 0 then fds(fd := None) else fds)"

text \<open>\<open>dup2\<close> returns its second argument, or \<open>-1\<close>.\<close>

definition sys_dup2 :: "int \<Rightarrow> int \<Rightarrow> 'f fds \<Rightarrow> int \<times> 'f fds" where
  "sys_dup2 old new fds = (case fds old of None \<Rightarrow> (-1, fds) | Some f \<Rightarrow> (new, fds(new := Some f)))"

definition dup2_maybe :: "int \<Rightarrow> int \<Rightarrow> 'f fds \<Rightarrow> int \<times> 'f fds" where
  "dup2_maybe old new fds = (if old \<noteq> new then sys_dup2 old new fds else (0, fds))"

text \<open>
  The end of the function, with the descriptors at that point: it runs the program or exits; it
  never returns.
\<close>

datatype 'f process = Executes "'f fds" | Exits int "'f fds"

definition pipe_program_child :: "bool \<Rightarrow> pipe_io \<Rightarrow> pipe_io \<Rightarrow> 'f fds \<Rightarrow> 'f process" where
  "pipe_program_child found io child_side fds =
     (let fds1 = close_maybe (err_fd io) (close_maybe (out_fd io) (close_maybe (in_fd io) fds))
      in case dup2_maybe (err_fd child_side) 2 fds1 of
           (r, fds2) \<Rightarrow>
             if r \<noteq> 0 then Exits 1 fds2
             else case dup2_maybe (out_fd child_side) 1 fds2 of
                    (r, fds3) \<Rightarrow>
                      if r \<noteq> 0 then Exits 1 fds3
                      else case dup2_maybe (in_fd child_side) 0 fds3 of
                             (r, fds4) \<Rightarrow>
                               if r \<noteq> 0 then Exits 1 fds4
                               else if found then Executes fds4 else Exits 1 fds4)"

definition pipe_program_parent :: "pipe_io \<Rightarrow> 'f fds \<Rightarrow> 'f process" where
  "pipe_program_parent child_side fds =
     Exits 1 (close_maybe (err_fd child_side) (close_maybe (out_fd child_side) (close_maybe (in_fd child_side) fds)))"

definition pipe_program :: "'f pipe \<Rightarrow> int \<Rightarrow> bool \<Rightarrow> pipe_io \<Rightarrow> 'f fds \<Rightarrow> (pipe_io \<times> 'f process) option" where
  "pipe_program pipe pid found io fds =
     (case setup_pipe pipe (err_fd io) True fds of
        None \<Rightarrow> None
      | Some (child_err, parent_err, fds1) \<Rightarrow>
          (case setup_pipe pipe (out_fd io) True fds1 of
             None \<Rightarrow> None
           | Some (child_out, parent_out, fds2) \<Rightarrow>
               (case setup_pipe pipe (in_fd io) False fds2 of
                  None \<Rightarrow> None
                | Some (child_in, parent_in, fds3) \<Rightarrow>
                    (let io' = \<lparr>in_fd = parent_in, out_fd = parent_out, err_fd = parent_err\<rparr>;
                         child_side = \<lparr>in_fd = child_in, out_fd = child_out, err_fd = child_err\<rparr>
                     in Some (io', if pid = 0 then pipe_program_child found io' child_side fds3
                               else pipe_program_parent child_side fds3)))))"

section \<open>Properties\<close>

text \<open>A system whose pipes are new and get descriptors that are not open.\<close>

definition new_pipe :: "'f fds \<Rightarrow> nat \<Rightarrow> bool" where
  "new_pipe fds k \<longleftrightarrow> (\<forall>x. fds x \<noteq> Some (Reads k) \<and> fds x \<noteq> Some (Writes k))"

definition pipe_ok :: "'f pipe \<Rightarrow> bool" where
  "pipe_ok pipe \<longleftrightarrow>
     (\<forall>fds. finite (dom fds) \<longrightarrow> (\<exists>r w k. pipe fds = Some (r, w, fds(r := Some (Reads k), w := Some (Writes k))) \<and>
        0 \<le> r \<and> 0 \<le> w \<and> r \<noteq> w \<and> fds r = None \<and> fds w = None \<and> new_pipe fds k))"

text \<open>
  The descriptors that are in place for the program: the standard input is the descriptor that
  the caller gave, or it reads from a new pipe, which the child cannot write to.
\<close>

definition child_streams :: "'f fds \<Rightarrow> pipe_io \<Rightarrow> 'f fds \<Rightarrow> bool" where
  "child_streams fds io t \<longleftrightarrow>
     t 1 = fds 1 \<and> t 2 = fds 2 \<and>
     (if 0 \<le> in_fd io then t 0 = fds (in_fd io)
      else \<exists>k. new_pipe fds k \<and> t 0 = Some (Reads k) \<and> (\<forall>x. t x \<noteq> Some (Writes k)))"

text \<open>
  Those of the parent: the descriptors that the caller gave are closed, and for each of the others
  \<open>io'\<close> has one end of a new pipe, whose other end the parent does not have.
\<close>

definition parent_streams :: "'f fds \<Rightarrow> pipe_io \<Rightarrow> pipe_io \<Rightarrow> 'f fds \<Rightarrow> bool" where
  "parent_streams fds io io' t \<longleftrightarrow>
     (\<forall>x\<ge>0. fds x \<noteq> None \<longrightarrow> t x = (if x \<in> {in_fd io, out_fd io, err_fd io} then None else fds x)) \<and>
     (if 0 \<le> err_fd io then err_fd io' = -1
      else \<exists>k. new_pipe fds k \<and> t (err_fd io') = Some (Reads k) \<and> (\<forall>x. t x \<noteq> Some (Writes k))) \<and>
     (if 0 \<le> out_fd io then out_fd io' = -1
      else \<exists>k. new_pipe fds k \<and> t (out_fd io') = Some (Reads k) \<and> (\<forall>x. t x \<noteq> Some (Writes k))) \<and>
     (if 0 \<le> in_fd io then in_fd io' = -1
      else \<exists>k. new_pipe fds k \<and> t (in_fd io') = Some (Writes k) \<and> (\<forall>x. t x \<noteq> Some (Reads k)))"

definition given_open :: "'f fds \<Rightarrow> pipe_io \<Rightarrow> bool" where
  "given_open fds io \<longleftrightarrow> (\<forall>fd\<in>{in_fd io, out_fd io, err_fd io}. 0 \<le> fd \<longrightarrow> fds fd \<noteq> None)"

text \<open>What \<open>setup_pipe\<close> has done: the given descriptor is the child's, or the two have the ends of a new pipe.\<close>

definition piped :: "int \<Rightarrow> bool \<Rightarrow> 'f fds \<Rightarrow> int \<Rightarrow> int \<Rightarrow> 'f fds \<Rightarrow> bool" where
  "piped fd b fds c p fds' \<longleftrightarrow>
     (if 0 \<le> fd then c = fd \<and> p = -1 \<and> fds' = fds
      else 0 \<le> c \<and> 0 \<le> p \<and> c \<noteq> p \<and> fds c = None \<and> fds p = None \<and>
        (\<exists>k. new_pipe fds k \<and>
           fds' = fds(c := Some (if b then Writes k else Reads k), p := Some (if b then Reads k else Writes k))))"

lemma setup_pipe_piped:
  assumes "pipe_ok pipe" and "finite (dom fds)"
  obtains c p fds' where "setup_pipe pipe fd b fds = Some (c, p, fds')" and "piped fd b fds c p fds'"
    and "finite (dom fds')"
proof (cases "0 \<le> fd")
  case True
  then show thesis by (intro that [of fd "-1" fds]) (use assms(2) in \<open>simp_all add: setup_pipe_def piped_def\<close>)
next
  case False
  obtain r w k where p: "pipe fds = Some (r, w, fds(r := Some (Reads k), w := Some (Writes k)))" "0 \<le> r" "0 \<le> w" "r \<noteq> w"
      "fds r = None" "fds w = None" "new_pipe fds k"
    using assms unfolding pipe_ok_def by blast
  let ?t = "fds(r := Some (Reads k), w := Some (Writes k))"
  have "?t = fds(w := Some (Writes k), r := Some (Reads k))" using p(4) by (simp add: fun_upd_twist)
  then show thesis
    by (intro that [of "if b then w else r" "if b then r else w" ?t])
      (use assms(2) False p in \<open>auto simp: setup_pipe_def piped_def split: if_splits\<close>)
qed

lemma piped_keeps: "piped fd b fds c p fds' \<Longrightarrow> fds x \<noteq> None \<Longrightarrow> fds' x = fds x"
  by (auto simp: piped_def split: if_splits)

lemma piped_child: "piped fd b fds c p fds' \<Longrightarrow> fds x \<noteq> None \<Longrightarrow> 0 \<le> x \<Longrightarrow> c = x \<longleftrightarrow> fd = x"
  by (auto simp: piped_def split: if_splits)

lemma dup2_maybe_zero: "fst (dup2_maybe old new fds) = 0 \<longleftrightarrow> old = new \<or> new = 0 \<and> fds old \<noteq> None"
  by (auto simp: dup2_maybe_def sys_dup2_def split: option.splits)

lemma dup2_maybe_same: "dup2_maybe old new fds = (0, fds') \<Longrightarrow> new \<noteq> 0 \<Longrightarrow> old = new"
  using dup2_maybe_zero [of old new fds] by simp

text \<open>The child, with the descriptors as they are after the three calls of \<open>setup_pipe\<close>.\<close>

lemma pipe_program_child_executes:
  assumes "piped (err_fd io) True fds ce pe fds1" and "piped (out_fd io) True fds1 co po fds2"
    and "piped (in_fd io) False fds2 ci pi fds3"
    and "fds 0 \<noteq> None" and "fds 1 \<noteq> None" and "fds 2 \<noteq> None"
    and q: "q = pipe_program_child found \<lparr>in_fd = pi, out_fd = po, err_fd = pe\<rparr> \<lparr>in_fd = ci, out_fd = co, err_fd = ce\<rparr> fds3"
  shows "(\<nexists>t. q = Executes t) \<Longrightarrow> \<exists>t. q = Exits 1 t"
    and "(\<exists>t. q = Executes t) \<longleftrightarrow>
      found \<and> err_fd io = 2 \<and> out_fd io = 1 \<and> (in_fd io < 0 \<or> fds (in_fd io) \<noteq> None)"
    and "q = Executes t \<Longrightarrow> child_streams fds io t"
proof -
  have ce: "ce = 2 \<longleftrightarrow> err_fd io = 2" using piped_child [OF assms(1), of 2] assms(6) by simp
  have co: "co = 1 \<longleftrightarrow> out_fd io = 1"
    using piped_child [OF assms(2), of 1] piped_keeps [OF assms(1), of 1] assms(5) by simp
  show "(\<nexists>t. q = Executes t) \<Longrightarrow> \<exists>t. q = Exits 1 t"
    by (auto simp: q pipe_program_child_def Let_def split: prod.splits)
  have not: "\<nexists>t. q = Executes t" if "\<not> (ce = 2 \<and> co = 1)"
    using that by (auto simp: q pipe_program_child_def Let_def split: prod.splits if_splits dest: dup2_maybe_same)
  let ?f = "close_maybe pi fds3"
  have eq: "pe = -1 \<and> po = -1 \<and> fds2 = fds" if "ce = 2 \<and> co = 1"
    using that ce co assms(1,2) by (simp add: piped_def)
  have run: "q = (case dup2_maybe ci 0 ?f of (r, fds4) \<Rightarrow>
      if r \<noteq> 0 then Exits 1 fds4 else if found then Executes fds4 else Exits 1 fds4)" if c: "ce = 2 \<and> co = 1"
    using eq [OF c] c
    by (simp add: q pipe_program_child_def Let_def close_maybe_def [of "-1"] dup2_maybe_def [of 2] dup2_maybe_def [of 1])
  have open_in: "ci = 0 \<or> ?f ci \<noteq> None \<longleftrightarrow> in_fd io < 0 \<or> fds (in_fd io) \<noteq> None" if "ce = 2 \<and> co = 1"
    using eq [OF that] assms(3,4) by (auto simp: piped_def close_maybe_def split: if_splits)
  show "(\<exists>t. q = Executes t) \<longleftrightarrow>
      found \<and> err_fd io = 2 \<and> out_fd io = 1 \<and> (in_fd io < 0 \<or> fds (in_fd io) \<noteq> None)"
  proof (cases "ce = 2 \<and> co = 1")
    case True
    have "(\<exists>t. q = Executes t) \<longleftrightarrow> found \<and> (ci = 0 \<or> ?f ci \<noteq> None)"
      using dup2_maybe_zero [of ci 0 ?f] unfolding run [OF True] by (auto split: prod.splits if_splits)
    then show ?thesis using open_in [OF True] ce co True by simp
  qed (use not ce co in auto)
  assume e: "q = Executes t"
  then have c: "ce = 2 \<and> co = 1" using not by blast
  have d: "dup2_maybe ci 0 ?f = (0, t)" using e unfolding run [OF c] by (auto split: prod.splits if_splits)
  have t: "t = (if ci = 0 then ?f else ?f(0 := ?f ci))"
    using d by (auto simp: dup2_maybe_def sys_dup2_def split: if_splits option.splits)
  show "child_streams fds io t"
    using eq [OF c] assms(3-6) unfolding t
    by (auto simp: child_streams_def piped_def close_maybe_def new_pipe_def split: if_splits)
qed

text \<open>The parent closes the child's side of every stream.\<close>

lemma piped_old_pipe:
  assumes "piped fd b fds c p fds'" and "\<not> new_pipe fds k"
  shows "fds' x = Some (Reads k) \<longleftrightarrow> fds x = Some (Reads k)" and "fds' x = Some (Writes k) \<longleftrightarrow> fds x = Some (Writes k)"
    and "\<not> new_pipe fds' k"
proof -
  have "fds' = fds \<or> (\<exists>m u v. new_pipe fds m \<and> fds c = None \<and> fds p = None \<and> {u, v} = {Reads m, Writes m} \<and>
      fds' = fds(c := Some u, p := Some v))"
    using assms(1) unfolding piped_def by (auto split: if_splits)
  moreover have "m \<noteq> k" if "new_pipe fds m" for m using assms(2) that by blast
  ultimately show r: "fds' x = Some (Reads k) \<longleftrightarrow> fds x = Some (Reads k)"
      and w: "fds' x = Some (Writes k) \<longleftrightarrow> fds x = Some (Writes k)" for x
    by (auto simp: doubleton_eq_iff split: if_splits)
  show "\<not> new_pipe fds' k" using assms(2) r w by (simp add: new_pipe_def)
qed

lemma piped_new_pipe: "piped fd b fds c p fds' \<Longrightarrow> new_pipe fds' k \<Longrightarrow> new_pipe fds k"
  using piped_old_pipe(3) by blast

text \<open>What is left of a pipe when the parent has closed the descriptors in \<open>C\<close>.\<close>

lemma piped_parent_end:
  assumes "piped fd b fds c p fds'" and "\<not> 0 \<le> fd" and "c \<in> C" and "p \<notin> C"
    and t: "\<And>x. t x = (if x \<in> C then None else f x)"
    and f: "\<And>x k. \<not> new_pipe fds' k \<Longrightarrow> f x = Some (Reads k) \<longleftrightarrow> fds' x = Some (Reads k)"
      "\<And>x k. \<not> new_pipe fds' k \<Longrightarrow> f x = Some (Writes k) \<longleftrightarrow> fds' x = Some (Writes k)"
  shows "\<exists>k. new_pipe fds k \<and> t p = Some (if b then Reads k else Writes k) \<and> (\<forall>x. t x \<noteq> Some (if b then Writes k else Reads k))"
proof -
  from assms(1,2) obtain k where k: "new_pipe fds k"
      "fds' = fds(c := Some (if b then Writes k else Reads k), p := Some (if b then Reads k else Writes k))" "c \<noteq> p"
    by (auto simp: piped_def)
  have "fds' p = Some (if b then Reads k else Writes k)" using k(2) by simp
  then have "\<not> new_pipe fds' k" unfolding new_pipe_def by (cases b) auto
  note f' = f [OF this]
  have "t p = Some (if b then Reads k else Writes k)"
    using t [of p] assms(4) f' [of p] k(2) by (cases b) simp_all
  moreover have "t x \<noteq> Some (if b then Writes k else Reads k)" for x
    using t [of x] assms(3) f' [of x] k by (cases b) (auto simp: new_pipe_def split: if_splits)
  ultimately show ?thesis using k(1) by blast
qed

lemma piped_child_open: "piped fd b fds c p fds' \<Longrightarrow> 0 \<le> fd \<longrightarrow> fds fd \<noteq> None \<Longrightarrow> 0 \<le> c \<and> fds' c \<noteq> None"
  by (auto simp: piped_def split: if_splits)

lemma piped_parent_free: "piped fd b fds c p fds' \<Longrightarrow> \<not> 0 \<le> fd \<Longrightarrow> 0 \<le> p \<and> fds p = None \<and> fds' p \<noteq> None \<and> c \<noteq> p"
  by (auto simp: piped_def)

lemma pipe_program_parent_exits:
  assumes e: "piped (err_fd io) True fds ce pe fds1" and o: "piped (out_fd io) True fds1 co po fds2"
    and i: "piped (in_fd io) False fds2 ci pi fds3" and "given_open fds io"
  shows "parent_streams fds io \<lparr>in_fd = pi, out_fd = po, err_fd = pe\<rparr> (close_maybe ce (close_maybe co (close_maybe ci fds3)))"
proof -
  let ?C = "{ce, co, ci}" and ?t = "close_maybe ce (close_maybe co (close_maybe ci fds3))"
  have given: "0 \<le> err_fd io \<longrightarrow> fds (err_fd io) \<noteq> None" "0 \<le> out_fd io \<longrightarrow> fds (out_fd io) \<noteq> None"
      "0 \<le> in_fd io \<longrightarrow> fds (in_fd io) \<noteq> None" using assms(4) by (simp_all add: given_open_def)
  note ke = piped_keeps [OF e] and ko = piped_keeps [OF o] and ki = piped_keeps [OF i]
  have k2: "fds x \<noteq> None \<Longrightarrow> fds2 x = fds x" for x using ke [of x] ko [of x] by simp
  have o1: "0 \<le> out_fd io \<longrightarrow> fds1 (out_fd io) \<noteq> None" using given(2) ke [of "out_fd io"] by auto
  have i2: "0 \<le> in_fd io \<longrightarrow> fds2 (in_fd io) \<noteq> None" using given(3) k2 [of "in_fd io"] by auto
  note ce = piped_child_open [OF e given(1)] and co = piped_child_open [OF o o1] and ci = piped_child_open [OF i i2]
  have t: "?t x = (if x \<in> ?C then None else fds3 x)" for x
    using ce co ci by (simp add: close_maybe_def)
  note old_o = piped_old_pipe [OF o] and old_i = piped_old_pipe [OF i]
  have old: "\<not> new_pipe fds1 k \<Longrightarrow> fds3 x = Some (Reads k) \<longleftrightarrow> fds1 x = Some (Reads k)"
      "\<not> new_pipe fds1 k \<Longrightarrow> fds3 x = Some (Writes k) \<longleftrightarrow> fds1 x = Some (Writes k)" for x k
    using old_o(1,2) [of k x] old_o(3) [of k] old_i(1,2) [of k x] by simp_all
  have err: "if 0 \<le> err_fd io then pe = -1 else \<exists>k. new_pipe fds k \<and> ?t pe = Some (Reads k) \<and> (\<forall>x. ?t x \<noteq> Some (Writes k))"
  proof (cases "0 \<le> err_fd io")
    case False
    note p = piped_parent_free [OF e False]
    have "co \<noteq> pe" using piped_child [OF o, of pe] p given(2) by auto
    moreover have "ci \<noteq> pe" using piped_child [OF i, of pe] ko [of pe] p given(3) by auto
    ultimately have "pe \<notin> ?C" using p by simp
    from piped_parent_end [OF e False _ this t old] False show ?thesis by simp
  qed (use e in \<open>simp add: piped_def\<close>)
  have out: "if 0 \<le> out_fd io then po = -1 else \<exists>k. new_pipe fds1 k \<and> ?t po = Some (Reads k) \<and> (\<forall>x. ?t x \<noteq> Some (Writes k))"
  proof (cases "0 \<le> out_fd io")
    case False
    note p = piped_parent_free [OF o False]
    have "ce \<noteq> po" using p ce by auto
    moreover have "ci \<noteq> po" using piped_child [OF i, of po] p given(3) ke [of po] by auto
    ultimately have "po \<notin> ?C" using p by simp
    from piped_parent_end [OF o False _ this t old_i(1,2)] False show ?thesis by simp
  qed (use o in \<open>simp add: piped_def\<close>)
  have inp: "if 0 \<le> in_fd io then pi = -1 else \<exists>k. new_pipe fds2 k \<and> ?t pi = Some (Writes k) \<and> (\<forall>x. ?t x \<noteq> Some (Reads k))"
  proof (cases "0 \<le> in_fd io")
    case False
    note p = piped_parent_free [OF i False]
    have "fds2 ce \<noteq> None" using ce ko [of ce] by auto
    then have "pi \<notin> ?C" using p co by auto
    from piped_parent_end [OF i False _ this t] False show ?thesis by simp
  qed (use i in \<open>simp add: piped_def\<close>)
  have "?t x = (if x \<in> {in_fd io, out_fd io, err_fd io} then None else fds x)" if "0 \<le> x" "fds x \<noteq> None" for x
    using t [of x] that ke [of x] ko [of x] ki [of x] piped_child [OF e that(2,1)] piped_child [OF o _ that(1)]
      piped_child [OF i _ that(1)] by auto
  then show ?thesis
    using err out inp piped_new_pipe [OF e] piped_new_pipe [OF o] unfolding parent_streams_def by (auto split: if_splits) 
qed

text \<open>C36: No caller gets a result: the parent exits, and so does the child unless it executes the
  program. The child reads from a pipe, as its standard input, what the parent writes to the other end,
  and the other way round for the outputs; every process closes the ends of the other. With pipes for
  its standard output or its standard error the child never executes the program, because the result
  of \<open>dup2\<close> is taken for an error if it is not zero: it does exactly if the caller, whose three
  standard streams are open, passed 1 and 2 as these descriptors.\<close>

theorem pipe_program_executes:
  assumes "pipe_ok pipe" and "finite (dom fds)" and "fds 0 \<noteq> None" and "fds 1 \<noteq> None" and "fds 2 \<noteq> None"
  shows "\<exists>io' p. pipe_program pipe pid found io fds = Some (io', p) \<and>
    ((\<exists>t. p = Executes t) \<longleftrightarrow>
      pid = 0 \<and> found \<and> err_fd io = 2 \<and> out_fd io = 1 \<and> (in_fd io < 0 \<or> fds (in_fd io) \<noteq> None)) \<and>
    (\<forall>t. p = Executes t \<longrightarrow> child_streams fds io t) \<and>
    ((\<nexists>t. p = Executes t) \<longrightarrow>
      (\<exists>t. p = Exits 1 t \<and> (pid \<noteq> 0 \<and> given_open fds io \<longrightarrow> parent_streams fds io io' t)))"
proof -
  obtain ce pe fds1 where e: "setup_pipe pipe (err_fd io) True fds = Some (ce, pe, fds1)"
      "piped (err_fd io) True fds ce pe fds1" "finite (dom fds1)"
    by (rule setup_pipe_piped [OF assms(1,2)])
  obtain co po fds2 where o: "setup_pipe pipe (out_fd io) True fds1 = Some (co, po, fds2)"
      "piped (out_fd io) True fds1 co po fds2" "finite (dom fds2)"
    by (rule setup_pipe_piped [OF assms(1) e(3)])
  obtain ci pi fds3 where i: "setup_pipe pipe (in_fd io) False fds2 = Some (ci, pi, fds3)"
      "piped (in_fd io) False fds2 ci pi fds3"
    by (rule setup_pipe_piped [OF assms(1) o(3)])
  let ?io = "\<lparr>in_fd = pi, out_fd = po, err_fd = pe\<rparr>" and ?child = "\<lparr>in_fd = ci, out_fd = co, err_fd = ce\<rparr>"
  define q where "q = pipe_program_child found ?io ?child fds3"
  define t where "t = close_maybe ce (close_maybe co (close_maybe ci fds3))"
  have p: "pipe_program pipe pid found io fds = Some (?io, if pid = 0 then q else Exits 1 t)"
    using e(1) o(1) i(1) by (simp add: pipe_program_def pipe_program_parent_def q_def t_def Let_def)
  note child = pipe_program_child_executes [OF e(2) o(2) i(2) assms(3-5) q_def]
  show ?thesis
  proof (cases "pid = 0")
    case True
    show ?thesis
    proof (intro exI conjI)
      show "pipe_program pipe pid found io fds = Some (?io, q)" using p True by simp
      show "(\<exists>t. q = Executes t) \<longleftrightarrow> pid = 0 \<and> found \<and> err_fd io = 2 \<and> out_fd io = 1 \<and> (in_fd io < 0 \<or> fds (in_fd io) \<noteq> None)"
        using child(2) True by simp
      show "\<forall>t. q = Executes t \<longrightarrow> child_streams fds io t" using child(3) by blast
      show "(\<nexists>t. q = Executes t) \<longrightarrow> (\<exists>t. q = Exits 1 t \<and> (pid \<noteq> 0 \<and> given_open fds io \<longrightarrow> parent_streams fds io ?io t))"
        using child(1) True by auto
    qed
  next
    case False
    have t: "given_open fds io \<longrightarrow> parent_streams fds io ?io t"
      using pipe_program_parent_exits [OF e(2) o(2) i(2)] unfolding t_def by simp
    have r: "pipe_program pipe pid found io fds = Some (?io, Exits 1 t)" using p False by simp
    show ?thesis unfolding r by (intro exI [of _ ?io] exI [of _ "Exits 1 t"]) (simp add: False t)
  qed
qed

text \<open>Pipes that take descriptors above all that are open.\<close>

definition example_pipe :: "unit pipe" where
  "example_pipe fds =
     (let r = Max (insert 2 (dom fds)) + 1;
          k = Max (insert 0 {k. \<exists>x\<in>dom fds. fds x = Some (Reads k) \<or> fds x = Some (Writes k)}) + 1
      in Some (r, r + 1, fds(r := Some (Reads k), r + 1 := Some (Writes k))))"

lemma example_pipe_ok: "pipe_ok example_pipe"
  unfolding pipe_ok_def
proof (intro allI impI)
  fix fds :: "unit fds"
  assume fin: "finite (dom fds)"
  define r where "r = Max (insert 2 (dom fds)) + 1"
  have le: "x < r" if "x \<in> insert 2 (dom fds)" for x
    using Max_ge [of "insert 2 (dom fds)" x] fin that by (simp add: r_def)
  have r: "2 < r" using le [of 2] by simp
  have new: "fds r = None" "fds (r + 1) = None" using le [of r] le [of "r + 1"] by (auto intro: ccontr)
  define K where "K = {k. \<exists>x\<in>dom fds. fds x = Some (Reads k) \<or> fds x = Some (Writes k)}"
  have "K \<subseteq> (\<lambda>x. case the (fds x) of Reads k \<Rightarrow> k | Writes k \<Rightarrow> k | Opened y \<Rightarrow> 0) ` dom fds"
    by (force simp: K_def split: stream.splits)
  then have K: "finite (insert 0 K)" using fin finite_surj by blast
  define k where "k = Max (insert 0 K) + 1"
  have "m < k" if "m \<in> K" for m using Max_ge [OF K, of m] that by (simp add: k_def)
  then have "k \<notin> K" by blast
  then have k: "new_pipe fds k" by (auto simp: new_pipe_def K_def)
  have p: "example_pipe fds = Some (r, r + 1, fds(r := Some (Reads k), r + 1 := Some (Writes k)))"
    by (simp add: example_pipe_def r_def k_def K_def Let_def)
  show "\<exists>r w k. example_pipe fds = Some (r, w, fds(r \<mapsto> Reads k, w \<mapsto> Writes k)) \<and> 0 \<le> r \<and> 0 \<le> w \<and> r \<noteq> w \<and>
      fds r = None \<and> fds w = None \<and> new_pipe fds k"
    by (rule exI [of _ r], rule exI [of _ "r + 1"], rule exI [of _ k]) (use p r new k in simp)
qed

theorem pipe_program_executes_witness:
  "\<exists>io' t k. pipe_program example_pipe 0 True \<lparr>in_fd = -1, out_fd = 1, err_fd = 2\<rparr>
      [0 \<mapsto> Opened (), 1 \<mapsto> Opened (), 2 \<mapsto> Opened ()] = Some (io', Executes t) \<and> t 0 = Some (Reads k)"
proof -
  let ?io = "\<lparr>in_fd = -1, out_fd = 1, err_fd = 2\<rparr>" and ?fds = "[0 \<mapsto> Opened (), 1 \<mapsto> Opened (), 2 \<mapsto> Opened ()] :: unit fds"
  have "finite (dom ?fds)" "?fds 0 \<noteq> None" "?fds 1 \<noteq> None" "?fds 2 \<noteq> None" by simp_all
  from pipe_program_executes [OF example_pipe_ok this, of 0 True ?io] obtain io' p where
    p: "pipe_program example_pipe 0 True ?io ?fds = Some (io', p)"
      "(\<exists>t. p = Executes t) \<longleftrightarrow> (0 :: int) = 0 \<and> True \<and> err_fd ?io = 2 \<and> out_fd ?io = 1 \<and> (in_fd ?io < 0 \<or> ?fds (in_fd ?io) \<noteq> None)"
      "\<forall>t. p = Executes t \<longrightarrow> child_streams ?fds ?io t" by blast
  from p(2) have "\<exists>t. p = Executes t" by simp
  then obtain t where "p = Executes t" "child_streams ?fds ?io t" using p(3) by blast
  then show ?thesis using p(1) by (auto simp: child_streams_def)
qed

end
