(* ===== verification/Filestore.thy ===== *)
theory Filestore
  imports MetahashUtil
begin

text \<open>
  A store of files under the names of their digests (\<open>src/filestore/filestore.c\<close>) and its two
  programs (\<open>filestore-add.util.c\<close>, \<open>filestore-path.util.c\<close>). \<open>base16_encode\<close> is called without its
  last argument, the byte order, which is an argument of the model. The operating system is a
  record of functions on the state \<open>'f\<close> of the file system. A result \<open>None\<close> is a failed assertion or
  undefined behaviour.
\<close>

section \<open>The operating system\<close>

text \<open>The results of \<open>mkdir\<close>, \<open>link\<close> and \<open>symlink\<close>: done, \<open>EEXIST\<close>, another error.\<close>

datatype made = Made | Exists | Failed

type_synonym 'f linker = "bytes \<Rightarrow> bytes \<Rightarrow> 'f \<Rightarrow> made \<times> 'f"

text \<open>
  \<open>mkstemp\<close> gives the name of the file and what its descriptor will accept; \<open>so_wrote\<close> is the file
  system after that was written to it.
\<close>

record 'f store_os =
  so_mkdir :: "bytes \<Rightarrow> 'f \<Rightarrow> made \<times> 'f"
  so_open :: "'f \<Rightarrow> bytes \<Rightarrow> read_fd option"
  so_link :: "'f linker"
  so_symlink :: "'f linker"
  so_unlink :: "bytes \<Rightarrow> 'f \<Rightarrow> 'f"
  so_stat :: "'f \<Rightarrow> bytes \<Rightarrow> bool"
  so_realpath :: "'f \<Rightarrow> bytes \<Rightarrow> bytes option"
  so_mkstemp :: "bytes \<Rightarrow> 'f \<Rightarrow> (bytes \<times> nat option list) option \<times> 'f"
  so_wrote :: "bytes \<Rightarrow> bytes \<Rightarrow> 'f \<Rightarrow> 'f"

section \<open>Paths\<close>

definition PATH_CHAR :: byte where
  "PATH_CHAR = byte_of (CHR ''/'')"

text \<open>The format \<open>%02x\<close> of a byte.\<close>

definition print_02x :: "byte \<Rightarrow> bytes" where
  "print_02x c = [hex_digit (c div 16), hex_digit (c mod 16)]"

text \<open>\<open>buffer_printf\<close> replaces what the output buffer held.\<close>

definition filestore_path :: "bool \<Rightarrow> bytes \<Rightarrow> bytes \<Rightarrow> (bool \<times> bytes) option" where
  "filestore_path little_endian output_path input_digest =
     (case metahash_unwrap True False input_digest of
        Some (i, Some real_digest, _, _) \<Rightarrow>
          if length real_digest \<le> 1 then None
          else Some (True, metahash_name i @ [PATH_CHAR] @ print_02x (real_digest ! 0) @ [PATH_CHAR] @
                 print_02x (real_digest ! 1) @ [PATH_CHAR] @ base16_encode [] real_digest little_endian)
      | _ \<Rightarrow> Some (False, output_path))"

fun mkdir_parents_loop :: "(bytes \<Rightarrow> 'f \<Rightarrow> made \<times> 'f) \<Rightarrow> bytes \<Rightarrow> bytes \<Rightarrow> 'f \<Rightarrow> bool \<times> 'f" where
  "mkdir_parents_loop mkdir before [] fs = (True, fs)"
| "mkdir_parents_loop mkdir before (c # rest) fs =
     (if c = PATH_CHAR
      then case mkdir (before @ [c]) fs of
             (Failed, fs') \<Rightarrow> (False, fs')
           | (_, fs') \<Rightarrow> mkdir_parents_loop mkdir (before @ [c]) rest fs'
      else mkdir_parents_loop mkdir (before @ [c]) rest fs)"

definition mkdir_parents :: "(bytes \<Rightarrow> 'f \<Rightarrow> made \<times> 'f) \<Rightarrow> bytes \<Rightarrow> 'f \<Rightarrow> bool \<times> 'f" where
  "mkdir_parents mkdir path fs = mkdir_parents_loop mkdir [] path fs"

section \<open>Links\<close>

text \<open>The label \<open>replace\<close>.\<close>

definition resolve_replace :: "'f store_os \<Rightarrow> 'f linker \<Rightarrow> bytes \<Rightarrow> bytes \<Rightarrow> 'f \<Rightarrow> bool \<times> 'f" where
  "resolve_replace os lk src_path dst_path fs =
     (case lk src_path dst_path (so_unlink os dst_path fs) of (r, fs') \<Rightarrow> (r = Made, fs'))"

definition resolve_conflict ::
    "'f store_os \<Rightarrow> 'f linker \<Rightarrow> 'c gcrypt \<Rightarrow> allocator \<Rightarrow> metahash_id list \<Rightarrow> bytes \<Rightarrow> bytes \<Rightarrow> bytes \<Rightarrow> bool \<Rightarrow> 'f
       \<Rightarrow> (bool \<times> 'f) option" where
  "resolve_conflict os lk g al use_hashes src_digest src_path dst_path replace fs =
     (case so_open os fs dst_path of
        None \<Rightarrow> Some (False, fs)
      | Some dst_fd \<Rightarrow>
          if src_path = dst_path then Some (True, fs)
          else if replace then Some (resolve_replace os lk src_path dst_path fs)
          else case metahash_fd g al use_hashes [] dst_fd None of
                 None \<Rightarrow> None
               | Some (ok, dst_digest, _, _) \<Rightarrow>
                   if \<not> ok then Some (resolve_replace os lk src_path dst_path fs)
                   else if dst_digest \<noteq> src_digest then Some (resolve_replace os lk src_path dst_path fs)
                   else Some (True, fs))"

definition link_digest ::
    "'f store_os \<Rightarrow> bool \<Rightarrow> 'f linker \<Rightarrow> 'c gcrypt \<Rightarrow> allocator \<Rightarrow> metahash_id list \<Rightarrow> bytes \<Rightarrow> bool \<Rightarrow> bool
       \<Rightarrow> bytes \<Rightarrow> bytes \<Rightarrow> 'f \<Rightarrow> (bool \<times> 'f) option" where
  "link_digest os little_endian lk g al use_hashes store_path replace existing_only src_path src_digest fs =
     (case filestore_path little_endian [] src_digest of
        None \<Rightarrow> None
      | Some (False, _) \<Rightarrow> Some (False, fs)
      | Some (True, relative_target_path) \<Rightarrow>
          (let real_target_path = store_path @ [PATH_CHAR] @ relative_target_path
           in if existing_only \<and> \<not> so_stat os fs real_target_path then Some (True, fs)
              else case mkdir_parents (so_mkdir os) real_target_path fs of
                     (False, fs1) \<Rightarrow> Some (False, fs1)
                   | (True, fs1) \<Rightarrow>
                       (case lk src_path real_target_path fs1 of
                          (Made, fs2) \<Rightarrow> Some (True, fs2)
                        | (Exists, fs2) \<Rightarrow>
                            resolve_conflict os lk g al use_hashes src_digest src_path real_target_path replace fs2
                        | (Failed, fs2) \<Rightarrow> Some (False, fs2))))"

text \<open>The result, what was appended to the digest, and the file system.\<close>

definition filestore_link ::
    "'f store_os \<Rightarrow> bool \<Rightarrow> 'f linker \<Rightarrow> 'c gcrypt \<Rightarrow> allocator \<Rightarrow> metahash_id list \<Rightarrow> bytes \<Rightarrow> bool \<Rightarrow> bool
       \<Rightarrow> bytes \<Rightarrow> bytes \<Rightarrow> 'f \<Rightarrow> (bool \<times> bytes \<times> 'f) option" where
  "filestore_link os little_endian lk g al use_hashes store_path replace existing_only result_digest src_path fs =
     (case so_realpath os fs src_path of
        None \<Rightarrow> Some (False, result_digest, fs)
      | Some real_src_path \<Rightarrow>
          (case so_open os fs real_src_path of
             None \<Rightarrow> Some (False, result_digest, fs)
           | Some src_fd \<Rightarrow>
               (case metahash_fd g al use_hashes result_digest src_fd None of
                  None \<Rightarrow> None
                | Some (False, digest, _, _) \<Rightarrow> Some (False, digest, fs)
                | Some (True, digest, _, _) \<Rightarrow>
                    map_option (\<lambda>(ok, fs'). (ok, digest, fs'))
                      (link_digest os little_endian lk g al use_hashes store_path replace existing_only
                         real_src_path digest fs))))"

text \<open>The temporary file is removed at the end, whether the copy succeeds or fails.\<close>

definition filestore_copy ::
    "'f store_os \<Rightarrow> bool \<Rightarrow> 'c gcrypt \<Rightarrow> allocator \<Rightarrow> metahash_id list \<Rightarrow> bytes \<Rightarrow> bool \<Rightarrow> bool
       \<Rightarrow> bytes \<Rightarrow> read_fd \<Rightarrow> 'f \<Rightarrow> (bool \<times> bytes \<times> 'f) option" where
  "filestore_copy os little_endian g al use_hashes store_path replace existing_only result_digest src_fd fs =
     (let template = store_path @ str ''/tmp/copy.XXXXXX''
      in case mkdir_parents (so_mkdir os) template fs of
           (False, fs1) \<Rightarrow> Some (False, result_digest, fs1)
         | (True, fs1) \<Rightarrow>
             (case so_mkstemp os template fs1 of
                (None, fs2) \<Rightarrow> Some (False, result_digest, fs2)
              | (Some (real_tmp_path, accepts), fs2) \<Rightarrow>
                  (case metahash_fd g al use_hashes result_digest src_fd (Some \<lparr>accept = accepts, sent = []\<rparr>) of
                     None \<Rightarrow> None
                   | Some (ok, digest, _, tmp_fd) \<Rightarrow>
                       (let fs3 = so_wrote os real_tmp_path (sent (the tmp_fd)) fs2
                        in if \<not> ok then Some (False, digest, so_unlink os real_tmp_path fs3)
                           else map_option (\<lambda>(ok, fs4). (ok, digest, so_unlink os real_tmp_path fs4))
                                  (link_digest os little_endian (so_link os) g al use_hashes store_path replace
                                     existing_only real_tmp_path digest fs3)))))"

section \<open>The program that adds\<close>

datatype store_type = STORE_COPY | STORE_HARDLINK | STORE_SYMLINK

record add_state =
  add_hashes :: "metahash_id list"
  add_store_path :: "bytes option"
  add_encoder :: encoder
  add_store_type :: store_type
  add_replace :: bool
  add_existing_only :: bool
  add_stdin_paths :: bool

text \<open>
  The result, the line that is printed, and the file system; \<open>None\<close> also for the assertions that
  there are hash functions and a path of the store.
\<close>

definition copy_fd ::
    "'f store_os \<Rightarrow> bool \<Rightarrow> 'c gcrypt \<Rightarrow> allocator \<Rightarrow> add_state \<Rightarrow> read_fd \<Rightarrow> 'f \<Rightarrow> (bool \<times> bytes \<times> 'f) option" where
  "copy_fd os le g al prog fd fs =
     (case add_store_path prog of
        None \<Rightarrow> None
      | Some store \<Rightarrow>
          if add_hashes prog = [] then None
          else map_option (\<lambda>(ok, digest, fs'). (ok, if ok then metabase_encode_base16 [] digest @ [10] else [], fs'))
                 (filestore_copy os le g al (add_hashes prog) store (add_replace prog) (add_existing_only prog) [] fd fs))"

definition link_path ::
    "'f store_os \<Rightarrow> bool \<Rightarrow> 'c gcrypt \<Rightarrow> allocator \<Rightarrow> add_state \<Rightarrow> bytes \<Rightarrow> 'f \<Rightarrow> (bool \<times> bytes \<times> 'f) option" where
  "link_path os le g al prog src_path fs =
     (case add_store_path prog of
        None \<Rightarrow> None
      | Some store \<Rightarrow>
          if add_hashes prog = [] then None
          else map_option (\<lambda>(ok, digest, fs'). (ok, if ok then metabase_encode_base16 [] digest @ [10] else [], fs'))
                 (filestore_link os le (if add_store_type prog = STORE_SYMLINK then so_symlink os else so_link os) g al
                    (add_hashes prog) store (add_replace prog) (add_existing_only prog) [] src_path fs))"

definition store_path ::
    "'f store_os \<Rightarrow> bool \<Rightarrow> 'c gcrypt \<Rightarrow> allocator \<Rightarrow> add_state \<Rightarrow> bytes \<Rightarrow> 'f \<Rightarrow> (bool \<times> bytes \<times> 'f) option" where
  "store_path os le g al prog src_path fs =
     (case add_store_type prog of
        STORE_COPY \<Rightarrow>
          (case so_open os fs src_path of
             None \<Rightarrow> Some (False, [], fs)
           | Some src_fd \<Rightarrow> copy_fd os le g al prog src_fd fs)
      | _ \<Rightarrow> link_path os le g al prog src_path fs)"

datatype add_option =
  Add_help | Add_hash "bytes option" | Add_encoding string | Add_path "bytes option" | Add_type "bytes option"
| Add_replace | Add_existing_only | Add_stdin_paths | Add_other

text \<open>The loop over the options, with the list that \<open>--hash\<close> fills; \<open>None\<close>: the program stops.\<close>

fun add_options :: "add_option list \<Rightarrow> add_state \<Rightarrow> metahash_id list \<Rightarrow> (add_state \<times> metahash_id list) option" where
  "add_options [] prog use_hash_ids = Some (prog, use_hash_ids)"
| "add_options (Add_help # opts) prog use_hash_ids = None"
| "add_options (Add_hash None # opts) prog use_hash_ids = None"
| "add_options (Add_hash (Some optarg) # opts) prog use_hash_ids =
     (case metahash_identify_list use_hash_ids optarg of
        (ok, ids) \<Rightarrow> if ok then add_options opts prog ids else None)"
| "add_options (Add_encoding optarg # opts) prog use_hash_ids =
     (case metabase_select_encoder (metabase_identify_name optarg) of
        None \<Rightarrow> None
      | Some e \<Rightarrow> add_options opts (prog\<lparr>add_encoder := e\<rparr>) use_hash_ids)"
| "add_options (Add_path None # opts) prog use_hash_ids = None"
| "add_options (Add_path (Some optarg) # opts) prog use_hash_ids =
     add_options opts (prog\<lparr>add_store_path := Some optarg\<rparr>) use_hash_ids"
| "add_options (Add_type None # opts) prog use_hash_ids = None"
| "add_options (Add_type (Some optarg) # opts) prog use_hash_ids =
     (if optarg = str ''copy'' then add_options opts (prog\<lparr>add_store_type := STORE_COPY\<rparr>) use_hash_ids
      else if optarg = str ''hardlink'' then add_options opts (prog\<lparr>add_store_type := STORE_HARDLINK\<rparr>) use_hash_ids
      else if optarg = str ''symlink'' then add_options opts (prog\<lparr>add_store_type := STORE_SYMLINK\<rparr>) use_hash_ids
      else None)"
| "add_options (Add_replace # opts) prog use_hash_ids = add_options opts (prog\<lparr>add_replace := True\<rparr>) use_hash_ids"
| "add_options (Add_existing_only # opts) prog use_hash_ids =
     add_options opts (prog\<lparr>add_existing_only := True\<rparr>) use_hash_ids"
| "add_options (Add_stdin_paths # opts) prog use_hash_ids =
     add_options opts (prog\<lparr>add_stdin_paths := True\<rparr>) use_hash_ids"
| "add_options (Add_other # opts) prog use_hash_ids = None"

fun store_paths ::
    "'f store_os \<Rightarrow> bool \<Rightarrow> 'c gcrypt \<Rightarrow> allocator \<Rightarrow> add_state \<Rightarrow> bytes list \<Rightarrow> bytes \<Rightarrow> 'f \<Rightarrow> (bool \<times> bytes \<times> 'f) option" where
  "store_paths os le g al prog [] out fs = Some (True, out, fs)"
| "store_paths os le g al prog (p # paths) out fs =
     (case store_path os le g al prog p fs of
        None \<Rightarrow> None
      | Some (ok, l, fs') \<Rightarrow>
          if ok then store_paths os le g al prog paths (out @ l) fs' else Some (False, out @ l, fs'))"

text \<open>The lines of the standard input; the end of a line is overwritten with a null byte.\<close>

partial_function (option) store_lines ::
    "'f store_os \<Rightarrow> bool \<Rightarrow> 'c gcrypt \<Rightarrow> allocator \<Rightarrow> add_state \<Rightarrow> text_line \<Rightarrow> buffer \<Rightarrow> read_fd \<Rightarrow> bytes \<Rightarrow> 'f
       \<Rightarrow> (bool \<times> bytes \<times> 'f) option" where
  "store_lines os le g al prog line b fd out fs =
     (case buffer_getline_fd al None 0 False 0 0 line b fd of
        None \<Rightarrow> None
      | Some (found, line', b', fd') \<Rightarrow>
          if \<not> found then Some (True, out, fs)
          else (case line_end line' of
                  None \<Rightarrow> None
                | Some e \<Rightarrow>
                    if length (mem b') \<le> e then None
                    else (let b'' = b'\<lparr>mem := (mem b')[e := 0]\<rparr>
                          in case store_path os le g al prog
                                    (takeWhile (\<lambda>c. c \<noteq> 0) (drop (line_begin line') (mem b''))) fs of
                               None \<Rightarrow> None
                             | Some (ok, l, fs') \<Rightarrow>
                                 if ok then store_lines os le g al prog line' b'' fd' (out @ l) fs'
                                 else Some (False, out @ l, fs'))))"

definition filestore_add_main ::
    "'f store_os \<Rightarrow> bool \<Rightarrow> 'c gcrypt \<Rightarrow> allocator \<Rightarrow> text_line \<Rightarrow> read_fd \<Rightarrow> add_option list \<Rightarrow> bytes list \<Rightarrow> 'f
       \<Rightarrow> (bool \<times> bytes \<times> 'f) option" where
  "filestore_add_main os le g al line stdin opts operands fs =
     (case add_options opts \<lparr>add_hashes = [], add_store_path = None, add_encoder = metabase_encode_base16,
             add_store_type = STORE_COPY, add_replace = False, add_existing_only = False, add_stdin_paths = False\<rparr> [] of
        None \<Rightarrow> Some (False, [], fs)
      | Some (prog0, use_hash_ids) \<Rightarrow>
          (let prog = (if add_hashes prog0 = [] then prog0\<lparr>add_hashes := add_hashes prog0 @ [METAHASH_SHA2_256]\<rparr> else prog0)
           in if add_stdin_paths prog then store_lines os le g al prog line buffer_zero stdin [] fs
              else if operands \<noteq> [] then store_paths os le g al prog operands [] fs
              else if add_store_type prog \<noteq> STORE_COPY then Some (False, [], fs)
              else copy_fd os le g al prog stdin fs))"

section \<open>The program that prints paths\<close>

text \<open>
  The argument without what follows its first white space; the result of decoding it is not
  looked at. The first character is read even if there is none; then it is no base with a decoder.
\<close>

definition get_path :: "bool \<Rightarrow> bytes \<Rightarrow> (bool \<times> bytes) option" where
  "get_path le arg_encoded =
     (case (if arg_encoded = [] then Some (False, []) else metabase_decode [] arg_encoded) of
        None \<Rightarrow> None
      | Some (_, arg_decoded) \<Rightarrow>
          map_option (\<lambda>(ok, path). (ok, if ok then path @ [10] else [])) (filestore_path le [] arg_decoded))"

text \<open>The results of both loops are false for \<open>abort\<close>.\<close>

fun path_arguments :: "bool \<Rightarrow> bytes list \<Rightarrow> bytes \<Rightarrow> (bool \<times> bytes) option" where
  "path_arguments le [] out = Some (True, out)"
| "path_arguments le (arg # args) out =
     (case truncate_spaces (arg @ [0]) of
        None \<Rightarrow> None
      | Some n \<Rightarrow>
          (case get_path le (take n arg) of
             None \<Rightarrow> None
           | Some (ok, l) \<Rightarrow> if ok then path_arguments le args (out @ l) else Some (False, out)))"

partial_function (option) path_lines ::
    "bool \<Rightarrow> allocator \<Rightarrow> text_line \<Rightarrow> buffer \<Rightarrow> read_fd \<Rightarrow> bytes \<Rightarrow> (bool \<times> bytes) option" where
  "path_lines le al line b fd out =
     (case buffer_getline_fd al None 0 False 0 0 line b fd of
        None \<Rightarrow> None
      | Some (found, line', b', fd') \<Rightarrow>
          if \<not> found then Some (True, out)
          else (case truncate_spaces (drop (line_begin line') (mem b')) of
                  None \<Rightarrow> None
                | Some n \<Rightarrow>
                    (case get_path le (take n (drop (line_begin line') (mem b'))) of
                       None \<Rightarrow> None
                     | Some (ok, l) \<Rightarrow>
                         if ok then path_lines le al line' b' fd' (out @ l) else Some (False, out))))"

definition filestore_path_main :: "bool \<Rightarrow> allocator \<Rightarrow> text_line \<Rightarrow> bytes list \<Rightarrow> read_fd \<Rightarrow> (bool \<times> bytes) option" where
  "filestore_path_main le al line args stdin =
     (if args \<noteq> [] then path_arguments le args [] else path_lines le al line buffer_zero stdin [])"

section \<open>Paths of digests\<close>

text \<open>The digests of some data, one after the other.\<close>

definition digests_of :: "(gcry_id \<Rightarrow> bytes \<Rightarrow> bytes) \<Rightarrow> metahash_id list \<Rightarrow> bytes \<Rightarrow> bytes" where
  "digests_of H ids m = concat (map (\<lambda>i. H (the (convert_metahash_id_to_gcry_id i)) m) ids)"

definition digest_path :: "bool \<Rightarrow> metahash_id \<Rightarrow> bytes \<Rightarrow> bytes" where
  "digest_path le i d =
     metahash_name i @ [PATH_CHAR] @ print_02x (d ! 0) @ [PATH_CHAR] @ print_02x (d ! 1) @ [PATH_CHAR] @ base16_encode [] d le"

lemma metahash_size_digest: "i \<noteq> METAHASH_IDENTITY \<Longrightarrow> 1 < metahash_size i"
  by (cases i) simp_all

lemma filestore_path_unwrap:
  "filestore_path le out input = Some r \<longleftrightarrow>
     (case metahash_unwrap True False input of
        Some (i, Some d, _, _) \<Rightarrow> r = (True, digest_path le i d)
      | _ \<Rightarrow> r = (False, out))"
proof (cases "metahash_unwrap True False input")
  case None
  then show ?thesis by (auto simp: filestore_path_def)
next
  case (Some x)
  obtain i dg rest v where x: "x = (i, dg, rest, v)" by (cases x)
  show ?thesis
  proof (cases dg)
    case None
    then show ?thesis using Some x by (auto simp: filestore_path_def)
  next
    case (Some d)
    have "i \<noteq> METAHASH_IDENTITY" "length d = metahash_size i"
      using \<open>metahash_unwrap True False input = Some x\<close> x Some
      by (auto simp: metahash_unwrap_def metahash_header_read_def Let_def split: option.splits prod.splits if_splits)
    then have "1 < length d" using metahash_size_digest by simp
    then show ?thesis using \<open>metahash_unwrap True False input = Some x\<close> x Some
      by (auto simp: filestore_path_def digest_path_def)
  qed
qed

lemma filestore_path_header:
  assumes "i \<noteq> METAHASH_IDENTITY" and "length d = metahash_size i"
  shows "filestore_path le out (metahash_header_write [] i @ d @ rest) = Some (True, digest_path le i d)"
  unfolding filestore_path_unwrap metahash_unwrap_def metahash_header_read_write [OF assms(1)]
  using assms(2) by (simp add: Let_def)

lemma metahash_name_no_separator: "PATH_CHAR \<notin> set (metahash_name i)"
  by (cases i) (simp_all add: PATH_CHAR_def byte_of_def str_def)

lemma metahash_name_inject: "metahash_name i = metahash_name j \<longleftrightarrow> i = j"
  by (cases i; cases j) (simp_all add: byte_of_def str_def)

lemma append_separator_inject:
  assumes "c \<notin> set a" and "c \<notin> set b"
  shows "a @ c # x = b @ c # y \<longleftrightarrow> a = b \<and> x = y"
  using assms
proof (induction a arbitrary: b)
  case Nil
  then show ?case by (cases b) auto
next
  case (Cons z a)
  then show ?case by (cases b) auto
qed

lemma print_02x_length [simp]: "length (print_02x c) = 2"
  by (simp add: print_02x_def)

lemma digest_path_inject: "digest_path le i d = digest_path le j e \<longleftrightarrow> i = j \<and> d = e"
proof
  assume "digest_path le i d = digest_path le j e"
  then have e: "metahash_name i @ PATH_CHAR # (print_02x (d ! 0) @ [PATH_CHAR] @ print_02x (d ! 1) @ [PATH_CHAR] @ base16_encode [] d le)
      = metahash_name j @ PATH_CHAR # (print_02x (e ! 0) @ [PATH_CHAR] @ print_02x (e ! 1) @ [PATH_CHAR] @ base16_encode [] e le)"
    by (simp add: digest_path_def)
  note a = e [unfolded append_separator_inject [OF metahash_name_no_separator metahash_name_no_separator]]
  from a have "base16_encode [] d le = base16_encode [] e le" by simp
  then have "base16_decode [] (base16_encode [] d le) le = base16_decode [] (base16_encode [] e le) le" by simp
  then show "i = j \<and> d = e" using a by (simp add: base16_decode_encode metahash_name_inject)
qed simp

lemma get_path_armor:
  assumes "metabase_select_encoder k = Some e" and "i \<noteq> METAHASH_IDENTITY" and "length d = metahash_size i"
  shows "get_path le (e [] (metahash_header_write [] i @ d @ rest)) = Some (True, digest_path le i d @ [10])"
  using encoder_armor [OF assms(1), of "metahash_header_write [] i @ d @ rest"] filestore_path_header [OF assms(2,3)]
  by (simp add: get_path_def)

lemma digests_text_Cons: "digests_text ((i, d) # ds) = metahash_header_write [] i @ d @ digests_text ds"
  by (simp add: digests_text_def)

text \<open>The path that a line of digests is turned into, which is that of the first one.\<close>

definition line_path :: "bool \<Rightarrow> (metahash_id \<times> bytes) list \<times> bytes \<Rightarrow> bytes" where
  "line_path le l = (case hd (fst l) of (i, d) \<Rightarrow> digest_path le i d)"

definition path_line_ok :: "(metahash_id \<times> bytes) list \<times> bytes \<Rightarrow> bool" where
  "path_line_ok l \<longleftrightarrow> digest_line_ok l \<and> fst l \<noteq> []"

lemma get_path_line:
  assumes "metabase_select_encoder k = Some e" and "path_line_ok l" and "c = 0 \<or> isspace c"
  obtains n where "truncate_spaces (digest_line e l @ c # r) = Some n"
    and "n \<le> length (digest_line e l)"
    and "get_path le (take n (digest_line e l @ c # r)) = Some (True, line_path le l @ [10])"
proof -
  let ?a = "e [] (digests_text (fst l))"
  note a = encoder_armor [OF assms(1), of "digests_text (fst l)"]
  have ok: "digest_line_ok l" and ne: "fst l \<noteq> []" using assms(2) by (simp_all add: path_line_ok_def)
  obtain i d ds where l: "fst l = (i, d) # ds" using ne by (cases "fst l") auto
  obtain c' r' where r': "digest_line e l @ c # r = ?a @ c' # r'" "c' = 0 \<or> isspace c'"
    using assms(3) ok by (cases "snd l") (auto simp: digest_line_def digest_line_ok_def)
  have t: "truncate_spaces (digest_line e l @ c # r) = Some (length ?a)"
    unfolding r'(1) using a r'(2) by (intro truncate_spaces_armor) auto
  have "i \<noteq> METAHASH_IDENTITY" "length d = metahash_size i" using ok by (simp_all add: digest_line_ok_def digests_ok_def l)
  from get_path_armor [OF assms(1) this, of le "digests_text ds"]
  have "get_path le (take (length ?a) (digest_line e l @ c # r)) = Some (True, line_path le l @ [10])"
    unfolding r'(1) by (simp add: l digests_text_Cons line_path_def)
  then show ?thesis using that t by (simp add: digest_line_def)
qed

lemma path_arguments_lines:
  assumes "metabase_select_encoder k = Some e"
  shows "list_all path_line_ok ls \<Longrightarrow>
    path_arguments le (map (digest_line e) ls) out = Some (True, out @ concat (map (\<lambda>l. line_path le l @ [10]) ls))"
proof (induction ls arbitrary: out)
  case (Cons l ls)
  then have ok: "path_line_ok l" by simp
  obtain n where n: "truncate_spaces (digest_line e l @ 0 # []) = Some n" "n \<le> length (digest_line e l)"
      "get_path le (take n (digest_line e l @ 0 # [])) = Some (True, line_path le l @ [10])"
    by (rule get_path_line [OF assms ok disjI1 [OF refl], where le = le and r = "[]"])
  then have "get_path le (take n (digest_line e l)) = Some (True, line_path le l @ [10])" by simp
  then show ?case using n(1) Cons by simp
qed simp

lemma path_lines_lines:
  assumes "metabase_select_encoder k = Some e"
  shows "list_all path_line_ok ls \<Longrightarrow> lines_left al line b fd (digest_lines e ls) \<Longrightarrow>
    path_lines le al line b fd out = Some (True, out @ concat (map (\<lambda>l. line_path le l @ [10]) ls))"
proof (induction ls arbitrary: line b fd out)
  case Nil
  then have "lines_left al line b fd []" by (simp add: digest_lines_def)
  from buffer_getline_fd_delivers [OF this] show ?case
    by (subst path_lines.simps) (auto simp: delivers_def)
next
  case (Cons l ls)
  then have ok: "path_line_ok l" "digest_line_ok l" by (simp_all add: path_line_ok_def)
  obtain line' b' fd' c r where
    d: "buffer_getline_fd al None 0 False 0 0 line b fd = Some (True, line', b', fd')"
      "lines_left al line' b' fd' (digest_lines e ls)"
      "drop (line_begin line') (mem b') = digest_line e l @ c # r" "c = 0 \<or> isspace c"
    by (rule getline_digest_line [OF assms ok(2) Cons.prems(2)])
  obtain n where n: "truncate_spaces (drop (line_begin line') (mem b')) = Some n"
      "get_path le (take n (drop (line_begin line') (mem b'))) = Some (True, line_path le l @ [10])"
    unfolding d(3) by (rule get_path_line [OF assms ok(1) d(4)])
  have "path_lines le al line b fd out = path_lines le al line' b' fd' (out @ line_path le l @ [10])"
    using d(1) n by (subst path_lines.simps) simp
  then show ?case using Cons.IH [OF _ d(2)] Cons.prems(1) by simp
qed

section \<open>Linking into the store\<close>

text \<open>
  What the manuals of the calls say, for file systems of regular files, directories and symbolic
  links. \<open>node fs p\<close> is the file that the path \<open>p\<close> leads to, if it leads to one, and \<open>data fs\<close>
  takes a file to its contents; \<open>dir fs p\<close> says that \<open>p\<close> leads to a directory, and \<open>own fs p\<close>
  that \<open>p\<close> is a name of its file and no symbolic link, and for \<open>symlink\<close> also that it goes
  through none, as the paths that \<open>realpath\<close> gives.

  \<^item> No call changes the contents of a file. Making a directory, and making a link, changes no path
    that leads to a file; a link that cannot be made changes nothing.
  \<^item> A file that can be opened is read without errors. A directory can be opened too, and then
    reading it fails.
  \<^item> A link that is made to the name of a file leads to the file.
  \<^item> Removing a name that leads to no directory only touches the paths that led to the same file.
    If it leads to a directory it is a symbolic link, or it is not removed; then paths through it
    can be lost, but not the name of a file to which a link can be made at this place afterwards.
\<close>

definition store_os_ok ::
    "'f store_os \<Rightarrow> 'f linker \<Rightarrow> ('f \<Rightarrow> bytes \<Rightarrow> 'i option) \<Rightarrow> ('f \<Rightarrow> bytes \<Rightarrow> bool) \<Rightarrow> ('f \<Rightarrow> bytes \<Rightarrow> bool)
       \<Rightarrow> ('f \<Rightarrow> 'i \<Rightarrow> bytes) \<Rightarrow> bool" where
  "store_os_ok os lk node dir own data \<longleftrightarrow>
     (\<forall>fs p. data (snd (so_mkdir os p fs)) = data fs \<and> data (so_unlink os p fs) = data fs) \<and>
     (\<forall>fs s p. data (snd (lk s p fs)) = data fs) \<and>
     (\<forall>fs p q i. node fs q = Some i \<longrightarrow>
        node (snd (so_mkdir os p fs)) q = Some i \<and> (own fs q \<longrightarrow> own (snd (so_mkdir os p fs)) q)) \<and>
     (\<forall>fs p q. so_realpath os fs p = Some q \<longrightarrow> own fs q) \<and>
     (\<forall>fs p fd. so_open os fs p = Some fd \<longrightarrow>
        (\<exists>i. node fs p = Some i \<and> fd_clean fd \<and> fd_data fd = data fs i \<and> length (data fs i) < 2 ^ 58) \<or>
        dir fs p \<and> (\<exists>rest. fd = None # rest)) \<and>
     (\<forall>fs p q i. node fs q = Some i \<and> node fs p \<noteq> Some i \<and> \<not> dir fs p \<longrightarrow>
        node (so_unlink os p fs) q = Some i \<and> (own fs q \<longrightarrow> own (so_unlink os p fs) q)) \<and>
     (\<forall>fs p s i. node fs s = Some i \<and> own fs s \<and> dir fs p \<and> fst (lk s p (so_unlink os p fs)) = Made \<longrightarrow>
        node (so_unlink os p fs) s = Some i \<and> own (so_unlink os p fs) s) \<and>
     (\<forall>fs s p. fst (lk s p fs) \<noteq> Made \<longrightarrow> snd (lk s p fs) = fs) \<and>
     (\<forall>fs s p q i. node fs q = Some i \<longrightarrow> node (snd (lk s p fs)) q = Some i) \<and>
     (\<forall>fs s p i. fst (lk s p fs) = Made \<and> node fs s = Some i \<and> own fs s \<longrightarrow> node (snd (lk s p fs)) p = Some i)"

lemma store_os_okD:
  assumes "store_os_ok os lk node dir own data"
  shows "data (snd (so_mkdir os p fs)) = data fs"
    and "data (so_unlink os p fs) = data fs"
    and "data (snd (lk s p fs)) = data fs"
    and "node fs q = Some i \<Longrightarrow>
      node (snd (so_mkdir os p fs)) q = Some i \<and> (own fs q \<longrightarrow> own (snd (so_mkdir os p fs)) q)"
    and "so_realpath os fs p = Some q \<Longrightarrow> own fs q"
    and "so_open os fs p = Some fd \<Longrightarrow>
      (\<exists>i. node fs p = Some i \<and> fd_clean fd \<and> fd_data fd = data fs i \<and> length (data fs i) < 2 ^ 58) \<or>
      dir fs p \<and> (\<exists>rest. fd = None # rest)"
    and "node fs q = Some i \<Longrightarrow> node fs p \<noteq> Some i \<Longrightarrow> \<not> dir fs p \<Longrightarrow>
      node (so_unlink os p fs) q = Some i \<and> (own fs q \<longrightarrow> own (so_unlink os p fs) q)"
    and "node fs s = Some i \<Longrightarrow> own fs s \<Longrightarrow> dir fs p \<Longrightarrow> fst (lk s p (so_unlink os p fs)) = Made \<Longrightarrow>
      node (so_unlink os p fs) s = Some i \<and> own (so_unlink os p fs) s"
    and "fst (lk s p fs) \<noteq> Made \<Longrightarrow> snd (lk s p fs) = fs"
    and "node fs q = Some i \<Longrightarrow> node (snd (lk s p fs)) q = Some i"
    and "fst (lk s p fs) = Made \<Longrightarrow> node fs s = Some i \<Longrightarrow> own fs s \<Longrightarrow> node (snd (lk s p fs)) p = Some i"
proof -
  note c1 = assms [unfolded store_os_ok_def]
  note c2 = conjunct2 [OF c1] note c3 = conjunct2 [OF c2] note c4 = conjunct2 [OF c3]
  note c5 = conjunct2 [OF c4] note c6 = conjunct2 [OF c5] note c7 = conjunct2 [OF c6]
  note c8 = conjunct2 [OF c7] note c9 = conjunct2 [OF c8]
  show "data (snd (so_mkdir os p fs)) = data fs" "data (so_unlink os p fs) = data fs"
    using conjunct1 [OF c1] by simp_all
  show "data (snd (lk s p fs)) = data fs" using conjunct1 [OF c2] by simp
  show "node fs q = Some i \<Longrightarrow>
      node (snd (so_mkdir os p fs)) q = Some i \<and> (own fs q \<longrightarrow> own (snd (so_mkdir os p fs)) q)"
    using conjunct1 [OF c3] by blast
  show "so_realpath os fs p = Some q \<Longrightarrow> own fs q" using conjunct1 [OF c4] by blast
  show "so_open os fs p = Some fd \<Longrightarrow>
      (\<exists>i. node fs p = Some i \<and> fd_clean fd \<and> fd_data fd = data fs i \<and> length (data fs i) < 2 ^ 58) \<or>
      dir fs p \<and> (\<exists>rest. fd = None # rest)" using conjunct1 [OF c5] by blast
  show "node fs q = Some i \<Longrightarrow> node fs p \<noteq> Some i \<Longrightarrow> \<not> dir fs p \<Longrightarrow>
      node (so_unlink os p fs) q = Some i \<and> (own fs q \<longrightarrow> own (so_unlink os p fs) q)"
    using conjunct1 [OF c6] by blast
  show "node fs s = Some i \<Longrightarrow> own fs s \<Longrightarrow> dir fs p \<Longrightarrow> fst (lk s p (so_unlink os p fs)) = Made \<Longrightarrow>
      node (so_unlink os p fs) s = Some i \<and> own (so_unlink os p fs) s" using conjunct1 [OF c7] by blast
  show "fst (lk s p fs) \<noteq> Made \<Longrightarrow> snd (lk s p fs) = fs" using conjunct1 [OF c8] by blast
  show "node fs q = Some i \<Longrightarrow> node (snd (lk s p fs)) q = Some i" using conjunct1 [OF c9] by blast
  show "fst (lk s p fs) = Made \<Longrightarrow> node fs s = Some i \<Longrightarrow> own fs s \<Longrightarrow> node (snd (lk s p fs)) p = Some i"
    using conjunct2 [OF c9] by blast
qed

text \<open>If a link to a name is made after another name was removed, then it still leads to its file.\<close>

definition relinks ::
    "'f store_os \<Rightarrow> 'f linker \<Rightarrow> ('f \<Rightarrow> bytes \<Rightarrow> 'i option) \<Rightarrow> ('f \<Rightarrow> bytes \<Rightarrow> bool) \<Rightarrow> bytes \<Rightarrow> bool" where
  "relinks os lk node own s \<longleftrightarrow>
     (\<forall>fs p i. node fs s = Some i \<and> own fs s \<and> fst (lk s p (so_unlink os p fs)) = Made \<longrightarrow>
        node (so_unlink os p fs) s = Some i \<and> own (so_unlink os p fs) s)"

lemma mkdir_parents_loop_keeps:
  fixes fs :: 'f
  assumes ok: "store_os_ok (os :: 'f store_os) lk node dir own data"
  shows "mkdir_parents_loop (so_mkdir os) before path fs = (r, fs') \<Longrightarrow>
    data fs' = data fs \<and>
    (\<forall>q i. node fs q = Some i \<longrightarrow> node fs' q = Some i \<and> (own fs q \<longrightarrow> own fs' q))"
proof (induction path arbitrary: before fs)
  case (Cons c path)
  obtain m fs1 where m: "so_mkdir os (before @ [c]) fs = (m, fs1)" by (cases "so_mkdir os (before @ [c]) fs")
  have k: "data fs1 = data fs"
      "\<And>q i. node fs q = Some i \<Longrightarrow> node fs1 q = Some i \<and> (own fs q \<longrightarrow> own fs1 q)"
    using store_os_okD(1) [OF ok, where p = "before @ [c]" and fs = fs]
      store_os_okD(4) [OF ok, where p = "before @ [c]" and fs = fs] m by simp_all
  show ?case using Cons.prems Cons.IH [where before = "before @ [c]" and fs = fs1] Cons.IH [where before = "before @ [c]" and fs = fs] m k
    by (cases m) (auto split: if_splits)
qed simp

lemma mkdir_parents_keeps:
  assumes "store_os_ok os lk node dir own data" and "mkdir_parents (so_mkdir os) path fs = (r, fs')"
  shows "data fs' = data fs"
    and "node fs q = Some i \<Longrightarrow> node fs' q = Some i \<and> (own fs q \<longrightarrow> own fs' q)"
  using mkdir_parents_loop_keeps [OF assms(1)] assms(2) unfolding mkdir_parents_def by blast+

lemma metahash_fd_unreadable: "metahash_fd g al ids out (None # fd) out_fd \<noteq> Some (True, d)"
proof
  assume m: "metahash_fd g al ids out (None # fd) out_fd = Some (True, d)"
  then obtain ctx x where l: "metahash_fd_loop g al ctx buffer_zero (None # fd) out_fd = Some (True, x)"
    by (auto simp: metahash_fd_def split: option.splits prod.splits bool.splits)
  have "r = -1" if "buffer_read al buffer_zero 0 0 (None # fd) = Some (r, y)" for r y
    using that by (auto simp: buffer_read_def buffer_zero_def Let_def split: option.splits prod.splits if_splits)
  then show False using l
    by (subst (asm) metahash_fd_loop.simps) (auto simp: Let_def split: option.splits prod.splits if_splits)
qed

text \<open>
  After a conflict there is a file with the digests of the source at the place. Without
  \<open>--replace\<close> the file that was there is only removed if its digests are not those of the source.
\<close>

lemma resolve_conflict_stores:
  assumes ok: "store_os_ok os lk node dir own data" and g: "gcrypt_ok g R H" "list_all implemented ids"
    and al: "\<forall>m < 2 ^ 63. can_alloc al m" and src: "node fs src = Some i" "own fs src" "dg = digests_of H ids (data fs i)"
    and r: "resolve_conflict os lk g al ids dg src dst replace fs = Some (True, fs')"
    and again: "\<not> replace \<or> relinks os lk node own src"
  shows "data fs' = data fs" and "\<exists>j. node fs' dst = Some j \<and> digests_of H ids (data fs j) = dg"
    and "node fs q = Some k \<Longrightarrow> node fs' q = Some k \<or> dir fs dst \<or>
      node fs dst = Some k \<and> (replace \<or> digests_of H ids (data fs k) \<noteq> dg)"
proof -
  from r obtain fd where fd: "so_open os fs dst = Some fd" by (auto simp: resolve_conflict_def split: option.splits)
  have digest: "\<exists>in' out'. metahash_fd g al ids [] fd None = Some (True, digests_of H ids (data fs j), in', out')"
    if j: "node fs dst = Some j" "fd_clean fd" "fd_data fd = data fs j" "length (data fs j) < 2 ^ 58" for j
    using metahash_fd_no_output [OF g j(2) _ al, of "[]"] j(3,4) by (auto simp: digests_of_def)
  let ?kept = "fs' = fs \<and> (\<exists>j. node fs dst = Some j \<and> digests_of H ids (data fs j) = dg)"
  let ?new = "lk src dst (so_unlink os dst fs) = (Made, fs') \<and>
    (dir fs dst \<or> (\<exists>j. node fs dst = Some j \<and> (replace \<or> digests_of H ids (data fs j) \<noteq> dg)))"
  have new: "?new" if "resolve_replace os lk src dst fs = (True, fs')"
      "dir fs dst \<or> (\<exists>j. node fs dst = Some j \<and> (replace \<or> digests_of H ids (data fs j) \<noteq> dg))"
    using that by (auto simp: resolve_replace_def split: prod.splits)
  have cases: "?kept \<or> ?new"
  proof (cases "src = dst")
    case True
    then show ?thesis using r fd src by (auto simp: resolve_conflict_def)
  next
    case False
    from store_os_okD(6) [OF ok fd] consider
        j where "node fs dst = Some j" "fd_clean fd" "fd_data fd = data fs j" "length (data fs j) < 2 ^ 58"
      | rest where "dir fs dst" "fd = None # rest" by blast
    then show ?thesis
    proof cases
      case (1 j)
      from digest [OF 1] obtain in' out' where
        m: "metahash_fd g al ids [] fd None = Some (True, digests_of H ids (data fs j), in', out')" by blast
      show ?thesis
      proof (cases "replace \<or> digests_of H ids (data fs j) \<noteq> dg")
        case True
        then have "resolve_replace os lk src dst fs = (True, fs')"
          using r fd False m by (simp add: resolve_conflict_def split: if_splits)
        then show ?thesis using new True 1(1) by blast
      next
        case k: False
        then show ?thesis using r fd False m 1(1) by (simp add: resolve_conflict_def)
      qed
    next
      case (2 rest)
      then have "resolve_replace os lk src dst fs = (True, fs')"
        using r fd False metahash_fd_unreadable [of g al ids "[]" rest None]
        by (auto simp: resolve_conflict_def split: if_splits prod.splits option.splits)
      then show ?thesis using new 2(1) by blast
    qed
  qed
  have i: "node (so_unlink os dst fs) src = Some i \<and> own (so_unlink os dst fs) src" if n: ?new and k: "\<not> ?kept"
  proof (cases "dir fs dst")
    case True
    then show ?thesis using store_os_okD(8) [OF ok src(1,2) True] n by simp
  next
    case False
    then obtain j where j: "node fs dst = Some j" "replace \<or> digests_of H ids (data fs j) \<noteq> dg" using n by blast
    show ?thesis
    proof (cases "i = j")
      case False
      then show ?thesis using store_os_okD(7) [OF ok src(1), of dst] j(1) src(2) \<open>\<not> dir fs dst\<close> by simp
    next
      case True
      then have "replace" using j(2) src(3) by simp
      then have "relinks os lk node own src" using again by simp
      moreover have "fst (lk src dst (so_unlink os dst fs)) = Made" using n by simp
      ultimately show ?thesis using src(1,2) unfolding relinks_def by blast
    qed
  qed
  have lk: "snd (lk src dst (so_unlink os dst fs)) = fs'" "fst (lk src dst (so_unlink os dst fs)) = Made" if ?new
    using that by simp_all
  show "data fs' = data fs"
    using cases lk(1) store_os_okD(2) [OF ok, of dst fs] store_os_okD(3) [OF ok, of src dst "so_unlink os dst fs"] by auto
  show "\<exists>j. node fs' dst = Some j \<and> digests_of H ids (data fs j) = dg"
  proof (cases ?kept)
    case False
    then have n: ?new using cases by blast
    note u = i [OF n False]
    have "node fs' dst = Some i"
      using store_os_okD(11) [OF ok lk(2) [OF n] conjunct1 [OF u] conjunct2 [OF u]] lk(1) [OF n] by simp
    then show ?thesis using src(3) by simp
  qed auto
  show "node fs q = Some k \<Longrightarrow> node fs' q = Some k \<or> dir fs dst \<or>
      node fs dst = Some k \<and> (replace \<or> digests_of H ids (data fs k) \<noteq> dg)"
  proof -
    assume q: "node fs q = Some k"
    show ?thesis
    proof (cases "?kept \<or> dir fs dst \<or> node fs dst = Some k")
      case True
      then show ?thesis using cases q by auto
    next
      case False
      then have n: ?new using cases by blast
      have "node (so_unlink os dst fs) q = Some k" using False store_os_okD(7) [OF ok q] by blast
      from store_os_okD(10) [OF ok this, of src dst] lk(1) [OF n] show ?thesis by simp
    qed
  qed
qed

text \<open>
  A link into the store: \<open>fs1\<close> is the file system with the directories of the place, in which the
  place is looked at.
\<close>

lemma link_digest_stores:
  assumes ok: "store_os_ok os lk node dir own data" and g: "gcrypt_ok g R H" "list_all implemented ids"
    and al: "\<forall>m < 2 ^ 63. can_alloc al m" and src: "node fs src = Some i" "own fs src" "dg = digests_of H ids (data fs i)"
    and r: "link_digest os le lk g al ids store replace False src dg fs = Some (True, fs')"
    and again: "\<not> replace \<or> relinks os lk node own src"
  obtains path j fs1 where "filestore_path le [] dg = Some (True, path)"
    and "mkdir_parents (so_mkdir os) (store @ PATH_CHAR # path) fs = (True, fs1)"
    and "data fs' = data fs" and "node fs' (store @ PATH_CHAR # path) = Some j" and "digests_of H ids (data fs j) = dg"
    and "\<And>q k. node fs q = Some k \<Longrightarrow> node fs' q = Some k \<or> dir fs1 (store @ PATH_CHAR # path) \<or>
      node fs1 (store @ PATH_CHAR # path) = Some k \<and> (replace \<or> digests_of H ids (data fs k) \<noteq> dg)"
proof -
  from r obtain path where p: "filestore_path le [] dg = Some (True, path)"
    by (auto simp: link_digest_def split: option.splits bool.splits)
  let ?t = "store @ PATH_CHAR # path"
  from r p obtain fs1 res fs2 where m: "mkdir_parents (so_mkdir os) ?t fs = (True, fs1)" "lk src ?t fs1 = (res, fs2)"
    by (auto simp: link_digest_def Let_def split: prod.splits bool.splits)
  note mk = mkdir_parents_keeps [OF ok m(1)]
  have src1: "node fs1 src = Some i" "own fs1 src" "dg = digests_of H ids (data fs1 i)"
    using mk(1) mk(2) [OF src(1)] src(2,3) by simp_all
  consider "res = Made" "fs' = fs2" | "res = Exists" "resolve_conflict os lk g al ids dg src ?t replace fs2 = Some (True, fs')"
    using r p m by (cases res) (auto simp: link_digest_def Let_def)
  then show ?thesis
  proof cases
    case 1
    have d: "data fs' = data fs" using store_os_okD(3) [OF ok, of src ?t fs1] m(2) mk(1) 1(2) by simp
    have n: "node fs' ?t = Some i" using store_os_okD(11) [OF ok, of src ?t fs1 i] m(2) 1 src1(1,2) by simp
    have keep: "node fs' q = Some k" if "node fs q = Some k" for q k
      using store_os_okD(10) [OF ok, of fs1 q k src ?t] m(2) 1(2) mk(2) [OF that] by simp
    show ?thesis by (rule that [OF p m(1) d n]) (use src(3) keep in auto)
  next
    case 2
    then have e: "fs2 = fs1" using store_os_okD(9) [OF ok, of src ?t fs1] m(2) by simp
    note rc = resolve_conflict_stores [OF ok g al src1 2(2) [unfolded e] again]
    obtain j where j: "node fs' ?t = Some j" "digests_of H ids (data fs j) = dg" using rc(2) mk(1) by auto
    have d: "data fs' = data fs" using rc(1) mk(1) by simp
    show ?thesis
      by (rule that [OF p m(1) d j]) (use rc(3) mk in fastforce)
  qed
qed

lemma metahash_unwrap_shorter_digest:
  "metahash_unwrap True r input = Some (i, Some d, x, v) \<Longrightarrow> metahash_size i + 2 \<le> length input"
  by (auto simp: metahash_unwrap_def metahash_header_read_def Let_def
      split: option.splits prod.splits if_splits dest!: vluint_read_shorter)

lemma filestore_path_shorter:
  assumes "filestore_path le [] dg = Some (True, path)" and "length dg = 32"
  shows "\<exists>i d. path = digest_path le i d \<and> i \<noteq> METAHASH_SHA2_256 \<and> metahash_size i \<le> 30"
proof -
  from assms(1) obtain i d x v where u: "metahash_unwrap True False dg = Some (i, Some d, x, v)"
      and path: "path = digest_path le i d"
    by (auto simp: filestore_path_unwrap split: option.splits prod.splits)
  have "metahash_size i \<le> 30" using metahash_unwrap_shorter_digest [OF u] assms(2) by simp
  moreover then have "i \<noteq> METAHASH_SHA2_256" by auto
  ultimately show ?thesis using path by blast
qed

lemma add_options_hashes:
  "add_options opts prog ids = Some (prog', ids') \<Longrightarrow> add_hashes prog' = add_hashes prog"
  by (induction opts prog ids rule: add_options.induct) (auto split: prod.splits if_splits option.splits)

lemma add_options_stdin_paths:
  "add_options opts prog ids = Some (prog', ids') \<Longrightarrow>
     add_stdin_paths prog' \<longleftrightarrow> add_stdin_paths prog \<or> Add_stdin_paths \<in> set opts"
  by (induction opts prog ids rule: add_options.induct) (auto split: prod.splits if_splits option.splits)

lemma add_options_store:
  "add_options opts prog ids = Some (prog', ids') \<Longrightarrow> add_store_path prog' = Some store \<Longrightarrow>
     add_store_path prog = Some store \<or> Add_path (Some store) \<in> set opts"
  by (induction opts prog ids rule: add_options.induct) (auto split: prod.splits if_splits option.splits)

lemma add_options_existing_only:
  "add_options opts prog ids = Some (prog', ids') \<Longrightarrow>
     add_existing_only prog' \<longleftrightarrow> add_existing_only prog \<or> Add_existing_only \<in> set opts"
  by (induction opts prog ids rule: add_options.induct) (auto split: prod.splits if_splits option.splits)

text \<open>
  What copying needs beyond that. The temporary file is a new file, it takes what is written to
  it, and then these are its contents. A hard link needs the name that it links to. Removing the
  name of a temporary file removes no place of a digest in the store: no symbolic link leads from
  the places to temporary files.
\<close>

definition copy_os_ok ::
    "'f store_os \<Rightarrow> bool \<Rightarrow> bytes \<Rightarrow> ('f \<Rightarrow> bytes \<Rightarrow> 'i option) \<Rightarrow> ('f \<Rightarrow> bytes \<Rightarrow> bool) \<Rightarrow> ('f \<Rightarrow> 'i \<Rightarrow> bytes)
       \<Rightarrow> bool" where
  "copy_os_ok os le store node own data \<longleftrightarrow>
     (\<forall>fs n a fs'. so_mkstemp os (store @ str ''/tmp/copy.XXXXXX'') fs = (Some (n, a), fs') \<longrightarrow>
        fd_accepts \<lparr>accept = a, sent = []\<rparr> \<and>
        (\<forall>c. \<exists>i. node (so_wrote os n c fs') n = Some i \<and> data (so_wrote os n c fs') i = c \<and> own (so_wrote os n c fs') n) \<and>
        (\<forall>f i d j. node f (store @ PATH_CHAR # digest_path le i d) = Some j \<longrightarrow>
           node (so_unlink os n f) (store @ PATH_CHAR # digest_path le i d) = Some j)) \<and>
     (\<forall>s. relinks os (so_link os) node own s)"

lemma filestore_copy_stores:
  assumes ok: "store_os_ok os (so_link os) node dir own data" "copy_os_ok os le store node own data"
    and g: "gcrypt_ok g R H" "list_all implemented ids" and al: "\<forall>m < 2 ^ 63. can_alloc al m"
    and fd: "fd_clean src_fd" "length (fd_data src_fd) < 2 ^ 58"
    and r: "filestore_copy os le g al ids store replace existing_only [] src_fd fs = Some (True, dg, fs')"
  shows "dg = digests_of H ids (fd_data src_fd)" and "\<exists>path. filestore_path le [] dg = Some (True, path)"
    and "\<lbrakk>\<not> existing_only; filestore_path le [] dg = Some (True, digest_path le i d)\<rbrakk> \<Longrightarrow>
      \<exists>j. node fs' (store @ PATH_CHAR # digest_path le i d) = Some j \<and> digests_of H ids (data fs' j) = dg"
proof -
  from r obtain fs1 n a fs2 where m: "so_mkstemp os (store @ str ''/tmp/copy.XXXXXX'') fs1 = (Some (n, a), fs2)"
      "mkdir_parents (so_mkdir os) (store @ str ''/tmp/copy.XXXXXX'') fs = (True, fs1)"
    by (auto simp: filestore_copy_def Let_def split: prod.splits bool.splits option.splits)
  note tmp = ok(2) [unfolded copy_os_ok_def, THEN conjunct1, rule_format, OF m(1)]
  from metahash_fd_digests [OF g fd(1) conjunct1 [OF tmp] fd(2) al, of "[]"] obtain in' out' where
    c: "metahash_fd g al ids [] src_fd (Some \<lparr>accept = a, sent = []\<rparr>) =
      Some (True, digests_of H ids (fd_data src_fd), in', Some out')" "sent out' = fd_data src_fd" by (auto simp: digests_of_def)
  let ?f3 = "so_wrote os n (fd_data src_fd) fs2"
  from r m c obtain fs4 where dg: "dg = digests_of H ids (fd_data src_fd)"
      and l: "link_digest os le (so_link os) g al ids store replace existing_only n dg ?f3 = Some (True, fs4)"
      and fs': "fs' = so_unlink os n fs4"
    by (auto simp: filestore_copy_def Let_def split: option.splits)
  show "dg = digests_of H ids (fd_data src_fd)" by (rule dg)
  show "\<exists>path. filestore_path le [] dg = Some (True, path)"
    using l by (auto simp: link_digest_def split: option.splits bool.splits)
  assume ex: "\<not> existing_only" and p: "filestore_path le [] dg = Some (True, digest_path le i d)"
  from tmp obtain k where k: "node ?f3 n = Some k" "data ?f3 k = fd_data src_fd" "own ?f3 n" by blast
  have src: "dg = digests_of H ids (data ?f3 k)" using dg k(2) by simp
  have again: "\<not> replace \<or> relinks os (so_link os) node own n" using ok(2) by (simp add: copy_os_ok_def)
  from l ex have l': "link_digest os le (so_link os) g al ids store replace False n dg ?f3 = Some (True, fs4)" by simp
  obtain path j where j: "filestore_path le [] dg = Some (True, path)" "data fs4 = data ?f3"
      "node fs4 (store @ PATH_CHAR # path) = Some j" "digests_of H ids (data ?f3 j) = dg"
    by (rule link_digest_stores [OF ok(1) g al k(1,3) src l' again]) blast
  have "node fs' (store @ PATH_CHAR # digest_path le i d) = Some j" using tmp j(1,3) p unfolding fs' by auto
  moreover have "data fs' = data fs4" using store_os_okD(2) [OF ok(1)] unfolding fs' by simp
  ultimately show "\<exists>j. node fs' (store @ PATH_CHAR # digest_path le i d) = Some j \<and> digests_of H ids (data fs' j) = dg"
    using j(2,4) by auto
qed

section \<open>An example\<close>

text \<open>
  A file system for the examples, which maps paths to contents, and a hash function whose digests
  happen to begin with the header of MD5.
\<close>

definition example_digest :: "gcry_id \<Rightarrow> bytes \<Rightarrow> bytes" where
  "example_digest a m = 0 # 0x24 # replicate 30 (fold (+) m 0)"

definition example_gcrypt :: "bytes gcrypt" where
  "example_gcrypt =
     \<lparr>md_open = Some [], md_enable = (\<lambda>c a. Some c), md_write = (@), md_read = (\<lambda>c a. example_digest a c), algo_dlen = (\<lambda>a. 32)\<rparr>"

definition example_link :: "(bytes \<Rightarrow> bytes option) linker" where
  "example_link a b fs =
     (if fs b \<noteq> None then (Exists, fs) else case fs a of None \<Rightarrow> (Failed, fs) | Some c \<Rightarrow> (Made, fs(b := Some c)))"

definition example_store :: "(bytes \<Rightarrow> bytes option) store_os" where
  "example_store =
     \<lparr>so_mkdir = (\<lambda>p fs. (Exists, fs)),
      so_open = (\<lambda>fs p. case fs p of None \<Rightarrow> None | Some c \<Rightarrow>
        if length c < 2 ^ 58 then Some (if c = [] then [] else [Some c]) else None),
      so_link = example_link, so_symlink = example_link, so_unlink = (\<lambda>p fs. fs(p := None)), so_stat = (\<lambda>fs p. fs p \<noteq> None),
      so_realpath = (\<lambda>fs p. Some p), so_mkstemp = (\<lambda>t fs. (Some (t, []), fs(t := Some []))),
      so_wrote = (\<lambda>p c fs. fs(p := Some c))\<rparr>"

lemma example_store_simps [simp]:
  "so_realpath example_store fs p = Some p" "so_link example_store = example_link"
  "so_unlink example_store p fs = fs(p := None)" "so_wrote example_store p c fs = fs(p := Some c)"
  "so_mkstemp example_store t fs = (Some (t, []), fs(t := Some []))"
  by (simp_all add: example_store_def)

lemma example_gcrypt_ok: "gcrypt_ok example_gcrypt (\<lambda>c S m. c = m) example_digest"
  by (simp add: gcrypt_ok_def example_gcrypt_def example_digest_def)

lemma example_link_cases:
  "example_link a b fs =
     (if fs b \<noteq> None then (Exists, fs) else if fs a = None then (Failed, fs) else (Made, fs(b := fs a)))"
  by (auto simp: example_link_def split: option.split)

lemma example_store_ok:
  "store_os_ok example_store example_link (\<lambda>fs. fs) (\<lambda>fs p. False) (\<lambda>fs p. True) (\<lambda>fs c. c)"
  by (auto simp: store_os_ok_def example_store_def example_link_cases split: option.splits if_splits)

lemma example_copy_ok: "copy_os_ok example_store le store (\<lambda>fs. fs) (\<lambda>fs p. True) (\<lambda>fs c. c)"
proof -
  have "digest_path le i d \<noteq> str ''tmp/copy.XXXXXX''" for i d by (cases i) (simp_all add: digest_path_def str_def byte_of_def)
  then have "store @ PATH_CHAR # digest_path le i d \<noteq> store @ str ''/tmp/copy.XXXXXX''" for i d
    by (simp add: str_def PATH_CHAR_def byte_of_def)
  then show ?thesis
    by (auto simp: copy_os_ok_def relinks_def example_link_cases split: if_splits)
qed

lemma example_digest_path:
  "filestore_path le [] (example_digest a m) = Some (True, digest_path le METAHASH_MD5_128 (replicate 16 (fold (+) m 0)))"
proof -
  have "example_digest a m = metahash_header_write [] METAHASH_MD5_128 @ replicate 16 (fold (+) m 0) @ replicate 14 (fold (+) m 0)"
    by (simp add: example_digest_def metahash_header_write_def METAHASH_VERSION_def vluint_write.simps replicate_add [symmetric])
  then show ?thesis using filestore_path_header [of METAHASH_MD5_128 "replicate 16 (fold (+) m 0)"] by simp
qed

lemma mkdir_parents_example: "mkdir_parents (so_mkdir example_store) path fs = (True, fs)"
proof -
  have "mkdir_parents_loop (so_mkdir example_store) before path fs = (True, fs)" for before
    by (induction path arbitrary: before) (simp_all add: example_store_def)
  then show ?thesis by (simp add: mkdir_parents_def)
qed

section \<open>Properties\<close>

text \<open>The path of a digest in the store says which digest it is: digests with headers, whatever
  follows them, have the same path exactly if they are the same digest of the same hash function.\<close>

theorem filestore_path_addresses:
  assumes "i \<noteq> METAHASH_IDENTITY" and "length d = metahash_size i"
    and "j \<noteq> METAHASH_IDENTITY" and "length e = metahash_size j"
  shows "filestore_path le out (metahash_header_write [] i @ d @ r) = filestore_path le out (metahash_header_write [] j @ e @ r')
    \<longleftrightarrow> i = j \<and> d = e"
  by (simp add: filestore_path_header [OF assms(1,2)] filestore_path_header [OF assms(3,4)] digest_path_inject
      del: append_assoc)

theorem filestore_path_addresses_witness:
  "filestore_path False [] (metahash_header_write [] METAHASH_MURMUR3_32 @ [1, 2, 3, 4] @ [5])
     = filestore_path False [] (metahash_header_write [] METAHASH_MURMUR3_32 @ [1, 2, 3, 5] @ [])
   \<longleftrightarrow> METAHASH_MURMUR3_32 = METAHASH_MURMUR3_32 \<and> [1, 2, 3, 4] = [1, 2, 3, 5 :: byte]"
  by (rule filestore_path_addresses) simp_all

text \<open>\<open>filestore-path\<close> prints the paths of the digests that it is given in any encoding, one in
  every argument, or one in every line of its standard input.\<close>

theorem filestore_path_main_prints:
  assumes "metabase_select_encoder i = Some e" and "list_all path_line_ok ls"
    and "fd_clean stdin" and "fd_data stdin = digest_lines e ls" and "length (fd_data stdin) < 2 ^ 31"
    and "\<forall>m < 2 ^ 63. can_alloc al m"
  shows "filestore_path_main le al line (map (digest_line e) ls) stdin = Some (True, concat (map (\<lambda>l. line_path le l @ [10]) ls))
    \<and> filestore_path_main le al line [] stdin = Some (True, concat (map (\<lambda>l. line_path le l @ [10]) ls))"
proof -
  have ok: "list_all digest_line_ok ls" using assms(2) by (simp add: list_all_iff path_line_ok_def)
  then have "0 \<notin> set (digest_lines e ls)"
    using digest_line_chars(1) [OF assms(1)] by (auto simp: digest_lines_def list_all_iff)
  then have "lines_left al line buffer_zero stdin (digest_lines e ls)"
    using lines_left_start [OF assms(3) _ assms(5,6), of line] assms(4) by simp
  from path_lines_lines [OF assms(1,2) this] have l: "path_lines le al line buffer_zero stdin [] =
      Some (True, concat (map (\<lambda>l. line_path le l @ [10]) ls))" by simp
  with path_arguments_lines [OF assms(1,2), of le "[]"] show ?thesis
    by (cases ls) (simp_all add: filestore_path_main_def)
qed

theorem filestore_path_main_prints_witness:
  "filestore_path_main True plain_alloc text_line_zero (map (digest_line metabase_encode_base16)
      [([(METAHASH_MURMUR3_32, [1, 2, 3, 4])], str '' file'')])
      [Some (digest_lines metabase_encode_base16 [([(METAHASH_MURMUR3_32, [1, 2, 3, 4])], str '' file'')])] =
    Some (True, concat (map (\<lambda>l. line_path True l @ [10]) [([(METAHASH_MURMUR3_32, [1, 2, 3, 4])], str '' file'')]))
   \<and> filestore_path_main True plain_alloc text_line_zero []
      [Some (digest_lines metabase_encode_base16 [([(METAHASH_MURMUR3_32, [1, 2, 3, 4])], str '' file'')])] =
    Some (True, concat (map (\<lambda>l. line_path True l @ [10]) [([(METAHASH_MURMUR3_32, [1, 2, 3, 4])], str '' file'')]))"
  by (rule filestore_path_main_prints [where i = METABASE_BASE16])
    (simp_all add: metabase_select_encoder_def path_line_ok_def digest_line_ok_def digests_ok_def str_def byte_of_def isspace_def
      digest_lines_def digest_line_def digests_text_def metabase_encode_base16_def metahash_header_write_def
      METAHASH_VERSION_def vluint_write.simps Let_def)



text \<open>C40: What \<open>filestore-add\<close> copies from its standard input, when it is given no operands, never gets the
  name of the hash function that was used, whichever functions were asked for: the program uses SHA2-256
  and takes the bare digest for one with a header, so it only succeeds if the digest begins by chance with
  the header of another function, with shorter digests. It prints the bare digest, and unless only existing
  places were asked for, a file with the digest of the input is then at the place of that other function
  in the store.\<close>

theorem filestore_add_misnames:
  assumes g: "gcrypt_ok g R H" "algo_dlen g GCRY_MD_SHA256 = 32" and al: "\<forall>m < 2 ^ 63. can_alloc al m"
    and fd: "fd_clean stdin" "length (fd_data stdin) < 2 ^ 58"
    and ok: "store_os_ok os (so_link os) node dir own data" "\<And>store. copy_os_ok os le store node own data"
    and opts: "Add_stdin_paths \<notin> set opts"
    and r: "filestore_add_main os le g al line stdin opts [] fs = Some (True, out, fs')"
  shows "out = metabase_encode_base16 [] (H GCRY_MD_SHA256 (fd_data stdin)) @ [10] \<and>
    (\<exists>store i d. Add_path (Some store) \<in> set opts \<and>
       filestore_path le [] (H GCRY_MD_SHA256 (fd_data stdin)) = Some (True, digest_path le i d) \<and>
       i \<noteq> METAHASH_SHA2_256 \<and> metahash_size i \<le> 30 \<and>
       (Add_existing_only \<notin> set opts \<longrightarrow>
          (\<exists>j. node fs' (store @ PATH_CHAR # digest_path le i d) = Some j \<and>
             H GCRY_MD_SHA256 (data fs' j) = H GCRY_MD_SHA256 (fd_data stdin))))"
proof -
  let ?start = "\<lparr>add_hashes = [], add_store_path = None, add_encoder = metabase_encode_base16,
    add_store_type = STORE_COPY, add_replace = False, add_existing_only = False, add_stdin_paths = False\<rparr>"
  from r obtain prog ids where o: "add_options opts ?start [] = Some (prog, ids)"
    by (auto simp: filestore_add_main_def split: option.splits)
  have p: "add_hashes prog = []" "\<not> add_stdin_paths prog"
    using add_options_hashes [OF o] add_options_stdin_paths [OF o] opts by simp_all
  from r o p obtain store dg where st: "add_store_path prog = Some store" and
    c: "filestore_copy os le g al [METAHASH_SHA2_256] store (add_replace prog) (add_existing_only prog) [] stdin fs =
      Some (True, dg, fs')" and out: "out = metabase_encode_base16 [] dg @ [10]"
    by (auto simp: filestore_add_main_def copy_fd_def split: option.splits if_splits)
  have "list_all implemented [METAHASH_SHA2_256]" by (simp add: implemented_def)
  note cs = filestore_copy_stores [OF ok(1) ok(2) g(1) this al fd c]
  have one: "digests_of H [METAHASH_SHA2_256] m = H GCRY_MD_SHA256 m" for m by (simp add: digests_of_def)
  have dg: "dg = H GCRY_MD_SHA256 (fd_data stdin)" using cs(1) one by simp
  have "length dg = 32" using g dg by (simp add: gcrypt_ok_def)
  moreover obtain path where path: "filestore_path le [] dg = Some (True, path)" using cs(2) by blast
  ultimately obtain i d where i: "path = digest_path le i d" "i \<noteq> METAHASH_SHA2_256" "metahash_size i \<le> 30"
    using filestore_path_shorter by blast
  have "Add_path (Some store) \<in> set opts" using add_options_store [OF o st] by simp
  moreover have "\<exists>j. node fs' (store @ PATH_CHAR # digest_path le i d) = Some j \<and>
      H GCRY_MD_SHA256 (data fs' j) = H GCRY_MD_SHA256 (fd_data stdin)" if "Add_existing_only \<notin> set opts"
    using cs(3) [of i d] add_options_existing_only [OF o] that path i(1) dg one by auto
  ultimately show ?thesis using path i dg out by blast
qed

theorem filestore_add_misnames_witness:
  "metabase_encode_base16 [] (example_digest GCRY_MD_SHA256 (fd_data [Some [1, 2]])) @ [10] =
     metabase_encode_base16 [] (example_digest GCRY_MD_SHA256 (fd_data [Some [1, 2]])) @ [10] \<and>
    (\<exists>store i d. Add_path (Some store) \<in> set [Add_path (Some (str ''store'')), Add_hash (Some (str ''md5''))] \<and>
       filestore_path False [] (example_digest GCRY_MD_SHA256 (fd_data [Some [1, 2]])) = Some (True, digest_path False i d) \<and>
       i \<noteq> METAHASH_SHA2_256 \<and> metahash_size i \<le> 30 \<and>
       (Add_existing_only \<notin> set [Add_path (Some (str ''store'')), Add_hash (Some (str ''md5''))] \<longrightarrow>
          (\<exists>j. [str ''store'' @ PATH_CHAR # digest_path False METAHASH_MD5_128 (replicate 16 3) \<mapsto> [1, 2]]
               (store @ PATH_CHAR # digest_path False i d) = Some j \<and>
             example_digest GCRY_MD_SHA256 j = example_digest GCRY_MD_SHA256 (fd_data [Some [1, 2]]))))"
proof (rule filestore_add_misnames [OF example_gcrypt_ok, where node = "\<lambda>fs. fs" and data = "\<lambda>fs c. c"])
  let ?opts = "[Add_path (Some (str ''store'')), Add_hash (Some (str ''md5''))]"
  show "algo_dlen example_gcrypt GCRY_MD_SHA256 = 32" by (simp add: example_gcrypt_def)
  show al: "\<forall>m < 2 ^ 63. can_alloc plain_alloc m" by simp
  show "store_os_ok example_store (so_link example_store) (\<lambda>fs. fs) (\<lambda>fs p. False) (\<lambda>fs p. True) (\<lambda>fs c. c)"
    using example_store_ok by simp
  show "copy_os_ok example_store False store (\<lambda>fs. fs) (\<lambda>fs p. True) (\<lambda>fs c. c)" for store by (rule example_copy_ok)
  show "Add_stdin_paths \<notin> set ?opts" by simp
  have i: "list_all implemented [METAHASH_SHA2_256]" by (simp add: implemented_def)
  from metahash_fd_digests [OF example_gcrypt_ok i, of "[Some [1, 2]]" "\<lparr>accept = [], sent = []\<rparr>" plain_alloc "[]"] obtain in' out' where
    m: "metahash_fd example_gcrypt plain_alloc [METAHASH_SHA2_256] [] [Some [1, 2]] (Some \<lparr>accept = [], sent = []\<rparr>) =
      Some (True, example_digest GCRY_MD_SHA256 [1, 2], in', Some out')" "sent out' = [1, 2]" by auto
  have o: "metahash_identify_list [] (str ''md5'') = (True, [METAHASH_MD5_128])"
    by (simp add: metahash_identify_list_def metahash_identify_name_def str_def byte_of_def)
  have d: "PATH_CHAR # digest_path False METAHASH_MD5_128 x \<noteq> str ''/tmp/copy.XXXXXX''" for x
    by (simp add: digest_path_def str_def)
  show "filestore_add_main example_store False example_gcrypt plain_alloc text_line_zero [Some [1, 2]] ?opts [] (\<lambda>_. None) =
    Some (True, metabase_encode_base16 [] (example_digest GCRY_MD_SHA256 (fd_data [Some [1, 2]])) @ [10],
      [str ''store'' @ PATH_CHAR # digest_path False METAHASH_MD5_128 (replicate 16 3) \<mapsto> [1, 2]])"
    using m d o by (simp add: filestore_add_main_def copy_fd_def filestore_copy_def link_digest_def example_digest_path
      mkdir_parents_example example_link_def Let_def fun_upd_twist) (auto simp: fun_eq_iff)
qed simp_all

end
