(* ===== verification/Mat4.thy ===== *)
theory Mat4
  imports Prelude
begin

text \<open>
  Matrices of graphics programs (\<open>src/vec/mat4.c\<close>): sixteen numbers, column after column. The
  numbers are of any type with the operations that the code uses; what is proved holds for
  exact arithmetic, in a commutative ring or a field, and says nothing of rounding.
\<close>

section \<open>Operations\<close>

type_synonym 'a mat4 = "'a list"

record 'a fvec3 =
  vec_x :: 'a
  vec_y :: 'a
  vec_z :: 'a

record 'a fvec4 = "'a fvec3" +
  vec_w :: 'a

text \<open>Every element of the matrix is written.\<close>

definition quaternion_rotation_matrix :: "'a :: comm_ring_1 fvec4 \<Rightarrow> 'a mat4" where
  "quaternion_rotation_matrix q =
     (let xx = vec_x q * vec_x q; xy = vec_x q * vec_y q; xz = vec_x q * vec_z q; xw = vec_x q * vec_w q;
          yy = vec_y q * vec_y q; yz = vec_y q * vec_z q; yw = vec_y q * vec_w q;
          zz = vec_z q * vec_z q; zw = vec_z q * vec_w q
      in [1 - 2 * (yy + zz), 2 * (xy - zw), 2 * (xz + yw), 0,
          2 * (xy + zw), 1 - 2 * (xx + zz), 2 * (yz - xw), 0,
          2 * (xz - yw), 2 * (yz + xw), 1 - 2 * (xx + yy), 0,
          0, 0, 0, 1])"

definition tl_matrix_unwrap :: "'a :: comm_ring_1 fvec3 \<Rightarrow> nat \<Rightarrow> 'a mat4 \<Rightarrow> 'a mat4" where
  "tl_matrix_unwrap t row m =
     m[12 + row := m ! (0 + row) * vec_x t + m ! (4 + row) * vec_y t + m ! (8 + row) * vec_z t + m ! (12 + row)]"

definition apply_translation :: "'a :: comm_ring_1 mat4 \<Rightarrow> 'a fvec3 \<Rightarrow> 'a mat4" where
  "apply_translation m t =
     tl_matrix_unwrap t 3 (tl_matrix_unwrap t 2 (tl_matrix_unwrap t 1 (tl_matrix_unwrap t 0 m)))"

text \<open>The two loops, for a result that is neither of the factors.\<close>

definition mat4_multiply :: "'a :: comm_ring_1 mat4 \<Rightarrow> 'a mat4 \<Rightarrow> 'a mat4 \<Rightarrow> 'a mat4" where
  "mat4_multiply out a b =
     fold (\<lambda>row. fold (\<lambda>col out. out[col + row :=
         a ! row * b ! col + a ! (row + 4) * b ! (col + 1) + a ! (row + 8) * b ! (col + 2) + a ! (row + 12) * b ! (col + 3)])
       [0, 4, 8, 12]) [0, 1, 2, 3] out"

record 'a perspective_args =
  fovy :: 'a
  aspect :: 'a
  near :: 'a
  far :: 'a

text \<open>The cosine, the sine and the conversion to \<open>float\<close> are parameters.\<close>

definition mat4_perspective ::
    "('a :: field \<Rightarrow> 'a) \<Rightarrow> ('a \<Rightarrow> 'a) \<Rightarrow> ('a \<Rightarrow> 'a) \<Rightarrow> 'a perspective_args \<Rightarrow> 'a mat4" where
  "mat4_perspective cosine sine to_float args =
     (let f0 = to_float (fovy args / 2); f = to_float (cosine f0 / sine f0)
      in [f / aspect args, 0, 0, 0,
          0, f, 0, 0,
          0, 0, (far args + near args) / (near args - far args), -1,
          0, 0, (2 * far args * near args) / (near args - far args), 0])"

definition mat4_position :: "'a :: comm_ring_1 fvec3 \<Rightarrow> 'a fvec3 \<Rightarrow> 'a mat4" where
  "mat4_position origin rotation =
     apply_translation
       (quaternion_rotation_matrix \<lparr>vec_x = vec_x rotation, vec_y = vec_y rotation, vec_z = vec_z rotation, vec_w = 0\<rparr>) origin"

definition mat4_init_identity :: "'a :: comm_ring_1 mat4" where
  "mat4_init_identity = [1, 0, 0, 0, 0, 1, 0, 0, 0, 0, 1, 0, 0, 0, 0, 1]"

section \<open>What a matrix does\<close>

text \<open>The product with a column.\<close>

definition mat4_apply :: "'a :: comm_ring_1 mat4 \<Rightarrow> 'a list \<Rightarrow> 'a list" where
  "mat4_apply m v = map (\<lambda>row. m ! row * v ! 0 + m ! (row + 4) * v ! 1 + m ! (row + 8) * v ! 2 + m ! (row + 12) * v ! 3) [0, 1, 2, 3]"

definition point :: "'a :: comm_ring_1 fvec3 \<Rightarrow> 'a list" where
  "point p = [vec_x p, vec_y p, vec_z p, 1]"

definition vec3_plus :: "'a :: comm_ring_1 fvec3 \<Rightarrow> 'a fvec3 \<Rightarrow> 'a fvec3" where
  "vec3_plus p q = \<lparr>vec_x = vec_x p + vec_x q, vec_y = vec_y p + vec_y q, vec_z = vec_z p + vec_z q\<rparr>"

lemma list4: "length v = 4 \<Longrightarrow> \<exists>a b c d. v = [a, b, c, d]"
  by (auto simp: numeral_eq_Suc length_Suc_conv)

lemma list16:
  "length m = 16 \<Longrightarrow> \<exists>a b c d e f g h i j k l m' n p q. m = [a, b, c, d, e, f, g, h, i, j, k, l, m', n, p, q]"
  by (auto simp: numeral_eq_Suc length_Suc_conv)

lemma mat4_multiply_columns:
  assumes "length out = 16" and "length b = 16"
  shows "mat4_multiply out a b = concat (map (\<lambda>col. mat4_apply a (take 4 (drop col b))) [0, 4, 8, 12])"
proof -
  obtain o0 o1 o2 o3 o4 o5 o6 o7 o8 o9 oa ob oc od oe q where o: "out = [o0, o1, o2, o3, o4, o5, o6, o7, o8, o9, oa, ob, oc, od, oe, q]"
    using list16 [OF assms(1)] by blast
  obtain b0 b1 b2 b3 b4 b5 b6 b7 b8 b9 ba bb bc bd be bf where b: "b = [b0, b1, b2, b3, b4, b5, b6, b7, b8, b9, ba, bb, bc, bd, be, bf]"
    using list16 [OF assms(2)] by blast
  show ?thesis unfolding o b by (simp add: mat4_multiply_def mat4_apply_def)
qed

section \<open>Properties\<close>

text \<open>In exact arithmetic \<open>mat4_multiply\<close> is the composition of what the matrices do, whatever the
  result contained before, and the identity matrix is neutral.\<close>

theorem mat4_multiply_composes:
  assumes "length out = 16" and "length a = 16" and "length b = 16" and "length v = 4"
  shows "mat4_apply (mat4_multiply out a b) v = mat4_apply a (mat4_apply b v) \<and>
    mat4_multiply out a mat4_init_identity = a \<and> mat4_multiply out mat4_init_identity b = b"
proof -
  obtain v0 v1 v2 v3 where v: "v = [v0, v1, v2, v3]" using list4 [OF assms(4)] by blast
  obtain a0 a1 a2 a3 a4 a5 a6 a7 a8 a9 aa ab ac ad ae af where a: "a = [a0, a1, a2, a3, a4, a5, a6, a7, a8, a9, aa, ab, ac, ad, ae, af]"
    using list16 [OF assms(2)] by blast
  obtain b0 b1 b2 b3 b4 b5 b6 b7 b8 b9 ba bb bc bd be bf where b: "b = [b0, b1, b2, b3, b4, b5, b6, b7, b8, b9, ba, bb, bc, bd, be, bf]"
    using list16 [OF assms(3)] by blast
  have "mat4_apply (mat4_multiply out a b) v = mat4_apply a (mat4_apply b v)"
    unfolding mat4_multiply_columns [OF assms(1,3)] unfolding a b v by (simp add: mat4_apply_def algebra_simps)
  moreover have l: "length mat4_init_identity = 16" by (simp add: mat4_init_identity_def)
  have "mat4_multiply out a mat4_init_identity = a"
    unfolding mat4_multiply_columns [OF assms(1) l] unfolding a by (simp add: mat4_apply_def mat4_init_identity_def)
  moreover have "mat4_multiply out mat4_init_identity b = b"
    unfolding mat4_multiply_columns [OF assms(1,3)] unfolding b by (simp add: mat4_apply_def mat4_init_identity_def)
  ultimately show ?thesis by blast
qed

theorem mat4_multiply_composes_witness:
  "mat4_apply (mat4_multiply (replicate 16 0) [1, 2, 3, 4, 5, 6, 7, 8, 9, 10, 11, 12, 13, 14, 15, 16] (map int [1..<17])) [1, 2, 3, 1] =
    mat4_apply [1, 2, 3, 4, 5, 6, 7, 8, 9, 10, 11, 12, 13, 14, 15, 16] (mat4_apply (map int [1..<17]) [1, 2, 3, 1])"
  using mat4_multiply_composes [of "replicate 16 0" "[1, 2, 3, 4, 5, 6, 7, 8, 9, 10, 11, 12, 13, 14, 15, 16]"
      "map int [1..<17]" "[1, 2, 3, 1]"] by simp

text \<open>The product and the conjugate of quaternions, and a point as a quaternion.\<close>

definition quaternion_multiply :: "'a :: comm_ring_1 fvec4 \<Rightarrow> 'a fvec4 \<Rightarrow> 'a fvec4" where
  "quaternion_multiply p q =
     \<lparr>vec_x = vec_w p * vec_x q + vec_x p * vec_w q + vec_y p * vec_z q - vec_z p * vec_y q,
      vec_y = vec_w p * vec_y q - vec_x p * vec_z q + vec_y p * vec_w q + vec_z p * vec_x q,
      vec_z = vec_w p * vec_z q + vec_x p * vec_y q - vec_y p * vec_x q + vec_z p * vec_w q,
      vec_w = vec_w p * vec_w q - vec_x p * vec_x q - vec_y p * vec_y q - vec_z p * vec_z q\<rparr>"

definition conjugate :: "'a :: comm_ring_1 fvec4 \<Rightarrow> 'a fvec4" where
  "conjugate q = \<lparr>vec_x = - vec_x q, vec_y = - vec_y q, vec_z = - vec_z q, vec_w = vec_w q\<rparr>"

definition unit_quaternion :: "'a :: comm_ring_1 fvec4 \<Rightarrow> bool" where
  "unit_quaternion q \<longleftrightarrow> vec_x q * vec_x q + vec_y q * vec_y q + vec_z q * vec_z q + vec_w q * vec_w q = 1"

definition pure :: "'a :: comm_ring_1 fvec3 \<Rightarrow> 'a fvec4" where
  "pure p = \<lparr>vec_x = vec_x p, vec_y = vec_y p, vec_z = vec_z p, vec_w = 0\<rparr>"

lemma rotation_point:
  assumes "unit_quaternion q"
  shows "mat4_apply (quaternion_rotation_matrix q) (point p) =
    point (fvec3.truncate (quaternion_multiply (conjugate q) (quaternion_multiply (pure p) q)))"
proof -
  obtain x y z w where q: "q = \<lparr>vec_x = x, vec_y = y, vec_z = z, vec_w = w\<rparr>" by (cases q)
  obtain a b c where p: "p = \<lparr>vec_x = a, vec_y = b, vec_z = c\<rparr>" by (cases p)
  have n: "1 = x * x + y * y + z * z + w * w" using assms by (simp add: unit_quaternion_def q)
  have k: "k * (w * w) + (k * (x * x) + (k * (y * y) + k * (z * z))) = k" for k
  proof -
    have "k = k * (x * x + y * y + z * z + w * w)" unfolding n [symmetric] by simp
    then show ?thesis by (simp add: algebra_simps)
  qed
  show ?thesis
    unfolding q p by (simp add: quaternion_rotation_matrix_def Let_def mat4_apply_def point_def quaternion_multiply_def
        conjugate_def pure_def fvec3.truncate_def) (simp add: algebra_simps k)
qed

definition quaternion_norm :: "'a :: comm_ring_1 fvec4 \<Rightarrow> 'a" where
  "quaternion_norm q = vec_x q * vec_x q + vec_y q * vec_y q + vec_z q * vec_z q + vec_w q * vec_w q"

lemma quaternion_norm_multiply: "quaternion_norm (quaternion_multiply p q) = quaternion_norm p * quaternion_norm q"
  by (simp add: quaternion_norm_def quaternion_multiply_def algebra_simps)

lemma quaternion_norm_conjugate [simp]: "quaternion_norm (conjugate q) = quaternion_norm q"
  by (simp add: quaternion_norm_def conjugate_def)

lemma quaternion_multiply_assoc:
  "quaternion_multiply (quaternion_multiply p q) r = quaternion_multiply p (quaternion_multiply q r)"
  by (simp add: quaternion_multiply_def algebra_simps)

lemma turned_pure: "vec_w (quaternion_multiply (conjugate q) (quaternion_multiply (pure p) q)) = 0"
  by (simp add: quaternion_multiply_def conjugate_def pure_def algebra_simps)

lemma pure_truncate: "vec_w q = 0 \<Longrightarrow> pure (fvec3.truncate q) = q"
  by (simp add: pure_def fvec3.truncate_def)

text \<open>C39: For a unit quaternion the matrix turns every point by the conjugate of the quaternion, because
  its columns are the rows of the usual matrix: the result is the point between the conjugate and
  the quaternion. So turning by one quaternion and then by another is turning by their product in
  this order, and turning keeps the distance of a point to the origin.\<close>

theorem quaternion_rotation_conjugate:
  assumes "quaternion_norm q = 1" and "quaternion_norm q' = 1"
  shows "\<exists>r. mat4_apply (quaternion_rotation_matrix q) (point p) = point r \<and>
    pure r = quaternion_multiply (conjugate q) (quaternion_multiply (pure p) q) \<and>
    quaternion_norm (pure r) = quaternion_norm (pure p) \<and>
    mat4_apply (quaternion_rotation_matrix q') (point r) =
      mat4_apply (quaternion_rotation_matrix (quaternion_multiply q q')) (point p)"
proof -
  let ?turn = "\<lambda>q v. quaternion_multiply (conjugate q) (quaternion_multiply v q)"
  define r where "r = fvec3.truncate (?turn q (pure p))"
  have u: "unit_quaternion q" "unit_quaternion q'" "unit_quaternion (quaternion_multiply q q')"
    using assms quaternion_norm_multiply [of q q'] by (simp_all add: unit_quaternion_def quaternion_norm_def)
  have r: "pure r = ?turn q (pure p)" unfolding r_def by (intro pure_truncate turned_pure)
  have "conjugate (quaternion_multiply q q') = quaternion_multiply (conjugate q') (conjugate q)"
    by (simp add: conjugate_def quaternion_multiply_def algebra_simps)
  then have "?turn q' (pure r) = ?turn (quaternion_multiply q q') (pure p)"
    unfolding r by (simp only: quaternion_multiply_assoc)
  then have "mat4_apply (quaternion_rotation_matrix q') (point r) =
      mat4_apply (quaternion_rotation_matrix (quaternion_multiply q q')) (point p)"
    by (simp only: rotation_point [OF u(2)] rotation_point [OF u(3)])
  moreover have "quaternion_norm (pure r) = quaternion_norm (pure p)"
    unfolding r by (simp add: quaternion_norm_multiply assms(1))
  moreover have "mat4_apply (quaternion_rotation_matrix q) (point p) = point r"
    unfolding r_def by (rule rotation_point [OF u(1)])
  ultimately show ?thesis using r by blast
qed

theorem quaternion_rotation_conjugate_witness:
  "\<exists>r. mat4_apply (quaternion_rotation_matrix \<lparr>vec_x = 0, vec_y = 0, vec_z = 1, vec_w = (0 :: int)\<rparr>)
      (point \<lparr>vec_x = 1, vec_y = 2, vec_z = 3\<rparr>) = point r \<and>
    quaternion_norm (pure r) = quaternion_norm (pure \<lparr>vec_x = 1, vec_y = 2, vec_z = 3\<rparr>)"
  using quaternion_rotation_conjugate [of "\<lparr>vec_x = 0, vec_y = 0, vec_z = 1, vec_w = (0 :: int)\<rparr>"
      "\<lparr>vec_x = 1, vec_y = 0, vec_z = 0, vec_w = 0\<rparr>" "\<lparr>vec_x = 1, vec_y = 2, vec_z = 3\<rparr>"]
  by (auto simp: quaternion_norm_def)

lemma mat4_position_moves:
  "mat4_apply (mat4_position t r) (point p) = mat4_apply (quaternion_rotation_matrix (pure r)) (point (vec3_plus p t))"
  by (simp add: mat4_position_def quaternion_rotation_matrix_def apply_translation_def tl_matrix_unwrap_def mat4_apply_def
      point_def pure_def vec3_plus_def Let_def algebra_simps)

text \<open>Whatever rotation is asked for, what \<open>mat4_position\<close> does to a point is to move it by the
  origin first and then to turn it about an axis by 180 degrees, as the real part of the
  quaternion is always zero: turning twice is doing nothing.\<close>

theorem mat4_position_half_turn:
  assumes "vec_x r * vec_x r + vec_y r * vec_y r + vec_z r * vec_z r = 1" and "vec_x zero = 0" and "vec_y zero = 0" and "vec_z zero = 0"
  shows "mat4_apply (mat4_position t r) (point p) = mat4_apply (mat4_position zero r) (point (vec3_plus p t)) \<and>
    mat4_apply (mat4_position zero r) (mat4_apply (mat4_position zero r) (point p)) = point p"
proof -
  have z: "mat4_apply (mat4_position zero r) (point v) = mat4_apply (quaternion_rotation_matrix (pure r)) (point v)" for v
    unfolding mat4_position_moves using assms(2-4) by (simp add: vec3_plus_def point_def)
  have n: "quaternion_norm (pure r) = 1" using assms(1) by (simp add: quaternion_norm_def pure_def)
  then have n2: "quaternion_norm (quaternion_multiply (pure r) (pure r)) = 1" by (simp add: quaternion_norm_multiply)
  have "quaternion_multiply (pure r) (pure r) = \<lparr>vec_x = 0, vec_y = 0, vec_z = 0, vec_w = -1\<rparr>"
    using assms(1) by (simp add: quaternion_multiply_def pure_def algebra_simps)
  then have "mat4_apply (quaternion_rotation_matrix (quaternion_multiply (pure r) (pure r))) (point p) = point p"
    by (simp add: quaternion_rotation_matrix_def mat4_apply_def point_def)
  then have "mat4_apply (mat4_position zero r) (mat4_apply (mat4_position zero r) (point p)) = point p"
    using quaternion_rotation_conjugate [OF n n, of p] unfolding z by (metis z)
  then show ?thesis unfolding z using mat4_position_moves by blast
qed

theorem mat4_position_half_turn_witness:
  "mat4_apply (mat4_position \<lparr>vec_x = 0, vec_y = 0, vec_z = 0\<rparr> \<lparr>vec_x = 0, vec_y = 0, vec_z = (1 :: int)\<rparr>)
      (mat4_apply (mat4_position \<lparr>vec_x = 0, vec_y = 0, vec_z = 0\<rparr> \<lparr>vec_x = 0, vec_y = 0, vec_z = 1\<rparr>)
        (point \<lparr>vec_x = 1, vec_y = 2, vec_z = 3\<rparr>)) = point \<lparr>vec_x = 1, vec_y = 2, vec_z = 3\<rparr>"
  by (rule mat4_position_half_turn [THEN conjunct2]) simp_all

text \<open>The perspective puts the near plane at depth -1 and the far plane at depth 1, after the division
  by the last component, whatever the field of view.\<close>

lemma perspective_planes:
  fixes n f :: "'a :: field"
  assumes "n \<noteq> f"
  shows "2 * f * n / (n - f) - (f + n) / (n - f) * n = - n" and "2 * f * n / (n - f) - (f + n) / (n - f) * f = f"
proof -
  have d: "n - f \<noteq> 0" using assms by simp
  have "2 * f * n - (f + n) * n = - n * (n - f)" "2 * f * n - (f + n) * f = f * (n - f)" by (simp_all add: algebra_simps)
  then show "2 * f * n / (n - f) - (f + n) / (n - f) * n = - n" "2 * f * n / (n - f) - (f + n) / (n - f) * f = f"
    using d by (simp_all add: diff_divide_distrib [symmetric] nonzero_divide_eq_eq)
qed

lemma mat4_perspective_depth:
  assumes "near args \<noteq> far args" and "depth \<in> {near args, far args}"
  shows "mat4_apply (mat4_perspective cosine sine to_float args) [x, y, - depth, 1] ! 2 =
      (if depth = near args then - depth else depth) \<and>
    mat4_apply (mat4_perspective cosine sine to_float args) [x, y, - depth, 1] ! 3 = depth"
  using assms perspective_planes [OF assms(1)] by (auto simp: mat4_perspective_def mat4_apply_def Let_def)

end
