(* ===== verification/Popcount.thy ===== *)
theory Popcount
  imports Prelude
begin

text \<open>
  The number of one bits of a word (\<open>src/backburner/popcount/popcount.c\<close>), counted in
  parallel in fields of 2, 4 and 8 bits and summed by a multiplication. The steps are followed
  on the lists of the fields of a number.
\<close>

unbundle bit_operations_syntax

section \<open>The function\<close>

definition m1 :: "64 word" where "m1 = 0x5555555555555555"
definition m2 :: "64 word" where "m2 = 0x3333333333333333"
definition m4 :: "64 word" where "m4 = 0x0f0f0f0f0f0f0f0f"
definition h01 :: "64 word" where "h01 = 0x0101010101010101"

definition popcount64 :: "64 word \<Rightarrow> int" where
  "popcount64 x0 =
     (let x1 = x0 - (drop_bit 1 x0 AND m1);
          x2 = (x1 AND m2) + (drop_bit 2 x1 AND m2);
          x3 = (x2 + drop_bit 4 x2) AND m4
      in uint (drop_bit 56 (x3 * h01)))"

section \<open>Fields\<close>

text \<open>The number with fields of \<open>w\<close> bits, the lowest one first, and the lists of fields.\<close>

fun fields :: "nat \<Rightarrow> nat list \<Rightarrow> nat" where
  "fields w [] = 0"
| "fields w (a # as) = a + 2 ^ w * fields w as"

fun pair_sums :: "nat list \<Rightarrow> nat list" where
  "pair_sums (a # b # as) = (a + b) # pair_sums as"
| "pair_sums as = as"

definition low_fields :: "nat \<Rightarrow> nat \<Rightarrow> nat" where
  "low_fields w n = fields (2 * w) (replicate n (2 ^ w - 1))"

lemma low_fields_Suc [simp]: "low_fields w (Suc n) = (2 ^ w - 1) + 2 ^ (2 * w) * low_fields w n"
  by (simp add: low_fields_def)

lemma low_fields_0 [simp]: "low_fields w 0 = 0"
  by (simp add: low_fields_def)

lemma fields_less: "\<forall>a \<in> set as. a < 2 ^ w \<Longrightarrow> fields w as < 2 ^ (w * length as)"
proof (induction as)
  case (Cons a as)
  then have "fields w as + 1 \<le> 2 ^ (w * length as)" "a < 2 ^ w" by simp_all
  from mult_le_mono2 [OF this(1), of "2 ^ w"] this(2) show ?case by (simp add: power_add algebra_simps)
qed simp

lemma sum_list_pair_sums [simp]: "sum_list (pair_sums as) = sum_list as"
  by (induction as rule: pair_sums.induct) simp_all

lemma length_pair_sums [simp]: "even (length as) \<Longrightarrow> length (pair_sums as) = length as div 2"
  by (induction as rule: pair_sums.induct) simp_all

lemma pair_sums_le: "\<forall>a \<in> set as. a \<le> k \<Longrightarrow> \<forall>a \<in> set (pair_sums as). a \<le> 2 * k"
  by (induction as rule: pair_sums.induct) (auto intro: add_mono)

text \<open>A mask takes a number apart where its lowest part ends.\<close>

lemma and_split:
  fixes c :: nat
  assumes "c < 2 ^ k"
  shows "y AND (c + 2 ^ k * m) = (y AND c) + 2 ^ k * (y div 2 ^ k AND m)"
proof -
  have c: "take_bit k c = c" using assms by (simp add: take_bit_eq_mod)
  have low: "\<not> bit c n" if "k \<le> n" for n
    using that c by (metis bit_take_bit_iff not_le)
  have "c AND push_bit k m = 0" using low by (auto simp: bit_eq_iff bit_simps)
  then have "c + 2 ^ k * m = c OR push_bit k m"
    by (simp add: disjunctive_add_eq_or flip: push_bit_eq_mult mult.commute)
  moreover have "y AND (c OR push_bit k m) = (y AND c) OR push_bit k (drop_bit k y AND m)"
    by (auto simp: bit_eq_iff bit_simps)
  moreover have "(y AND c) AND push_bit k (drop_bit k y AND m) = 0"
    using low by (auto simp: bit_eq_iff bit_simps)
  ultimately show ?thesis
    by (simp add: disjunctive_add_eq_or [symmetric] push_bit_eq_mult drop_bit_eq_div mult.commute)
qed

lemma and_low: "y AND (2 ^ w - 1) = y mod (2 ^ w :: nat)"
  by (metis mask_eq_exp_minus_1 take_bit_eq_mask take_bit_eq_mod)

lemma and_low_fields:
  "y AND low_fields w (Suc n) = y mod 2 ^ w + 2 ^ (2 * w) * (y div 2 ^ (2 * w) AND low_fields w n)"
proof -
  have "(2 :: nat) ^ w \<le> 2 ^ (2 * w)" by (rule power_increasing) simp_all
  then have "(2 :: nat) ^ w - 1 < 2 ^ (2 * w)" by (simp add: less_le_trans [OF diff_less])
  then show ?thesis unfolding low_fields_Suc by (simp only: and_split and_low)
qed

text \<open>Two neighbours of a number of fields.\<close>

lemma fields_pair:
  assumes "a < 2 ^ w" and "b < 2 ^ w"
  shows "fields w (a # b # as) mod 2 ^ w = a" and "fields w (a # b # as) div 2 ^ w = b + 2 ^ w * fields w as"
    and "fields w (a # b # as) div 2 ^ (2 * w) = fields w as"
proof -
  show 1: "fields w (a # b # as) mod 2 ^ w = a" and 2: "fields w (a # b # as) div 2 ^ w = b + 2 ^ w * fields w as"
    using assms(1) by simp_all
  have "fields w (a # b # as) div 2 ^ (2 * w) = fields w (a # b # as) div 2 ^ w div 2 ^ w"
    by (simp only: div_mult2_eq [symmetric] power_add [symmetric] mult_2)
  then show "fields w (a # b # as) div 2 ^ (2 * w) = fields w as" unfolding 2 using assms(2) by simp
qed

text \<open>The lower and the upper neighbours, and their sums.\<close>

lemma fields_neighbours:
  assumes "\<forall>a \<in> set as. a < 2 ^ w" and "length as = 2 * n"
  shows "(fields w as AND low_fields w n) + (fields w as div 2 ^ w AND low_fields w n) = fields (2 * w) (pair_sums as) \<and>
    (fields w as AND low_fields w n) + 2 ^ w * (fields w as div 2 ^ w AND low_fields w n) = fields w as"
  using assms
proof (induction as arbitrary: n rule: pair_sums.induct)
  case (1 a b as)
  then obtain k where n: "n = Suc k" "length as = 2 * k" using "1.prems"(2) by (cases n) auto
  have ab: "a < 2 ^ w" "b < 2 ^ w" using "1.prems"(1) by simp_all
  note p = fields_pair [OF ab, of as]
  have up: "fields w (a # b # as) div 2 ^ w mod 2 ^ w = b"
    "fields w (a # b # as) div 2 ^ w div 2 ^ (2 * w) = fields w as div 2 ^ w"
    unfolding p(2) using ab(2) by (simp_all add: mult_2 power_add div_mult2_eq)
  have e: "fields w (a # b # as) AND low_fields w n = a + 2 ^ (2 * w) * (fields w as AND low_fields w k)"
    "fields w (a # b # as) div 2 ^ w AND low_fields w n = b + 2 ^ (2 * w) * (fields w as div 2 ^ w AND low_fields w k)"
    unfolding n(1) and_low_fields p(1,3) up by (rule refl)+
  have ih: "(fields w as AND low_fields w k) + (fields w as div 2 ^ w AND low_fields w k) = fields (2 * w) (pair_sums as)"
    "(fields w as AND low_fields w k) + 2 ^ w * (fields w as div 2 ^ w AND low_fields w k) = fields w as"
    using "1.IH" "1.prems"(1) n(2) by simp_all
  have "(fields w (a # b # as) AND low_fields w n) + (fields w (a # b # as) div 2 ^ w AND low_fields w n)
      = fields (2 * w) (pair_sums (a # b # as))"
    unfolding e unfolding pair_sums.simps fields.simps(2) ih(1) [symmetric] by (simp only: distrib_left ac_simps)
  moreover have "a + 2 ^ (2 * w) * u + 2 ^ w * (b + 2 ^ (2 * w) * v) = a + 2 ^ w * (b + 2 ^ w * (u + 2 ^ w * v))" for u v :: nat
    by (simp only: mult_2 mult_2_right power_add distrib_left ac_simps)
  then have "(fields w (a # b # as) AND low_fields w n) + 2 ^ w * (fields w (a # b # as) div 2 ^ w AND low_fields w n)
      = fields w (a # b # as)"
    unfolding e using ih(2) by simp
  ultimately show ?case by blast
qed auto

text \<open>If no sum of two fields leaves its field, the mask can be applied after the sum.\<close>

lemma fields_sums_masked:
  assumes "\<forall>a \<in> set as. 2 * a < 2 ^ w" and "length as = 2 * n"
  shows "(fields w as + fields w as div 2 ^ w) AND low_fields w n = fields (2 * w) (pair_sums as)"
  using assms
proof (induction as arbitrary: n rule: pair_sums.induct)
  case (1 a b as)
  then obtain k where n: "n = Suc k" "length as = 2 * k" using "1.prems"(2) by (cases n) auto
  have ab: "a < 2 ^ w" "b < 2 ^ w" "a + b < 2 ^ w" using "1.prems"(1) by auto
  let ?F = "fields w as"
  let ?y = "fields w (a # b # as) + fields w (a # b # as) div 2 ^ w"
  have y: "?y = (a + b) + 2 ^ w * ((b + ?F) + 2 ^ w * ?F)"
    unfolding fields_pair(2) [OF ab(1,2)] by (simp add: algebra_simps)
  have low: "?y mod 2 ^ w = a + b" unfolding y using ab(3) by simp
  have "(b + ?F) div 2 ^ w = ?F div 2 ^ w"
  proof (cases as)
    case (Cons c cs)
    then have "b + c < 2 ^ w" "c < 2 ^ w" using "1.prems"(1) by auto
    moreover have "b + ?F = (b + c) + 2 ^ w * fields w cs" "?F = c + 2 ^ w * fields w cs" using Cons by simp_all
    ultimately have "(b + ?F) div 2 ^ w = fields w cs" "?F div 2 ^ w = fields w cs"
      by (simp_all only: div_mult_self2 power_not_zero zero_neq_numeral div_less) simp_all
    then show ?thesis by simp
  qed (use ab(2) in simp)
  then have "?y div 2 ^ (2 * w) = ?F + ?F div 2 ^ w"
    unfolding y using ab(3) by (simp add: mult_2 power_add div_mult2_eq)
  moreover have "(?F + ?F div 2 ^ w) AND low_fields w k = fields (2 * w) (pair_sums as)"
    using "1.IH" "1.prems"(1) n(2) by simp
  ultimately show ?case unfolding n(1) and_low_fields low by simp
qed auto

section \<open>The function counts the bits\<close>

text \<open>The bits of a word as fields of one bit.\<close>

definition bits :: "64 word \<Rightarrow> nat list" where
  "bits x = map (\<lambda>i. of_bool (bit x i)) [0..<64]"

lemma unat_bits: "unat x = fields 1 (bits x)"
proof -
  have "fields 1 (map (\<lambda>i. of_bool (bit x i)) is) = horner_sum of_bool 2 (map (bit x) is)" for "is"
    by (induction "is") simp_all
  moreover have "map (bit x) [0..<64] = map (bit (unat x)) [0..<64]"
    by (simp add: bit_unsigned_iff)
  moreover have "horner_sum of_bool 2 (map (bit (unat x)) [0..<64]) = unat x"
    unfolding horner_sum_bit_eq_take_bit by (rule take_bit_nat_eq_self) (use unsigned_less [of x, where ?'a = nat] in simp)
  ultimately show ?thesis by (metis bits_def)
qed

lemma bits_properties [simp]: "\<forall>a \<in> set (bits x). a < 2 ^ 1" "\<forall>a \<in> set (bits x). a \<le> 1" "length (bits x) = 64"
  by (auto simp: bits_def)

lemma sum_list_bits: "sum_list (bits x) = card {i. bit x i}"
proof -
  have "sum_list (bits x) = (\<Sum>i < 64. of_bool (bit x i))"
    by (simp add: bits_def sum_list_distinct_conv_sum_set atLeast0LessThan)
  also have "\<dots> = card {i. i < 64 \<and> bit x i}" by (simp add: Int_def)
  also have "{i. i < 64 \<and> bit x i} = {i. bit x i}" using bit_imp_le_length by fastforce
  finally show ?thesis .
qed

text \<open>The masks.\<close>

lemma low_fields_numeral:
  "low_fields w (numeral k) = (2 ^ w - 1) + 2 ^ (2 * w) * low_fields w (pred_numeral k)"
  by (simp add: numeral_eq_Suc)

lemma masks:
  "unat m1 = low_fields 1 32" "unat m2 = low_fields 2 16" "unat m4 = low_fields 4 8"
  by (simp_all add: m1_def m2_def m4_def low_fields_numeral)

lemma fields_double: "fields w (map ((*) 2) as) = 2 * fields w as"
  by (induction as) simp_all

lemma unat_shift: "unat (drop_bit n x) = unat x div 2 ^ n"
  unfolding unat_drop_bit_eq unfolding drop_bit_eq_div ..

lemma unat_shift_mask: "unat (drop_bit n x AND m) = (unat x div 2 ^ n AND unat m)"
  unfolding unsigned_and_eq unat_shift ..

lemma unat_plus_less: "unat x + unat y < 2 ^ 64 \<Longrightarrow> unat (x + y) = unat x + unat y" for x y :: "64 word"
  by (subst unat_add_lem [THEN iffD1]) simp_all

text \<open>The product with \<open>h01\<close> has the sum of all fields in its highest byte.\<close>

lemma byte_sum:
  assumes "length ds = 8" and "\<forall>d \<in> set ds. d \<le> 8"
  shows "fields 8 ds * unat h01 mod 2 ^ 64 div 2 ^ 56 = sum_list ds"
proof -
  obtain a b c d e f g h where ds: "ds = [a, b, c, d, e, f, g, h]"
    using assms(1) by (auto simp: numeral_eq_Suc length_Suc_conv)
  let ?s = "a + b + c + d + e + f + g + h"
  let ?L = "fields 8 [a, a + b, a + b + c, a + b + c + d, a + b + c + d + e, a + b + c + d + e + f,
    a + b + c + d + e + f + g]"
  let ?H = "fields 8 [b + c + d + e + f + g + h, c + d + e + f + g + h, d + e + f + g + h, e + f + g + h,
    f + g + h, g + h, h]"
  have le: "a \<le> 8" "b \<le> 8" "c \<le> 8" "d \<le> 8" "e \<le> 8" "f \<le> 8" "g \<le> 8" "h \<le> 8"
    using assms(2) by (simp_all add: ds)
  have split: "(l + 2 ^ 56 * (s + 2 ^ 8 * k)) mod 2 ^ 64 div 2 ^ 56 = s" if "l < 2 ^ 56" "s < 2 ^ 8" for l s k :: nat
  proof -
    have "l + 2 ^ 56 * s < 2 ^ 64" using that by simp
    moreover have "l + 2 ^ 56 * (s + 2 ^ 8 * k) = (l + 2 ^ 56 * s) + 2 ^ 64 * k" by simp
    ultimately have "(l + 2 ^ 56 * (s + 2 ^ 8 * k)) mod 2 ^ 64 = l + 2 ^ 56 * s" by (simp only: mod_mult_self2 mod_less)
    then show ?thesis using that(1) by simp
  qed
  have "?L < 2 ^ (8 * length [a, a + b, a + b + c, a + b + c + d, a + b + c + d + e, a + b + c + d + e + f,
    a + b + c + d + e + f + g])"
    by (rule fields_less) (use le in auto)
  then have L: "?L < 2 ^ 56" by simp
  have s: "?s < 2 ^ 8" using le by simp
  have "fields 8 ds * unat h01 = ?L + 2 ^ 56 * (?s + 2 ^ 8 * ?H)" by (simp add: ds h01_def)
  then have "fields 8 ds * unat h01 mod 2 ^ 64 div 2 ^ 56 = ?s" by (simp only: split [OF L s])
  then show ?thesis by (simp add: ds)
qed

text \<open>C35: \<open>popcount64\<close>, which adds neighbouring fields of a word in parallel, never loses a carry and
  returns the number of the one bits of every word.\<close>

theorem popcount64_counts: "popcount64 x = int (card {i. bit x i})"
proof -
  define y where "y = drop_bit 1 x AND m1"
  define x1 where "x1 = x - y"
  define x2 where "x2 = (x1 AND m2) + (drop_bit 2 x1 AND m2)"
  define x3 where "x3 = (x2 + drop_bit 4 x2) AND m4"
  define as where "as = pair_sums (bits x)"
  define bs where "bs = pair_sums as"
  define cs where "cs = pair_sums bs"
  have len: "length as = 32" "length bs = 16" "length cs = 8" by (simp_all add: as_def bs_def cs_def)
  have le1: "\<forall>a \<in> set as. a \<le> 2 * 1" unfolding as_def by (intro pair_sums_le bits_properties)
  then have le2: "\<forall>a \<in> set bs. a \<le> 2 * (2 * 1)" unfolding bs_def by (rule pair_sums_le)
  then have "\<forall>a \<in> set cs. a \<le> 2 * (2 * (2 * 1))" unfolding cs_def by (rule pair_sums_le)
  with le1 le2 have le: "\<forall>a \<in> set as. a \<le> 2" "\<forall>a \<in> set bs. a \<le> 4" "\<forall>a \<in> set cs. a \<le> 8" by simp_all
  have y: "unat y = (unat x div 2 ^ 1 AND unat m1)" by (simp only: y_def unat_shift_mask)
  have f1: "(unat x AND unat m1) + unat y = fields 2 as" "(unat x AND unat m1) + 2 * unat y = unat x"
    using fields_neighbours [OF bits_properties(1), of x 32] unfolding y masks unat_bits [symmetric] as_def by simp_all
  have 1: "unat x1 = fields 2 as"
  proof -
    have "unat y \<le> unat x" "unat x - unat y = fields 2 as" using f1 by linarith+
    then show ?thesis by (simp add: x1_def unat_sub word_le_nat_alt)
  qed
  note f2 = fields_neighbours [of as 2 16, folded 1 masks(2) bs_def]
  have 2: "unat x2 = fields 4 bs"
  proof -
    have "fields 4 bs < 2 ^ (4 * length bs)" using le(2) by (intro fields_less) fastforce
    moreover have "(unat x1 AND unat m2) + (unat x1 div 2 ^ 2 AND unat m2) = fields 4 bs"
      using f2 le(1) len by fastforce
    ultimately show ?thesis
      unfolding x2_def using unat_plus_less [of "x1 AND m2" "drop_bit 2 x1 AND m2"] len
      by (simp add: unsigned_and_eq unat_shift)
  qed
  have 3: "unat x3 = fields 8 cs"
  proof -
    have "fields 4 (map ((*) 2) bs) < 2 ^ (4 * length (map ((*) 2) bs))" using le(2) by (intro fields_less) fastforce
    then have "unat x2 + unat (drop_bit 4 x2) < 2 ^ 64"
      using div_le_dividend [of "fields 4 bs" "2 ^ 4"] len
      by (simp add: fields_double 2 unat_shift)
    then have "unat x3 = ((unat x2 + unat x2 div 2 ^ 4) AND unat m4)"
      using unat_plus_less [of x2 "drop_bit 4 x2"]
      by (simp add: x3_def unsigned_and_eq unat_shift)
    also have "\<dots> = fields 8 cs"
      using fields_sums_masked [of bs 4 8] le(2) len by (fastforce simp: 2 masks(3) cs_def)
    finally show ?thesis .
  qed
  have "unat (drop_bit 56 (x3 * h01)) = sum_list cs"
    using byte_sum [OF len(3) le(3)] by (simp add: unat_shift unat_word_ariths 3)
  also have "\<dots> = card {i. bit x i}" by (simp add: cs_def bs_def as_def sum_list_bits)
  finally have "uint (drop_bit 56 (x3 * h01)) = int (card {i. bit x i})" by (metis uint_nat)
  then show ?thesis by (simp add: popcount64_def Let_def x3_def x2_def x1_def y_def)
qed

end
