(* ===== verification/HttpUrl.thy ===== *)
theory HttpUrl
  imports Getline
begin

text \<open>
  The parsers of an older HTTP client (\<open>src/backburner/http/client.c\<close>): URLs, which are cut into
  C strings in place, requests, and the header lines of a response.
\<close>

section \<open>URLs\<close>

text \<open>The pointers are positions in the text, which is memory with a null byte.\<close>

record url =
  url_protocol :: nat
  url_host :: nat
  url_port :: "nat option"
  url_path :: "nat option"

text \<open>\<open>Some None\<close> is the result false; \<open>None\<close> a text without a null byte.\<close>

definition http_parse_url :: "bytes \<Rightarrow> (url \<times> bytes) option option" where
  "http_parse_url m =
     (case strstr_at m 0 (str ''://'') of
        None \<Rightarrow> None
      | Some None \<Rightarrow> Some None
      | Some (Some e) \<Rightarrow>
          (let m1 = m[e := 0]; host = e + 3
           in case (strstr_at m1 host (str '':''), strstr_at m1 host (str ''/'')) of
                (Some colon, Some slash) \<Rightarrow>
                  (let (port, m2) =
                         (case (colon, slash) of
                            (Some p, Some q) \<Rightarrow> if p < q then (Some (p + 1), m1[p := 0]) else (None, m1)
                          | _ \<Rightarrow> (None, m1))
                   in Some (Some (case slash of
                        Some q \<Rightarrow> (\<lparr>url_protocol = 0, url_host = host, url_port = port, url_path = Some (q + 1)\<rparr>, m2[q := 0])
                      | None \<Rightarrow> (\<lparr>url_protocol = 0, url_host = host, url_port = port, url_path = None\<rparr>, m2))))
              | _ \<Rightarrow> None))"

text \<open>The request for C strings, \<open>None\<close> for the result false, with \<open>dprintf\<close> as a parameter.\<close>

definition http_request :: "bytes \<Rightarrow> bytes option \<Rightarrow> bytes \<Rightarrow> bytes" where
  "http_request host port path =
     str ''GET /'' @ (if hd path = byte_of (CHR ''/'') then tl path else path) @ str '' HTTP/1.1'' @ [10] @
     str ''Host: '' @ host @ (case port of None \<Rightarrow> [] | Some p \<Rightarrow> str '':'' @ p) @ [10] @
     str ''User-Agent: http-lib/0.0.1'' @ [10] @ str ''Accept: */*'' @ [10, 10]"

definition http_queue_get :: "(bytes \<Rightarrow> 'w \<Rightarrow> int \<times> 'w) \<Rightarrow> bytes \<Rightarrow> bytes option \<Rightarrow> bytes option \<Rightarrow> 'w \<Rightarrow> bool \<times> 'w" where
  "http_queue_get print_fd host port path w =
     (case path of
        None \<Rightarrow> (False, w)
      | Some p \<Rightarrow>
          if p = [] then (False, w)
          else (case print_fd (http_request host port p) w of (result, w') \<Rightarrow> (result > 0, w')))"

section \<open>Header lines\<close>

datatype http_get_header_id = HTTP_GET_INVALID | HTTP_GET_CONTENT_LENGTH

text \<open>The rest of the text from a line on; the colon is looked for beyond the end of the line.\<close>

definition http_identify_header :: "bytes \<Rightarrow> http_get_header_id \<times> bytes" where
  "http_identify_header line =
     (case find_sub (str '':'') line of
        None \<Rightarrow> (HTTP_GET_INVALID, [])
      | Some n \<Rightarrow>
          if n = 0 then (HTTP_GET_INVALID, [])
          else (if n = length (str ''Content-Length'') \<and> take n line = str ''Content-Length'' then HTTP_GET_CONTENT_LENGTH
                else HTTP_GET_INVALID, drop (n + 1) line))"

text \<open>\<open>atoi\<close> of the C library; \<open>None\<close> is a number that is no \<open>int\<close>.\<close>

definition atoi :: "bytes \<Rightarrow> int option" where
  "atoi s =
     (let t = dropWhile isspace s;
          neg = (t \<noteq> [] \<and> hd t = byte_of (CHR ''-''));
          u = (if t \<noteq> [] \<and> (hd t = byte_of (CHR ''-'') \<or> hd t = byte_of (CHR ''+'')) then tl t else t);
          n = int (decimal (takeWhile isdigit u));
          v = (if neg then - n else n)
      in if - (2 ^ 31) \<le> v \<and> v < 2 ^ 31 then Some v else None)"

text \<open>The content length after the lines of a text without its null byte.\<close>

function http_parse_get_header :: "size_t \<Rightarrow> bytes \<Rightarrow> size_t option" where
  "http_parse_get_header content_length line =
     (case find_sub [10] line of
        None \<Rightarrow> Some content_length
      | Some n \<Rightarrow>
          (case (case http_identify_header line of
                   (HTTP_GET_CONTENT_LENGTH, line_value) \<Rightarrow> map_option word_of_int (atoi line_value)
                 | (HTTP_GET_INVALID, _) \<Rightarrow> Some content_length) of
             None \<Rightarrow> None
           | Some l \<Rightarrow> http_parse_get_header l (drop (n + 1) line)))"
  by pat_completeness auto
termination by (relation "measure (length \<circ> snd)") (auto dest!: find_sub_nth)

declare http_parse_get_header.simps [simp del]

section \<open>Getting a file\<close>

text \<open>The text that \<open>_http_get\<close> prints, with a space before the user agent if there is no port.\<close>

definition http_get_request :: "bytes \<Rightarrow> bytes option \<Rightarrow> bytes option \<Rightarrow> bytes" where
  "http_get_request host port path =
     str ''GET /'' @ (case path of None \<Rightarrow> [] | Some p \<Rightarrow> p) @ str '' HTTP/1.1'' @ [10] @ str ''Host: '' @ host @
     (case port of None \<Rightarrow> [10] @ str '' '' | Some p \<Rightarrow> str '':'' @ p @ [10]) @
     str ''User-Agent: http-lib/0.0.1'' @ [10] @ str ''Accept: */*'' @ [10, 10]"

text \<open>
  The loop that reads the header: the content length, which stays 0 if there is no end of the header,
  and the buffer, in which what follows the first line feed of the end is moved to the beginning. The
  search continues behind the size that was asked for last time, not behind what was read; \<open>None\<close> is
  a search outside the memory, or an end of the header behind the contents.
\<close>

function http_get_header :: "allocator \<Rightarrow> nat \<Rightarrow> nat \<Rightarrow> buffer \<Rightarrow> read_fd \<Rightarrow> (size_t \<times> buffer \<times> read_fd) option" where
  "http_get_header al last_header_size header_size b fd =
     (case buffer_read al b header_size 0 fd of
        None \<Rightarrow> None
      | Some (r, b1, fd1) \<Rightarrow>
          if 0 < r then
            (case strstr_at (mem b1) last_header_size [10, 10] of
               None \<Rightarrow> None
             | Some None \<Rightarrow> http_get_header al header_size (header_size * 2) b1 fd1
             | Some (Some header_end) \<Rightarrow>
                 (case http_parse_get_header 0 (takeWhile (\<lambda>c. c \<noteq> 0) ((mem b1)[header_end + 1 := 0])) of
                    None \<Rightarrow> None
                  | Some content_length \<Rightarrow>
                      if used b1 < header_end + 1 then None
                      else let rest = drop (header_end + 1) (contents b1)
                           in map_option (\<lambda>b2. (content_length, b2\<lparr>used := length rest\<rparr>, fd1)) (mem_write b1 0 rest)))
          else Some (0, b1, fd1))"
  by pat_completeness auto
termination
  by (relation "measure (\<lambda>(al, l, h, b, fd). fd_size fd)")
    (use buffer_read_fd_size in \<open>auto simp only: wf_measure in_measure split_conv\<close>)

declare http_get_header.simps [simp del]

text \<open>The part of \<open>_http_get\<close> after the request; the output buffer is empty.\<close>

definition http_get_response :: "allocator \<Rightarrow> buffer \<Rightarrow> read_fd \<Rightarrow> (bool \<times> buffer \<times> read_fd) option" where
  "http_get_response al output fd =
     (case http_get_header al 0 64 output fd of
        None \<Rightarrow> None
      | Some (content_length, b1, fd1) \<Rightarrow>
          map_option (\<lambda>(_, b2, fd2). (used b2 = unat content_length, b2, fd2))
            (buffer_read_loop al b1 (unat content_length) 0 fd1))"

definition http_get ::
    "allocator \<Rightarrow> bytes \<Rightarrow> bytes option \<Rightarrow> bytes option \<Rightarrow> buffer \<Rightarrow> read_fd \<Rightarrow> write_fd
       \<Rightarrow> (bool \<times> buffer \<times> read_fd \<times> write_fd) option" where
  "http_get al host port path output fd fd_write =
     (case buffer_printf al (buffer_rewrite output) (http_get_request host port path) of
        None \<Rightarrow> None
      | Some b \<Rightarrow>
          (case buffer_write_loop (contents b) 0 fd_write of
             (result, _, fd_write') \<Rightarrow>
               if result \<noteq> 0 then Some (False, b, fd, fd_write')
               else map_option (\<lambda>(ok, b', fd'). (ok, b', fd', fd_write')) (http_get_response al (buffer_rewrite b) fd)))"

section \<open>Parsing what was printed\<close>

definition url_text :: "bytes \<Rightarrow> bytes \<Rightarrow> bytes option \<Rightarrow> bytes option \<Rightarrow> bytes" where
  "url_text protocol host port path =
     protocol @ str ''://'' @ host @ (case port of None \<Rightarrow> [] | Some p \<Rightarrow> str '':'' @ p) @
     (case path of None \<Rightarrow> [] | Some p \<Rightarrow> str ''/'' @ p)"

text \<open>The string at a position.\<close>

definition string_at :: "bytes \<Rightarrow> nat \<Rightarrow> bytes" where
  "string_at m pos = the (c_string (drop pos m))"

lemma string_at_append: "0 \<notin> set s \<Longrightarrow> string_at (xs @ s @ 0 # r) (length xs) = s"
  by (simp add: string_at_def c_string_append)

lemma strstr_at_append:
  "0 \<notin> set s \<Longrightarrow> strstr_at (xs @ s @ 0 # r) (length xs) sep = Some (map_option (\<lambda>i. length xs + i) (find_sub sep s))"
  by (simp add: strstr_at_def c_string_append)

lemma find_sub_byte_append: "c \<notin> set s \<Longrightarrow> find_sub [c] (s @ c # t) = Some (length s)"
  by (induction s) auto

lemma find_sub_byte_none: "c \<notin> set s \<Longrightarrow> find_sub [c] s = None"
  by (simp add: find_sub_byte)

lemma find_sub_byte_skip: "c \<notin> set s \<Longrightarrow> find_sub [c] (s @ t) = map_option ((+) (length s)) (find_sub [c] t)"
  by (cases "find_sub [c] t"; induction s) auto

lemma find_scheme: "byte_of (CHR '':'') \<notin> set p \<Longrightarrow> find_sub (str ''://'') (p @ str ''://'' @ t) = Some (length p)"
proof (induction p)
  case (Cons c p)
  then show ?case by (simp add: str_def byte_of_def)
qed (cases t; simp add: str_def)

text \<open>The parts that the parser is meant to find; without a path it does not look for a port.\<close>

definition plain_url :: "bytes \<Rightarrow> bytes \<Rightarrow> bytes option \<Rightarrow> bytes option \<Rightarrow> bool" where
  "plain_url protocol host port path \<longleftrightarrow>
     set protocol \<inter> {0, byte_of (CHR '':'')} = {} \<and> set host \<inter> {0, byte_of (CHR '':''), byte_of (CHR ''/'')} = {} \<and>
     (\<forall>p. port = Some p \<longrightarrow> set p \<inter> {0, byte_of (CHR ''/'')} = {}) \<and> (\<forall>p. path = Some p \<longrightarrow> 0 \<notin> set p)"

lemma str_one: "str [c] = [byte_of c]"
  by (simp add: str_def byte_of_def)

lemma parse_after_scheme:
  assumes "set protocol \<inter> {0, byte_of (CHR '':'')} = {}" and "0 \<notin> set t" and "x = protocol @ [0, byte_of (CHR ''/''), byte_of (CHR ''/'')]"
  shows "http_parse_url (protocol @ str ''://'' @ t @ [0]) =
    (let colon = find_sub [byte_of (CHR '':'')] t; slash = find_sub [byte_of (CHR ''/'')] t;
         (port, m2) = (case (colon, slash) of
            (Some p, Some q) \<Rightarrow> if p < q then (Some (length x + p + 1), x @ t[p := 0] @ [0]) else (None, x @ t @ [0])
          | _ \<Rightarrow> (None, x @ t @ [0]))
     in Some (Some (case slash of
          Some q \<Rightarrow> (\<lparr>url_protocol = 0, url_host = length x, url_port = port, url_path = Some (length x + q + 1)\<rparr>,
              m2[length x + q := 0])
        | None \<Rightarrow> (\<lparr>url_protocol = 0, url_host = length x, url_port = port, url_path = None\<rparr>, m2))))"
proof -
  let ?m = "protocol @ str ''://'' @ t @ [0]"
  have z: "0 \<notin> set (protocol @ str ''://'' @ t)" using assms(1,2) by (auto simp: str_def)
  have 1: "strstr_at ?m 0 (str ''://'') = Some (Some (length protocol))"
    using strstr_at_append [OF z, of "[]" "[]" "str ''://''"] assms(1) by (simp add: find_scheme)
  have m1: "?m[length protocol := 0] = x @ t @ 0 # []" by (simp add: str_def assms(3) byte_of_def)
  have c: "strstr_at (x @ t @ 0 # []) (length x) sep = Some (map_option (\<lambda>i. length x + i) (find_sub sep t))" for sep
    by (rule strstr_at_append [OF assms(2)])
  have lx: "length protocol + 3 = length x" by (simp add: assms(3))
  have u: "(x @ t @ [0])[length x + p := 0] = x @ t[p := 0] @ [0]" if "find_sub [b] t = Some p" for b p
    using find_sub_nth [OF that] by (simp add: list_update_append)
  show ?thesis
    unfolding http_parse_url_def 1 option.case Let_def m1 lx c str_one
    by (auto simp: u split: option.splits)
qed

text \<open>\<open>http_parse_url\<close> cuts a printed URL into its parts, in place: protocol, host and path are
  what was printed, whatever follows in the path; a port is only recognised in front of a path,
  and stays a part of the host otherwise.\<close>

theorem http_parse_url_parts:
  assumes "plain_url protocol host port path"
  shows "\<exists>u m. http_parse_url (url_text protocol host port path @ [0]) = Some (Some (u, m)) \<and>
    string_at m (url_protocol u) = protocol \<and>
    string_at m (url_host u) = (if path = None then host @ (case port of None \<Rightarrow> [] | Some p \<Rightarrow> str '':'' @ p) else host) \<and>
    map_option (string_at m) (url_port u) = (if path = None then None else port) \<and>
    map_option (string_at m) (url_path u) = path"
proof -
  let ?x = "protocol @ [0, byte_of (CHR ''/''), byte_of (CHR ''/'')]"
  let ?pp = "case port of None \<Rightarrow> [] | Some p \<Rightarrow> byte_of (CHR '':'') # p"
  let ?t = "host @ ?pp @ (case path of None \<Rightarrow> [] | Some p \<Rightarrow> byte_of (CHR ''/'') # p)"
  have d: "set protocol \<inter> {0, byte_of (CHR '':'')} = {}" "0 \<notin> set host" "byte_of (CHR '':'') \<notin> set host" "byte_of (CHR ''/'') \<notin> set host"
    "\<And>p. port = Some p \<Longrightarrow> 0 \<notin> set p \<and> byte_of (CHR ''/'') \<notin> set p" "\<And>p. path = Some p \<Longrightarrow> 0 \<notin> set p"
    using assms by (auto simp: plain_url_def)
  have bytes: "byte_of (CHR ''/'') \<noteq> 0" "byte_of (CHR '':'') \<noteq> 0" "byte_of (CHR ''/'') \<noteq> byte_of (CHR '':'')"
    by (simp_all add: byte_of_def)
  have z: "0 \<notin> set ?t" using d bytes by (auto split: option.splits)
  have "url_text protocol host port path @ [0] = protocol @ str ''://'' @ ?t @ [0]"
    by (simp add: url_text_def str_one split: option.split)
  note parse = parse_after_scheme [OF d(1) z refl, folded this]
  have proto: "string_at (?x @ s) 0 = protocol" for s
    using string_at_append [of protocol "[]" "byte_of (CHR ''/'') # byte_of (CHR ''/'') # s"] d(1) by auto
  have at: "string_at (?x @ ys @ s @ 0 # r) (length ?x + length ys) = s" if "0 \<notin> set s" for ys s r
    using string_at_append [OF that, of "?x @ ys" r] by simp
  show ?thesis
  proof (cases path)
    case None
    have "find_sub [byte_of (CHR ''/'')] ?t = None"
      using d(4,5) bytes None by (intro find_sub_byte_none) (auto split: option.splits)
    then show ?thesis
      using parse None at [OF z, of "[]" "[]"] proto [of "?t @ [0]"]
      by (simp add: Let_def str_one split: option.split)
  next
    case (Some q)
    show ?thesis
    proof (cases port)
      case None
      let ?m = "?x @ host @ 0 # q @ [0]"
      have "find_sub [byte_of (CHR ''/'')] ?t = Some (length host)" using d(4) None Some by (simp add: find_sub_byte_append)
      moreover have "find_sub [byte_of (CHR '':'')] ?t = map_option ((+) (length host + 1)) (find_sub [byte_of (CHR '':'')] q)"
        using find_sub_byte_skip [of "byte_of (CHR '':'')" "host @ [byte_of (CHR ''/'')]" q] d(3) bytes None Some by simp
      moreover have "(?x @ ?t @ [0])[length ?x + length host := 0] = ?m" using None Some by (simp add: list_update_append)
      ultimately have "http_parse_url (url_text protocol host port path @ [0]) =
          Some (Some (\<lparr>url_protocol = 0, url_host = length ?x, url_port = None, url_path = Some (length ?x + length host + 1)\<rparr>, ?m))"
        unfolding parse Let_def by (auto split: option.split)
      then show ?thesis
        using None Some proto [of "host @ 0 # q @ [0]"] at [of host "[]" "q @ [0]"] at [of q "host @ [0]" "[]"] d(2,6) by simp
    next
      case (Some p)
      let ?m = "?x @ host @ 0 # p @ 0 # q @ [0]"
      have "find_sub [byte_of (CHR '':'')] ?t = Some (length host)" using d(3) Some by (simp add: find_sub_byte_append)
      moreover have "find_sub [byte_of (CHR ''/'')] ?t = Some (length host + 1 + length p)"
        using find_sub_byte_append [of "byte_of (CHR ''/'')" "host @ byte_of (CHR '':'') # p" q] d(4,5) bytes Some \<open>path = Some q\<close>
        by simp
      moreover have "(?x @ ?t[length host := 0] @ [0])[length ?x + (length host + 1 + length p) := 0] = ?m"
        using Some \<open>path = Some q\<close> by (simp add: list_update_append)
      ultimately have "http_parse_url (url_text protocol host port path @ [0]) =
          Some (Some (\<lparr>url_protocol = 0, url_host = length ?x, url_port = Some (length ?x + length host + 1),
            url_path = Some (length ?x + (length host + 1 + length p) + 1)\<rparr>, ?m))"
        unfolding parse Let_def by simp
      then show ?thesis
        using Some \<open>path = Some q\<close> proto [of "host @ 0 # p @ 0 # q @ [0]"] at [of host "[]" "p @ 0 # q @ [0]"]
          at [of p "host @ [0]" "q @ [0]"] at [of q "host @ 0 # p @ [0]" "[]"] d(2,5,6) by simp
    qed
  qed
qed

theorem http_parse_url_parts_witness:
  "\<exists>u m. http_parse_url (str ''http://localhost:80/a:b/c'' @ [0]) = Some (Some (u, m)) \<and>
    string_at m (url_host u) = str ''localhost'' \<and> map_option (string_at m) (url_port u) = Some (str ''80'') \<and>
    map_option (string_at m) (url_path u) = Some (str ''a:b/c'')"
proof -
  have "plain_url (str ''http'') (str ''localhost'') (Some (str ''80'')) (Some (str ''a:b/c''))"
    by (simp add: plain_url_def str_def byte_of_def)
  moreover have "url_text (str ''http'') (str ''localhost'') (Some (str ''80'')) (Some (str ''a:b/c'')) = str ''http://localhost:80/a:b/c''"
    by (simp add: url_text_def str_def)
  ultimately show ?thesis using http_parse_url_parts [of "str ''http''" "str ''localhost''" "Some (str ''80'')" "Some (str ''a:b/c'')"]
    by auto
qed

section \<open>Lines\<close>

definition length_key :: bytes where
  "length_key = str ''Content-Length:''"

definition length_value :: "bytes \<Rightarrow> bytes" where
  "length_value l = dropWhile isspace (drop (length length_key) l)"

text \<open>A line of a header: a content length has a value that starts with a digit and is small.\<close>

definition length_line_ok :: "bytes \<Rightarrow> bool" where
  "length_line_ok l \<longleftrightarrow>
     10 \<notin> set l \<and>
     (take (length length_key) l = length_key \<longrightarrow>
        length_value l \<noteq> [] \<and> isdigit (hd (length_value l)) \<and> decimal (takeWhile isdigit (length_value l)) < 2 ^ 31)"

definition length_step :: "bytes \<Rightarrow> size_t \<Rightarrow> size_t" where
  "length_step l n =
     (if take (length length_key) l = length_key then word_of_nat (decimal (takeWhile isdigit (length_value l))) else n)"

lemma key_parts: "length_key = str ''Content-Length'' @ [58]" "58 \<notin> set (str ''Content-Length'')" "10 \<notin> set length_key"
    "length (str ''Content-Length'') = 14" "length length_key = 15"
    "take 14 length_key = str ''Content-Length''"
  by (simp_all add: length_key_def str_def)

lemma colon: "str '':'' = [58]"
  by (simp add: str_def)

lemma identify_length:
  assumes "10 \<notin> set l"
  shows "http_identify_header (l @ 10 # t) =
    (if take (length length_key) l = length_key then (HTTP_GET_CONTENT_LENGTH, drop (length length_key) l @ 10 # t)
     else (HTTP_GET_INVALID, snd (http_identify_header (l @ 10 # t))))"
proof (cases "take (length length_key) l = length_key")
  case True
  then obtain v where l: "l = length_key @ v" by (metis append_take_drop_id)
  have "find_sub (str '':'') (l @ 10 # t) = Some 14"
    using find_sub_byte_append [OF key_parts(2), of "v @ 10 # t"] by (simp add: l key_parts(1,4) str_def)
  then show ?thesis using key_parts by (simp add: http_identify_header_def l)
next
  case False
  have "fst (http_identify_header (l @ 10 # t)) = HTTP_GET_INVALID"
  proof (rule ccontr)
    assume "\<not> ?thesis"
    then have f: "find_sub [58] (l @ 10 # t) = Some 14" and name: "take 14 (l @ 10 # t) = str ''Content-Length''"
      by (auto simp: http_identify_header_def key_parts(4) colon split: option.splits if_splits)
    have "10 \<notin> set (take 14 (l @ 10 # t))" unfolding name by (simp add: str_def)
    then have "14 \<le> length l" by (cases "length l < 14") (simp_all add: take_Cons' not_less)
    moreover have "(l @ 10 # t) ! 14 = 58" using find_sub_nth [OF f] by simp
    ultimately have "14 < length l" "l ! 14 = 58" by (cases "length l = 14"; simp add: nth_append)+
    then have "take 15 l = length_key"
      using name key_parts(1) by (simp add: take_Suc_conv_app_nth [of 14 l, simplified])
    with False key_parts(5) show False by simp
  qed
  then show ?thesis using False by (metis surjective_pairing)
qed

lemma dropWhile_nonempty_append: "dropWhile P xs \<noteq> [] \<Longrightarrow> dropWhile P (xs @ ys) = dropWhile P xs @ ys"
  by (induction xs) auto

lemma atoi_value:
  assumes "length_value l \<noteq> []" and "isdigit (hd (length_value l))" and "decimal (takeWhile isdigit (length_value l)) < 2 ^ 31"
  shows "atoi (drop (length length_key) l @ 10 # t) = Some (int (decimal (takeWhile isdigit (length_value l))))"
proof -
  let ?v = "length_value l"
  have d: "dropWhile isspace (drop (length length_key) l @ 10 # t) = ?v @ 10 # t"
    using assms(1) unfolding length_value_def by (rule dropWhile_nonempty_append)
  have h: "hd (?v @ 10 # t) = hd ?v" using assms(1) by simp
  have n: "hd ?v \<noteq> byte_of (CHR ''-'')" "hd ?v \<noteq> byte_of (CHR ''+'')" using assms(2) by (auto simp: isdigit_def byte_of_def)
  have "takeWhile isdigit (?v @ 10 # t) = takeWhile isdigit ?v"
  proof -
    have "\<not> isdigit 10" by (simp add: isdigit_def byte_of_def)
    then show ?thesis by (simp add: takeWhile_tail)
  qed
  then show ?thesis unfolding atoi_def d using n assms(3) by (simp add: Let_def h)
qed

text \<open>\<open>http_parse_get_header\<close> goes through a header line by line: the length it returns is that of
  the last line that starts with \<open>Content-Length:\<close>, and what follows the last line feed is not
  looked at, although every line is searched for its colon beyond its end.\<close>

theorem http_parse_get_header_lines:
  assumes "list_all length_line_ok ls" and "10 \<notin> set rest"
  shows "http_parse_get_header n (concat (map (\<lambda>l. l @ [10]) ls) @ rest) = Some (fold length_step ls n)"
  using assms(1)
proof (induction ls arbitrary: n)
  case Nil
  then show ?case using assms(2) by (simp add: http_parse_get_header.simps find_sub_byte_none)
next
  case (Cons l ls)
  let ?t = "concat (map (\<lambda>l. l @ [10]) ls) @ rest"
  have l: "10 \<notin> set l" "find_sub [10] (l @ 10 # ?t) = Some (length l)" "drop (length l + 1) (l @ 10 # ?t) = ?t"
    using Cons.prems by (simp_all add: length_line_ok_def find_sub_byte_append)
  have "http_parse_get_header n (l @ 10 # ?t) = http_parse_get_header (length_step l n) ?t"
    using l Cons.prems atoi_value [of l ?t] identify_length [OF l(1), of ?t]
    by (subst http_parse_get_header.simps) (auto simp: length_step_def length_line_ok_def split: prod.split)
  then show ?case using Cons.IH Cons.prems by simp
qed

theorem http_parse_get_header_lines_witness:
  "http_parse_get_header 0 (concat (map (\<lambda>l. l @ [10]) [str ''HTTP/1.1 200 OK'', str ''Content-Length: 42'' @ [13]]) @ str ''x'')
    = Some (fold length_step [str ''HTTP/1.1 200 OK'', str ''Content-Length: 42'' @ [13]] 0)"
  by (rule http_parse_get_header_lines)
    (simp_all add: length_line_ok_def length_key_def length_value_def str_def isspace_def isdigit_def byte_of_def decimal_def)

text \<open>The first empty line.\<close>

lemma find_sub_skip: "10 \<notin> set l \<Longrightarrow> find_sub [10, 10] (l @ s) = map_option (\<lambda>i. length l + i) (find_sub [10, 10] s)"
  by (cases "find_sub [10, 10] s"; induction l) auto

lemma find_empty_line:
  assumes "ls \<noteq> []" and "list_all (\<lambda>l. 10 \<notin> set l) ls" and "[] \<notin> set ls"
  shows "find_sub [10, 10] (concat (map (\<lambda>l. l @ [10]) ls) @ 10 # r) = Some (length (concat (map (\<lambda>l. l @ [10]) ls)) - 1)"
  using assms
proof (induction ls)
  case (Cons l ls)
  have l: "10 \<notin> set l" "l \<noteq> []" using Cons.prems by auto
  show ?case
  proof (cases ls)
    case Nil
    then show ?thesis using find_sub_skip [OF l(1), of "10 # 10 # r"] by simp
  next
    case (Cons l' ls')
    then obtain c cs where l': "l' = c # cs" "c \<noteq> 10" using Cons.prems by (cases l') auto
    let ?t = "concat (map (\<lambda>l. l @ [10]) ls)"
    have "find_sub [10, 10] (?t @ 10 # r) = Some (length ?t - 1)" using Cons.IH Cons Cons.prems by auto
    then have "find_sub [10, 10] (10 # ?t @ 10 # r) = Some (length ?t)" using Cons l' by simp
    then show ?thesis using find_sub_skip [OF l(1), of "10 # ?t @ 10 # r"] by simp
  qed
qed simp

lemma read_header:
  assumes "used b = 0" and "64 < length (mem b)" and "length p \<le> 64"
  shows "\<exists>b1. buffer_read al b 64 0 (Some p # fd) = Some (int (length p), b1, fd) \<and> contents b1 = p \<and> used b1 = length p \<and>
    buffer_wf b1"
proof -
  have "mem b \<noteq> []" "0 < length (mem b) - 1" using assms(2) by auto
  then have p: "buffer_read_prepare al b 0 = Some (b, length (mem b) - 1)"
    using assms(1) by (simp add: buffer_read_prepare_def)
  have q: "length p \<le> length (mem b) - Suc 0" using assms(2,3) by simp
  have "0 + length p < length (mem b)" "take 0 (mem b) = []" using assms(2,3) by simp_all
  then obtain b2 b3 where "mem_write b 0 p = Some b2" "mem_write (b2\<lparr>used := length p\<rparr>) (length p) [0] = Some b3"
      "contents b3 = p" "used b3 = length p" "buffer_wf b3"
    using mem_write_contents [of 0 b "[]" p] by auto
  moreover from this have "buffer_read al b 64 0 (Some p # fd) = Some (int (length p), b3, fd)"
    unfolding buffer_read_def Let_def assms(1) using p assms(3) q by simp
  ultimately show ?thesis by blast
qed

text \<open>The content of a response is misplaced: when the header ends with two line feeds and arrives with the
  first read, \<open>_http_get\<close> keeps the second line feed as the beginning of the content, so the output is that line
  feed and the content without its last byte, and the result says whether all of that arrived.\<close>

theorem http_get_misplaces:
  assumes "header = concat (map (\<lambda>l. l @ [10]) ls)" and "ls \<noteq> []" and "list_all length_line_ok ls" and "[] \<notin> set ls"
    and "length (header @ 10 # part) \<le> 64" and "0 \<notin> set (header @ 10 # part)" and "fd_clean fd"
    and "n = unat (fold length_step ls 0)" and "length part < n" and "length (part @ fd_data fd) < 2 ^ 57"
    and "used b = 0" and "64 < length (mem b)" and "\<forall>m < 2 ^ 63. can_alloc al m"
  shows "\<exists>b' fd'. http_get_response al b (Some (header @ 10 # part) # fd) = Some (n \<le> Suc (length (part @ fd_data fd)), b', fd') \<and>
    contents b' = take n (10 # part @ fd_data fd)"
proof -
  let ?p = "header @ 10 # part"
  obtain b1 where b1: "buffer_read al b 64 0 (Some ?p # fd) = Some (int (length ?p), b1, fd)" "contents b1 = ?p"
      "used b1 = length ?p" "buffer_wf b1"
    using read_header [OF assms(11,12,5)] by blast
  have t: "terminated b1" using buffer_read_terminated [OF b1(1)] by simp
  have nz: "0 \<notin> set (drop 0 (contents b1))" using assms(6) b1(2) by simp
  have "list_all (\<lambda>l. 10 \<notin> set l) ls" using assms(3) by (simp add: list_all_iff length_line_ok_def)
  from find_empty_line [OF assms(2) this assms(4), of part] c_string_contents [OF t le0 nz]
  have s: "strstr_at (mem b1) 0 [10, 10] = Some (Some (length header - 1))"
    by (simp add: strstr_at_def b1(2) assms(1))
  have h: "0 < length header" using assms(1,2) by (cases ls) auto
  have lt: "length ?p < length (mem b1)" using t b1(3) by (simp add: terminated_def)
  have "take (length ?p) (mem b1) = ?p" using b1(2,3) by (simp add: contents_def)
  then have m: "mem b1 = ?p @ drop (length ?p) (mem b1)" by (metis append_take_drop_id)
  have "(mem b1)[length header - 1 + 1 := 0] = header @ 0 # part @ drop (length ?p) (mem b1)"
    using h by (subst m) (simp add: list_update_append)
  moreover have "\<forall>x \<in> set header. x \<noteq> 0" using assms(6) by auto
  ultimately have c: "takeWhile (\<lambda>c. c \<noteq> 0) ((mem b1)[length header - 1 + 1 := 0]) = header"
    by (simp add: takeWhile_append2 takeWhile_tail)
  have g: "http_parse_get_header 0 header = Some (fold length_step ls 0)"
    using http_parse_get_header_lines [OF assms(3), of "[]" 0] assms(1) by simp
  have rest: "drop (length header - 1 + 1) (contents b1) = 10 # part" using h b1(2) by simp
  obtain b2 where b2: "mem_write b1 0 (10 # part) = Some b2" "length (mem b2) = length (mem b1)"
      "take (Suc (length part)) (mem b2) = 10 # part"
    using mem_write_Some [of 0 "10 # part" b1] lt by auto
  let ?b = "b2\<lparr>used := Suc (length part)\<rparr>"
  have hd: "http_get_header al 0 64 b (Some ?p # fd) = Some (fold length_step ls 0, ?b, fd)"
    using b1(1,3) s c g rest b2(1) h by (subst http_get_header.simps) (simp add: Let_def)
  have cb: "contents ?b = 10 # part" "buffer_wf ?b"
    using b2(2,3) lt by (simp_all add: contents_def buffer_wf_def)
  have "io_room al ?b (length (fd_data fd)) 0" using cb assms(10,13) by (simp add: io_room_def)
  from buffer_read_loop_clean [OF this assms(7) order_refl, of n] assms(9) obtain b' fd' where
    l: "buffer_read_loop al ?b n 0 fd = Some (0, b', fd')" "buffer_wf b'"
      "contents b' = (10 # part) @ take (n - Suc (length part)) (fd_data fd)"
    using cb by auto
  have "contents b' = take n (10 # part @ fd_data fd)" using l(3) assms(9) by (cases n) auto
  moreover from this have "used b' = n \<longleftrightarrow> n \<le> Suc (length (part @ fd_data fd))"
    using length_contents [OF l(2)] by (auto simp: min_def split: if_splits)
  ultimately show ?thesis using hd l(1) assms(8) by (auto simp: http_get_response_def)
qed

theorem http_get_misplaces_witness:
  "\<exists>b' fd'. http_get_response plain_alloc \<lparr>mem = replicate 70 0, used = 0\<rparr>
      (Some (concat (map (\<lambda>l. l @ [10]) [str ''Content-Length: 4'']) @ 10 # [1, 2]) # [Some [3, 4], Some [5]]) =
    Some (unat (fold length_step [str ''Content-Length: 4''] 0) \<le> Suc (length ([1, 2] @ fd_data [Some [3, 4], Some [5]])), b', fd') \<and>
    contents b' = take (unat (fold length_step [str ''Content-Length: 4''] 0)) (10 # [1, 2] @ fd_data [Some [3, 4], Some [5]])"
  by (rule http_get_misplaces [OF refl])
    (simp_all add: length_line_ok_def length_step_def length_key_def length_value_def str_def isspace_def isdigit_def
      byte_of_def decimal_def)

end
