(* ===== verification/BlkdCache.thy ===== *)
theory BlkdCache
  imports Prelude
begin

text \<open>
  The choice of a block to drop from the cache (\<open>choose_block_to_free\<close> of
  \<open>src/blkd/blkd-cache.c\<close>), the only function of this beginning of a cache. The answers of \<open>rand\<close>
  are a parameter; \<open>None\<close> is a division by zero or a read behind the weights.
\<close>

definition weight_at :: "byte list \<Rightarrow> nat \<Rightarrow> byte option" where
  "weight_at use_weights i = (if i < length use_weights then Some (use_weights ! i) else None)"

fun choose_block_loop :: "(nat \<Rightarrow> nat) \<Rightarrow> nat \<Rightarrow> byte list \<Rightarrow> nat list \<Rightarrow> nat \<Rightarrow> byte \<Rightarrow> nat option" where
  "choose_block_loop rand blocks use_weights [] use_index use_weight = Some use_index"
| "choose_block_loop rand blocks use_weights (i # is) use_index use_weight =
     (let test_index = rand (Suc i) mod blocks
      in case weight_at use_weights test_index of
           None \<Rightarrow> None
         | Some test_weight \<Rightarrow>
             if test_weight < use_weight then choose_block_loop rand blocks use_weights is test_index test_weight
             else choose_block_loop rand blocks use_weights is use_index use_weight)"

definition choose_block_to_free :: "(nat \<Rightarrow> nat) \<Rightarrow> nat \<Rightarrow> byte list \<Rightarrow> nat option" where
  "choose_block_to_free rand blocks use_weights =
     (if blocks = 0 then None
      else let use_index = rand 0 mod blocks
           in case weight_at use_weights use_index of
                None \<Rightarrow> None
              | Some use_weight \<Rightarrow> choose_block_loop rand blocks use_weights [0..<10] use_index use_weight)"

lemma choose_block_loop_least:
  assumes "0 < blocks" and "length ws = blocks" and "i < blocks" and "i \<in> seen" and "\<forall>j \<in> seen. ws ! i \<le> ws ! j"
  shows "\<exists>k. choose_block_loop rand blocks ws is i (ws ! i) = Some k \<and> k < blocks \<and>
    k \<in> seen \<union> (\<lambda>x. rand (Suc x) mod blocks) ` set is \<and>
    (\<forall>j \<in> seen \<union> (\<lambda>x. rand (Suc x) mod blocks) ` set is. ws ! k \<le> ws ! j)"
  using assms(3-5)
proof (induction "is" arbitrary: i seen)
  case (Cons x xs)
  let ?t = "rand (Suc x) mod blocks"
  have t: "?t < blocks" "weight_at ws ?t = Some (ws ! ?t)" using assms(1,2) by (simp_all add: weight_at_def)
  have e: "insert ?t seen \<union> (\<lambda>x. rand (Suc x) mod blocks) ` set xs = seen \<union> (\<lambda>x. rand (Suc x) mod blocks) ` set (x # xs)"
    by auto
  show ?case
  proof (cases "ws ! ?t < ws ! i")
    case True
    then have "\<forall>j \<in> insert ?t seen. ws ! ?t \<le> ws ! j" using Cons.prems(3) by (auto intro: less_imp_le less_le_trans)
    from Cons.IH [OF t(1) _ this] show ?thesis unfolding e using True t(2) by (simp add: Let_def)
  next
    case False
    then have "\<forall>j \<in> insert ?t seen. ws ! i \<le> ws ! j" using Cons.prems(3) by (auto simp: not_less)
    from Cons.IH [OF Cons.prems(1) _ this] Cons.prems(2) show ?thesis unfolding e using False t(2) by (simp add: Let_def)
  qed
qed simp

text \<open>If every block has a weight, the block that is chosen exists and is one of the eleven that
  \<open>rand\<close> picked, with the least weight among them.\<close>

theorem choose_block_least:
  assumes "0 < blocks" and "length use_weights = blocks"
  shows "\<exists>k. choose_block_to_free rand blocks use_weights = Some k \<and> k < blocks \<and>
    (\<exists>n \<le> 10. k = rand n mod blocks) \<and> (\<forall>n \<le> 10. use_weights ! k \<le> use_weights ! (rand n mod blocks))"
proof -
  let ?i = "rand 0 mod blocks"
  have i: "?i < blocks" "weight_at use_weights ?i = Some (use_weights ! ?i)" using assms by (simp_all add: weight_at_def)
  have s: "{?i} \<union> (\<lambda>x. rand (Suc x) mod blocks) ` set [0..<10] = (\<lambda>n. rand n mod blocks) ` {n. n \<le> 10}"
  proof -
    have e: "{n. n \<le> 10} = insert 0 (Suc ` set [0..<10])"
    proof (rule set_eqI)
      show "n \<in> {n. n \<le> 10} \<longleftrightarrow> n \<in> insert 0 (Suc ` set [0..<10])" for n :: nat by (cases n) auto
    qed
    show ?thesis unfolding e image_insert image_image by blast
  qed
  from choose_block_loop_least [OF assms i(1), of "{?i}" rand "[0..<10]"] show ?thesis
    unfolding s using i(2) assms(1) by (auto simp: choose_block_to_free_def Let_def)
qed

theorem choose_block_least_witness:
  "\<exists>k. choose_block_to_free (\<lambda>n. 5 * n + 1) 3 [4, 2, 9] = Some k \<and> [4, 2, 9 :: byte] ! k \<le> [4, 2, 9] ! ((5 * 0 + 1) mod 3)"
  using choose_block_least [of 3 "[4, 2, 9]" "\<lambda>n. 5 * n + 1"] by auto

end
