(* ===== verification/Spec2Isabelle.thy ===== *)
theory Spec2Isabelle
  imports Vluint Bases Arrays Dzip DzipChain Json TarArchive HttpCat Metahash Preproc Libc Path HashFs PkgPack VmAssembler
    DzipOutput MetahashUtil GlbFile PkgPrograms LinkedList Network PipeProgram Filestore Mat4 Popcount HttpUrl BlkdCache
begin

text \<open>
  Verification of the C libraries of this repository, which live under \<open>src/src\<close> (a path
  such as \<open>tar/read.c\<close> below is relative to it). They are small libraries on top of each
  other: ranges and buffers of bytes; encodings of numbers and bytes as text; reading and
  writing of descriptors through buffers; chains, which pull data through update functions;
  the compressor dzip, the archiver tar and an HTTP client on top of these; a hash table,
  interned strings, a JSON parser, a parser and preprocessor of parenthesised text; digests
  with self-describing headers; a few string functions, paths, and a sector cache; linked
  lists, sockets, child processes and matrices.

  \<^bold>\<open>Conventions.\<close> A \<open>struct\<close> is a record, an enumeration a datatype, \<open>size_t\<close> a word of 64
  bits wherever the code depends on its width, bytes are words of 8 bits. Ranges and C
  strings are lists of bytes, a buffer is its memory with the number of used bytes, and the
  allocator is a parameter that may refuse and that fills fresh memory with anything. A
  function that can read or write out of bounds, or whose loop may not end, returns an
  option, and \<open>None\<close> stands for exactly that; an error that the code reports is a value of
  its own. Global state, output buffers and the state of a descriptor are passed and
  returned. What the operating system and the libraries answer (reads and writes of
  descriptors, \<open>strtod\<close>, \<open>stat\<close>, the user database, sockets, gcrypt, \<open>mkdir\<close>, a
  device) are parameters, and so are the table of \<open>pkg\<close>, whose sources are missing, and the
  arithmetic of floats. Messages to the log and the freeing of memory are left out, except where
  freeing is a claim of its own.

  \<^bold>\<open>What C leaves open.\<close> An access out of bounds, a null pointer that is followed and a
  variable that is read before it has a value (as with arguments of \<open>metahash-analyzer\<close>) are the
  fault of their theory, and so are, in the virtual machine, undefined results of arithmetic and
  operands that are not aligned. Where C or POSIX leave a choice it is a parameter: the values of
  \<open>isspace\<close>, the missing argument of \<open>base16_encode\<close>, whether the entries of the user
  database share one storage (\<open>one_entry\<close> in \<open>TarWrite\<close>). There is one exception: the
  initializer in \<open>http_getline\<close> is evaluated in the order of its members.

  \<^bold>\<open>Theories.\<close>
  \<^item> \<open>Prelude\<close>: bytes, strings, lemmas on words and lists. \<open>Codec\<close>: the locales \<open>codec\<close> and
    \<open>prefix_codec\<close>, the contracts of encodings, interpreted for the encodings below.
  \<^item> \<open>Vluint\<close> (\<open>vluint/vluint.c\<close>) and \<open>Bases\<close> (\<open>base16\<close>, \<open>base2\<close>, \<open>metabase\<close>): encoders and
    decoders with their round trips and the inputs that they reject.
  \<^item> \<open>Arrays\<close> (\<open>array/\<close>): buffers with allocation, appending and shifting, searches in ranges,
    decimal numbers. \<open>BufferIo\<close> and \<open>Getline\<close> (\<open>buffer_io/buffer_io.c\<close>): reading, writing,
    formatting, and reading by lines. \<open>FileIo\<close> (\<open>file/file.c\<close>, \<open>filebuffer/filebuffer.c\<close>): a stream
    read into memory as a whole, a descriptor copied to a temporary file.
  \<^item> \<open>DzipFormat\<close>, \<open>Inflate\<close>, \<open>Deflate\<close>, \<open>Dzip\<close> (\<open>dzip/\<close>): the compressor with its match table,
    the decompressor, and what they promise each other: round trip, safety on every input,
    the bound of the output size, concatenation.
  \<^item> \<open>Chain\<close> (\<open>chain-io/read.c\<close>, \<open>chain-io/write.c\<close>): the machine that pulls and pushes, and
    its contracts as locales: \<open>chain_input\<close> (every update delivers more of the data of a
    source, comes nearer to its end, and says so at the end), \<open>chain_source\<close>, \<open>chain_sink\<close>
    and \<open>chain_pipe\<close>, in which the copy loop is proved once. \<open>ChainFd\<close> interprets them for
    descriptors, \<open>DzipChain\<close> for the two input chains of dzip and the program built from them,
    \<open>HttpChain\<close> for the chain of a request. \<open>DzipOutput\<close> builds the output chains of dzip on any
    \<open>chain_sink\<close> and interprets that for descriptors.
  \<^item> \<open>Table\<close> (\<open>table/\<close>, \<open>immutable/\<close>): the hash table refines a map, in every history of
    operations, with the growth of its array computed as the floating-point code does;
    interned strings. The locale there is the contract of a map with a counter.
  \<^item> \<open>Json\<close> (\<open>json/json.c\<close>): the parser, safe on every text, and its results on rendered trees.
  \<^item> \<open>TarRead\<close>, \<open>TarWrite\<close>, \<open>Tar\<close>, \<open>TarArchive\<close> (\<open>tar/\<close>): headers, entries, and whole
    archives written and read back.
  \<^item> \<open>Http\<close>, \<open>HttpResponse\<close>, \<open>HttpChain\<close> (\<open>http/client.c\<close>): the update functions as a machine
    with four phases, a grammar of responses, and the invariant that leads from a new
    connection to the delivered content. \<open>HttpCat\<close> (\<open>http/http-cat.util.c\<close>): several requests on
    one connection.
  \<^item> \<open>Metahash\<close> (\<open>metahash/metahash.c\<close>): headers, tables of hash functions, digests.
    \<open>MetahashUtil\<close>: the programs \<open>metahash\<close> and \<open>metahash-analyzer\<close>. \<open>Filestore\<close>
    (\<open>filestore/\<close>): paths of digests, linking and copying into a store and resolving conflicts
    there, over what the manuals say of the calls of the operating system; its two programs.
  \<^item> \<open>Paren\<close>, \<open>ParenTree\<close>, \<open>Preproc\<close> (\<open>paren-parser/\<close>): the parser on a heap of nodes that are
    linked through a pointer to a pointer, the forests they represent, and the walk of the
    preprocessor with its stack of layers against the recursive expansion of a forest.
  \<^item> \<open>Libc\<close> (\<open>libc/\<close>), \<open>Path\<close> (\<open>path/path.c\<close>), \<open>HashFs\<close> (\<open>hash-fs/hash-fs.c\<close>).
  \<^item> \<open>PkgLog\<close>, \<open>PkgRoot\<close>, \<open>PkgInstall\<close>, \<open>PkgPack\<close>, \<open>PkgPrograms\<close> (\<open>pkg/\<close>): the log of the owners of paths,
    over the contract of a string table that is interpreted for the table of \<open>Table\<close>; opening
    and closing a root; installing an archive against a recursive specification over its
    entries; packing trees of files, through the buffers and the compressor, into an archive that
    installs as these trees say; and the two programs from their options on.
  \<^item> \<open>Vm\<close>, \<open>VmText\<close>, \<open>VmAssembler\<close> (\<open>src/backburner/vm\<close>): a machine with its step relation, type
    safety and termination without jumps; programs in files; constants and words; the assembler
    against a structured meaning of programs, which the machine is shown to follow.
  \<^item> \<open>Gltf\<close>, \<open>GltfDocument\<close>, \<open>GlbFile\<close> (\<open>src/backburner/gltf\<close>): GLB files; the document that is
    read from a JSON value, with arrays that refer to each other by index, an invariant on these
    references and the reading of rendered documents; the programs that print GLB files.
  \<^item> \<open>LinkedList\<close> (\<open>list/list.h\<close>): pushing at both ends and popping on a map of links,
    against a sequence. \<open>Mat4\<close> (\<open>vec/mat4.c\<close>): matrices over a commutative ring, and
    what the matrix of a quaternion turns. \<open>Popcount\<close> (\<open>src/backburner/popcount\<close>): the
    fields of a word that are added in parallel, against the sums of lists.
  \<^item> \<open>Network\<close> (\<open>network/network.c\<close>) and \<open>PipeProgram\<close> (\<open>pipe-program/pipe-program.c\<close>): calls of
    the operating system in the order in which the code makes them, with the descriptors, the
    address records and the mutex they take and give back.
  \<^item> \<open>HttpUrl\<close> (\<open>src/backburner/http/client.c\<close>): addresses, requests, header lines and the
    reading of a response of the older HTTP client. \<open>BlkdCache\<close> (\<open>blkd/blkd-cache.c\<close>): the block that gives way.

  \<^bold>\<open>Bounds and fuel.\<close> Sizes are bounded where the code would overflow: buffers by \<open>2 ^ 60\<close>,
  sources of chains by \<open>2 ^ 57\<close>, tables by \<open>2 ^ 50\<close> items, one dzip message by the 32 bits of
  its sizes. Loops are recursive functions with a measure (the rest of the input, the free
  space, what a descriptor still delivers) wherever they end; \<open>chain_pull\<close>, \<open>chain_copy\<close>,
  the walk of the preprocessor, the loops over an archive and the virtual machine may not end
  and are \<open>partial_function\<close>s, and their theorems state that they return. The recursion over
  directories has a bound that has to exceed their depth. The recursion of the JSON parser and of
  \<open>paren_atom_free\<close> has a fuel that the theorems show to be enough: the length of the text
  and the number of nodes.

  \<^bold>\<open>Not modelled.\<close> \<open>getopt_long\<close> (the options of the programs are lists of what it
  answers); the manifests of \<open>pkg\<close>, which are beginnings; \<open>url\<close>,
  which does not parse as C; the requests of the older HTTP
  client that run together, whose function does not compile; rounding in
  the matrices; graphics programs; headers without code (\<open>kademlia\<close>, \<open>blkd\<close> and
  others); the other experiments under \<open>src/backburner\<close> and the discarded versions under
  \<open>src/junked\<close>. Threads are
  not modelled: a mutex that is taken already is a fault.
\<close>

end
